(* ===== verification/Prelude.thy ===== *)
theory Prelude
  imports Main "HOL-Library.Word" "HOL-Library.List_Lexorder"
begin

text \<open>
  Shared vocabulary of the development: the machine integers and byte strings of the
  C++ code, the three way comparison \<open>(a > b) - (a < b)\<close> that the code spells out in
  many places, raw memory writes into a byte buffer, and the generic list lemmas the
  components use.  Byte strings are ordered by the library's lexicographic order on lists;
  since \<open><\<close> on words is unsigned, this is the order of \<open>memcmp\<close> followed by the length.
\<close>

unbundle bit_operations_syntax

section \<open>Machine types\<close>

text \<open>Definitions that the concrete instances unfold.\<close>

named_theorems eval_simps

type_synonym byte = "8 word"
type_synonym u16 = "16 word"
type_synonym u32 = "32 word"
type_synonym u64 = "64 word"

text \<open>A \<open>std::string_view\<close>: the bytes it covers.\<close>

type_synonym str = "byte list"

named_theorems pair_simps "evaluation of the accessors of a pair"
named_theorems memlist_simps "unfolding the operations of a list of pairs"

section \<open>Three way comparison\<close>

definition sgn3 :: "'a::linorder \<Rightarrow> 'a \<Rightarrow> int" where
  "sgn3 a b = of_bool (b < a) - of_bool (a < b)"

lemma sgn3_less_0 [simp]: "sgn3 a b < 0 \<longleftrightarrow> a < b"
  by (auto simp: sgn3_def)

lemma sgn3_gr_0 [simp]: "0 < sgn3 a b \<longleftrightarrow> b < a"
  by (auto simp: sgn3_def)

lemma sgn3_eq_0 [simp]: "sgn3 a b = 0 \<longleftrightarrow> a = b"
  by (auto simp: sgn3_def)

lemma sgn3_0_eq [simp]: "0 = sgn3 a b \<longleftrightarrow> a = b"
  by (auto simp: sgn3_def)

lemma sgn3_ge_0 [simp]: "0 \<le> sgn3 a b \<longleftrightarrow> b \<le> a"
  by (auto simp: sgn3_def)

lemma sgn3_le_0 [simp]: "sgn3 a b \<le> 0 \<longleftrightarrow> a \<le> b"
  by (auto simp: sgn3_def)

lemma sgn3_same [simp]: "sgn3 a a = 0"
  by simp

lemma sgn3_swap: "sgn3 b a = - sgn3 a b"
  by (auto simp: sgn3_def)

lemma sgn3_range: "sgn3 a b \<in> {-1, 0, 1}"
  by (auto simp: sgn3_def)

lemma sgn3_mono_iff:
  assumes "f a < f b \<longleftrightarrow> a < b" and "f b < f a \<longleftrightarrow> b < a"
  shows "sgn3 (f a) (f b) = sgn3 a b"
  using assms by (simp add: sgn3_def)

lemma sgn3_Nil_Nil [simp]: "sgn3 ([] :: 'a::linorder list) [] = 0"
  by simp

lemma sgn3_Nil_Cons [simp]: "sgn3 [] (b # bs) = -1"
  by (simp add: sgn3_def)

lemma sgn3_Cons_Nil [simp]: "sgn3 (a # as) [] = 1"
  by (simp add: sgn3_def)

lemma sgn3_Cons_Cons:
  "sgn3 (a # as) (b # bs) = (if a = b then sgn3 as bs else sgn3 a b)"
  by (auto simp: sgn3_def)

section \<open>Raw memory\<close>

text \<open>
  \<open>memcpy(buf + off, bs, |bs|)\<close> on a buffer of fixed length.  A write never changes the
  length of the buffer; what would fall outside it is not written, and the components
  prove that their writes stay inside.
\<close>

definition write_at :: "nat \<Rightarrow> 'a list \<Rightarrow> 'a list \<Rightarrow> 'a list" where
  "write_at off bs buf = take (length buf) (take off buf @ bs @ drop (off + length bs) buf)"

definition in_bounds :: "nat \<Rightarrow> nat \<Rightarrow> 'a list \<Rightarrow> bool" where
  "in_bounds off n buf \<longleftrightarrow> off + n \<le> length buf"

lemma write_at_inside:
  "off + length bs \<le> length buf \<Longrightarrow>
     write_at off bs buf = take off buf @ bs @ drop (off + length bs) buf"
  by (simp add: write_at_def)

lemma length_write_at [simp]:
  "off + length bs \<le> length buf \<Longrightarrow> length (write_at off bs buf) = length buf"
  by (simp add: write_at_def)

lemma take_write_at_below:
  "n \<le> off \<Longrightarrow> off + length bs \<le> length buf \<Longrightarrow> take n (write_at off bs buf) = take n buf"
  by (simp add: write_at_inside)

lemma take_drop_write_at:
  "off + length bs \<le> length buf \<Longrightarrow>
     take (length bs) (drop off (write_at off bs buf)) = bs"
  by (simp add: write_at_inside)

lemma drop_write_at_above:
  "off + length bs \<le> n \<Longrightarrow> off + length bs \<le> length buf \<Longrightarrow>
     drop n (write_at off bs buf) = drop n buf"
  by (simp add: write_at_inside)

lemma take_drop_write_at_above:
  "n + m \<le> off \<Longrightarrow> off + length bs \<le> length buf \<Longrightarrow>
     take m (drop n (write_at off bs buf)) = take m (drop n buf)"
  by (simp add: write_at_inside take_drop)

lemma write_at_write_at_same:
  "length bs = length cs \<Longrightarrow> off + length bs \<le> length buf \<Longrightarrow>
     write_at off cs (write_at off bs buf) = write_at off cs buf"
  by (simp add: write_at_inside)

section \<open>Sorted lists and prefixes\<close>

lemma sorted_wrt_less_distinct:
  "sorted_wrt (<) (xs :: 'a::linorder list) \<Longrightarrow> distinct xs"
  by (induction xs) auto

lemma takeWhile_upt_length:
  assumes "j \<le> n" and "\<And>i. i < j \<Longrightarrow> P i" and "j < n \<Longrightarrow> \<not> P j"
  shows "length (takeWhile P [0..<n]) = j"
proof -
  have "length (takeWhile P [0..<n]) \<le> j"
  proof (cases "j < n")
    case True
    then have "[0..<n] = [0..<j] @ j # [Suc j..<n]"
      by (metis less_imp_le upt_add_eq_append upt_conv_Cons le_add_diff_inverse zero_le add_0)
    then show ?thesis using assms(3) True assms(2) by (simp add: takeWhile_append takeWhile_eq_all_conv)
  next
    case False
    with assms(1) have "j = n" by simp
    then show ?thesis using length_takeWhile_le [of P "[0..<n]"] by simp
  qed
  moreover have "j \<le> length (takeWhile P [0..<n])"
  proof (rule ccontr)
    assume "\<not> j \<le> length (takeWhile P [0..<n])"
    then have lt: "length (takeWhile P [0..<n]) < j" by simp
    then have "length (takeWhile P [0..<n]) < length [0..<n]" using assms(1) by simp
    from nth_length_takeWhile [OF this] have "\<not> P (length (takeWhile P [0..<n]))"
      using lt assms(1) by simp
    with assms(2) [OF lt] show False by simp
  qed
  ultimately show ?thesis by simp
qed

lemma length_takeWhile_stop: "x \<in> set xs \<Longrightarrow> \<not> P x \<Longrightarrow> length (takeWhile P xs) < length xs"
  by (induction xs) auto

lemma u64_max [simp]: "(x :: u64) \<le> 0xFFFFFFFFFFFFFFFF"
  using uint_bounded [of x] by (simp add: word_le_def)

end
