(* ===== verification/Endian.thy ===== *)
theory Endian
  imports Prelude
begin

text \<open>
  Byte order, from \<^verbatim>\<open>include/mybyteswap.h\<close> and \<^verbatim>\<open>include/myendian.h\<close>.  The
  target of the build (\<^verbatim>\<open>-march=sandybridge\<close>) is little endian, so \<open>htobe\<close> and
  \<open>betoh\<close> swap the octets.  Integers read from memory are little endian loads.
\<close>

section \<open>byteswap\<close>

definition byteswap16 :: "u16 \<Rightarrow> u16" where
  "byteswap16 a =
     push_bit 8 (0x00ff AND a) OR
     drop_bit 8 (0xff00 AND a)"

definition byteswap32 :: "u32 \<Rightarrow> u32" where
  "byteswap32 a =
     push_bit 24 (0x000000ff AND a) OR
     push_bit  8 (0x0000ff00 AND a) OR
     drop_bit  8 (0x00ff0000 AND a) OR
     drop_bit 24 (0xff000000 AND a)"

definition byteswap64 :: "u64 \<Rightarrow> u64" where
  "byteswap64 a =
     push_bit 56 (0x00000000000000ff AND a) OR
     push_bit 40 (0x000000000000ff00 AND a) OR
     push_bit 24 (0x0000000000ff0000 AND a) OR
     push_bit  8 (0x00000000ff000000 AND a) OR
     drop_bit  8 (0x000000ff00000000 AND a) OR
     drop_bit 24 (0x0000ff0000000000 AND a) OR
     drop_bit 40 (0x00ff000000000000 AND a) OR
     drop_bit 56 (0xff00000000000000 AND a)"

section \<open>htobe, betoh, htole, letoh\<close>

datatype Endian = LITTLE | BIG | UNKNOWN

definition getEndian :: Endian where
  "getEndian = LITTLE"

definition be_byteswap16 :: "u16 \<Rightarrow> u16" where
  "be_byteswap16 a = (if getEndian = BIG then a else byteswap16 a)"

definition be_byteswap32 :: "u32 \<Rightarrow> u32" where
  "be_byteswap32 a = (if getEndian = BIG then a else byteswap32 a)"

definition be_byteswap64 :: "u64 \<Rightarrow> u64" where
  "be_byteswap64 a = (if getEndian = BIG then a else byteswap64 a)"

definition le_byteswap64 :: "u64 \<Rightarrow> u64" where
  "le_byteswap64 a = (if getEndian = BIG then byteswap64 a else a)"

definition htobe16 :: "u16 \<Rightarrow> u16" where "htobe16 a = be_byteswap16 a"
definition betoh16 :: "u16 \<Rightarrow> u16" where "betoh16 a = be_byteswap16 a"
definition htobe32 :: "u32 \<Rightarrow> u32" where "htobe32 a = be_byteswap32 a"
definition betoh32 :: "u32 \<Rightarrow> u32" where "betoh32 a = be_byteswap32 a"
definition htobe64 :: "u64 \<Rightarrow> u64" where "htobe64 a = be_byteswap64 a"
definition betoh64 :: "u64 \<Rightarrow> u64" where "betoh64 a = be_byteswap64 a"
definition htole64 :: "u64 \<Rightarrow> u64" where "htole64 a = le_byteswap64 a"
definition letoh64 :: "u64 \<Rightarrow> u64" where "letoh64 a = le_byteswap64 a"

lemmas endian_defs =
  getEndian_def be_byteswap16_def be_byteswap32_def be_byteswap64_def le_byteswap64_def
  htobe16_def betoh16_def htobe32_def betoh32_def htobe64_def betoh64_def
  htole64_def letoh64_def

section \<open>Loads\<close>

text \<open>
  An integer read through a pointer to the bytes \<open>bs\<close> (\<open>|bs| \<le> 8\<close>): on the little
  endian target the first byte is the least significant one.
\<close>

definition load_le :: "str \<Rightarrow> u64" where
  "load_le bs = word_of_int (horner_sum uint (2 ^ 8) bs)"

lemma bit_load_le:
  "bit (load_le bs) n \<longleftrightarrow> n < 64 \<and> n div 8 < length bs \<and> bit (bs ! (n div 8)) (n mod 8)"
  by (simp add: load_le_def bit_simps
        bit_horner_sum_uint_exp_iff [where 'a = 8, simplified])

section \<open>Octets of a swapped word\<close>

lemma octet_cases:
  assumes "n < 8 * m"
  obtains k r where "n = 8 * k + r" "k < m" "r < (8::nat)"
proof -
  have "n = 8 * (n div 8) + n mod 8" "n div 8 < m" "n mod 8 < 8"
    using assms by auto
  then show ?thesis by (rule that)
qed

lemma octet_eqI:
  fixes a b :: "'a::len word"
  assumes "LENGTH('a) = 8 * m"
    and "\<And>k r. k < m \<Longrightarrow> r < 8 \<Longrightarrow> bit a (8 * k + r) \<longleftrightarrow> bit b (8 * k + r)"
  shows "a = b"
proof (rule bit_word_eqI)
  fix n assume "n < LENGTH('a)"
  then have "n < 8 * m" using assms(1) by simp
  then obtain k r where "n = 8 * k + r" "k < m" "r < 8" by (rule octet_cases)
  then show "bit a n \<longleftrightarrow> bit b n" using assms(2) by simp
qed

lemma octet_masks:
  "(0xff :: u16) = mask 8" "(0xff00 :: u16) = push_bit 8 (mask 8)"
  "(0xff :: u32) = mask 8" "(0xff00 :: u32) = push_bit 8 (mask 8)"
  "(0xff0000 :: u32) = push_bit 16 (mask 8)" "(0xff000000 :: u32) = push_bit 24 (mask 8)"
  "(0xff :: u64) = mask 8" "(0xff00 :: u64) = push_bit 8 (mask 8)"
  "(0xff0000 :: u64) = push_bit 16 (mask 8)" "(0xff000000 :: u64) = push_bit 24 (mask 8)"
  "(0xff00000000 :: u64) = push_bit 32 (mask 8)"
  "(0xff0000000000 :: u64) = push_bit 40 (mask 8)"
  "(0xff000000000000 :: u64) = push_bit 48 (mask 8)"
  "(0xff00000000000000 :: u64) = push_bit 56 (mask 8)"
  by (simp_all add: mask_eq_exp_minus_1)

lemma less_2_cases: "(k::nat) < 2 \<Longrightarrow> k = 0 \<or> k = 1"
  by linarith

lemma less_4_cases: "(k::nat) < 4 \<Longrightarrow> k = 0 \<or> k = 1 \<or> k = 2 \<or> k = 3"
  by linarith

lemma less_8_cases:
  "(k::nat) < 8 \<Longrightarrow> k = 0 \<or> k = 1 \<or> k = 2 \<or> k = 3 \<or> k = 4 \<or> k = 5 \<or> k = 6 \<or> k = 7"
  by linarith

lemma bit_byteswap16_octet:
  assumes "k < 2" "r < 8"
  shows "bit (byteswap16 a) (8 * k + r) \<longleftrightarrow> bit a (8 * (1 - k) + r)"
  using less_2_cases [OF assms(1)] assms(2)
  by (elim disjE) (simp_all add: byteswap16_def octet_masks bit_simps)

lemma bit_byteswap32_octet:
  assumes "k < 4" "r < 8"
  shows "bit (byteswap32 a) (8 * k + r) \<longleftrightarrow> bit a (8 * (3 - k) + r)"
  using less_4_cases [OF assms(1)] assms(2)
  by (elim disjE) (simp_all add: byteswap32_def octet_masks bit_simps)

lemma bit_byteswap64_octet:
  assumes "k < 8" "r < 8"
  shows "bit (byteswap64 a) (8 * k + r) \<longleftrightarrow> bit a (8 * (7 - k) + r)"
  using less_8_cases [OF assms(1)] assms(2)
  by (elim disjE) (simp_all add: byteswap64_def octet_masks bit_simps)

lemma byteswap16_byteswap16 [simp]: "byteswap16 (byteswap16 a) = a"
  by (rule octet_eqI [where m = 2]) (simp_all add: bit_byteswap16_octet)

lemma byteswap32_byteswap32 [simp]: "byteswap32 (byteswap32 a) = a"
  by (rule octet_eqI [where m = 4]) (simp_all add: bit_byteswap32_octet)

lemma byteswap64_byteswap64 [simp]: "byteswap64 (byteswap64 a) = a"
  by (rule octet_eqI [where m = 8]) (simp_all add: bit_byteswap64_octet)

text \<open>The round trips that the on-disk format rests on.\<close>

lemma betoh_htobe [simp]:
  "betoh16 (htobe16 a) = a" "betoh32 (htobe32 b) = b" "betoh64 (htobe64 c) = c"
  by (simp_all add: endian_defs)

lemma htobe_betoh [simp]:
  "htobe16 (betoh16 a) = a" "htobe32 (betoh32 b) = b" "htobe64 (betoh64 c) = c"
  by (simp_all add: endian_defs)

lemma htobe_inject [simp]:
  "htobe16 a = htobe16 a' \<longleftrightarrow> a = a'" "htobe32 b = htobe32 b' \<longleftrightarrow> b = b'"
  "htobe64 c = htobe64 c' \<longleftrightarrow> c = c'"
  by (metis betoh_htobe)+

lemma letoh_htole [simp]: "letoh64 (htole64 a) = a"
  by (simp add: endian_defs)

lemma byteswap_0 [simp]: "byteswap16 0 = 0" "byteswap32 0 = 0" "byteswap64 0 = 0"
  by (simp_all add: byteswap16_def byteswap32_def byteswap64_def)

lemma htobe_0 [simp]: "htobe16 0 = 0" "htobe32 0 = 0" "htobe64 0 = 0"
  by (simp_all add: endian_defs)

lemma htobe_eq_0_iff [simp]:
  "htobe16 a = 0 \<longleftrightarrow> a = 0" "htobe32 b = 0 \<longleftrightarrow> b = 0" "htobe64 c = 0 \<longleftrightarrow> c = 0"
  by (metis betoh_htobe htobe_0)+

text \<open>
  The value of a big endian byte string, and the fact that a swapped eight byte load has
  it: this is what makes integer comparison of such loads the order of the strings.
\<close>

definition be_value :: "str \<Rightarrow> int" where
  "be_value bs = horner_sum uint (2 ^ 8) (rev bs)"

lemma be_value_Nil [simp]: "be_value [] = 0"
  by (simp add: be_value_def)

lemma horner_sum_snoc:
  "horner_sum f a (xs @ [x]) = horner_sum f a xs + a ^ length xs * (f x :: 'b::comm_semiring_1)"
  by (induction xs) (simp_all add: algebra_simps)

lemma be_value_Cons [simp]: "be_value (b # bs) = uint b * 256 ^ length bs + be_value bs"
  by (simp add: be_value_def horner_sum_snoc)

lemma be_value_nonneg [simp]: "0 \<le> be_value bs"
  by (induction bs) simp_all

lemma be_value_bound: "be_value bs < 256 ^ length bs"
proof (induction bs)
  case (Cons b bs)
  have "uint b \<le> 255" using uint_bounded [of b] by simp
  then have "uint b * 256 ^ length bs \<le> 255 * 256 ^ length bs"
    by (rule mult_right_mono) simp
  with Cons.IH have "be_value (b # bs) < 255 * 256 ^ length bs + 256 ^ length bs"
    unfolding be_value_Cons by linarith
  then show ?case by simp
qed simp

lemma be_value_less_iff:
  "length as = length bs \<Longrightarrow> be_value as < be_value bs \<longleftrightarrow> as < bs"
proof (induction as bs rule: list_induct2)
  case (Cons a as b bs)
  let ?B = "256 ^ length bs :: int"
  have lt: "uint x * ?B + be_value xs < uint y * ?B + be_value ys"
    if "x < y" "length xs = length bs" "length ys = length bs" for x y :: byte and xs ys
  proof -
    have "uint x + 1 \<le> uint y" using that(1) by (simp add: word_less_def)
    then have "(uint x + 1) * ?B \<le> uint y * ?B" by (rule mult_right_mono) simp
    then have "uint x * ?B + ?B \<le> uint y * ?B" by (simp add: algebra_simps)
    moreover have "be_value xs < ?B" using be_value_bound [of xs] that by simp
    ultimately show ?thesis using be_value_nonneg [of ys] by linarith
  qed
  consider "a < b" | "a = b" | "b < a" by (rule linorder_cases)
  then show ?case
  proof cases
    case 1 then show ?thesis using lt [of a b as bs] Cons.hyps by simp
  next
    case 2 then show ?thesis using Cons by simp
  next
    case 3 then show ?thesis using lt [of b a bs as] Cons.hyps by (auto simp: not_less)
  qed
qed simp

lemma be_value_inject:
  "length as = length bs \<Longrightarrow> be_value as = be_value bs \<longleftrightarrow> as = bs"
  by (metis be_value_less_iff less_irrefl linorder_less_linear)

lemma byteswap64_load_le:
  assumes "length bs = 8"
  shows "byteswap64 (load_le bs) = load_le (rev bs)"
proof (rule octet_eqI [where m = 8])
  fix k r :: nat assume k: "k < 8" and r: "r < 8"
  have o: "(8 * j + r) div 8 = j" "(8 * j + r) mod 8 = r" for j using r by simp_all
  have "8 * (7 - k) + r < 64" "7 - k < 8" using k r by linarith+
  then show "bit (byteswap64 (load_le bs)) (8 * k + r) \<longleftrightarrow> bit (load_le (rev bs)) (8 * k + r)"
    using k r assms by (simp add: bit_byteswap64_octet bit_load_le o rev_nth)
qed simp

lemma uint_betoh64_load:
  assumes "length bs = 8"
  shows "uint (betoh64 (load_le bs)) = be_value bs"
proof -
  have "be_value bs < 2 ^ 64" using be_value_bound [of bs] assms by simp
  then have "uint (load_le (rev bs)) = be_value bs"
    using be_value_nonneg [of bs]
    by (simp add: load_le_def be_value_def uint_word_of_int)
  then show ?thesis using assms by (simp add: endian_defs byteswap64_load_le)
qed

section \<open>Properties\<close>

text \<open>
  Big endian storage is lossless and keeps the order: the sixteen, thirty two and sixty four
  bit conversions undo each other, and eight bytes read from memory and converted to host order
  compare like the byte strings.
\<close>

lemma big_endian_order:
  assumes "length as = 8" "length bs = 8"
  shows "betoh16 (htobe16 a) = a \<and> betoh32 (htobe32 b) = b \<and> betoh64 (htobe64 c) = c \<and>
    letoh64 (htole64 c) = c \<and>
    (betoh64 (load_le as) < betoh64 (load_le bs) \<longleftrightarrow> as < bs)"
  using assms by (simp add: word_less_def uint_betoh64_load be_value_less_iff)


end
