(* ===== verification/MyString.thy ===== *)
theory MyString
  imports Endian
begin

text \<open>
  Byte string primitives: \<^verbatim>\<open>include/mystring.h\<close> (comparison, prefixes, concatenation)
  and \<^verbatim>\<open>include/comparator.h\<close>.  The reference they are compared with is the
  lexicographic order of the list library; the concatenations are shown to stay inside the
  buffer they are given.
\<close>

section \<open>mystring.h: compare, equals\<close>

text \<open>
  \<open>memcmp\<close>: the C standard fixes the sign of the result only; the bytes are compared as
  \<open>unsigned char\<close>.
\<close>

fun memcmp :: "str \<Rightarrow> str \<Rightarrow> nat \<Rightarrow> int" where
  "memcmp (x # xs) (y # ys) (Suc n) = (if x = y then memcmp xs ys n else sgn3 x y)"
| "memcmp _ _ _ = 0"

text \<open>
  The first characters are compared as \<open>char\<close>, which is a signed type on the target, the
  rest through \<open>memcmp\<close>.
\<close>

definition compare :: "str \<Rightarrow> str \<Rightarrow> int" where
  "compare s1 s2 =
     (let size1 = length s1; size2 = length s2 in
      if size1 \<noteq> 0 \<and> size2 \<noteq> 0 \<and> s1 ! 0 \<noteq> s2 ! 0 then sgn3 (sint (s1 ! 0)) (sint (s2 ! 0))
      else
        let minSize = min size1 size2; res = memcmp s1 s2 minSize in
        if minSize \<noteq> 0 \<and> res \<noteq> 0 then res else sgn3 size1 size2)"

definition equals :: "str \<Rightarrow> str \<Rightarrow> bool" where
  "equals s1 s2 \<longleftrightarrow> length s1 = length s2 \<and> memcmp s1 s2 (length s1) = 0"

definition same_prefix :: "str \<Rightarrow> str \<Rightarrow> bool" where
  "same_prefix prefix s \<longleftrightarrow>
     length prefix \<le> length s \<and> equals prefix (take (length prefix) s)"

definition after_prefix_size :: "nat \<Rightarrow> str \<Rightarrow> str" where
  "after_prefix_size prefix_size s =
     (if prefix_size \<le> length s then drop prefix_size s else s)"

definition after_prefix :: "str \<Rightarrow> str \<Rightarrow> str" where
  "after_prefix prefix s = after_prefix_size (length prefix) s"

section \<open>mystring.h: concatenation into a fixed buffer\<close>

text \<open>
  The buffer is explicit: the functions return the buffer after the writes and the
  \<open>string_view\<close> over it.
\<close>

definition concat_append :: "str \<times> nat \<Rightarrow> str \<Rightarrow> str \<times> nat" where
  "concat_append st x = (case st of (buffer, pos) \<Rightarrow> (write_at pos x buffer, pos + length x))"

definition concatenateRawBuffer :: "str \<Rightarrow> str list \<Rightarrow> str \<times> str" where
  "concatenateRawBuffer buffer args =
     (case foldl concat_append (buffer, 0) args of (buffer', pos) \<Rightarrow> (buffer', take pos buffer'))"

definition concatenateBufferSize :: "str list \<Rightarrow> nat" where
  "concatenateBufferSize args = sum_list (map length args)"

definition concatenateBuffer :: "str \<Rightarrow> str list \<Rightarrow> str \<times> str" where
  "concatenateBuffer buffer args =
     (if concatenateBufferSize args > length buffer then (buffer, [])
      else concatenateRawBuffer buffer args)"

definition implode_rest :: "str \<Rightarrow> str \<times> nat \<Rightarrow> str list \<Rightarrow> str \<times> nat" where
  "implode_rest separator st xs =
     foldl (\<lambda>st x. concat_append (concat_append st separator) x) st xs"

definition implodeRawBuffer :: "str \<Rightarrow> str list \<Rightarrow> str \<Rightarrow> str \<Rightarrow> str \<Rightarrow> str \<times> str" where
  "implodeRawBuffer buffer container separator first lst =
     (let st = concat_append (buffer, 0) first;
          st = (case container of [] \<Rightarrow> st
                | x # xs \<Rightarrow> implode_rest separator (concat_append st x) xs);
          (buffer', pos) = concat_append st lst
      in (buffer', take pos buffer'))"

definition implodeBufferSize :: "str list \<Rightarrow> str \<Rightarrow> str \<Rightarrow> str \<Rightarrow> nat" where
  "implodeBufferSize container separator first lst =
     (let sz = sum_list (map length container) in
      if container = [] then sz + length first + length lst
      else sz + (length container - 1) * length separator + length first + length lst)"

definition implodeBuffer :: "str \<Rightarrow> str list \<Rightarrow> str \<Rightarrow> str \<Rightarrow> str \<Rightarrow> str \<times> str" where
  "implodeBuffer buffer container separator first lst =
     (if implodeBufferSize container separator first lst > length buffer then (buffer, [])
      else implodeRawBuffer buffer container separator first lst)"

text \<open>The \<open>hash\<close> of \<^verbatim>\<open>mystring.h\<close> (djb2) on 32 bits.\<close>

definition hash :: "str \<Rightarrow> u32" where
  "hash s = foldl (\<lambda>h c. (push_bit 5 h + h) + ucast c) 5381 s"

section \<open>comparator.h\<close>

definition comparator_comp :: "'a::linorder \<Rightarrow> 'a \<Rightarrow> int" where
  "comparator_comp a b = sgn3 a b"

section \<open>compare and equals against the lexicographic order\<close>

lemma memcmp_equal_length:
  "length xs = length ys \<Longrightarrow> memcmp xs ys (length xs) = sgn3 xs ys"
  by (induction xs ys rule: list_induct2) (auto simp: sgn3_Cons_Cons)

lemma memcmp_self [simp]: "memcmp xs xs n = 0"
proof (induction xs arbitrary: n)
  case (Cons x xs)
  then show ?case by (cases n) auto
qed simp

lemma equals_iff [simp]: "equals s1 s2 \<longleftrightarrow> s1 = s2"
  using memcmp_equal_length [of s1 s2] by (auto simp: equals_def)

lemma same_prefix_iff: "same_prefix prefix s \<longleftrightarrow> take (length prefix) s = prefix"
  by (auto simp: same_prefix_def) (metis length_take min.absorb_iff2 min.commute order_refl)

lemma after_prefix_append: "after_prefix p (p @ s) = s"
  by (simp add: after_prefix_def after_prefix_size_def)

lemma same_prefix_after_prefix: "same_prefix p s \<Longrightarrow> p @ after_prefix p s = s"
  by (metis after_prefix_append append_take_drop_id same_prefix_iff)

lemma memcmp_min_length:
  "(if memcmp xs ys (min (length xs) (length ys)) \<noteq> 0
    then memcmp xs ys (min (length xs) (length ys))
    else sgn3 (length xs) (length ys)) = sgn3 xs ys"
proof (induction xs arbitrary: ys)
  case Nil
  then show ?case by (cases ys) (auto simp: sgn3_def)
next
  case (Cons x xs)
  show ?case
  proof (cases ys)
    case Nil then show ?thesis by (simp add: sgn3_def)
  next
    case (Cons y ys')
    then show ?thesis using Cons.IH [of ys'] by (auto simp: sgn3_Cons_Cons sgn3_def)
  qed
qed

lemma sint_inject: "sint (a :: byte) = sint b \<longleftrightarrow> a = b"
  by (metis uint_sint word_uint_eq_iff)

text \<open>
  The order that \<open>compare\<close> decides: lexicographic, with the first character read as a
  signed number.
\<close>

lemma compare_same_first:
  assumes "s1 = [] \<or> s2 = [] \<or> s1 ! 0 = s2 ! 0"
  shows "compare s1 s2 = sgn3 s1 s2"
proof -
  have "compare s1 s2 =
      (if memcmp s1 s2 (min (length s1) (length s2)) \<noteq> 0
       then memcmp s1 s2 (min (length s1) (length s2)) else sgn3 (length s1) (length s2))"
    using assms by (auto simp: compare_def Let_def)
  then show ?thesis by (simp only: memcmp_min_length)
qed

lemma compare_eq_0_iff [simp]: "compare s1 s2 = 0 \<longleftrightarrow> s1 = s2"
proof (cases "s1 = [] \<or> s2 = [] \<or> s1 ! 0 = s2 ! 0")
  case True then show ?thesis by (simp add: compare_same_first)
next
  case False
  then show ?thesis by (auto simp: compare_def Let_def sint_inject)
qed

definition ascii_first :: "str \<Rightarrow> bool" where
  "ascii_first s \<longleftrightarrow> (case s of [] \<Rightarrow> True | c # _ \<Rightarrow> unat c < 128)"

lemma sint_ascii: "unat (c :: byte) < 128 \<Longrightarrow> sint c = uint c"
proof -
  assume "unat c < 128"
  then have "int (unat c) < int 128" by (simp only: of_nat_less_iff)
  then have "uint c < 2 ^ 7" by simp
  moreover have "- (2 ^ 7) \<le> uint c" by (rule order_trans [OF _ uint_ge_0]) simp
  ultimately have "signed_take_bit 7 (uint c) = uint c"
    by (intro signed_take_bit_int_eq_self)
  then show "sint c = uint c" by (simp add: sint_uint)
qed

lemma compare_ascii:
  assumes "ascii_first s1" and "ascii_first s2"
  shows "compare s1 s2 = sgn3 s1 s2"
proof (cases "s1 = [] \<or> s2 = [] \<or> s1 ! 0 = s2 ! 0")
  case True then show ?thesis by (rule compare_same_first)
next
  case False
  then obtain x xs y ys where s: "s1 = x # xs" "s2 = y # ys" "x \<noteq> y"
    by (cases s1; cases s2) auto
  with assms have "sint x = uint x" "sint y = uint y"
    by (simp_all add: ascii_first_def sint_ascii)
  then have "compare s1 s2 = sgn3 (uint x) (uint y)"
    using s by (simp add: compare_def Let_def)
  also have "\<dots> = sgn3 x y" by (simp add: sgn3_def word_less_def)
  also have "\<dots> = sgn3 s1 s2" using s by (simp add: sgn3_Cons_Cons)
  finally show ?thesis .
qed

section \<open>The concatenations stay inside their buffer\<close>

lemma concat_append_simp [simp]:
  "concat_append (buffer, pos) x = (write_at pos x buffer, pos + length x)"
  by (simp add: concat_append_def)

lemma foldl_concat_append:
  assumes "pos + sum_list (map length args) \<le> length buffer"
  shows "foldl concat_append (buffer, pos) args =
           (write_at pos (concat args) buffer, pos + length (concat args))"
  using assms
proof (induction args arbitrary: buffer pos)
  case Nil
  then show ?case by (simp add: write_at_def)
next
  case (Cons x args)
  then have "foldl concat_append (write_at pos x buffer, pos + length x) args =
      (write_at (pos + length x) (concat args) (write_at pos x buffer),
       pos + length x + length (concat args))"
    by simp
  moreover have "write_at (pos + length x) (concat args) (write_at pos x buffer) =
      write_at pos (x @ concat args) buffer"
    using Cons.prems by (simp add: write_at_inside length_concat ac_simps)
  ultimately show ?case by (simp add: add.assoc)
qed

lemma concatenateBuffer_eq:
  assumes "concatenateBufferSize args \<le> length buffer"
  shows "concatenateBuffer buffer args = (write_at 0 (concat args) buffer, concat args)"
  using assms foldl_concat_append [of 0 args buffer]
  by (simp add: concatenateBuffer_def concatenateRawBuffer_def concatenateBufferSize_def
        length_concat write_at_inside)

lemma concatenateBuffer_overflow:
  "concatenateBufferSize args > length buffer \<Longrightarrow> concatenateBuffer buffer args = (buffer, [])"
  by (simp add: concatenateBuffer_def)

text \<open>\<open>implode\<close> is a concatenation of the pieces with the separators between them.\<close>

fun implode_pieces :: "str list \<Rightarrow> str \<Rightarrow> str list" where
  "implode_pieces [] sep = []"
| "implode_pieces [x] sep = [x]"
| "implode_pieces (x # xs) sep = x # sep # implode_pieces xs sep"

lemma implode_pieces_Cons:
  "implode_pieces (x # xs) sep = x # concat (map (\<lambda>y. [sep, y]) xs)"
  by (induction xs arbitrary: x) auto

lemma implode_rest_eq: "implode_rest sep st xs = foldl concat_append st (concat (map (\<lambda>y. [sep, y]) xs))"
  by (induction xs arbitrary: st) (simp_all add: implode_rest_def)

lemma implodeRawBuffer_eq:
  "implodeRawBuffer buffer xs sep f l =
     concatenateRawBuffer buffer (f # implode_pieces xs sep @ [l])"
  by (cases xs) (simp_all add: implodeRawBuffer_def concatenateRawBuffer_def
      implode_pieces_Cons implode_rest_eq Let_def)

lemma implodeBufferSize_eq:
  "implodeBufferSize xs sep f l = concatenateBufferSize (f # implode_pieces xs sep @ [l])"
proof (cases xs)
  case Nil
  then show ?thesis by (simp add: implodeBufferSize_def concatenateBufferSize_def)
next
  case (Cons y ys)
  have "sum_list (map length (concat (map (\<lambda>y. [sep, y]) ys))) =
        length ys * length sep + sum_list (map length ys)"
    by (induction ys) simp_all
  then show ?thesis
    using Cons by (simp add: implodeBufferSize_def concatenateBufferSize_def implode_pieces_Cons Let_def)
qed

lemma implodeBuffer_eq:
  assumes "implodeBufferSize xs sep f l \<le> length buffer"
  shows "snd (implodeBuffer buffer xs sep f l) = concat (f # implode_pieces xs sep @ [l])"
  using assms concatenateBuffer_eq [of "f # implode_pieces xs sep @ [l]" buffer]
  by (simp add: implodeBuffer_def implodeRawBuffer_eq implodeBufferSize_eq concatenateBuffer_def)

section \<open>Properties\<close>

text \<open>
  \<open>implodeBuffer\<close> never writes outside its buffer: either the pieces and separators fit and
  the result is their concatenation, written at the start of the buffer, or nothing is written and
  the result is empty.
\<close>

lemma implodeBuffer_safe:
  "length (fst (implodeBuffer buffer xs sep f l)) = length buffer \<and>
   (if implodeBufferSize xs sep f l \<le> length buffer
    then snd (implodeBuffer buffer xs sep f l) = f @ concat (implode_pieces xs sep) @ l \<and>
         take (implodeBufferSize xs sep f l) (fst (implodeBuffer buffer xs sep f l)) =
           snd (implodeBuffer buffer xs sep f l)
    else implodeBuffer buffer xs sep f l = (buffer, []))"
  by (auto simp: implodeBuffer_def implodeRawBuffer_eq implodeBufferSize_eq concatenateBufferSize_def
      concatenateRawBuffer_def foldl_concat_append length_concat write_at_inside Let_def)

end
