(* ===== verification/CmpLCP.thy ===== *)
theory CmpLCP
  imports MyString
begin

text \<open>
  \<^verbatim>\<open>include/cmplcp.h\<close>: comparison of two byte strings that also returns the length of
  their common prefix.  The code reads eight (or four, or two) bytes at a time, finds the
  first different byte with a bit scan of the exclusive or and unrolls short strings by a
  table.  The lemmas show it equal to the byte by byte reference.
\<close>

section \<open>The code\<close>

record ResultLCP =
  lcp_cmp :: int
  lcp_prefix :: nat

text \<open>\<open>__builtin_ctzll\<close>: the number of trailing zero bits of a non zero word.\<close>

definition ctz :: "u64 \<Rightarrow> nat" where
  "ctz w = length (takeWhile (\<lambda>n. \<not> bit w n) [0..<64])"

definition firstDifferentByte :: "u64 \<Rightarrow> nat" where
  "firstDifferentByte a = ctz a div 8"

text \<open>\<open>*(const T * )(s.data() + i)\<close> for a type of \<open>w\<close> bytes.\<close>

definition load_at :: "nat \<Rightarrow> str \<Rightarrow> nat \<Rightarrow> u64" where
  "load_at w s i = load_le (take w (drop i s))"

function cmpLong_bytes :: "str \<Rightarrow> str \<Rightarrow> nat \<Rightarrow> nat \<Rightarrow> ResultLCP" where
  "cmpLong_bytes a b sz i =
     (if i < sz
      then (if a ! i \<noteq> b ! i then \<lparr>lcp_cmp = sgn3 (a ! i) (b ! i), lcp_prefix = i\<rparr>
            else cmpLong_bytes a b sz (i + 1))
      else \<lparr>lcp_cmp = 0, lcp_prefix = i\<rparr>)"
  by pat_completeness auto
termination
  by (relation "measure (\<lambda>(a, b, sz, i). sz - i)") auto

function cmpLong_words :: "str \<Rightarrow> str \<Rightarrow> nat \<Rightarrow> nat \<Rightarrow> ResultLCP" where
  "cmpLong_words a b sz i =
     (if i + 8 \<le> sz
      then (let xorv = load_at 8 a i XOR load_at 8 b i in
            if xorv \<noteq> 0
            then (let i = i + firstDifferentByte xorv
                  in \<lparr>lcp_cmp = sgn3 (a ! i) (b ! i), lcp_prefix = i\<rparr>)
            else cmpLong_words a b sz (i + 8))
      else cmpLong_bytes a b sz i)"
  by pat_completeness auto
termination
  by (relation "measure (\<lambda>(a, b, sz, i). sz - i)") auto

declare cmpLong_bytes.simps [simp del] cmpLong_words.simps [simp del]

definition cmpLong :: "str \<Rightarrow> str \<Rightarrow> nat \<Rightarrow> ResultLCP" where
  "cmpLong a b sz = cmpLong_words a b sz 0"

text \<open>\<open>struct Comp\<close>, the state of the unrolled comparison of short strings.\<close>

record Comp =
  comp_a :: str
  comp_b :: str
  comp_done :: bool
  comp_i :: nat
  comp_result :: int

text \<open>\<open>Comp::comp_<T>\<close> for a type of \<open>w\<close> bytes; it may advance \<open>i\<close>.\<close>

definition Comp_comp :: "nat \<Rightarrow> Comp \<Rightarrow> int \<times> Comp" where
  "Comp_comp w c =
     (if w = 1 then (sgn3 (comp_a c ! comp_i c) (comp_b c ! comp_i c), c)
      else
        (let va = load_at w (comp_a c) (comp_i c); vb = load_at w (comp_b c) (comp_i c) in
         if va \<noteq> vb then
           (let i = comp_i c + firstDifferentByte (va XOR vb)
            in (sgn3 (comp_a c ! i) (comp_b c ! i), c\<lparr>comp_i := i\<rparr>))
         else (0, c)))"

definition Comp_block :: "nat \<Rightarrow> Comp \<Rightarrow> Comp" where
  "Comp_block w c =
     (if comp_done c then c
      else
        (case Comp_comp w c of (r, c) \<Rightarrow>
           if r \<noteq> 0 then c\<lparr>comp_result := r, comp_done := True\<rparr>
           else c\<lparr>comp_i := comp_i c + w\<rparr>))"

text \<open>The \<open>switch(size)\<close> of \<open>cmpMain\<close>: the widths of the blocks of each case, in order.\<close>

definition cmpMain_cases :: "nat list list" where
  "cmpMain_cases =
     [[],
      [1],
      [2],
      [2, 1],
      [4],
      [4, 1],
      [4, 2],
      [4, 2, 1],
      [8],
      [8, 1],
      [8, 2],
      [8, 2, 1],
      [8, 4],
      [8, 4, 1],
      [8, 4, 2],
      [8, 4, 2, 1],
      [8, 8],
      [8, 8, 1],
      [8, 8, 2],
      [8, 8, 2, 1],
      [8, 8, 4],
      [8, 8, 4, 1],
      [8, 8, 4, 2],
      [8, 8, 4, 2, 1],
      [8, 8, 8],
      [8, 8, 8, 1],
      [8, 8, 8, 2],
      [8, 8, 8, 2, 1],
      [8, 8, 8, 4],
      [8, 8, 8, 4, 1],
      [8, 8, 8, 4, 2],
      [8, 8, 8, 4, 2, 1],
      [8, 8, 8, 8]]"

definition cmpMain :: "str \<Rightarrow> str \<Rightarrow> nat \<Rightarrow> ResultLCP" where
  "cmpMain a b sz =
     (if sz > 32 then cmpLong a b sz
      else
        (let c = \<lparr>comp_a = a, comp_b = b, comp_done = False, comp_i = 0, comp_result = 0\<rparr>;
             c = foldl (\<lambda>c w. Comp_block w c) c (cmpMain_cases ! sz)
         in \<lparr>lcp_cmp = comp_result c, lcp_prefix = comp_i c\<rparr>))"

definition cmpLCP :: "str \<Rightarrow> str \<Rightarrow> ResultLCP" where
  "cmpLCP a b =
     (let sz = min (length a) (length b) in
      if sz = 0 then \<lparr>lcp_cmp = 0, lcp_prefix = 0\<rparr>
      else
        (let x = cmpMain a b sz in
         if lcp_cmp x \<noteq> 0 then x
         else \<lparr>lcp_cmp = sgn3 (length a) (length b), lcp_prefix = sz\<rparr>))"

text \<open>
  The variant that skips \<open>start\<close> characters: \<open>string_view::substr\<close> throws
  \<open>std::out_of_range\<close> when \<open>start\<close> is past the end, which is \<open>None\<close> here.
\<close>

definition substr :: "str \<Rightarrow> nat \<Rightarrow> str option" where
  "substr s start = (if start \<le> length s then Some (drop start s) else None)"

definition cmpLCP_start :: "str \<Rightarrow> str \<Rightarrow> nat \<Rightarrow> ResultLCP option" where
  "cmpLCP_start a b start =
     (case (substr a start, substr b start) of
        (Some x, Some y) \<Rightarrow> Some (cmpLCP x y)
      | _ \<Rightarrow> None)"

definition cmpLCPSafe :: "str \<Rightarrow> str \<Rightarrow> nat \<Rightarrow> ResultLCP option" where
  "cmpLCPSafe a b start =
     cmpLCP_start (if length a < start then [] else a) (if length b < start then [] else b) start"


section \<open>The reference\<close>

fun lcp :: "str \<Rightarrow> str \<Rightarrow> nat" where
  "lcp (x # xs) (y # ys) = (if x = y then Suc (lcp xs ys) else 0)"
| "lcp _ _ = 0"

lemma lcp_le: "lcp a b \<le> length a" "lcp a b \<le> length b"
  by (induction a b rule: lcp.induct) auto

lemma lcp_nth_eq: "k < lcp a b \<Longrightarrow> a ! k = b ! k"
proof (induction a b arbitrary: k rule: lcp.induct)
  case (1 x xs y ys)
  then show ?case by (cases k) (auto split: if_splits)
qed auto

lemma lcp_nth_neq: "lcp a b < length a \<Longrightarrow> lcp a b < length b \<Longrightarrow> a ! lcp a b \<noteq> b ! lcp a b"
  by (induction a b rule: lcp.induct) auto

lemma lcp_eqI:
  assumes "j < length a" "j < length b" "\<And>k. k < j \<Longrightarrow> a ! k = b ! k" "a ! j \<noteq> b ! j"
  shows "lcp a b = j"
proof (rule linorder_cases [of "lcp a b" j])
  assume "lcp a b < j"
  with lcp_nth_neq [of a b] assms show ?thesis by force
next
  assume "j < lcp a b"
  with lcp_nth_eq [of j a b] assms(4) show ?thesis by simp
qed simp

lemma lcp_geI:
  assumes "n \<le> length a" "n \<le> length b" "\<And>k. k < n \<Longrightarrow> a ! k = b ! k"
  shows "n \<le> lcp a b"
  using lcp_nth_neq [of a b] assms by (metis leI order.strict_trans2)

lemma sgn3_lcp:
  "sgn3 a b =
     (if lcp a b < min (length a) (length b) then sgn3 (a ! lcp a b) (b ! lcp a b)
      else sgn3 (length a) (length b))"
proof (induction a arbitrary: b)
  case Nil
  then show ?case by (cases b) (auto simp: sgn3_def)
next
  case (Cons x a)
  then show ?case by (cases b) (auto simp: sgn3_Cons_Cons sgn3_def)
qed

lemma xor_eq_0_iff: "a XOR b = 0 \<longleftrightarrow> a = (b :: 'a::len word)"
  by (metis xor.assoc xor.right_neutral xor_self_eq xor.left_neutral)

lemma lcp_take: "take (lcp a b) a = take (lcp a b) b"
  by (induction a b rule: lcp.induct) auto

text \<open>What a comparison of the first \<open>n\<close> bytes has to return.\<close>

definition lcp_spec :: "str \<Rightarrow> str \<Rightarrow> nat \<Rightarrow> ResultLCP" where
  "lcp_spec a b n =
     (if lcp a b < n then \<lparr>lcp_cmp = sgn3 (a ! lcp a b) (b ! lcp a b), lcp_prefix = lcp a b\<rparr>
      else \<lparr>lcp_cmp = 0, lcp_prefix = n\<rparr>)"

lemma lcp_spec_differ:
  assumes "j < n" "n \<le> length a" "n \<le> length b" "\<And>k. k < j \<Longrightarrow> a ! k = b ! k" "a ! j \<noteq> b ! j"
  shows "lcp_spec a b n = \<lparr>lcp_cmp = sgn3 (a ! j) (b ! j), lcp_prefix = j\<rparr>"
  using assms lcp_eqI [of j a b] by (simp add: lcp_spec_def)

lemma lcp_spec_same:
  assumes "n \<le> length a" "n \<le> length b" "\<And>k. k < n \<Longrightarrow> a ! k = b ! k"
  shows "lcp_spec a b n = \<lparr>lcp_cmp = 0, lcp_prefix = n\<rparr>"
  using assms lcp_geI [of n a b] by (simp add: lcp_spec_def not_less)

section \<open>The bit scan finds the first different byte\<close>

lemma bit_load_at:
  assumes "i + w \<le> length s" "w \<le> 8"
  shows "bit (load_at w s i) n \<longleftrightarrow> n div 8 < w \<and> bit (s ! (i + n div 8)) (n mod 8)"
proof -
  have "n < 64" if "n div 8 < w" using that assms(2) by linarith
  then show ?thesis using assms by (auto simp: load_at_def bit_load_le)
qed

lemma load_at_eq_iff:
  assumes "i + w \<le> length a" "i + w \<le> length b" "w \<le> 8"
  shows "load_at w a i = load_at w b i \<longleftrightarrow> (\<forall>k<w. a ! (i + k) = b ! (i + k))"
proof
  assume eq: "load_at w a i = load_at w b i"
  show "\<forall>k<w. a ! (i + k) = b ! (i + k)"
  proof (intro allI impI)
    fix k assume k: "k < w"
    show "a ! (i + k) = b ! (i + k)"
    proof (rule bit_word_eqI)
      fix r assume "r < LENGTH(8)"
      then have r: "(8 * k + r) div 8 = k" "(8 * k + r) mod 8 = r" "r mod 8 = r" by simp_all
      have "bit (load_at w a i) (8 * k + r) = bit (load_at w b i) (8 * k + r)"
        by (simp add: eq)
      then show "bit (a ! (i + k)) r = bit (b ! (i + k)) r"
        using k assms by (simp add: bit_load_at r)
    qed
  qed
next
  assume "\<forall>k<w. a ! (i + k) = b ! (i + k)"
  then show "load_at w a i = load_at w b i"
    using assms by (intro bit_word_eqI) (auto simp: bit_load_at)
qed

lemma ctz_eq_Least:
  assumes "bit w n"
  shows "ctz w = (LEAST n. bit w n)"
proof -
  let ?m = "LEAST n. bit w n"
  have "n < 64" using bit_imp_le_length [OF assms] by simp
  then have lt: "?m < 64" using Least_le [of "bit w" n, OF assms] by simp
  have at: "bit w ?m" by (rule LeastI [of "bit w" n, OF assms])
  have below: "\<not> bit w i" if "i < ?m" for i
    using that by (rule not_less_Least)
  show ?thesis unfolding ctz_def
  proof (rule takeWhile_upt_length)
    show "?m \<le> 64" using lt by simp
    show "\<not> bit w i" if "i < ?m" for i using that by (rule below)
    show "\<not> \<not> bit w ?m" using at by simp
  qed
qed

lemma ctz_octet:
  assumes "\<And>n. n < 8 * k \<Longrightarrow> \<not> bit w n" and "bit w (8 * k + r)" and "r < 8"
  shows "ctz w div 8 = k"
proof -
  have "ctz w \<le> 8 * k + r"
    using assms(2) by (simp add: ctz_eq_Least [OF assms(2)] Least_le)
  moreover have "bit w (ctz w)"
    unfolding ctz_eq_Least [OF assms(2)] by (rule LeastI [of "bit w", OF assms(2)])
  then have "8 * k \<le> ctz w" using assms(1) not_le by blast
  ultimately show ?thesis using assms(3) by linarith
qed

lemma firstDifferentByte_spec:
  assumes "i + w \<le> length a" "i + w \<le> length b" "w \<le> 8"
    and "j < w" "\<And>k. k < j \<Longrightarrow> a ! (i + k) = b ! (i + k)" "a ! (i + j) \<noteq> b ! (i + j)"
  shows "firstDifferentByte (load_at w a i XOR load_at w b i) = j"
proof -
  obtain r where r: "r < 8" "bit (a ! (i + j)) r \<noteq> bit (b ! (i + j)) r"
    using assms(6) bit_word_eqI [of "a ! (i + j)" "b ! (i + j)"] by auto
  have o: "(8 * j + r) div 8 = j" "(8 * j + r) mod 8 = r" "r mod 8 = r"
    using r(1) by simp_all
  show ?thesis unfolding firstDifferentByte_def
  proof (rule ctz_octet [OF _ _ r(1)])
    fix n assume "n < 8 * j"
    then have "n div 8 < j" by (simp add: less_mult_imp_div_less mult.commute)
    then show "\<not> bit (load_at w a i XOR load_at w b i) n"
      using assms by (simp add: bit_xor_iff bit_load_at)
  next
    show "bit (load_at w a i XOR load_at w b i) (8 * j + r)"
      using assms r by (simp add: bit_xor_iff bit_load_at o)
  qed
qed

text \<open>The two outcomes of one block of \<open>w\<close> bytes, when the bytes before it agree.\<close>

lemma block_differ:
  assumes "i + w \<le> n" "n \<le> length a" "n \<le> length b" "w \<le> 8"
    and "\<And>k. k < i \<Longrightarrow> a ! k = b ! k" and "load_at w a i \<noteq> load_at w b i"
    and "j = i + firstDifferentByte (load_at w a i XOR load_at w b i)"
  shows "lcp_spec a b n = \<lparr>lcp_cmp = sgn3 (a ! j) (b ! j), lcp_prefix = j\<rparr>"
    and "sgn3 (a ! j) (b ! j) \<noteq> 0"
proof -
  have bnd: "i + w \<le> length a" "i + w \<le> length b" using assms by simp_all
  obtain k where k: "k < w" "a ! (i + k) \<noteq> b ! (i + k)"
    using assms(6) load_at_eq_iff [OF bnd assms(4)] by blast
  define m where "m = (LEAST k. a ! (i + k) \<noteq> b ! (i + k))"
  have m: "a ! (i + m) \<noteq> b ! (i + m)" "m \<le> k"
    unfolding m_def by (rule LeastI, rule k(2)) (rule Least_le, rule k(2))
  have below: "a ! (i + l) = b ! (i + l)" if "l < m" for l
    using not_less_Least [of l "\<lambda>k. a ! (i + k) \<noteq> b ! (i + k)"] that by (simp add: m_def)
  have "m < w" using m(2) k(1) by simp
  from firstDifferentByte_spec [OF bnd assms(4) this below m(1)]
  have j: "j = i + m" using assms(7) by simp
  have "a ! l = b ! l" if "l < i + m" for l
  proof (cases "l < i")
    case False
    then have "l - i < m" "l = i + (l - i)" using that by linarith+
    then show ?thesis using below [of "l - i"] by simp
  qed (rule assms(5))
  then show "lcp_spec a b n = \<lparr>lcp_cmp = sgn3 (a ! j) (b ! j), lcp_prefix = j\<rparr>"
    unfolding j using m(1) \<open>m < w\<close> assms(1-3) by (intro lcp_spec_differ) auto
  show "sgn3 (a ! j) (b ! j) \<noteq> 0" using m(1) j by simp
qed

lemma block_same:
  assumes "i + w \<le> length a" "i + w \<le> length b" "w \<le> 8"
    and "\<And>k. k < i \<Longrightarrow> a ! k = b ! k" and "load_at w a i = load_at w b i" and "k < i + w"
  shows "a ! k = b ! k"
proof (cases "k < i")
  case False
  then have "k - i < w" "k = i + (k - i)" using assms(6) by linarith+
  then show ?thesis using assms(5) load_at_eq_iff [OF assms(1-3)] by metis
qed (rule assms(4))

section \<open>The loops and the unrolled cases meet the reference\<close>

lemma cmpLong_bytes_spec:
  assumes "i \<le> n" "n \<le> length a" "n \<le> length b" "\<And>k. k < i \<Longrightarrow> a ! k = b ! k"
  shows "cmpLong_bytes a b n i = lcp_spec a b n"
  using assms
proof (induction a b n i rule: cmpLong_bytes.induct)
  case (1 a b n i)
  consider "n \<le> i" | "i < n" "a ! i \<noteq> b ! i" | "i < n" "a ! i = b ! i" by fastforce
  then show ?case
  proof cases
    case 1
    then have "i = n" using "1.prems"(1) by simp
    then show ?thesis
      using "1.prems" lcp_spec_same [of n a b] by (simp add: cmpLong_bytes.simps [of a b n n])
  next
    case 2
    then show ?thesis using "1.prems" lcp_spec_differ [of i n a b]
      by (simp add: cmpLong_bytes.simps [of a b n i])
  next
    case 3
    then have "\<And>k. k < i + 1 \<Longrightarrow> a ! k = b ! k"
      using "1.prems"(4) by (auto simp: less_Suc_eq)
    then show ?thesis using "1.IH" 3 "1.prems" by (simp add: cmpLong_bytes.simps [of a b n i])
  qed
qed

lemma cmpLong_words_spec:
  assumes "i \<le> n" "n \<le> length a" "n \<le> length b" "\<And>k. k < i \<Longrightarrow> a ! k = b ! k"
  shows "cmpLong_words a b n i = lcp_spec a b n"
  using assms
proof (induction a b n i rule: cmpLong_words.induct)
  case (1 a b n i)
  let ?x = "load_at 8 a i XOR load_at 8 b i"
  consider "\<not> i + 8 \<le> n" | "i + 8 \<le> n" "?x \<noteq> 0" | "i + 8 \<le> n" "?x = 0" by blast
  then show ?case
  proof cases
    case 1
    then show ?thesis using "1.prems" cmpLong_bytes_spec [of i n a b]
      by (simp add: cmpLong_words.simps [of a b n i])
  next
    case 2
    then show ?thesis
      using "1.prems" block_differ(1) [of i 8 n a b, OF _ _ _ _ _ _ refl]
      by (simp add: cmpLong_words.simps [of a b n i] Let_def xor_eq_0_iff)
  next
    case 3
    then have "\<And>k. k < i + 8 \<Longrightarrow> a ! k = b ! k"
      using block_same [of i 8 a b] "1.prems" by (simp add: xor_eq_0_iff)
    then show ?thesis using "1.IH" [OF 3(1) refl] 3 "1.prems"
      by (simp add: cmpLong_words.simps [of a b n i])
  qed
qed

text \<open>The invariant of the unrolled comparison after some blocks.\<close>

definition Comp_inv :: "str \<Rightarrow> str \<Rightarrow> nat \<Rightarrow> nat \<Rightarrow> Comp \<Rightarrow> bool" where
  "Comp_inv a b n i c \<longleftrightarrow> comp_a c = a \<and> comp_b c = b \<and>
     (if comp_done c
      then lcp_spec a b n = \<lparr>lcp_cmp = comp_result c, lcp_prefix = comp_i c\<rparr>
      else comp_result c = 0 \<and> comp_i c = i \<and> (\<forall>k<i. a ! k = b ! k))"

lemma Comp_block_inv:
  assumes inv: "Comp_inv a b n i c" and w: "w \<in> {1, 2, 4, 8}"
    and n: "i + w \<le> n" "n \<le> length a" "n \<le> length b"
  shows "Comp_inv a b n (i + w) (Comp_block w c)"
proof (cases "comp_done c")
  case True
  then show ?thesis using inv by (simp add: Comp_inv_def Comp_block_def)
next
  case False
  with inv have c: "comp_a c = a" "comp_b c = b" "comp_result c = 0" "comp_i c = i"
    and pre: "\<And>k. k < i \<Longrightarrow> a ! k = b ! k"
    by (simp_all add: Comp_inv_def)
  have bnd: "i + w \<le> length a" "i + w \<le> length b" "w \<le> 8" using n w by auto
  show ?thesis
  proof (cases "w = 1")
    case True
    consider "a ! i = b ! i" | "a ! i \<noteq> b ! i" by blast
    then show ?thesis
    proof cases
      case 1
      then have "\<forall>k<Suc i. a ! k = b ! k" using pre by (auto simp: less_Suc_eq)
      with 1 show ?thesis using True c False
        by (simp add: Comp_inv_def Comp_block_def Comp_comp_def)
    next
      case 2
      then show ?thesis using True c False pre n lcp_spec_differ [of i n a b]
        by (simp add: Comp_inv_def Comp_block_def Comp_comp_def)
    qed
  next
    case w1: False
    consider "load_at w a i = load_at w b i" | "load_at w a i \<noteq> load_at w b i" by blast
    then show ?thesis
    proof cases
      case 1
      then have "\<forall>k<i + w. a ! k = b ! k" using block_same [OF bnd pre 1] by blast
      with 1 show ?thesis using w1 c False
        by (simp add: Comp_inv_def Comp_block_def Comp_comp_def)
    next
      case 2
      note d = block_differ [OF n bnd(3) pre 2 refl]
      show ?thesis using w1 c False 2 d
        by (simp add: Comp_inv_def Comp_block_def Comp_comp_def Let_def)
    qed
  qed
qed

lemma Comp_blocks_inv:
  assumes "Comp_inv a b n i c" "set ws \<subseteq> {1, 2, 4, 8}"
    and "i + sum_list ws \<le> n" "n \<le> length a" "n \<le> length b"
  shows "Comp_inv a b n (i + sum_list ws) (foldl (\<lambda>c w. Comp_block w c) c ws)"
  using assms
proof (induction ws arbitrary: i c)
  case (Cons w ws)
  then have "Comp_inv a b n (i + w) (Comp_block w c)"
    by (intro Comp_block_inv) auto
  with Cons.IH [of "i + w" "Comp_block w c"] Cons.prems show ?case
    by (simp add: add.assoc)
qed simp

lemma cmpMain_cases_ok:
  assumes "n \<le> 32"
  shows "set (cmpMain_cases ! n) \<subseteq> {1, 2, 4, 8}" "sum_list (cmpMain_cases ! n) = n"
proof -
  have all: "\<forall>n \<in> set [0..<33]. set (cmpMain_cases ! n) \<subseteq> {1, 2, 4, 8} \<and> sum_list (cmpMain_cases ! n) = n"
    unfolding cmpMain_cases_def by code_simp
  then show "set (cmpMain_cases ! n) \<subseteq> {1, 2, 4, 8}" "sum_list (cmpMain_cases ! n) = n"
    using assms by auto
qed

lemma cmpMain_spec:
  assumes "n \<le> length a" "n \<le> length b"
  shows "cmpMain a b n = lcp_spec a b n"
proof (cases "n > 32")
  case True
  then show ?thesis using assms cmpLong_words_spec [of 0 n a b]
    by (simp add: cmpMain_def cmpLong_def)
next
  case False
  let ?c = "\<lparr>comp_a = a, comp_b = b, comp_done = False, comp_i = 0, comp_result = 0\<rparr>"
  let ?d = "foldl (\<lambda>c w. Comp_block w c) ?c (cmpMain_cases ! n)"
  have ok: "set (cmpMain_cases ! n) \<subseteq> {1, 2, 4, 8}" "sum_list (cmpMain_cases ! n) = n"
    using False cmpMain_cases_ok [of n] by simp_all
  have "Comp_inv a b n (0 + sum_list (cmpMain_cases ! n)) ?d"
    using ok assms by (intro Comp_blocks_inv) (auto simp: Comp_inv_def)
  then have "lcp_spec a b n = \<lparr>lcp_cmp = comp_result ?d, lcp_prefix = comp_i ?d\<rparr>"
    using ok assms lcp_spec_same [of n a b] by (simp add: Comp_inv_def split: if_splits)
  then show ?thesis using False by (simp add: cmpMain_def Let_def)
qed

lemma cmpLCP_nonempty:
  assumes "a \<noteq> []" "b \<noteq> []"
  shows "cmpLCP a b = \<lparr>lcp_cmp = sgn3 a b, lcp_prefix = lcp a b\<rparr>"
proof -
  let ?n = "min (length a) (length b)"
  have x: "cmpMain a b ?n = lcp_spec a b ?n" by (rule cmpMain_spec) auto
  have "lcp a b \<le> ?n" using lcp_le [of a b] lcp_le(2) [of a b] by simp
  then show ?thesis
    using assms x sgn3_lcp [of a b] lcp_nth_neq [of a b]
    by (auto simp: cmpLCP_def Let_def lcp_spec_def)
qed

lemma cmpLCP_empty: "a = [] \<or> b = [] \<Longrightarrow> cmpLCP a b = \<lparr>lcp_cmp = 0, lcp_prefix = 0\<rparr>"
  by (auto simp: cmpLCP_def)

section \<open>Properties\<close>

text \<open>
  C24: For two non-empty strings \<open>cmpLCP\<close> gives the sign of their byte order and the length of
  their longest common prefix, whichever path it takes: one block sequence per length up to 32, the
  loop over words with a byte tail above.
\<close>

theorem cmpLCP_correct:
  assumes "a \<noteq> []" "b \<noteq> []"
  shows "cmpLCP a b = \<lparr>lcp_cmp = sgn3 a b, lcp_prefix = lcp a b\<rparr> \<and>
    lcp a b \<le> min (length a) (length b) \<and> take (lcp a b) a = take (lcp a b) b \<and>
    (lcp a b < min (length a) (length b) \<longrightarrow> a ! lcp a b \<noteq> b ! lcp a b)"
  using cmpLCP_nonempty [OF assms] lcp_le [of a b] lcp_take [of a b] lcp_nth_neq [of a b] by simp

theorem cmpLCP_correct_witness:
  "cmpLCP [97, 98, 99] [97, 98, 200, 1] = \<lparr>lcp_cmp = -1, lcp_prefix = 2\<rparr>"
  using cmpLCP_correct [of "[97, 98, 99]" "[97, 98, 200, 1]"] by (simp add: sgn3_def)

text \<open>
  An empty string compares equal to every string under \<open>cmpLCP\<close>, unlike under
  \<open>compare\<close>.
\<close>

lemma cmpLCP_empty_equal:
  "cmpLCP [] s = \<lparr>lcp_cmp = 0, lcp_prefix = 0\<rparr> \<and> cmpLCP s [] = \<lparr>lcp_cmp = 0, lcp_prefix = 0\<rparr>"
  by (simp add: cmpLCP_empty)

end
