(* ===== verification/StringHash.thy ===== *)
theory StringHash
  imports CmpLCP
begin

text \<open>
  \<^verbatim>\<open>include/stringhash.h\<close> with \<open>T = uint64_t\<close> (the \<open>SS\<close> of \<^verbatim>\<open>hm4/hpair.h\<close>): the
  first eight bytes of a key packed into an integer, so that most key comparisons are one
  integer comparison.  The lemmas say when the integer decides the order of the keys.
\<close>

section \<open>The code\<close>

definition SS_N :: nat where "SS_N = 8"

datatype ByteOrder = Host | BigEndian

text \<open>The union of \<open>char s[N]\<close> and \<open>T u = 0\<close> after the copy.\<close>

definition SS_result :: "ByteOrder \<Rightarrow> str \<Rightarrow> u64" where
  "SS_result order s =
     (case order of Host \<Rightarrow> betoh64 (load_le s) | BigEndian \<Rightarrow> load_le s)"

definition SS_create_order :: "ByteOrder \<Rightarrow> str \<Rightarrow> u64" where
  "SS_create_order order src =
     SS_result order (write_at 0 (take (min SS_N (length src)) src) (replicate SS_N 0))"

text \<open>The C string variant: \<open>strncpy(s, src, N)\<close> stops at the first zero and pads.\<close>

definition SS_create_cstr_order :: "ByteOrder \<Rightarrow> str \<Rightarrow> u64" where
  "SS_create_cstr_order order src =
     SS_result order (write_at 0 (take SS_N (takeWhile (\<lambda>c. c \<noteq> 0) src)) (replicate SS_N 0))"

definition SS_create :: "str \<Rightarrow> u64" where
  "SS_create s = SS_create_order Host s"

definition SS_sizeCheck :: "u64 \<Rightarrow> u64 \<Rightarrow> 'r \<Rightarrow> bool \<times> 'r" where
  "SS_sizeCheck a b result =
     (let MASK = htobe64 (push_bit 56 0xFF);
          size_overflow = (a OR b) AND MASK \<noteq> 0
      in (\<not> size_overflow, result))"

definition SS_compare :: "u64 \<Rightarrow> u64 \<Rightarrow> bool \<times> int" where
  "SS_compare a b =
     (let x = sgn3 a b in if x \<noteq> 0 then (True, x) else SS_sizeCheck a b 0)"

definition SS_equals :: "u64 \<Rightarrow> u64 \<Rightarrow> bool \<times> bool" where
  "SS_equals a b = (if a \<noteq> b then (True, False) else SS_sizeCheck a b True)"

section \<open>The padded prefix\<close>

definition pad :: "nat \<Rightarrow> str \<Rightarrow> str" where
  "pad n s = take n s @ replicate (n - length s) 0"

lemma length_pad [simp]: "length (pad n s) = n"
  by (simp add: pad_def)

lemma pad_Nil [simp]: "pad n [] = replicate n 0"
  by (simp add: pad_def)

lemma pad_Suc_Cons [simp]: "pad (Suc n) (x # xs) = x # pad n xs"
  by (simp add: pad_def)

lemma write_at_zeros: "write_at 0 (take (min n (length s)) s) (replicate n 0) = pad n s"
  by (simp add: write_at_inside pad_def min_def)

lemma uint_SS_create: "uint (SS_create s) = be_value (pad 8 s)"
  by (simp add: SS_create_def SS_create_order_def SS_result_def SS_N_def write_at_zeros
        uint_betoh64_load)

lemma SS_create_less_iff: "SS_create a < SS_create b \<longleftrightarrow> pad 8 a < pad 8 b"
  by (simp add: word_less_def uint_SS_create be_value_less_iff)

lemma SS_create_eq_iff: "SS_create a = SS_create b \<longleftrightarrow> pad 8 a = pad 8 b"
  by (simp add: word_uint_eq_iff uint_SS_create be_value_inject)

lemma sgn3_SS_create: "sgn3 (SS_create a) (SS_create b) = sgn3 (pad 8 a) (pad 8 b)"
  by (simp add: sgn3_def SS_create_less_iff)

text \<open>The mask tests the eighth byte.\<close>

lemma SS_create_octet: "bit (SS_create s) r \<longleftrightarrow> bit (pad 8 s ! 7) r" if "r < 8"
proof -
  have "SS_create s = load_le (rev (pad 8 s))"
    by (simp add: SS_create_def SS_create_order_def SS_result_def SS_N_def write_at_zeros
          endian_defs byteswap64_load_le)
  then show ?thesis using that by (simp add: bit_load_le rev_nth)
qed

lemma SS_mask: "htobe64 (push_bit 56 0xFF) = mask 8"
proof -
  have "byteswap64 (mask 8) = push_bit 56 (mask 8)"
    by (simp add: byteswap64_def mask_eq_exp_minus_1)
  then have "byteswap64 (push_bit 56 (mask 8)) = mask 8"
    by (metis byteswap64_byteswap64)
  then show ?thesis by (simp add: endian_defs octet_masks)
qed

lemma SS_overflow_iff:
  "(SS_create s OR SS_create s) AND mask 8 \<noteq> 0 \<longleftrightarrow> pad 8 s ! 7 \<noteq> 0"
proof -
  have "SS_create s AND mask 8 = 0 \<longleftrightarrow> (\<forall>r<8. \<not> bit (SS_create s) r)"
  proof
    assume z: "SS_create s AND mask 8 = 0"
    have "bit (SS_create s AND mask 8) r \<longleftrightarrow> bit (SS_create s) r" if "r < 8" for r
      using that by (simp add: bit_simps)
    then show "\<forall>r<8. \<not> bit (SS_create s) r" unfolding z by simp
  next
    assume "\<forall>r<8. \<not> bit (SS_create s) r"
    then show "SS_create s AND mask 8 = 0" by (intro bit_word_eqI) (auto simp: bit_simps)
  qed
  also have "\<dots> \<longleftrightarrow> (\<forall>r<8. \<not> bit (pad 8 s ! 7) r)"
    by (simp add: SS_create_octet)
  also have "\<dots> \<longleftrightarrow> pad 8 s ! 7 = 0"
    by (auto simp: bit_eq_iff bit_simps)
  finally show ?thesis by simp
qed

lemma SS_sizeCheck_create:
  "SS_sizeCheck (SS_create s) (SS_create s) result = (pad 8 s ! 7 = 0, result)"
  using SS_overflow_iff [of s] unfolding SS_sizeCheck_def SS_mask by (auto simp: Let_def)

section \<open>Keys without zero bytes\<close>

definition nul_free :: "str \<Rightarrow> bool" where
  "nul_free s \<longleftrightarrow> 0 \<notin> set (take 8 s)"

lemma sgn3_pad:
  "0 \<notin> set (take n a) \<Longrightarrow> 0 \<notin> set (take n b) \<Longrightarrow> sgn3 (pad n a) (pad n b) = sgn3 (take n a) (take n b)"
proof (induction n arbitrary: a b)
  case (Suc n)
  have pos: "sgn3 0 (y :: byte) = -1" "sgn3 y 0 = 1" if "y \<noteq> 0" for y
    using that by (simp_all add: sgn3_def word_gt_0)
  show ?case using Suc pos
    by (cases a; cases b) (auto simp: sgn3_Cons_Cons)
qed (simp add: pad_def)

lemma sgn3_append_same: "sgn3 (p @ a) (p @ b) = sgn3 a b"
  by (induction p) (simp_all add: sgn3_Cons_Cons)

lemma sgn3_take_eq: "take n a = take n b \<Longrightarrow> sgn3 a b = sgn3 (drop n a) (drop n b)"
  using sgn3_append_same [of "take n b" "drop n a" "drop n b"]
  by (metis append_take_drop_id)

lemma sgn3_take_neq: "take n a \<noteq> take n b \<Longrightarrow> sgn3 a b = sgn3 (take n a) (take n b)"
proof (induction n arbitrary: a b)
  case (Suc n)
  show ?case using Suc.prems Suc.IH [of "tl a" "tl b"]
    by (cases a; cases b) (auto simp: sgn3_Cons_Cons)
qed simp

lemma pad_last_zero_iff:
  assumes "nul_free s"
  shows "pad 8 s ! 7 = 0 \<longleftrightarrow> length s < 8"
proof (cases "length s < 8")
  case True
  then show ?thesis by (simp add: pad_def nth_append)
next
  case False
  then have "pad 8 s ! 7 = s ! 7" and "s ! 7 \<in> set (take 8 s)"
    by (auto simp: pad_def nth_append in_set_conv_nth intro!: exI [of _ 7])
  then show ?thesis using assms False by (auto simp: nul_free_def)
qed

lemma SS_compare_differ:
  assumes "nul_free a" "nul_free b" "take 8 a \<noteq> take 8 b"
  shows "SS_compare (SS_create a) (SS_create b) = (True, sgn3 a b)"
proof -
  have "sgn3 (SS_create a) (SS_create b) = sgn3 (take 8 a) (take 8 b)"
    using assms by (simp add: sgn3_SS_create sgn3_pad nul_free_def)
  with assms(3) show ?thesis
    by (simp add: SS_compare_def Let_def sgn3_take_neq)
qed

lemma SS_compare_short:
  assumes "nul_free a" "take 8 a = take 8 b" "length a < 8"
  shows "SS_compare (SS_create a) (SS_create b) = (True, 0) \<and> a = b"
proof -
  have "length (take 8 a) = length (take 8 b)" using assms(2) by simp
  then have "length b < 8" using assms(3) by simp
  then have "a = b" using assms(2,3) by simp
  moreover have "pad 8 a ! 7 = 0" using assms by (simp add: pad_last_zero_iff)
  ultimately show ?thesis
    by (simp add: SS_compare_def SS_sizeCheck_create)
qed

lemma SS_compare_long:
  assumes "nul_free a" "take 8 a = take 8 b" "8 \<le> length a"
  shows "SS_compare (SS_create a) (SS_create b) = (False, 0)" and "8 \<le> length b"
proof -
  have "length (take 8 a) = length (take 8 b)" using assms(2) by simp
  then show lb: "8 \<le> length b" using assms(3) by simp
  have "pad 8 a = pad 8 b" using assms lb by (simp add: pad_def)
  then have "SS_create b = SS_create a" by (simp add: SS_create_eq_iff)
  moreover have "pad 8 a ! 7 \<noteq> 0" using assms by (simp add: pad_last_zero_iff)
  ultimately show "SS_compare (SS_create a) (SS_create b) = (False, 0)"
    by (simp add: SS_compare_def SS_sizeCheck_create)
qed

lemma SS_create_less_imp:
  assumes "nul_free a" "nul_free b" "SS_create a < SS_create b"
  shows "a < b"
proof -
  have "sgn3 (take 8 a) (take 8 b) < 0"
    using assms sgn3_pad [of 8 a b]
    by (metis SS_create_less_iff nul_free_def sgn3_less_0)
  moreover from this have "take 8 a \<noteq> take 8 b" by auto
  ultimately have "sgn3 a b < 0" using sgn3_take_neq [of 8 a b] by metis
  then show ?thesis by simp
qed

lemma SS_create_mono: "nul_free a \<Longrightarrow> nul_free b \<Longrightarrow> a \<le> b \<Longrightarrow> SS_create a \<le> SS_create b"
  using SS_create_less_imp [of b a] by (meson not_le)

section \<open>Properties\<close>

text \<open>
  The packed key is an order preserving digest of the first eight characters: for keys without
  zero bytes there, a smaller key never has a larger digest, and \<open>compare\<close> of two digests is
  conclusive exactly when the keys differ in their first eight characters or are both shorter; then
  it is the comparison of the keys.
\<close>

lemma SS_compare_sound:
  assumes "nul_free a" "nul_free b"
  shows "(a \<le> b \<longrightarrow> SS_create a \<le> SS_create b) \<and>
    (fst (SS_compare (SS_create a) (SS_create b)) \<longleftrightarrow>
       take 8 a \<noteq> take 8 b \<or> length a < 8 \<and> length b < 8) \<and>
    (fst (SS_compare (SS_create a) (SS_create b)) \<longrightarrow>
       snd (SS_compare (SS_create a) (SS_create b)) = sgn3 a b)"
proof (cases "take 8 a = take 8 b")
  case True
  then show ?thesis
    using SS_compare_short [OF assms(1) True] SS_compare_long [OF assms(1) True] SS_create_mono [OF assms]
    by (cases "length a < 8") auto
qed (use SS_compare_differ [OF assms] SS_create_mono [OF assms] in simp)

text \<open>
  A key and the same key with a zero byte appended have the same digest, and \<open>compare\<close>
  calls the digests conclusive and equal.
\<close>

lemma SS_nul_collision:
  assumes "length a < 7"
  shows "SS_compare (SS_create a) (SS_create (a @ [0])) = (True, 0)"
proof -
  have "8 - length a = Suc (7 - length a)" using assms by simp
  then have p: "pad 8 (a @ [0]) = pad 8 a" using assms by (simp add: pad_def)
  then have "SS_create (a @ [0]) = SS_create a" by (simp add: SS_create_eq_iff)
  then show ?thesis
    using SS_sizeCheck_create [of a 0] assms by (simp add: SS_compare_def pad_def nth_append)
qed


end
