(* ===== verification/MyTime.thy ===== *)
theory MyTime
  imports Endian
begin

text \<open>
  \<^verbatim>\<open>common/mytime.h\<close>: timestamps of 64 bits, seconds in the high half and microseconds
  in the low half.  The clock (\<open>now\<close>, \<open>now32\<close>) is an argument of every definition that
  reads it.
\<close>

section \<open>The code\<close>

definition to64_usec :: "u32 \<Rightarrow> u32 \<Rightarrow> u64" where
  "to64_usec sec usec = push_bit 32 (ucast sec) OR ucast usec"

definition to64 :: "u32 \<Rightarrow> u64" where
  "to64 sec = to64_usec sec 0"

definition to32 :: "u64 \<Rightarrow> u32" where
  "to32 timestamp = ucast (drop_bit 32 timestamp)"

definition toUsec :: "u64 \<Rightarrow> u32" where
  "toUsec timestamp = ucast (timestamp AND 0xFFFFFFFF)"

definition addTime :: "u64 \<Rightarrow> u32 \<Rightarrow> u64" where
  "addTime date expiration =
     (let a = date; b = to64 expiration; mx = 0xFFFFFFFFFFFFFFFF in
      if mx - a < b then mx else a + b)"

definition expired :: "u64 \<Rightarrow> u64 \<Rightarrow> u32 \<Rightarrow> bool" where
  "expired now date expiration \<longleftrightarrow> addTime date expiration < now"

text \<open>\<open>MyTimer\<close> and \<open>crontab\<close>: the 32 bit addition wraps.\<close>

record MyTimer = timer_time :: u32

definition MyTimer_expired :: "u32 \<Rightarrow> MyTimer \<Rightarrow> u32 \<Rightarrow> bool" where
  "MyTimer_expired now32 t timeout \<longleftrightarrow> timer_time t + timeout < now32"

definition MyTimer_restart :: "u32 \<Rightarrow> MyTimer \<Rightarrow> MyTimer" where
  "MyTimer_restart now32 t = t\<lparr>timer_time := now32\<rparr>"

record CrontabControl =
  cron_timer :: MyTimer
  cron_timeout :: u32

definition mkCrontabControl :: "u32 \<Rightarrow> u32 \<Rightarrow> u32 \<Rightarrow> CrontabControl" where
  "mkCrontabControl now32 timeout timeout_min =
     \<lparr>cron_timer = \<lparr>timer_time = now32\<rparr>,
      cron_timeout = (if timeout = 0 then 0 else max timeout timeout_min)\<rparr>"

definition crontab :: "u32 \<Rightarrow> CrontabControl \<Rightarrow> ('s \<Rightarrow> 's) \<Rightarrow> 's \<Rightarrow> CrontabControl \<times> 's" where
  "crontab now32 c f s =
     (if cron_timeout c \<noteq> 0 \<and> MyTimer_expired now32 (cron_timer c) (cron_timeout c)
      then (c\<lparr>cron_timer := MyTimer_restart now32 (cron_timer c)\<rparr>, f s)
      else (c, s))"

section \<open>Lemmas\<close>

lemma uint_ucast_u32: "uint (ucast (x :: u32) :: u64) = uint x"
  by (rule uint_up_ucast) (simp add: is_up)

lemma uint_to64: "uint (to64 s) = uint s * 2 ^ 32"
proof -
  have "uint s < 2 ^ 32" using uint_bounded [of s] by simp
  then have b: "uint s * 2 ^ 32 < 2 ^ 64" by simp
  have "uint (to64 s) = uint s * 2 ^ 32 mod 2 ^ 64"
    by (simp add: to64_def to64_usec_def push_bit_eq_mult uint_word_ariths uint_ucast_u32)
  then show ?thesis using b by (simp add: mod_pos_pos_trivial)
qed

lemma to32_to64_usec [simp]: "to32 (to64_usec s u) = s"
  by (rule bit_word_eqI)
     (auto simp: to32_def to64_usec_def bit_simps dest: bit_imp_le_length)

lemma to32_to64 [simp]: "to32 (to64 s) = s"
  by (simp add: to64_def)

lemma toUsec_to64_usec [simp]: "toUsec (to64_usec s u) = u"
proof -
  have m: "(0xFFFFFFFF :: u64) = mask 32" by (simp add: mask_eq_exp_minus_1)
  show ?thesis
    unfolding toUsec_def to64_usec_def m
    by (rule bit_word_eqI) (auto simp: bit_simps)
qed

text \<open>\<open>addTime\<close> saturates instead of wrapping.\<close>

lemma uint_addTime: "uint (addTime a e) = min (2 ^ 64 - 1) (uint a + uint e * 2 ^ 32)"
proof -
  let ?mx = "0xFFFFFFFFFFFFFFFF :: u64"
  have a: "0 \<le> uint a" "uint a < 2 ^ 64" using uint_bounded [of a] by simp_all
  have "uint (?mx - a) = (2 ^ 64 - 1 - uint a) mod 2 ^ 64"
    by (simp add: uint_word_ariths)
  also have "\<dots> = 2 ^ 64 - 1 - uint a"
    using a by (intro mod_pos_pos_trivial) linarith+
  finally have "uint (?mx - a) = 2 ^ 64 - 1 - uint a" .
  then have lt: "?mx - a < to64 e \<longleftrightarrow> 2 ^ 64 - 1 - uint a < uint e * 2 ^ 32"
    by (simp add: word_less_def uint_to64)
  have "0 \<le> uint e * 2 ^ 32" by simp
  show ?thesis
  proof (cases "?mx - a < to64 e")
    case True
    then show ?thesis using lt by (simp add: addTime_def)
  next
    case False
    then have "uint a + uint e * 2 ^ 32 \<le> 2 ^ 64 - 1" using lt by simp
    then show ?thesis using False a
      by (simp add: addTime_def uint_word_ariths uint_to64)
  qed
qed

lemma addTime_ge: "a \<le> addTime a e"
  using uint_bounded [of a] by (simp add: word_le_def uint_addTime)

lemma expired_iff:
  "expired now date e \<longleftrightarrow> min (2 ^ 64 - 1) (uint date + uint e * 2 ^ 32) < uint now"
  by (simp add: expired_def word_less_def uint_addTime)

lemma expired_mono: "expired now date e \<Longrightarrow> now \<le> now' \<Longrightarrow> expired now' date e"
  by (simp add: expired_def)

lemma ucast_toUsec: "ucast x = toUsec x"
proof -
  have m: "(0xFFFFFFFF :: u64) = mask 32" by (simp add: mask_eq_exp_minus_1)
  show ?thesis unfolding toUsec_def m by (rule bit_word_eqI) (auto simp: bit_simps)
qed

lemma to64_less: "a < to32 x \<Longrightarrow> to64 a < x"
proof -
  assume "a < to32 x"
  moreover have "take_bit 32 (uint x div 2 ^ 32) = uint x div 2 ^ 32"
    using uint_bounded [of x] by (intro take_bit_int_eq_self) (auto simp: div_less_iff_less_mult pos_imp_zdiv_nonneg_iff)
  then have "uint (to32 x) = uint x div 2 ^ 32"
    by (simp add: to32_def unsigned_ucast_eq uint_div_distrib drop_bit_eq_div)
  ultimately have "uint a < uint x div 2 ^ 32" by (simp add: word_less_def)
  then show ?thesis by (simp add: word_less_def uint_to64)
qed

end
