(* ===== verification/Pair.thy ===== *)
theory Pair
  imports StringHash MyTime
begin

text \<open>
  \<^verbatim>\<open>hm4/pair.h\<close>, \<^verbatim>\<open>hm4/pair.cc\<close>: the packed record that holds a key, a value, the
  creation time and the expiration, in memory and on disk.  The four header fields are kept
  big endian as in the code; the flexible \<open>buffer\<close> holds the key, a zero, the value and a
  zero and is as long as the memory block behind it.  The clock is the argument \<open>now\<close>.
\<close>

section \<open>PairConf\<close>

definition ALIGN :: nat where "ALIGN = 8"
definition MAX_KEY_SIZE :: nat where "MAX_KEY_SIZE = 1023"
definition MAX_VAL_SIZE :: nat where "MAX_VAL_SIZE = 268435455"
definition MAX_KEY_MASK :: u16 where "MAX_KEY_MASK = 1023"
definition MAX_VAL_MASK :: u32 where "MAX_VAL_MASK = 268435455"
definition EXPIRES_TOMBSTONE :: u32 where "EXPIRES_TOMBSTONE = 0xFFFFFFFF"
definition EXPIRES_MAX :: u32 where "EXPIRES_MAX = EXPIRES_TOMBSTONE - 1"

section \<open>struct Pair\<close>

record Pair =
  p_created :: u64
  p_expires :: u32
  p_vallen :: u32
  p_keylen :: u16
  p_buffer :: str

definition sizeof_Pair :: nat where "sizeof_Pair = 20"

text \<open>The offset of \<open>buffer\<close> in the packed struct.\<close>

definition offset_buffer :: nat where "offset_buffer = 18"

definition CMP_NULLKEY :: int where "CMP_NULLKEY = -1"

definition TOMBSTONE :: str where "TOMBSTONE = []"

definition prepareCreateTime :: "u64 \<Rightarrow> u32 \<Rightarrow> u64" where
  "prepareCreateTime now created = (if created \<noteq> 0 then to64 created else now)"

definition prepareCreateTimeSimulate :: "u32 \<Rightarrow> u64" where
  "prepareCreateTimeSimulate created = (if created \<noteq> 0 then to64 created else 0xFFFFFFFFFFFFFFFF)"

section \<open>createInRawMemory\<close>

record RawFlags =
  copy_key :: bool
  copy_val :: bool
  make_key :: bool
  make_val :: bool

text \<open>
  The value is passed as bytes and size: with \<open>CopyVal::N\<close> the code may pass a null
  pointer with a size, and the bytes are not read.
\<close>

definition createInRawMemory0 ::
  "RawFlags \<Rightarrow> Pair \<Rightarrow> str \<Rightarrow> str \<Rightarrow> nat \<Rightarrow> u32 \<Rightarrow> u64 \<Rightarrow> Pair" where
  "createInRawMemory0 fl pair key val val_size expires created =
     (let ks = length key;
          pair = pair\<lparr>p_created := htobe64 created, p_expires := htobe32 expires\<rparr>;
          pair = (if copy_key fl \<or> make_key fl
                  then pair\<lparr>p_keylen := htobe16 (of_nat ks AND MAX_KEY_MASK)\<rparr> else pair);
          pair = (if copy_val fl \<or> make_val fl
                  then pair\<lparr>p_vallen := htobe32 (of_nat val_size AND MAX_VAL_MASK)\<rparr> else pair);
          b = p_buffer pair;
          b = (if copy_key fl then write_at 0 key b else b);
          b = (if copy_key fl \<or> make_key fl then write_at ks [0] b else b);
          b = (if copy_val fl then write_at (ks + 1) val b else b);
          b = (if copy_val fl \<or> make_val fl then write_at (ks + 1 + val_size) [0] b else b)
      in pair\<lparr>p_buffer := b\<rparr>)"

definition createInRawMemory ::
  "u64 \<Rightarrow> RawFlags \<Rightarrow> Pair \<Rightarrow> str \<Rightarrow> str \<Rightarrow> nat \<Rightarrow> u32 \<Rightarrow> u32 \<Rightarrow> Pair" where
  "createInRawMemory now fl pair key val val_size expires created =
     createInRawMemory0 fl pair key val val_size expires (prepareCreateTime now created)"

definition raw_full :: RawFlags where
  "raw_full = \<lparr>copy_key = True, copy_val = True, make_key = True, make_val = True\<rparr>"

definition raw_full_val :: RawFlags where
  "raw_full_val = \<lparr>copy_key = False, copy_val = True, make_key = False, make_val = True\<rparr>"

definition raw_none :: RawFlags where
  "raw_none = \<lparr>copy_key = False, copy_val = False, make_key = False, make_val = False\<rparr>"

definition createInRawMemoryFull :: "u64 \<Rightarrow> Pair \<Rightarrow> str \<Rightarrow> str \<Rightarrow> u32 \<Rightarrow> u32 \<Rightarrow> Pair" where
  "createInRawMemoryFull now pair key val expires created =
     createInRawMemory now raw_full pair key val (length val) expires created"

definition createInRawMemoryFullVal :: "u64 \<Rightarrow> Pair \<Rightarrow> str \<Rightarrow> str \<Rightarrow> u32 \<Rightarrow> u32 \<Rightarrow> Pair" where
  "createInRawMemoryFullVal now pair key val expires created =
     createInRawMemory now raw_full_val pair key val (length val) expires created"

definition createInRawMemoryNone :: "u64 \<Rightarrow> Pair \<Rightarrow> str \<Rightarrow> nat \<Rightarrow> u32 \<Rightarrow> u32 \<Rightarrow> Pair" where
  "createInRawMemoryNone now pair key val_size expires created =
     createInRawMemory now raw_none pair key [] val_size expires created"

definition createSystemPairInRawMemory :: "Pair \<Rightarrow> str \<Rightarrow> Pair" where
  "createSystemPairInRawMemory pair key =
     pair\<lparr>p_created := 0,
          p_expires := EXPIRES_TOMBSTONE,
          p_keylen := htobe16 (of_nat (length key) AND MAX_KEY_MASK),
          p_vallen := 0,
          p_buffer := write_at (length key + 1) [0] (write_at (length key) [0]
                        (write_at 0 key (p_buffer pair)))\<rparr>"

section \<open>Accessors\<close>

definition getKeyLen :: "Pair \<Rightarrow> nat" where
  "getKeyLen p = unat (betoh16 (p_keylen p) AND MAX_KEY_MASK)"

definition getValLen :: "Pair \<Rightarrow> nat" where
  "getValLen p = unat (betoh32 (p_vallen p) AND MAX_VAL_MASK)"

definition isKeyEmpty :: "Pair \<Rightarrow> bool" where
  "isKeyEmpty p \<longleftrightarrow> p_keylen p AND htobe16 MAX_KEY_MASK = 0"

definition getKey :: "Pair \<Rightarrow> str" where
  "getKey p = take (getKeyLen p) (p_buffer p)"

definition getVal :: "Pair \<Rightarrow> str" where
  "getVal p = take (getValLen p) (drop (getKeyLen p + 1) (p_buffer p))"

definition getCreated :: "Pair \<Rightarrow> u64" where
  "getCreated p = betoh64 (p_created p)"

definition getExpires :: "Pair \<Rightarrow> u32" where
  "getExpires p = betoh32 (p_expires p)"

definition isExpiresSet :: "Pair \<Rightarrow> bool" where
  "isExpiresSet p \<longleftrightarrow> p_expires p \<noteq> 0"

definition getTTL :: "u64 \<Rightarrow> Pair \<Rightarrow> u32" where
  "getTTL now p =
     (if p_expires p = 0 then 0
      else
        (let exp = getExpires p;
             endTime64 = addTime (getCreated p) exp
         in if endTime64 < now then 0 else to32 (endTime64 - now)))"

definition getExpiresAt :: "Pair \<Rightarrow> u32" where
  "getExpiresAt p = (if p_expires p = 0 then 0 else to32 (getCreated p) + getExpires p)"

definition getBufferOverflowDetect :: "Pair \<Rightarrow> byte" where
  "getBufferOverflowDetect p = p_buffer p ! (getKeyLen p + 1 + getValLen p)"

definition setBufferOverflowDetect :: "byte \<Rightarrow> Pair \<Rightarrow> Pair" where
  "setBufferOverflowDetect ch p =
     p\<lparr>p_buffer := write_at (getKeyLen p + 1 + getValLen p) [ch] (p_buffer p)\<rparr>"

section \<open>Comparison\<close>

text \<open>\<open>cmpX<start>\<close> compares the keys without their first \<open>start\<close> characters.\<close>

definition cmpX :: "nat \<Rightarrow> Pair \<Rightarrow> str \<Rightarrow> int" where
  "cmpX start p key =
     (if start = 0 then compare (getKey p) key
      else compare (drop start (getKey p)) (drop start key))"

definition cmp :: "Pair \<Rightarrow> str \<Rightarrow> int" where
  "cmp p key = (if key = [] then CMP_NULLKEY else cmpX 0 p key)"

definition cmp_pair :: "Pair \<Rightarrow> Pair \<Rightarrow> int" where
  "cmp_pair p q = cmp p (getKey q)"

definition pair_cmpLCP_start :: "Pair \<Rightarrow> str \<Rightarrow> nat \<Rightarrow> ResultLCP option" where
  "pair_cmpLCP_start p key start =
     (if key = [] then Some \<lparr>lcp_cmp = CMP_NULLKEY, lcp_prefix = 0\<rparr>
      else cmpLCP_start (getKey p) key start)"

definition pair_cmpLCP :: "Pair \<Rightarrow> str \<Rightarrow> ResultLCP" where
  "pair_cmpLCP p key =
     (if key = [] then \<lparr>lcp_cmp = CMP_NULLKEY, lcp_prefix = 0\<rparr> else cmpLCP (getKey p) key)"

definition equalsX :: "nat \<Rightarrow> Pair \<Rightarrow> str \<Rightarrow> bool" where
  "equalsX start p key =
     (if start = 0 then equals (getKey p) key
      else equals (drop start (getKey p)) (drop start key))"

definition pair_equals :: "Pair \<Rightarrow> str \<Rightarrow> bool" where
  "pair_equals p key = (if key = [] then False else equalsX 0 p key)"

definition cmpTime :: "Pair \<Rightarrow> Pair \<Rightarrow> int" where
  "cmpTime p q = comparator_comp (getCreated p) (getCreated q)"

definition cmpTime_created :: "Pair \<Rightarrow> u64 \<Rightarrow> int" where
  "cmpTime_created p created = comparator_comp (getCreated p) created"

definition cmpWithTime :: "bool \<Rightarrow> Pair \<Rightarrow> Pair \<Rightarrow> int" where
  "cmpWithTime B p q =
     (let result = cmp_pair p q in
      if result \<noteq> 0 then result
      else if B then cmpTime p q else - cmpTime p q)"

section \<open>Expiration and tombstones\<close>

definition isExpired0 :: "u64 \<Rightarrow> Pair \<Rightarrow> bool" where
  "isExpired0 now p \<longleftrightarrow> p_expires p \<noteq> 0 \<and> expired now (getCreated p) (getExpires p)"

definition isExpired :: "u64 \<Rightarrow> Pair \<Rightarrow> bool" where
  "isExpired now p = (if p_expires p = EXPIRES_TOMBSTONE then True else isExpired0 now p)"

definition isTombstone :: "Pair \<Rightarrow> bool" where
  "isTombstone p =
     (if p_expires p = EXPIRES_TOMBSTONE then True
      else p_vallen p AND htobe32 MAX_VAL_MASK = 0)"

definition isSystemPair :: "Pair \<Rightarrow> bool" where
  "isSystemPair p \<longleftrightarrow> p_expires p = EXPIRES_TOMBSTONE \<and> p_created p = 0 \<and> p_vallen p = 0"

definition isOK :: "u64 \<Rightarrow> Pair \<Rightarrow> bool" where
  "isOK now p = (if isTombstone p then False else if isExpired0 now p then False else True)"

section \<open>Sizes and validity\<close>

definition bytes_of :: "nat \<Rightarrow> nat \<Rightarrow> nat" where
  "bytes_of keyLen valLen = sizeof_Pair + keyLen + valLen"

definition bytes :: "Pair \<Rightarrow> nat" where
  "bytes p = bytes_of (getKeyLen p) (getValLen p)"

definition maxBytes :: nat where
  "maxBytes = bytes_of MAX_KEY_SIZE MAX_VAL_SIZE"

definition maxBytesTombstone :: nat where
  "maxBytesTombstone = bytes_of MAX_KEY_SIZE 0"

definition isKeyValid_size :: "nat \<Rightarrow> bool" where
  "isKeyValid_size n \<longleftrightarrow> n > 0 \<and> n \<le> MAX_KEY_SIZE"

definition isKeyValid :: "str \<Rightarrow> bool" where
  "isKeyValid key = isKeyValid_size (length key)"

definition isCompositeKeyValid :: "nat \<Rightarrow> str list \<Rightarrow> bool" where
  "isCompositeKeyValid extra args \<longleftrightarrow>
     list_all (\<lambda>x. x \<noteq> []) args \<and> isKeyValid_size (extra + concatenateBufferSize args)"

definition isValValid_size :: "nat \<Rightarrow> bool" where
  "isValValid_size n \<longleftrightarrow> n \<le> MAX_VAL_SIZE"

definition isValValid :: "str \<Rightarrow> bool" where
  "isValValid val = isValValid_size (length val)"

definition isValValidNZ :: "str \<Rightarrow> bool" where
  "isValValidNZ val \<longleftrightarrow> length val > 0 \<and> length val \<le> MAX_VAL_SIZE"

definition cloneInRawMemory :: "Pair \<Rightarrow> Pair \<Rightarrow> Pair" where
  "cloneInRawMemory pair src =
     src\<lparr>p_buffer := write_at 0 (take (bytes src - offset_buffer) (p_buffer src)) (p_buffer pair)\<rparr>"

section \<open>Sizes stored in the header\<close>

lemma unat_key_mask: "n \<le> MAX_KEY_SIZE \<Longrightarrow> unat ((of_nat n :: u16) AND MAX_KEY_MASK) = n"
proof -
  assume n: "n \<le> MAX_KEY_SIZE"
  have "(of_nat n :: u16) AND mask 10 = take_bit 10 (of_nat n)"
    by (simp add: take_bit_eq_mask)
  also have "unat \<dots> = n" using n
    by (simp add: unsigned_take_bit_eq MAX_KEY_SIZE_def take_bit_nat_def unat_of_nat)
  finally show ?thesis by (simp add: MAX_KEY_MASK_def mask_eq_exp_minus_1)
qed

lemma unat_val_mask: "n \<le> MAX_VAL_SIZE \<Longrightarrow> unat ((of_nat n :: u32) AND MAX_VAL_MASK) = n"
proof -
  assume n: "n \<le> MAX_VAL_SIZE"
  have "(of_nat n :: u32) AND mask 28 = take_bit 28 (of_nat n)"
    by (simp add: take_bit_eq_mask)
  also have "unat \<dots> = n" using n
    by (simp add: unsigned_take_bit_eq MAX_VAL_SIZE_def take_bit_nat_def unat_of_nat)
  finally show ?thesis by (simp add: MAX_VAL_MASK_def mask_eq_exp_minus_1)
qed

lemma getKeyLen_le: "getKeyLen p \<le> MAX_KEY_SIZE"
proof -
  have "betoh16 (p_keylen p) AND MAX_KEY_MASK \<le> MAX_KEY_MASK" by (rule word_and_le1)
  then have "unat (betoh16 (p_keylen p) AND MAX_KEY_MASK) \<le> unat MAX_KEY_MASK"
    by (simp add: word_le_nat_alt)
  then show ?thesis by (simp add: getKeyLen_def MAX_KEY_MASK_def MAX_KEY_SIZE_def)
qed

lemma getValLen_le: "getValLen p \<le> MAX_VAL_SIZE"
proof -
  have "betoh32 (p_vallen p) AND MAX_VAL_MASK \<le> MAX_VAL_MASK" by (rule word_and_le1)
  then have "unat (betoh32 (p_vallen p) AND MAX_VAL_MASK) \<le> unat MAX_VAL_MASK"
    by (simp add: word_le_nat_alt)
  then show ?thesis by (simp add: getValLen_def MAX_VAL_MASK_def MAX_VAL_SIZE_def)
qed

lemma htobe_and:
  "htobe16 (a AND b) = htobe16 a AND htobe16 b"
  "htobe32 (c AND d) = htobe32 c AND htobe32 d"
proof -
  show "htobe16 (a AND b) = htobe16 a AND htobe16 b"
    by (rule octet_eqI [where m = 2])
       (simp_all add: endian_defs bit_byteswap16_octet bit_and_iff)
  show "htobe32 (c AND d) = htobe32 c AND htobe32 d"
    by (rule octet_eqI [where m = 4])
       (simp_all add: endian_defs bit_byteswap32_octet bit_and_iff)
qed

text \<open>The tests against a big endian zero are tests of the decoded lengths.\<close>

lemma isKeyEmpty_iff: "isKeyEmpty p \<longleftrightarrow> getKeyLen p = 0"
  using htobe_and(1) [of "betoh16 (p_keylen p)" MAX_KEY_MASK]
  by (simp add: isKeyEmpty_def getKeyLen_def unat_eq_0)
     (metis htobe_betoh(1) htobe_eq_0_iff(1))

lemma vallen_mask_eq_0_iff: "p_vallen p AND htobe32 MAX_VAL_MASK = 0 \<longleftrightarrow> getValLen p = 0"
  using htobe_and(2) [of "betoh32 (p_vallen p)" MAX_VAL_MASK]
  by (simp add: getValLen_def unat_eq_0) (metis htobe_betoh(2) htobe_eq_0_iff(2))

section \<open>Well formed pairs\<close>

text \<open>
  A pair is well formed when its memory block is as long as \<open>bytes()\<close> says.  A raw block of
  \<open>n\<close> bytes is a pair whose fields are whatever was in memory.
\<close>

definition pair_wf :: "Pair \<Rightarrow> bool" where
  "pair_wf p \<longleftrightarrow> getKeyLen p + 1 + getValLen p + 1 \<le> length (p_buffer p)"

definition block_size :: "Pair \<Rightarrow> nat" where
  "block_size p = offset_buffer + length (p_buffer p)"

lemma pair_wf_iff: "pair_wf p \<longleftrightarrow> bytes p \<le> block_size p"
  by (simp add: pair_wf_def bytes_def bytes_of_def block_size_def sizeof_Pair_def
      offset_buffer_def)

lemma length_getKey [simp]: "pair_wf p \<Longrightarrow> length (getKey p) = getKeyLen p"
  by (simp add: pair_wf_def getKey_def)

lemma length_getVal [simp]: "pair_wf p \<Longrightarrow> length (getVal p) = getValLen p"
  by (simp add: pair_wf_def getVal_def)

lemma getKey_empty_iff: "pair_wf p \<Longrightarrow> getKey p = [] \<longleftrightarrow> isKeyEmpty p"
  by (simp add: isKeyEmpty_iff flip: length_0_conv)

section \<open>What createInRawMemory writes\<close>

lemma create0_header [simp]:
  "getCreated (createInRawMemory0 fl p key val n e c) = c"
  "getExpires (createInRawMemory0 fl p key val n e c) = e"
  "p_expires (createInRawMemory0 fl p key val n e c) = htobe32 e"
  by (simp_all add: createInRawMemory0_def Let_def getCreated_def getExpires_def)

lemma create0_keylen:
  "length key \<le> MAX_KEY_SIZE \<Longrightarrow>
     getKeyLen (createInRawMemory0 fl p key val n e c) =
       (if copy_key fl \<or> make_key fl then length key else getKeyLen p)"
  by (simp add: createInRawMemory0_def Let_def getKeyLen_def unat_key_mask)

lemma create0_vallen:
  "n \<le> MAX_VAL_SIZE \<Longrightarrow>
     getValLen (createInRawMemory0 fl p key val n e c) =
       (if copy_val fl \<or> make_val fl then n else getValLen p)"
  by (simp add: createInRawMemory0_def Let_def getValLen_def unat_val_mask)

lemma create0_buffer_full:
  assumes "copy_key fl" "copy_val fl"
    and "length key + 1 + length val + 1 \<le> length (p_buffer p)"
  shows "p_buffer (createInRawMemory0 fl p key val (length val) e c) =
    key @ [0] @ val @ [0] @ drop (length key + length val + 2) (p_buffer p)"
  using assms by (simp add: createInRawMemory0_def Let_def write_at_inside add.commute)

lemma create0_buffer_val:
  assumes "\<not> copy_key fl" "\<not> make_key fl" "copy_val fl"
    and "length key + 1 + length val + 1 \<le> length (p_buffer p)"
  shows "p_buffer (createInRawMemory0 fl p key val (length val) e c) =
    take (length key + 1) (p_buffer p) @ val @ [0] @
    drop (length key + length val + 2) (p_buffer p)"
  using assms by (simp add: createInRawMemory0_def Let_def write_at_inside)

lemma create0_buffer_none:
  "\<not> copy_key fl \<Longrightarrow> \<not> make_key fl \<Longrightarrow> \<not> copy_val fl \<Longrightarrow> \<not> make_val fl \<Longrightarrow>
     p_buffer (createInRawMemory0 fl p key val n e c) = p_buffer p"
  by (simp add: createInRawMemory0_def Let_def)

lemma create0_length:
  assumes "length key + 1 + n + 1 \<le> length (p_buffer p)" and "copy_val fl \<Longrightarrow> length val = n"
  shows "length (p_buffer (createInRawMemory0 fl p key val n e c)) = length (p_buffer p)"
  using assms by (simp add: createInRawMemory0_def Let_def)

declare isKeyValid_def [eval_simps]
  isValValid_def [eval_simps]
  isKeyValid_size_def [eval_simps]
  isValValid_size_def [eval_simps]
  MAX_KEY_SIZE_def [eval_simps]
  MAX_VAL_SIZE_def [eval_simps]
  bytes_of_def [eval_simps]
  sizeof_Pair_def [eval_simps]

end
