(* ===== verification/PairFactory.thy ===== *)
theory PairFactory
  imports Pair
begin

text \<open>
  The factories of \<^verbatim>\<open>hm4/pair.h\<close> (namespace \<open>PairFactory\<close>) and of
  \<^verbatim>\<open>hm4/pair_vfactory.h\<close>: what an insertion carries until the list knows whether it
  writes a new pair (\<open>create\<close>) or over an old one in place (\<open>createHint\<close>).
\<close>

section \<open>The code\<close>

datatype PairFactory =
    Normal str str u32 u32
  | Expires str str u32 u32
  | Tombstone str u32
  | Clone Pair
  | Reserve str nat "Pair option" byte
  | Action str nat "Pair option" byte bool "str \<Rightarrow> str"

text \<open>
  \<open>Reserve\<close> and \<open>Action\<close> are the \<open>IFactoryAction<copy_value, same_size, Child>\<close> with \<open>copy_value\<close>: the
  child's \<open>action\<close> works on the value area of the pair, it is the function on that area.  \<open>Reserve\<close> has
  \<open>same_size\<close> and no action.
\<close>

fun factory_getKey :: "PairFactory \<Rightarrow> str" where
  "factory_getKey (Normal key val expires created) = key"
| "factory_getKey (Expires key val expires created) = key"
| "factory_getKey (Tombstone key created) = key"
| "factory_getKey (Clone src) = getKey src"
| "factory_getKey (Reserve key val_size old_pair fill) = key"
| "factory_getKey (Action key val_size old_pair fill same_size action) = key"

text \<open>\<open>Clone::getCreated\<close> is \<open>(uint32_t) src->getCreated()\<close>: the low half.\<close>

fun factory_getCreated :: "PairFactory \<Rightarrow> u32" where
  "factory_getCreated (Normal key val expires created) = created"
| "factory_getCreated (Expires key val expires created) = created"
| "factory_getCreated (Tombstone key created) = created"
| "factory_getCreated (Clone src) = ucast (getCreated src)"
| "factory_getCreated (Reserve key val_size old_pair fill) = 0"
| "factory_getCreated (Action key val_size old_pair fill same_size action) = 0"

fun factory_bytes :: "PairFactory \<Rightarrow> nat" where
  "factory_bytes (Normal key val expires created) = bytes_of (length key) (length val)"
| "factory_bytes (Expires key val expires created) = bytes_of (length key) (length val)"
| "factory_bytes (Tombstone key created) = bytes_of (length key) (length TOMBSTONE)"
| "factory_bytes (Clone src) = bytes src"
| "factory_bytes (Reserve key val_size old_pair fill) = bytes_of (length key) val_size"
| "factory_bytes (Action key val_size old_pair fill same_size action) = bytes_of (length key) val_size"

fun factory_valid :: "PairFactory \<Rightarrow> bool" where
  "factory_valid (Normal key val expires created) \<longleftrightarrow> isKeyValid key \<and> isValValid val"
| "factory_valid (Expires key val expires created) \<longleftrightarrow> isKeyValid key \<and> isValValid val"
| "factory_valid (Tombstone key created) \<longleftrightarrow> isKeyValid key"
| "factory_valid (Clone src) \<longleftrightarrow> True"
| "factory_valid (Reserve key val_size old_pair fill) \<longleftrightarrow>
     isKeyValid key \<and> isValValid_size val_size"
| "factory_valid (Action key val_size old_pair fill same_size action) \<longleftrightarrow>
     isKeyValid key \<and> isValValid_size val_size"

text \<open>
  \<open>IFactoryAction::copyPair_\<close> with \<open>copy_value = true\<close>: the value area is filled from the
  old pair by \<open>smart_memcpy\<close>, which copies what fits and clears the rest, or with one byte.
\<close>

definition smart_memcpy :: "nat \<Rightarrow> str \<Rightarrow> byte \<Rightarrow> str" where
  "smart_memcpy dest_size src fill =
     (if length src \<le> dest_size then src @ replicate (dest_size - length src) fill
      else take dest_size src)"

definition copyPair :: "nat \<Rightarrow> Pair option \<Rightarrow> byte \<Rightarrow> Pair \<Rightarrow> Pair" where
  "copyPair val_size old_pair fill pair =
     (let data = (case old_pair of
                    Some old \<Rightarrow> smart_memcpy val_size (getVal old) 0
                  | None \<Rightarrow> replicate val_size fill)
      in pair\<lparr>p_buffer := write_at (getKeyLen pair + 1) data (p_buffer pair)\<rparr>)"

text \<open>\<open>action(pair)\<close>: what the child does to the bytes at \<open>pair->getValC()\<close>.\<close>

definition factory_action :: "(str \<Rightarrow> str) \<Rightarrow> Pair \<Rightarrow> Pair" where
  "factory_action action pair =
     pair\<lparr>p_buffer := write_at (getKeyLen pair + 1) (action (getVal pair)) (p_buffer pair)\<rparr>"

definition raw_make_val :: RawFlags where
  "raw_make_val = \<lparr>copy_key = False, copy_val = False, make_key = False, make_val = True\<rparr>"

definition raw_key_make_val :: RawFlags where
  "raw_key_make_val = \<lparr>copy_key = True, copy_val = False, make_key = True, make_val = True\<rparr>"

fun factory_createHint :: "u64 \<Rightarrow> PairFactory \<Rightarrow> Pair \<Rightarrow> Pair" where
  "factory_createHint now (Normal key val expires created) pair =
     createInRawMemoryFullVal now pair key val expires created"
| "factory_createHint now (Expires key val expires created) pair =
     createInRawMemoryNone now pair key (length val) expires created"
| "factory_createHint now (Tombstone key created) pair =
     createInRawMemoryNone now pair key (length TOMBSTONE) EXPIRES_TOMBSTONE created"
| "factory_createHint now (Clone src) pair = cloneInRawMemory pair src"
| "factory_createHint now (Reserve key val_size old_pair fill) pair =
     (if isOK now pair \<and> getValLen pair = val_size
      then createInRawMemoryNone now pair key val_size 0 0
      else copyPair val_size old_pair fill
             (createInRawMemory now raw_make_val pair key [] val_size 0 0))"
| "factory_createHint now (Action key val_size old_pair fill same_size action) pair =
     factory_action action
       (if same_size \<and> isOK now pair \<and> getValLen pair = val_size
        then createInRawMemoryNone now pair key val_size 0 0
        else copyPair val_size old_pair fill
               (createInRawMemory now raw_make_val pair key [] val_size 0 0))"

fun factory_create :: "u64 \<Rightarrow> PairFactory \<Rightarrow> Pair \<Rightarrow> Pair" where
  "factory_create now (Normal key val expires created) pair =
     createInRawMemoryFull now pair key val expires created"
| "factory_create now (Expires key val expires created) pair =
     createInRawMemoryFull now pair key val expires created"
| "factory_create now (Tombstone key created) pair =
     createInRawMemoryFull now pair key TOMBSTONE 0 created"
| "factory_create now (Clone src) pair = cloneInRawMemory pair src"
| "factory_create now (Reserve key val_size old_pair fill) pair =
     copyPair val_size old_pair fill
       (createInRawMemory now raw_key_make_val pair key [] val_size 0 0)"
| "factory_create now (Action key val_size old_pair fill same_size action) pair =
     factory_action action (copyPair val_size old_pair fill
       (createInRawMemory now raw_key_make_val pair key [] val_size 0 0))"

section \<open>Fresh memory\<close>

text \<open>
  The block that an allocator hands out, seen as a pair.  Its contents do not matter
  (\<open>factory_create_fresh\<close> below), so the model takes it zeroed.
\<close>

definition raw_memory :: "nat \<Rightarrow> Pair" where
  "raw_memory n = \<lparr>p_created = 0, p_expires = 0, p_vallen = 0, p_keylen = 0,
                   p_buffer = replicate (n - offset_buffer) 0\<rparr>"

lemma length_raw_memory [simp]: "length (p_buffer (raw_memory n)) = n - offset_buffer"
  by (simp add: raw_memory_def)

text \<open>A cloned pair has to be a well formed pair with a key; an action has to stay inside the value.\<close>

fun factory_wf :: "PairFactory \<Rightarrow> bool" where
  "factory_wf (Clone src) \<longleftrightarrow> pair_wf src \<and> \<not> isKeyEmpty src"
| "factory_wf (Action key val_size old_pair fill same_size action) \<longleftrightarrow>
     isKeyValid key \<and> isValValid_size val_size \<and> (\<forall>v. length v = val_size \<longrightarrow> length (action v) = val_size)"
| "factory_wf f \<longleftrightarrow> factory_valid f"

lemma factory_wf_valid: "factory_wf f \<Longrightarrow> factory_valid f"
  by (cases f) simp_all

lemma factory_wf_iff:
  "(\<forall>src. f \<noteq> Clone src) \<Longrightarrow> (\<forall>k n old c s a. f \<noteq> Action k n old c s a) \<Longrightarrow> factory_wf f \<longleftrightarrow> factory_valid f"
  by (cases f) fastforce+

lemma factory_wf_key: "factory_wf f \<Longrightarrow> factory_getKey f \<noteq> []"
  by (cases f) (auto simp: isKeyValid_def isKeyValid_size_def getKey_empty_iff)

lemma factory_wf_key_le: "factory_wf f \<Longrightarrow> length (factory_getKey f) \<le> MAX_KEY_SIZE"
  by (cases f) (auto simp: isKeyValid_def isKeyValid_size_def getKeyLen_le)

lemma length_smart_memcpy [simp]: "length (smart_memcpy n src c) = n"
  by (simp add: smart_memcpy_def)

text \<open>The value that a factory gives to a pair it creates.\<close>

fun factory_val :: "PairFactory \<Rightarrow> str" where
  "factory_val (Normal key val expires created) = val"
| "factory_val (Expires key val expires created) = val"
| "factory_val (Tombstone key created) = []"
| "factory_val (Clone src) = getVal src"
| "factory_val (Reserve key val_size old_pair fill) =
     (case old_pair of Some old \<Rightarrow> smart_memcpy val_size (getVal old) 0
                     | None \<Rightarrow> replicate val_size fill)"
| "factory_val (Action key val_size old_pair fill same_size action) =
     action (case old_pair of Some old \<Rightarrow> smart_memcpy val_size (getVal old) 0
                            | None \<Rightarrow> replicate val_size fill)"

lemma factory_bytes_eq:
  "factory_wf f \<Longrightarrow> factory_bytes f = bytes_of (length (factory_getKey f)) (length (factory_val f))"
  by (cases f) (auto simp: bytes_def TOMBSTONE_def split: option.split)

lemma factory_val_le: "factory_wf f \<Longrightarrow> length (factory_val f) \<le> MAX_VAL_SIZE"
  by (cases f) (auto simp: isValValid_def isValValid_size_def getValLen_le split: option.split)

text \<open>The header that a factory writes: creation time and expiration.\<close>

fun factory_created :: "u64 \<Rightarrow> PairFactory \<Rightarrow> u64" where
  "factory_created now (Clone src) = getCreated src"
| "factory_created now f = prepareCreateTime now (factory_getCreated f)"

fun factory_expires :: "PairFactory \<Rightarrow> u32" where
  "factory_expires (Normal key val expires created) = expires"
| "factory_expires (Expires key val expires created) = expires"
| "factory_expires (Tombstone key created) = 0"
| "factory_expires (Clone src) = getExpires src"
| "factory_expires (Reserve key val_size old_pair fill) = 0"
| "factory_expires (Action key val_size old_pair fill same_size action) = 0"

section \<open>create\<close>

lemma key_val_of_buffer:
  assumes "p_buffer p = key @ [c] @ val @ rest" "getKeyLen p = length key"
    "getValLen p = length val" "rest \<noteq> []"
  shows "getKey p = key" "getVal p = val" "pair_wf p"
  using assms by (cases rest; simp add: getKey_def getVal_def pair_wf_def)+

lemma create_raw_full:
  fixes now :: u64 and p :: Pair and key val :: str and e c :: u32
  assumes "length key \<le> MAX_KEY_SIZE" "length val \<le> MAX_VAL_SIZE"
    and "length key + 1 + length val + 1 \<le> length (p_buffer p)"
  defines "q \<equiv> createInRawMemoryFull now p key val e c"
  shows "getKey q = key \<and> getVal q = val \<and> pair_wf q \<and> getKeyLen q = length key \<and>
    getValLen q = length val \<and> getCreated q = prepareCreateTime now c \<and> getExpires q = e \<and>
    p_buffer q = key @ [0] @ val @ [0] @ drop (length key + length val + 2) (p_buffer p)"
proof -
  have buf: "p_buffer q = key @ [0] @ val @ [0] @ drop (length key + length val + 2) (p_buffer p)"
    using create0_buffer_full [of raw_full key val p] assms(3)
    by (simp add: q_def createInRawMemoryFull_def createInRawMemory_def raw_full_def)
  have len: "getKeyLen q = length key" "getValLen q = length val"
    using assms(1,2)
    by (simp_all add: q_def createInRawMemoryFull_def createInRawMemory_def create0_keylen
        create0_vallen raw_full_def)
  show ?thesis
    using key_val_of_buffer [OF buf len] buf len
    by (simp add: q_def createInRawMemoryFull_def createInRawMemory_def)
qed

lemma getKeyLen_buffer [simp]: "getKeyLen (p\<lparr>p_buffer := b\<rparr>) = getKeyLen p"
  by (simp add: getKeyLen_def)

lemma getValLen_buffer [simp]: "getValLen (p\<lparr>p_buffer := b\<rparr>) = getValLen p"
  by (simp add: getValLen_def)

lemma bytes_buffer [simp]: "bytes (p\<lparr>p_buffer := b\<rparr>) = bytes p"
  by (simp add: bytes_def)

lemma getCreated_buffer [simp]: "getCreated (p\<lparr>p_buffer := b\<rparr>) = getCreated p"
  by (simp add: getCreated_def)

lemma getExpires_buffer [simp]: "getExpires (p\<lparr>p_buffer := b\<rparr>) = getExpires p"
  by (simp add: getExpires_def)

lemma getKeyLen_copyPair [simp]: "getKeyLen (copyPair n old c p) = getKeyLen p"
  by (simp add: copyPair_def Let_def)

lemma getValLen_copyPair [simp]: "getValLen (copyPair n old c p) = getValLen p"
  by (simp add: copyPair_def Let_def)

lemma getCreated_copyPair [simp]: "getCreated (copyPair n old c p) = getCreated p"
  by (simp add: copyPair_def Let_def)

lemma getExpires_copyPair [simp]: "getExpires (copyPair n old c p) = getExpires p"
  by (simp add: copyPair_def Let_def)

lemma copyPair_buffer:
  "copyPair n old c p =
     p\<lparr>p_buffer := write_at (getKeyLen p + 1) (factory_val (Reserve key n old c)) (p_buffer p)\<rparr>"
  by (simp add: copyPair_def Let_def)

lemma create_raw_reserve:
  fixes now :: u64 and p :: Pair and key :: str and n :: nat and old :: "Pair option" and c :: byte
  assumes "length key \<le> MAX_KEY_SIZE" "n \<le> MAX_VAL_SIZE"
    and "length key + 1 + n + 1 \<le> length (p_buffer p)"
  defines "q \<equiv> factory_create now (Reserve key n old c) p"
  defines "val \<equiv> factory_val (Reserve key n old c)"
  shows "getKey q = key \<and> getVal q = val \<and> pair_wf q \<and> getKeyLen q = length key \<and>
    getValLen q = length val \<and> getCreated q = prepareCreateTime now 0 \<and> getExpires q = 0 \<and>
    p_buffer q = key @ [0] @ val @ [0] @ drop (length key + length val + 2) (p_buffer p)"
proof -
  let ?r = "createInRawMemory0 raw_key_make_val p key [] n 0 (prepareCreateTime now 0)"
  have r: "getKeyLen ?r = length key" "getValLen ?r = n"
    using assms(1,2) by (simp_all add: create0_keylen create0_vallen raw_key_make_val_def)
  have lv: "length val = n" by (simp add: val_def split: option.split)
  have rb: "p_buffer ?r =
      write_at (length key + 1 + n) [0] (write_at (length key) [0] (write_at 0 key (p_buffer p)))"
    by (simp add: createInRawMemory0_def Let_def raw_key_make_val_def)
  have q: "q = ?r\<lparr>p_buffer := write_at (length key + 1) val (p_buffer ?r)\<rparr>"
    unfolding q_def val_def
    by (simp add: createInRawMemory_def copyPair_buffer [of _ _ _ _ key] r del: factory_val.simps)
  have len: "getKeyLen q = length key" "getValLen q = length val"
    using r lv by (simp_all add: q)
  have buf: "p_buffer q = key @ [0] @ val @ [0] @ drop (length key + length val + 2) (p_buffer p)"
    using assms(3) lv by (simp add: q rb write_at_inside add.commute)
  show ?thesis
    using key_val_of_buffer [OF buf len] buf len by (simp add: q)
qed

lemma create_raw_clone:
  fixes p src :: Pair
  assumes "pair_wf src" "bytes src \<le> block_size p"
  defines "q \<equiv> cloneInRawMemory p src"
  shows "getKey q = getKey src \<and> getVal q = getVal src \<and> pair_wf q \<and>
    getKeyLen q = getKeyLen src \<and> getValLen q = getValLen src \<and>
    getCreated q = getCreated src \<and> getExpires q = getExpires src \<and>
    p_buffer q = take (bytes src - offset_buffer) (p_buffer src) @
      drop (bytes src - offset_buffer) (p_buffer p)"
proof -
  have le: "bytes src - offset_buffer \<le> length (p_buffer p)"
    "bytes src - offset_buffer \<le> length (p_buffer src)"
    using assms by (simp_all add: pair_wf_iff block_size_def)
  then have buf: "p_buffer q = take (bytes src - offset_buffer) (p_buffer src) @
      drop (bytes src - offset_buffer) (p_buffer p)"
    by (simp add: q_def cloneInRawMemory_def write_at_inside min_def)
  have b: "bytes src - offset_buffer = getKeyLen src + 1 + getValLen src + 1"
    by (simp add: bytes_def bytes_of_def sizeof_Pair_def offset_buffer_def)
  have len: "getKeyLen q = getKeyLen src" "getValLen q = getValLen src"
    by (simp_all add: q_def cloneInRawMemory_def)
  show ?thesis
    using buf b len le
    by (simp add: getKey_def getVal_def pair_wf_def q_def cloneInRawMemory_def
        take_drop min_def del: One_nat_def)
qed

lemma factory_action_fields [simp]:
  "p_keylen (factory_action a p) = p_keylen p" "p_vallen (factory_action a p) = p_vallen p"
  "p_created (factory_action a p) = p_created p" "p_expires (factory_action a p) = p_expires p"
  "getKeyLen (factory_action a p) = getKeyLen p" "getValLen (factory_action a p) = getValLen p"
  "getCreated (factory_action a p) = getCreated p" "getExpires (factory_action a p) = getExpires p"
  "bytes (factory_action a p) = bytes p"
  by (simp_all add: factory_action_def)

lemma factory_action_spec:
  assumes "pair_wf p" "length (a (getVal p)) = getValLen p"
  shows "getKey (factory_action a p) = getKey p \<and> getVal (factory_action a p) = a (getVal p) \<and>
    pair_wf (factory_action a p) \<and> block_size (factory_action a p) = block_size p \<and>
    p_buffer (factory_action a p) =
      take (getKeyLen p + 1) (p_buffer p) @ a (getVal p) @ drop (getKeyLen p + 1 + getValLen p) (p_buffer p)"
proof -
  have room: "getKeyLen p + 1 + getValLen p < length (p_buffer p)" using assms(1) by (simp add: pair_wf_def)
  then have buf: "p_buffer (factory_action a p) =
      take (getKeyLen p + 1) (p_buffer p) @ a (getVal p) @ drop (getKeyLen p + 1 + getValLen p) (p_buffer p)"
    using assms(2) by (simp add: factory_action_def write_at_inside)
  have "take (getKeyLen p) (p_buffer (factory_action a p)) = take (getKeyLen p) (p_buffer p)"
    unfolding buf using room by (simp add: min_def)
  moreover have "take (getValLen p) (drop (getKeyLen p + 1) (p_buffer (factory_action a p))) = a (getVal p)"
    unfolding buf using room assms(2) by simp
  moreover have "length (p_buffer (factory_action a p)) = length (p_buffer p)"
    unfolding buf using room assms(2) by simp
  ultimately show ?thesis using buf assms(1)
    by (simp add: getKey_def getVal_def pair_wf_def block_size_def)
qed

lemma create_raw_action:
  fixes now :: u64 and p :: Pair and key :: str and n :: nat and old :: "Pair option" and c :: byte
    and s :: bool and a :: "str \<Rightarrow> str"
  assumes "length key \<le> MAX_KEY_SIZE" "n \<le> MAX_VAL_SIZE"
    and "length key + 1 + n + 1 \<le> length (p_buffer p)" "\<forall>v. length v = n \<longrightarrow> length (a v) = n"
  defines "q \<equiv> factory_create now (Action key n old c s a) p"
  defines "val \<equiv> factory_val (Action key n old c s a)"
  shows "getKey q = key \<and> getVal q = val \<and> pair_wf q \<and> getKeyLen q = length key \<and>
    getValLen q = length val \<and> getCreated q = prepareCreateTime now 0 \<and> getExpires q = 0 \<and>
    p_buffer q = key @ [0] @ val @ [0] @ drop (length key + length val + 2) (p_buffer p)"
proof -
  let ?r = "factory_create now (Reserve key n old c) p" and ?v = "factory_val (Reserve key n old c)"
  have v: "length ?v = n" "val = a ?v" by (simp_all add: val_def split: option.split)
  note r = create_raw_reserve [OF assms(1-3), of now old c]
  have q: "q = factory_action a ?r" by (simp add: q_def)
  have l: "length (a (getVal ?r)) = getValLen ?r" using r v assms(4) by simp
  have b: "p_buffer ?r = key @ [0] @ ?v @ [0] @ drop (length key + length ?v + 2) (p_buffer p)" using r by blast
  have rw: "pair_wf ?r" "getKeyLen ?r = length key" "getValLen ?r = length ?v" "getVal ?r = ?v" "getKey ?r = key"
    "getCreated ?r = prepareCreateTime now 0" "getExpires ?r = 0" using r by blast+
  have "p_buffer q = key @ [0] @ val @ [0] @ drop (length key + length val + 2) (p_buffer p)"
    using factory_action_spec [where a = a, OF rw(1) l] assms(4) v unfolding q rw b
    by (simp del: factory_create.simps factory_val.simps)
  then show ?thesis using factory_action_spec [where a = a, OF rw(1) l] rw v assms(4)
    by (simp add: q del: factory_create.simps factory_val.simps)
qed

text \<open>What any factory creates in a block that is large enough.\<close>

lemma factory_create_spec:
  assumes "factory_wf f" "factory_bytes f \<le> block_size p"
  shows "getKey (factory_create now f p) = factory_getKey f \<and>
    getVal (factory_create now f p) = factory_val f \<and>
    pair_wf (factory_create now f p) \<and>
    getKeyLen (factory_create now f p) = length (factory_getKey f) \<and>
    getValLen (factory_create now f p) = length (factory_val f) \<and>
    getCreated (factory_create now f p) = factory_created now f \<and>
    getExpires (factory_create now f p) = factory_expires f"
proof -
  have len: "length (factory_getKey f) \<le> MAX_KEY_SIZE" "length (factory_val f) \<le> MAX_VAL_SIZE"
    using assms(1) by (simp_all add: factory_wf_key_le factory_val_le)
  have room: "length (factory_getKey f) + 1 + length (factory_val f) + 1 \<le> length (p_buffer p)"
    using assms(2) factory_bytes_eq [OF assms(1)]
    by (simp add: block_size_def bytes_of_def sizeof_Pair_def offset_buffer_def)
  show ?thesis
  proof (cases f)
    case (Reserve key n old c)
    have "length (factory_val f) = n" by (simp add: Reserve split: option.split)
    then show ?thesis
      using create_raw_reserve [of key n p now old c] len room Reserve
      by (simp del: factory_create.simps factory_val.simps)
  next
    case (Action key n old c s a)
    have "length (factory_val f) = n" using assms(1) by (simp add: Action split: option.split)
    then show ?thesis
      using create_raw_action [of key n p a now old c s] len room Action assms(1)
      by (simp del: factory_create.simps factory_val.simps)
  next
    case (Clone src)
    then show ?thesis using assms create_raw_clone [of src p] by simp
  qed (use len room in \<open>simp_all add: create_raw_full TOMBSTONE_def\<close>)
qed

lemma factory_create_block_size:
  assumes "factory_wf f" "factory_bytes f \<le> block_size p"
  shows "block_size (factory_create now f p) = block_size p"
proof -
  have room: "length (factory_getKey f) + 1 + length (factory_val f) + 1 \<le> length (p_buffer p)"
    using assms(2) factory_bytes_eq [OF assms(1)]
    by (simp add: block_size_def bytes_of_def sizeof_Pair_def offset_buffer_def)
  have len: "length (factory_getKey f) \<le> MAX_KEY_SIZE" "length (factory_val f) \<le> MAX_VAL_SIZE"
    using assms(1) by (simp_all add: factory_wf_key_le factory_val_le)
  show ?thesis
  proof (cases f)
    case (Reserve key n old c)
    have "length (factory_val f) = n" by (simp add: Reserve split: option.split)
    then show ?thesis
      using create_raw_reserve [of key n p now old c] len room Reserve
      by (simp add: block_size_def del: factory_create.simps factory_val.simps)
  next
    case (Action key n old c s a)
    have "length (factory_val f) = n" using assms(1) by (simp add: Action split: option.split)
    then show ?thesis
      using create_raw_action [of key n p a now old c s] len room Action assms(1)
      by (simp add: block_size_def del: factory_create.simps factory_val.simps)
  next
    case (Clone src)
    then show ?thesis using assms
      by (simp add: block_size_def pair_wf_iff cloneInRawMemory_def)
  qed (use len room in \<open>simp_all add: create_raw_full TOMBSTONE_def block_size_def\<close>)
qed

text \<open>
  A pair created in a block of exactly \<open>bytes()\<close> bytes does not depend on what the block held.
\<close>

lemma Pair_eqI:
  fixes p q :: Pair
  shows "p_created p = p_created q \<Longrightarrow> p_expires p = p_expires q \<Longrightarrow> p_vallen p = p_vallen q \<Longrightarrow>
   p_keylen p = p_keylen q \<Longrightarrow> p_buffer p = p_buffer q \<Longrightarrow> p = q"
  by (cases p, cases q) simp

lemma create0_fields:
  "make_key fl \<Longrightarrow> p_keylen (createInRawMemory0 fl p key val n e c) = htobe16 (of_nat (length key) AND MAX_KEY_MASK)"
  "make_val fl \<Longrightarrow> p_vallen (createInRawMemory0 fl p key val n e c) = htobe32 (of_nat n AND MAX_VAL_MASK)"
  "p_created (createInRawMemory0 fl p key val n e c) = htobe64 c"
  by (simp_all add: createInRawMemory0_def Let_def)

lemma copyPair_fields [simp]:
  "p_keylen (copyPair n old c p) = p_keylen p" "p_vallen (copyPair n old c p) = p_vallen p"
  "p_created (copyPair n old c p) = p_created p" "p_expires (copyPair n old c p) = p_expires p"
  by (simp_all add: copyPair_def Let_def)

lemma factory_create_fresh:
  assumes "factory_wf f" "block_size p = factory_bytes f" "block_size q = factory_bytes f"
  shows "factory_create now f p = factory_create now f q"
proof -
  have len: "length (factory_getKey f) \<le> MAX_KEY_SIZE" "length (factory_val f) \<le> MAX_VAL_SIZE"
    using assms(1) by (simp_all add: factory_wf_key_le factory_val_le)
  have room: "length (factory_getKey f) + 1 + length (factory_val f) + 1 = length (p_buffer p)"
    "length (p_buffer p) = length (p_buffer q)"
    using assms(2,3) factory_bytes_eq [OF assms(1)]
    by (simp_all add: block_size_def bytes_of_def sizeof_Pair_def offset_buffer_def)
  note defs = createInRawMemoryFull_def createInRawMemory_def create0_fields raw_full_def
  show ?thesis
  proof (cases f)
    case (Reserve key n old c)
    have v: "length (factory_val f) = n" by (simp add: Reserve split: option.split)
    have "p_buffer (factory_create now f p) = p_buffer (factory_create now f q)"
      using create_raw_reserve [of key n p now old c] create_raw_reserve [of key n q now old c]
        len room v Reserve by (simp del: factory_create.simps factory_val.simps)
    then show ?thesis
      by (intro Pair_eqI) (simp_all add: Reserve createInRawMemory_def create0_fields raw_key_make_val_def)
  next
    case (Action key n old c s a)
    have v: "length (factory_val f) = n" using assms(1) by (simp add: Action split: option.split)
    have "p_buffer (factory_create now f p) = p_buffer (factory_create now f q)"
      using create_raw_action [of key n p a now old c s] create_raw_action [of key n q a now old c s]
        len room v Action assms(1) by (simp del: factory_create.simps factory_val.simps)
    then show ?thesis
      by (intro Pair_eqI) (simp_all add: Action createInRawMemory_def create0_fields raw_key_make_val_def)
  next
    case (Clone src)
    have "length (p_buffer p) = bytes src - offset_buffer" "length (p_buffer q) = bytes src - offset_buffer"
      using assms(2,3) Clone by (simp_all add: block_size_def)
    moreover have "bytes src - offset_buffer \<le> length (p_buffer src)"
      using Clone assms(1) by (auto simp: pair_wf_iff block_size_def)
    ultimately show ?thesis using Clone by (simp add: cloneInRawMemory_def write_at_def)
  next
    case (Tombstone key c)
    have "p_buffer (factory_create now f p) = p_buffer (factory_create now f q)"
      using len room Tombstone by (simp add: create_raw_full TOMBSTONE_def)
    then show ?thesis by (intro Pair_eqI) (simp_all add: Tombstone defs)
  next
    case (Normal key val e c)
    have "p_buffer (factory_create now f p) = p_buffer (factory_create now f q)"
      using len room Normal by (simp add: create_raw_full)
    then show ?thesis by (intro Pair_eqI) (simp_all add: Normal defs)
  next
    case (Expires key val e c)
    have "p_buffer (factory_create now f p) = p_buffer (factory_create now f q)"
      using len room Expires by (simp add: create_raw_full)
    then show ?thesis by (intro Pair_eqI) (simp_all add: Expires defs)
  qed
qed

section \<open>createHint\<close>

text \<open>
  Writing in place over a pair with the same key and at least the same size keeps the key and
  stays inside the block.
\<close>

lemma createHint_raw_val:
  fixes now :: u64 and p :: Pair and key val :: str and e c :: u32
  assumes "pair_wf p" "getKeyLen p = length key" "length val \<le> getValLen p"
  defines "q \<equiv> createInRawMemoryFullVal now p key val e c"
  shows "getKey q = getKey p \<and> getVal q = val \<and> pair_wf q \<and> block_size q = block_size p"
proof -
  have room: "length key + 1 + length val + 1 \<le> length (p_buffer p)"
    using assms(1-3) by (simp add: pair_wf_def)
  have buf: "p_buffer q = take (length key + 1) (p_buffer p) @ val @ [0] @
      drop (length key + length val + 2) (p_buffer p)"
    using create0_buffer_val [of raw_full_val key val p] room
    by (simp add: q_def createInRawMemoryFullVal_def createInRawMemory_def raw_full_val_def)
  have "length val \<le> MAX_VAL_SIZE" using assms(3) getValLen_le [of p] by simp
  then have len: "getKeyLen q = length key" "getValLen q = length val"
    using assms(2) getKeyLen_le [of p]
    by (simp_all add: q_def createInRawMemoryFullVal_def createInRawMemory_def create0_keylen
        create0_vallen raw_full_val_def)
  show ?thesis
    using buf len room assms(2)
    by (auto simp: getKey_def getVal_def pair_wf_def block_size_def min_def)
qed

lemma createHint_raw_none:
  "getKey (createInRawMemoryNone now p key n e c) = getKey p \<and>
   getVal (createInRawMemoryNone now p key n e c) = getVal p \<and>
   bytes (createInRawMemoryNone now p key n e c) = bytes p \<and>
   pair_wf (createInRawMemoryNone now p key n e c) = pair_wf p \<and>
   block_size (createInRawMemoryNone now p key n e c) = block_size p"
  by (simp add: createInRawMemoryNone_def createInRawMemory_def raw_none_def
      createInRawMemory0_def Let_def getKey_def getVal_def pair_wf_def block_size_def bytes_def
      getKeyLen_def getValLen_def)

lemma createHint_raw_reserve:
  fixes now :: u64 and p :: Pair and key :: str and n :: nat and old :: "Pair option" and c :: byte
  assumes "pair_wf p" "getKeyLen p = length key" "n \<le> getValLen p"
  defines "q \<equiv> copyPair n old c (createInRawMemory now raw_make_val p key [] n 0 0)"
  shows "getKey q = getKey p \<and> getVal q = factory_val (Reserve key n old c) \<and> pair_wf q \<and>
    block_size q = block_size p"
proof -
  let ?v = "factory_val (Reserve key n old c)"
  let ?r = "createInRawMemory0 raw_make_val p key [] n 0 (prepareCreateTime now 0)"
  have lv: "length ?v = n" by (simp split: option.split)
  have n: "n \<le> MAX_VAL_SIZE" using assms(3) getValLen_le [of p] by simp
  then have r: "getKeyLen ?r = length key" "getValLen ?r = n"
    using assms(2) getKeyLen_le [of p]
    by (simp_all add: create0_keylen create0_vallen raw_make_val_def)
  have rb: "p_buffer ?r = write_at (length key + 1 + n) [0] (p_buffer p)"
    by (simp add: createInRawMemory0_def Let_def raw_make_val_def)
  have q: "q = ?r\<lparr>p_buffer := write_at (length key + 1) ?v (p_buffer ?r)\<rparr>"
    unfolding q_def
    by (simp add: createInRawMemory_def copyPair_buffer [of _ _ _ _ key] r del: factory_val.simps)
  have buf: "p_buffer q = take (length key + 1) (p_buffer p) @ ?v @ [0] @
      drop (length key + n + 2) (p_buffer p)"
    using assms(1-3) lv by (simp add: q rb write_at_inside pair_wf_def add.commute del: factory_val.simps)
  show ?thesis
    using buf r lv assms(1-3)
    by (auto simp: q getKey_def getVal_def pair_wf_def block_size_def min_def simp del: factory_val.simps)
qed

text \<open>The pair that an \<open>Action\<close> works on when it writes in place.\<close>

definition action_base :: "u64 \<Rightarrow> str \<Rightarrow> nat \<Rightarrow> Pair option \<Rightarrow> byte \<Rightarrow> bool \<Rightarrow> Pair \<Rightarrow> Pair" where
  "action_base now key n old c s p =
     (if s \<and> isOK now p \<and> getValLen p = n then createInRawMemoryNone now p key n 0 0
      else copyPair n old c (createInRawMemory now raw_make_val p key [] n 0 0))"

lemma createHint_action_base:
  "factory_createHint now (Action key n old c s a) p = factory_action a (action_base now key n old c s p)"
  by (simp add: action_base_def)

lemma action_base_spec:
  assumes "pair_wf p" "getKeyLen p = length key" "n \<le> getValLen p"
  shows "getKey (action_base now key n old c s p) = getKey p \<and> pair_wf (action_base now key n old c s p) \<and>
    block_size (action_base now key n old c s p) = block_size p \<and> getValLen (action_base now key n old c s p) = n \<and>
    getVal (action_base now key n old c s p) =
      (if s \<and> isOK now p \<and> getValLen p = n then getVal p else factory_val (Reserve key n old c))"
proof (cases "s \<and> isOK now p \<and> getValLen p = n")
  case True
  then show ?thesis using createHint_raw_none [of now p key n 0 0] assms(1)
    by (auto simp: action_base_def createInRawMemoryNone_def createInRawMemory_def raw_none_def
        createInRawMemory0_def Let_def getValLen_def)
next
  case False
  note r = createHint_raw_reserve [OF assms, where now = now and old = old and c = c]
  from False have "pair_wf (action_base now key n old c s p)" using r by (simp only: action_base_def if_False)
  then have "getValLen (action_base now key n old c s p) = length (factory_val (Reserve key n old c))"
    using r False by (metis action_base_def length_getVal)
  then show ?thesis using r False by (simp only: action_base_def if_False) (simp split: option.split)
qed

lemma bytes_le_iff:
  "getKeyLen p = length key \<Longrightarrow> bytes_of (length key) n \<le> bytes p \<longleftrightarrow> n \<le> getValLen p"
  by (simp add: bytes_def bytes_of_def)

lemma factory_createHint_spec:
  assumes "factory_wf f" "pair_wf p" "getKey p = factory_getKey f" "factory_bytes f \<le> bytes p"
  shows "getKey (factory_createHint now f p) = getKey p \<and> pair_wf (factory_createHint now f p) \<and>
    block_size (factory_createHint now f p) = block_size p"
proof (cases f)
  case (Normal key val e c)
  then have "getKeyLen p = length key" using assms(2,3) by (simp flip: length_getKey)
  then show ?thesis using createHint_raw_val [OF assms(2)] assms(4) Normal
    by (simp add: bytes_le_iff)
next
  case (Reserve key n old c)
  then have "getKeyLen p = length key" using assms(2,3) by (simp flip: length_getKey)
  then show ?thesis using createHint_raw_reserve [OF assms(2)] assms(2,4) Reserve
    by (simp add: bytes_le_iff createHint_raw_none)
next
  case (Action key n old c s a)
  then have k: "getKeyLen p = length key" using assms(2,3) by (simp flip: length_getKey)
  then have n: "n \<le> getValLen p" using assms(4) Action by (simp add: bytes_le_iff)
  note b = action_base_spec [OF assms(2) k n, of now old c s]
  then have "length (a (getVal (action_base now key n old c s p))) = getValLen (action_base now key n old c s p)"
    using assms(1) Action length_getVal [of "action_base now key n old c s p"] by simp
  then show ?thesis using factory_action_spec b Action
    by (simp add: createHint_action_base del: factory_createHint.simps)
next
  case (Clone src)
  have "bytes src \<le> block_size p" using assms(2,4) Clone by (simp add: pair_wf_iff)
  then show ?thesis
    using Clone assms create_raw_clone [of src p] factory_create_block_size [of f p now] by simp
qed (use assms(2) in \<open>simp_all add: createHint_raw_none\<close>)

text \<open>
  What the in place update stores.  \<open>Normal\<close> and \<open>Clone\<close> give the same value as a fresh
  pair; \<open>Expires\<close> and \<open>Tombstone\<close> leave the old value and only rewrite the header.
\<close>

lemma factory_createHint_header:
  assumes "factory_wf f" "pair_wf p" "factory_bytes f \<le> bytes p"
  shows "getCreated (factory_createHint now f p) = factory_created now f"
proof (cases f)
  case (Clone src)
  then show ?thesis by (simp add: cloneInRawMemory_def getCreated_def)
qed (simp_all add: createInRawMemoryFullVal_def createInRawMemoryNone_def createInRawMemory_def)

definition factory_full :: "PairFactory \<Rightarrow> bool" where
  "factory_full f \<longleftrightarrow> (case f of Normal _ _ _ _ \<Rightarrow> True | Clone _ \<Rightarrow> True | _ \<Rightarrow> False)"

lemma factory_createHint_val:
  assumes "factory_wf f" "pair_wf p" "getKey p = factory_getKey f" "factory_bytes f \<le> bytes p"
    and "factory_full f"
  shows "getVal (factory_createHint now f p) = factory_val f"
    "getExpires (factory_createHint now f p) = factory_expires f"
proof -
  have "getVal (factory_createHint now f p) = factory_val f \<and>
    getExpires (factory_createHint now f p) = factory_expires f"
  proof (cases f)
    case (Normal key val e c)
    then have "getKeyLen p = length key" using assms(2,3) by (simp flip: length_getKey)
    then show ?thesis using createHint_raw_val [OF assms(2)] assms(4) Normal
      by (simp add: bytes_le_iff) (simp add: createInRawMemoryFullVal_def createInRawMemory_def)
  next
    case (Clone src)
    then have "bytes src \<le> block_size p" using assms(2,4) by (simp add: pair_wf_iff)
    then show ?thesis using Clone assms create_raw_clone [of src p] by simp
  qed (use assms(5) in \<open>simp_all add: factory_full_def\<close>)
  then show "getVal (factory_createHint now f p) = factory_val f"
    "getExpires (factory_createHint now f p) = factory_expires f" by blast+
qed

section \<open>Tombstones\<close>

lemma htobe32_TOMBSTONE [simp]: "htobe32 EXPIRES_TOMBSTONE = EXPIRES_TOMBSTONE"
  by (simp add: endian_defs byteswap32_def EXPIRES_TOMBSTONE_def)

lemma isTombstone_iff: "isTombstone p \<longleftrightarrow> getExpires p = EXPIRES_TOMBSTONE \<or> getValLen p = 0"
proof -
  have "p_expires p = EXPIRES_TOMBSTONE \<longleftrightarrow> getExpires p = EXPIRES_TOMBSTONE"
    by (metis getExpires_def htobe32_TOMBSTONE htobe_betoh(2) betoh_htobe(2))
  then show ?thesis by (simp add: isTombstone_def vallen_mask_eq_0_iff)
qed

lemma isExpiresSet_iff: "isExpiresSet p \<longleftrightarrow> getExpires p \<noteq> 0"
  by (metis isExpiresSet_def getExpires_def htobe_betoh(2) htobe_eq_0_iff(2))

lemma not_isOK_tombstone: "isTombstone p \<Longrightarrow> \<not> isOK now p"
  by (simp add: isOK_def)

lemma create_tombstone:
  assumes "isKeyValid key" "bytes_of (length key) 0 \<le> block_size p"
  shows "isTombstone (factory_create now (Tombstone key c) p)"
  using factory_create_spec [of "Tombstone key c" p now] assms
  by (simp add: isTombstone_iff TOMBSTONE_def del: factory_create.simps)

lemma createHint_tombstone: "isTombstone (factory_createHint now (Tombstone key c) p)"
  by (simp add: isTombstone_iff createInRawMemoryNone_def createInRawMemory_def)

definition factory_tomb :: "PairFactory \<Rightarrow> bool" where
  "factory_tomb f \<longleftrightarrow> (case f of Tombstone _ _ \<Rightarrow> True | _ \<Rightarrow> False)"

lemma createHint_factory_tomb: "factory_tomb f \<Longrightarrow> isTombstone (factory_createHint now f p)"
  by (cases f) (simp_all add: factory_tomb_def createHint_tombstone del: factory_createHint.simps)

section \<open>Properties\<close>

text \<open>
  C21: What a factory writes can be read back: a valid factory that creates a pair in any block of at
  least \<open>bytes()\<close> bytes gives a well formed pair of exactly that size with the factory's key,
  value, expiration and creation time, and the contents of the block beforehand do not matter.
\<close>

theorem factory_create_roundtrip:
  assumes "factory_wf f" "factory_bytes f \<le> block_size p"
  shows "getKey (factory_create now f p) = factory_getKey f \<and>
    getVal (factory_create now f p) = factory_val f \<and>
    getCreated (factory_create now f p) = factory_created now f \<and>
    getExpires (factory_create now f p) = factory_expires f \<and>
    pair_wf (factory_create now f p) \<and> bytes (factory_create now f p) = factory_bytes f \<and>
    block_size (factory_create now f p) = block_size p \<and>
    (block_size p = factory_bytes f \<longrightarrow>
       factory_create now f p = factory_create now f (raw_memory (factory_bytes f)))"
proof -
  note spec = factory_create_spec [OF assms, of now]
  have "bytes (factory_create now f p) = factory_bytes f"
    using spec factory_bytes_eq [OF assms(1)] by (simp add: bytes_def)
  moreover have "factory_create now f p = factory_create now f (raw_memory (factory_bytes f))"
    if "block_size p = factory_bytes f"
    using factory_create_fresh [OF assms(1) that, of "raw_memory (factory_bytes f)"] factory_bytes_eq [OF assms(1)]
    by (simp add: block_size_def bytes_of_def sizeof_Pair_def offset_buffer_def)
  ultimately show ?thesis using spec factory_create_block_size [OF assms] by blast
qed

theorem factory_create_roundtrip_witness:
  "getVal (factory_create 5 (Normal [97] [1, 2] 60 9) (raw_memory 23)) = [1, 2] \<and>
   getCreated (factory_create 5 (Normal [97] [1, 2] 60 9) (raw_memory 23)) = to64 9"
  using factory_create_roundtrip [of "Normal [97] [1, 2] 60 9" "raw_memory 23" 5]
  by (simp add: eval_simps block_size_def offset_buffer_def prepareCreateTime_def)

text \<open>
  An update in place (\<open>createHint\<close>) of a pair that is at least as large as the factory needs
  stays inside the block: the key and the block size are kept, the pair stays well formed, the
  creation time is the factory's; a factory that carries a value (all but \<open>Expires\<close> and
  \<open>Tombstone\<close>, and \<open>Reserve\<close> only when it clears) leaves its value and expiration.
\<close>

lemma factory_createHint_in_place:
  assumes "factory_wf f" "pair_wf p" "getKey p = factory_getKey f" "factory_bytes f \<le> bytes p"
  shows "getKey (factory_createHint now f p) = factory_getKey f \<and>
    pair_wf (factory_createHint now f p) \<and>
    block_size (factory_createHint now f p) = block_size p \<and>
    getCreated (factory_createHint now f p) = factory_created now f \<and>
    (factory_full f \<longrightarrow> getVal (factory_createHint now f p) = factory_val f \<and>
       getExpires (factory_createHint now f p) = factory_expires f)"
  using factory_createHint_spec [OF assms] factory_createHint_header [OF assms(1,2,4)]
    factory_createHint_val [OF assms] assms(3) by simp

text \<open>
  A deleted key is never live: the pair a \<open>Tombstone\<close> factory creates, and any pair it
  overwrites in place, is a tombstone, and a tombstone is not \<open>isOK\<close> at any time.
\<close>

lemma tombstone_never_ok:
  assumes "isKeyValid key" "bytes_of (length key) 0 \<le> block_size p"
  shows "\<not> isOK now' (factory_create now (Tombstone key c) p) \<and>
    \<not> isOK now' (factory_createHint now (Tombstone key c) q)"
  using create_tombstone [OF assms] createHint_tombstone not_isOK_tombstone by blast


end
