(* ===== verification/HPair.thy ===== *)
theory HPair
  imports PairFactory
begin

text \<open>
  \<^verbatim>\<open>hm4/hpair.h\<close>: comparison of a stored pair with a key through the packed first eight
  bytes.  Besides the code this theory fixes the two orders on keys that the lists use:
  \<open>ckey\<close> is the order of \<open>Pair::cmp\<close> and \<open>hkey_ord\<close> that of \<open>HPair::cmp\<close>.  They agree
  with each other and with the lexicographic order on plain (seven bit, zero free) keys.
\<close>

section \<open>The code\<close>

definition HPair_cmp :: "u64 \<Rightarrow> Pair \<Rightarrow> u64 \<Rightarrow> str \<Rightarrow> int" where
  "HPair_cmp src_hkey src_pair hkey key =
     (let (ok, result) = SS_compare src_hkey hkey in
      if ok then result else cmpX SS_N src_pair key)"

text \<open>The bytes of the integer in memory; with \<open>B\<close> up to the first zero (\<open>strnlen\<close>).\<close>

definition hkey_bytes :: "u64 \<Rightarrow> str" where
  "hkey_bytes hkey = map (\<lambda>i. ucast (drop_bit (8 * i) hkey)) [0..<8]"

definition HPair_toStringView :: "u64 \<Rightarrow> bool \<Rightarrow> str" where
  "HPair_toStringView hkey B =
     (if B then takeWhile (\<lambda>c. c \<noteq> 0) (hkey_bytes hkey) else hkey_bytes hkey)"

section \<open>The order of Pair::cmp\<close>

fun ckey :: "str \<Rightarrow> int list" where
  "ckey [] = []"
| "ckey (c # cs) = sint c # map uint cs"

lemma sgn3_map_uint: "sgn3 (map uint a) (map uint (b :: str)) = sgn3 a b"
proof (induction a arbitrary: b)
  case (Cons x a)
  have "sgn3 (uint x) (uint y) = sgn3 x y" for y by (simp add: sgn3_def word_less_def)
  then show ?case using Cons.IH
    by (cases b) (simp_all add: sgn3_Cons_Cons word_uint_eq_iff)
next
  case Nil then show ?case by (cases b) simp_all
qed

lemma map_uint_less_iff: "map uint a < map uint (b :: str) \<longleftrightarrow> a < b"
  by (metis sgn3_map_uint sgn3_less_0)

lemma compare_ckey: "compare a b = sgn3 (ckey a) (ckey b)"
proof (cases "a = [] \<or> b = [] \<or> a ! 0 = b ! 0")
  case True
  then have "compare a b = sgn3 a b" by (rule compare_same_first)
  also have "\<dots> = sgn3 (ckey a) (ckey b)" using True
    by (cases a; cases b) (auto simp: sgn3_Cons_Cons sgn3_map_uint)
  finally show ?thesis .
next
  case False
  then show ?thesis
    by (cases a; cases b) (auto simp: compare_def Let_def sgn3_Cons_Cons sint_inject)
qed

lemma ckey_inject [simp]: "ckey a = ckey b \<longleftrightarrow> a = b"
  using compare_eq_0_iff [of a b] by (simp only: compare_ckey sgn3_eq_0)

lemma ckey_ascii: "ascii_first a \<Longrightarrow> ascii_first b \<Longrightarrow> ckey a < ckey b \<longleftrightarrow> a < b"
  by (metis compare_ckey compare_ascii sgn3_less_0)

lemma cmp_ckey: "key \<noteq> [] \<Longrightarrow> cmp p key = sgn3 (ckey (getKey p)) (ckey key)"
  by (simp add: cmp_def cmpX_def compare_ckey)

section \<open>The order of HPair::cmp\<close>

definition hkey_ord :: "str \<Rightarrow> int list" where
  "hkey_ord a = map uint (take 8 a) @ ckey (drop 8 a)"

lemma sgn3_append_lists:
  "length a = length b \<Longrightarrow> sgn3 (a @ c) (b @ d) = (if a = b then sgn3 c d else sgn3 a b)"
  by (induction a b rule: list_induct2) (auto simp: sgn3_Cons_Cons)

lemma sgn3_short_append:
  "a \<noteq> b \<Longrightarrow> length a \<le> n \<Longrightarrow> length b \<le> n \<Longrightarrow> (length a < n \<Longrightarrow> c = []) \<Longrightarrow>
   (length b < n \<Longrightarrow> d = []) \<Longrightarrow> sgn3 (a @ c) (b @ d) = sgn3 a b"
proof (induction n arbitrary: a b)
  case (Suc n)
  show ?case
  proof (cases a)
    case Nil
    then show ?thesis using Suc.prems by (cases b) simp_all
  next
    case a: (Cons x xs)
    show ?thesis
    proof (cases b)
      case Nil
      then show ?thesis using Suc.prems a by simp
    next
      case (Cons y ys)
      then show ?thesis using Suc.prems a Suc.IH [of xs ys] by (auto simp: sgn3_Cons_Cons)
    qed
  qed
qed simp

lemma sgn3_hkey_ord:
  "sgn3 (hkey_ord a) (hkey_ord b) =
     (if take 8 a = take 8 b then sgn3 (ckey (drop 8 a)) (ckey (drop 8 b)) else sgn3 a b)"
proof (cases "take 8 a = take 8 b")
  case True
  then show ?thesis by (simp add: hkey_ord_def sgn3_append_lists)
next
  case False
  then have "map uint (take 8 a) \<noteq> map uint (take 8 b)"
    by (metis sgn3_map_uint sgn3_eq_0)
  then have "sgn3 (hkey_ord a) (hkey_ord b) = sgn3 (map uint (take 8 a)) (map uint (take 8 b))"
    unfolding hkey_ord_def by (rule sgn3_short_append [where n = 8]) simp_all
  also have "\<dots> = sgn3 (take 8 a) (take 8 b)" by (rule sgn3_map_uint)
  also have "\<dots> = sgn3 a b" using False by (rule sgn3_take_neq [symmetric])
  finally show ?thesis using False by simp
qed

lemma hkey_ord_inject [simp]: "hkey_ord a = hkey_ord b \<longleftrightarrow> a = b"
proof
  assume "hkey_ord a = hkey_ord b"
  then have "sgn3 (hkey_ord a) (hkey_ord b) = 0" by simp
  then show "a = b" unfolding sgn3_hkey_ord
    by (metis append_take_drop_id ckey_inject sgn3_eq_0)
qed simp

text \<open>The packed comparison decides \<open>hkey_ord\<close> for keys with no zero in the first eight bytes.\<close>

lemma HPair_cmp_hkey_ord:
  assumes "nul_free (getKey p)" "nul_free key"
  shows "HPair_cmp (SS_create (getKey p)) p (SS_create key) key =
    sgn3 (hkey_ord (getKey p)) (hkey_ord key)"
proof (cases "take 8 (getKey p) = take 8 key")
  case False
  then show ?thesis
    using assms by (simp add: HPair_cmp_def SS_compare_differ sgn3_hkey_ord)
next
  case eq: True
  show ?thesis
  proof (cases "length (getKey p) < 8")
    case True
    then show ?thesis
      using SS_compare_short [OF assms(1) eq True] by (auto simp: HPair_cmp_def)
  next
    case False
    then show ?thesis
      using SS_compare_long [OF assms(1) eq] eq
      by (simp add: HPair_cmp_def cmpX_def SS_N_def compare_ckey sgn3_hkey_ord)
  qed
qed

section \<open>Plain keys\<close>

definition plain_key :: "str \<Rightarrow> bool" where
  "plain_key k \<longleftrightarrow> (\<forall>c \<in> set k. 0 < unat c \<and> unat c < 128)"

lemma plain_key_nul_free: "plain_key k \<Longrightarrow> nul_free k"
  by (auto simp: plain_key_def nul_free_def dest!: in_set_takeD)

lemma plain_key_ascii: "plain_key k \<Longrightarrow> ascii_first k"
  by (auto simp: plain_key_def ascii_first_def split: list.split)

lemma plain_key_drop: "plain_key k \<Longrightarrow> plain_key (drop n k)"
  by (auto simp: plain_key_def dest!: in_set_dropD)

text \<open>Only the ninth character is compared as a signed one.\<close>

lemma hkey_ord_ascii:
  assumes "ascii_first (drop 8 a)" "ascii_first (drop 8 b)"
  shows "hkey_ord a < hkey_ord b \<longleftrightarrow> a < b"
proof -
  have "sgn3 (hkey_ord a) (hkey_ord b) = sgn3 a b"
  proof (cases "take 8 a = take 8 b")
    case True
    have "sgn3 (ckey (drop 8 a)) (ckey (drop 8 b)) = sgn3 (drop 8 a) (drop 8 b)"
      using assms by (simp add: compare_ascii flip: compare_ckey)
    then show ?thesis using True sgn3_take_eq [of 8 a b] by (simp add: sgn3_hkey_ord)
  qed (simp add: sgn3_hkey_ord)
  then show ?thesis by (metis sgn3_less_0)
qed

lemma hkey_ord_plain: "plain_key a \<Longrightarrow> plain_key b \<Longrightarrow> hkey_ord a < hkey_ord b \<longleftrightarrow> a < b"
  by (simp add: hkey_ord_ascii plain_key_drop plain_key_ascii)

lemma ckey_plain: "plain_key a \<Longrightarrow> plain_key b \<Longrightarrow> ckey a < ckey b \<longleftrightarrow> a < b"
  by (simp add: ckey_ascii plain_key_ascii)

section \<open>Properties\<close>

text \<open>
  C23: On keys of printable characters (bytes 1 to 127) the two comparisons of the store agree with
  the byte order: \<open>HPair::cmp\<close> on packed keys, used by the linked lists and the disk index, and
  \<open>Pair::cmp\<close>, used by the vector list and the merging iterators.
\<close>

theorem key_comparisons_agree:
  assumes "plain_key (getKey p)" "plain_key key" "key \<noteq> []"
  shows "HPair_cmp (SS_create (getKey p)) p (SS_create key) key = sgn3 (getKey p) key \<and>
    cmp p key = sgn3 (getKey p) key"
proof -
  have "sgn3 (hkey_ord (getKey p)) (hkey_ord key) = sgn3 (getKey p) key"
    by (rule sgn3_mono_iff) (use hkey_ord_plain assms in blast)+
  then have "HPair_cmp (SS_create (getKey p)) p (SS_create key) key = sgn3 (getKey p) key"
    using HPair_cmp_hkey_ord [of p key] assms plain_key_nul_free by simp
  moreover have "sgn3 (ckey (getKey p)) (ckey key) = sgn3 (getKey p) key"
    by (rule sgn3_mono_iff) (use ckey_plain assms in blast)+
  ultimately show ?thesis using cmp_ckey [OF assms(3)] by simp
qed

theorem key_comparisons_agree_witness:
  "cmp \<lparr>p_created = 0, p_expires = 0, p_vallen = 0, p_keylen = htobe16 1, p_buffer = [97, 0, 0]\<rparr> [98] = -1"
proof -
  let ?p = "\<lparr>p_created = 0, p_expires = 0, p_vallen = 0, p_keylen = htobe16 1, p_buffer = [97, 0, 0]\<rparr> :: Pair"
  have "getKey ?p = [97]" by (simp add: getKey_def getKeyLen_def MAX_KEY_MASK_def)
  then show ?thesis using key_comparisons_agree [of ?p "[98]"] by (simp add: plain_key_def sgn3_def)
qed

lemma sint_high: "128 \<le> unat (c :: byte) \<Longrightarrow> sint c < 0"
proof -
  assume c: "128 \<le> unat c"
  have "uint c < 256" using uint_bounded [of c] by simp
  moreover have "uint c = int (unat c)" by simp
  ultimately have "uint c div 128 = 1" using c by linarith
  then have "bit (uint c) 7" by (simp add: bit_iff_odd)
  then show "sint c < 0" by (simp add: sint_uint signed_take_bit_negative_iff)
qed

text \<open>
  The two comparisons disagree on keys whose first character is above 127: \<open>Pair::cmp\<close> puts
  such a key before every ASCII key, \<open>HPair::cmp\<close> after it.
\<close>

lemma key_comparisons_disagree:
  assumes "getKey p = [c]" "128 \<le> unat c" "0 < unat d" "unat d < 128"
  shows "cmp p [d] < 0 \<and> HPair_cmp (SS_create (getKey p)) p (SS_create [d]) [d] > 0"
proof -
  have n: "nul_free (getKey p)" "nul_free [d]" using assms by (auto simp: nul_free_def)
  have lt: "d < c" using assms by (simp add: word_less_nat_alt)
  then have "HPair_cmp (SS_create (getKey p)) p (SS_create [d]) [d] > 0"
    using HPair_cmp_hkey_ord [OF n] assms(1) by (simp add: hkey_ord_def word_less_def)
  moreover have "sint c < 0" using assms(2) by (rule sint_high)
  moreover have "0 \<le> sint d" using sint_ascii [OF assms(4)] by simp
  ultimately show ?thesis using cmp_ckey [of "[d]" p] assms(1) by simp
qed


end
