(* ===== verification/Allocator.thy ===== *)
theory Allocator
  imports Prelude
begin

text \<open>
  The allocators of \<^verbatim>\<open>myallocator/\<close> and \<^verbatim>\<open>include/myalign.h\<close>.  The lists take an
  allocator as a template parameter; here it is a record of operations over its state,
  the shape that \<open>PMAllocator\<close> has as a table of virtual functions.  Pointers are 64 bit
  words, a null pointer is \<open>None\<close>.  The heap behind \<open>malloc\<close> and \<open>operator new\<close> is a
  parameter.
\<close>

section \<open>myalign.h\<close>

definition align_calc :: "u64 \<Rightarrow> u64 \<Rightarrow> u64" where
  "align_calc n align = (n + align - 1) AND NOT (align - 1)"

text \<open>The number of zero bytes that \<open>fwriteGap\<close> puts after a record.\<close>

definition align_gap :: "u64 \<Rightarrow> u64 \<Rightarrow> u64" where
  "align_gap n align = align_calc n align - n"

section \<open>The operations of an allocator\<close>

record 's allocator_ops =
  xallocate :: "'s \<Rightarrow> u64 \<Rightarrow> u64 option \<times> 's"
  xdeallocate :: "'s \<Rightarrow> u64 \<Rightarrow> 's"
  owns :: "'s \<Rightarrow> u64 \<Rightarrow> bool"
  need_deallocate :: "'s \<Rightarrow> bool"
  knownMemoryUsage :: "'s \<Rightarrow> bool"
  reset :: "'s \<Rightarrow> bool \<times> 's"
  getFreeMemory :: "'s \<Rightarrow> u64"
  getUsedMemory :: "'s \<Rightarrow> u64"

section \<open>ArenaAllocator\<close>

record ArenaAllocator =
  arena_data :: u64
  arena_size :: u64
  arena_pos :: u64

definition arena_align :: "u64 \<Rightarrow> u64" where
  "arena_align n = (n + 8 - 1) AND NOT (8 - 1)"

definition arena_xallocate :: "ArenaAllocator \<Rightarrow> u64 \<Rightarrow> u64 option \<times> ArenaAllocator" where
  "arena_xallocate a sz =
     (let a = a\<lparr>arena_pos := arena_align (arena_pos a)\<rparr> in
      if arena_pos a + sz > arena_size a then (None, a)
      else (Some (arena_data a + arena_pos a), a\<lparr>arena_pos := arena_pos a + sz\<rparr>))"

definition arena_xallocateAll :: "ArenaAllocator \<Rightarrow> (u64 \<times> u64) \<times> ArenaAllocator" where
  "arena_xallocateAll a =
     (let a = a\<lparr>arena_pos := arena_align (arena_pos a)\<rparr>;
          sz = arena_size a - arena_pos a
      in ((arena_data a + arena_pos a, sz), a\<lparr>arena_pos := arena_pos a + sz\<rparr>))"

definition arena_owns :: "ArenaAllocator \<Rightarrow> u64 \<Rightarrow> bool" where
  "arena_owns a p \<longleftrightarrow> p \<noteq> 0 \<and> p \<ge> arena_data a \<and> p < arena_data a + arena_size a"

definition arena_reset :: "ArenaAllocator \<Rightarrow> bool \<times> ArenaAllocator" where
  "arena_reset a = (True, a\<lparr>arena_pos := 0\<rparr>)"

definition arena_getFreeMemory :: "ArenaAllocator \<Rightarrow> u64" where
  "arena_getFreeMemory a = arena_size a - arena_pos a"

definition arena_ops :: "ArenaAllocator allocator_ops" where
  "arena_ops = \<lparr>
     xallocate = arena_xallocate,
     xdeallocate = (\<lambda>a p. a),
     owns = arena_owns,
     need_deallocate = (\<lambda>a. False),
     knownMemoryUsage = (\<lambda>a. True),
     reset = arena_reset,
     getFreeMemory = arena_getFreeMemory,
     getUsedMemory = arena_pos\<rparr>"

section \<open>Allocators over the system heap\<close>

record 'h heap_ops =
  malloc :: "'h \<Rightarrow> u64 \<Rightarrow> u64 option \<times> 'h"
  free :: "'h \<Rightarrow> u64 \<Rightarrow> 'h"
  malloc_usable_size :: "'h \<Rightarrow> u64 option \<Rightarrow> u64"

text \<open>\<open>MallocAllocator\<close> and \<open>STDAllocator\<close> differ only in the functions they forward to.\<close>

definition malloc_ops :: "'h heap_ops \<Rightarrow> 'h allocator_ops" where
  "malloc_ops H = \<lparr>
     xallocate = malloc H,
     xdeallocate = free H,
     owns = (\<lambda>h p. False),
     need_deallocate = (\<lambda>h. True),
     knownMemoryUsage = (\<lambda>h. False),
     reset = (\<lambda>h. (False, h)),
     getFreeMemory = (\<lambda>h. 0xFFFFFFFFFFFFFFFF),
     getUsedMemory = (\<lambda>h. 0xFFFFFFFFFFFFFFFF)\<rparr>"

definition NULLAllocator_ops :: "'s allocator_ops" where
  "NULLAllocator_ops = \<lparr>
     xallocate = (\<lambda>s sz. (None, s)),
     xdeallocate = (\<lambda>s p. s),
     owns = (\<lambda>s p. False),
     need_deallocate = (\<lambda>s. False),
     knownMemoryUsage = (\<lambda>s. True),
     reset = (\<lambda>s. (True, s)),
     getFreeMemory = (\<lambda>s. 0),
     getUsedMemory = (\<lambda>s. 0)\<rparr>"

record 'h SimulatedArenaAllocator =
  sim_heap :: 'h
  sim_arena :: u64
  sim_allocated :: u64

definition sim_BUFFER :: u64 where "sim_BUFFER = 8 * 4"

definition sim_xallocate ::
  "'h heap_ops \<Rightarrow> 'h SimulatedArenaAllocator \<Rightarrow> u64 \<Rightarrow> u64 option \<times> 'h SimulatedArenaAllocator" where
  "sim_xallocate H a sz =
     (if sim_allocated a + sz + sim_BUFFER > sim_arena a then (None, a)
      else
        (let (p, h) = malloc H (sim_heap a) sz
         in (p, a\<lparr>sim_heap := h, sim_allocated := sim_allocated a + malloc_usable_size H h p\<rparr>)))"

definition sim_xdeallocate ::
  "'h heap_ops \<Rightarrow> 'h SimulatedArenaAllocator \<Rightarrow> u64 \<Rightarrow> 'h SimulatedArenaAllocator" where
  "sim_xdeallocate H a p =
     a\<lparr>sim_allocated := sim_allocated a - malloc_usable_size H (sim_heap a) (Some p),
       sim_heap := free H (sim_heap a) p\<rparr>"

definition SimulatedArenaAllocator_ops ::
  "'h heap_ops \<Rightarrow> 'h SimulatedArenaAllocator allocator_ops" where
  "SimulatedArenaAllocator_ops H = \<lparr>
     xallocate = sim_xallocate H,
     xdeallocate = sim_xdeallocate H,
     owns = (\<lambda>a p. False),
     need_deallocate = (\<lambda>a. True),
     knownMemoryUsage = (\<lambda>a. True),
     reset = (\<lambda>a. (False, a)),
     getFreeMemory = (\<lambda>a. sim_arena a - sim_allocated a),
     getUsedMemory = sim_allocated\<rparr>"

section \<open>SlabAllocator\<close>

text \<open>
  The free blocks form a list that is threaded through their first words: \<open>slab_mem\<close> is the
  word stored at an address of the buffer.  \<open>B\<close> is \<open>BlockSize\<close>.
\<close>

record SlabAllocator =
  slab_data :: u64
  slab_size :: u64
  slab_free :: "u64 option"
  slab_mem :: "u64 \<Rightarrow> u64 option"

definition slab_getNumBlocks :: "u64 \<Rightarrow> SlabAllocator \<Rightarrow> u64" where
  "slab_getNumBlocks B s = slab_size s div B"

text \<open>The loop \<open>for(i = getNumBlocks(); i --> 0; )\<close>.\<close>

fun slab_createFreeList_loop :: "u64 \<Rightarrow> nat \<Rightarrow> SlabAllocator \<Rightarrow> SlabAllocator" where
  "slab_createFreeList_loop B 0 s = s"
| "slab_createFreeList_loop B (Suc i) s =
     (let block = slab_data s + of_nat i * B
      in slab_createFreeList_loop B i
           (s\<lparr>slab_mem := (slab_mem s)(block := slab_free s), slab_free := Some block\<rparr>))"

definition slab_createFreeList :: "u64 \<Rightarrow> SlabAllocator \<Rightarrow> SlabAllocator" where
  "slab_createFreeList B s = slab_createFreeList_loop B (unat (slab_getNumBlocks B s)) s"

definition slab_reset :: "u64 \<Rightarrow> SlabAllocator \<Rightarrow> bool \<times> SlabAllocator" where
  "slab_reset B s = (True, slab_createFreeList B (s\<lparr>slab_free := None\<rparr>))"

definition slab_xallocate1 :: "SlabAllocator \<Rightarrow> u64 option \<times> SlabAllocator" where
  "slab_xallocate1 s =
     (case slab_free s of
        None \<Rightarrow> (None, s)
      | Some block \<Rightarrow> (Some block, s\<lparr>slab_free := slab_mem s block\<rparr>))"

definition slab_xallocate :: "u64 \<Rightarrow> SlabAllocator \<Rightarrow> u64 \<Rightarrow> u64 option \<times> SlabAllocator" where
  "slab_xallocate B s sz = (if sz > B then (None, s) else slab_xallocate1 s)"

definition slab_owns :: "SlabAllocator \<Rightarrow> u64 \<Rightarrow> bool" where
  "slab_owns s p \<longleftrightarrow> p \<ge> slab_data s \<and> p < slab_data s + slab_size s"

definition slab_xdeallocate :: "SlabAllocator \<Rightarrow> u64 \<Rightarrow> SlabAllocator" where
  "slab_xdeallocate s p =
     (if \<not> slab_owns s p then s
      else s\<lparr>slab_mem := (slab_mem s)(p := slab_free s), slab_free := Some p\<rparr>)"

text \<open>The walk of \<open>getFreeBlocks\<close>, with fuel: the number of blocks is enough.\<close>

fun slab_walk :: "(u64 \<Rightarrow> u64 option) \<Rightarrow> nat \<Rightarrow> u64 option \<Rightarrow> nat option" where
  "slab_walk mem fuel None = Some 0"
| "slab_walk mem 0 (Some b) = None"
| "slab_walk mem (Suc fuel) (Some b) = map_option Suc (slab_walk mem fuel (mem b))"

definition slab_getFreeBlocks :: "u64 \<Rightarrow> SlabAllocator \<Rightarrow> nat option" where
  "slab_getFreeBlocks B s = slab_walk (slab_mem s) (unat (slab_getNumBlocks B s)) (slab_free s)"

section \<open>Alignment\<close>

lemma and_not_mask_diff: "(x :: 'a::len word) AND NOT (mask k) = x - take_bit k x"
proof -
  have "x AND NOT (mask k) = push_bit k (drop_bit k x)"
    by (rule bit_word_eqI) (auto simp: bit_simps)
  also have "\<dots> = x - take_bit k x"
    using bits_ident [of k x] by (simp add: eq_diff_eq)
  finally show ?thesis .
qed

lemma unat_and_not_mask:
  fixes x :: "'a::len word"
  assumes "k \<le> LENGTH('a)"
  shows "unat (x AND NOT (mask k)) = 2 ^ k * (unat x div 2 ^ k)"
proof -
  have t: "unat (take_bit k x) = unat x mod 2 ^ k"
    using assms by (simp add: unsigned_take_bit_eq take_bit_nat_def)
  then have "take_bit k x \<le> x" by (simp add: word_le_nat_alt)
  then have "unat (x AND NOT (mask k)) = unat x - unat x mod 2 ^ k"
    by (simp add: and_not_mask_diff unat_sub t)
  then show ?thesis by (simp add: minus_mod_eq_mult_div)
qed

lemma unat_arena_align:
  assumes "unat n + 7 < 2 ^ 64"
  shows "unat (arena_align n) = 8 * ((unat n + 7) div 8)"
proof -
  have "arena_align n = (n + 7) AND NOT (mask 3)"
    by (simp add: arena_align_def mask_eq_exp_minus_1 add_diff_eq [symmetric])
  moreover have "unat (n + 7) = unat n + 7"
    using assms by (simp add: unat_add_lem [THEN iffD1])
  ultimately show ?thesis by (simp add: unat_and_not_mask)
qed

lemma arena_align_bounds:
  assumes "unat n + 7 < 2 ^ 64"
  shows "unat n \<le> unat (arena_align n)" "unat (arena_align n) < unat n + 8"
    "8 dvd unat (arena_align n)"
  unfolding unat_arena_align [OF assms] by simp_all

lemma arena_align_id: "8 dvd unat n \<Longrightarrow> unat n + 7 < 2 ^ 64 \<Longrightarrow> arena_align n = n"
  by (auto simp: word_unat_eq_iff unat_arena_align elim!: dvdE)

lemma align_calc_8: "align_calc n 8 = arena_align n"
  by (simp add: align_calc_def arena_align_def)

section \<open>The contract of an allocator\<close>

text \<open>
  \<open>avail\<close> is the memory that the allocator has not handed out.  A client that runs a
  sequence of requests gets blocks that are disjoint and lie in what was available.
\<close>

definition block :: "u64 \<Rightarrow> u64 \<Rightarrow> nat set" where
  "block p n = {unat p ..< unat p + unat n}"

fun run_alloc :: "('s \<Rightarrow> u64 \<Rightarrow> u64 option \<times> 's) \<Rightarrow> 's \<Rightarrow> u64 list \<Rightarrow> (u64 \<times> u64) list \<times> 's" where
  "run_alloc alloc s [] = ([], s)"
| "run_alloc alloc s (n # ns) =
     (case alloc s n of
        (None, s') \<Rightarrow> run_alloc alloc s' ns
      | (Some p, s') \<Rightarrow> (case run_alloc alloc s' ns of (bs, s'') \<Rightarrow> ((p, n) # bs, s'')))"

locale allocator =
  fixes alloc :: "'s \<Rightarrow> u64 \<Rightarrow> u64 option \<times> 's"
    and inv :: "'s \<Rightarrow> bool"
    and avail :: "'s \<Rightarrow> nat set"
    and request :: "u64 \<Rightarrow> bool"
  assumes alloc_inv: "inv s \<Longrightarrow> request n \<Longrightarrow> inv (snd (alloc s n))"
    and alloc_some: "inv s \<Longrightarrow> request n \<Longrightarrow> alloc s n = (Some p, s') \<Longrightarrow>
      block p n \<subseteq> avail s \<and> avail s' \<subseteq> avail s - block p n"
    and alloc_none: "inv s \<Longrightarrow> request n \<Longrightarrow> alloc s n = (None, s') \<Longrightarrow> avail s' \<subseteq> avail s"
begin

lemma run_alloc_inv:
  "inv s \<Longrightarrow> list_all request ns \<Longrightarrow> inv (snd (run_alloc alloc s ns))"
proof (induction ns arbitrary: s)
  case (Cons n ns)
  obtain r s' where a: "alloc s n = (r, s')" by fastforce
  then have "inv s'" using alloc_inv [of s n] Cons.prems by simp
  then show ?case using Cons.prems Cons.IH [of s'] a
    by (cases "run_alloc alloc s' ns") (simp split: option.split)
qed simp

lemma run_alloc_avail:
  "inv s \<Longrightarrow> list_all request ns \<Longrightarrow> (p, n) \<in> set (fst (run_alloc alloc s ns)) \<Longrightarrow>
     block p n \<subseteq> avail s"
proof (induction ns arbitrary: s)
  case (Cons m ns)
  obtain r s' where a: "alloc s m = (r, s')" by fastforce
  then have s': "inv s'" using alloc_inv [of s m] Cons.prems by simp
  show ?case
  proof (cases r)
    case None
    then show ?thesis using Cons a s' alloc_none [of s m s'] by auto
  next
    case (Some q)
    then have "block q m \<subseteq> avail s" "avail s' \<subseteq> avail s"
      using alloc_some [of s m q s'] Cons.prems a by auto
    then show ?thesis using Cons.prems Cons.IH [OF s'] a Some
      by (auto split: prod.splits)
  qed
qed simp

lemma run_alloc_disjoint:
  "inv s \<Longrightarrow> list_all request ns \<Longrightarrow>
     sorted_wrt (\<lambda>(p, n) (q, m). block p n \<inter> block q m = {}) (fst (run_alloc alloc s ns))"
proof (induction ns arbitrary: s)
  case (Cons m ns)
  obtain r s' where a: "alloc s m = (r, s')" by fastforce
  then have s': "inv s'" using alloc_inv [of s m] Cons.prems by simp
  show ?case
  proof (cases r)
    case None
    then show ?thesis using Cons a s' by simp
  next
    case (Some q)
    then have "avail s' \<inter> block q m = {}"
      using alloc_some [of s m q s'] Cons.prems a by auto
    then show ?thesis using Cons.prems Cons.IH [OF s'] a Some run_alloc_avail [OF s', of ns]
      by (fastforce split: prod.splits)
  qed
qed simp

end

section \<open>The arena keeps the contract\<close>

text \<open>
  The buffer lies below \<open>2 ^ 63\<close> and a request is below \<open>2 ^ 62\<close> (a pair has at most
  \<open>maxBytes\<close> bytes), so that \<open>pos + size\<close> does not wrap.
\<close>

definition arena_inv :: "ArenaAllocator \<Rightarrow> bool" where
  "arena_inv a \<longleftrightarrow> 0 < unat (arena_data a) \<and> unat (arena_data a) + unat (arena_size a) < 2 ^ 63 \<and>
     unat (arena_pos a) \<le> unat (arena_size a) + 7"

definition arena_request :: "u64 \<Rightarrow> bool" where
  "arena_request n \<longleftrightarrow> unat n < 2 ^ 62"

definition arena_avail :: "ArenaAllocator \<Rightarrow> nat set" where
  "arena_avail a = {unat (arena_data a) + unat (arena_pos a) ..< unat (arena_data a) + unat (arena_size a)}"

lemma unat_add_less: "unat a + unat b < 2 ^ 64 \<Longrightarrow> unat (a + b :: u64) = unat a + unat b"
  by (simp add: unat_add_lem [THEN iffD1])

lemma arena_xallocate_cases:
  assumes "arena_inv a" "arena_request n"
  obtains
    (full) "arena_xallocate a n = (None, a\<lparr>arena_pos := arena_align (arena_pos a)\<rparr>)"
      "unat (arena_align (arena_pos a)) + unat n > unat (arena_size a)"
  | (room) p where "arena_xallocate a n = (Some p, a\<lparr>arena_pos := arena_align (arena_pos a) + n\<rparr>)"
      "unat (arena_align (arena_pos a)) + unat n \<le> unat (arena_size a)"
      "p = arena_data a + arena_align (arena_pos a)"
      "unat p = unat (arena_data a) + unat (arena_align (arena_pos a))"
      "unat (arena_align (arena_pos a) + n) = unat (arena_align (arena_pos a)) + unat n"
proof -
  let ?q = "arena_align (arena_pos a)"
  have "unat (arena_pos a) + 7 < 2 ^ 64" using assms(1) by (simp add: arena_inv_def)
  then have q: "unat ?q \<le> unat (arena_pos a) + 7" using arena_align_bounds(2) by fastforce
  then have add: "unat (?q + n) = unat ?q + unat n"
    using assms by (intro unat_add_less) (simp add: arena_inv_def arena_request_def)
  show ?thesis
  proof (cases "?q + n > arena_size a")
    case True
    then show ?thesis using full add by (simp add: arena_xallocate_def word_less_nat_alt)
  next
    case False
    then have le: "unat ?q + unat n \<le> unat (arena_size a)"
      using add by (simp add: word_less_nat_alt)
    then have "unat (arena_data a + ?q) = unat (arena_data a) + unat ?q"
      using assms by (intro unat_add_less) (simp add: arena_inv_def)
    then show ?thesis using room False le add by (simp add: arena_xallocate_def)
  qed
qed

lemma arena_align_pos:
  assumes "arena_inv a"
  shows "unat (arena_pos a) \<le> unat (arena_align (arena_pos a))"
    "unat (arena_align (arena_pos a)) < unat (arena_pos a) + 8"
    "8 dvd unat (arena_align (arena_pos a))"
  using assms arena_align_bounds [of "arena_pos a"] by (simp_all add: arena_inv_def)

text \<open>
  With a buffer of a multiple of eight bytes, as the callers give it, the position never passes
  the end of the buffer.
\<close>

lemma arena_pos_le_size:
  assumes "arena_inv a" "8 dvd unat (arena_size a)" "arena_pos a \<le> arena_size a"
  shows "arena_align (arena_pos a) \<le> arena_size a"
proof -
  obtain k where k: "unat (arena_size a) = 8 * k" using assms(2) by (elim dvdE)
  obtain j where j: "unat (arena_align (arena_pos a)) = 8 * j"
    using arena_align_pos(3) [OF assms(1)] by (elim dvdE)
  have "unat (arena_pos a) \<le> 8 * k" using assms(3) k by (simp add: word_le_nat_alt)
  then have "8 * j < 8 * k + 8" using arena_align_pos(2) [OF assms(1)] j by linarith
  then show ?thesis using k j by (simp add: word_le_nat_alt)
qed

definition arena_inv8 :: "ArenaAllocator \<Rightarrow> bool" where
  "arena_inv8 a \<longleftrightarrow> arena_inv a \<and> 8 dvd unat (arena_size a) \<and> arena_pos a \<le> arena_size a"

lemma arena_xallocate_inv8:
  assumes "arena_inv8 a" "arena_request n"
  shows "arena_inv8 (snd (arena_xallocate a n))"
proof -
  have a: "arena_inv a" "arena_align (arena_pos a) \<le> arena_size a"
    using assms(1) arena_pos_le_size [of a] by (simp_all add: arena_inv8_def)
  from a(1) assms(2) show ?thesis
  proof (cases rule: arena_xallocate_cases)
    case full
    then show ?thesis using assms(1) a by (simp add: arena_inv8_def arena_inv_def word_le_nat_alt)
  next
    case (room p)
    then show ?thesis using assms(1) a by (simp add: arena_inv8_def arena_inv_def word_le_nat_alt)
  qed
qed

interpretation arena: allocator arena_xallocate arena_inv8 arena_avail arena_request
proof unfold_locales
  fix s n assume s: "arena_inv8 s" "arena_request n"
  then show "arena_inv8 (snd (arena_xallocate s n))" by (rule arena_xallocate_inv8)
  have i: "arena_inv s" using s(1) by (simp add: arena_inv8_def)
  {
    fix p s' assume r: "arena_xallocate s n = (Some p, s')"
    from i s(2) show "block p n \<subseteq> arena_avail s \<and> arena_avail s' \<subseteq> arena_avail s - block p n"
    proof (cases rule: arena_xallocate_cases)
      case (room p')
      then show ?thesis using r arena_align_pos(1) [OF i]
        by (auto simp: block_def arena_avail_def)
    qed (use r in simp)
  }
  {
    fix s' assume r: "arena_xallocate s n = (None, s')"
    from i s(2) show "arena_avail s' \<subseteq> arena_avail s"
    proof (cases rule: arena_xallocate_cases)
      case full
      then show ?thesis using r arena_align_pos(1) [OF i] by (auto simp: arena_avail_def)
    qed (use r in simp)
  }
qed

lemma arena_owns_block:
  assumes "arena_inv8 a" "arena_request n" "arena_xallocate a n = (Some p, a')" "0 < unat n"
  shows "arena_owns a' p"
proof -
  have i: "arena_inv a" using assms(1) by (simp add: arena_inv8_def)
  from i assms(2) show ?thesis
  proof (cases rule: arena_xallocate_cases)
    case (room p')
    have "unat (arena_data a + arena_size a) = unat (arena_data a) + unat (arena_size a)"
      using i by (intro unat_add_less) (simp add: arena_inv_def)
    moreover have "unat p \<noteq> 0" using room assms(3) i by (simp add: arena_inv_def)
    ultimately show ?thesis using room assms i
      by (auto simp: arena_owns_def word_le_nat_alt word_less_nat_alt arena_inv_def unat_eq_0)
  qed (use assms(3) in simp)
qed

declare arena_ops_def [eval_simps]
  arena_xallocate_def [eval_simps]
  arena_align_def [eval_simps]

text \<open>An arena of one page, for the concrete instances.\<close>

definition arena4k :: ArenaAllocator where
  "arena4k = \<lparr>arena_data = 4096, arena_size = 4096, arena_pos = 0\<rparr>"

declare arena4k_def [eval_simps]

section \<open>Properties\<close>

text \<open>
  C22: Blocks of an arena do not overlap: in any sequence of requests, of any sizes that do not wrap
  around, the blocks handed out lie inside the free part of the buffer and are pairwise disjoint,
  and the arena stays well formed.
\<close>

theorem arena_blocks_disjoint:
  assumes "arena_inv8 a" "list_all arena_request ns"
  shows "arena_inv8 (snd (run_alloc arena_xallocate a ns)) \<and>
    (\<forall>(p, n) \<in> set (fst (run_alloc arena_xallocate a ns)). block p n \<subseteq> arena_avail a) \<and>
    sorted_wrt (\<lambda>(p, n) (q, m). block p n \<inter> block q m = {}) (fst (run_alloc arena_xallocate a ns))"
  using arena.run_alloc_inv [OF assms] arena.run_alloc_avail [OF assms] arena.run_alloc_disjoint [OF assms]
  by (simp add: case_prod_beta)

theorem arena_blocks_disjoint_witness:
  "sorted_wrt (\<lambda>(p, n) (q, m). block p n \<inter> block q m = {}) (fst (run_alloc arena_xallocate arena4k [21, 24]))"
  using arena_blocks_disjoint [of arena4k "[21, 24]"]
  by (simp add: arena4k_def arena_inv8_def arena_inv_def arena_request_def)

text \<open>
  An arena over a buffer whose size is not a multiple of the alignment can move its position
  past the end on a failed request; the free memory it then reports has wrapped around.
\<close>

lemma arena_free_memory_wraps:
  "fst (arena_xallocate \<lparr>arena_data = 64, arena_size = 12, arena_pos = 10\<rparr> 5) = None \<and>
   arena_getFreeMemory (snd (arena_xallocate \<lparr>arena_data = 64, arena_size = 12, arena_pos = 10\<rparr> 5)) = - 4"
  by (simp add: arena_xallocate_def arena_align_def arena_getFreeMemory_def)

end
