(* ===== verification/IList.thy ===== *)
theory IList
  imports HPair Allocator
begin

text \<open>
  \<^verbatim>\<open>hm4/ilist.h\<close>, \<^verbatim>\<open>hm4/listcounter.h\<close>, \<^verbatim>\<open>hm4/ilist/*.h\<close>: what all lists share.  A
  \<open>const Pair *\<close> is the address together with the pair stored there (\<open>pptr\<close>), null is
  \<open>None\<close>.  The list that is the template parameter of these functions is a record of
  operations over its state (\<open>list_ops\<close>); the decorators (flush list, binary log list) take
  such a record and give one.
\<close>

type_synonym pptr = "u64 \<times> Pair"

section \<open>InsertResult\<close>

datatype Status =
  INSERTED | DELETED | UPDATED_IN_PLACE | REPLACED | SKIP_INSERTED | SKIP_DELETED
  | ERROR_NO_MEMORY | ERROR_INVALID | ERROR

record InsertResult =
  ir_ok :: bool
  ir_status :: Status
  ir_pair :: "pptr option"

definition inserted :: "pptr \<Rightarrow> InsertResult" where
  "inserted p = \<lparr>ir_ok = True, ir_status = INSERTED, ir_pair = Some p\<rparr>"

definition deleted :: InsertResult where
  "deleted = \<lparr>ir_ok = True, ir_status = DELETED, ir_pair = None\<rparr>"

definition updatedInPlace :: "pptr \<Rightarrow> InsertResult" where
  "updatedInPlace p = \<lparr>ir_ok = True, ir_status = UPDATED_IN_PLACE, ir_pair = Some p\<rparr>"

definition replaced :: "pptr \<Rightarrow> InsertResult" where
  "replaced p = \<lparr>ir_ok = True, ir_status = REPLACED, ir_pair = Some p\<rparr>"

definition skipInserted :: InsertResult where
  "skipInserted = \<lparr>ir_ok = True, ir_status = SKIP_INSERTED, ir_pair = None\<rparr>"

definition skipDeleted :: InsertResult where
  "skipDeleted = \<lparr>ir_ok = False, ir_status = SKIP_DELETED, ir_pair = None\<rparr>"

definition errorNoMemory :: InsertResult where
  "errorNoMemory = \<lparr>ir_ok = False, ir_status = ERROR_NO_MEMORY, ir_pair = None\<rparr>"

definition errorInvalid :: InsertResult where
  "errorInvalid = \<lparr>ir_ok = False, ir_status = ERROR_INVALID, ir_pair = None\<rparr>"

definition error :: InsertResult where
  "error = \<lparr>ir_ok = False, ir_status = ERROR, ir_pair = None\<rparr>"

lemmas result_defs =
  inserted_def deleted_def updatedInPlace_def replaced_def skipInserted_def skipDeleted_def
  errorNoMemory_def errorInvalid_def error_def

section \<open>ListCounter\<close>

record ListCounter =
  lc_count :: u64
  lc_bytes :: u64

definition lc_clr :: "ListCounter \<Rightarrow> ListCounter" where
  "lc_clr lc = lc\<lparr>lc_count := 0, lc_bytes := 0\<rparr>"

definition lc_inc :: "u64 \<Rightarrow> ListCounter \<Rightarrow> ListCounter" where
  "lc_inc s lc = lc\<lparr>lc_count := lc_count lc + 1, lc_bytes := lc_bytes lc + s\<rparr>"

definition lc_dec :: "u64 \<Rightarrow> ListCounter \<Rightarrow> ListCounter" where
  "lc_dec s lc = lc\<lparr>lc_count := lc_count lc - 1, lc_bytes := lc_bytes lc - s\<rparr>"

definition lc_upd :: "u64 \<Rightarrow> u64 \<Rightarrow> ListCounter \<Rightarrow> ListCounter" where
  "lc_upd so sn lc = lc\<lparr>lc_bytes := lc_bytes lc - so + sn\<rparr>"

definition lc_zero :: ListCounter where
  "lc_zero = \<lparr>lc_count = 0, lc_bytes = 0\<rparr>"

definition size_t :: "nat \<Rightarrow> u64" where
  "size_t n = of_nat n"

text \<open>\<open>ListCounterAlignedBytes\<close>, used by the flush list to size the file it will write.\<close>

definition lc_aligned_inc :: "u64 \<Rightarrow> u64 \<Rightarrow> u64" where
  "lc_aligned_inc s v = v + align_calc s 8"

definition lc_aligned_dec :: "u64 \<Rightarrow> u64 \<Rightarrow> u64" where
  "lc_aligned_dec s v = v - align_calc s 8"

definition lc_aligned_upd :: "u64 \<Rightarrow> u64 \<Rightarrow> u64 \<Rightarrow> u64" where
  "lc_aligned_upd so sn v = lc_aligned_inc sn (lc_aligned_dec so v)"

section \<open>isValidForReplace\<close>

definition isValidForReplace64 :: "u64 \<Rightarrow> Pair \<Rightarrow> bool" where
  "isValidForReplace64 neo_created_64 old \<longleftrightarrow> neo_created_64 \<ge> getCreated old"

definition isValidForReplace :: "u32 \<Rightarrow> Pair \<Rightarrow> bool" where
  "isValidForReplace neo_created old =
     isValidForReplace64 (prepareCreateTimeSimulate neo_created) old"

definition isValidForReplace_pair :: "Pair \<Rightarrow> Pair \<Rightarrow> bool" where
  "isValidForReplace_pair neo old = isValidForReplace64 (getCreated neo) old"

section \<open>Creating and updating pairs\<close>

text \<open>\<open>Pair::create__\<close>: validity, allocation, then the factory writes into the block.\<close>

definition pair_create ::
  "'s allocator_ops \<Rightarrow> u64 \<Rightarrow> PairFactory \<Rightarrow> 's \<Rightarrow> pptr option \<times> 's" where
  "pair_create A now f st =
     (if \<not> factory_valid f then (None, st)
      else case xallocate A st (size_t (factory_bytes f)) of
             (None, st) \<Rightarrow> (None, st)
           | (Some p, st) \<Rightarrow> (Some (p, factory_create now f (raw_memory (factory_bytes f))), st))"

definition canInsertHintAllocatorF :: "'s allocator_ops \<Rightarrow> 's \<Rightarrow> pptr \<Rightarrow> PairFactory \<Rightarrow> bool" where
  "canInsertHintAllocatorF A st p f \<longleftrightarrow> owns A st (fst p) \<and> bytes (snd p) \<ge> factory_bytes f"

definition canInsertHintValSize :: "'s allocator_ops \<Rightarrow> 's \<Rightarrow> pptr \<Rightarrow> nat \<Rightarrow> bool" where
  "canInsertHintValSize A st p val_size \<longleftrightarrow> owns A st (fst p) \<and> getValLen (snd p) \<ge> val_size"

definition tryUpdateInPlaceLC ::
  "'s allocator_ops \<Rightarrow> u64 \<Rightarrow> 's \<Rightarrow> pptr \<Rightarrow> PairFactory \<Rightarrow> ListCounter \<Rightarrow> (pptr \<times> ListCounter) option" where
  "tryUpdateInPlaceLC A now st p f lc =
     (if \<not> canInsertHintAllocatorF A st p f then None
      else
        (let old_bytes = bytes (snd p);
             pair = factory_createHint now f (snd p);
             new_bytes = bytes pair
         in Some ((fst p, pair), lc_upd (size_t old_bytes) (size_t new_bytes) lc)))"

text \<open>
  The branch of \<open>insertF\<close> for a key that is in the list.  It is the same text in
  \<open>VectorList\<close>, \<open>LinkList\<close> and \<open>SkipList\<close>: check the creation time, try to write in
  place, else create a new pair, count it, put it in place of the old one and give the old
  one back.
\<close>

definition updatePair ::
  "'s allocator_ops \<Rightarrow> u64 \<Rightarrow> PairFactory \<Rightarrow> pptr \<Rightarrow> ListCounter \<Rightarrow> 's
   \<Rightarrow> InsertResult \<times> pptr \<times> ListCounter \<times> 's" where
  "updatePair A now f olddata lc st =
     (if \<not> isValidForReplace (factory_getCreated f) (snd olddata)
      then (skipInserted, olddata, lc, st)
      else
        case tryUpdateInPlaceLC A now st olddata f lc of
          Some (data, lc) \<Rightarrow> (updatedInPlace data, data, lc, st)
        | None \<Rightarrow>
            (case pair_create A now f st of
               (None, st) \<Rightarrow> (errorNoMemory, olddata, lc, st)
             | (Some newdata, st) \<Rightarrow>
                 (replaced newdata, newdata,
                  lc_upd (size_t (bytes (snd olddata))) (size_t (bytes (snd newdata))) lc,
                  xdeallocate A st (fst olddata))))"

section \<open>The operations of a list\<close>

record MutableNotifyMessage =
  msg_pair :: pptr
  bytes_old :: nat
  bytes_new :: nat

record 'l list_ops =
  l_insertF :: "u64 \<Rightarrow> PairFactory \<Rightarrow> 'l \<Rightarrow> InsertResult \<times> 'l"
  l_erase :: "u64 \<Rightarrow> str \<Rightarrow> 'l \<Rightarrow> InsertResult \<times> 'l"
  l_getPair :: "'l \<Rightarrow> str \<Rightarrow> pptr option"
  l_list :: "'l \<Rightarrow> pptr list"
  l_find :: "'l \<Rightarrow> str \<Rightarrow> pptr list"
  l_clear :: "'l \<Rightarrow> 'l"
  l_size :: "'l \<Rightarrow> u64"
  l_empty :: "'l \<Rightarrow> bool"
  l_bytes :: "'l \<Rightarrow> u64"
  l_owns :: "'l \<Rightarrow> u64 \<Rightarrow> bool"
  l_store :: "'l \<Rightarrow> pptr \<Rightarrow> 'l"
  l_mutable_notify :: "MutableNotifyMessage \<Rightarrow> 'l \<Rightarrow> 'l"

text \<open>\<open>l_store\<close> is the write through a \<open>Pair *\<close> that points into the list.\<close>

definition insert_kv :: "'l list_ops \<Rightarrow> u64 \<Rightarrow> str \<Rightarrow> str \<Rightarrow> u32 \<Rightarrow> u32 \<Rightarrow> 'l \<Rightarrow> InsertResult \<times> 'l" where
  "insert_kv L now key val expires created l = l_insertF L now (Normal key val expires created) l"

definition insertTS :: "'l list_ops \<Rightarrow> u64 \<Rightarrow> str \<Rightarrow> 'l \<Rightarrow> InsertResult \<times> 'l" where
  "insertTS L now key l = l_insertF L now (Tombstone key 0) l"

definition insert_pair :: "'l list_ops \<Rightarrow> u64 \<Rightarrow> Pair \<Rightarrow> 'l \<Rightarrow> InsertResult \<times> 'l" where
  "insert_pair L now src l = l_insertF L now (Clone src) l"

definition proceedInsertHint :: "'l list_ops \<Rightarrow> u64 \<Rightarrow> pptr \<Rightarrow> PairFactory \<Rightarrow> 'l \<Rightarrow> 'l" where
  "proceedInsertHint L now p f l =
     (let bytes_old = bytes (snd p);
          p = (fst p, factory_createHint now f (snd p));
          l = l_store L l p
      in l_mutable_notify L \<lparr>msg_pair = p, bytes_old = bytes_old, bytes_new = bytes (snd p)\<rparr> l)"

definition insertHint :: "'l list_ops \<Rightarrow> u64 \<Rightarrow> pptr \<Rightarrow> PairFactory \<Rightarrow> 'l \<Rightarrow> 'l" where
  "insertHint L now p f l =
     (if l_owns L l (fst p) \<and> bytes (snd p) \<ge> factory_bytes f
      then proceedInsertHint L now p f l
      else snd (l_insertF L now f l))"

section \<open>getPair\<close>

definition getNewestPair :: "pptr option \<Rightarrow> pptr option \<Rightarrow> pptr option" where
  "getNewestPair p1 p2 =
     (case p1 of None \<Rightarrow> p2
      | Some a \<Rightarrow> (case p2 of None \<Rightarrow> p1
          | Some b \<Rightarrow> if cmpTime (snd a) (snd b) > 0 then p1 else p2))"

definition getPairBestHelper :: "('l \<Rightarrow> str \<Rightarrow> pptr option) \<Rightarrow> 'l \<Rightarrow> str \<Rightarrow> pptr option \<Rightarrow> pptr option" where
  "getPairBestHelper getPair list key best = getNewestPair (getPair list key) best"

definition getPairOK_pred ::
  "u64 \<Rightarrow> ('l \<Rightarrow> str \<Rightarrow> pptr option) \<Rightarrow> 'l \<Rightarrow> str \<Rightarrow> (bool \<Rightarrow> pptr option \<Rightarrow> 'r) \<Rightarrow> 'r" where
  "getPairOK_pred now getPair list key pred =
     (let p = getPair list key in
      pred (case p of None \<Rightarrow> False | Some q \<Rightarrow> isOK now (snd q)) p)"

definition getPairOK :: "u64 \<Rightarrow> ('l \<Rightarrow> str \<Rightarrow> pptr option) \<Rightarrow> 'l \<Rightarrow> str \<Rightarrow> bool" where
  "getPairOK now getPair list key = getPairOK_pred now getPair list key (\<lambda>b p. b)"

definition getPairPtr :: "u64 \<Rightarrow> ('l \<Rightarrow> str \<Rightarrow> pptr option) \<Rightarrow> 'l \<Rightarrow> str \<Rightarrow> pptr option" where
  "getPairPtr now getPair list key = getPairOK_pred now getPair list key (\<lambda>b p. if b then p else None)"

definition getPairVal :: "u64 \<Rightarrow> ('l \<Rightarrow> str \<Rightarrow> pptr option) \<Rightarrow> 'l \<Rightarrow> str \<Rightarrow> str" where
  "getPairVal now getPair list key =
     getPairOK_pred now getPair list key
       (\<lambda>b p. case p of None \<Rightarrow> [] | Some q \<Rightarrow> if b then getVal (snd q) else [])"

definition getPairPtrWithSize ::
  "u64 \<Rightarrow> ('l \<Rightarrow> str \<Rightarrow> pptr option) \<Rightarrow> 'l \<Rightarrow> str \<Rightarrow> nat \<Rightarrow> pptr option" where
  "getPairPtrWithSize now getPair list key sz =
     getPairOK_pred now getPair list key
       (\<lambda>b p. case p of None \<Rightarrow> None
              | Some q \<Rightarrow> if b \<and> getValLen (snd q) = sz then Some q else None)"

section \<open>ilist/makepair.h\<close>

definition makePairSystem :: "str \<Rightarrow> Pair \<Rightarrow> Pair" where
  "makePairSystem name buffer = createSystemPairInRawMemory buffer name"

definition makePairTombstone :: "u64 \<Rightarrow> str \<Rightarrow> Pair \<Rightarrow> Pair" where
  "makePairTombstone now name buffer = createInRawMemoryFull now buffer name TOMBSTONE 0 0"

section \<open>Lemmas on counters and creation\<close>

lemma lc_upd_same [simp]: "lc_upd s s lc = lc"
  by (simp add: lc_upd_def)

lemma lc_inc_dec [simp]: "lc_dec s (lc_inc s lc) = lc"
  by (simp add: lc_inc_def lc_dec_def)

lemma lc_upd_dec_inc: "lc_upd so sn lc = lc_inc sn (lc_dec so lc)"
  by (simp add: lc_upd_def lc_inc_def lc_dec_def)

lemma pair_create_cases:
  assumes "factory_wf f" "pair_create A now f st = (r, st')"
  obtains (none) "r = None"
  | (some) p q where "r = Some (p, q)" "getKey q = factory_getKey f" "pair_wf q"
      "getVal q = factory_val f" "getCreated q = factory_created now f"
      "getExpires q = factory_expires f" "factory_tomb f \<longrightarrow> isTombstone q" "bytes q = factory_bytes f"
      "q = factory_create now f (raw_memory (factory_bytes f))"
proof (cases r)
  case (Some pq)
  obtain p q where pq: "pq = (p, q)" by fastforce
  have q: "q = factory_create now f (raw_memory (factory_bytes f))"
    using assms(2) Some pq by (auto simp: pair_create_def split: if_splits prod.splits option.splits)
  have b: "factory_bytes f \<le> block_size (raw_memory (factory_bytes f))"
    by (simp add: block_size_def)
  note spec = factory_create_spec [OF assms(1) b, of now, folded q]
  have "bytes q = factory_bytes f"
    using spec factory_bytes_eq [OF assms(1)] by (simp add: bytes_def)
  moreover have "factory_tomb f \<longrightarrow> isTombstone q"
    using spec by (cases f) (simp_all add: factory_tomb_def isTombstone_iff)
  ultimately show thesis using some Some pq q spec by blast
qed (use none in simp)

text \<open>Where the pair comes from that an insertion stores: it is new, or the old one written in place.\<close>

definition pair_from :: "u64 \<Rightarrow> PairFactory \<Rightarrow> pptr option \<Rightarrow> bool \<Rightarrow> pptr \<Rightarrow> bool" where
  "pair_from now f old in_place p \<longleftrightarrow>
     (if in_place
      then \<exists>q. old = Some q \<and> factory_bytes f \<le> bytes (snd q) \<and> p = (fst q, factory_createHint now f (snd q))
      else snd p = factory_create now f (raw_memory (factory_bytes f)))"

text \<open>What \<open>updatePair\<close> does to the pair, whatever branch it takes.\<close>

lemma updatePair_spec:
  assumes "factory_wf f" "pair_wf (snd old)" "getKey (snd old) = factory_getKey f"
    and "updatePair A now f old lc st = (r, new, lc', st')"
  shows "getKey (snd new) = factory_getKey f" "pair_wf (snd new)"
    "lc' = lc_upd (size_t (bytes (snd old))) (size_t (bytes (snd new))) lc"
    "ir_pair r = None \<longrightarrow> new = old" "ir_pair r \<noteq> None \<longrightarrow> ir_pair r = Some new"
    "ir_ok r \<longleftrightarrow> ir_status r \<noteq> ERROR_NO_MEMORY"
    "ir_status r \<in> {SKIP_INSERTED, ERROR_NO_MEMORY, UPDATED_IN_PLACE, REPLACED}"
    "ir_pair r \<noteq> None \<longleftrightarrow> ir_status r \<in> {UPDATED_IN_PLACE, REPLACED}"
    "ir_status r = SKIP_INSERTED \<longleftrightarrow> \<not> isValidForReplace (factory_getCreated f) (snd old)"
    "ir_pair r \<noteq> None \<longrightarrow> getCreated (snd new) = factory_created now f"
    "ir_pair r \<noteq> None \<and> factory_full f \<longrightarrow>
      getVal (snd new) = factory_val f \<and> getExpires (snd new) = factory_expires f"
    "ir_pair r \<noteq> None \<and> factory_tomb f \<longrightarrow> isTombstone (snd new)"
    "ir_pair r \<noteq> None \<longrightarrow> pair_from now f (Some old) (ir_status r = UPDATED_IN_PLACE) new"
proof -
  let ?G = "getKey (snd new) = factory_getKey f \<and> pair_wf (snd new) \<and>
    lc' = lc_upd (size_t (bytes (snd old))) (size_t (bytes (snd new))) lc \<and>
    (ir_pair r = None \<longrightarrow> new = old) \<and> (ir_pair r \<noteq> None \<longrightarrow> ir_pair r = Some new) \<and>
    (ir_ok r \<longleftrightarrow> ir_status r \<noteq> ERROR_NO_MEMORY) \<and>
    ir_status r \<in> {SKIP_INSERTED, ERROR_NO_MEMORY, UPDATED_IN_PLACE, REPLACED} \<and>
    (ir_pair r \<noteq> None \<longleftrightarrow> ir_status r \<in> {UPDATED_IN_PLACE, REPLACED}) \<and>
    (ir_status r = SKIP_INSERTED \<longleftrightarrow> \<not> isValidForReplace (factory_getCreated f) (snd old)) \<and>
    (ir_pair r \<noteq> None \<longrightarrow> getCreated (snd new) = factory_created now f) \<and>
    (ir_pair r \<noteq> None \<and> factory_full f \<longrightarrow>
      getVal (snd new) = factory_val f \<and> getExpires (snd new) = factory_expires f) \<and>
    (ir_pair r \<noteq> None \<and> factory_tomb f \<longrightarrow> isTombstone (snd new)) \<and>
    (ir_pair r \<noteq> None \<longrightarrow> pair_from now f (Some old) (ir_status r = UPDATED_IN_PLACE) new)"
  have ?G
  proof (cases "isValidForReplace (factory_getCreated f) (snd old)")
    case False
    then show ?thesis using assms by (auto simp: updatePair_def skipInserted_def)
  next
    case valid: True
    show ?thesis
    proof (cases "canInsertHintAllocatorF A st old f")
      case True
      then have b: "factory_bytes f \<le> bytes (snd old)" by (simp add: canInsertHintAllocatorF_def)
      have "new = (fst old, factory_createHint now f (snd old))"
        and "lc' = lc_upd (size_t (bytes (snd old))) (size_t (bytes (snd new))) lc"
        and "r = updatedInPlace new"
        using assms(4) valid True by (auto simp: updatePair_def tryUpdateInPlaceLC_def Let_def)
      then show ?thesis
        using factory_createHint_spec [OF assms(1-3) b, of now] assms(3) valid
          factory_createHint_header [OF assms(1,2) b, of now]
          factory_createHint_val [OF assms(1-3) b, of now] createHint_factory_tomb [of f now "snd old"] b
        by (simp add: updatedInPlace_def pair_from_def)
    next
      case False
      obtain c st1 where c: "pair_create A now f st = (c, st1)" by fastforce
      from assms(1) c show ?thesis
      proof (cases rule: pair_create_cases)
        case none
        then show ?thesis using assms c False valid
          by (auto simp: updatePair_def tryUpdateInPlaceLC_def errorNoMemory_def)
      next
        case (some p q)
        then show ?thesis using assms(4) c False valid
          by (auto simp: updatePair_def tryUpdateInPlaceLC_def replaced_def pair_from_def)
      qed
    qed
  qed
  then show "getKey (snd new) = factory_getKey f" "pair_wf (snd new)"
    "lc' = lc_upd (size_t (bytes (snd old))) (size_t (bytes (snd new))) lc"
    "ir_pair r = None \<longrightarrow> new = old" "ir_pair r \<noteq> None \<longrightarrow> ir_pair r = Some new"
    "ir_ok r \<longleftrightarrow> ir_status r \<noteq> ERROR_NO_MEMORY"
    "ir_status r \<in> {SKIP_INSERTED, ERROR_NO_MEMORY, UPDATED_IN_PLACE, REPLACED}"
    "ir_pair r \<noteq> None \<longleftrightarrow> ir_status r \<in> {UPDATED_IN_PLACE, REPLACED}"
    "ir_status r = SKIP_INSERTED \<longleftrightarrow> \<not> isValidForReplace (factory_getCreated f) (snd old)"
    "ir_pair r \<noteq> None \<longrightarrow> getCreated (snd new) = factory_created now f"
    "ir_pair r \<noteq> None \<and> factory_full f \<longrightarrow>
      getVal (snd new) = factory_val f \<and> getExpires (snd new) = factory_expires f"
    "ir_pair r \<noteq> None \<and> factory_tomb f \<longrightarrow> isTombstone (snd new)"
    "ir_pair r \<noteq> None \<longrightarrow> pair_from now f (Some old) (ir_status r = UPDATED_IN_PLACE) new"
    by blast+
qed

lemma getNewestPair_None [simp]: "getNewestPair None p = p" "getNewestPair p None = p"
  by (simp_all add: getNewestPair_def split: option.split)

lemma cmpTime_gt: "cmpTime p q > 0 \<longleftrightarrow> getCreated q < getCreated p"
  by (simp add: cmpTime_def comparator_comp_def)

text \<open>The result is one of the two, and no older than either; on a tie the second wins.\<close>

lemma getNewestPair_Some:
  "getNewestPair (Some a) (Some b) = (if getCreated (snd b) < getCreated (snd a) then Some a else Some b)"
  by (simp add: getNewestPair_def cmpTime_gt)

declare pair_create_def [eval_simps]
  size_t_def [eval_simps]
  result_defs [eval_simps]

end
