(* ===== verification/BinarySearch.thy ===== *)
theory BinarySearch
  imports Prelude
begin

text \<open>
  \<^verbatim>\<open>include/binarysearch.h\<close> and \<^verbatim>\<open>include/binarysearch.h.cc\<close>: the search that the vector
  list, the nodes of the unrolled lists and the disk list share.  An iterator range is an array
  with two positions; the comparator is a function that returns the sign.
\<close>

section \<open>The code\<close>

record BinarySearchResult =
  bs_found :: bool
  bs_it :: nat

function linearSearch ::
  "('a \<Rightarrow> 'k \<Rightarrow> int) \<Rightarrow> 'a list \<Rightarrow> 'k \<Rightarrow> nat \<Rightarrow> nat \<Rightarrow> BinarySearchResult" where
  "linearSearch cmpf array key first fin =
     (if first < fin then
        (let c = cmpf (array ! first) key in
         if c = 0 then \<lparr>bs_found = True, bs_it = first\<rparr>
         else if c > 0 then \<lparr>bs_found = False, bs_it = first\<rparr>
         else linearSearch cmpf array key (first + 1) fin)
      else \<lparr>bs_found = False, bs_it = first\<rparr>)"
  by pat_completeness auto
termination by (relation "measure (\<lambda>(cmpf, array, key, first, fin). fin - first)") auto

declare linearSearch.simps [simp del]

text \<open>The positions that one round of the loop passes to the prefetch hints.\<close>

definition prefetch_positions :: "nat \<Rightarrow> nat \<Rightarrow> nat list" where
  "prefetch_positions start fin =
     (let mid = start + (fin - start) div 2; start1 = mid + 1; end1 = mid
      in [start1 + (fin - start1) div 2, start + (end1 - start) div 2])"

function binarySearch_loop ::
  "('a \<Rightarrow> 'k \<Rightarrow> int) \<Rightarrow> 'a list \<Rightarrow> 'k \<Rightarrow> nat \<Rightarrow> nat \<Rightarrow> nat \<Rightarrow> BinarySearchResult" where
  "binarySearch_loop cmpf array key minimum_distance start fin =
     (if start + minimum_distance < fin then
        (let mid = start + (fin - start) div 2;
             c = cmpf (array ! mid) key
         in if c < 0 then binarySearch_loop cmpf array key minimum_distance (mid + 1) fin
            else if c > 0 then binarySearch_loop cmpf array key minimum_distance start mid
            else \<lparr>bs_found = True, bs_it = mid\<rparr>)
      else linearSearch cmpf array key start fin)"
  by pat_completeness auto
termination
  by (relation "measure (\<lambda>(cmpf, array, key, d, start, fin). fin - start)") auto

declare binarySearch_loop.simps [simp del]

text \<open>The random access version with the default minimum distance.\<close>

definition binarySearch :: "('a \<Rightarrow> 'k \<Rightarrow> int) \<Rightarrow> 'a list \<Rightarrow> 'k \<Rightarrow> BinarySearchResult" where
  "binarySearch cmpf array key = binarySearch_loop cmpf array key 5 0 (length array)"

section \<open>Correctness for a sorted array\<close>

text \<open>
  The lower bound position of \<open>key\<close>, and the comparator as an order: \<open>ka\<close> and \<open>kk\<close> give
  the sort key of an element and of a search key.
\<close>

definition lower_bound :: "('a \<Rightarrow> 'o::linorder) \<Rightarrow> 'a list \<Rightarrow> 'o \<Rightarrow> nat" where
  "lower_bound ka array k = length (takeWhile (\<lambda>x. ka x < k) array)"

lemma lower_bound_le: "lower_bound ka array k \<le> length array"
  by (simp add: lower_bound_def length_takeWhile_le)

lemma lower_bound_less: "i < lower_bound ka array k \<Longrightarrow> ka (array ! i) < k"
  unfolding lower_bound_def
  by (metis nth_mem set_takeWhileD takeWhile_nth)

lemma lower_bound_nth: "lower_bound ka array k < length array \<Longrightarrow> k \<le> ka (array ! lower_bound ka array k)"
  unfolding lower_bound_def using nth_length_takeWhile [of "\<lambda>x. ka x < k" array] by (simp add: not_less)

lemma lower_bound_ge:
  assumes "sorted_wrt (<) (map ka array)" "lower_bound ka array k \<le> i" "i < length array"
  shows "k \<le> ka (array ! i)" "lower_bound ka array k < i \<Longrightarrow> k < ka (array ! i)"
proof -
  let ?l = "lower_bound ka array k"
  have l: "k \<le> ka (array ! ?l)" using assms(2,3) by (intro lower_bound_nth) simp
  have "?l < i \<Longrightarrow> ka (array ! ?l) < ka (array ! i)"
    using assms sorted_wrt_nth_less [of "(<)" "map ka array" ?l i] by simp
  with l show "k \<le> ka (array ! i)" "?l < i \<Longrightarrow> k < ka (array ! i)"
    using assms(2) by (cases "?l = i"; force)+
qed

lemma lower_bound_unique:
  assumes "sorted_wrt (<) (map ka array)" "j \<le> length array"
    and "\<And>i. i < j \<Longrightarrow> ka (array ! i) < k" and "j < length array \<Longrightarrow> k \<le> ka (array ! j)"
  shows "lower_bound ka array k = j"
proof (rule linorder_cases [of "lower_bound ka array k" j])
  assume l: "lower_bound ka array k < j"
  then have "k \<le> ka (array ! lower_bound ka array k)"
    using assms(2) by (intro lower_bound_nth) simp
  with assms(3) [OF l] show ?thesis by simp
next
  assume "j < lower_bound ka array k"
  then show ?thesis using assms(4) lower_bound_less [of j ka array k] lower_bound_le [of ka array k]
    by fastforce
qed

definition searched :: "('a \<Rightarrow> 'o::linorder) \<Rightarrow> 'a list \<Rightarrow> 'o \<Rightarrow> BinarySearchResult" where
  "searched ka array k =
     (let j = lower_bound ka array k
      in \<lparr>bs_found = j < length array \<and> ka (array ! j) = k, bs_it = j\<rparr>)"

locale search_order =
  fixes cmpf :: "'a \<Rightarrow> 'k \<Rightarrow> int"
    and ka :: "'a \<Rightarrow> 'o::linorder" and kk :: "'k \<Rightarrow> 'o"
    and elem_ok :: "'a \<Rightarrow> bool" and key_ok :: "'k \<Rightarrow> bool"
  assumes comp_less: "elem_ok x \<Longrightarrow> key_ok k \<Longrightarrow> cmpf x k < 0 \<longleftrightarrow> ka x < kk k"
    and comp_eq: "elem_ok x \<Longrightarrow> key_ok k \<Longrightarrow> cmpf x k = 0 \<longleftrightarrow> ka x = kk k"
begin

lemma linearSearch_searched:
  assumes "sorted_wrt (<) (map ka array)" "list_all elem_ok array" "key_ok k"
    and "first \<le> lower_bound ka array (kk k)" "lower_bound ka array (kk k) \<le> fin"
    and "fin \<le> length array" and "fin < length array \<Longrightarrow> ka (array ! fin) \<noteq> kk k"
  shows "linearSearch cmpf array k first fin = searched ka array (kk k)"
  using assms(4)
proof (induction "fin - first" arbitrary: first)
  case 0
  then have "first = fin" "lower_bound ka array (kk k) = fin" using assms(5) by simp_all
  then show ?case using assms(6,7) by (auto simp: linearSearch.simps searched_def Let_def)
next
  case (Suc n)
  let ?l = "lower_bound ka array (kk k)"
  have f: "first < fin" using Suc.hyps(2) by simp
  have e: "elem_ok (array ! first)" using f assms(2,6) by (simp add: list_all_length)
  show ?case
  proof (cases "first = ?l")
    case True
    then have "kk k \<le> ka (array ! first)" using lower_bound_nth [of ka array "kk k"] f assms(6) by simp
    then show ?thesis using True f assms(6) comp_less [OF e assms(3)] comp_eq [OF e assms(3)]
      by (subst linearSearch.simps) (auto simp: searched_def Let_def)
  next
    case False
    then have lt: "first < ?l" using Suc.prems by simp
    then have "cmpf (array ! first) k < 0" using comp_less [OF e assms(3)] lower_bound_less by blast
    then have "linearSearch cmpf array k first fin = linearSearch cmpf array k (first + 1) fin"
      using f by (subst linearSearch.simps) (simp add: Let_def)
    then show ?thesis using Suc.hyps lt by simp
  qed
qed

lemma binarySearch_loop_searched:
  assumes "sorted_wrt (<) (map ka array)" "list_all elem_ok array" "key_ok k"
    and "start \<le> lower_bound ka array (kk k)" "lower_bound ka array (kk k) \<le> fin"
    and "fin \<le> length array" and "fin < length array \<Longrightarrow> ka (array ! fin) \<noteq> kk k"
  shows "binarySearch_loop cmpf array k d start fin = searched ka array (kk k)"
  using assms(4-7)
proof (induction "fin - start" arbitrary: start fin rule: less_induct)
  case less
  let ?l = "lower_bound ka array (kk k)"
  let ?m = "start + (fin - start) div 2"
  show ?case
  proof (cases "start + d < fin")
    case False
    then show ?thesis using linearSearch_searched [OF assms(1-3)] less.prems
      by (subst binarySearch_loop.simps) simp
  next
    case True
    have m: "start \<le> ?m" "?m < fin" "?m < length array" using True less.prems(3) by auto
    have e: "elem_ok (array ! ?m)" using m assms(2) by (simp add: list_all_length)
    consider "ka (array ! ?m) < kk k" | "ka (array ! ?m) = kk k" | "kk k < ka (array ! ?m)"
      by (rule linorder_cases)
    then show ?thesis
    proof cases
      case 1
      have "?m < ?l"
        using 1 lower_bound_ge(1) [OF assms(1) _ m(3), of "kk k"] by (meson not_le)
      then have "binarySearch_loop cmpf array k d (?m + 1) fin = searched ka array (kk k)"
        using less m by (intro less.hyps) auto
      then show ?thesis using 1 True comp_less [OF e assms(3)]
        by (subst binarySearch_loop.simps) (simp add: Let_def)
    next
      case 2
      have "?l = ?m"
        using 2 lower_bound_less [of ?m ka array "kk k"] lower_bound_ge(2) [OF assms(1) _ m(3), of "kk k"]
        by (metis less_imp_neq linorder_cases order_less_imp_le)
      then show ?thesis using 2 True m comp_eq [OF e assms(3)]
        by (subst binarySearch_loop.simps) (simp add: Let_def searched_def)
    next
      case 3
      have "?l \<le> ?m"
        using 3 lower_bound_less [of ?m ka array "kk k"] by (meson not_le order_less_asym)
      then have "binarySearch_loop cmpf array k d start ?m = searched ka array (kk k)"
        using less 3 m by (intro less.hyps) auto
      then show ?thesis using 3 True comp_less [OF e assms(3)] comp_eq [OF e assms(3)]
        by (subst binarySearch_loop.simps) (auto simp: Let_def)
    qed
  qed
qed

lemma binarySearch_searched:
  assumes "sorted_wrt (<) (map ka array)" "list_all elem_ok array" "key_ok k"
  shows "binarySearch cmpf array k = searched ka array (kk k)"
  unfolding binarySearch_def
  by (rule binarySearch_loop_searched [OF assms]) (simp_all add: lower_bound_le)

end

text \<open>The prefetch hints of a round stay inside the range that is searched.\<close>

lemma prefetch_positions_inside:
  "start + 5 < fin \<Longrightarrow> i \<in> set (prefetch_positions start fin) \<Longrightarrow> start \<le> i \<and> i < fin"
proof -
  assume d: "start + 5 < fin" and i: "i \<in> set (prefetch_positions start fin)"
  have half: "a + (b - a) div 2 < b" if "a < b" for a b :: nat using that by linarith
  let ?m = "start + (fin - start) div 2"
  have "?m + 1 < fin" using d by linarith
  then have "?m + 1 + (fin - (?m + 1)) div 2 < fin" by (rule half)
  moreover have "start + (?m - start) div 2 < fin" using d by linarith
  ultimately show ?thesis using i by (auto simp: prefetch_positions_def Let_def)
qed

declare binarySearch_def [eval_simps]
  binarySearch_loop.simps [eval_simps]
  linearSearch.simps [eval_simps]

end
