(* ===== verification/Memlist.thy ===== *)
theory Memlist
  imports IList BinarySearch
begin

text \<open>
  The contract that the in memory lists keep, as a locale over \<open>list_ops\<close>, and the lemmas on
  sorted sequences of pairs that their proofs share.  \<open>lookup\<close> is the specification of
  \<open>getPair\<close>.
\<close>

definition pkey :: "pptr \<Rightarrow> str" where
  "pkey p = getKey (snd p)"

definition lookup :: "pptr list \<Rightarrow> str \<Rightarrow> pptr option" where
  "lookup v key = find (\<lambda>p. pkey p = key) v"

lemma lookup_Nil [simp]: "lookup [] k = None"
  by (simp add: lookup_def)

lemma lookup_Cons: "lookup (p # v) k = (if pkey p = k then Some p else lookup v k)"
  by (simp add: lookup_def)

lemma lookup_append: "lookup (v @ w) k = (case lookup v k of None \<Rightarrow> lookup w k | Some p \<Rightarrow> Some p)"
  by (induction v) (simp_all add: lookup_Cons)

lemma lookup_None_iff: "lookup v k = None \<longleftrightarrow> k \<notin> pkey ` set v"
  by (induction v) (auto simp: lookup_Cons)

lemma lookup_Some_in: "lookup v k = Some p \<Longrightarrow> p \<in> set v \<and> pkey p = k"
  by (induction v) (auto simp: lookup_Cons split: if_splits)

lemma lookup_in: "distinct (map pkey v) \<Longrightarrow> p \<in> set v \<Longrightarrow> lookup v (pkey p) = Some p"
  by (induction v) (auto simp: lookup_Cons image_iff)

text \<open>The pairs of a list are well formed and have keys that the list can order.\<close>

definition pairs_ok :: "(str \<Rightarrow> bool) \<Rightarrow> pptr list \<Rightarrow> bool" where
  "pairs_ok key_ok v \<longleftrightarrow> list_all (\<lambda>p. pair_wf (snd p) \<and> pkey p \<noteq> [] \<and> key_ok (pkey p)) v"

text \<open>The counters agree with the contents.\<close>

definition lc_of :: "pptr list \<Rightarrow> ListCounter" where
  "lc_of v = \<lparr>lc_count = of_nat (length v), lc_bytes = (\<Sum>p\<leftarrow>v. size_t (bytes (snd p)))\<rparr>"

lemma lc_of_Nil [simp]: "lc_of [] = lc_zero"
  by (simp add: lc_of_def lc_zero_def)

lemma lc_of_insert: "lc_of (v @ p # w) = lc_inc (size_t (bytes (snd p))) (lc_of (v @ w))"
  by (simp add: lc_of_def lc_inc_def)

lemma lc_of_delete: "lc_of (v @ w) = lc_dec (size_t (bytes (snd p))) (lc_of (v @ p # w))"
  by (simp add: lc_of_insert)

lemma lc_of_update:
  "lc_of (v @ q # w) = lc_upd (size_t (bytes (snd p))) (size_t (bytes (snd q))) (lc_of (v @ p # w))"
  by (simp add: lc_of_insert lc_upd_dec_inc)

section \<open>The contract of a list\<close>

text \<open>
  What an insertion promises about the contents before (\<open>v\<close>) and after (\<open>v'\<close>): other keys
  keep their pairs; the key has the pair that the result carries, or its old one when the result
  carries none; the status says which case it is.
\<close>

definition insert_spec ::
  "u64 \<Rightarrow> PairFactory \<Rightarrow> pptr list \<Rightarrow> InsertResult \<Rightarrow> pptr list \<Rightarrow> bool" where
  "insert_spec now f v r v' \<longleftrightarrow>
     (\<forall>k. k \<noteq> factory_getKey f \<longrightarrow> lookup v' k = lookup v k) \<and>
     lookup v' (factory_getKey f) =
       (case ir_pair r of None \<Rightarrow> lookup v (factory_getKey f) | Some p \<Rightarrow> Some p) \<and>
     (\<forall>p. ir_pair r = Some p \<longrightarrow> pair_from now f (lookup v (factory_getKey f)) (ir_status r = UPDATED_IN_PLACE) p \<and>
        getCreated (snd p) = factory_created now f \<and>
        (factory_full f \<longrightarrow> getVal (snd p) = factory_val f \<and> getExpires (snd p) = factory_expires f) \<and>
        (factory_tomb f \<longrightarrow> isTombstone (snd p))) \<and>
     (ir_pair r \<noteq> None \<longleftrightarrow> ir_status r \<in> {INSERTED, UPDATED_IN_PLACE, REPLACED}) \<and>
     (ir_ok r \<longleftrightarrow> ir_status r \<notin> {ERROR_NO_MEMORY, ERROR_INVALID, ERROR}) \<and>
     (ir_status r = SKIP_INSERTED \<longleftrightarrow>
        (\<exists>old. lookup v (factory_getKey f) = Some old \<and>
               \<not> isValidForReplace (factory_getCreated f) (snd old))) \<and>
     (ir_status r = INSERTED \<longrightarrow> lookup v (factory_getKey f) = None) \<and>
     (ir_status r \<in> {UPDATED_IN_PLACE, REPLACED} \<longrightarrow> lookup v (factory_getKey f) \<noteq> None) \<and>
     ir_status r \<notin> {DELETED, SKIP_DELETED, ERROR_INVALID}"

definition erase_spec :: "str \<Rightarrow> pptr list \<Rightarrow> InsertResult \<Rightarrow> pptr list \<Rightarrow> bool" where
  "erase_spec key v r v' \<longleftrightarrow>
     (\<forall>k. lookup v' k = (if k = key then None else lookup v k)) \<and>
     r = (if lookup v key = None then skipDeleted else deleted)"

text \<open>The two results of an insertion that a list does not change for.\<close>

lemma insert_spec_none:
  assumes "insert_spec now f v r v'" "ir_pair r = None"
  shows "lookup v' k = lookup v k"
  using assms by (cases "k = factory_getKey f") (auto simp: insert_spec_def)

section \<open>Sequences sorted by an order on keys\<close>

definition sorted_keys :: "(str \<Rightarrow> int list) \<Rightarrow> pptr list \<Rightarrow> bool" where
  "sorted_keys ord v \<longleftrightarrow> sorted_wrt (<) (map (\<lambda>p. ord (pkey p)) v)"

definition list_good :: "(str \<Rightarrow> int list) \<Rightarrow> (str \<Rightarrow> bool) \<Rightarrow> pptr list \<Rightarrow> ListCounter \<Rightarrow> bool" where
  "list_good ord key_ok v lc \<longleftrightarrow> sorted_keys ord v \<and> pairs_ok key_ok v \<and> lc = lc_of v"

lemma insert_spec_failed:
  "lookup v (factory_getKey f) = None \<Longrightarrow> r = errorNoMemory \<or> r = error \<Longrightarrow> insert_spec now f v r v"
  by (auto simp: insert_spec_def errorNoMemory_def error_def)

locale key_order =
  fixes ord :: "str \<Rightarrow> int list"
  assumes ord_inject: "ord a = ord b \<longleftrightarrow> a = b"
begin

lemma sorted_keys_Nil [simp]: "sorted_keys ord []"
  by (simp add: sorted_keys_def)

lemma sorted_keys_append:
  "sorted_keys ord (v @ w) \<longleftrightarrow> sorted_keys ord v \<and> sorted_keys ord w \<and>
     (\<forall>p \<in> set v. \<forall>q \<in> set w. ord (pkey p) < ord (pkey q))"
  by (auto simp: sorted_keys_def sorted_wrt_append)

lemma sorted_keys_Cons:
  "sorted_keys ord (p # v) \<longleftrightarrow> (\<forall>q \<in> set v. ord (pkey p) < ord (pkey q)) \<and> sorted_keys ord v"
  by (auto simp: sorted_keys_def)

lemma sorted_keys_distinct: "sorted_keys ord v \<Longrightarrow> distinct (map pkey v)"
proof -
  assume "sorted_keys ord v"
  then have "distinct (map ord (map pkey v))"
    using sorted_wrt_less_distinct by (fastforce simp: sorted_keys_def comp_def)
  then show ?thesis by (metis distinct_map)
qed

text \<open>A sorted sequence around a key: what is below, the pair with the key, what is above.\<close>

lemma sorted_keys_split:
  assumes "sorted_keys ord v" "lower_bound (\<lambda>p. ord (pkey p)) v (ord k) = j"
  shows "\<forall>p \<in> set (take j v). ord (pkey p) < ord k"
    and "\<forall>p \<in> set (drop j v). ord k \<le> ord (pkey p)"
    and "lookup (take j v) k = None"
    and "j < length v \<Longrightarrow> \<forall>p \<in> set (drop (Suc j) v). ord k < ord (pkey p)"
    and "j < length v \<Longrightarrow> lookup (drop (Suc j) v) k = None"
proof -
  let ?ka = "\<lambda>p. ord (pkey p)"
  have t: "take j v = takeWhile (\<lambda>p. ?ka p < ord k) v"
    using assms(2) by (metis lower_bound_def takeWhile_eq_take)
  show below: "\<forall>p \<in> set (take j v). ?ka p < ord k" unfolding t by (auto dest: set_takeWhileD)
  show "\<forall>p \<in> set (drop j v). ord k \<le> ?ka p"
  proof
    fix p assume "p \<in> set (drop j v)"
    then obtain i where "p = v ! i" "j \<le> i" "i < length v"
      by (auto simp: in_set_conv_nth)
    then show "ord k \<le> ?ka p"
      using lower_bound_ge(1) [of ?ka v "ord k" i] assms by (simp add: sorted_keys_def)
  qed
  show "lookup (take j v) k = None" using below by (auto simp: lookup_None_iff)
  assume "j < length v"
  show above: "\<forall>p \<in> set (drop (Suc j) v). ord k < ?ka p"
  proof
    fix p assume "p \<in> set (drop (Suc j) v)"
    then obtain i where "p = v ! i" "j < i" "i < length v"
      by (auto simp: in_set_conv_nth)
    then show "ord k < ?ka p"
      using lower_bound_ge(2) [of ?ka v "ord k" i] assms by (simp add: sorted_keys_def)
  qed
  show "lookup (drop (Suc j) v) k = None" using above by (auto simp: lookup_None_iff)
qed

lemma lookup_lower_bound:
  assumes "sorted_keys ord v" "lower_bound (\<lambda>p. ord (pkey p)) v (ord k) = j"
  shows "lookup v k = (if j < length v \<and> pkey (v ! j) = k then Some (v ! j) else None)"
proof (cases "j < length v")
  case True
  then have "v = take j v @ v ! j # drop (Suc j) v" by (rule id_take_nth_drop)
  then have "lookup v k = lookup (take j v @ v ! j # drop (Suc j) v) k" by simp
  then show ?thesis using sorted_keys_split [OF assms] True by (simp add: lookup_append lookup_Cons)
next
  case False
  then show ?thesis using sorted_keys_split(3) [OF assms] by simp
qed

text \<open>Inserting at the lower bound, replacing and deleting there.\<close>

lemma sorted_keys_insert:
  assumes "sorted_keys ord v" "lower_bound (\<lambda>p. ord (pkey p)) v (ord k) = j" "lookup v k = None" "pkey p = k"
  shows "sorted_keys ord (take j v @ p # drop j v)"
    and "lookup (take j v @ p # drop j v) k' = (if k' = k then Some p else lookup v k')"
proof -
  have v: "v = take j v @ drop j v" by simp
  have "\<forall>q \<in> set (drop j v). ord k < ord (pkey q)"
  proof
    fix q assume q: "q \<in> set (drop j v)"
    then have "pkey q \<noteq> k" using assms(3) in_set_dropD by (fastforce simp: lookup_None_iff)
    then have "ord (pkey q) \<noteq> ord k" by (simp add: ord_inject)
    then show "ord k < ord (pkey q)" using sorted_keys_split(2) [OF assms(1,2)] q by force
  qed
  then show "sorted_keys ord (take j v @ p # drop j v)"
    using assms sorted_keys_split(1) [OF assms(1,2)] sorted_keys_append [of "take j v" "drop j v"]
    by (auto simp: sorted_keys_append sorted_keys_Cons)
  have "lookup v k' = (case lookup (take j v) k' of None \<Rightarrow> lookup (drop j v) k' | Some q \<Rightarrow> Some q)"
    by (metis v lookup_append)
  then show "lookup (take j v @ p # drop j v) k' = (if k' = k then Some p else lookup v k')"
    using assms(4) sorted_keys_split(3) [OF assms(1,2)] by (auto simp: lookup_append lookup_Cons split: option.split)
qed

lemma sorted_keys_replace:
  assumes "sorted_keys ord (v @ p # w)" "pkey q = pkey p"
  shows "sorted_keys ord (v @ q # w)"
    and "lookup (v @ q # w) k = (if k = pkey p then Some q else lookup (v @ p # w) k)"
proof -
  show "sorted_keys ord (v @ q # w)" using assms by (simp add: sorted_keys_append sorted_keys_Cons)
  have "lookup v (pkey p) = None"
    using assms(1) by (auto simp: sorted_keys_append lookup_None_iff)
  then show "lookup (v @ q # w) k = (if k = pkey p then Some q else lookup (v @ p # w) k)"
    using assms(2) by (auto simp: lookup_append lookup_Cons split: option.split)
qed

lemma sorted_keys_remove:
  assumes "sorted_keys ord (v @ p # w)"
  shows "sorted_keys ord (v @ w)"
    and "lookup (v @ w) k = (if k = pkey p then None else lookup (v @ p # w) k)"
proof -
  show "sorted_keys ord (v @ w)" using assms by (auto simp: sorted_keys_append sorted_keys_Cons)
  have "lookup v (pkey p) = None" "lookup w (pkey p) = None"
    using assms by (auto simp: sorted_keys_append sorted_keys_Cons lookup_None_iff)
  then show "lookup (v @ w) k = (if k = pkey p then None else lookup (v @ p # w) k)"
    by (auto simp: lookup_append lookup_Cons split: option.split)
qed

lemma update_law:
  assumes good: "list_good ord key_ok (v @ old # w) lc" and f: "factory_wf f"
    and key: "pkey old = factory_getKey f" and u: "updatePair A now f old lc st = (r, new, lc', st')"
  shows "list_good ord key_ok (v @ new # w) lc' \<and> insert_spec now f (v @ old # w) r (v @ new # w)"
proof -
  have s: "sorted_keys ord (v @ old # w)" and ok: "pairs_ok key_ok (v @ old # w)"
    and lc: "lc = lc_of (v @ old # w)" using good by (simp_all add: list_good_def)
  have wf: "pair_wf (snd old)" using ok by (simp add: pairs_ok_def)
  have ko: "getKey (snd old) = factory_getKey f" using key by (simp add: pkey_def)
  note spec = updatePair_spec [OF f wf ko u]
  have k: "pkey new = pkey old" using spec(1) key by (simp add: pkey_def)
  note rep = sorted_keys_replace [OF s k]
  have "pairs_ok key_ok (v @ new # w)" using ok spec(2) k by (simp add: pairs_ok_def)
  moreover have "lc' = lc_of (v @ new # w)" using spec(3) lc lc_of_update [of v new w old] by simp
  moreover have "insert_spec now f (v @ old # w) r (v @ new # w)"
  proof -
    have "lookup (v @ old # w) (factory_getKey f) = Some old"
      using sorted_keys_replace(2) [OF s refl, of "pkey old"] key by simp
    then show ?thesis using spec(4-13) rep(2) key unfolding insert_spec_def
      by (cases "ir_pair r") auto
  qed
  ultimately show ?thesis using rep(1) by (simp add: list_good_def)
qed

lemma insert_new_law:
  assumes good: "list_good ord key_ok v lc" and f: "factory_wf f" "key_ok (factory_getKey f)"
    and j: "lower_bound (\<lambda>p. ord (pkey p)) v (ord (factory_getKey f)) = j"
    and absent: "lookup v (factory_getKey f) = None"
    and c: "pair_create A now f st = (Some p, st')"
  shows "list_good ord key_ok (take j v @ p # drop j v) (lc_inc (size_t (bytes (snd p))) lc) \<and>
    insert_spec now f v (inserted p) (take j v @ p # drop j v)"
proof -
  have s: "sorted_keys ord v" and ok: "pairs_ok key_ok v"
    and lc: "lc = lc_of v" using good by (simp_all add: list_good_def)
  from f(1) c obtain a q where p: "p = (a, q)" "getKey q = factory_getKey f" "pair_wf q"
    "getVal q = factory_val f" "getCreated q = factory_created now f" "getExpires q = factory_expires f"
    "factory_tomb f \<longrightarrow> isTombstone q" "q = factory_create now f (raw_memory (factory_bytes f))"
    by (cases rule: pair_create_cases) auto
  have k: "pkey p = factory_getKey f" using p by (simp add: pkey_def)
  note ins = sorted_keys_insert [OF s j absent k]
  have "list_all P (take j v) \<and> list_all P (drop j v)" if "list_all P v" for P
    using that by (metis append_take_drop_id list_all_append)
  then have "pairs_ok key_ok (take j v @ p # drop j v)"
    using ok p(1,3) k f factory_wf_key [OF f(1)] unfolding pairs_ok_def by simp
  moreover have "lc_inc (size_t (bytes (snd p))) lc = lc_of (take j v @ p # drop j v)"
    using lc lc_of_insert [of "take j v" p "drop j v"] by simp
  moreover have "insert_spec now f v (inserted p) (take j v @ p # drop j v)"
    using ins(2) absent p by (simp add: insert_spec_def inserted_def pair_from_def)
  ultimately show ?thesis using ins(1) by (simp add: list_good_def)
qed

lemma remove_law:
  assumes good: "list_good ord key_ok (v @ p # w) lc"
  shows "list_good ord key_ok (v @ w) (lc_dec (size_t (bytes (snd p))) lc) \<and>
    erase_spec (pkey p) (v @ p # w) deleted (v @ w)"
proof -
  have s: "sorted_keys ord (v @ p # w)" and ok: "pairs_ok key_ok (v @ p # w)"
    and lc: "lc = lc_of (v @ p # w)" using good by (simp_all add: list_good_def)
  have "lookup (v @ p # w) (pkey p) = Some p"
    using sorted_keys_replace(2) [OF s refl, of "pkey p"] by simp
  then show ?thesis using sorted_keys_remove [OF s] ok lc lc_of_delete [of v w p]
    by (simp add: list_good_def erase_spec_def pairs_ok_def)
qed

text \<open>What a search says about the contents.\<close>

lemma searched_cases:
  assumes "sorted_keys ord v" "searched (\<lambda>p. ord (pkey p)) v (ord key) = b"
  obtains (found) "bs_found b" "bs_it b < length v" "pkey (v ! bs_it b) = key"
      "v = take (bs_it b) v @ v ! bs_it b # drop (Suc (bs_it b)) v" "lookup v key = Some (v ! bs_it b)"
  | (absent) "\<not> bs_found b" "lookup v key = None"
      "lower_bound (\<lambda>p. ord (pkey p)) v (ord key) = bs_it b"
proof -
  let ?j = "lower_bound (\<lambda>p. ord (pkey p)) v (ord key)"
  have b: "bs_it b = ?j" "bs_found b \<longleftrightarrow> ?j < length v \<and> pkey (v ! ?j) = key"
    using assms(2) by (auto simp: searched_def Let_def ord_inject)
  note lk = lookup_lower_bound [OF assms(1) refl, of key]
  show thesis
  proof (cases "bs_found b")
    case True
    then have j: "bs_it b < length v" "pkey (v ! bs_it b) = key" using b by simp_all
    then have "lookup v key = Some (v ! bs_it b)" using lk b by simp
    then show ?thesis by (rule found [OF True j id_take_nth_drop [OF j(1)]])
  next
    case False
    then have "lookup v key = None" using lk b by simp
    then show ?thesis by (rule absent [OF False _ b(1) [symmetric]])
  qed
qed

end

interpretation ckey: key_order ckey
  by unfold_locales simp

interpretation hord: key_order hkey_ord
  by unfold_locales simp

section \<open>Runs of operations\<close>

datatype list_op = Insert PairFactory | Erase str

fun op_key :: "list_op \<Rightarrow> str" where
  "op_key (Insert f) = factory_getKey f"
| "op_key (Erase k) = k"

fun op_ok :: "(str \<Rightarrow> bool) \<Rightarrow> list_op \<Rightarrow> bool" where
  "op_ok key_ok (Insert f) \<longleftrightarrow> factory_wf f \<and> key_ok (factory_getKey f)"
| "op_ok key_ok (Erase k) \<longleftrightarrow> k \<noteq> [] \<and> key_ok k"

fun l_step :: "'l list_ops \<Rightarrow> u64 \<Rightarrow> list_op \<Rightarrow> 'l \<Rightarrow> InsertResult \<times> 'l" where
  "l_step L now (Insert f) l = l_insertF L now f l"
| "l_step L now (Erase k) l = l_erase L now k l"

text \<open>A sequence of operations, each with the time at which it runs.\<close>

fun l_run :: "'l list_ops \<Rightarrow> (u64 \<times> list_op) list \<Rightarrow> 'l \<Rightarrow> InsertResult list \<times> 'l" where
  "l_run L [] l = ([], l)"
| "l_run L ((now, op) # ops) l =
     (let (r, l) = l_step L now op l; (rs, l) = l_run L ops l in (r # rs, l))"

text \<open>
  The specification of a run of full insertions (\<open>Normal\<close> with an explicit creation time):
  a register per key that keeps the newest write, the later one on a tie.
\<close>

record reg =
  reg_created :: u64
  reg_val :: str
  reg_expires :: u32

definition reg_of :: "pptr \<Rightarrow> reg" where
  "reg_of p = \<lparr>reg_created = getCreated (snd p), reg_val = getVal (snd p), reg_expires = getExpires (snd p)\<rparr>"

definition reg_write :: "reg \<Rightarrow> reg option \<Rightarrow> reg option" where
  "reg_write w r = (case r of None \<Rightarrow> Some w
                    | Some o1 \<Rightarrow> if reg_created o1 \<le> reg_created w then Some w else Some o1)"

fun explicit_write :: "list_op \<Rightarrow> bool" where
  "explicit_write (Insert (Normal k v e c)) \<longleftrightarrow> c \<noteq> 0"
| "explicit_write _ \<longleftrightarrow> False"

fun write_of :: "list_op \<Rightarrow> reg" where
  "write_of (Insert (Normal k v e c)) = \<lparr>reg_created = to64 c, reg_val = v, reg_expires = e\<rparr>"
| "write_of _ = \<lparr>reg_created = 0, reg_val = [], reg_expires = 0\<rparr>"

definition reg_run :: "str \<Rightarrow> (u64 \<times> list_op) list \<Rightarrow> reg option \<Rightarrow> reg option" where
  "reg_run k ops r = fold (\<lambda>(now, op). if op_key op = k then reg_write (write_of op) else id) ops r"

lemma insert_spec_write:
  assumes "insert_spec now f v r v'" "explicit_write (Insert f)" "ir_ok r"
  shows "map_option reg_of (lookup v' k) =
    (if factory_getKey f = k then reg_write (write_of (Insert f)) (map_option reg_of (lookup v k))
     else map_option reg_of (lookup v k))"
proof (cases "factory_getKey f = k")
  case False
  then show ?thesis using assms(1) by (auto simp: insert_spec_def)
next
  case True
  obtain val e c where f: "f = Normal k val e c" and c: "c \<noteq> 0"
    using True assms(2) by (cases f) auto
  have created: "factory_created now f = to64 c" "prepareCreateTimeSimulate (factory_getCreated f) = to64 c"
    using f c by (simp_all add: prepareCreateTime_def prepareCreateTimeSimulate_def)
  show ?thesis
  proof (cases "ir_pair r")
    case None
    then have st: "ir_status r = SKIP_INSERTED"
      using assms(1,3) by (cases "ir_status r") (simp_all add: insert_spec_def)
    then obtain old where old: "lookup v k = Some old" "\<not> getCreated (snd old) \<le> to64 c"
      using assms(1) True created by (auto simp: insert_spec_def isValidForReplace_def isValidForReplace64_def)
    moreover have "lookup v' k = lookup v k" using assms(1) None True by (auto simp: insert_spec_def)
    ultimately show ?thesis using True f by (simp add: reg_write_def reg_of_def)
  next
    case (Some p)
    then have p: "lookup v' k = Some p" "reg_of p = write_of (Insert f)"
      using assms(1) True f created by (auto simp: insert_spec_def factory_full_def reg_of_def)
    have "getCreated (snd old) \<le> to64 c" if "lookup v k = Some old" for old
      using assms(1) that Some True created
      by (auto simp: insert_spec_def isValidForReplace_def isValidForReplace64_def)
    then show ?thesis using p True f by (auto simp: reg_write_def reg_of_def split: option.split)
  qed
qed

text \<open>The part of the contract that readers rely on; the disk and multi lists keep it too.\<close>

locale list_source =
  fixes L :: "'l list_ops" and inv :: "'l \<Rightarrow> bool" and key_ok :: "str \<Rightarrow> bool"
    and ord :: "str \<Rightarrow> int list"
  assumes list_sorted: "inv l \<Longrightarrow> sorted_keys ord (l_list L l)"
    and list_ok: "inv l \<Longrightarrow> pairs_ok key_ok (l_list L l)"
    and getPair_lookup: "inv l \<Longrightarrow> k \<noteq> [] \<Longrightarrow> key_ok k \<Longrightarrow> l_getPair L l k = lookup (l_list L l) k"
    and find_dropWhile: "inv l \<Longrightarrow> k \<noteq> [] \<Longrightarrow> key_ok k \<Longrightarrow>
      l_find L l k = dropWhile (\<lambda>p. ord (pkey p) < ord k) (l_list L l)"
begin

text \<open>The first result of \<open>find\<close> is the pair itself when the key is present.\<close>

lemma find_hd:
  assumes "inv l" "k \<noteq> []" "key_ok k" "l_getPair L l k = Some p" "\<And>a b. ord a = ord b \<longleftrightarrow> a = b"
  shows "\<exists>v. l_find L l k = p # v"
proof -
  have "key_order ord" using assms(5) by unfold_locales
  note ko = key_order.lookup_lower_bound [OF this] key_order.sorted_keys_split [OF this]
  let ?v = "l_list L l"
  have s: "sorted_keys ord ?v" using list_sorted assms(1) by simp
  have "lookup ?v k = Some p" using getPair_lookup assms by simp
  then obtain j where j: "lower_bound (\<lambda>p. ord (pkey p)) ?v (ord k) = j" "j < length ?v" "p = ?v ! j"
    using ko(1) [OF s refl, of k] by (auto split: if_splits)
  have "l_find L l k = drop j ?v"
    using find_dropWhile [OF assms(1-3)] j(1) by (metis lower_bound_def dropWhile_eq_drop)
  then show ?thesis using j by (metis Cons_nth_drop_Suc)
qed

end

locale memlist = list_source L inv key_ok ord
  for L :: "'l list_ops" and inv key_ok ord +
  assumes list_counters: "inv l \<Longrightarrow> lc_of (l_list L l) = \<lparr>lc_count = l_size L l, lc_bytes = l_bytes L l\<rparr>"
    and insert_law: "inv l \<Longrightarrow> factory_wf f \<Longrightarrow> key_ok (factory_getKey f) \<Longrightarrow>
      l_insertF L now f l = (r, l') \<Longrightarrow> inv l' \<and> insert_spec now f (l_list L l) r (l_list L l')"
    and insert_invalid: "inv l \<Longrightarrow> \<not> factory_valid f \<Longrightarrow> l_insertF L now f l = (errorInvalid, l)"
    and erase_law: "inv l \<Longrightarrow> k \<noteq> [] \<Longrightarrow> key_ok k \<Longrightarrow>
      l_erase L now k l = (r, l') \<Longrightarrow> inv l' \<and> erase_spec k (l_list L l) r (l_list L l')"
    and clear_law: "inv l \<Longrightarrow> inv (l_clear L l) \<and> l_list L (l_clear L l) = []"
begin

lemma step_inv: "inv l \<Longrightarrow> op_ok key_ok op \<Longrightarrow> l_step L now op l = (r, l') \<Longrightarrow> inv l'"
  by (cases op) (use insert_law [of l _ now r l'] erase_law [of l _ now r l'] in simp_all, blast+)

lemma run_inv:
  "inv l \<Longrightarrow> list_all (\<lambda>(now, op). op_ok key_ok op) ops \<Longrightarrow> inv (snd (l_run L ops l))"
proof (induction ops arbitrary: l)
  case (Cons a ops)
  obtain now op where a: "a = (now, op)" by fastforce
  obtain r l' where s: "l_step L now op l = (r, l')" by fastforce
  then have "inv l'" using step_inv Cons.prems a by fastforce
  then show ?case using Cons.IH [of l'] Cons.prems a s
    by (cases "l_run L ops l'") (simp add: Let_def)
qed simp

lemma step_frame:
  assumes "inv l" "op_ok key_ok op" "l_step L now op l = (r, l')" "k \<noteq> op_key op"
  shows "lookup (l_list L l') k = lookup (l_list L l) k"
proof (cases op)
  case (Insert f)
  then show ?thesis using insert_law [of l f now r l'] assms by (simp add: insert_spec_def)
next
  case (Erase k')
  then show ?thesis using erase_law [of l k' now r l'] assms by (simp add: erase_spec_def)
qed

lemma run_frame:
  "inv l \<Longrightarrow> list_all (\<lambda>(now, op). op_ok key_ok op \<and> op_key op \<noteq> k) ops \<Longrightarrow>
     lookup (l_list L (snd (l_run L ops l))) k = lookup (l_list L l) k"
proof (induction ops arbitrary: l)
  case (Cons a ops)
  obtain now op where a: "a = (now, op)" by fastforce
  obtain r l' where s: "l_step L now op l = (r, l')" by fastforce
  then have "inv l'" "lookup (l_list L l') k = lookup (l_list L l) k"
    using step_inv step_frame Cons.prems a by fastforce+
  then show ?case using Cons.IH [of l'] Cons.prems a s
    by (cases "l_run L ops l'") (simp add: Let_def)
qed simp

text \<open>A list that does not run out of memory implements the registers.\<close>

lemma run_registers:
  "inv l \<Longrightarrow> list_all (\<lambda>(now, op). op_ok key_ok op \<and> explicit_write op) ops \<Longrightarrow>
   l_run L ops l = (rs, l') \<Longrightarrow> list_all ir_ok rs \<Longrightarrow>
   map_option reg_of (lookup (l_list L l') k) = reg_run k ops (map_option reg_of (lookup (l_list L l) k))"
proof (induction ops arbitrary: l rs)
  case Nil
  then show ?case by (simp add: reg_run_def)
next
  case (Cons a ops)
  obtain now op where a: "a = (now, op)" by fastforce
  obtain f where op: "op = Insert f" using Cons.prems(2) a by (cases op) auto
  obtain r l1 where s: "l_insertF L now f l = (r, l1)" by fastforce
  obtain rs1 l2 where s2: "l_run L ops l1 = (rs1, l2)" by fastforce
  have rs: "rs = r # rs1" "l2 = l'" using Cons.prems(3) a op s s2 by (simp_all add: Let_def)
  have f: "factory_wf f" "key_ok (factory_getKey f)" "explicit_write (Insert f)"
    using Cons.prems(2) a op by simp_all
  note law = insert_law [OF Cons.prems(1) f(1,2) s]
  have "map_option reg_of (lookup (l_list L l') k) =
      reg_run k ops (map_option reg_of (lookup (l_list L l1) k))"
    using Cons.IH [of l1 rs1] law Cons.prems(2,4) s2 rs a by simp
  also have "\<dots> = reg_run k (a # ops) (map_option reg_of (lookup (l_list L l) k))"
    using insert_spec_write [OF conjunct2 [OF law] f(3), of k] Cons.prems(4) rs a op
    by (simp add: reg_run_def)
  finally show ?case .
qed

end

end
