(* ===== verification/MultiIterator.thy ===== *)
theory MultiIterator
  imports Memlist
begin

text \<open>
  \<^verbatim>\<open>hm4/multi/iteratorpair.h\<close>, \<^verbatim>\<open>hm4/multi/dualiterator.h\<close> and
  \<^verbatim>\<open>hm4/multi/collectioniterator.h\<close>: iteration over several sorted lists at once.  A pair
  of iterators into a list (\<open>cur\<close>, \<open>end\<close>) is the sequence that is left.
\<close>

section \<open>iteratorpair.h\<close>

definition getIterator :: "'l list_ops \<Rightarrow> 'l \<Rightarrow> str \<Rightarrow> pptr list" where
  "getIterator L l key = (if key = [] then l_list L l else l_find L l key)"

definition getIterator_tag :: "'l list_ops \<Rightarrow> 'l \<Rightarrow> bool \<Rightarrow> pptr list" where
  "getIterator_tag L l B = (if B then l_list L l else [])"

definition compNonEmpty :: "bool \<Rightarrow> pptr \<Rightarrow> pptr \<Rightarrow> int" where
  "compNonEmpty compare_time a b =
     (if compare_time then cmpWithTime False (snd a) (snd b) else cmp_pair (snd a) (snd b))"

definition itp_comp :: "bool \<Rightarrow> pptr list \<Rightarrow> pptr list \<Rightarrow> int" where
  "itp_comp compare_time a b =
     (if a = [] \<and> b = [] then 0
      else if a = [] then 1
      else if b = [] then - 1
      else compNonEmpty compare_time (hd a) (hd b))"

section \<open>dualiterator.h\<close>

record DualIterator =
  di_first :: "pptr list"
  di_second :: "pptr list"
  di_hit :: "bool \<times> bool"
  di_pair :: "pptr option"

definition updateDereference :: "pptr list \<Rightarrow> pptr list \<Rightarrow> DualIterator" where
  "updateDereference t1 t2 =
     (let S = (\<lambda>f s p. \<lparr>di_first = t1, di_second = t2, di_hit = (f, s), di_pair = p\<rparr>) in
      if t1 \<noteq> [] \<and> t2 \<noteq> [] then
        (let r = cmp_pair (snd (hd t1)) (snd (hd t2)) in
         if r < 0 then S True False (Some (hd t1))
         else if r > 0 then S False True (Some (hd t2))
         else
           (let rt = - cmpTime (snd (hd t1)) (snd (hd t2)) in
            if rt \<le> 0 then S True True (Some (hd t1)) else S True True (Some (hd t2))))
      else if t1 \<noteq> [] then S True False (Some (hd t1))
      else if t2 \<noteq> [] then S False True (Some (hd t2))
      else S False False None)"

definition di_next :: "DualIterator \<Rightarrow> DualIterator" where
  "di_next it =
     updateDereference
       (if fst (di_hit it) then tl (di_first it) else di_first it)
       (if snd (di_hit it) then tl (di_second it) else di_second it)"

definition di_at_end :: "DualIterator \<Rightarrow> bool" where
  "di_at_end it \<longleftrightarrow> di_first it = [] \<and> di_second it = []"

lemma di_hit_cases:
  assumes "t1 \<noteq> [] \<or> t2 \<noteq> []"
  shows "fst (di_hit (updateDereference t1 t2)) \<longrightarrow> t1 \<noteq> []"
    "snd (di_hit (updateDereference t1 t2)) \<longrightarrow> t2 \<noteq> []"
    "fst (di_hit (updateDereference t1 t2)) \<or> snd (di_hit (updateDereference t1 t2))"
  using assms by (simp_all add: updateDereference_def Let_def)

lemma updateDereference_fields [simp]:
  "di_first (updateDereference t1 t2) = t1" "di_second (updateDereference t1 t2) = t2"
  by (simp_all add: updateDereference_def Let_def)

text \<open>The loop \<open>for(auto it = begin; it != end; ++it)\<close> and the pairs it visits.\<close>

function di_run :: "pptr list \<Rightarrow> pptr list \<Rightarrow> pptr list" where
  "di_run t1 t2 =
     (let it = updateDereference t1 t2; it' = di_next it in
      if di_at_end it then []
      else the (di_pair it) # di_run (di_first it') (di_second it'))"
  by pat_completeness auto
termination
proof (relation "measure (\<lambda>(t1, t2). length t1 + length t2)")
  show "wf (measure (\<lambda>(t1, t2). length t1 + length t2))" by simp
  fix t1 t2 :: "pptr list" and it it'
  assume it: "it = updateDereference t1 t2" "it' = di_next it" and e: "\<not> di_at_end it"
  then have "t1 \<noteq> [] \<or> t2 \<noteq> []" by (simp add: di_at_end_def)
  note hit = di_hit_cases [OF this, folded it(1)]
  have "di_first it' = (if fst (di_hit it) then tl t1 else t1)"
    "di_second it' = (if snd (di_hit it) then tl t2 else t2)"
    using it by (simp_all add: di_next_def)
  then show "((di_first it', di_second it'), t1, t2) \<in> measure (\<lambda>(t1, t2). length t1 + length t2)"
    using hit by (cases t1; cases t2; cases "fst (di_hit it)"; cases "snd (di_hit it)") simp_all
qed

declare di_run.simps [simp del]

section \<open>collectioniterator.h\<close>

text \<open>
  \<open>itp_\<close> is a heap of the iterators that are not at their end.  \<open>std::make_heap\<close>,
  \<open>pop_heap\<close> and \<open>push_heap\<close> keep at the front an element that no other precedes; which one,
  when several are equivalent, is up to the library, so the choice is the parameter \<open>front\<close>.
\<close>

definition heap_comp :: "pptr list \<Rightarrow> pptr list \<Rightarrow> bool" where
  "heap_comp a b \<longleftrightarrow> itp_comp True a b > 0"

text \<open>The iterators of a heap: not at their end, over sorted lists of pairs with keys.\<close>

definition ci_wf :: "pptr list list \<Rightarrow> bool" where
  "ci_wf itp \<longleftrightarrow> (\<forall>a \<in> set itp. a \<noteq> [] \<and> sorted_keys ckey a \<and> (\<forall>p \<in> set a. pkey p \<noteq> []))"

definition is_front :: "(pptr list list \<Rightarrow> nat) \<Rightarrow> bool" where
  "is_front front \<longleftrightarrow>
     (\<forall>itp. itp \<noteq> [] \<and> ci_wf itp \<longrightarrow> front itp < length itp \<and> (\<forall>a \<in> set itp. \<not> heap_comp (itp ! front itp) a))"

definition ci_create :: "pptr list list \<Rightarrow> pptr list list" where
  "ci_create stores = filter (\<lambda>itp. itp \<noteq> []) stores"

definition ci_deref :: "(pptr list list \<Rightarrow> nat) \<Rightarrow> pptr list list \<Rightarrow> pptr" where
  "ci_deref front itp = hd (itp ! front itp)"

text \<open>\<open>pop_heap\<close>, \<open>++ip\<close>, then \<open>push_heap\<close> or \<open>pop_back\<close>.\<close>

definition ci_pop :: "(pptr list list \<Rightarrow> nat) \<Rightarrow> pptr list list \<Rightarrow> pptr list list" where
  "ci_pop front itp =
     (let i = front itp; ip = tl (itp ! i)
      in if ip \<noteq> [] then itp[i := ip] else take i itp @ drop (i + 1) itp)"

text \<open>The loop of \<open>increment_\<close>; \<open>fuel\<close> bounds it by the number of pairs that are left.\<close>

fun ci_increment :: "(pptr list list \<Rightarrow> nat) \<Rightarrow> nat \<Rightarrow> pptr list list \<Rightarrow> pptr list list option" where
  "ci_increment front 0 itp = None"
| "ci_increment front (Suc fuel) itp =
     (if itp = [] then Some itp
      else
        (let key = pkey (ci_deref front itp);
             itp = ci_pop front itp
         in if itp = [] then Some itp
            else if key \<noteq> pkey (ci_deref front itp) then Some itp
            else ci_increment front fuel itp))"

definition ci_size :: "pptr list list \<Rightarrow> nat" where
  "ci_size itp = length (concat itp)"

fun ci_run :: "(pptr list list \<Rightarrow> nat) \<Rightarrow> nat \<Rightarrow> pptr list list \<Rightarrow> pptr list option" where
  "ci_run front 0 itp = None"
| "ci_run front (Suc fuel) itp =
     (if itp = [] then Some []
      else
        (case ci_increment front (Suc (ci_size itp)) itp of
           None \<Rightarrow> None
         | Some itp' \<Rightarrow> map_option ((#) (ci_deref front itp)) (ci_run front fuel itp')))"

section \<open>The dual iterator merges\<close>

lemma cmp_pair_ckey:
  "pkey b \<noteq> [] \<Longrightarrow> cmp_pair (snd a) (snd b) = sgn3 (ckey (pkey a)) (ckey (pkey b))"
  by (simp add: cmp_pair_def cmp_ckey pkey_def)

lemma di_run_Nil_Nil [simp]: "di_run [] [] = []"
  by (simp add: di_run.simps updateDereference_def di_at_end_def)

lemma di_run_Nil1: "di_run [] t2 = t2"
  by (induction t2)
     (simp, subst di_run.simps, simp add: updateDereference_def di_at_end_def di_next_def Let_def)

lemma di_run_step:
  assumes "t1 \<noteq> [] \<or> t2 \<noteq> []" "updateDereference t1 t2 = it" "di_hit it = (f, s)" "di_pair it = Some p"
  shows "di_run t1 t2 = p # di_run (if f then tl t1 else t1) (if s then tl t2 else t2)"
proof -
  have t: "di_first it = t1" "di_second it = t2" using assms(2) by auto
  show ?thesis
    by (subst di_run.simps) (use assms t in \<open>auto simp: di_at_end_def di_next_def Let_def\<close>)
qed

lemma di_run_Nil2: "di_run t1 [] = t1"
proof (induction t1)
  case (Cons p t1)
  have "di_run (p # t1) [] = p # di_run t1 []"
    using di_run_step [of "p # t1" "[]" _ True False p] by (simp add: updateDereference_def)
  then show ?case using Cons by simp
qed simp

lemma di_run_Cons:
  assumes "pkey q \<noteq> []"
  shows "di_run (p # t1) (q # t2) =
    (if ckey (pkey p) < ckey (pkey q) then p # di_run t1 (q # t2)
     else if ckey (pkey q) < ckey (pkey p) then q # di_run (p # t1) t2
     else (if getCreated (snd q) \<le> getCreated (snd p) then p else q) # di_run t1 t2)"
proof -
  let ?it = "updateDereference (p # t1) (q # t2)"
  have c: "cmp_pair (snd p) (snd q) = sgn3 (ckey (pkey p)) (ckey (pkey q))"
    using assms by (rule cmp_pair_ckey)
  have t: "cmpTime (snd p) (snd q) = sgn3 (getCreated (snd p)) (getCreated (snd q))"
    by (simp add: cmpTime_def comparator_comp_def sgn3_def)
  consider "ckey (pkey p) < ckey (pkey q)" | "ckey (pkey q) < ckey (pkey p)" | "ckey (pkey p) = ckey (pkey q)"
    by fastforce
  then show ?thesis
  proof cases
    case 1
    then have "di_hit ?it = (True, False)" "di_pair ?it = Some p"
      by (simp_all add: updateDereference_def c)
    then show ?thesis using 1 di_run_step [of "p # t1" "q # t2" ?it True False p] by simp
  next
    case 2
    then have "di_hit ?it = (False, True)" "di_pair ?it = Some q"
      using less_not_sym [OF 2] by (simp_all add: updateDereference_def c)
    then show ?thesis using 2 less_not_sym [OF 2] di_run_step [of "p # t1" "q # t2" ?it False True q] by auto
  next
    case 3
    then have "di_hit ?it = (True, True)"
      "di_pair ?it = Some (if getCreated (snd q) \<le> getCreated (snd p) then p else q)"
      by (simp_all add: updateDereference_def c t)
    then show ?thesis using 3 di_run_step [of "p # t1" "q # t2" ?it True True] by simp
  qed
qed

text \<open>
  The newest pair of two, the first on a tie: what \<open>getNewestPair\<close> gives when it is asked
  for the second list with the pair of the first as the best so far.
\<close>

lemma getNewestPair_swap:
  "getNewestPair (Some q) (Some p) = Some (if getCreated (snd q) \<le> getCreated (snd p) then p else q)"
  by (auto simp: getNewestPair_Some)

lemma sorted_keys_lookup_below:
  assumes "sorted_keys ckey v" "\<forall>p \<in> set v. ckey k < ckey (pkey p)"
  shows "lookup v k = None"
  using assms(2) by (auto simp: lookup_None_iff)

lemma di_run_set: "\<forall>p \<in> set t1 \<union> set t2. pkey p \<noteq> [] \<Longrightarrow> p \<in> set (di_run t1 t2) \<Longrightarrow> p \<in> set t1 \<union> set t2"
proof (induction "length t1 + length t2" arbitrary: t1 t2 rule: less_induct)
  case less
  show ?case
  proof (cases "t1 = [] \<or> t2 = []")
    case True
    then show ?thesis using less.prems by (auto simp: di_run_Nil1 di_run_Nil2)
  next
    case False
    then obtain a x b y where t: "t1 = a # x" "t2 = b # y" by (meson neq_Nil_conv)
    have "pkey b \<noteq> []" using less.prems t by simp
    then show ?thesis
      using less.prems(2) less.hyps [of x t2] less.hyps [of t1 y] less.hyps [of x y] less.prems(1)
      by (auto simp: t di_run_Cons split: if_splits)
  qed
qed

text \<open>
  The merge of two sorted lists is sorted, and a key has the newest of its two pairs.
\<close>

lemma di_run_merge:
  assumes "sorted_keys ckey t1" "sorted_keys ckey t2" "\<forall>p \<in> set t1 \<union> set t2. pkey p \<noteq> []"
  shows "sorted_keys ckey (di_run t1 t2) \<and>
    (\<forall>k. lookup (di_run t1 t2) k = getNewestPair (lookup t2 k) (lookup t1 k))"
  using assms
proof (induction "length t1 + length t2" arbitrary: t1 t2 rule: less_induct)
  case less
  show ?case
  proof (cases "t1 = [] \<or> t2 = []")
    case True
    then show ?thesis using less.prems by (auto simp: di_run_Nil1 di_run_Nil2)
  next
    case False
    then obtain p x q y where t: "t1 = p # x" "t2 = q # y" by (meson neq_Nil_conv)
    have s: "sorted_keys ckey x" "sorted_keys ckey y"
      "\<forall>r \<in> set x. ckey (pkey p) < ckey (pkey r)" "\<forall>r \<in> set y. ckey (pkey q) < ckey (pkey r)"
      using less.prems(1,2) t by (simp_all add: ckey.sorted_keys_Cons)
    have q: "pkey q \<noteq> []" using less.prems(3) t by simp
    have nx: "lookup x (pkey p) = None" and ny: "lookup y (pkey q) = None"
      using s by (auto intro!: sorted_keys_lookup_below)
    consider (lt) "ckey (pkey p) < ckey (pkey q)" | (gt) "ckey (pkey q) < ckey (pkey p)"
      | (eq) "pkey p = pkey q" using linorder_cases [of "ckey (pkey p)" "ckey (pkey q)"] by auto
    then show ?thesis
    proof cases
      case lt
      have IH: "sorted_keys ckey (di_run x t2)"
        "\<And>k. lookup (di_run x t2) k = getNewestPair (lookup t2 k) (lookup x k)"
        using less.hyps [of x t2] less.prems s t by auto
      have "\<forall>r \<in> set (di_run x t2). ckey (pkey p) < ckey (pkey r)"
        using di_run_set [of x t2] less.prems(3) s lt t by fastforce
      moreover have "lookup t2 (pkey p) = None" using lt s t by (auto simp: lookup_None_iff)
      ultimately show ?thesis using IH lt nx
        by (auto simp: t(1) di_run_Cons [OF q] t(2) ckey.sorted_keys_Cons lookup_Cons)
    next
      case gt
      have IH: "sorted_keys ckey (di_run t1 y)"
        "\<And>k. lookup (di_run t1 y) k = getNewestPair (lookup y k) (lookup t1 k)"
        using less.hyps [of t1 y] less.prems s t by auto
      have "\<forall>r \<in> set (di_run t1 y). ckey (pkey q) < ckey (pkey r)"
        using di_run_set [of t1 y] less.prems(3) s gt t by fastforce
      moreover have "lookup t1 (pkey q) = None" using gt s t by (auto simp: lookup_None_iff)
      ultimately show ?thesis using IH gt ny
        by (auto simp: t(1) di_run_Cons [OF q] t(2) ckey.sorted_keys_Cons lookup_Cons)
    next
      case eq
      have IH: "sorted_keys ckey (di_run x y)"
        "\<And>k. lookup (di_run x y) k = getNewestPair (lookup y k) (lookup x k)"
        using less.hyps [of x y] less.prems s t by auto
      have "\<forall>r \<in> set (di_run x y). ckey (pkey p) < ckey (pkey r)"
        using di_run_set [of x y] less.prems(3) s eq t by fastforce
      then show ?thesis using IH eq
        by (auto simp: t di_run_Cons [OF q] ckey.sorted_keys_Cons lookup_Cons getNewestPair_swap)
    qed
  qed
qed

section \<open>The collection iterator merges\<close>

lemma concat_split: "i < length itp \<Longrightarrow> concat itp = concat (take i itp) @ itp ! i @ concat (drop (Suc i) itp)"
  by (subst id_take_nth_drop [of i itp]) simp_all

lemma concat_ci_pop:
  assumes "front itp < length itp"
  shows "concat (ci_pop front itp) =
    concat (take (front itp) itp) @ tl (itp ! front itp) @ concat (drop (Suc (front itp)) itp)"
  using assms by (simp add: ci_pop_def Let_def upd_conv_take_nth_drop)

text \<open>The element at the front: its key is least, and its pair the newest with that key.\<close>

lemma ci_deref_least:
  assumes front: "is_front front" and wf: "ci_wf itp" and ne: "itp \<noteq> []"
    and q: "q \<in> set (concat itp)"
  shows "ckey (pkey (ci_deref front itp)) \<le> ckey (pkey q)"
    and "pkey q = pkey (ci_deref front itp) \<Longrightarrow> getCreated (snd q) \<le> getCreated (snd (ci_deref front itp))"
proof -
  let ?f = "itp ! front itp" and ?p = "ci_deref front itp"
  have fi: "front itp < length itp" "\<forall>a \<in> set itp. \<not> heap_comp ?f a"
    using front ne wf by (simp_all add: is_front_def)
  obtain a where a: "a \<in> set itp" "q \<in> set a" using q by auto
  have f: "?f \<in> set itp" using fi(1) by simp
  have na: "a \<noteq> []" "?f \<noteq> []" "sorted_keys ckey a" "pkey (hd a) \<noteq> []" using wf a(1) f by (auto simp: ci_wf_def)
  have "cmpWithTime False (snd ?p) (snd (hd a)) \<le> 0"
    using fi(2) a(1) na(1,2) by (auto simp: heap_comp_def itp_comp_def compNonEmpty_def ci_deref_def not_less)
  then have hd: "ckey (pkey ?p) < ckey (pkey (hd a)) \<or>
      pkey ?p = pkey (hd a) \<and> getCreated (snd (hd a)) \<le> getCreated (snd ?p)"
    using cmp_pair_ckey [OF na(4), of ?p]
    by (auto simp: cmpWithTime_def Let_def cmpTime_def comparator_comp_def not_less
        order.order_iff_strict [of "ckey a" "ckey b" for a b] split: if_splits)
  have tl: "q = hd a \<or> ckey (pkey (hd a)) < ckey (pkey q)"
    using na(1,3) a(2) by (cases a) (auto simp: ckey.sorted_keys_Cons)
  show "ckey (pkey ?p) \<le> ckey (pkey q)" using hd tl by force
  show "getCreated (snd q) \<le> getCreated (snd ?p)" if "pkey q = pkey ?p"
    using hd tl that by force
qed

lemma ci_pop_wf:
  assumes "is_front front" "ci_wf itp" "itp \<noteq> []"
  shows "ci_wf (ci_pop front itp)" "Suc (ci_size (ci_pop front itp)) = ci_size itp"
    "set (concat itp) = insert (ci_deref front itp) (set (concat (ci_pop front itp)))"
proof -
  let ?i = "front itp"
  have i: "?i < length itp" using assms by (simp add: is_front_def)
  then have f: "itp ! ?i \<in> set itp" by simp
  then have ne: "itp ! ?i \<noteq> []" "sorted_keys ckey (itp ! ?i)" "\<forall>p \<in> set (itp ! ?i). pkey p \<noteq> []"
    using assms(2) by (auto simp: ci_wf_def)
  then obtain h t where ht: "itp ! ?i = h # t" by (meson neq_Nil_conv)
  have "set (ci_pop front itp) \<subseteq> set itp \<union> (if t = [] then {} else {t})"
    using i ht set_update_subset_insert [of itp ?i t]
    by (auto simp: ci_pop_def Let_def dest: in_set_takeD in_set_dropD)
  moreover have "t \<noteq> [] \<longrightarrow> sorted_keys ckey t \<and> (\<forall>p \<in> set t. pkey p \<noteq> [])"
    using ne ht by (simp add: ckey.sorted_keys_Cons)
  ultimately show "ci_wf (ci_pop front itp)"
    using assms(2) by (fastforce simp: ci_wf_def split: if_splits)
  show "Suc (ci_size (ci_pop front itp)) = ci_size itp"
    unfolding ci_size_def concat_ci_pop [of front, OF i] using concat_split [OF i] by (simp add: ht del: length_concat)
  show "set (concat itp) = insert (ci_deref front itp) (set (concat (ci_pop front itp)))"
    unfolding concat_ci_pop [of front, OF i] by (subst concat_split [OF i]) (auto simp: ht ci_deref_def)
qed

text \<open>
  \<open>increment_\<close> ends within the fuel and drops exactly the pairs with the current key.
\<close>

lemma ci_increment_spec:
  assumes "is_front front" "ci_wf itp" "itp \<noteq> []" "ci_size itp < fuel"
  shows "\<exists>itp'. ci_increment front fuel itp = Some itp' \<and> ci_wf itp' \<and> ci_size itp' < ci_size itp \<and>
    set (concat itp') = {q \<in> set (concat itp). pkey q \<noteq> pkey (ci_deref front itp)}"
  using assms(2-4)
proof (induction fuel arbitrary: itp)
  case (Suc fuel)
  let ?k = "pkey (ci_deref front itp)" and ?n = "ci_pop front itp"
  note pop = ci_pop_wf [OF assms(1) Suc.prems(1,2)]
  show ?case
  proof (cases "?n = []")
    case True
    then show ?thesis using Suc.prems pop by (auto simp: ci_wf_def Let_def)
  next
    case n: False
    show ?thesis
    proof (cases "pkey (ci_deref front ?n) = ?k")
      case True
      obtain itp' where "ci_increment front fuel ?n = Some itp'" "ci_wf itp'"
        "ci_size itp' < ci_size ?n" "set (concat itp') = {q \<in> set (concat ?n). pkey q \<noteq> ?k}"
        using Suc.IH [OF pop(1) n] Suc.prems(3) pop(2) True by auto
      moreover from this have "set (concat itp') = {q \<in> set (concat itp). pkey q \<noteq> ?k}"
        using pop(3) by auto
      ultimately show ?thesis using Suc.prems(2) n True pop(2) by (simp add: Let_def)
    next
      case False
      have d: "ci_deref front ?n \<in> set (concat itp)"
      proof -
        have "front ?n < length ?n" using assms(1) n pop(1) by (simp add: is_front_def)
        then have "?n ! front ?n \<in> set ?n" "?n ! front ?n \<noteq> []"
          using pop(1) by (simp_all add: ci_wf_def)
        then have "ci_deref front ?n \<in> set (concat ?n)" by (force simp: ci_deref_def)
        then show ?thesis using pop(3) by simp
      qed
      have "pkey q \<noteq> ?k" if "q \<in> set (concat ?n)" for q
      proof
        assume q: "pkey q = ?k"
        have "ckey (pkey (ci_deref front ?n)) \<le> ckey ?k"
          using ci_deref_least(1) [OF assms(1) pop(1) n that] q by simp
        moreover have "ckey ?k \<le> ckey (pkey (ci_deref front ?n))"
          using ci_deref_least(1) [OF assms(1) Suc.prems(1,2) d] .
        ultimately show False using False by simp
      qed
      then have "set (concat ?n) = {q \<in> set (concat itp). pkey q \<noteq> ?k}"
        using pop(3) by auto
      then show ?thesis using Suc.prems(2) n False pop(1,2)
        by (intro exI [of _ ?n]) (simp add: Let_def del: set_concat)
    qed
  qed
qed simp

text \<open>
  The whole iteration ends; it is sorted, visits every key once, and visits for it a pair that
  is the newest of all lists.
\<close>

lemma ci_run_merge:
  assumes "is_front front" "ci_wf itp" "ci_size itp < fuel"
  shows "\<exists>out. ci_run front fuel itp = Some out \<and> sorted_keys ckey out \<and>
    set out \<subseteq> set (concat itp) \<and> pkey ` set out = pkey ` set (concat itp) \<and>
    (\<forall>p \<in> set out. \<forall>q \<in> set (concat itp). pkey q = pkey p \<longrightarrow> getCreated (snd q) \<le> getCreated (snd p))"
  using assms(2,3)
proof (induction fuel arbitrary: itp)
  case (Suc fuel)
  show ?case
  proof (cases "itp = []")
    case True
    then show ?thesis by simp
  next
    case ne: False
    let ?p = "ci_deref front itp"
    obtain itp' where inc: "ci_increment front (Suc (ci_size itp)) itp = Some itp'" "ci_wf itp'"
      "ci_size itp' < ci_size itp" "set (concat itp') = {q \<in> set (concat itp). pkey q \<noteq> pkey ?p}"
      using ci_increment_spec [OF assms(1) Suc.prems(1) ne, of "Suc (ci_size itp)"] by auto
    obtain out where out: "ci_run front fuel itp' = Some out" "sorted_keys ckey out"
      "set out \<subseteq> set (concat itp')" "pkey ` set out = pkey ` set (concat itp')"
      "\<forall>p \<in> set out. \<forall>q \<in> set (concat itp'). pkey q = pkey p \<longrightarrow> getCreated (snd q) \<le> getCreated (snd p)"
      using Suc.IH [OF inc(2)] inc(3) Suc.prems(2) by auto
    have p: "?p \<in> set (concat itp)" using ci_pop_wf(3) [OF assms(1) Suc.prems(1) ne] by simp
    note least = ci_deref_least [OF assms(1) Suc.prems(1) ne]
    have "sorted_keys ckey (?p # out)"
    proof -
      have "ckey (pkey ?p) < ckey (pkey q)" if "q \<in> set out" for q
      proof -
        have "q \<in> set (concat itp)" "pkey q \<noteq> pkey ?p" using that out(3) inc(4) by auto
        then show ?thesis using least(1) [of q] by (simp add: order.order_iff_strict)
      qed
      then show ?thesis using out(2) by (simp add: ckey.sorted_keys_Cons)
    qed
    moreover have "set (?p # out) \<subseteq> set (concat itp)" using p out(3) inc(4) by auto
    moreover have "pkey ` set (?p # out) = pkey ` set (concat itp)"
    proof -
      have "pkey ` set (concat itp) = insert (pkey ?p) (pkey ` set (concat itp'))"
        using p unfolding inc(4) by auto
      then show ?thesis using out(4) by simp
    qed
    moreover have "\<forall>r \<in> set (?p # out). \<forall>q \<in> set (concat itp).
        pkey q = pkey r \<longrightarrow> getCreated (snd q) \<le> getCreated (snd r)"
    proof (intro ballI impI)
      fix r q assume r: "r \<in> set (?p # out)" and q: "q \<in> set (concat itp)" "pkey q = pkey r"
      show "getCreated (snd q) \<le> getCreated (snd r)"
      proof (cases "r = ?p")
        case True
        then show ?thesis using least(2) q by simp
      next
        case False
        then have "r \<in> set out" using r by simp
        moreover from this have "pkey r \<noteq> pkey ?p" using out(3) inc(4) by auto
        moreover from this have "q \<in> set (concat itp')" using q unfolding inc(4) by simp
        ultimately show ?thesis using out(5) q(2) by blast
      qed
    qed
    ultimately show ?thesis using ne inc(1) out(1) by (intro exI [of _ "?p # out"]) simp
  qed
qed simp

lemma ci_create_wf:
  "(\<forall>t \<in> set stores. sorted_keys ckey t \<and> (\<forall>p \<in> set t. pkey p \<noteq> [])) \<Longrightarrow> ci_wf (ci_create stores)"
  by (auto simp: ci_wf_def ci_create_def)

lemma ci_create_set [simp]: "set (concat (ci_create stores)) = set (concat stores)"
  by (auto simp: ci_create_def)

text \<open>A choice of the front exists: the first iterator that no other precedes.\<close>

definition first_front :: "pptr list list \<Rightarrow> nat" where
  "first_front itp = length (takeWhile (\<lambda>a. \<exists>b \<in> set itp. heap_comp a b) itp)"

definition itp_rank :: "pptr list \<Rightarrow> int list list" where
  "itp_rank a = [ckey (pkey (hd a)), [- uint (getCreated (snd (hd a)))]]"

lemma heap_comp_rank:
  assumes "a \<noteq> []" "b \<noteq> []" "pkey (hd b) \<noteq> []"
  shows "heap_comp a b \<longleftrightarrow> itp_rank b < itp_rank a"
  using assms cmp_pair_ckey [OF assms(3), of "hd a"]
  by (auto simp: heap_comp_def itp_comp_def compNonEmpty_def cmpWithTime_def Let_def cmpTime_def
      comparator_comp_def itp_rank_def word_less_def)

lemma is_front_first_front: "is_front first_front"
proof -
  have "first_front itp < length itp \<and> (\<forall>a \<in> set itp. \<not> heap_comp (itp ! first_front itp) a)"
    if ne: "itp \<noteq> []" and wf: "ci_wf itp" for itp
  proof -
    have rank: "heap_comp a b \<longleftrightarrow> itp_rank b < itp_rank a" if "a \<in> set itp" "b \<in> set itp" for a b
      using that wf by (intro heap_comp_rank) (auto simp: ci_wf_def)
    have "Min (itp_rank ` set itp) \<in> itp_rank ` set itp" using ne by (intro Min_in) auto
    then obtain a where a: "a \<in> set itp" "itp_rank a = Min (itp_rank ` set itp)" by auto
    then have "\<not> heap_comp a b" if "b \<in> set itp" for b
      using that rank by (simp add: not_less)
    then have "first_front itp < length itp"
      unfolding first_front_def using a(1) by (intro length_takeWhile_stop) auto
    then show ?thesis
      using nth_length_takeWhile [of "\<lambda>a. \<exists>b \<in> set itp. heap_comp a b" itp]
      by (simp add: first_front_def)
  qed
  then show ?thesis by (simp add: is_front_def)
qed

section \<open>Properties\<close>

text \<open>
  The dual iterator merges two sorted lists: it ends, yields strictly increasing keys, and each
  key of either list once, with the newest of its pairs, the first list's on a tie.
\<close>

lemma dual_iterator_merges:
  assumes "sorted_keys ckey t1" "sorted_keys ckey t2" "\<forall>p \<in> set t1 \<union> set t2. pkey p \<noteq> []"
  shows "sorted_keys ckey (di_run t1 t2) \<and>
    (\<forall>k. lookup (di_run t1 t2) k = getNewestPair (lookup t2 k) (lookup t1 k))"
  using assms by (rule di_run_merge)

text \<open>
  C20: The collection iterator merges any number of sorted tables with a heap: with as many steps as
  there are pairs it always ends, its keys are strictly increasing, it yields every key of every
  table, each with a newest pair.  The heap is any function that gives a least element
  (\<open>is_front\<close>).
\<close>

theorem collection_iterator_merges:
  assumes "is_front front" "\<forall>t \<in> set stores. sorted_keys ckey t \<and> (\<forall>p \<in> set t. pkey p \<noteq> [])"
    and "length (concat stores) < fuel"
  shows "\<exists>out. ci_run front fuel (ci_create stores) = Some out \<and> sorted_keys ckey out \<and>
    set out \<subseteq> set (concat stores) \<and> pkey ` set out = pkey ` set (concat stores) \<and>
    (\<forall>p \<in> set out. \<forall>q \<in> set (concat stores). pkey q = pkey p \<longrightarrow> getCreated (snd q) \<le> getCreated (snd p))"
proof -
  have "ci_size (ci_create stores) = length (concat stores)"
    by (induction stores) (simp_all add: ci_size_def ci_create_def)
  then show ?thesis
    using ci_run_merge [OF assms(1) ci_create_wf [OF assms(2)], of fuel, unfolded ci_create_set] assms(3)
    by metis
qed

theorem collection_iterator_merges_witness:
  "\<exists>out. ci_run first_front 2 (ci_create [[], [(0, factory_create 1 (Normal [97] [1] 0 7) (raw_memory 22))]]) =
    Some out \<and> pkey ` set out = {[97]}"
proof -
  let ?p = "factory_create 1 (Normal [97] [1] 0 7) (raw_memory 22)"
  have "getKey ?p = [97]"
    using factory_create_spec [of "Normal [97] [1] 0 7" "raw_memory 22" 1]
    by (simp add: eval_simps block_size_def offset_buffer_def)
  then show ?thesis
    using collection_iterator_merges [OF is_front_first_front, of "[[], [(0, ?p)]]" 2]
    by (auto simp: sorted_keys_def pkey_def)
qed

end
