(* ===== verification/VectorList.thy ===== *)
theory VectorList
  imports Memlist
begin

text \<open>
  \<^verbatim>\<open>hm4/vectorlist.h\<close>, \<^verbatim>\<open>hm4/vectorlist.cc\<close>: the list that keeps its pairs in a sorted
  \<open>std::vector<Pair *>\<close>.  \<open>A\<close> is the allocator; \<open>grow n\<close> says whether the vector can be
  enlarged to \<open>n\<close> elements (\<open>vector::insert\<close> throws otherwise).
\<close>

section \<open>The code\<close>

record 's VectorList =
  vl_vector :: "pptr list"
  vl_lc :: ListCounter
  vl_allocator :: 's

definition vl_binarySearch :: "pptr list \<Rightarrow> str \<Rightarrow> BinarySearchResult" where
  "vl_binarySearch v key = binarySearch (\<lambda>p key. cmp (snd p) key) v key"

definition vl_find :: "'s VectorList \<Rightarrow> str \<Rightarrow> pptr list" where
  "vl_find l key = drop (bs_it (vl_binarySearch (vl_vector l) key)) (vl_vector l)"

definition vl_getPair :: "'s VectorList \<Rightarrow> str \<Rightarrow> pptr option" where
  "vl_getPair l key =
     (let b = vl_binarySearch (vl_vector l) key
      in if bs_found b then Some (vl_vector l ! bs_it b) else None)"

definition vl_insertF ::
  "'s allocator_ops \<Rightarrow> (nat \<Rightarrow> bool) \<Rightarrow> u64 \<Rightarrow> PairFactory \<Rightarrow> 's VectorList \<Rightarrow> InsertResult \<times> 's VectorList" where
  "vl_insertF A grow now f l =
     (if \<not> factory_valid f then (errorInvalid, l)
      else
        let key = factory_getKey f;
            b = vl_binarySearch (vl_vector l) key;
            it = bs_it b
        in if bs_found b then
             (let (r, data, lc, st) = updatePair A now f (vl_vector l ! it) (vl_lc l) (vl_allocator l)
              in (r, l\<lparr>vl_vector := (vl_vector l)[it := data], vl_lc := lc, vl_allocator := st\<rparr>))
           else
             case pair_create A now f (vl_allocator l) of
               (None, st) \<Rightarrow> (errorNoMemory, l\<lparr>vl_allocator := st\<rparr>)
             | (Some newdata, st) \<Rightarrow>
                 if grow (length (vl_vector l) + 1) then
                   (inserted newdata,
                    l\<lparr>vl_vector := take it (vl_vector l) @ newdata # drop it (vl_vector l),
                      vl_lc := lc_inc (size_t (bytes (snd newdata))) (vl_lc l),
                      vl_allocator := st\<rparr>)
                 else (error, l\<lparr>vl_allocator := xdeallocate A st (fst newdata)\<rparr>))"

definition vl_erase :: "'s allocator_ops \<Rightarrow> u64 \<Rightarrow> str \<Rightarrow> 's VectorList \<Rightarrow> InsertResult \<times> 's VectorList" where
  "vl_erase A now key l =
     (let b = vl_binarySearch (vl_vector l) key; it = bs_it b in
      if \<not> bs_found b then (skipDeleted, l)
      else
        (deleted,
         l\<lparr>vl_lc := lc_dec (size_t (bytes (snd (vl_vector l ! it)))) (vl_lc l),
           vl_allocator := xdeallocate A (vl_allocator l) (fst (vl_vector l ! it)),
           vl_vector := take it (vl_vector l) @ drop (it + 1) (vl_vector l)\<rparr>))"

definition vl_clear :: "'s allocator_ops \<Rightarrow> 's VectorList \<Rightarrow> 's VectorList" where
  "vl_clear A l =
     (let (ok, st) = reset A (vl_allocator l);
          st = (if ok then st else fold (\<lambda>p st. xdeallocate A st (fst p)) (vl_vector l) st)
      in l\<lparr>vl_allocator := st, vl_vector := [], vl_lc := lc_clr (vl_lc l)\<rparr>)"

definition vl_mutable_notify :: "MutableNotifyMessage \<Rightarrow> 's VectorList \<Rightarrow> 's VectorList" where
  "vl_mutable_notify msg l = l\<lparr>vl_lc := lc_upd (size_t (bytes_old msg)) (size_t (bytes_new msg)) (vl_lc l)\<rparr>"

text \<open>A write through a pointer to one of the pairs.\<close>

definition store_at :: "pptr \<Rightarrow> pptr list \<Rightarrow> pptr list" where
  "store_at p v = map (\<lambda>q. if fst q = fst p then p else q) v"

definition vl_empty :: "'s \<Rightarrow> 's VectorList" where
  "vl_empty st = \<lparr>vl_vector = [], vl_lc = lc_zero, vl_allocator = st\<rparr>"

definition vl_ops :: "'s allocator_ops \<Rightarrow> (nat \<Rightarrow> bool) \<Rightarrow> 's VectorList list_ops" where
  "vl_ops A grow = \<lparr>
     l_insertF = vl_insertF A grow,
     l_erase = vl_erase A,
     l_getPair = vl_getPair,
     l_list = vl_vector,
     l_find = vl_find,
     l_clear = vl_clear A,
     l_size = (\<lambda>l. lc_count (vl_lc l)),
     l_empty = (\<lambda>l. lc_count (vl_lc l) = 0),
     l_bytes = (\<lambda>l. lc_bytes (vl_lc l)),
     l_owns = (\<lambda>l. owns A (vl_allocator l)),
     l_store = (\<lambda>l p. l\<lparr>vl_vector := store_at p (vl_vector l)\<rparr>),
     l_mutable_notify = vl_mutable_notify\<rparr>"

section \<open>The search\<close>

interpretation vs: search_order "\<lambda>p key. cmp (snd p) key" "\<lambda>p. ckey (pkey p)" ckey
  "\<lambda>p. True" "\<lambda>key. key \<noteq> []"
  by unfold_locales (simp_all add: cmp_ckey pkey_def)

definition vl_inv :: "'s VectorList \<Rightarrow> bool" where
  "vl_inv l \<longleftrightarrow> list_good ckey (\<lambda>k. True) (vl_vector l) (vl_lc l)"

lemma vl_binarySearch_eq:
  assumes "sorted_keys ckey v" "key \<noteq> []"
  shows "vl_binarySearch v key = searched (\<lambda>p. ckey (pkey p)) v (ckey key)"
  unfolding vl_binarySearch_def
  by (rule vs.binarySearch_searched)
     (use assms in \<open>simp_all add: sorted_keys_def list_all_length\<close>)

lemma vl_getPair_lookup:
  assumes "sorted_keys ckey (vl_vector l)" "key \<noteq> []"
  shows "vl_getPair l key = lookup (vl_vector l) key"
  using ckey.lookup_lower_bound [OF assms(1) refl, of key]
  by (simp add: vl_getPair_def vl_binarySearch_eq [OF assms] searched_def Let_def)

section \<open>The operations keep the contract\<close>

lemma list_update_split: "i < length v \<Longrightarrow> v[i := x] = take i v @ x # drop (Suc i) v"
  by (simp add: upd_conv_take_nth_drop)

lemma vl_insertF_law:
  assumes inv: "vl_inv l" and f: "factory_wf f" and step: "vl_insertF A grow now f l = (r, l')"
  shows "vl_inv l' \<and> insert_spec now f (vl_vector l) r (vl_vector l')"
proof -
  let ?v = "vl_vector l" and ?key = "factory_getKey f"
  have s: "sorted_keys ckey ?v" using inv by (simp add: vl_inv_def list_good_def)
  have valid: "factory_valid f" using f by (rule factory_wf_valid)
  obtain b where b: "vl_binarySearch ?v ?key = b" by simp
  then have "searched (\<lambda>p. ckey (pkey p)) ?v (ckey ?key) = b"
    using vl_binarySearch_eq [OF s] f by (simp add: factory_wf_key)
  with s show ?thesis
  proof (cases rule: ckey.searched_cases)
    case found
    let ?a = "take (bs_it b) ?v" and ?c = "drop (Suc (bs_it b)) ?v" and ?old = "?v ! bs_it b"
    obtain data lc' st' where u: "updatePair A now f ?old (vl_lc l) (vl_allocator l) = (r, data, lc', st')"
      and l': "l' = l\<lparr>vl_vector := ?v[bs_it b := data], vl_lc := lc', vl_allocator := st'\<rparr>"
      using step valid b found(1) by (auto simp: vl_insertF_def Let_def split: prod.splits)
    have "list_good ckey (\<lambda>k. True) (?a @ ?old # ?c) (vl_lc l)"
      using inv found(4) by (simp add: vl_inv_def)
    from ckey.update_law [OF this f found(3) u] show ?thesis
      using found(2) by (simp add: l' vl_inv_def list_update_split flip: found(4))
  next
    case absent
    obtain c st where c: "pair_create A now f (vl_allocator l) = (c, st)" by fastforce
    show ?thesis
    proof (cases c)
      case None
      then show ?thesis using step valid b absent(1) c inv insert_spec_failed [OF absent(2)]
        by (auto simp: vl_insertF_def Let_def vl_inv_def)
    next
      case (Some p)
      then show ?thesis
        using step valid b absent(1) c inv insert_spec_failed [OF absent(2)]
          ckey.insert_new_law [of "\<lambda>k. True" ?v "vl_lc l" f "bs_it b" A now "vl_allocator l" p st] f absent
        by (auto simp: vl_insertF_def Let_def vl_inv_def split: if_splits)
    qed
  qed
qed

lemma vl_erase_law:
  assumes inv: "vl_inv l" and key: "k \<noteq> []" and step: "vl_erase A now k l = (r, l')"
  shows "vl_inv l' \<and> erase_spec k (vl_vector l) r (vl_vector l')"
proof -
  let ?v = "vl_vector l"
  have s: "sorted_keys ckey ?v" using inv by (simp add: vl_inv_def list_good_def)
  obtain b where b: "vl_binarySearch ?v k = b" by simp
  then have "searched (\<lambda>p. ckey (pkey p)) ?v (ckey k) = b" using vl_binarySearch_eq [OF s key] by simp
  with s show ?thesis
  proof (cases rule: ckey.searched_cases)
    case absent
    then show ?thesis using inv step b by (auto simp: vl_erase_def Let_def erase_spec_def)
  next
    case found
    have "list_good ckey (\<lambda>k. True) (take (bs_it b) ?v @ ?v ! bs_it b # drop (Suc (bs_it b)) ?v) (vl_lc l)"
      using inv found(4) by (simp add: vl_inv_def)
    from ckey.remove_law [OF this] show ?thesis using step b found(1,3)
      by (auto simp: vl_erase_def Let_def vl_inv_def simp flip: found(4))
  qed
qed

lemma vl_ops_simps [simp]:
  "l_insertF (vl_ops A grow) = vl_insertF A grow" "l_erase (vl_ops A grow) = vl_erase A"
  "l_getPair (vl_ops A grow) = vl_getPair" "l_list (vl_ops A grow) = vl_vector"
  "l_find (vl_ops A grow) = vl_find" "l_clear (vl_ops A grow) = vl_clear A"
  "l_size (vl_ops A grow) l = lc_count (vl_lc l)" "l_bytes (vl_ops A grow) l = lc_bytes (vl_lc l)"
  by (simp_all add: vl_ops_def)

interpretation vl: memlist "vl_ops A grow" vl_inv "\<lambda>k. True" ckey for A grow
proof unfold_locales
  fix l :: "'a VectorList" assume inv: "vl_inv l"
  show "sorted_keys ckey (l_list (vl_ops A grow) l)" "pairs_ok (\<lambda>k. True) (l_list (vl_ops A grow) l)"
    "lc_of (l_list (vl_ops A grow) l) =
      \<lparr>lc_count = l_size (vl_ops A grow) l, lc_bytes = l_bytes (vl_ops A grow) l\<rparr>"
    using inv by (simp_all add: vl_inv_def list_good_def)
  show "vl_inv (l_clear (vl_ops A grow) l) \<and> l_list (vl_ops A grow) (l_clear (vl_ops A grow) l) = []"
    by (simp add: vl_clear_def vl_inv_def list_good_def pairs_ok_def lc_clr_def lc_zero_def Let_def split: prod.split)
  fix k :: str assume k: "k \<noteq> []"
  show "l_getPair (vl_ops A grow) l k = lookup (l_list (vl_ops A grow) l) k"
    using inv k by (simp add: vl_inv_def list_good_def vl_getPair_lookup)
  show "l_find (vl_ops A grow) l k = dropWhile (\<lambda>p. ckey (pkey p) < ckey k) (l_list (vl_ops A grow) l)"
    using inv k
    by (simp add: vl_inv_def list_good_def vl_find_def vl_binarySearch_eq searched_def Let_def lower_bound_def
        flip: dropWhile_eq_drop)
  fix now r l' assume "l_erase (vl_ops A grow) now k l = (r, l')"
  then show "vl_inv l' \<and> erase_spec k (l_list (vl_ops A grow) l) r (l_list (vl_ops A grow) l')"
    using vl_erase_law [OF inv k] by simp
next
  fix l :: "'a VectorList" and f now r l' assume inv: "vl_inv l"
  { assume "factory_wf f" "l_insertF (vl_ops A grow) now f l = (r, l')"
    then show "vl_inv l' \<and> insert_spec now f (l_list (vl_ops A grow) l) r (l_list (vl_ops A grow) l')"
      using vl_insertF_law [OF inv] by simp }
  { assume "\<not> factory_valid f"
    then show "l_insertF (vl_ops A grow) now f l = (errorInvalid, l)" by (simp add: vl_insertF_def) }
qed

declare vl_insertF_def [eval_simps]
  vl_empty_def [eval_simps]
  vl_binarySearch_def [eval_simps]

section \<open>Properties\<close>

lemma vl_inv_empty: "vl_inv (vl_empty st)"
  by (simp add: vl_inv_def vl_empty_def list_good_def lc_zero_def lc_of_def pairs_ok_def sorted_keys_def)

text \<open>
  C1: The vector list is a last-writer-wins store: after any sequence of writes with explicit
  creation times, none of which fails, a lookup gives for each key the write with the greatest
  creation time, the later one of two with the same time, or nothing for a key never written.
\<close>

theorem vl_run_registers:
  assumes "list_all (\<lambda>(now, op). op_ok (\<lambda>k. True) op \<and> explicit_write op) ops"
    and "l_run (vl_ops A grow) ops (vl_empty st) = (rs, l)" "list_all ir_ok rs" "k \<noteq> []"
  shows "map_option reg_of (vl_getPair l k) = reg_run k ops None"
proof -
  have i: "vl_inv (vl_empty st)" by (rule vl_inv_empty)
  have "vl_inv l"
    using vl.run_inv [OF i, of ops A grow] assms(1,2) by (simp add: list_all_iff case_prod_beta)
  then have "vl_getPair l k = lookup (vl_vector l) k"
    using vl.getPair_lookup [of l k A grow] assms(4) by simp
  then show ?thesis using vl.run_registers [OF i assms(1-3)] by (simp add: vl_empty_def)
qed

theorem vl_run_registers_witness:
  "map_option reg_of (vl_getPair (snd (l_run (vl_ops arena_ops (\<lambda>n. True))
     [(1, Insert (Normal [98] [1, 2] 0 7))] (vl_empty arena4k))) [98]) =
     Some \<lparr>reg_created = to64 7, reg_val = [1, 2], reg_expires = 0\<rparr>"
proof -
  let ?ops = "[(1, Insert (Normal [98] [1, 2] 0 7))] :: (u64 \<times> list_op) list"
  let ?r = "l_run (vl_ops arena_ops (\<lambda>n. True)) ?ops (vl_empty arena4k)"
  have "list_all ir_ok (fst ?r)" by (simp add: eval_simps Let_def)
  then show ?thesis
    using vl_run_registers [of ?ops arena_ops "\<lambda>n. True" arena4k "fst ?r" "snd ?r" "[98]"]
    by (simp add: reg_run_def reg_write_def eval_simps)
qed

text \<open>
  Every insertion into a vector list, whatever the allocator answers, keeps the list sorted with
  exact counters and meets the insertion contract: other keys are untouched, the result carries the
  stored pair with the factory's creation time, value and expiration, a newer stored pair is kept
  and reported as skipped, an invalid factory or a failed allocation changes nothing.
\<close>

lemma vl_insertF_contract:
  assumes "vl_inv l"
  shows "(\<not> factory_valid f \<longrightarrow> vl_insertF A grow now f l = (errorInvalid, l)) \<and>
    (factory_wf f \<longrightarrow> vl_inv (snd (vl_insertF A grow now f l)) \<and>
       insert_spec now f (vl_vector l) (fst (vl_insertF A grow now f l))
         (vl_vector (snd (vl_insertF A grow now f l))))"
  using vl.insert_invalid [OF assms, where f = f and A = A and grow = grow and now = now]
    vl.insert_law [OF assms, where f = f and A = A and grow = grow and now = now]
  by (metis (no_types, lifting) prod.collapse vl_ops_simps)

text \<open>
  Erasing from a vector list removes exactly the pair of the key, reports whether there was one,
  and keeps the list sorted with exact counters.
\<close>

lemma vl_erase_contract:
  assumes "vl_inv l" "k \<noteq> []" "vl_erase A now k l = (r, l')"
  shows "vl_inv l' \<and> (\<forall>k'. lookup (vl_vector l') k' = (if k' = k then None else lookup (vl_vector l) k')) \<and>
    r = (if lookup (vl_vector l) k = None then skipDeleted else deleted)"
  using vl.erase_law [OF assms(1,2), of A "\<lambda>n. True" now r l'] assms(3) by (simp add: erase_spec_def)

text \<open>
  The binary search of the vector list, with its linear tail, finds the first position whose key
  is not smaller, and reports a hit exactly when the key is in the list.
\<close>

lemma vl_binarySearch_lower_bound:
  assumes "vl_inv l" "key \<noteq> []" "vl_binarySearch (vl_vector l) key = b"
  shows "bs_it b \<le> length (vl_vector l) \<and>
    (\<forall>i < bs_it b. cmp (snd (vl_vector l ! i)) key < 0) \<and>
    (\<forall>i < length (vl_vector l). bs_it b \<le> i \<longrightarrow> 0 \<le> cmp (snd (vl_vector l ! i)) key) \<and>
    (bs_found b \<longleftrightarrow> (\<exists>p \<in> set (vl_vector l). pkey p = key))"
proof -
  let ?ka = "\<lambda>p. ckey (pkey p)" and ?v = "vl_vector l"
  have s: "sorted_keys ckey ?v" using assms(1) by (simp add: vl_inv_def list_good_def)
  have b: "b = searched ?ka ?v (ckey key)" using vl_binarySearch_eq [OF s assms(2)] assms(3) by simp
  have c: "cmp (snd p) key = sgn3 (?ka p) (ckey key)" for p using cmp_ckey [OF assms(2)] by (simp add: pkey_def)
  have it: "bs_it b = lower_bound ?ka ?v (ckey key)" using b by (simp add: searched_def Let_def)
  have "0 \<le> cmp (snd (?v ! i)) key" if "i < length ?v" "bs_it b \<le> i" for i
    using lower_bound_ge(1) [of ?ka ?v "ckey key" i] s that it c by (simp add: sorted_keys_def)
  moreover have "cmp (snd (?v ! i)) key < 0" if "i < bs_it b" for i
    using lower_bound_less [of i ?ka ?v "ckey key"] that it c by simp
  moreover have "bs_found b \<longleftrightarrow> (\<exists>p \<in> set ?v. pkey p = key)"
    by (rule ckey.searched_cases [OF s b [symmetric]]) (auto simp: lookup_None_iff)
  ultimately show ?thesis using lower_bound_le [of ?ka ?v "ckey key"] it by simp
qed

text \<open>
  The size and byte counters are exact: after any sequence of insertions (failed, skipped, in
  place, replacing or new) and deletions, \<open>size()\<close> is the number of pairs and \<open>bytes()\<close> the sum
  of their sizes, and the keys are strictly increasing.
\<close>

lemma vl_run_counters:
  assumes "list_all (\<lambda>(now, op). op_ok (\<lambda>k. True) op) ops"
    and "snd (l_run (vl_ops A grow) ops (vl_empty st)) = l"
  shows "lc_count (vl_lc l) = of_nat (length (vl_vector l)) \<and>
    lc_bytes (vl_lc l) = (\<Sum>p \<leftarrow> vl_vector l. of_nat (bytes (snd p))) \<and>
    sorted_wrt (\<lambda>p q. cmp_pair (snd p) (snd q) < 0) (vl_vector l)"
proof -
  have "vl_inv l" using vl.run_inv [OF vl_inv_empty assms(1), of A grow st] assms(2) by simp
  then have s: "sorted_keys ckey (vl_vector l)" "pairs_ok (\<lambda>k. True) (vl_vector l)" "vl_lc l = lc_of (vl_vector l)"
    by (simp_all add: vl_inv_def list_good_def)
  have "sorted_wrt (\<lambda>p q. cmp_pair (snd p) (snd q) < 0) (vl_vector l)"
    by (rule sorted_wrt_mono_rel [OF _ s(1) [unfolded sorted_keys_def sorted_wrt_map]])
       (use s(2) in \<open>auto simp: pairs_ok_def list_all_iff cmp_pair_def cmp_ckey pkey_def\<close>)
  then show ?thesis using s(3) by (simp add: lc_of_def size_t_def)
qed


end
