(* ===== verification/MultiList.thy ===== *)
theory MultiList
  imports MultiIterator VectorList
begin

text \<open>
  \<^verbatim>\<open>hm4/multi/duallist.h\<close>, \<^verbatim>\<open>hm4/multi/collectionlist.h\<close>, \<^verbatim>\<open>hm4/multi/singlelist.h\<close>:
  lists made of lists.  A collection list reads a sequence of tables; a dual list puts a mutable
  list in front of a second one.  \<open>SingleList\<close> forwards every operation to the list it wraps and
  is that list.
\<close>

section \<open>collectionlist.h\<close>

fun cl_getPair_best :: "'l list_ops \<Rightarrow> 'l list \<Rightarrow> str \<Rightarrow> pptr option \<Rightarrow> pptr option" where
  "cl_getPair_best L [] key best = best"
| "cl_getPair_best L (l # ls) key best =
     cl_getPair_best L ls key (getPairBestHelper (l_getPair L) l key best)"

definition cl_getPair :: "'l list_ops \<Rightarrow> 'l list \<Rightarrow> str \<Rightarrow> pptr option" where
  "cl_getPair L ls key = cl_getPair_best L ls key None"

definition cl_iterate :: "(pptr list list \<Rightarrow> nat) \<Rightarrow> pptr list list \<Rightarrow> pptr list" where
  "cl_iterate front stores =
     (let itp = ci_create stores in the (ci_run front (Suc (ci_size itp)) itp))"

definition cl_begin :: "(pptr list list \<Rightarrow> nat) \<Rightarrow> 'l list_ops \<Rightarrow> 'l list \<Rightarrow> pptr list" where
  "cl_begin front L ls = cl_iterate front (map (l_list L) ls)"

definition cl_find :: "(pptr list list \<Rightarrow> nat) \<Rightarrow> 'l list_ops \<Rightarrow> 'l list \<Rightarrow> str \<Rightarrow> pptr list" where
  "cl_find front L ls key = cl_iterate front (map (\<lambda>l. getIterator L l key) ls)"

definition cl_size :: "'l list_ops \<Rightarrow> 'l list \<Rightarrow> u64" where
  "cl_size L ls = fold (\<lambda>l result. result + l_size L l) ls 0"

definition cl_bytes :: "'l list_ops \<Rightarrow> 'l list \<Rightarrow> u64" where
  "cl_bytes L ls = fold (\<lambda>l result. result + l_bytes L l) ls 0"

definition cl_empty :: "bool \<Rightarrow> 'l list_ops \<Rightarrow> 'l list \<Rightarrow> bool" where
  "cl_empty always_non_empty L ls =
     (if always_non_empty then length ls = 0 else \<not> (\<exists>l \<in> set ls. \<not> l_empty L l))"

text \<open>The mutable operations do not exist for a collection list.\<close>

definition cl_ops :: "(pptr list list \<Rightarrow> nat) \<Rightarrow> bool \<Rightarrow> 'l list_ops \<Rightarrow> 'l list list_ops" where
  "cl_ops front always_non_empty L = \<lparr>
     l_insertF = (\<lambda>now f ls. (error, ls)),
     l_erase = (\<lambda>now key ls. (error, ls)),
     l_getPair = cl_getPair L,
     l_list = cl_begin front L,
     l_find = cl_find front L,
     l_clear = id,
     l_size = cl_size L,
     l_empty = cl_empty always_non_empty L,
     l_bytes = cl_bytes L,
     l_owns = (\<lambda>ls a. False),
     l_store = (\<lambda>ls p. ls),
     l_mutable_notify = (\<lambda>msg ls. ls)\<rparr>"

section \<open>duallist.h\<close>

datatype DualListEraseType = NORMAL | TOMBSTONE_ERASE | SMART_TOMBSTONE | NONE

definition dl_getPair_best ::
  "'a list_ops \<Rightarrow> 'b list_ops \<Rightarrow> 'a \<times> 'b \<Rightarrow> str \<Rightarrow> pptr option \<Rightarrow> pptr option" where
  "dl_getPair_best L1 L2 l key best =
     (let best = getPairBestHelper (l_getPair L1) (fst l) key best;
          best = getPairBestHelper (l_getPair L2) (snd l) key best
      in best)"

definition dl_getPair :: "'a list_ops \<Rightarrow> 'b list_ops \<Rightarrow> 'a \<times> 'b \<Rightarrow> str \<Rightarrow> pptr option" where
  "dl_getPair L1 L2 l key = dl_getPair_best L1 L2 l key None"

definition dl_begin :: "'a list_ops \<Rightarrow> 'b list_ops \<Rightarrow> 'a \<times> 'b \<Rightarrow> pptr list" where
  "dl_begin L1 L2 l = di_run (getIterator_tag L1 (fst l) True) (getIterator_tag L2 (snd l) True)"

definition dl_find :: "'a list_ops \<Rightarrow> 'b list_ops \<Rightarrow> 'a \<times> 'b \<Rightarrow> str \<Rightarrow> pptr list" where
  "dl_find L1 L2 l key = di_run (getIterator L1 (fst l) key) (getIterator L2 (snd l) key)"

definition dl_insertF ::
  "'a list_ops \<Rightarrow> 'b list_ops \<Rightarrow> u64 \<Rightarrow> PairFactory \<Rightarrow> 'a \<times> 'b \<Rightarrow> InsertResult \<times> ('a \<times> 'b)" where
  "dl_insertF L1 L2 now f l = (let (r, l1) = l_insertF L1 now f (fst l) in (r, (l1, snd l)))"

definition dl_erase ::
  "DualListEraseType \<Rightarrow> 'a list_ops \<Rightarrow> 'b list_ops \<Rightarrow> u64 \<Rightarrow> str \<Rightarrow> 'a \<times> 'b \<Rightarrow> InsertResult \<times> ('a \<times> 'b)" where
  "dl_erase E L1 L2 now key l =
     (let on1 = (\<lambda>(r, l1). (r, (l1, snd l))) in
      case E of
        NONE \<Rightarrow> (skipDeleted, l)
      | NORMAL \<Rightarrow> on1 (l_erase L1 now key (fst l))
      | TOMBSTONE_ERASE \<Rightarrow> on1 (insertTS L1 now key (fst l))
      | SMART_TOMBSTONE \<Rightarrow>
          (if l_empty L2 (snd l) then on1 (l_erase L1 now key (fst l))
           else on1 (insertTS L1 now key (fst l))))"

definition dl_ops :: "DualListEraseType \<Rightarrow> 'a list_ops \<Rightarrow> 'b list_ops \<Rightarrow> ('a \<times> 'b) list_ops" where
  "dl_ops E L1 L2 = \<lparr>
     l_insertF = dl_insertF L1 L2,
     l_erase = dl_erase E L1 L2,
     l_getPair = dl_getPair L1 L2,
     l_list = dl_begin L1 L2,
     l_find = dl_find L1 L2,
     l_clear = (\<lambda>l. (l_clear L1 (fst l), snd l)),
     l_size = (\<lambda>l. l_size L1 (fst l) + l_size L2 (snd l)),
     l_empty = (\<lambda>l. l_empty L1 (fst l) \<and> l_empty L2 (snd l)),
     l_bytes = (\<lambda>l. l_bytes L1 (fst l) + l_bytes L2 (snd l)),
     l_owns = (\<lambda>l. l_owns L1 (fst l)),
     l_store = (\<lambda>l p. (l_store L1 (fst l) p, snd l)),
     l_mutable_notify = (\<lambda>msg l. (l_mutable_notify L1 msg (fst l), snd l))\<rparr>"

lemma dl_ops_simps [simp]:
  "l_getPair (dl_ops E L1 L2) = dl_getPair L1 L2" "l_list (dl_ops E L1 L2) = dl_begin L1 L2"
  "l_find (dl_ops E L1 L2) = dl_find L1 L2" "l_erase (dl_ops E L1 L2) = dl_erase E L1 L2"
  "l_insertF (dl_ops E L1 L2) = dl_insertF L1 L2"
  by (simp_all add: dl_ops_def)

lemma cl_ops_simps [simp]:
  "l_getPair (cl_ops front ne L) = cl_getPair L" "l_list (cl_ops front ne L) = cl_begin front L"
  "l_find (cl_ops front ne L) = cl_find front L" "l_empty (cl_ops front ne L) = cl_empty ne L"
  by (simp_all add: cl_ops_def)

section \<open>Sorted sequences with the same pairs\<close>

lemma sorted_keys_set_eq:
  assumes "sorted_keys ckey a" "sorted_keys ckey b" "set a = set b"
  shows "a = b"
  using assms
proof (induction a arbitrary: b)
  case (Cons p a)
  obtain q b' where b: "b = q # b'" using Cons.prems(3) by (cases b) auto
  have le: "p = q"
  proof (rule ccontr)
    assume "p \<noteq> q"
    then have "p \<in> set b'" "q \<in> set a" using Cons.prems(3) b by auto
    then show False using Cons.prems(1,2) b by (fastforce simp: ckey.sorted_keys_Cons)
  qed
  have "p \<notin> set a" "q \<notin> set b'" using Cons.prems(1,2) b by (auto simp: ckey.sorted_keys_Cons)
  then have "set a = set b'" using Cons.prems(3) b le by auto
  then show ?case using Cons.IH [of b'] Cons.prems(1,2) b le by (simp add: ckey.sorted_keys_Cons)
qed simp

lemma sorted_keys_dropWhile:
  assumes "sorted_keys ckey v"
  shows "sorted_keys ckey (dropWhile (\<lambda>p. ckey (pkey p) < ckey k) v)"
    "set (dropWhile (\<lambda>p. ckey (pkey p) < ckey k) v) = {p \<in> set v. ckey k \<le> ckey (pkey p)}"
proof -
  show "sorted_keys ckey (dropWhile (\<lambda>p. ckey (pkey p) < ckey k) v)"
    using assms by (induction v) (auto simp: ckey.sorted_keys_Cons)
  show "set (dropWhile (\<lambda>p. ckey (pkey p) < ckey k) v) = {p \<in> set v. ckey k \<le> ckey (pkey p)}"
    using assms
  proof (induction v)
    case (Cons p v)
    then show ?case by (cases "ckey (pkey p) < ckey k") (auto simp: ckey.sorted_keys_Cons)
  qed simp
qed

lemma lookup_dropWhile:
  assumes "sorted_keys ckey t"
  shows "lookup (dropWhile (\<lambda>p. ckey (pkey p) < ckey k) t) k' =
    (if ckey k \<le> ckey k' then lookup t k' else None)"
  using assms
proof (induction t)
  case (Cons p t)
  show ?case
  proof (cases "ckey (pkey p) < ckey k")
    case True
    then show ?thesis using Cons by (auto simp: ckey.sorted_keys_Cons lookup_Cons)
  next
    case False
    then have "\<not> ckey k \<le> ckey k' \<longrightarrow> lookup (p # t) k' = None"
      using Cons.prems by (auto simp: ckey.sorted_keys_Cons lookup_None_iff)
    then show ?thesis using False by simp
  qed
qed simp

lemma lookup_sorted_iff:
  "sorted_keys ckey v \<Longrightarrow> lookup v k = Some p \<longleftrightarrow> p \<in> set v \<and> pkey p = k"
  using lookup_Some_in lookup_in [OF ckey.sorted_keys_distinct] by blast

lemma pairs_ok_set: "pairs_ok key_ok v \<longleftrightarrow> (\<forall>p \<in> set v. pairs_ok key_ok [p])"
  by (simp add: pairs_ok_def list_all_iff)

lemma pairs_ok_key: "pairs_ok key_ok v \<Longrightarrow> p \<in> set v \<Longrightarrow> pkey p \<noteq> []"
  by (auto simp: pairs_ok_def list_all_iff)

section \<open>A dual list of two sources is a source\<close>

lemma di_run_dropWhile:
  fixes k :: str
  assumes "sorted_keys ckey t1" "sorted_keys ckey t2" "\<forall>p \<in> set t1 \<union> set t2. pkey p \<noteq> []"
  defines "D \<equiv> dropWhile (\<lambda>p. ckey (pkey p) < ckey k)"
  shows "di_run (D t1) (D t2) = D (di_run t1 t2)"
proof (rule sorted_keys_set_eq)
  note m = di_run_merge [OF assms(1-3)]
  have d: "sorted_keys ckey (D t1)" "sorted_keys ckey (D t2)" "\<forall>p \<in> set (D t1) \<union> set (D t2). pkey p \<noteq> []"
    "set (D t1) = {p \<in> set t1. ckey k \<le> ckey (pkey p)}" "set (D t2) = {p \<in> set t2. ckey k \<le> ckey (pkey p)}"
    using sorted_keys_dropWhile [OF assms(1)] sorted_keys_dropWhile [OF assms(2)] assms(3)
    by (auto simp: D_def)
  note md = di_run_merge [OF d(1-3)]
  show "sorted_keys ckey (di_run (D t1) (D t2))" using md by simp
  show "sorted_keys ckey (D (di_run t1 t2))" using m sorted_keys_dropWhile(1) by (simp add: D_def)
  have lk: "lookup (D t) k' = (if ckey k \<le> ckey k' then lookup t k' else None)"
    if "sorted_keys ckey t" for t k'
    using lookup_dropWhile [OF that] by (simp add: D_def)
  have "lookup (di_run (D t1) (D t2)) k' = lookup (D (di_run t1 t2)) k'" for k'
    using m md lk [OF assms(1)] lk [OF assms(2)] lk [of "di_run t1 t2"] by simp
  then show "set (di_run (D t1) (D t2)) = set (D (di_run t1 t2))"
    using lookup_sorted_iff [of "di_run (D t1) (D t2)"] lookup_sorted_iff [of "D (di_run t1 t2)"]
      md m sorted_keys_dropWhile(1) [of "di_run t1 t2" k]
    by (simp add: D_def) (metis subsetI subset_antisym)
qed

definition dl_inv :: "('a \<Rightarrow> bool) \<Rightarrow> ('b \<Rightarrow> bool) \<Rightarrow> 'a \<times> 'b \<Rightarrow> bool" where
  "dl_inv inv1 inv2 l \<longleftrightarrow> inv1 (fst l) \<and> inv2 (snd l)"

locale dual_source =
  s1: list_source L1 inv1 key_ok ckey + s2: list_source L2 inv2 key_ok ckey
  for L1 :: "'a list_ops" and inv1 and L2 :: "'b list_ops" and inv2 and key_ok
begin

lemma sources:
  assumes "dl_inv inv1 inv2 l"
  shows "sorted_keys ckey (l_list L1 (fst l))" "sorted_keys ckey (l_list L2 (snd l))"
    "\<forall>p \<in> set (l_list L1 (fst l)) \<union> set (l_list L2 (snd l)). pkey p \<noteq> []"
    "\<forall>p \<in> set (l_list L1 (fst l)) \<union> set (l_list L2 (snd l)). pairs_ok key_ok [p]"
proof -
  have ok: "pairs_ok key_ok (l_list L1 (fst l))" "pairs_ok key_ok (l_list L2 (snd l))"
    using assms s1.list_ok s2.list_ok by (simp_all add: dl_inv_def)
  show "sorted_keys ckey (l_list L1 (fst l))" "sorted_keys ckey (l_list L2 (snd l))"
    using assms s1.list_sorted s2.list_sorted by (simp_all add: dl_inv_def)
  show "\<forall>p \<in> set (l_list L1 (fst l)) \<union> set (l_list L2 (snd l)). pkey p \<noteq> []"
    using pairs_ok_key [OF ok(1)] pairs_ok_key [OF ok(2)] by blast
  show "\<forall>p \<in> set (l_list L1 (fst l)) \<union> set (l_list L2 (snd l)). pairs_ok key_ok [p]"
    using ok pairs_ok_set by blast
qed

lemma getPair_newest:
  assumes "dl_inv inv1 inv2 l" "k \<noteq> []" "key_ok k"
  shows "dl_getPair L1 L2 l k = getNewestPair (lookup (l_list L2 (snd l)) k) (lookup (l_list L1 (fst l)) k)"
  using assms s1.getPair_lookup s2.getPair_lookup
  by (simp add: dl_inv_def dl_getPair_def dl_getPair_best_def getPairBestHelper_def)

lemma dl_source: "list_source (dl_ops E L1 L2) (dl_inv inv1 inv2) key_ok ckey"
proof unfold_locales
  fix l k assume l: "dl_inv inv1 inv2 l"
  note m = di_run_merge [OF sources(1-3) [OF l]]
  show "sorted_keys ckey (l_list (dl_ops E L1 L2) l)"
    using m by (simp add: dl_begin_def getIterator_tag_def)
  show "pairs_ok key_ok (l_list (dl_ops E L1 L2) l)"
    unfolding pairs_ok_set [of _ "l_list (dl_ops E L1 L2) l"]
    using di_run_set [OF sources(3) [OF l]] sources(4) [OF l]
    by (auto simp: dl_begin_def getIterator_tag_def)
  assume k: "k \<noteq> []" "key_ok k"
  show "l_getPair (dl_ops E L1 L2) l k = lookup (l_list (dl_ops E L1 L2) l) k"
    using m getPair_newest [OF l k] by (simp add: dl_begin_def getIterator_tag_def)
  show "l_find (dl_ops E L1 L2) l k = dropWhile (\<lambda>p. ckey (pkey p) < ckey k) (l_list (dl_ops E L1 L2) l)"
    using di_run_dropWhile [OF sources(1-3) [OF l], of k] k l s1.find_dropWhile s2.find_dropWhile
    by (simp add: dl_find_def dl_begin_def getIterator_tag_def getIterator_def dl_inv_def)
qed

end

section \<open>A collection of sources is a source\<close>

text \<open>
  Two pairs with the same key in different tables have different creation times; otherwise the
  heap of the iterator may show another one than \<open>getPair\<close> returns.
\<close>

definition no_ties :: "pptr list \<Rightarrow> bool" where
  "no_ties v \<longleftrightarrow> (\<forall>p \<in> set v. \<forall>q \<in> set v. pkey p = pkey q \<and> getCreated (snd p) = getCreated (snd q) \<longrightarrow> p = q)"

definition cl_pairs :: "'l list_ops \<Rightarrow> 'l list \<Rightarrow> pptr list" where
  "cl_pairs L ls = concat (map (l_list L) ls)"

definition cl_inv :: "'l list_ops \<Rightarrow> ('l \<Rightarrow> bool) \<Rightarrow> 'l list \<Rightarrow> bool" where
  "cl_inv L I ls \<longleftrightarrow> list_all I ls \<and> no_ties (cl_pairs L ls)"

text \<open>\<open>p\<close> is a newest pair of \<open>v\<close> with the key \<open>k\<close>.\<close>

definition newest_in :: "pptr list \<Rightarrow> str \<Rightarrow> pptr \<Rightarrow> bool" where
  "newest_in v k p \<longleftrightarrow> p \<in> set v \<and> pkey p = k \<and>
     (\<forall>q \<in> set v. pkey q = k \<longrightarrow> getCreated (snd q) \<le> getCreated (snd p))"

lemma newest_in_unique: "no_ties v \<Longrightarrow> newest_in v k p \<Longrightarrow> newest_in v k q \<Longrightarrow> p = q"
  unfolding newest_in_def no_ties_def by (metis order_antisym)

lemma newest_in_skip: "\<forall>q \<in> set v. pkey q \<noteq> k \<Longrightarrow> newest_in (v @ w) k p \<longleftrightarrow> newest_in w k p"
  by (auto simp: newest_in_def)

lemma newest_in_trans:
  "newest_in v k c \<Longrightarrow> newest_in (w @ [c]) k x \<Longrightarrow> newest_in (v @ w) k x"
proof -
  assume c: "newest_in v k c" and x: "newest_in (w @ [c]) k x"
  have cx: "getCreated (snd c) \<le> getCreated (snd x)" using c x by (simp add: newest_in_def)
  have "getCreated (snd q) \<le> getCreated (snd x)" if "q \<in> set v" "pkey q = k" for q
  proof -
    have "getCreated (snd q) \<le> getCreated (snd c)" using c that by (simp add: newest_in_def)
    then show ?thesis using cx by (rule order_trans)
  qed
  then show ?thesis using c x by (auto simp: newest_in_def)
qed

lemma newest_in_filter:
  assumes "set w = {p \<in> set v. Q (pkey p)}"
  shows "newest_in w k p \<longleftrightarrow> newest_in v k p \<and> Q k"
proof -
  have "q \<in> set w \<longleftrightarrow> q \<in> set v \<and> Q (pkey q)" for q using assms by simp
  then show ?thesis unfolding newest_in_def by metis
qed

lemma cl_iterate_spec:
  assumes "is_front front" "\<forall>t \<in> set stores. sorted_keys ckey t \<and> (\<forall>p \<in> set t. pkey p \<noteq> [])"
  shows "sorted_keys ckey (cl_iterate front stores)"
    "\<And>p. p \<in> set (cl_iterate front stores) \<Longrightarrow> newest_in (concat stores) (pkey p) p"
    "pkey ` set (cl_iterate front stores) = pkey ` set (concat stores)"
proof -
  have wf: "ci_wf (ci_create stores)" using assms(2) by (rule ci_create_wf)
  obtain out where out: "ci_run front (Suc (ci_size (ci_create stores))) (ci_create stores) = Some out"
    "sorted_keys ckey out" "set out \<subseteq> set (concat stores)" "pkey ` set out = pkey ` set (concat stores)"
    "\<forall>p \<in> set out. \<forall>q \<in> set (concat stores). pkey q = pkey p \<longrightarrow> getCreated (snd q) \<le> getCreated (snd p)"
    using ci_run_merge [OF assms(1) wf, of "Suc (ci_size (ci_create stores))"]
    unfolding ci_create_set by blast
  have it: "cl_iterate front stores = out" using out(1) by (simp add: cl_iterate_def Let_def)
  show "sorted_keys ckey (cl_iterate front stores)" using it out(2) by simp
  show "pkey ` set (cl_iterate front stores) = pkey ` set (concat stores)" using it out(4) by simp
  show "newest_in (concat stores) (pkey p) p" if "p \<in> set (cl_iterate front stores)" for p
    using that it out(3,5) unfolding newest_in_def by blast
qed

text \<open>With no ties the iteration is determined by its pairs.\<close>

lemma cl_iterate_set:
  assumes "is_front front" "\<forall>t \<in> set stores. sorted_keys ckey t \<and> (\<forall>p \<in> set t. pkey p \<noteq> [])"
    and "no_ties (concat stores)"
  shows "p \<in> set (cl_iterate front stores) \<longleftrightarrow> newest_in (concat stores) (pkey p) p"
proof
  assume n: "newest_in (concat stores) (pkey p) p"
  then have "pkey p \<in> pkey ` set (concat stores)" by (simp add: newest_in_def)
  then obtain q where q: "q \<in> set (cl_iterate front stores)" "pkey q = pkey p"
    unfolding cl_iterate_spec(3) [OF assms(1,2), symmetric] by auto
  then have "q = p"
    using cl_iterate_spec(2) [OF assms(1,2)] newest_in_unique [OF assms(3) _ n] by metis
  then show "p \<in> set (cl_iterate front stores)" using q by simp
qed (rule cl_iterate_spec(2) [OF assms(1,2)])

lemma cl_iterate_lookup:
  assumes "is_front front" "\<forall>t \<in> set stores. sorted_keys ckey t \<and> (\<forall>p \<in> set t. pkey p \<noteq> [])"
    and "no_ties (concat stores)"
  shows "lookup (cl_iterate front stores) k = Some p \<longleftrightarrow> newest_in (concat stores) k p"
  unfolding lookup_sorted_iff [OF cl_iterate_spec(1) [OF assms(1,2)]]
  using cl_iterate_set [OF assms, of p] by (auto simp: newest_in_def)

locale collection_source = s: list_source L inv key_ok ckey
  for L :: "'l list_ops" and inv key_ok +
  fixes front :: "pptr list list \<Rightarrow> nat"
  assumes front: "is_front front"
begin

lemma cl_stores:
  assumes "list_all inv ls" "t \<in> set (map (l_list L) ls)"
  shows "sorted_keys ckey t \<and> (\<forall>p \<in> set t. pkey p \<noteq> [])" "pairs_ok key_ok t"
  using assms s.list_sorted s.list_ok pairs_ok_key by (fastforce simp: list_all_iff)+

lemma cl_getPair_best_spec:
  assumes "list_all inv ls" "k \<noteq> []" "key_ok k" "\<And>b. best = Some b \<Longrightarrow> pkey b = k"
  shows "(case cl_getPair_best L ls k best of
      None \<Rightarrow> best = None \<and> (\<forall>q \<in> set (cl_pairs L ls). pkey q \<noteq> k)
    | Some p \<Rightarrow> newest_in (cl_pairs L ls @ (case best of None \<Rightarrow> [] | Some b \<Rightarrow> [b])) k p)"
  using assms(1,4)
proof (induction ls arbitrary: best)
  case Nil
  then show ?case by (auto simp: cl_pairs_def newest_in_def split: option.split)
next
  case (Cons l ls)
  let ?b = "getPairBestHelper (l_getPair L) l k best"
  have l: "inv l" "list_all inv ls" using Cons.prems by simp_all
  have g: "l_getPair L l k = lookup (l_list L l) k" using s.getPair_lookup l assms(2,3) by simp
  have sl: "sorted_keys ckey (l_list L l)" using s.list_sorted l by simp
  have b: "pkey c = k" if "?b = Some c" for c
    using that Cons.prems(2) lookup_Some_in [of "l_list L l" k] g
    by (auto simp: getPairBestHelper_def getNewestPair_def split: option.splits if_splits)
  note IH = Cons.IH [of ?b, OF l(2) b]
  let ?bl = "case best of None \<Rightarrow> [] | Some b \<Rightarrow> [b]"
  have split: "cl_pairs L (l # ls) = l_list L l @ cl_pairs L ls" by (simp add: cl_pairs_def)
  show ?case
  proof (cases "lookup (l_list L l) k")
    case None
    then have "?b = best" using g by (simp add: getPairBestHelper_def)
    moreover have "\<forall>q \<in> set (l_list L l). pkey q \<noteq> k" using None by (auto simp: lookup_None_iff)
    ultimately show ?thesis using IH newest_in_skip [of "l_list L l" k] split
      by (auto split: option.splits)
  next
    case (Some p)
    have np: "newest_in (l_list L l) k p"
      using Some lookup_sorted_iff [OF sl, of k] unfolding newest_in_def
      by (metis option.inject order_refl)
    obtain c where c: "?b = Some c" "newest_in (l_list L l @ ?bl) k c"
    proof (cases best)
      case None
      then show ?thesis using that [of p] np g Some by (simp add: getPairBestHelper_def)
    next
      case (Some b)
      then have "pkey b = k" using Cons.prems(2) by simp
      let ?c = "if getCreated (snd b) < getCreated (snd p) then p else b"
      have "?b = Some ?c"
        using g \<open>lookup (l_list L l) k = Some p\<close> Some by (simp add: getPairBestHelper_def getNewestPair_Some)
      moreover have "newest_in (l_list L l @ [b]) k ?c"
        using np \<open>pkey b = k\<close> unfolding newest_in_def by (auto intro: order_trans)
      ultimately show ?thesis using that [of ?c] Some by simp
    qed
    obtain x where x: "cl_getPair_best L ls k ?b = Some x" "newest_in (cl_pairs L ls @ [c]) k x"
      using IH c(1) by (auto split: option.splits)
    have "newest_in ((l_list L l @ cl_pairs L ls) @ ?bl) k x"
      using newest_in_trans [OF c(2) x(2)] by (auto simp: newest_in_def)
    then show ?thesis using x(1) split by simp
  qed
qed

lemma cl_source: "list_source (cl_ops front ne L) (cl_inv L inv) key_ok ckey"
proof unfold_locales
  fix ls k assume ls: "cl_inv L inv ls"
  let ?st = "map (l_list L) ls"
  have a: "list_all inv ls" and nt: "no_ties (concat ?st)" using ls by (simp_all add: cl_inv_def cl_pairs_def)
  have st: "\<forall>t \<in> set ?st. sorted_keys ckey t \<and> (\<forall>p \<in> set t. pkey p \<noteq> [])"
    using cl_stores(1) [OF a] by blast
  have out: "l_list (cl_ops front ne L) ls = cl_iterate front ?st" by (simp add: cl_begin_def)
  note spec = cl_iterate_spec [OF front st]
  show "sorted_keys ckey (l_list (cl_ops front ne L) ls)" unfolding out by (rule spec(1))
  have "pairs_ok key_ok [p]" if "p \<in> set (cl_iterate front ?st)" for p
  proof -
    have "p \<in> set (concat ?st)" using spec(2) [OF that] by (simp add: newest_in_def)
    then obtain t where "t \<in> set ?st" "p \<in> set t" by auto
    then show ?thesis using cl_stores(2) [OF a] pairs_ok_set by blast
  qed
  then show "pairs_ok key_ok (l_list (cl_ops front ne L) ls)" unfolding out pairs_ok_set [of _ "cl_iterate front ?st"] by blast
  assume k: "k \<noteq> []" "key_ok k"
  show "l_getPair (cl_ops front ne L) ls k = lookup (l_list (cl_ops front ne L) ls) k"
  proof (cases "cl_getPair L ls k")
    case None
    then have "k \<notin> pkey ` set (concat ?st)"
      using cl_getPair_best_spec [OF a k, of None] by (auto simp: cl_getPair_def cl_pairs_def)
    then have "lookup (cl_iterate front ?st) k = None" using spec(3) by (simp add: lookup_None_iff)
    then show ?thesis using None unfolding out by simp
  next
    case (Some p)
    then have "newest_in (concat ?st) k p"
      using cl_getPair_best_spec [OF a k, of None] by (simp add: cl_getPair_def cl_pairs_def)
    then show ?thesis using Some cl_iterate_lookup [OF front st nt, of k p] unfolding out by simp
  qed
  let ?D = "dropWhile (\<lambda>p. ckey (pkey p) < ckey k)"
  let ?sf = "map (\<lambda>l. getIterator L l k) ls"
  have sf: "?sf = map ?D ?st" using a k s.find_dropWhile by (auto simp: getIterator_def list_all_iff)
  have sfk: "\<forall>t \<in> set ?sf. sorted_keys ckey t \<and> (\<forall>p \<in> set t. pkey p \<noteq> [])"
    unfolding sf using st sorted_keys_dropWhile by (auto dest: set_dropWhileD)
  have cs: "set (concat ?sf) = {p \<in> set (concat ?st). ckey k \<le> ckey (pkey p)}"
    unfolding sf using st sorted_keys_dropWhile(2) by auto
  have ntf: "no_ties (concat ?sf)" using nt unfolding no_ties_def cs by blast
  have ni: "newest_in (concat ?sf) k' p \<longleftrightarrow> newest_in (concat ?st) k' p \<and> ckey k \<le> ckey k'" for k' p
    using newest_in_filter [OF cs] .
  have "cl_iterate front ?sf = ?D (cl_iterate front ?st)"
  proof (rule sorted_keys_set_eq)
    show "sorted_keys ckey (cl_iterate front ?sf)" by (rule cl_iterate_spec(1) [OF front sfk])
    show "sorted_keys ckey (?D (cl_iterate front ?st))" by (rule sorted_keys_dropWhile(1) [OF spec(1)])
    show "set (cl_iterate front ?sf) = set (?D (cl_iterate front ?st))"
      unfolding sorted_keys_dropWhile(2) [OF spec(1)]
      using cl_iterate_set [OF front sfk ntf] cl_iterate_set [OF front st nt] ni by auto
  qed
  then show "l_find (cl_ops front ne L) ls k = ?D (l_list (cl_ops front ne L) ls)"
    unfolding out by (simp add: cl_find_def)
qed

end

section \<open>A mutable list in front of a source\<close>

text \<open>
  The shape of the database: writes go to the first list, the second is read only.
\<close>

locale dual_list = m: memlist L1 inv1 key_ok ckey + dual_source L1 inv1 L2 inv2 key_ok
  for L1 :: "'a list_ops" and inv1 and L2 :: "'b list_ops" and inv2 and key_ok +
  assumes empty_law: "inv2 l \<Longrightarrow> l_empty L2 l \<Longrightarrow> l_list L2 l = []"
begin

lemma dl_insertF_inv:
  assumes "dl_inv inv1 inv2 l" "factory_wf f" "key_ok (factory_getKey f)" "dl_insertF L1 L2 now f l = (r, l')"
  shows "dl_inv inv1 inv2 l'" "insert_spec now f (l_list L1 (fst l)) r (l_list L1 (fst l'))" "snd l' = snd l"
proof -
  obtain l1 where l1: "l_insertF L1 now f (fst l) = (r, l1)" "l' = (l1, snd l)"
    using assms(4) by (auto simp: dl_insertF_def split: prod.splits)
  have "inv1 (fst l)" using assms(1) by (simp add: dl_inv_def)
  from m.insert_law [OF this assms(2,3) l1(1)] show "dl_inv inv1 inv2 l'"
    "insert_spec now f (l_list L1 (fst l)) r (l_list L1 (fst l'))" "snd l' = snd l"
    using l1(2) assms(1) by (simp_all add: dl_inv_def)
qed

text \<open>
  A write is visible through the dual list, unless the second list has a newer pair.
\<close>

lemma dl_insertF_getPair:
  assumes "dl_inv inv1 inv2 l" "factory_wf f" "key_ok (factory_getKey f)" "dl_insertF L1 L2 now f l = (r, l')"
    and "ir_pair r = Some p"
    and "\<And>q. lookup (l_list L2 (snd l)) (factory_getKey f) = Some q \<Longrightarrow>
      getCreated (snd q) \<le> factory_created now f"
  shows "dl_getPair L1 L2 l' (factory_getKey f) = Some p"
    and "k \<noteq> factory_getKey f \<Longrightarrow> k \<noteq> [] \<Longrightarrow> key_ok k \<Longrightarrow> dl_getPair L1 L2 l' k = dl_getPair L1 L2 l k"
proof -
  note ins = dl_insertF_inv [OF assms(1-4)]
  have lk: "lookup (l_list L1 (fst l')) (factory_getKey f) = Some p"
    and c: "getCreated (snd p) = factory_created now f"
    and o: "\<And>k. k \<noteq> factory_getKey f \<Longrightarrow> lookup (l_list L1 (fst l')) k = lookup (l_list L1 (fst l)) k"
    using ins(2) assms(5) by (auto simp: insert_spec_def)
  show "dl_getPair L1 L2 l' (factory_getKey f) = Some p"
    using getPair_newest [OF ins(1) factory_wf_key [OF assms(2)] assms(3)] lk c assms(6) ins(3)
    by (cases "lookup (l_list L2 (snd l)) (factory_getKey f)") (simp_all add: getNewestPair_swap)
  show "dl_getPair L1 L2 l' k = dl_getPair L1 L2 l k" if "k \<noteq> factory_getKey f" "k \<noteq> []" "key_ok k"
    using getPair_newest [OF ins(1) that(2,3)] getPair_newest [OF assms(1) that(2,3)] o [OF that(1)] ins(3)
    by simp
qed

text \<open>
  After \<open>erase\<close> with tombstones the key has no live value, whatever the second list holds, as
  long as that was not written after the clock of the deletion.
\<close>

lemma dl_erase_not_ok:
  assumes l: "dl_inv inv1 inv2 l" and key: "isKeyValid key" "key_ok key"
    and E: "E = TOMBSTONE_ERASE \<or> E = SMART_TOMBSTONE"
    and step: "dl_erase E L1 L2 now key l = (r, l')"
    and ok: "ir_status r \<notin> {ERROR_NO_MEMORY, ERROR}"
    and old: "\<And>q. lookup (l_list L2 (snd l)) key = Some q \<Longrightarrow> getCreated (snd q) \<le> now"
  shows "dl_inv inv1 inv2 l' \<and> \<not> getPairOK now' (dl_getPair L1 L2) l' key"
proof -
  have ne: "key \<noteq> []" using key(1) by (auto simp: isKeyValid_def isKeyValid_size_def)
  have i1: "inv1 (fst l)" using l by (simp add: dl_inv_def)
  show ?thesis
  proof (cases "E = SMART_TOMBSTONE \<and> l_empty L2 (snd l)")
    case True
    obtain l1 where l1: "l_erase L1 now key (fst l) = (r, l1)" "l' = (l1, snd l)"
      using step True by (auto simp: dl_erase_def Let_def split: prod.splits)
    note er = m.erase_law [OF i1 ne key(2) l1(1)]
    have inv': "dl_inv inv1 inv2 l'" using er l l1(2) by (simp add: dl_inv_def)
    have "l_list L2 (snd l) = []" using empty_law l True by (simp add: dl_inv_def)
    then have "dl_getPair L1 L2 l' key = None"
      using getPair_newest [OF inv' ne key(2)] er l1(2) by (simp add: erase_spec_def)
    then show ?thesis using inv' by (simp add: getPairOK_def getPairOK_pred_def)
  next
    case False
    let ?f = "Tombstone key 0"
    have f: "factory_wf ?f" "key_ok (factory_getKey ?f)" using key by simp_all
    have ins: "dl_insertF L1 L2 now ?f l = (r, l')"
      using step E False by (auto simp: dl_erase_def insertTS_def dl_insertF_def Let_def split: if_splits)
    note spec = dl_insertF_inv [OF l f ins]
    have "ir_status r \<noteq> SKIP_INSERTED"
    proof -
      have "isValidForReplace 0 q" for q
        by (simp add: isValidForReplace_def isValidForReplace64_def prepareCreateTimeSimulate_def)
      then show ?thesis using spec(2) by (simp add: insert_spec_def)
    qed
    then have "ir_pair r \<noteq> None" using spec(2) ok by (cases "ir_status r") (auto simp: insert_spec_def)
    then obtain p where p: "ir_pair r = Some p" by auto
    then have "isTombstone (snd p)" using spec(2) by (auto simp: insert_spec_def factory_tomb_def)
    moreover have "dl_getPair L1 L2 l' key = Some p"
      using dl_insertF_getPair(1) [OF l f ins p] old by (simp add: prepareCreateTime_def)
    ultimately show ?thesis using spec(1)
      by (simp add: getPairOK_def getPairOK_pred_def not_isOK_tombstone)
  qed
qed

end

section \<open>The instances\<close>

interpretation clv: collection_source "vl_ops A grow" vl_inv "\<lambda>k. True" first_front for A grow
  by unfold_locales (rule is_front_first_front)

interpretation clv: list_source "cl_ops first_front ne (vl_ops A grow)" "cl_inv (vl_ops A grow) vl_inv" "\<lambda>k. True" ckey
  for ne A grow
  by (rule clv.cl_source)

lemma dual_tables:
  assumes "is_front front"
  shows "dual_list (vl_ops A1 grow1) vl_inv (cl_ops front True (vl_ops A2 grow2)) (cl_inv (vl_ops A2 grow2) vl_inv) (\<lambda>k. True)"
proof -
  have c: "collection_source (vl_ops A2 grow2) vl_inv (\<lambda>k. True) front" using assms by unfold_locales
  have "l_list (cl_ops front True (vl_ops A2 grow2)) ls = []" if "l_empty (cl_ops front True (vl_ops A2 grow2)) ls" for ls
    using that by (simp add: cl_empty_def cl_begin_def cl_iterate_def ci_create_def)
  then show ?thesis
    using collection_source.cl_source [OF c] vl.memlist_axioms vl.list_source_axioms
    by (intro dual_list.intro dual_source.intro dual_list_axioms.intro) auto
qed

interpretation dlv: dual_list "vl_ops A1 grow1" vl_inv "cl_ops first_front True (vl_ops A2 grow2)"
  "cl_inv (vl_ops A2 grow2) vl_inv" "\<lambda>k. True" for A1 grow1 A2 grow2
  by (rule dual_tables [OF is_front_first_front])

section \<open>Properties\<close>

text \<open>
  The second list is a collection of sorted tables that are lists themselves, each read with the lookup
  \<open>getPairBestHelper\<close> gives to every list; \<open>front\<close> is the choice the heap makes among equal fronts.  The tables on
  disk with their own, pruned, lookup are in theory \<open>DiskList\<close>.
\<close>

abbreviation tables_ops :: "(pptr list list \<Rightarrow> nat) \<Rightarrow> 's allocator_ops \<Rightarrow> (nat \<Rightarrow> bool) \<Rightarrow> 's VectorList list list_ops" where
  "tables_ops front A grow \<equiv> cl_ops front True (vl_ops A grow)"

text \<open>A table with one live pair.\<close>

definition sample_table :: "ArenaAllocator VectorList" where
  "sample_table = snd (vl_insertF arena_ops (\<lambda>n. True) 1 (Normal [98] [1, 2] 0 0) (vl_empty arena4k))"

lemma htobe32_0: "htobe32 0 = 0" by code_simp

lemma sample_table:
  obtains p where "vl_inv sample_table" "vl_vector sample_table = [p]" "pkey p = [98]"
    "getVal (snd p) = [1, 2]" "getCreated (snd p) = 1" "isOK now (snd p)"
    "cl_inv (vl_ops arena_ops (\<lambda>n. True)) vl_inv [sample_table]"
proof -
  let ?f = "Normal [98] [1, 2] 0 0" and ?e = "vl_empty arena4k"
  obtain r where r: "vl_insertF arena_ops (\<lambda>n. True) 1 ?f ?e = (r, sample_table)"
    by (simp add: sample_table_def prod_eq_iff)
  have f: "factory_wf ?f" by (simp add: eval_simps)
  have s: "vl_inv sample_table" "insert_spec 1 ?f [] r (vl_vector sample_table)"
    using vl.insert_law [OF vl_inv_empty [of arena4k] f, of arena_ops "\<lambda>n. True" 1 r sample_table] r by (simp_all add: vl_empty_def)
  have "\<exists>p. vl_vector (snd (vl_insertF arena_ops (\<lambda>n. True) 1 ?f ?e)) = [p] \<and>
      ir_pair (fst (vl_insertF arena_ops (\<lambda>n. True) 1 ?f ?e)) = Some p" by (simp add: eval_simps)
  then obtain p where p: "vl_vector sample_table = [p]" "ir_pair r = Some p" unfolding r by auto
  have k: "pkey p = [98]" using s(2) p by (auto simp: insert_spec_def lookup_Cons split: if_splits)
  have v: "getVal (snd p) = [1, 2]" "getCreated (snd p) = 1" "getExpires (snd p) = 0"
    using s(2) p(2) by (auto simp: insert_spec_def prepareCreateTime_def factory_full_def)
  have "getValLen (snd p) = 2"
    using length_getVal [of "snd p"] v(1) vl.list_ok [OF s(1), of arena_ops "\<lambda>n. True"] p(1) by (simp add: pairs_ok_def)
  moreover have "htobe32 (betoh32 (p_expires (snd p))) = htobe32 0" using v(3) by (simp only: getExpires_def)
  then have "p_expires (snd p) = 0" by (simp add: htobe32_0)
  ultimately have o: "isOK now (snd p)" using v(3)
    by (simp add: isOK_def isTombstone_iff isExpired0_def EXPIRES_TOMBSTONE_def)
  have "cl_inv (vl_ops arena_ops (\<lambda>n. True)) vl_inv [sample_table]"
    using s(1) p(1) by (simp add: cl_inv_def cl_pairs_def no_ties_def)
  then show ?thesis using that s(1) p(1) k v(1,2) o by blast
qed

text \<open>
  C18: A dual list of a memory list and a collection of tables reads consistently: the point lookup
  \<open>getPair\<close> of a non-empty key finds exactly what the ordered iteration yields,
  \<open>find\<close> is the iteration from the first key not smaller, the iteration is strictly increasing,
  and for each key the pair is the newest over all lists, the memory list's when it is as new.  The lists are
  vector lists, the tables too: each table is read with the generic best pair helper.  It is not a claim about
  tables on disk, whose own lookup skips tables by a wrong creation time and does not have this property.  No
  two tables hold pairs of one key with the same creation time; which of the iterators that compare equal the
  heap puts in front does not matter.
\<close>

theorem dual_list_reads_agree:
  assumes "vl_inv m" "cl_inv (vl_ops A2 grow2) vl_inv ts" "k \<noteq> []" "is_front front"
  shows "dl_getPair (vl_ops A1 grow1) (tables_ops front A2 grow2) (m, ts) k = lookup (dl_begin (vl_ops A1 grow1) (tables_ops front A2 grow2) (m, ts)) k \<and>
    dl_find (vl_ops A1 grow1) (tables_ops front A2 grow2) (m, ts) k = dropWhile (\<lambda>p. ckey (pkey p) < ckey k) (dl_begin (vl_ops A1 grow1) (tables_ops front A2 grow2) (m, ts)) \<and>
    sorted_keys ckey (dl_begin (vl_ops A1 grow1) (tables_ops front A2 grow2) (m, ts)) \<and>
    dl_getPair (vl_ops A1 grow1) (tables_ops front A2 grow2) (m, ts) k =
      getNewestPair (lookup (cl_begin front (vl_ops A2 grow2) ts) k) (lookup (vl_vector m) k)"
proof -
  have inv: "dl_inv vl_inv (cl_inv (vl_ops A2 grow2) vl_inv) (m, ts)" using assms(1,2) by (simp add: dl_inv_def)
  note d = dual_tables [OF assms(4), of A1 grow1 A2 grow2]
  note ds = dual_list.axioms(2) [OF d]
  note s = dual_source.dl_source [OF ds, where E = NORMAL]
  show ?thesis
    using list_source.getPair_lookup [OF s inv assms(3)] list_source.find_dropWhile [OF s inv assms(3)]
      list_source.list_sorted [OF s inv] dual_source.getPair_newest [OF ds inv assms(3)]
    by simp
qed

theorem dual_list_reads_agree_witness:
  "\<exists>p. dl_getPair (vl_ops arena_ops (\<lambda>n. True)) (tables_ops first_front arena_ops (\<lambda>n. True)) (vl_empty arena4k, [sample_table]) [98] = Some p \<and>
    getVal (snd p) = [1, 2] \<and>
    lookup (dl_begin (vl_ops arena_ops (\<lambda>n. True)) (tables_ops first_front arena_ops (\<lambda>n. True)) (vl_empty arena4k, [sample_table])) [98] = Some p"
proof -
  obtain p where p: "vl_inv sample_table" "vl_vector sample_table = [p]" "pkey p = [98]" "getVal (snd p) = [1, 2]"
    "cl_inv (vl_ops arena_ops (\<lambda>n. True)) vl_inv [sample_table]" by (rule sample_table)
  have e: "[98 :: byte] \<noteq> []" "vl_vector (vl_empty arena4k) = []" by (simp_all add: vl_empty_def)
  note g = dual_list_reads_agree [OF vl_inv_empty [of arena4k] p(5) e(1) is_front_first_front, of arena_ops "\<lambda>n. True"]
  have "cl_getPair (vl_ops arena_ops (\<lambda>n. True)) [sample_table] [98] = Some p"
    using vl.getPair_lookup [OF p(1), of "[98]" arena_ops "\<lambda>n. True"] p(2,3)
    by (simp add: cl_getPair_def getPairBestHelper_def lookup_Cons)
  then have lk: "lookup (cl_begin first_front (vl_ops arena_ops (\<lambda>n. True)) [sample_table]) [98] = Some p"
    using clv.getPair_lookup [OF p(5), of "[98]"] by simp
  have "dl_getPair (vl_ops arena_ops (\<lambda>n. True)) (tables_ops first_front arena_ops (\<lambda>n. True)) (vl_empty arena4k, [sample_table]) [98] = Some p"
    using conjunct2 [OF conjunct2 [OF conjunct2 [OF g]]] unfolding lk e(2) by (simp add: getNewestPair_def)
  then show ?thesis using g p(4) by metis
qed

text \<open>
  C19: An erase through the dual list hides the key, also when a table still holds it: in the tombstone modes,
  unless memory runs out, no later read sees a live pair of the key.  The newest pair of the key in the tables
  was not created after the time of the erase; a pair from the future would still be seen.  The lists are
  vector lists, the tables too, read with the generic best pair helper and not with the lookup of tables on
  disk, and no two tables hold pairs of one key with the same creation time.
\<close>

theorem dual_list_erase_hides:
  assumes "vl_inv m" "cl_inv (vl_ops A2 grow2) vl_inv ts" "isKeyValid key" "is_front front"
    and "E \<in> {TOMBSTONE_ERASE, SMART_TOMBSTONE}" "dl_erase E (vl_ops A1 grow1) (tables_ops front A2 grow2) now key (m, ts) = (r, l')"
    and "ir_status r \<notin> {ERROR_NO_MEMORY, ERROR}"
    and "\<And>q. lookup (cl_begin front (vl_ops A2 grow2) ts) key = Some q \<Longrightarrow> getCreated (snd q) \<le> now"
  shows "\<not> getPairOK now' (dl_getPair (vl_ops A1 grow1) (tables_ops front A2 grow2)) l' key"
proof -
  have inv: "dl_inv vl_inv (cl_inv (vl_ops A2 grow2) vl_inv) (m, ts)" using assms(1,2) by (simp add: dl_inv_def)
  have E: "E = TOMBSTONE_ERASE \<or> E = SMART_TOMBSTONE" using assms(5) by simp
  have old: "\<And>q. lookup (l_list (tables_ops front A2 grow2) (snd (m, ts))) key = Some q \<Longrightarrow>
      getCreated (snd q) \<le> now" using assms(8) by simp
  show ?thesis
    using dual_list.dl_erase_not_ok [OF dual_tables [OF assms(4)] inv assms(3) TrueI E assms(6,7) old] by blast
qed

theorem dual_list_erase_hides_witness:
  "getPairOK 9 (dl_getPair (vl_ops arena_ops (\<lambda>n. True)) (tables_ops first_front arena_ops (\<lambda>n. True)))
     (vl_empty arena4k, [sample_table]) [98] \<and>
   \<not> getPairOK 9 (dl_getPair (vl_ops arena_ops (\<lambda>n. True)) (tables_ops first_front arena_ops (\<lambda>n. True)))
     (snd (dl_erase TOMBSTONE_ERASE (vl_ops arena_ops (\<lambda>n. True)) (tables_ops first_front arena_ops (\<lambda>n. True))
        5 [98] (vl_empty arena4k, [sample_table]))) [98]"
proof -
  let ?L = "vl_ops arena_ops (\<lambda>n. True)"
  let ?T = "tables_ops first_front arena_ops (\<lambda>n. True)"
  let ?r = "dl_erase TOMBSTONE_ERASE ?L ?T 5 [98] (vl_empty arena4k, [sample_table])"
  obtain p where p: "vl_inv sample_table" "vl_vector sample_table = [p]" "pkey p = [98]" "getCreated (snd p) = 1"
    "isOK 9 (snd p)" "cl_inv (vl_ops arena_ops (\<lambda>n. True)) vl_inv [sample_table]" by (rule sample_table)
  have g: "cl_getPair ?L [sample_table] [98] = Some p"
    using vl.getPair_lookup [OF p(1), of "[98]" arena_ops "\<lambda>n. True"] p(2,3)
    by (simp add: cl_getPair_def getPairBestHelper_def lookup_Cons)
  then have lk: "lookup (cl_begin first_front ?L [sample_table]) [98] = Some p"
    using clv.getPair_lookup [OF p(6), of "[98]"] by simp
  have "dl_getPair ?L ?T (vl_empty arena4k, [sample_table]) [98] = Some p"
    using g vl.getPair_lookup [OF vl_inv_empty [of arena4k], of "[98]" arena_ops "\<lambda>n. True"]
    by (simp add: dl_getPair_def dl_getPair_best_def getPairBestHelper_def getNewestPair_def vl_empty_def)
  then have live: "getPairOK 9 (dl_getPair ?L ?T) (vl_empty arena4k, [sample_table]) [98]"
    using p(5) by (simp add: getPairOK_def getPairOK_pred_def)
  have "ir_status (fst ?r) \<notin> {ERROR_NO_MEMORY, ERROR}"
    by (simp add: eval_simps dl_erase_def insertTS_def TOMBSTONE_def Let_def)
  then have "\<not> getPairOK 9 (dl_getPair ?L ?T) (snd ?r) [98]"
    using dual_list_erase_hides [OF vl_inv_empty [of arena4k] p(6), of "[98]" first_front TOMBSTONE_ERASE arena_ops "\<lambda>n. True" 5 "fst ?r" "snd ?r"]
      lk p(4) is_front_first_front by (simp add: eval_simps)
  then show ?thesis using live by blast
qed

end
