(* ===== verification/FileMeta.thy ===== *)
theory FileMeta
  imports Pair
begin

text \<open>
  \<^verbatim>\<open>hm4/disk/filemetablob.h\<close>, \<^verbatim>\<open>hm4/disk/filemetablob.cc\<close>, \<^verbatim>\<open>hm4/disk/filemeta.h\<close>,
  \<^verbatim>\<open>hm4/disk/filemeta.cc\<close> and the class \<open>FileMetaBuilder\<close> of \<^verbatim>\<open>hm4/disk/filebuilder.cc\<close>: the header
  file of a disk table.  The blob is a packed struct of big endian fields; its bytes are the contents
  of the file.
\<close>

section \<open>Integers in memory\<close>

definition store_le :: "nat \<Rightarrow> 'a::len word \<Rightarrow> str" where
  "store_le n w = map (\<lambda>i. ucast (drop_bit (8 * i) w)) [0..<n]"

lemma length_store_le [simp]: "length (store_le n w) = n"
  by (simp add: store_le_def)

lemma load_store_le:
  fixes w :: "'a::len word"
  assumes "LENGTH('a) \<le> 8 * n" "LENGTH('a) \<le> 64"
  shows "ucast (load_le (store_le n w)) = w"
proof (rule bit_word_eqI)
  fix i assume i: "i < LENGTH('a)"
  then have "i div 8 < n" "i < 64" using assms by auto
  then show "bit (ucast (load_le (store_le n w)) :: 'a word) i \<longleftrightarrow> bit w i"
    using i by (simp add: bit_simps bit_load_le store_le_def)
qed

lemma store_load_le:
  assumes "length bs = n" "n \<le> 8"
  shows "store_le n (load_le bs) = bs"
proof (rule nth_equalityI)
  fix i assume "i < length (store_le n (load_le bs))"
  then have i: "i < n" by simp
  show "store_le n (load_le bs) ! i = bs ! i"
  proof (rule bit_word_eqI)
    fix j assume j: "j < LENGTH(8)"
    have "(8 * i + j) div 8 = i" "(8 * i + j) mod 8 = j" "8 * i + j < 64" using i j assms by simp_all
    then show "bit (store_le n (load_le bs) ! i) j \<longleftrightarrow> bit (bs ! i) j"
      using i j assms by (simp add: store_le_def bit_simps bit_load_le)
  qed
qed (simp add: assms)

definition load16 :: "str \<Rightarrow> u16" where "load16 bs = ucast (load_le (take 2 bs))"
definition load32 :: "str \<Rightarrow> u32" where "load32 bs = ucast (load_le (take 4 bs))"
definition load64 :: "str \<Rightarrow> u64" where "load64 bs = load_le (take 8 bs)"

lemma load_store [simp]:
  "load16 (store_le 2 a @ r) = a" "load32 (store_le 4 b @ r) = b" "load64 (store_le 8 c @ r) = c"
  "load64 (store_le 8 c) = c"
  using load_store_le [of 2 a] load_store_le [of 4 b] load_store_le [of 8 c]
  by (simp_all add: load16_def load32_def load64_def)

section \<open>FileMetaBlob\<close>

record FileMetaBlob =
  fb_logo :: str
  fb_version :: u16
  fb_options :: u16
  fb_created :: u32
  fb_size :: u64
  fb_tombstones :: u64
  fb_createdMin :: u64
  fb_createdMax :: u64

text \<open>The characters of ``ZUSE005''.\<close>

definition LOGO :: str where "LOGO = [90, 85, 83, 69, 48, 48, 53]"
definition VERSION :: u16 where "VERSION = 6"
definition OPTIONS_NONE :: u16 where "OPTIONS_NONE = 0"
definition OPTIONS_SORTED :: u16 where "OPTIONS_SORTED = push_bit 0 1"
definition OPTIONS_ALIGNED :: u16 where "OPTIONS_ALIGNED = push_bit 1 1"
definition sizeof_FileMetaBlob :: nat where "sizeof_FileMetaBlob = 48"

definition FileMetaBlob_create :: "u32 \<Rightarrow> u16 \<Rightarrow> u64 \<Rightarrow> u64 \<Rightarrow> u64 \<Rightarrow> u64 \<Rightarrow> FileMetaBlob" where
  "FileMetaBlob_create now32 options count tombstones createdMin createdMax =
     \<lparr>fb_logo = LOGO @ [0],
      fb_version = htobe16 VERSION,
      fb_options = htobe16 options,
      fb_created = htobe32 now32,
      fb_size = htobe64 count,
      fb_tombstones = htobe64 tombstones,
      fb_createdMin = htobe64 createdMin,
      fb_createdMax = htobe64 createdMax\<rparr>"

text \<open>The bytes of the packed struct, and the struct that some bytes are.\<close>

definition blob_image :: "FileMetaBlob \<Rightarrow> str" where
  "blob_image b =
     fb_logo b @ store_le 2 (fb_version b) @ store_le 2 (fb_options b) @ store_le 4 (fb_created b) @
     store_le 8 (fb_size b) @ store_le 8 (fb_tombstones b) @ store_le 8 (fb_createdMin b) @
     store_le 8 (fb_createdMax b)"

definition blob_read :: "str \<Rightarrow> FileMetaBlob" where
  "blob_read s =
     \<lparr>fb_logo = take 8 s,
      fb_version = load16 (drop 8 s),
      fb_options = load16 (drop 10 s),
      fb_created = load32 (drop 12 s),
      fb_size = load64 (drop 16 s),
      fb_tombstones = load64 (drop 24 s),
      fb_createdMin = load64 (drop 32 s),
      fb_createdMax = load64 (drop 40 s)\<rparr>"

section \<open>FileMeta\<close>

type_synonym FileMeta = FileMetaBlob

definition meta_clear :: "FileMeta \<Rightarrow> FileMeta" where
  "meta_clear m = m\<lparr>fb_version := 0, fb_size := 0\<rparr>"

definition meta_bool :: "FileMeta \<Rightarrow> bool" where
  "meta_bool m \<longleftrightarrow> fb_version m \<noteq> 0"

definition meta_version :: "FileMeta \<Rightarrow> u16" where
  "meta_version m = betoh16 (fb_version m)"

definition meta_sorted :: "FileMeta \<Rightarrow> bool" where
  "meta_sorted m \<longleftrightarrow> betoh16 (fb_options m) AND OPTIONS_SORTED \<noteq> 0"

definition meta_aligned :: "FileMeta \<Rightarrow> bool" where
  "meta_aligned m \<longleftrightarrow> betoh16 (fb_options m) AND OPTIONS_ALIGNED \<noteq> 0"

definition meta_size :: "FileMeta \<Rightarrow> u64" where
  "meta_size m = betoh64 (fb_size m)"

definition meta_created :: "FileMeta \<Rightarrow> u32" where
  "meta_created m = betoh32 (fb_created m)"

definition meta_createdMin :: "FileMeta \<Rightarrow> u64" where
  "meta_createdMin m = betoh64 (fb_createdMin m)"

text \<open>The field that this accessor reads is \<open>createdMin\<close>.\<close>

definition meta_createdMax :: "FileMeta \<Rightarrow> u64" where
  "meta_createdMax m = betoh64 (fb_createdMin m)"

text \<open>
  \<open>open\<close>: a stream that could not be opened reads nothing; a short file overwrites the beginning of
  the blob and sets the fail bit.
\<close>

definition meta_open :: "FileMeta \<Rightarrow> str option \<Rightarrow> bool \<times> FileMeta" where
  "meta_open m file =
     (case file of
        None \<Rightarrow> (False, meta_clear m)
      | Some s \<Rightarrow>
          (let m = blob_read (write_at 0 (take sizeof_FileMetaBlob s) (blob_image m)) in
           if length s < sizeof_FileMetaBlob then (False, meta_clear m)
           else if take (length LOGO) (fb_logo m) \<noteq> LOGO then (False, meta_clear m)
           else if meta_version m \<noteq> VERSION then (False, meta_clear m)
           else (True, m)))"

section \<open>FileMetaBuilder\<close>

definition fixMinMax :: "u64 \<Rightarrow> u64 \<Rightarrow> u64 \<Rightarrow> u64" where
  "fixMinMax val limit fallback = (if val = limit then fallback else val)"

definition fixMin :: "u64 \<Rightarrow> u64" where
  "fixMin val = fixMinMax val 0xFFFFFFFFFFFFFFFF 0"

definition fixMax :: "u64 \<Rightarrow> u64" where
  "fixMax val = fixMinMax val 0 0"

record FileMetaBuilder =
  mb_min :: u64
  mb_max :: u64
  mb_count :: u64
  mb_tombstones :: u64

definition metaBuilder_init :: FileMetaBuilder where
  "metaBuilder_init = \<lparr>mb_min = 0xFFFFFFFFFFFFFFFF, mb_max = 0, mb_count = 0, mb_tombstones = 0\<rparr>"

definition metaBuilder_push :: "Pair \<Rightarrow> FileMetaBuilder \<Rightarrow> FileMetaBuilder" where
  "metaBuilder_push pair b =
     (let created = getCreated pair;
          b = (if created < mb_min b then b\<lparr>mb_min := created\<rparr> else b);
          b = (if created > mb_max b then b\<lparr>mb_max := created\<rparr> else b);
          b = (if isTombstone pair then b\<lparr>mb_tombstones := mb_tombstones b + 1\<rparr> else b)
      in b\<lparr>mb_count := mb_count b + 1\<rparr>)"

text \<open>The destructor writes the blob; \<open>aligned\<close> is the write option.\<close>

definition metaBuilder_blob :: "u32 \<Rightarrow> bool \<Rightarrow> FileMetaBuilder \<Rightarrow> FileMetaBlob" where
  "metaBuilder_blob now32 aligned b =
     (let option_aligned = (if aligned then OPTIONS_ALIGNED else OPTIONS_NONE);
          options = OPTIONS_NONE OR OPTIONS_SORTED OR option_aligned
      in FileMetaBlob_create now32 options (mb_count b) (mb_tombstones b)
           (fixMin (mb_min b)) (fixMax (mb_max b)))"

definition meta_file :: "u32 \<Rightarrow> bool \<Rightarrow> Pair list \<Rightarrow> str" where
  "meta_file now32 aligned ps =
     blob_image (metaBuilder_blob now32 aligned (fold metaBuilder_push ps metaBuilder_init))"

section \<open>The bytes and the struct\<close>

lemma length_LOGO [simp]: "length LOGO = 7"
  by (simp add: LOGO_def)

definition blob_wf :: "FileMetaBlob \<Rightarrow> bool" where
  "blob_wf b \<longleftrightarrow> length (fb_logo b) = 8"

lemma length_blob_image: "blob_wf b \<Longrightarrow> length (blob_image b) = sizeof_FileMetaBlob"
  by (simp add: blob_wf_def blob_image_def sizeof_FileMetaBlob_def)

lemma blob_read_image: "blob_wf b \<Longrightarrow> blob_read (blob_image b) = b"
  by (simp add: blob_wf_def blob_read_def blob_image_def)

lemma blob_create_wf [simp]: "blob_wf (FileMetaBlob_create n o' c t mi ma)"
  by (simp add: blob_wf_def FileMetaBlob_create_def LOGO_def)

lemma open_image:
  assumes "blob_wf m" "blob_wf b" "take 7 (fb_logo b) = LOGO" "meta_version b = VERSION"
  shows "meta_open m (Some (blob_image b @ rest)) = (True, b)"
  using assms length_blob_image [OF assms(1)] length_blob_image [OF assms(2)] blob_read_image [OF assms(2)]
  by (simp add: meta_open_def write_at_def)

text \<open>A failed open always leaves a cleared header: not valid, and of size zero.\<close>

lemma open_failed:
  assumes "meta_open m file = (False, m')"
  shows "\<not> meta_bool m'" "meta_size m' = 0"
  using assms
  by (auto simp: meta_open_def meta_clear_def meta_bool_def meta_size_def endian_defs Let_def
        split: option.splits if_splits)

section \<open>What the builder counts\<close>

lemma metaBuilder_fields:
  "mb_count (metaBuilder_push p b) = mb_count b + 1"
  "mb_tombstones (metaBuilder_push p b) = mb_tombstones b + of_bool (isTombstone p)"
  "mb_min (metaBuilder_push p b) = min (mb_min b) (getCreated p)"
  "mb_max (metaBuilder_push p b) = max (mb_max b) (getCreated p)"
  by (auto simp: metaBuilder_push_def Let_def min_def max_def)

lemma metaBuilder_run:
  fixes b :: FileMetaBuilder and ps :: "Pair list"
  defines "b' \<equiv> fold metaBuilder_push ps b"
  shows "mb_count b' = mb_count b + of_nat (length ps)"
    "mb_tombstones b' = mb_tombstones b + of_nat (length (filter isTombstone ps))"
    "mb_min b' = fold min (map getCreated ps) (mb_min b)"
    "mb_max b' = fold max (map getCreated ps) (mb_max b)"
  unfolding b'_def
  by (induction ps arbitrary: b)
     (simp_all add: metaBuilder_fields min.commute max.commute)

lemma fold_min_le: "fold min xs (m :: 'a::linorder) \<le> m" "x \<in> set xs \<Longrightarrow> fold min xs m \<le> x"
proof (induction xs arbitrary: m)
  case (Cons y ys)
  { case 1 show ?case using Cons.IH(1) [of "min y m"] by simp }
  { case 2 show ?case using Cons.IH(1) [of "min y m"] Cons.IH(2) [of "min y m"] 2 by auto }
qed simp_all

lemma fold_min_in: "fold min xs (m :: 'a::linorder) \<in> insert m (set xs)"
proof (induction xs arbitrary: m)
  case (Cons y ys)
  show ?case using Cons.IH [of "min y m"] by (auto simp: min_def split: if_splits)
qed simp

text \<open>The smallest creation time as the file has it: zero for an empty table.\<close>

definition minCreated :: "Pair list \<Rightarrow> u64" where
  "minCreated ps = fixMin (fold min (map getCreated ps) 0xFFFFFFFFFFFFFFFF)"

lemma minCreated_le:
  assumes "p \<in> set ps"
  shows "minCreated ps \<le> getCreated p"
proof -
  have "fold min (map getCreated ps) 0xFFFFFFFFFFFFFFFF \<le> getCreated p"
    by (rule fold_min_le(2)) (use assms in simp)
  then show ?thesis by (simp add: minCreated_def fixMin_def fixMinMax_def)
qed

lemma meta_file_open:
  assumes "blob_wf m"
  shows "meta_open m (Some (meta_file now32 aligned ps)) =
    (True, metaBuilder_blob now32 aligned (fold metaBuilder_push ps metaBuilder_init))"
proof -
  let ?b = "metaBuilder_blob now32 aligned (fold metaBuilder_push ps metaBuilder_init)"
  have "blob_wf ?b" "take 7 (fb_logo ?b) = LOGO" "meta_version ?b = VERSION"
    by (simp_all add: metaBuilder_blob_def)
       (simp_all add: FileMetaBlob_create_def LOGO_def meta_version_def)
  from open_image [OF assms this, of "[]"] show ?thesis by (simp add: meta_file_def)
qed

lemma option_bits:
  "(OPTIONS_NONE OR OPTIONS_SORTED OR x) AND OPTIONS_SORTED \<noteq> 0"
  "(OPTIONS_NONE OR OPTIONS_SORTED OR (if a then OPTIONS_ALIGNED else OPTIONS_NONE)) AND OPTIONS_ALIGNED \<noteq> 0
     \<longleftrightarrow> a"
proof -
  have "bit ((OPTIONS_NONE OR OPTIONS_SORTED OR x) AND OPTIONS_SORTED) 0"
    by (simp add: OPTIONS_SORTED_def bit_simps)
  then show "(OPTIONS_NONE OR OPTIONS_SORTED OR x) AND OPTIONS_SORTED \<noteq> 0" by fastforce
  show "(OPTIONS_NONE OR OPTIONS_SORTED OR (if a then OPTIONS_ALIGNED else OPTIONS_NONE)) AND OPTIONS_ALIGNED \<noteq> 0
     \<longleftrightarrow> a"
    by (simp add: OPTIONS_SORTED_def OPTIONS_ALIGNED_def OPTIONS_NONE_def)
qed

lemma metaBuilder_accessors:
  fixes now32 :: u32 and aligned :: bool and ps :: "Pair list"
  defines "m \<equiv> metaBuilder_blob now32 aligned (fold metaBuilder_push ps metaBuilder_init)"
  shows "meta_bool m" "meta_version m = VERSION" "meta_sorted m" "meta_aligned m = aligned" "meta_size m = of_nat (length ps)"
    "meta_created m = now32" "betoh64 (fb_tombstones m) = of_nat (length (filter isTombstone ps))"
    "meta_createdMin m = minCreated ps" "meta_createdMax m = minCreated ps"
    "betoh64 (fb_createdMax m) = fold max (map getCreated ps) 0"
  unfolding m_def
  using option_bits
  by (simp_all add: metaBuilder_blob_def Let_def FileMetaBlob_create_def meta_bool_def meta_version_def meta_sorted_def
        meta_aligned_def meta_size_def meta_created_def meta_createdMin_def meta_createdMax_def
        metaBuilder_run metaBuilder_init_def minCreated_def VERSION_def fixMax_def fixMinMax_def)

section \<open>The header file\<close>

text \<open>
  C29: the header file that the builder writes is read back by \<open>open\<close> into any header object, and
  the accessors return the options, the number of records, the creation time of the file and the
  smallest creation time of a record (zero for an empty table); the tombstone counter is the number
  of tombstones.\<close>

theorem file_meta_roundtrip:
  assumes "blob_wf m" and "meta_open m (Some (meta_file now32 aligned ps)) = (ok, m')"
  shows "ok \<and> meta_bool m' \<and> meta_version m' = VERSION \<and> meta_sorted m' \<and> meta_aligned m' = aligned \<and>
    meta_size m' = of_nat (length ps) \<and> meta_created m' = now32 \<and> meta_createdMin m' = minCreated ps \<and>
    betoh64 (fb_tombstones m') = of_nat (length (filter isTombstone ps))"
  using assms(2) metaBuilder_accessors [of now32 aligned ps] meta_file_open [OF assms(1), of now32 aligned ps]
  by auto

theorem file_meta_roundtrip_witness:
  "meta_size (snd (meta_open (FileMetaBlob_create 0 0 0 0 0 0) (Some (meta_file 77 True [])))) = 0"
  using file_meta_roundtrip [of "FileMetaBlob_create 0 0 0 0 0 0" 77 True "[]"
      "fst (meta_open (FileMetaBlob_create 0 0 0 0 0 0) (Some (meta_file 77 True [])))"
      "snd (meta_open (FileMetaBlob_create 0 0 0 0 0 0) (Some (meta_file 77 True [])))"]
  by simp

text \<open>
  A header file that is missing, shorter than the header, or has another logo or another version
  is refused, and then the header object is cleared: it tests false and has size zero, whatever it
  held before.\<close>

lemma file_meta_open_refuses:
  assumes "blob_wf m" and "meta_open m contents = (ok, m')"
  shows "ok = (case contents of None \<Rightarrow> False
      | Some s \<Rightarrow> sizeof_FileMetaBlob \<le> length s \<and> take 7 s = LOGO \<and> betoh16 (load16 (drop 8 s)) = VERSION)
    \<and> (\<not> ok \<longrightarrow> \<not> meta_bool m' \<and> meta_size m' = 0)"
proof (cases contents)
  case None
  then show ?thesis using assms(2) open_failed [of m contents m'] by (simp add: meta_open_def)
next
  case (Some s)
  let ?w = "write_at 0 (take sizeof_FileMetaBlob s) (blob_image m)"
  have w: "?w = take sizeof_FileMetaBlob s" if "sizeof_FileMetaBlob \<le> length s"
    using that length_blob_image [OF assms(1)] by (simp add: write_at_def)
  have "ok = (sizeof_FileMetaBlob \<le> length s \<and> take 7 (take 8 ?w) = LOGO \<and> betoh16 (load16 (drop 8 ?w)) = VERSION)"
    using assms(2) Some
    by (auto simp: meta_open_def Let_def blob_read_def meta_version_def split: if_splits)
  also have "\<dots> = (sizeof_FileMetaBlob \<le> length s \<and> take 7 s = LOGO \<and> betoh16 (load16 (drop 8 s)) = VERSION)"
    using w by (cases "sizeof_FileMetaBlob \<le> length s")
      (simp_all add: sizeof_FileMetaBlob_def load16_def drop_take min_def)
  finally show ?thesis using Some open_failed [of m contents m'] assms(2) by auto
qed


end
