(* ===== verification/FlushList.thy ===== *)
theory FlushList
  imports MultiList FileMeta
begin

text \<open>
  \<^verbatim>\<open>hm4/flushlistbase.h\<close>, \<^verbatim>\<open>hm4/flushlist.h\<close>, \<^verbatim>\<open>hm4/flusher/*.h\<close> and the order that
  \<^verbatim>\<open>hm4/listloader/baselistloader.h\<close> puts the tables in: the decorator that moves a full
  memory list to a disk table.  A disk table is the sequence of pairs that the file builder wrote;
  the directory is the sequence of tables that the loader sees.
\<close>

section \<open>The code\<close>

datatype TombstoneOptions = REMOVE | KEEP

text \<open>\<open>FileBuilder::build\<close>: which pairs go into the file.\<close>

definition file_build :: "TombstoneOptions \<Rightarrow> u64 \<Rightarrow> pptr list \<Rightarrow> pptr list" where
  "file_build opts now v = (if opts = KEEP then v else filter (\<lambda>p. isOK now (snd p)) v)"

definition DiskFileFlush ::
  "'l list_ops \<Rightarrow> TombstoneOptions \<Rightarrow> u64 \<Rightarrow> 'l \<Rightarrow> pptr list list \<Rightarrow> pptr list list" where
  "DiskFileFlush L opts now l tables =
     (if l_empty L l then tables else file_build opts now (l_list L l) # tables)"

definition DiskFileAllocatorPredicate :: "u64 \<Rightarrow> u64 \<Rightarrow> u64 \<Rightarrow> bool" where
  "DiskFileAllocatorPredicate INTERNAL_NODE_SIZE freeMemory sz =
     (let minBytes = sz + INTERNAL_NODE_SIZE + 1024 + 8 in freeMemory < minBytes)"

text \<open>
  \<open>DiskList::createdMax\<close> of a table is what its header answers, whatever the options and the date of
  the file; \<open>ContainerHelper::sort_\<close> puts the tables in descending order of it.
\<close>

definition createdMax :: "pptr list \<Rightarrow> u64" where
  "createdMax t =
     meta_createdMax (metaBuilder_blob 0 True (fold metaBuilder_push (map snd t) metaBuilder_init))"

definition loader_sort :: "pptr list list \<Rightarrow> pptr list list" where
  "loader_sort tables = sort_key (\<lambda>t. - uint (createdMax t)) tables"

record 'l FlushList =
  fl_list :: 'l
  fl_version :: u64
  fl_disk :: "pptr list list"

definition fl_save :: "'l list_ops \<Rightarrow> TombstoneOptions \<Rightarrow> u64 \<Rightarrow> 'l FlushList \<Rightarrow> 'l FlushList" where
  "fl_save L opts now fl = fl\<lparr>fl_disk := DiskFileFlush L opts now (fl_list fl) (fl_disk fl)\<rparr>"

text \<open>\<open>flushlist_impl_::clear\<close>: empty the list, then the loader reloads the tables.\<close>

definition fl_clear :: "'l list_ops \<Rightarrow> 'l FlushList \<Rightarrow> 'l FlushList" where
  "fl_clear L fl = fl\<lparr>fl_list := l_clear L (fl_list fl), fl_disk := loader_sort (fl_disk fl)\<rparr>"

definition fl_flush :: "'l list_ops \<Rightarrow> TombstoneOptions \<Rightarrow> u64 \<Rightarrow> 'l FlushList \<Rightarrow> 'l FlushList" where
  "fl_flush L opts now fl =
     (let fl = fl_clear L (fl_save L opts now fl) in fl\<lparr>fl_version := fl_version fl + 1\<rparr>)"

definition insertF_create_flush_clone_insert ::
  "'l list_ops \<Rightarrow> TombstoneOptions \<Rightarrow> u64 \<Rightarrow> PairFactory \<Rightarrow> Pair \<Rightarrow> 'l FlushList \<Rightarrow> InsertResult \<times> 'l FlushList" where
  "insertF_create_flush_clone_insert L opts now f bufferPair fl =
     (let pair = factory_create now f bufferPair;
          fl = fl_flush L opts now fl;
          (r, l) = l_insertF L now (Clone pair) (fl_list fl)
      in (r, fl\<lparr>fl_list := l\<rparr>))"

definition microBufferSize :: nat where "microBufferSize = 4096"

definition insertF_withContext ::
  "'l list_ops \<Rightarrow> TombstoneOptions \<Rightarrow> u64 \<Rightarrow> PairFactory \<Rightarrow> Pair \<Rightarrow> 'l FlushList \<Rightarrow> InsertResult \<times> 'l FlushList" where
  "insertF_withContext L opts now f bufferPair fl =
     (if factory_bytes f \<le> microBufferSize
      then insertF_create_flush_clone_insert L opts now f (raw_memory microBufferSize) fl
      else insertF_create_flush_clone_insert L opts now f bufferPair fl)"

definition fl_insertF ::
  "'l list_ops \<Rightarrow> ('l \<Rightarrow> u64 \<Rightarrow> bool) \<Rightarrow> TombstoneOptions \<Rightarrow> Pair \<Rightarrow> u64 \<Rightarrow> PairFactory \<Rightarrow> 'l FlushList
   \<Rightarrow> InsertResult \<times> 'l FlushList" where
  "fl_insertF L predicate opts bufferPair now f fl =
     (if \<not> factory_valid f then (errorInvalid, fl)
      else if predicate (fl_list fl) (size_t (factory_bytes f))
      then insertF_withContext L opts now f bufferPair fl
      else
        (let (result, l) = l_insertF L now f (fl_list fl); fl = fl\<lparr>fl_list := l\<rparr> in
         if ir_status result \<noteq> ERROR_NO_MEMORY then (result, fl)
         else insertF_withContext L opts now f bufferPair fl))"

section \<open>What the database holds\<close>

definition db_pairs :: "'l list_ops \<Rightarrow> 'l FlushList \<Rightarrow> pptr list" where
  "db_pairs L fl = l_list L (fl_list fl) @ concat (fl_disk fl)"

lemma set_concat_loader_sort [simp]: "set (concat (loader_sort tables)) = set (concat tables)"
  by (simp add: loader_sort_def)

lemma newest_in_set: "set v = set w \<Longrightarrow> newest_in v k p \<longleftrightarrow> newest_in w k p"
  by (simp add: newest_in_def)

text \<open>The clone that the flush path inserts carries what the factory would have written.\<close>

lemma clone_of_create:
  fixes now :: u64 and f :: PairFactory and buffer :: Pair
  assumes "factory_wf f" "factory_bytes f \<le> block_size buffer"
  defines "q \<equiv> factory_create now f buffer"
  shows "factory_wf (Clone q)" "factory_getKey (Clone q) = factory_getKey f"
    "factory_bytes (Clone q) = factory_bytes f" "factory_created now (Clone q) = factory_created now f"
    "factory_val (Clone q) = factory_val f" "factory_expires (Clone q) = factory_expires f"
    "factory_tomb f \<Longrightarrow> isTombstone q"
proof -
  note s = factory_create_spec [OF assms(1,2), of now, folded q_def]
  have "getKeyLen q \<noteq> 0" using s factory_wf_key [OF assms(1)] by simp
  then show "factory_wf (Clone q)" using s by (simp add: isKeyEmpty_iff)
  show "factory_getKey (Clone q) = factory_getKey f" "factory_created now (Clone q) = factory_created now f"
    "factory_val (Clone q) = factory_val f" "factory_expires (Clone q) = factory_expires f" using s by simp_all
  show "factory_bytes (Clone q) = factory_bytes f"
    using s factory_bytes_eq [OF assms(1)] by (simp add: bytes_def)
  show "isTombstone q" if "factory_tomb f"
    using that s by (cases f) (simp_all add: factory_tomb_def isTombstone_iff)
qed

text \<open>The pair that a write leaves, or the newer one that made it do nothing.\<close>

definition stored :: "'l list_ops \<Rightarrow> u64 \<Rightarrow> PairFactory \<Rightarrow> 'l \<Rightarrow> InsertResult \<Rightarrow> 'l \<Rightarrow> bool" where
  "stored L now f l r l' \<longleftrightarrow>
     (\<exists>p. ir_pair r = Some p \<and> l_getPair L l' (factory_getKey f) = Some p \<and>
        getCreated (snd p) = factory_created now f \<and>
        (factory_full f \<longrightarrow> getVal (snd p) = factory_val f \<and> getExpires (snd p) = factory_expires f) \<and>
        (factory_tomb f \<longrightarrow> isTombstone (snd p))) \<or>
     (\<exists>old. ir_status r = SKIP_INSERTED \<and> l_getPair L l (factory_getKey f) = Some old \<and>
        l_getPair L l' (factory_getKey f) = Some old \<and> \<not> isValidForReplace (factory_getCreated f) (snd old))"

section \<open>Flushing any list that keeps the contract\<close>

locale flush_list = memlist L inv key_ok ord
  for L :: "'l list_ops" and inv key_ok ord +
  assumes ord_inj: "ord a = ord b \<longleftrightarrow> a = b"
    and empty_law: "inv l \<Longrightarrow> l_empty L l \<Longrightarrow> l_list L l = []"
begin

lemma member_lookup:
  assumes "inv l"
  shows "p \<in> set (l_list L l) \<longleftrightarrow> lookup (l_list L l) (pkey p) = Some p"
proof -
  have "key_order ord" using ord_inj by unfold_locales
  from key_order.sorted_keys_distinct [OF this list_sorted [OF assms]]
  show ?thesis using lookup_in lookup_Some_in by blast
qed

text \<open>Whatever goes into the file, a flush leaves an empty list.\<close>

lemma flush_clears:
  assumes "inv (fl_list fl)"
  shows "inv (fl_list (fl_flush L opts now fl))" "l_list L (fl_list (fl_flush L opts now fl)) = []"
    "fl_list (fl_flush L opts now fl) = l_clear L (fl_list fl)"
    "fl_version (fl_flush L opts now fl) = fl_version fl + 1"
  using clear_law [OF assms] by (simp_all add: fl_flush_def fl_clear_def fl_save_def Let_def)

text \<open>With the option \<open>KEEP\<close> it moves the pairs and loses none.\<close>

lemma flush_keeps:
  assumes "inv (fl_list fl)"
  shows "set (db_pairs L (fl_flush L KEEP now fl)) = set (db_pairs L fl)"
proof -
  let ?fl = "fl_flush L KEEP now fl"
  have "set (concat (fl_disk ?fl)) = set (l_list L (fl_list fl)) \<union> set (concat (fl_disk fl))"
  proof (cases "l_empty L (fl_list fl)")
    case True
    then have "l_list L (fl_list fl) = []" using empty_law assms by simp
    then show ?thesis using True
      by (simp add: fl_flush_def fl_clear_def fl_save_def DiskFileFlush_def Let_def del: set_concat)
  next
    case False
    then have "fl_disk ?fl = loader_sort (l_list L (fl_list fl) # fl_disk fl)"
      by (simp add: fl_flush_def fl_clear_def fl_save_def DiskFileFlush_def file_build_def Let_def)
    then have "set (concat (fl_disk ?fl)) = set (concat (l_list L (fl_list fl) # fl_disk fl))"
      by (simp only: set_concat_loader_sort)
    then show ?thesis by simp
  qed
  then show "set (db_pairs L ?fl) = set (db_pairs L fl)"
    unfolding db_pairs_def flush_clears(2) [OF assms] by simp
qed

lemma step_pairs:
  assumes "inv l" "inv l'" "insert_spec now f (l_list L l) r (l_list L l')" "k \<noteq> factory_getKey f"
  shows "p \<in> set (l_list L l') \<and> pkey p = k \<longleftrightarrow> p \<in> set (l_list L l) \<and> pkey p = k"
  using assms(3,4) member_lookup [OF assms(1), of p] member_lookup [OF assms(2), of p]
  by (auto simp: insert_spec_def)

text \<open>The path through the buffer.\<close>

lemma withContext_insert:
  assumes inv: "inv (fl_list fl)" and f: "factory_wf f" "key_ok (factory_getKey f)"
    and buf: "factory_bytes f \<le> block_size bufferPair"
    and step: "insertF_withContext L opts now f bufferPair fl = (r, fl')"
  obtains q where "factory_wf (Clone q)" "factory_getKey (Clone q) = factory_getKey f"
    "factory_created now (Clone q) = factory_created now f" "factory_val (Clone q) = factory_val f"
    "factory_expires (Clone q) = factory_expires f" "factory_tomb f \<longrightarrow> isTombstone q"
    "factory_bytes (Clone q) = factory_bytes f"
    "inv (fl_list fl')" "insert_spec now (Clone q) [] r (l_list L (fl_list fl'))"
    "l_insertF L now (Clone q) (l_clear L (fl_list fl)) = (r, fl_list fl')"
    "fl_disk fl' = fl_disk (fl_flush L opts now fl)" "fl_version fl' = fl_version fl + 1"
proof -
  define b where "b = (if factory_bytes f \<le> microBufferSize then raw_memory microBufferSize else bufferPair)"
  define q where "q = factory_create now f b"
  have bb: "factory_bytes f \<le> block_size b"
    using buf by (simp add: b_def block_size_def microBufferSize_def offset_buffer_def)
  note cl = clone_of_create [OF f(1) bb, where now = now, folded q_def]
  let ?fl = "fl_flush L opts now fl"
  note fk = flush_clears [OF inv, of opts now]
  have s: "l_insertF L now (Clone q) (fl_list ?fl) = (r, fl_list fl')"
    and d: "fl_disk fl' = fl_disk ?fl" and v: "fl_version fl' = fl_version ?fl"
    using step unfolding insertF_withContext_def insertF_create_flush_clone_insert_def q_def b_def Let_def
    by (auto split: prod.splits if_splits)
  have key: "key_ok (factory_getKey (Clone q))" using cl(2) f(2) by simp
  note law = insert_law [OF fk(1) cl(1) key s]
  show thesis using that [of q] cl law fk v s d by simp
qed

lemma withContext_spec:
  assumes inv: "inv (fl_list fl)" and f: "factory_wf f" "key_ok (factory_getKey f)"
    and buf: "factory_bytes f \<le> block_size bufferPair"
    and step: "insertF_withContext L KEEP now f bufferPair fl = (r, fl')"
  obtains q where "factory_getKey (Clone q) = factory_getKey f"
    "factory_created now (Clone q) = factory_created now f"
    "inv (fl_list fl')" "insert_spec now (Clone q) [] r (l_list L (fl_list fl'))"
    "set (concat (fl_disk fl')) = set (db_pairs L fl)"
proof (rule withContext_insert [OF assms])
  fix q
  assume q: "factory_getKey (Clone q) = factory_getKey f" "factory_created now (Clone q) = factory_created now f"
    "inv (fl_list fl')" "insert_spec now (Clone q) [] r (l_list L (fl_list fl'))"
    "fl_disk fl' = fl_disk (fl_flush L KEEP now fl)"
  have "set (concat (fl_disk fl')) = set (db_pairs L fl)"
    using flush_keeps [OF inv, of now] flush_clears(2) [OF inv, of KEEP now] q(5) by (simp add: db_pairs_def)
  then show thesis using that [of q] q(1-4) by blast
qed

text \<open>
  A write through the flush list: the pair of the result is in the database and newest for its
  key, and no other key changes, whether the list was flushed or not.
\<close>

lemma insertF_newest:
  assumes inv: "inv (fl_list fl)" and f: "factory_wf f" "key_ok (factory_getKey f)"
    and buf: "factory_bytes f \<le> block_size bufferPair"
    and step: "fl_insertF L predicate KEEP bufferPair now f fl = (r, fl')"
  shows "inv (fl_list fl')"
    and "ir_pair r = Some p \<Longrightarrow>
      (\<And>q. q \<in> set (db_pairs L fl) \<Longrightarrow> pkey q = factory_getKey f \<Longrightarrow> getCreated (snd q) \<le> factory_created now f) \<Longrightarrow>
      newest_in (db_pairs L fl') (factory_getKey f) p"
    and "k \<noteq> factory_getKey f \<Longrightarrow> newest_in (db_pairs L fl') k q \<longleftrightarrow> newest_in (db_pairs L fl) k q"
proof -
  have valid: "factory_valid f" using f(1) by (rule factory_wf_valid)
  let ?key = "factory_getKey f"
  let ?G = "inv (fl_list fl') \<and>
    (\<forall>p. ir_pair r = Some p \<longrightarrow> lookup (l_list L (fl_list fl')) ?key = Some p \<and>
       getCreated (snd p) = factory_created now f) \<and>
    (\<forall>q \<in> set (db_pairs L fl'). pkey q = ?key \<longrightarrow> q \<in> set (db_pairs L fl) \<or> ir_pair r = Some q) \<and>
    (\<forall>q. pkey q \<noteq> ?key \<longrightarrow> q \<in> set (db_pairs L fl') \<longleftrightarrow> q \<in> set (db_pairs L fl))"
  have flushed: ?G if s: "insertF_withContext L KEEP now f bufferPair fl0 = (r, fl')"
    and i0: "inv (fl_list fl0)" and e0: "set (db_pairs L fl0) = set (db_pairs L fl)" for fl0
  proof -
    obtain q where q: "factory_getKey (Clone q) = ?key" "factory_created now (Clone q) = factory_created now f"
      "inv (fl_list fl')" "insert_spec now (Clone q) [] r (l_list L (fl_list fl'))"
      "set (concat (fl_disk fl')) = set (db_pairs L fl)"
      by (rule withContext_spec [OF i0 f buf s]) (use e0 in simp)
    have lk: "lookup (l_list L (fl_list fl')) k = (if k = ?key then ir_pair r else None)" for k
      using q(1,4) by (auto simp: insert_spec_def split: option.splits)
    have mem: "x \<in> set (l_list L (fl_list fl')) \<longleftrightarrow> pkey x = ?key \<and> ir_pair r = Some x" for x
      using member_lookup [OF q(3), of x] lk by auto
    show ?thesis using q lk mem unfolding db_pairs_def set_append q(5)
      by (auto simp: insert_spec_def)
  qed
  have ?G
  proof (cases "predicate (fl_list fl) (size_t (factory_bytes f))")
    case True
    then show ?thesis using flushed [of fl] step valid inv by (simp add: fl_insertF_def)
  next
    case False
    obtain r1 l1 where s: "l_insertF L now f (fl_list fl) = (r1, l1)" by fastforce
    note law = insert_law [OF inv f s]
    have mem: "x \<in> set (l_list L l1) \<longleftrightarrow> x \<in> set (l_list L (fl_list fl))" if "pkey x \<noteq> ?key" for x
      using step_pairs [of "fl_list fl" l1 now f r1 "pkey x" x] law inv that by auto
    show ?thesis
    proof (cases "ir_status r1 = ERROR_NO_MEMORY")
      case True
      then have n: "ir_pair r1 = None" using law by (cases "ir_pair r1") (simp_all add: insert_spec_def)
      have "set (l_list L l1) = set (l_list L (fl_list fl))"
        using member_lookup [of l1] member_lookup [OF inv] law insert_spec_none [OF conjunct2 [OF law] n] by auto
      then show ?thesis using flushed [of "fl\<lparr>fl_list := l1\<rparr>"] step valid False s True law
        by (simp add: fl_insertF_def db_pairs_def)
    next
      case ok: False
      then have fl': "r = r1" "fl' = fl\<lparr>fl_list := l1\<rparr>" using step valid False s by (simp_all add: fl_insertF_def)
      have "lookup (l_list L l1) ?key = (case ir_pair r1 of None \<Rightarrow> lookup (l_list L (fl_list fl)) ?key | Some p \<Rightarrow> Some p)"
        using law by (simp add: insert_spec_def)
      then have "x \<in> set (l_list L (fl_list fl)) \<or> ir_pair r1 = Some x"
        if "x \<in> set (l_list L l1)" "pkey x = ?key" for x
        using that member_lookup [of l1 x] member_lookup [OF inv, of x] law by (auto split: option.splits)
      then show ?thesis using law mem unfolding fl' db_pairs_def by (auto simp: insert_spec_def)
    qed
  qed
  then have G: "inv (fl_list fl')"
    "\<And>p. ir_pair r = Some p \<Longrightarrow> lookup (l_list L (fl_list fl')) ?key = Some p \<and> getCreated (snd p) = factory_created now f"
    "\<And>q. q \<in> set (db_pairs L fl') \<Longrightarrow> pkey q = ?key \<Longrightarrow> q \<in> set (db_pairs L fl) \<or> ir_pair r = Some q"
    "\<And>q. pkey q \<noteq> ?key \<Longrightarrow> q \<in> set (db_pairs L fl') \<longleftrightarrow> q \<in> set (db_pairs L fl)" by blast+
  show "inv (fl_list fl')" by (rule G(1))
  show "newest_in (db_pairs L fl') ?key p" if p: "ir_pair r = Some p"
    and old: "\<And>q. q \<in> set (db_pairs L fl) \<Longrightarrow> pkey q = ?key \<Longrightarrow> getCreated (snd q) \<le> factory_created now f"
  proof -
    have "p \<in> set (db_pairs L fl')" "pkey p = ?key"
      using G(2) [OF p] lookup_Some_in [of _ ?key p] by (auto simp: db_pairs_def)
    moreover have "getCreated (snd q) \<le> getCreated (snd p)" if "q \<in> set (db_pairs L fl')" "pkey q = ?key" for q
      using G(3) [OF that] old [of q] that(2) p G(2) [OF p] by auto
    ultimately show ?thesis by (simp add: newest_in_def)
  qed
  show "newest_in (db_pairs L fl') k q \<longleftrightarrow> newest_in (db_pairs L fl) k q" if "k \<noteq> ?key"
    unfolding newest_in_def using G(4) that by metis
qed

end

section \<open>Lists that have room once they are empty\<close>

text \<open>
  \<open>fits n l\<close>: after it is cleared, the list has memory for a pair of \<open>n\<close> bytes and for what else it
  allocates with it.
\<close>

locale flush_room = flush_list L inv key_ok ord
  for L :: "'l list_ops" and inv key_ok ord +
  fixes fits :: "nat \<Rightarrow> 'l \<Rightarrow> bool"
  assumes fits_insert: "inv l \<Longrightarrow> factory_wf f \<Longrightarrow> key_ok (factory_getKey f) \<Longrightarrow> fits (factory_bytes f) l \<Longrightarrow>
      l_insertF L now f (l_clear L l) = (r, l') \<Longrightarrow> ir_ok r"
    and fits_kept: "inv l \<Longrightarrow> factory_wf f \<Longrightarrow> key_ok (factory_getKey f) \<Longrightarrow> l_insertF L now f l = (r, l') \<Longrightarrow>
      ir_status r \<noteq> ERROR \<and> (fits n l' \<longleftrightarrow> fits n l)"
begin

lemma insert_stored:
  assumes "inv l" "factory_wf f" "key_ok (factory_getKey f)" "l_insertF L now f l = (r, l')" "ir_ok r"
  shows "stored L now f l r l'"
proof -
  have k: "factory_getKey f \<noteq> []" using factory_wf_key [OF assms(2)] .
  note law = insert_law [OF assms(1-4)]
  have g: "l_getPair L l' (factory_getKey f) = lookup (l_list L l') (factory_getKey f)"
    "l_getPair L l (factory_getKey f) = lookup (l_list L l) (factory_getKey f)"
    using getPair_lookup law assms(1,3) k by simp_all
  show ?thesis
  proof (cases "ir_pair r")
    case (Some p)
    then show ?thesis using law g by (auto simp: stored_def insert_spec_def)
  next
    case None
    then have "ir_status r = SKIP_INSERTED"
      using law assms(5) by (cases "ir_status r") (auto simp: insert_spec_def)
    then show ?thesis using law g None by (auto simp: stored_def insert_spec_def)
  qed
qed

lemma withContext_stored:
  assumes inv: "inv (fl_list fl)" and f: "factory_wf f" "key_ok (factory_getKey f)"
    and buf: "factory_bytes f \<le> block_size bufferPair" and fits: "fits (factory_bytes f) (fl_list fl)"
    and step: "insertF_withContext L opts now f bufferPair fl = (r, fl')"
  shows "inv (fl_list fl')" "ir_ok r" "ir_status r = INSERTED" "stored L now f l r (fl_list fl')"
proof -
  obtain q where q: "factory_wf (Clone q)" "factory_getKey (Clone q) = factory_getKey f"
    "factory_created now (Clone q) = factory_created now f" "factory_val (Clone q) = factory_val f"
    "factory_expires (Clone q) = factory_expires f" "factory_tomb f \<longrightarrow> isTombstone q"
    "factory_bytes (Clone q) = factory_bytes f"
    "inv (fl_list fl')" "insert_spec now (Clone q) [] r (l_list L (fl_list fl'))"
    "l_insertF L now (Clone q) (l_clear L (fl_list fl)) = (r, fl_list fl')"
    by (rule withContext_insert [OF inv f buf step])
  show "inv (fl_list fl')" by (rule q(8))
  show ok: "ir_ok r" using fits_insert [OF inv q(1) _ _ q(10)] f(2) fits q(2,7) by simp
  have n: "ir_status r \<noteq> SKIP_INSERTED" "ir_status r \<notin> {UPDATED_IN_PLACE, REPLACED}" using q(9) by (auto simp: insert_spec_def)
  then show "ir_status r = INSERTED" using q(9) ok by (cases "ir_status r") (auto simp: insert_spec_def)
  then obtain p where p: "ir_pair r = Some p" using q(9) by (auto simp: insert_spec_def)
  have "l_getPair L (fl_list fl') (factory_getKey f) = Some p"
    using getPair_lookup [OF q(8) factory_wf_key [OF f(1)] f(2)] q(2,9) p by (simp add: insert_spec_def)
  moreover have "isTombstone (snd p)" if "factory_tomb f"
  proof -
    have "p \<in> set (l_list L (fl_list fl'))"
      using q(9) p lookup_Some_in [of "l_list L (fl_list fl')" "factory_getKey f" p] q(2) by (simp add: insert_spec_def)
    then have "pair_wf (snd p)" using list_ok [OF q(8)] by (auto simp: pairs_ok_def list_all_iff)
    moreover have "getVal (snd p) = factory_val f" using q(4,9) p by (auto simp: insert_spec_def factory_full_def)
    moreover have "factory_val f = []" using that by (cases f) (simp_all add: factory_tomb_def)
    ultimately show ?thesis using length_getVal [of "snd p"] by (simp add: isTombstone_iff)
  qed
  ultimately show "stored L now f l r (fl_list fl')"
    using q(2-5,9) p by (auto simp: stored_def insert_spec_def factory_full_def)
qed

text \<open>A valid write is stored, with a flush or without.\<close>

lemma always_stored:
  assumes inv: "inv (fl_list fl)" and f: "factory_wf f" "key_ok (factory_getKey f)"
    and buf: "factory_bytes f \<le> block_size bufferPair" and fits: "fits (factory_bytes f) (fl_list fl)"
    and step: "fl_insertF L predicate opts bufferPair now f fl = (r, fl')"
  shows "inv (fl_list fl') \<and> ir_ok r \<and> stored L now f (fl_list fl) r (fl_list fl') \<and>
    (predicate (fl_list fl) (size_t (factory_bytes f)) \<longrightarrow> ir_status r = INSERTED)"
proof (cases "predicate (fl_list fl) (size_t (factory_bytes f))")
  case True
  then have "insertF_withContext L opts now f bufferPair fl = (r, fl')"
    using step factory_wf_valid [OF f(1)] by (simp add: fl_insertF_def)
  from withContext_stored [OF inv f buf fits this] show ?thesis by blast
next
  case False
  obtain r1 l1 where s: "l_insertF L now f (fl_list fl) = (r1, l1)" by fastforce
  note law = insert_law [OF inv f s] and kept = fits_kept [OF inv f s]
  show ?thesis
  proof (cases "ir_status r1 = ERROR_NO_MEMORY")
    case True
    then have w: "insertF_withContext L opts now f bufferPair (fl\<lparr>fl_list := l1\<rparr>) = (r, fl')"
      using step False s factory_wf_valid [OF f(1)] by (simp add: fl_insertF_def)
    have "inv (fl_list (fl\<lparr>fl_list := l1\<rparr>))" "fits (factory_bytes f) (fl_list (fl\<lparr>fl_list := l1\<rparr>))"
      using law kept fits by simp_all
    from withContext_stored [OF this(1) f buf this(2) w] False show ?thesis by blast
  next
    case False2: False
    then have r: "r = r1" "fl_list fl' = l1" using step False s factory_wf_valid [OF f(1)] by (auto simp: fl_insertF_def)
    have ok: "ir_ok r1" using law kept False2 by (auto simp: insert_spec_def)
    show ?thesis using insert_stored [OF inv f s ok] law ok r False by simp
  qed
qed

end

section \<open>The vector list under a flush list\<close>

text \<open>\<open>std::vector<Pair *>::max_size()\<close> on the target.\<close>

definition vector_grow :: "nat \<Rightarrow> bool" where
  "vector_grow n \<longleftrightarrow> n \<le> 1152921504606846975"

definition vl_inv64 :: "'s VectorList \<Rightarrow> bool" where
  "vl_inv64 l \<longleftrightarrow> vl_inv l \<and> vector_grow (length (vl_vector l))"

lemma vl_insertF_length:
  assumes "vl_inv64 l" "factory_wf f" "vl_insertF A vector_grow now f l = (r, l')"
  shows "vector_grow (length (vl_vector l'))"
proof -
  let ?b = "vl_binarySearch (vl_vector l) (factory_getKey f)"
  have s: "sorted_keys ckey (vl_vector l)" and g: "vector_grow (length (vl_vector l))"
    using assms(1) by (simp_all add: vl_inv64_def vl_inv_def list_good_def)
  have "bs_it ?b \<le> length (vl_vector l)"
    using vl_binarySearch_eq [OF s factory_wf_key [OF assms(2)]]
    by (simp add: searched_def Let_def lower_bound_le)
  then show ?thesis using assms(3) g
    by (auto simp: vl_insertF_def Let_def split: if_splits prod.splits option.splits)
qed

lemma vl_erase_length:
  assumes "vl_inv64 l" "vl_erase A now k l = (r, l')"
  shows "vector_grow (length (vl_vector l'))"
  using assms by (auto simp: vl_inv64_def vl_erase_def vector_grow_def Let_def split: if_splits)

interpretation flv: flush_list "vl_ops A vector_grow" vl_inv64 "\<lambda>k. True" ckey for A
proof unfold_locales
  fix l :: "'a VectorList" and k :: str
  assume i: "vl_inv64 l"
  then have inv: "vl_inv l" by (simp add: vl_inv64_def)
  show "sorted_keys ckey (l_list (vl_ops A vector_grow) l)" by (rule vl.list_sorted [OF inv])
  show "pairs_ok (\<lambda>k. True) (l_list (vl_ops A vector_grow) l)" by (rule vl.list_ok [OF inv])
  show "lc_of (l_list (vl_ops A vector_grow) l) = \<lparr>lc_count = l_size (vl_ops A vector_grow) l,
      lc_bytes = l_bytes (vl_ops A vector_grow) l\<rparr>" by (rule vl.list_counters [OF inv])
  show "vl_inv64 (l_clear (vl_ops A vector_grow) l) \<and>
      l_list (vl_ops A vector_grow) (l_clear (vl_ops A vector_grow) l) = []"
    using vl.clear_law [OF inv, of A vector_grow] by (simp add: vl_inv64_def vector_grow_def)
  have "vl_lc l = lc_of (vl_vector l)" using inv by (simp add: vl_inv_def list_good_def)
  moreover have "length (vl_vector l) < 2 ^ 64" using i by (simp add: vl_inv64_def vector_grow_def)
  moreover from this have "(of_nat (length (vl_vector l)) :: u64) = 0 \<longleftrightarrow> length (vl_vector l) = 0"
    by (auto simp: word_unat_eq_iff unat_of_nat)
  ultimately show "l_empty (vl_ops A vector_grow) l \<Longrightarrow> l_list (vl_ops A vector_grow) l = []"
    by (simp add: vl_ops_def lc_of_def)
  {
    fix now f r l' assume f: "factory_wf f" and s: "l_insertF (vl_ops A vector_grow) now f l = (r, l')"
    show "vl_inv64 l' \<and> insert_spec now f (l_list (vl_ops A vector_grow) l) r (l_list (vl_ops A vector_grow) l')"
      using vl.insert_law [OF inv f _ s] vl_insertF_length [OF i f, of A now r l'] s
      by (simp add: vl_inv64_def)
  }
  {
    fix now f assume "\<not> factory_valid f"
    then show "l_insertF (vl_ops A vector_grow) now f l = (errorInvalid, l)" by (simp add: vl_insertF_def)
  }
  assume k: "k \<noteq> []"
  show "l_getPair (vl_ops A vector_grow) l k = lookup (l_list (vl_ops A vector_grow) l) k"
    by (rule vl.getPair_lookup [OF inv k TrueI])
  show "l_find (vl_ops A vector_grow) l k = dropWhile (\<lambda>p. ckey (pkey p) < ckey k) (l_list (vl_ops A vector_grow) l)"
    by (rule vl.find_dropWhile [OF inv k TrueI])
  fix now r l' assume s: "l_erase (vl_ops A vector_grow) now k l = (r, l')"
  show "vl_inv64 l' \<and> erase_spec k (l_list (vl_ops A vector_grow) l) r (l_list (vl_ops A vector_grow) l')"
    using vl.erase_law [OF inv k _ s] vl_erase_length [OF i, of A now k r l'] s by (simp add: vl_inv64_def)
qed simp

section \<open>Properties\<close>

lemma vl_inv64_empty: "vl_inv64 (vl_empty st)"
  using vl_inv_empty [of st] by (simp add: vl_inv64_def vector_grow_def vl_empty_def)

text \<open>
  C7: Through the flush list a write is the newest of the whole database: whether the pair went
  into the memory list, in place or not, or the list was flushed first, the stored pair is a newest
  pair of its key over memory and tables, if none was created later, and every other key keeps its
  newest pairs.
\<close>

theorem flush_list_insert_newest:
  assumes "vl_inv64 (fl_list fl)" "factory_wf f" "factory_bytes f \<le> block_size bufferPair"
    and "fl_insertF (vl_ops A vector_grow) predicate KEEP bufferPair now f fl = (r, fl')"
  shows "vl_inv64 (fl_list fl') \<and>
    (\<forall>p. ir_pair r = Some p \<longrightarrow>
       (\<forall>q \<in> set (db_pairs (vl_ops A vector_grow) fl). pkey q = factory_getKey f \<longrightarrow> getCreated (snd q) \<le> factory_created now f) \<longrightarrow>
       newest_in (db_pairs (vl_ops A vector_grow) fl') (factory_getKey f) p) \<and>
    (\<forall>k q. k \<noteq> factory_getKey f \<longrightarrow> newest_in (db_pairs (vl_ops A vector_grow) fl') k q \<longleftrightarrow> newest_in (db_pairs (vl_ops A vector_grow) fl) k q)"
  using flv.insertF_newest [OF assms(1,2) TrueI assms(3,4)] by blast

theorem flush_list_insert_newest_witness:
  "vl_inv64 (fl_list (snd (fl_insertF (vl_ops arena_ops vector_grow) (\<lambda>l n. False) KEEP (raw_memory 4096) 1
     (Normal [98] [1, 2] 0 7) \<lparr>fl_list = vl_empty arena4k, fl_version = 0, fl_disk = []\<rparr>)))"
proof -
  let ?fl = "\<lparr>fl_list = vl_empty arena4k, fl_version = 0, fl_disk = []\<rparr>"
  let ?r = "fl_insertF (vl_ops arena_ops vector_grow) (\<lambda>l n. False) KEEP (raw_memory 4096) 1 (Normal [98] [1, 2] 0 7) ?fl"
  have r: "?r = (fst ?r, snd ?r)" by simp
  show ?thesis
    using flush_list_insert_newest [OF _ _ _ r] vl_inv64_empty [of arena4k]
    by (simp add: isKeyValid_def isValValid_def isKeyValid_size_def isValValid_size_def MAX_KEY_SIZE_def
        MAX_VAL_SIZE_def bytes_of_def sizeof_Pair_def block_size_def offset_buffer_def)
qed

end
