(* ===== verification/BinLogList.thy ===== *)
theory BinLogList
  imports FlushList
begin

text \<open>
  \<^verbatim>\<open>hm4/binloglist.h\<close>, \<^verbatim>\<open>hm4/binlogger/diskfilebinlogger.h\<close>, \<^verbatim>\<open>hm4/binlogreplay.h\<close>: the
  decorator that writes every change to a log file, and the replay of such a file.  The log is the
  sequence of pairs in the file.
\<close>

section \<open>The code\<close>

record 'l BinLogList =
  bl_list :: 'l
  bl_log :: "Pair list"

definition binlogger :: "Pair \<Rightarrow> Pair list \<Rightarrow> Pair list" where
  "binlogger pair log = log @ [pair]"

text \<open>\<open>DiskFileBinLogger::clear\<close> opens the file again and truncates it.\<close>

definition binlogger_clear :: "Pair list \<Rightarrow> Pair list" where
  "binlogger_clear log = []"

definition bl_clear :: "'l list_ops \<Rightarrow> 'l BinLogList \<Rightarrow> 'l BinLogList" where
  "bl_clear L bl = bl\<lparr>bl_list := l_clear L (bl_list bl), bl_log := binlogger_clear (bl_log bl)\<rparr>"

definition bl_insertF :: "'l list_ops \<Rightarrow> u64 \<Rightarrow> PairFactory \<Rightarrow> 'l BinLogList \<Rightarrow> InsertResult \<times> 'l BinLogList" where
  "bl_insertF L now f bl =
     (let (result, l) = l_insertF L now f (bl_list bl);
          bl = bl\<lparr>bl_list := l\<rparr>;
          bl = (case ir_pair result of
                  Some p \<Rightarrow> bl\<lparr>bl_log := binlogger (snd p) (bl_log bl)\<rparr>
                | None \<Rightarrow> bl)
      in (result, bl))"

text \<open>The buffer on the stack in which \<open>erase\<close> makes the tombstone.\<close>

definition PairBufferTombstone :: Pair where
  "PairBufferTombstone = raw_memory maxBytesTombstone"

definition bl_erase :: "'l list_ops \<Rightarrow> u64 \<Rightarrow> str \<Rightarrow> 'l BinLogList \<Rightarrow> InsertResult \<times> 'l BinLogList" where
  "bl_erase L now key bl =
     (let (result, l) = l_erase L now key (bl_list bl);
          bl = bl\<lparr>bl_list := l\<rparr>;
          bl = (if ir_status result = DELETED
                then bl\<lparr>bl_log := binlogger (makePairTombstone now key PairBufferTombstone) (bl_log bl)\<rparr>
                else case ir_pair result of
                       Some p \<Rightarrow> bl\<lparr>bl_log := binlogger (snd p) (bl_log bl)\<rparr>
                     | None \<Rightarrow> bl)
      in (result, bl))"

definition bl_mutable_notify :: "'l list_ops \<Rightarrow> MutableNotifyMessage \<Rightarrow> 'l BinLogList \<Rightarrow> 'l BinLogList" where
  "bl_mutable_notify L msg bl =
     bl\<lparr>bl_log := binlogger (snd (msg_pair msg)) (bl_log bl),
        bl_list := l_mutable_notify L msg (bl_list bl)\<rparr>"

fun bl_step :: "'l list_ops \<Rightarrow> u64 \<Rightarrow> list_op \<Rightarrow> 'l BinLogList \<Rightarrow> InsertResult \<times> 'l BinLogList" where
  "bl_step L now (Insert f) bl = bl_insertF L now f bl"
| "bl_step L now (Erase k) bl = bl_erase L now k bl"

fun bl_run :: "'l list_ops \<Rightarrow> (u64 \<times> list_op) list \<Rightarrow> 'l BinLogList \<Rightarrow> 'l BinLogList" where
  "bl_run L [] bl = bl"
| "bl_run L ((now, op) # ops) bl = bl_run L ops (snd (bl_step L now op bl))"

text \<open>The replay inserts a clone of every pair of the file that has a key.\<close>

fun binlogFileReplay :: "'l list_ops \<Rightarrow> u64 \<Rightarrow> Pair list \<Rightarrow> 'l \<Rightarrow> InsertResult list \<times> 'l" where
  "binlogFileReplay L now [] l = ([], l)"
| "binlogFileReplay L now (p # ps) l =
     (if isKeyEmpty p then binlogFileReplay L now ps l
      else
        let (r, l) = insert_pair L now p l; (rs, l) = binlogFileReplay L now ps l
        in (r # rs, l))"

section \<open>The log knows the list\<close>

text \<open>The last pair that the log has for a key.\<close>

definition log_last :: "str \<Rightarrow> Pair list \<Rightarrow> Pair option" where
  "log_last k log = find (\<lambda>p. getKey p = k) (rev log)"

lemma log_last_Nil [simp]: "log_last k [] = None"
  by (simp add: log_last_def)

lemma log_last_binlogger: "log_last k (binlogger p log) = (if getKey p = k then Some p else log_last k log)"
  by (simp add: log_last_def binlogger_def)

lemma log_last_Cons:
  "log_last k (p # log) =
     (case log_last k log of None \<Rightarrow> if getKey p = k then Some p else None | Some q \<Rightarrow> Some q)"
  by (induction log rule: rev_induct) (auto simp: log_last_def)

text \<open>
  For a key that is in the list the last logged pair is the stored one; for a key that is not,
  there is none or it is a tombstone.
\<close>

definition log_synced :: "pptr list \<Rightarrow> Pair list \<Rightarrow> bool" where
  "log_synced v log \<longleftrightarrow>
     (\<forall>k. k \<noteq> [] \<longrightarrow>
       (case lookup v k of
          Some p \<Rightarrow> log_last k log = Some (snd p)
        | None \<Rightarrow> (\<forall>q. log_last k log = Some q \<longrightarrow> isTombstone q)))"

lemma makePairTombstone_spec:
  assumes "length key \<le> MAX_KEY_SIZE"
  shows "getKey (makePairTombstone now key PairBufferTombstone) = key"
    "isTombstone (makePairTombstone now key PairBufferTombstone)"
    "pair_wf (makePairTombstone now key PairBufferTombstone)"
proof -
  have "length key + 1 + length ([] :: str) + 1 \<le> length (p_buffer PairBufferTombstone)"
    using assms by (simp add: PairBufferTombstone_def maxBytesTombstone_def bytes_of_def
        sizeof_Pair_def offset_buffer_def)
  note s = create_raw_full [OF assms _ this, of now 0 0]
  show "getKey (makePairTombstone now key PairBufferTombstone) = key"
    "isTombstone (makePairTombstone now key PairBufferTombstone)"
    "pair_wf (makePairTombstone now key PairBufferTombstone)"
    using s by (simp_all add: makePairTombstone_def TOMBSTONE_def isTombstone_iff)
qed

section \<open>Contracts of the log list and of the replay\<close>

context memlist
begin

lemma bl_insertF_synced:
  assumes "inv (bl_list bl)" "log_synced (l_list L (bl_list bl)) (bl_log bl)"
    and f: "factory_wf f" "key_ok (factory_getKey f)" and step: "bl_insertF L now f bl = (r, bl')"
  shows "inv (bl_list bl') \<and> log_synced (l_list L (bl_list bl')) (bl_log bl')"
proof -
  obtain l1 where s: "l_insertF L now f (bl_list bl) = (r, l1)" and l1: "bl_list bl' = l1"
    and lg: "bl_log bl' = (case ir_pair r of None \<Rightarrow> bl_log bl | Some p \<Rightarrow> binlogger (snd p) (bl_log bl))"
    using step by (auto simp: bl_insertF_def Let_def split: prod.splits option.splits)
  note law = insert_law [OF assms(1) f s]
  show ?thesis
  proof (cases "ir_pair r")
    case None
    then show ?thesis using law assms(2) l1 lg insert_spec_none [OF conjunct2 [OF law] None]
      by (simp add: log_synced_def)
  next
    case (Some p)
    then have lk: "lookup (l_list L l1) k = (if k = factory_getKey f then Some p else lookup (l_list L (bl_list bl)) k)" for k
      using law by (simp add: insert_spec_def)
    then have "getKey (snd p) = factory_getKey f"
      using lookup_Some_in [of "l_list L l1" "factory_getKey f" p] by (simp add: pkey_def)
    then show ?thesis using law assms(2) l1 lg Some lk
      by (simp add: log_synced_def log_last_binlogger cong: option.case_cong)
  qed
qed

lemma stored_key_le: "inv l \<Longrightarrow> lookup (l_list L l) k = Some p \<Longrightarrow> length k \<le> MAX_KEY_SIZE"
proof -
  assume i: "inv l" and p: "lookup (l_list L l) k = Some p"
  have "pair_wf (snd p)" "pkey p = k"
    using list_ok [OF i] lookup_Some_in [OF p] by (auto simp: pairs_ok_def list_all_iff)
  then show ?thesis using getKeyLen_le [of "snd p"] by (auto simp: pkey_def)
qed

lemma bl_erase_synced:
  assumes "inv (bl_list bl)" "log_synced (l_list L (bl_list bl)) (bl_log bl)"
    and k: "k \<noteq> []" "key_ok k" and step: "bl_erase L now k bl = (r, bl')"
  shows "inv (bl_list bl') \<and> log_synced (l_list L (bl_list bl')) (bl_log bl')"
proof -
  obtain l1 where s: "l_erase L now k (bl_list bl) = (r, l1)" and l1: "bl_list bl' = l1"
    using step by (auto simp: bl_erase_def Let_def split: prod.splits option.splits)
  note law = erase_law [OF assms(1) k s]
  have r: "r = (if lookup (l_list L (bl_list bl)) k = None then skipDeleted else deleted)"
    and lk: "\<And>k'. lookup (l_list L l1) k' = (if k' = k then None else lookup (l_list L (bl_list bl)) k')"
    using law by (auto simp: erase_spec_def)
  show ?thesis
  proof (cases "lookup (l_list L (bl_list bl)) k")
    case None
    then have "bl_log bl' = bl_log bl" using step s r by (auto simp: bl_erase_def skipDeleted_def)
    then show ?thesis using law assms(2) l1 lk None by (auto simp: log_synced_def)
  next
    case (Some p)
    let ?t = "makePairTombstone now k PairBufferTombstone"
    have "bl_log bl' = binlogger ?t (bl_log bl)" using step s r Some by (auto simp: bl_erase_def deleted_def)
    moreover have "getKey ?t = k" "isTombstone ?t"
      using makePairTombstone_spec stored_key_le [OF assms(1) Some] by simp_all
    ultimately show ?thesis using law assms(2) l1 lk by (simp add: log_synced_def log_last_binlogger cong: option.case_cong)
  qed
qed

text \<open>Every run of operations through the log list keeps the log in step with the list.\<close>

lemma bl_run_synced:
  "inv (bl_list bl) \<Longrightarrow> log_synced (l_list L (bl_list bl)) (bl_log bl) \<Longrightarrow>
   list_all (\<lambda>(now, op). op_ok key_ok op) ops \<Longrightarrow>
   inv (bl_list (bl_run L ops bl)) \<and> log_synced (l_list L (bl_list (bl_run L ops bl))) (bl_log (bl_run L ops bl))"
proof (induction ops arbitrary: bl)
  case (Cons a ops)
  obtain now op where a: "a = (now, op)" by fastforce
  obtain r bl1 where s: "bl_step L now op bl = (r, bl1)" by fastforce
  have "inv (bl_list bl1) \<and> log_synced (l_list L (bl_list bl1)) (bl_log bl1)"
  proof (cases op)
    case (Insert f)
    then show ?thesis using bl_insertF_synced [of bl f now r bl1] Cons.prems a s by simp
  next
    case (Erase k)
    then show ?thesis using bl_erase_synced [of bl k now r bl1] Cons.prems a s by simp
  qed
  then show ?case using Cons.IH [of bl1] Cons.prems(3) a s by simp
qed simp

end

section \<open>Replay\<close>

text \<open>
  \<open>Clone\<close> passes the low half of the creation time, the microseconds, to the test that protects
  newer pairs (\<open>isValidForReplace\<close>, which takes seconds).  A pair without microseconds always
  replaces; a pair with some is taken for a pair of the early seconds of 1970.
\<close>

definition no_usec :: "Pair \<Rightarrow> bool" where
  "no_usec p \<longleftrightarrow> factory_getCreated (Clone p) = 0"

definition preg_of :: "Pair \<Rightarrow> reg" where
  "preg_of p = \<lparr>reg_created = getCreated p, reg_val = getVal p, reg_expires = getExpires p\<rparr>"

lemma reg_of_preg: "reg_of p = preg_of (snd p)"
  by (simp add: reg_of_def preg_of_def)

lemma clone_valid_iff:
  "factory_getCreated (Clone p) \<noteq> 0 \<Longrightarrow>
     isValidForReplace (factory_getCreated (Clone p)) old \<longleftrightarrow>
       getCreated old \<le> to64 (ucast (getCreated p))"
  by (simp add: isValidForReplace_def isValidForReplace64_def prepareCreateTimeSimulate_def)

lemma clone_valid_0: "no_usec p \<Longrightarrow> isValidForReplace (factory_getCreated (Clone p)) old"
  by (simp add: no_usec_def isValidForReplace_def isValidForReplace64_def prepareCreateTimeSimulate_def)

context memlist
begin

text \<open>A log of pairs without microseconds is restored: each key has its last logged pair.\<close>

lemma replay_restores:
  "inv l \<Longrightarrow> list_all (\<lambda>p. pair_wf p \<and> key_ok (getKey p) \<and> no_usec p) log \<Longrightarrow>
   binlogFileReplay L now log l = (rs, l') \<Longrightarrow> list_all ir_ok rs \<Longrightarrow> k \<noteq> [] \<Longrightarrow>
   inv l' \<and> map_option reg_of (lookup (l_list L l') k) =
     (case log_last k log of None \<Rightarrow> map_option reg_of (lookup (l_list L l) k) | Some p \<Rightarrow> Some (preg_of p))"
proof (induction log arbitrary: l rs)
  case (Cons p log)
  have p: "pair_wf p" "key_ok (getKey p)" "no_usec p" using Cons.prems(2) by simp_all
  show ?case
  proof (cases "isKeyEmpty p")
    case True
    then have "getKey p = []" using getKey_empty_iff [OF p(1)] by simp
    then show ?thesis using Cons True by (simp add: log_last_Cons split: option.split)
  next
    case False
    let ?f = "Clone p"
    have f: "factory_wf ?f" "key_ok (factory_getKey ?f)" using p False by simp_all
    obtain r l1 where s: "l_insertF L now ?f l = (r, l1)" by fastforce
    obtain rs1 l2 where s2: "binlogFileReplay L now log l1 = (rs1, l2)" by fastforce
    have rs: "rs = r # rs1" "l2 = l'" using Cons.prems(3) False s s2 by (simp_all add: insert_pair_def Let_def)
    note law = insert_law [OF Cons.prems(1) f s]
    have "ir_status r \<noteq> SKIP_INSERTED"
      using law clone_valid_0 [OF p(3)] by (auto simp: insert_spec_def)
    then have "ir_pair r \<noteq> None" using law Cons.prems(4) rs by (cases "ir_status r") (auto simp: insert_spec_def)
    then obtain q where q: "ir_pair r = Some q" by auto
    then have qr: "reg_of q = preg_of p"
      using law by (auto simp: insert_spec_def factory_full_def reg_of_def preg_of_def)
    have lk: "lookup (l_list L l1) k = (if k = getKey p then Some q else lookup (l_list L l) k)"
      using law q by (simp add: insert_spec_def)
    have "inv l' \<and> map_option reg_of (lookup (l_list L l') k) =
        (case log_last k log of None \<Rightarrow> map_option reg_of (lookup (l_list L l1) k) | Some p \<Rightarrow> Some (preg_of p))"
      using Cons.IH [of l1 rs1] law Cons.prems s2 rs by simp
    then show ?thesis using lk qr by (auto simp: log_last_Cons split: option.split)
  qed
qed simp

text \<open>
  Otherwise an update in the log is lost: a clone with microseconds over a stored pair of a later
  second than those microseconds is skipped.
\<close>

lemma replay_skips:
  assumes "inv l" "pair_wf p" "\<not> isKeyEmpty p" "key_ok (getKey p)"
    and "lookup (l_list L l) (getKey p) = Some old"
    and "ucast (getCreated p) \<noteq> (0 :: u32)" "to64 (ucast (getCreated p)) < getCreated (snd old)"
    and "insert_pair L now p l = (r, l')"
  shows "ir_status r = SKIP_INSERTED" "lookup (l_list L l') (getKey p) = Some old"
proof -
  have s: "l_insertF L now (Clone p) l = (r, l')" using assms(8) by (simp add: insert_pair_def)
  have f: "factory_wf (Clone p)" "key_ok (factory_getKey (Clone p))" using assms(2-4) by simp_all
  note law = insert_law [OF assms(1) f s]
  show st: "ir_status r = SKIP_INSERTED"
    using law assms(5-7) clone_valid_iff [of p "snd old"] by (auto simp: insert_spec_def)
  then have "ir_pair r = None" using law by (cases "ir_pair r") (simp_all add: insert_spec_def)
  then show "lookup (l_list L l') (getKey p) = Some old"
    using insert_spec_none [OF conjunct2 [OF law]] assms(5) by simp
qed

end

section \<open>Properties\<close>

lemma log_last_in: "log_last k log = Some p \<Longrightarrow> p \<in> set log"
  by (auto simp: log_last_def find_Some_iff) (metis length_rev nth_mem set_rev)

text \<open>
  C14: The binary log is always in step with the list: after any sequence of insertions and deletions
  through the log list, the last logged pair of a key is the pair the list holds, and the last
  logged pair of a key the list does not hold, if there is one, is a tombstone.
\<close>

theorem binlog_in_step:
  assumes "list_all (\<lambda>(now, op). op_ok (\<lambda>k. True) op) ops" "k \<noteq> []"
    and "bl_run (vl_ops A grow) ops \<lparr>bl_list = vl_empty st, bl_log = []\<rparr> = bl"
  shows "case lookup (vl_vector (bl_list bl)) k of
      Some p \<Rightarrow> log_last k (bl_log bl) = Some (snd p)
    | None \<Rightarrow> (\<forall>q. log_last k (bl_log bl) = Some q \<longrightarrow> isTombstone q)"
proof -
  let ?bl = "\<lparr>bl_list = vl_empty st, bl_log = []\<rparr>"
  have "log_synced (l_list (vl_ops A grow) (bl_list ?bl)) (bl_log ?bl)"
    by (simp add: log_synced_def vl_empty_def log_last_def)
  then have "log_synced (vl_vector (bl_list bl)) (bl_log bl)"
    using vl.bl_run_synced [of ?bl A grow ops] vl_inv_empty [of st] assms(1,3) by simp
  then show ?thesis using assms(2) by (simp add: log_synced_def)
qed

theorem binlog_in_step_witness:
  "\<exists>p. log_last [98] (bl_log (bl_run (vl_ops arena_ops (\<lambda>n. True)) [(1, Insert (Normal [98] [1, 2] 0 7))]
     \<lparr>bl_list = vl_empty arena4k, bl_log = []\<rparr>)) = Some (snd p)"
proof -
  let ?bl = "bl_run (vl_ops arena_ops (\<lambda>n. True)) [(1, Insert (Normal [98] [1, 2] 0 7))]
    \<lparr>bl_list = vl_empty arena4k, bl_log = []\<rparr>"
  have "getKey (factory_create 1 (Normal [98] [1, 2] 0 7) (raw_memory 23)) = [98]"
    using factory_create_spec [of "Normal [98] [1, 2] 0 7" "raw_memory 23" 1]
    by (simp add: eval_simps block_size_def offset_buffer_def)
  then have "lookup (vl_vector (bl_list ?bl)) [98] \<noteq> None"
    by (simp add: eval_simps bl_insertF_def Let_def lookup_Cons pkey_def)
  then show ?thesis
    using binlog_in_step [of "[(1, Insert (Normal [98] [1, 2] 0 7))]" "[98]" arena_ops "\<lambda>n. True" arena4k ?bl]
    by (auto simp: isKeyValid_def isValValid_def isKeyValid_size_def isValValid_size_def MAX_KEY_SIZE_def
        MAX_VAL_SIZE_def split: option.splits)
qed

context memlist
begin

lemma bl_step_log_wf:
  assumes "inv (bl_list bl)" "list_all (\<lambda>p. pair_wf p \<and> key_ok (getKey p)) (bl_log bl)" "op_ok key_ok op"
    and "bl_step L now op bl = (r, bl')"
  shows "list_all (\<lambda>p. pair_wf p \<and> key_ok (getKey p)) (bl_log bl')"
proof (cases op)
  case (Insert f)
  obtain l1 where s: "l_insertF L now f (bl_list bl) = (r, l1)"
    and lg: "bl_log bl' = (case ir_pair r of None \<Rightarrow> bl_log bl | Some p \<Rightarrow> binlogger (snd p) (bl_log bl))"
    using assms(4) Insert by (auto simp: bl_insertF_def Let_def split: prod.splits option.splits)
  have f: "factory_wf f" "key_ok (factory_getKey f)" using assms(3) Insert by simp_all
  note law = insert_law [OF assms(1) f s]
  have "pair_wf (snd p) \<and> key_ok (getKey (snd p))" if "ir_pair r = Some p" for p
  proof -
    have "lookup (l_list L l1) (factory_getKey f) = Some p" using law that by (simp add: insert_spec_def)
    then show ?thesis
      using list_ok [of l1] law lookup_Some_in [of "l_list L l1" "factory_getKey f" p] f(2)
      by (auto simp: pairs_ok_def list_all_iff pkey_def)
  qed
  then show ?thesis using lg assms(2) by (auto simp: binlogger_def split: option.splits)
next
  case (Erase k)
  then have k: "k \<noteq> []" "key_ok k" using assms(3) by simp_all
  obtain l1 where s: "l_erase L now k (bl_list bl) = (r, l1)"
    using assms(4) Erase by (auto simp: bl_erase_def Let_def split: prod.splits option.splits)
  note law = erase_law [OF assms(1) k s]
  show ?thesis
  proof (cases "lookup (l_list L (bl_list bl)) k")
    case None
    then have "bl_log bl' = bl_log bl"
      using assms(4) Erase s law by (auto simp: bl_erase_def skipDeleted_def erase_spec_def)
    then show ?thesis using assms(2) by simp
  next
    case (Some p)
    then have "bl_log bl' = binlogger (makePairTombstone now k PairBufferTombstone) (bl_log bl)"
      using assms(4) Erase s law by (auto simp: bl_erase_def deleted_def erase_spec_def)
    then show ?thesis
      using assms(2) makePairTombstone_spec stored_key_le [OF assms(1) Some] k by (simp add: binlogger_def)
  qed
qed

lemma bl_run_log_wf:
  "inv (bl_list bl) \<Longrightarrow> log_synced (l_list L (bl_list bl)) (bl_log bl) \<Longrightarrow>
   list_all (\<lambda>p. pair_wf p \<and> key_ok (getKey p)) (bl_log bl) \<Longrightarrow>
   list_all (\<lambda>(now, op). op_ok key_ok op) ops \<Longrightarrow>
   list_all (\<lambda>p. pair_wf p \<and> key_ok (getKey p)) (bl_log (bl_run L ops bl))"
proof (induction ops arbitrary: bl)
  case (Cons a ops)
  obtain now op where a: "a = (now, op)" by fastforce
  obtain r bl1 where s: "bl_step L now op bl = (r, bl1)" by fastforce
  have "inv (bl_list bl1)" "log_synced (l_list L (bl_list bl1)) (bl_log bl1)"
    using bl_run_synced [of bl "[a]"] Cons.prems a s by simp_all
  then show ?case using Cons.IH [of bl1] bl_step_log_wf [OF Cons.prems(1,3) _ s] Cons.prems(4) a s by simp
qed simp

end

text \<open>
  C13: Crash recovery: replaying the log of any run into an empty list, with another allocator and
  at another time, restores the contents, if no creation time in the log has microseconds and memory
  suffices: each key the list held has the same value, expiration and creation time again, and a key
  the list did not hold is absent or a tombstone.
\<close>

theorem replay_restores_contents:
  assumes "list_all (\<lambda>(now, op). op_ok (\<lambda>k. True) op) ops" "k \<noteq> []"
    and "bl_run (vl_ops A grow) ops \<lparr>bl_list = vl_empty st, bl_log = []\<rparr> = bl"
    and "list_all no_usec (bl_log bl)"
    and "binlogFileReplay (vl_ops A' grow') now' (bl_log bl) (vl_empty st') = (rs, l)" "list_all ir_ok rs"
  shows "case lookup (vl_vector (bl_list bl)) k of
      Some p \<Rightarrow> map_option reg_of (lookup (vl_vector l) k) = Some (reg_of p)
    | None \<Rightarrow> (\<forall>q. lookup (vl_vector l) k = Some q \<longrightarrow> isTombstone (snd q))"
proof -
  let ?bl = "\<lparr>bl_list = vl_empty st, bl_log = []\<rparr>"
  have 0: "log_synced (l_list (vl_ops A grow) (bl_list ?bl)) (bl_log ?bl)" "vl_inv (bl_list ?bl)"
    by (simp_all add: log_synced_def vl_empty_def log_last_def vl_inv_empty [unfolded vl_empty_def])
  have sync: "log_synced (vl_vector (bl_list bl)) (bl_log bl)"
    using vl.bl_run_synced [OF 0(2,1) assms(1)] assms(3) by simp
  have wf: "list_all (\<lambda>p. pair_wf p \<and> True \<and> no_usec p) (bl_log bl)"
    using vl.bl_run_log_wf [OF 0(2,1) _ assms(1)] assms(3,4) by (simp add: list_all_iff)
  have "vl_inv l \<and> map_option reg_of (lookup (vl_vector l) k) = map_option preg_of (log_last k (bl_log bl))"
    using vl.replay_restores [OF vl_inv_empty wf assms(5,6,2)]
    by (auto simp: vl_empty_def split: option.splits)
  then have inv: "vl_inv l"
    and r: "map_option reg_of (lookup (vl_vector l) k) = map_option preg_of (log_last k (bl_log bl))" by simp_all
  have tomb: "isTombstone (snd q)" if q: "lookup (vl_vector l) k = Some q" and t: "log_last k (bl_log bl) = Some t" "isTombstone t" for q t
  proof -
    have "pair_wf t" using log_last_in [OF t(1)] wf by (simp add: list_all_iff)
    moreover have "pair_wf (snd q)"
      using vl.list_ok [OF inv, of A' grow'] lookup_Some_in [OF q] by (auto simp: pairs_ok_def list_all_iff)
    moreover have "getVal (snd q) = getVal t" "getExpires (snd q) = getExpires t"
      using r q t(1) by (simp_all add: reg_of_def preg_of_def)
    ultimately show ?thesis using t(2) by (metis isTombstone_iff length_getVal)
  qed
  show ?thesis
  proof (cases "lookup (vl_vector (bl_list bl)) k")
    case None
    then have "isTombstone t" if "log_last k (bl_log bl) = Some t" for t
      using sync assms(2) that by (simp add: log_synced_def option.case_eq_if)
    then show ?thesis using None r tomb by (cases "log_last k (bl_log bl)") auto
  next
    case (Some p)
    then have "log_last k (bl_log bl) = Some (snd p)"
      using sync [unfolded log_synced_def, rule_format, OF assms(2)] by simp
    then show ?thesis using Some r by (simp add: reg_of_preg)
  qed
qed

theorem replay_restores_contents_witness:
  "map_option reg_of (lookup (vl_vector (snd (binlogFileReplay (vl_ops arena_ops (\<lambda>n. True)) 9
     (bl_log (bl_run (vl_ops arena_ops (\<lambda>n. True)) [(1, Insert (Normal [98] [1, 2] 0 7))]
        \<lparr>bl_list = vl_empty arena4k, bl_log = []\<rparr>)) (vl_empty arena4k)))) [98]) =
   Some \<lparr>reg_created = to64 7, reg_val = [1, 2], reg_expires = 0\<rparr>"
proof -
  let ?f = "Normal [98] [1, 2] 0 7" let ?p = "factory_create 1 ?f (raw_memory 23)"
  let ?ops = "[(1, Insert ?f)] :: (u64 \<times> list_op) list"
  let ?bl = "bl_run (vl_ops arena_ops (\<lambda>n. True)) ?ops \<lparr>bl_list = vl_empty arena4k, bl_log = []\<rparr>"
  let ?r = "binlogFileReplay (vl_ops arena_ops (\<lambda>n. True)) 9 (bl_log ?bl) (vl_empty arena4k)"
  have p: "getKey ?p = [98]" "getVal ?p = [1, 2]" "getCreated ?p = to64 7" "getExpires ?p = 0"
    "pair_wf ?p" "bytes ?p = 23"
    using factory_create_spec [of ?f "raw_memory 23" 1]
    by (simp_all add: eval_simps block_size_def offset_buffer_def prepareCreateTime_def bytes_def)
  have bl: "bl_log ?bl = [?p]" "lookup (vl_vector (bl_list ?bl)) [98] = Some (4096, ?p)"
    using p(1) by (simp_all add: eval_simps bl_insertF_def binlogger_def Let_def lookup_Cons pkey_def)
  have "ucast (to64 7) = (0 :: u32)" by (simp add: to64_def to64_usec_def)
  then have u: "list_all no_usec (bl_log ?bl)" using p(3) unfolding bl(1) by (simp add: no_usec_def del: factory_create.simps)
  have "\<not> isKeyEmpty ?p" using getKey_empty_iff [OF p(5)] p(1) by simp
  then have rs: "list_all ir_ok (fst ?r)"
    using p(6) unfolding bl(1) by (simp add: eval_simps insert_pair_def Let_def del: factory_create.simps)
  have r: "?r = (fst ?r, snd ?r)" by simp
  have "list_all (\<lambda>(now, op). op_ok (\<lambda>k. True) op) ?ops" by (simp add: eval_simps)
  from replay_restores_contents [OF this _ refl u r rs, of "[98]"] bl(2) p(2-4)
  show ?thesis by (simp add: reg_of_def del: factory_create.simps)
qed

text \<open>
  C25: With microseconds in the creation times recovery loses updates: replaying a pair over an
  older pair of the same key is skipped, although the replayed pair is newer.
\<close>

theorem replay_loses_update:
  assumes "vl_inv l" "pair_wf p" "\<not> isKeyEmpty p" "lookup (vl_vector l) (getKey p) = Some old"
    and "getCreated (snd old) < getCreated p"
    and "toUsec (getCreated p) \<noteq> 0" "toUsec (getCreated p) < to32 (getCreated (snd old))"
    and "insert_pair (vl_ops A grow) now p l = (r, l')"
  shows "ir_status r = SKIP_INSERTED \<and> lookup (vl_vector l') (getKey p) = Some old"
proof -
  have u: "ucast (getCreated p) = toUsec (getCreated p)" by (rule ucast_toUsec)
  have "to64 (ucast (getCreated p)) < getCreated (snd old)"
    using to64_less [of "ucast (getCreated p)" "getCreated (snd old)"] assms(7) by (simp add: u)
  then show ?thesis
    using vl.replay_skips [of l p A grow old now r l'] assms u by simp
qed

theorem replay_loses_update_witness:
  "\<exists>l p. ir_status (fst (insert_pair (vl_ops arena_ops (\<lambda>n. True)) 1 p l)) = SKIP_INSERTED \<and>
     getCreated p = to64_usec 100 5"
proof -
  let ?f = "Normal [98] [1] 0 0" let ?old = "factory_create (to64_usec 99 7) ?f (raw_memory 22)"
  let ?p = "factory_create (to64_usec 100 5) (Normal [98] [2] 0 0) (raw_memory 22)"
  let ?l = "snd (vl_insertF arena_ops (\<lambda>n. True) (to64_usec 99 7) ?f (vl_empty arena4k))"
  have old: "getKey ?old = [98]" "getCreated ?old = to64_usec 99 7"
    using factory_create_spec [of ?f "raw_memory 22" "to64_usec 99 7"]
    by (simp_all add: eval_simps block_size_def offset_buffer_def prepareCreateTime_def)
  have p: "getKey ?p = [98]" "pair_wf ?p" "getCreated ?p = to64_usec 100 5"
    using factory_create_spec [of "Normal [98] [2] 0 0" "raw_memory 22" "to64_usec 100 5"]
    by (simp_all add: eval_simps block_size_def offset_buffer_def prepareCreateTime_def)
  have l: "lookup (vl_vector ?l) [98] = Some (4096, ?old)"
    using old by (simp add: eval_simps Let_def lookup_Cons pkey_def)
  have l': "lookup (vl_vector ?l) (getKey ?p) = Some (4096, ?old)" using l p(1) by simp
  have f: "factory_wf ?f"
    by (simp add: isKeyValid_def isValValid_def isKeyValid_size_def isValValid_size_def MAX_KEY_SIZE_def
        MAX_VAL_SIZE_def)
  have s: "l_insertF (vl_ops arena_ops (\<lambda>n. True)) (to64_usec 99 7) ?f (vl_empty arena4k) =
      (fst (vl_insertF arena_ops (\<lambda>n. True) (to64_usec 99 7) ?f (vl_empty arena4k)), ?l)" by simp
  have inv: "vl_inv ?l" using vl.insert_law [OF vl_inv_empty f TrueI s] by simp
  have k: "\<not> isKeyEmpty ?p" using getKey_empty_iff [OF p(2)] p(1) by simp
  let ?r = "insert_pair (vl_ops arena_ops (\<lambda>n. True)) 1 ?p ?l"
  have r: "?r = (fst ?r, snd ?r)" by simp
  have t: "getCreated (snd (4096 :: u64, ?old)) < getCreated ?p" "toUsec (getCreated ?p) \<noteq> 0"
    "toUsec (getCreated ?p) < to32 (getCreated (snd (4096 :: u64, ?old)))"
    unfolding snd_conv old(2) p(3) by (simp add: to64_usec_def, simp_all)
  show ?thesis using replay_loses_update [OF inv p(2) k l' t r] p(3) by blast
qed

end
