(* ===== verification/KvStore.thy ===== *)
theory KvStore
  imports Memlist "HOL-Library.Sublist"
begin

text \<open>
  What the commands see of a list: a map from keys to registers.  A pair that is a tombstone counts
  as absent, an expired pair stays until it is overwritten; whether it is alive depends on the clock.
  The locale \<open>kv_list\<close> is the contract that the commands rely on, over this map; every list that keeps
  the contract of \<open>memlist\<close> and allows the write through a pointer keeps it.
\<close>

section \<open>Registers\<close>

definition mk_reg :: "u64 \<Rightarrow> str \<Rightarrow> u32 \<Rightarrow> reg option" where
  "mk_reg created val expires =
     (if val = [] \<or> expires = EXPIRES_TOMBSTONE then None
      else Some \<lparr>reg_created = created, reg_val = val, reg_expires = expires\<rparr>)"

definition pair_reg :: "Pair \<Rightarrow> reg option" where
  "pair_reg q = mk_reg (getCreated q) (getVal q) (getExpires q)"

definition reg_ok :: "u64 \<Rightarrow> reg \<Rightarrow> bool" where
  "reg_ok now r \<longleftrightarrow> \<not> (reg_expires r \<noteq> 0 \<and> expired now (reg_created r) (reg_expires r))"

type_synonym kv = "str \<Rightarrow> reg option"

text \<open>The registers that are alive.\<close>

definition live :: "u64 \<Rightarrow> kv \<Rightarrow> kv" where
  "live now M k = (case M k of None \<Rightarrow> None | Some r \<Rightarrow> if reg_ok now r then Some r else None)"

definition kv_map :: "'l list_ops \<Rightarrow> (str \<Rightarrow> bool) \<Rightarrow> 'l \<Rightarrow> kv" where
  "kv_map L key_ok l k =
     (if k = [] \<or> \<not> key_ok k then None
      else case l_getPair L l k of None \<Rightarrow> None | Some p \<Rightarrow> pair_reg (snd p))"

lemma pair_reg_tombstone: "pair_wf q \<Longrightarrow> pair_reg q = None \<longleftrightarrow> isTombstone q"
  by (auto simp: pair_reg_def mk_reg_def isTombstone_iff simp flip: length_getVal)

lemma pair_reg_Some:
  "pair_reg q = Some r \<Longrightarrow>
     reg_created r = getCreated q \<and> reg_val r = getVal q \<and> reg_expires r = getExpires q"
  by (auto simp: pair_reg_def mk_reg_def split: if_splits)

lemma isOK_reg:
  assumes "pair_wf q"
  shows "isOK now q \<longleftrightarrow> (\<exists>r. pair_reg q = Some r \<and> reg_ok now r)"
proof -
  have "p_expires q \<noteq> 0 \<longleftrightarrow> getExpires q \<noteq> 0" using isExpiresSet_iff [of q] by (simp add: isExpiresSet_def)
  then show ?thesis using pair_reg_tombstone [OF assms] pair_reg_Some [of q]
    by (cases "pair_reg q") (auto simp: isOK_def isExpired0_def reg_ok_def)
qed

section \<open>What a factory writes\<close>

definition fwrite :: "u64 \<Rightarrow> PairFactory \<Rightarrow> reg option" where
  "fwrite now f = mk_reg now (factory_val f) (factory_expires f)"

text \<open>
  A factory that gives the same register whether it creates a pair or writes over the current one.
  \<open>Expires\<close> leaves the value that is there, the other two may.
\<close>

fun hintable :: "Pair option \<Rightarrow> PairFactory \<Rightarrow> bool" where
  "hintable cur (Normal key val expires created) \<longleftrightarrow> created = 0"
| "hintable cur (Expires key val expires created) \<longleftrightarrow> created = 0 \<and> (\<forall>q. cur = Some q \<longrightarrow> getVal q = val)"
| "hintable cur (Tombstone key created) \<longleftrightarrow> created = 0"
| "hintable cur (Clone src) \<longleftrightarrow> False"
| "hintable cur (Reserve key val_size old_pair fill) \<longleftrightarrow> cur = None \<or> old_pair = cur"
| "hintable cur (Action key val_size old_pair fill same_size action) \<longleftrightarrow> same_size \<longrightarrow> cur = None \<or> old_pair = cur"

lemma hintable_created: "hintable cur f \<Longrightarrow> factory_getCreated f = 0 \<and> factory_created now f = now"
  by (cases f) (simp_all add: prepareCreateTime_def)

lemma le_max64: "(x :: u64) \<le> 0xFFFFFFFFFFFFFFFF"
  using word_order.extremum [of x] by (simp add: mask_eq_exp_minus_1)

lemma hintable_replace: "hintable cur f \<Longrightarrow> isValidForReplace (factory_getCreated f) q"
  using hintable_created [of cur f 0]
  by (simp add: isValidForReplace_def isValidForReplace64_def prepareCreateTimeSimulate_def le_max64)

lemma pair_reg_create:
  assumes "factory_wf f" "hintable cur f"
  shows "pair_reg (factory_create now f (raw_memory (factory_bytes f))) = fwrite now f"
  using factory_create_spec [OF assms(1), of "raw_memory (factory_bytes f)" now] hintable_created [OF assms(2), of now]
  by (simp add: block_size_def pair_reg_def fwrite_def)

lemma smart_memcpy_id [simp]: "smart_memcpy (length v) v c = v"
  by (simp add: smart_memcpy_def)

lemma pair_reg_createHint:
  assumes "factory_wf f" "hintable (Some q) f" "pair_wf q" "getKey q = factory_getKey f" "factory_bytes f \<le> bytes q"
  shows "pair_reg (factory_createHint now f q) = fwrite now f"
proof -
  have c: "getCreated (factory_createHint now f q) = now"
    using factory_createHint_header [OF assms(1,3,5), of now] hintable_created [OF assms(2), of now] by simp
  have k: "getKeyLen q = length (factory_getKey f)" using assms(3,4) by (simp flip: length_getKey)
  have e: "getExpires (createInRawMemory now fl p key v n e c) = e" for fl p key v n e c
    by (simp add: createInRawMemory_def)
  show ?thesis
  proof (cases f)
    case (Normal key val e1 c1)
    then show ?thesis using factory_createHint_val [OF assms(1,3-5), of now] c
      by (simp add: factory_full_def pair_reg_def fwrite_def)
  next
    case (Expires key val e1 c1)
    then have "getVal q = val" using assms(2) by simp
    then show ?thesis using c Expires createHint_raw_none [of now q key "length val" e1 c1]
      by (simp add: pair_reg_def fwrite_def) (simp add: createInRawMemoryNone_def e)
  next
    case (Tombstone key c1)
    have "getExpires (factory_createHint now f q) = EXPIRES_TOMBSTONE"
      using Tombstone by (simp add: createInRawMemoryNone_def e)
    then show ?thesis by (simp add: Tombstone pair_reg_def fwrite_def mk_reg_def)
  next
    case (Clone src)
    then show ?thesis using assms(2) by simp
  next
    case (Reserve key n old c1)
    then have n: "n \<le> getValLen q" using assms(5) k by (simp add: bytes_le_iff)
    have f: "factory_createHint now f q = action_base now key n old c1 True q" using Reserve by (simp add: action_base_def)
    have "getVal (action_base now key n old c1 True q) = factory_val f"
      using action_base_spec [OF assms(3) _ n, of key now old c1 True] k Reserve assms(2,3) by (auto simp flip: length_getVal)
    moreover have "getExpires (action_base now key n old c1 True q) = 0"
      by (simp add: action_base_def createInRawMemoryNone_def e)
    ultimately show ?thesis using c unfolding f by (simp add: Reserve pair_reg_def fwrite_def)
  next
    case (Action key n old c1 s a)
    then have n: "n \<le> getValLen q" using assms(5) k by (simp add: bytes_le_iff)
    let ?b = "action_base now key n old c1 s q"
    have f: "factory_createHint now f q = factory_action a ?b" unfolding Action by (rule createHint_action_base)
    have b: "pair_wf ?b" "getValLen ?b = n" "getVal ?b = factory_val (Reserve key n old c1)"
      using action_base_spec [OF assms(3) _ n, of key now old c1 s] k Action assms(2,3) by (auto simp flip: length_getVal)
    have "length (a (getVal ?b)) = getValLen ?b"
      using assms(1) b length_getVal [OF b(1)] Action by simp
    then have "getVal (factory_action a ?b) = factory_val f"
      using factory_action_spec [where a = a, OF b(1)] b(3) by (simp add: Action)
    moreover have "getExpires (factory_action a ?b) = 0"
      by (simp add: action_base_def createInRawMemoryNone_def e)
    ultimately show ?thesis using c unfolding f by (simp add: Action pair_reg_def fwrite_def)
  qed
qed

lemma pair_reg_from:
  assumes "factory_wf f" "hintable (map_option snd old) f" "pair_from now f old in_place p"
    and "\<And>q. old = Some q \<Longrightarrow> pair_wf (snd q) \<and> getKey (snd q) = factory_getKey f"
  shows "pair_reg (snd p) = fwrite now f"
  using assms pair_reg_create [OF assms(1,2)] pair_reg_createHint [OF assms(1)]
  by (auto simp: pair_from_def split: if_splits)

section \<open>Writes\<close>

type_synonym kv_write = "str \<times> reg option"

definition apply_writes :: "kv_write list \<Rightarrow> kv \<Rightarrow> kv" where
  "apply_writes ws M = fold (\<lambda>(k, r) M. M(k := r)) ws M"

lemma apply_writes_simps [simp]:
  "apply_writes [] M = M" "apply_writes (w # ws) M = apply_writes ws (M(fst w := snd w))"
  "apply_writes (ws @ ws') M = apply_writes ws' (apply_writes ws M)"
  by (simp_all add: apply_writes_def split_def)

text \<open>
  \<open>room n l\<close> says that the list has memory for \<open>n\<close> more writes.  Without it a write may be dropped:
  the list reports that to its caller.  \<open>kv_wrote\<close> is the effect of a sequence of writes.
\<close>

definition kv_wrote ::
  "('l \<Rightarrow> bool) \<Rightarrow> ('l \<Rightarrow> kv) \<Rightarrow> (nat \<Rightarrow> 'l \<Rightarrow> bool) \<Rightarrow> kv_write list \<Rightarrow> 'l \<Rightarrow> 'l \<Rightarrow> bool" where
  "kv_wrote good kv room ws l l' \<longleftrightarrow>
     good l' \<and>
     (\<exists>done. subseq done ws \<and> kv l' = apply_writes done (kv l) \<and>
        (\<forall>n. room (n + length ws) l \<longrightarrow> done = ws \<and> room n l'))"

lemma kv_wrote_Nil: "good l \<Longrightarrow> kv_wrote good kv room [] l l"
  by (auto simp: kv_wrote_def)

lemma kv_wrote_append:
  assumes "kv_wrote good kv room ws l l1" "kv_wrote good kv room ws' l1 l2"
  shows "kv_wrote good kv room (ws @ ws') l l2"
proof -
  obtain d where d: "subseq d ws" "kv l1 = apply_writes d (kv l)"
      "\<forall>n. room (n + length ws) l \<longrightarrow> d = ws \<and> room n l1" using assms(1) by (auto simp: kv_wrote_def)
  obtain d' where d': "subseq d' ws'" "kv l2 = apply_writes d' (kv l1)" "good l2"
      "\<forall>n. room (n + length ws') l1 \<longrightarrow> d' = ws' \<and> room n l2" using assms(2) by (auto simp: kv_wrote_def)
  have "subseq (d @ d') (ws @ ws')" using d(1) d'(1) by (rule list_emb_append_mono)
  moreover have "kv l2 = apply_writes (d @ d') (kv l)" using d(2) d'(2) by simp
  moreover have "d @ d' = ws @ ws' \<and> room n l2" if "room (n + length (ws @ ws')) l" for n
    using that d(3) [rule_format, of "n + length ws'"] d'(4) [rule_format, of n] by (simp add: ac_simps)
  ultimately show ?thesis using d'(3) unfolding kv_wrote_def by blast
qed

lemma kv_wrote_one:
  assumes "good l'" "kv l' = kv l \<or> kv l' = (kv l)(k := r)"
    and "\<And>n. room (Suc n) l \<Longrightarrow> kv l' = (kv l)(k := r) \<and> room n l'"
  shows "kv_wrote good kv room [(k, r)] l l'"
proof (cases "kv l' = (kv l)(k := r)")
  case True
  then show ?thesis using assms by (auto simp: kv_wrote_def intro!: exI [of _ "[(k, r)]"])
next
  case False
  then show ?thesis using assms by (auto simp: kv_wrote_def intro!: exI [of _ "[]"])
qed

section \<open>The contract of the commands\<close>

locale kv_list =
  fixes L :: "'l list_ops" and inv :: "'l \<Rightarrow> bool" and key_ok :: "str \<Rightarrow> bool" and room :: "nat \<Rightarrow> 'l \<Rightarrow> bool"
  assumes kv_wf: "inv l \<Longrightarrow> k \<noteq> [] \<Longrightarrow> key_ok k \<Longrightarrow> l_getPair L l k = Some p \<Longrightarrow> pair_wf (snd p) \<and> getKey (snd p) = k"
    and kv_insert: "inv l \<Longrightarrow> factory_wf f \<Longrightarrow> key_ok (factory_getKey f) \<Longrightarrow>
      hintable (map_option snd (l_getPair L l (factory_getKey f))) f \<Longrightarrow>
      kv_wrote inv (kv_map L key_ok) room [(factory_getKey f, fwrite now f)] l (snd (l_insertF L now f l))"
    and kv_erase: "inv l \<Longrightarrow> isKeyValid k \<Longrightarrow> key_ok k \<Longrightarrow>
      kv_wrote inv (kv_map L key_ok) room [(k, None)] l (snd (l_erase L now k l))"
    and kv_hint: "inv l \<Longrightarrow> factory_wf f \<Longrightarrow> key_ok (factory_getKey f) \<Longrightarrow>
      l_getPair L l (factory_getKey f) = Some p \<Longrightarrow> hintable (Some (snd p)) f \<Longrightarrow>
      kv_wrote inv (kv_map L key_ok) room [(factory_getKey f, fwrite now f)] l (insertHint L now p f l)"
begin

abbreviation kv :: "'l \<Rightarrow> kv" where
  "kv \<equiv> kv_map L key_ok"

abbreviation writes :: "kv_write list \<Rightarrow> 'l \<Rightarrow> 'l \<Rightarrow> bool" where
  "writes \<equiv> kv_wrote inv (kv_map L key_ok) room"

text \<open>The readers of \<^verbatim>\<open>ilist.h\<close> over the map.\<close>

lemma getPairOK_live:
  assumes "inv l" "k \<noteq> []" "key_ok k"
  shows "getPairOK now (l_getPair L) l k \<longleftrightarrow> live now (kv l) k \<noteq> None"
  using kv_wf [OF assms] assms(2,3) isOK_reg
  by (auto simp: getPairOK_def getPairOK_pred_def Let_def live_def kv_map_def split: option.splits)

lemma getPairVal_live:
  assumes "inv l" "k \<noteq> []" "key_ok k"
  shows "getPairVal now (l_getPair L) l k = (case live now (kv l) k of None \<Rightarrow> [] | Some r \<Rightarrow> reg_val r)"
  using kv_wf [OF assms] assms(2,3) isOK_reg
  by (auto simp: getPairVal_def getPairOK_pred_def Let_def live_def kv_map_def dest!: pair_reg_Some split: option.splits)

lemma getPairPtr_live:
  assumes "inv l" "k \<noteq> []" "key_ok k"
  obtains (none) "getPairPtr now (l_getPair L) l k = None" "live now (kv l) k = None"
  | (some) p r where "getPairPtr now (l_getPair L) l k = Some p" "live now (kv l) k = Some r"
      "l_getPair L l k = Some p" "pair_wf (snd p)" "getKey (snd p) = k" "pair_reg (snd p) = Some r"
      "getVal (snd p) = reg_val r" "getCreated (snd p) = reg_created r" "getExpires (snd p) = reg_expires r"
proof (cases "l_getPair L l k")
  case None
  then show thesis using none assms by (simp add: getPairPtr_def getPairOK_pred_def live_def kv_map_def)
next
  case (Some p)
  note w = kv_wf [OF assms Some]
  show thesis
  proof (cases "isOK now (snd p)")
    case True
    then obtain r where r: "pair_reg (snd p) = Some r" "reg_ok now r" using isOK_reg w by blast
    then show thesis using some [of p r] Some True w assms pair_reg_Some [OF r(1)]
      by (simp add: getPairPtr_def getPairOK_pred_def live_def kv_map_def)
  next
    case False
    then have "\<not> reg_ok now r" if "pair_reg (snd p) = Some r" for r using isOK_reg w that by blast
    then show thesis using none Some False assms
      by (auto simp: getPairPtr_def getPairOK_pred_def live_def kv_map_def split: option.splits)
  qed
qed

end

section \<open>Memory lists\<close>

text \<open>A memory list whose pairs may be written through the pointers that \<open>getPair\<close> gives.\<close>

locale hint_list = memlist L inv key_ok ord
  for L :: "'l list_ops" and inv key_ok ord +
  fixes room :: "nat \<Rightarrow> 'l \<Rightarrow> bool"
  assumes ord_inj: "ord a = ord b \<longleftrightarrow> a = b"
    and store_law: "inv l \<Longrightarrow> lookup (l_list L l) (factory_getKey f) = Some p \<Longrightarrow> l_owns L l (fst p) \<Longrightarrow>
      factory_wf f \<Longrightarrow> key_ok (factory_getKey f) \<Longrightarrow> factory_bytes f \<le> bytes (snd p) \<Longrightarrow>
      inv (proceedInsertHint L now p f l) \<and>
      (\<forall>k. lookup (l_list L (proceedInsertHint L now p f l)) k =
         (if k = factory_getKey f then Some (fst p, factory_createHint now f (snd p)) else lookup (l_list L l) k))"
    and room_insert: "inv l \<Longrightarrow> factory_wf f \<Longrightarrow> key_ok (factory_getKey f) \<Longrightarrow> room (Suc n) l \<Longrightarrow>
      l_insertF L now f l = (r, l') \<Longrightarrow> ir_ok r \<and> room n l'"
    and room_erase: "inv l \<Longrightarrow> k \<noteq> [] \<Longrightarrow> key_ok k \<Longrightarrow> room (Suc n) l \<Longrightarrow> room n (snd (l_erase L now k l))"
    and room_store: "inv l \<Longrightarrow> room (Suc n) l \<Longrightarrow> room n (proceedInsertHint L now p f l)"
begin

lemma kv_lookup:
  "inv l \<Longrightarrow> kv_map L key_ok l k =
     (if k = [] \<or> \<not> key_ok k then None
      else case lookup (l_list L l) k of None \<Rightarrow> None | Some p \<Rightarrow> pair_reg (snd p))"
  using getPair_lookup by (simp add: kv_map_def)

lemma lookup_wf:
  assumes "inv l" "lookup (l_list L l) k = Some p"
  shows "pair_wf (snd p) \<and> getKey (snd p) = k"
  using list_ok [OF assms(1)] lookup_Some_in [OF assms(2)] by (auto simp: pairs_ok_def list_all_iff pkey_def)

lemma kv_update:
  assumes "inv l" "inv l'" "k \<noteq> []" "key_ok k" "lookup (l_list L l') k = Some p"
    and "\<And>k'. k' \<noteq> k \<Longrightarrow> lookup (l_list L l') k' = lookup (l_list L l) k'"
  shows "kv_map L key_ok l' = (kv_map L key_ok l)(k := pair_reg (snd p))"
  using assms by (auto simp: fun_eq_iff kv_lookup)

lemma kv_insertF:
  assumes "inv l" "factory_wf f" "key_ok (factory_getKey f)"
    "hintable (map_option snd (l_getPair L l (factory_getKey f))) f"
  shows "kv_wrote inv (kv_map L key_ok) room [(factory_getKey f, fwrite now f)] l (snd (l_insertF L now f l))"
proof -
  let ?k = "factory_getKey f"
  obtain r l' where s: "l_insertF L now f l = (r, l')" by fastforce
  note law = insert_law [OF assms(1-3) s]
  have k: "?k \<noteq> []" using factory_wf_key [OF assms(2)] .
  have h: "hintable (map_option snd (lookup (l_list L l) ?k)) f"
    using assms(4) getPair_lookup [OF assms(1) k assms(3)] by simp
  have st: "ir_status r \<noteq> SKIP_INSERTED" using law hintable_replace [OF assms(4)] by (auto simp: insert_spec_def)
  have upd: "kv_map L key_ok l' = (kv_map L key_ok l)(?k := fwrite now f)" if p: "ir_pair r = Some p" for p
  proof -
    have "pair_from now f (lookup (l_list L l) ?k) (ir_status r = UPDATED_IN_PLACE) p" "lookup (l_list L l') ?k = Some p"
        "\<And>k'. k' \<noteq> ?k \<Longrightarrow> lookup (l_list L l') k' = lookup (l_list L l) k'"
      using law p by (auto simp: insert_spec_def)
    moreover from this have "pair_reg (snd p) = fwrite now f"
      using pair_reg_from [OF assms(2) h] lookup_wf [OF assms(1)] by blast
    ultimately show ?thesis using kv_update [OF assms(1) _ k assms(3)] law by metis
  qed
  have same: "kv_map L key_ok l' = kv_map L key_ok l" if "ir_pair r = None"
    using insert_spec_none [OF conjunct2 [OF law] that] assms(1) law by (auto simp: fun_eq_iff kv_lookup)
  have ok: "ir_pair r \<noteq> None" if "ir_ok r"
    using law st that by (cases "ir_status r") (auto simp: insert_spec_def)
  show ?thesis unfolding s snd_conv
  proof (rule kv_wrote_one)
    show "inv l'" using law by blast
    show "kv_map L key_ok l' = kv_map L key_ok l \<or> kv_map L key_ok l' = (kv_map L key_ok l)(?k := fwrite now f)"
      using upd same by blast
    show "kv_map L key_ok l' = (kv_map L key_ok l)(?k := fwrite now f) \<and> room n l'" if "room (Suc n) l" for n
      using room_insert [OF assms(1-3) that s] ok upd by blast
  qed
qed

lemma kv_list: "kv_list L inv key_ok room"
proof
  show "pair_wf (snd p) \<and> getKey (snd p) = k"
    if "inv l" "k \<noteq> []" "key_ok k" "l_getPair L l k = Some p" for l k p
    using lookup_wf [of l k p] getPair_lookup [of l k] that by simp
  show "kv_wrote inv (kv_map L key_ok) room [(factory_getKey f, fwrite now f)] l (snd (l_insertF L now f l))"
    if "inv l" "factory_wf f" "key_ok (factory_getKey f)"
      "hintable (map_option snd (l_getPair L l (factory_getKey f))) f" for l f now
    using kv_insertF that .
  show "kv_wrote inv (kv_map L key_ok) room [(k, None)] l (snd (l_erase L now k l))"
    if a: "inv l" "isKeyValid k" "key_ok k" for l k now
  proof -
    obtain r l' where s: "l_erase L now k l = (r, l')" by fastforce
    have k: "k \<noteq> []" using a(2) by (auto simp: isKeyValid_def isKeyValid_size_def)
    note law = erase_law [OF a(1) k a(3) s]
    then have "kv_map L key_ok l' = (kv_map L key_ok l)(k := None)"
      using a(1) by (auto simp: fun_eq_iff kv_lookup erase_spec_def)
    then show ?thesis using law room_erase [OF a(1) k a(3), of _ now] s by (intro kv_wrote_one) simp_all
  qed
  show "kv_wrote inv (kv_map L key_ok) room [(factory_getKey f, fwrite now f)] l (insertHint L now p f l)"
    if a: "inv l" "factory_wf f" "key_ok (factory_getKey f)" "l_getPair L l (factory_getKey f) = Some p"
      "hintable (Some (snd p)) f" for l f p now
  proof (cases "l_owns L l (fst p) \<and> bytes (snd p) \<ge> factory_bytes f")
    case True
    let ?l = "proceedInsertHint L now p f l"
    have k: "factory_getKey f \<noteq> []" using factory_wf_key [OF a(2)] .
    have lk: "lookup (l_list L l) (factory_getKey f) = Some p" using a(1,3,4) k getPair_lookup by simp
    have law: "inv ?l" "\<And>k. lookup (l_list L ?l) k =
         (if k = factory_getKey f then Some (fst p, factory_createHint now f (snd p)) else lookup (l_list L l) k)"
      using store_law [OF a(1) lk _ a(2,3)] True by blast+
    have "pair_reg (factory_createHint now f (snd p)) = fwrite now f"
      using pair_reg_createHint [OF a(2,5)] lookup_wf [OF a(1) lk] True by blast
    then have "kv_map L key_ok ?l = (kv_map L key_ok l)(factory_getKey f := fwrite now f)"
      using kv_update [OF a(1) law(1) k a(3), of "(fst p, factory_createHint now f (snd p))"] law(2) by simp
    then show ?thesis using True law room_store [OF a(1)]
      unfolding insertHint_def by (intro kv_wrote_one) simp_all
  next
    case False
    then have "insertHint L now p f l = snd (l_insertF L now f l)" by (auto simp: insertHint_def)
    then show ?thesis using kv_insertF [OF a(1-3), of now] a(4,5) by simp
  qed
qed

end

sublocale hint_list \<subseteq> kv_list L inv key_ok room
  by (rule kv_list)

end
