(* ===== verification/LinkList.thy ===== *)
theory LinkList
  imports VectorList
begin

text \<open>
  \<^verbatim>\<open>hm4/linklist.h\<close>, \<^verbatim>\<open>hm4/linklist.cc\<close>: the singly linked list of nodes that carry the
  packed key (\<open>hkey\<close>) beside the pair.  The chain of \<open>next\<close> pointers from \<open>head_\<close> is the
  sequence \<open>ll_nodes\<close>; \<open>ll_addr\<close> is the address of a node.  A \<open>Node **\<close> that the locator
  returns is the number of nodes before it.
\<close>

section \<open>The code\<close>

record LLNode =
  ll_addr :: u64
  ll_hkey :: u64
  ll_data :: pptr

record 's LinkList =
  ll_nodes :: "LLNode list"
  ll_lc :: ListCounter
  ll_allocator :: 's

definition sizeof_LLNode :: u64 where "sizeof_LLNode = 24"

definition node_cmp :: "LLNode \<Rightarrow> u64 \<Rightarrow> str \<Rightarrow> int" where
  "node_cmp node hkey key = HPair_cmp (ll_hkey node) (snd (ll_data node)) hkey key"

record NodeLocator =
  nl_prev :: nat
  nl_node :: bool

fun ll_locate_loop :: "u64 \<Rightarrow> str \<Rightarrow> nat \<Rightarrow> LLNode list \<Rightarrow> NodeLocator" where
  "ll_locate_loop hkey key prev [] = \<lparr>nl_prev = prev, nl_node = False\<rparr>"
| "ll_locate_loop hkey key prev (node # nodes) =
     (if ll_hkey node \<ge> hkey \<and> node_cmp node hkey key \<ge> 0
      then (if node_cmp node hkey key = 0 then \<lparr>nl_prev = prev, nl_node = True\<rparr>
            else \<lparr>nl_prev = prev, nl_node = False\<rparr>)
      else ll_locate_loop hkey key (prev + 1) nodes)"

definition ll_locate :: "str \<Rightarrow> 's LinkList \<Rightarrow> NodeLocator" where
  "ll_locate key l = ll_locate_loop (SS_create key) key 0 (ll_nodes l)"

text \<open>\<open>find_\<close>: the node and what follows it; with \<open>ExactEvaluation\<close> nothing on a miss.\<close>

fun ll_find_loop :: "bool \<Rightarrow> u64 \<Rightarrow> str \<Rightarrow> LLNode list \<Rightarrow> LLNode list" where
  "ll_find_loop exact hkey key [] = []"
| "ll_find_loop exact hkey key (node # nodes) =
     (if ll_hkey node \<ge> hkey \<and> node_cmp node hkey key \<ge> 0
      then (if node_cmp node hkey key = 0 then node # nodes
            else if exact then [] else node # nodes)
      else ll_find_loop exact hkey key nodes)"

definition ll_find :: "'s LinkList \<Rightarrow> str \<Rightarrow> pptr list" where
  "ll_find l key = map ll_data (ll_find_loop False (SS_create key) key (ll_nodes l))"

definition ll_getPair :: "'s LinkList \<Rightarrow> str \<Rightarrow> pptr option" where
  "ll_getPair l key =
     (case ll_find_loop True (SS_create key) key (ll_nodes l) of
        [] \<Rightarrow> None | node # _ \<Rightarrow> Some (ll_data node))"

definition ll_deallocate :: "'s allocator_ops \<Rightarrow> LLNode \<Rightarrow> 's \<Rightarrow> 's" where
  "ll_deallocate A node st = xdeallocate A (xdeallocate A st (fst (ll_data node))) (ll_addr node)"

definition ll_insertF ::
  "'s allocator_ops \<Rightarrow> u64 \<Rightarrow> PairFactory \<Rightarrow> 's LinkList \<Rightarrow> InsertResult \<times> 's LinkList" where
  "ll_insertF A now f l =
     (if \<not> factory_valid f then (errorInvalid, l)
      else
        let key = factory_getKey f;
            nl = ll_locate key l;
            i = nl_prev nl
        in if nl_node nl then
             (let node = ll_nodes l ! i;
                  (r, data, lc, st) = updatePair A now f (ll_data node) (ll_lc l) (ll_allocator l);
                  node = (if ir_status r = REPLACED
                          then node\<lparr>ll_hkey := SS_create key, ll_data := data\<rparr>
                          else node\<lparr>ll_data := data\<rparr>)
              in (r, l\<lparr>ll_nodes := (ll_nodes l)[i := node], ll_lc := lc, ll_allocator := st\<rparr>))
           else
             case pair_create A now f (ll_allocator l) of
               (None, st) \<Rightarrow> (errorNoMemory, l\<lparr>ll_allocator := st\<rparr>)
             | (Some newdata, st) \<Rightarrow>
                 (case xallocate A st sizeof_LLNode of
                    (None, st) \<Rightarrow> (errorNoMemory, l\<lparr>ll_allocator := xdeallocate A st (fst newdata)\<rparr>)
                  | (Some a, st) \<Rightarrow>
                      (let newnode = \<lparr>ll_addr = a, ll_hkey = SS_create key, ll_data = newdata\<rparr>
                       in (inserted newdata,
                           l\<lparr>ll_nodes := take i (ll_nodes l) @ newnode # drop i (ll_nodes l),
                             ll_lc := lc_inc (size_t (bytes (snd newdata))) (ll_lc l),
                             ll_allocator := st\<rparr>))))"

definition ll_erase :: "'s allocator_ops \<Rightarrow> u64 \<Rightarrow> str \<Rightarrow> 's LinkList \<Rightarrow> InsertResult \<times> 's LinkList" where
  "ll_erase A now key l =
     (let nl = ll_locate key l; i = nl_prev nl in
      if \<not> nl_node nl then (skipDeleted, l)
      else
        (let node = ll_nodes l ! i
         in (deleted,
             l\<lparr>ll_nodes := take i (ll_nodes l) @ drop (i + 1) (ll_nodes l),
               ll_lc := lc_dec (size_t (bytes (snd (ll_data node)))) (ll_lc l),
               ll_allocator := ll_deallocate A node (ll_allocator l)\<rparr>)))"

definition ll_clear :: "'s allocator_ops \<Rightarrow> 's LinkList \<Rightarrow> 's LinkList" where
  "ll_clear A l =
     (let (ok, st) = reset A (ll_allocator l);
          st = (if ok then st else fold (ll_deallocate A) (ll_nodes l) st)
      in l\<lparr>ll_allocator := st, ll_lc := lc_clr (ll_lc l), ll_nodes := []\<rparr>)"

definition ll_mutable_notify :: "MutableNotifyMessage \<Rightarrow> 's LinkList \<Rightarrow> 's LinkList" where
  "ll_mutable_notify msg l = l\<lparr>ll_lc := lc_upd (size_t (bytes_old msg)) (size_t (bytes_new msg)) (ll_lc l)\<rparr>"

definition ll_empty :: "'s \<Rightarrow> 's LinkList" where
  "ll_empty st = \<lparr>ll_nodes = [], ll_lc = lc_zero, ll_allocator = st\<rparr>"

definition ll_ops :: "'s allocator_ops \<Rightarrow> 's LinkList list_ops" where
  "ll_ops A = \<lparr>
     l_insertF = ll_insertF A,
     l_erase = ll_erase A,
     l_getPair = ll_getPair,
     l_list = (\<lambda>l. map ll_data (ll_nodes l)),
     l_find = ll_find,
     l_clear = ll_clear A,
     l_size = (\<lambda>l. lc_count (ll_lc l)),
     l_empty = (\<lambda>l. lc_count (ll_lc l) = 0),
     l_bytes = (\<lambda>l. lc_bytes (ll_lc l)),
     l_owns = (\<lambda>l. owns A (ll_allocator l)),
     l_store = (\<lambda>l p. l\<lparr>ll_nodes :=
        map (\<lambda>n. if fst (ll_data n) = fst p then n\<lparr>ll_data := p\<rparr> else n) (ll_nodes l)\<rparr>),
     l_mutable_notify = ll_mutable_notify\<rparr>"

section \<open>The walk finds the lower bound\<close>

definition hkeys_ok :: "LLNode list \<Rightarrow> bool" where
  "hkeys_ok nodes \<longleftrightarrow>
     list_all (\<lambda>n. ll_hkey n = SS_create (pkey (ll_data n)) \<and> nul_free (pkey (ll_data n))) nodes"

definition ll_inv :: "'s LinkList \<Rightarrow> bool" where
  "ll_inv l \<longleftrightarrow> list_good hkey_ord nul_free (map ll_data (ll_nodes l)) (ll_lc l) \<and> hkeys_ok (ll_nodes l)"

text \<open>The test of the loop: a node is passed exactly when its key is smaller.\<close>

lemma SS_create_less_hkey_ord:
  assumes "nul_free a" "nul_free b" "SS_create a < SS_create b"
  shows "hkey_ord a < hkey_ord b"
proof -
  have "take 8 a \<noteq> take 8 b"
  proof
    assume t: "take 8 a = take 8 b"
    then have "min (length a) 8 = min (length b) 8" by (metis length_take)
    then have "8 - length a = 8 - length b" by arith
    then have "pad 8 a = pad 8 b" using t by (simp add: pad_def)
    then show False using assms(3) by (simp add: SS_create_less_iff)
  qed
  then have "sgn3 (hkey_ord a) (hkey_ord b) = sgn3 a b" by (simp add: sgn3_hkey_ord)
  moreover have "a < b" using assms by (rule SS_create_less_imp)
  ultimately show ?thesis by (metis sgn3_less_0)
qed

lemma node_cmp_ord:
  assumes "hkeys_ok [node]" "nul_free key"
  shows "node_cmp node (SS_create key) key = sgn3 (hkey_ord (pkey (ll_data node))) (hkey_ord key)"
  using assms HPair_cmp_hkey_ord [of "snd (ll_data node)" key]
  by (simp add: hkeys_ok_def node_cmp_def pkey_def)

lemma node_stop_iff:
  assumes "hkeys_ok [node]" "nul_free key"
  shows "ll_hkey node \<ge> SS_create key \<and> node_cmp node (SS_create key) key \<ge> 0 \<longleftrightarrow>
    hkey_ord key \<le> hkey_ord (pkey (ll_data node))"
proof -
  have h: "ll_hkey node = SS_create (pkey (ll_data node))" "nul_free (pkey (ll_data node))"
    using assms(1) by (simp_all add: hkeys_ok_def)
  have "hkey_ord (pkey (ll_data node)) < hkey_ord key" if "ll_hkey node < SS_create key"
    using SS_create_less_hkey_ord [OF h(2) assms(2)] that h(1) by simp
  then show ?thesis using node_cmp_ord [OF assms]
    by (cases "ll_hkey node < SS_create key") (auto simp: not_less dest: leD)
qed

lemma ll_locate_loop_eq:
  assumes "hkeys_ok nodes" "nul_free key"
  shows "ll_locate_loop (SS_create key) key prev nodes =
    (let b = searched (\<lambda>p. hkey_ord (pkey p)) (map ll_data nodes) (hkey_ord key)
     in \<lparr>nl_prev = prev + bs_it b, nl_node = bs_found b\<rparr>)"
  using assms(1)
proof (induction nodes arbitrary: prev)
  case Nil
  then show ?case by (simp add: searched_def lower_bound_def)
next
  case (Cons node nodes)
  have n: "hkeys_ok [node]" "hkeys_ok nodes" using Cons.prems by (simp_all add: hkeys_ok_def)
  show ?case
  proof (cases "hkey_ord key \<le> hkey_ord (pkey (ll_data node))")
    case True
    then have stop: "ll_hkey node \<ge> SS_create key" "node_cmp node (SS_create key) key \<ge> 0"
      using node_stop_iff [OF n(1) assms(2)] by blast+
    have "searched (\<lambda>p. hkey_ord (pkey p)) (map ll_data (node # nodes)) (hkey_ord key) =
        \<lparr>bs_found = hkey_ord (pkey (ll_data node)) = hkey_ord key, bs_it = 0\<rparr>"
      using True by (simp add: searched_def lower_bound_def)
    then show ?thesis using stop node_cmp_ord [OF n(1) assms(2)] by (simp add: Let_def)
  next
    case False
    then have pass: "\<not> (ll_hkey node \<ge> SS_create key \<and> node_cmp node (SS_create key) key \<ge> 0)"
      using node_stop_iff [OF n(1) assms(2)] by blast
    have "searched (\<lambda>p. hkey_ord (pkey p)) (map ll_data (node # nodes)) (hkey_ord key) =
        (let b = searched (\<lambda>p. hkey_ord (pkey p)) (map ll_data nodes) (hkey_ord key)
         in \<lparr>bs_found = bs_found b, bs_it = Suc (bs_it b)\<rparr>)"
      using False by (simp add: searched_def lower_bound_def Let_def)
    moreover have "ll_locate_loop (SS_create key) key prev (node # nodes) =
        ll_locate_loop (SS_create key) key (prev + 1) nodes"
      by (simp only: ll_locate_loop.simps pass if_False)
    ultimately show ?thesis using Cons.IH [OF n(2), of "prev + 1"]
      by (simp add: Let_def del: ll_locate_loop.simps)
  qed
qed

lemma ll_find_loop_eq:
  assumes "hkeys_ok nodes" "nul_free key"
  shows "ll_find_loop exact (SS_create key) key nodes =
    (let b = searched (\<lambda>p. hkey_ord (pkey p)) (map ll_data nodes) (hkey_ord key)
     in if exact \<and> \<not> bs_found b then [] else drop (bs_it b) nodes)"
  using assms(1)
proof (induction nodes)
  case Nil
  then show ?case by (simp add: Let_def)
next
  case (Cons node nodes)
  have n: "hkeys_ok [node]" "hkeys_ok nodes" using Cons.prems by (simp_all add: hkeys_ok_def)
  show ?case
  proof (cases "hkey_ord key \<le> hkey_ord (pkey (ll_data node))")
    case True
    then have stop: "ll_hkey node \<ge> SS_create key" "node_cmp node (SS_create key) key \<ge> 0"
      using node_stop_iff [OF n(1) assms(2)] by blast+
    have "searched (\<lambda>p. hkey_ord (pkey p)) (map ll_data (node # nodes)) (hkey_ord key) =
        \<lparr>bs_found = hkey_ord (pkey (ll_data node)) = hkey_ord key, bs_it = 0\<rparr>"
      using True by (simp add: searched_def lower_bound_def)
    then show ?thesis using stop node_cmp_ord [OF n(1) assms(2)] by (simp add: Let_def)
  next
    case False
    then have pass: "\<not> (ll_hkey node \<ge> SS_create key \<and> node_cmp node (SS_create key) key \<ge> 0)"
      using node_stop_iff [OF n(1) assms(2)] by blast
    have "searched (\<lambda>p. hkey_ord (pkey p)) (map ll_data (node # nodes)) (hkey_ord key) =
        (let b = searched (\<lambda>p. hkey_ord (pkey p)) (map ll_data nodes) (hkey_ord key)
         in \<lparr>bs_found = bs_found b, bs_it = Suc (bs_it b)\<rparr>)"
      using False by (simp add: searched_def lower_bound_def Let_def)
    moreover have "ll_find_loop exact (SS_create key) key (node # nodes) =
        ll_find_loop exact (SS_create key) key nodes"
      by (simp only: ll_find_loop.simps pass if_False)
    ultimately show ?thesis using Cons.IH [OF n(2)] by (simp add: Let_def del: ll_find_loop.simps)
  qed
qed

section \<open>The operations keep the contract\<close>

lemma ll_locate_searched:
  assumes "hkeys_ok (ll_nodes l)" "nul_free key"
  shows "searched (\<lambda>p. hkey_ord (pkey p)) (map ll_data (ll_nodes l)) (hkey_ord key) =
    \<lparr>bs_found = nl_node (ll_locate key l), bs_it = nl_prev (ll_locate key l)\<rparr>"
  using ll_locate_loop_eq [OF assms, of 0] by (simp add: ll_locate_def Let_def)

lemma hkeys_ok_list_all: "hkeys_ok nodes \<longleftrightarrow> (\<forall>n \<in> set nodes. hkeys_ok [n])"
  by (auto simp: hkeys_ok_def list_all_iff)

lemma hkeys_ok_take_drop: "hkeys_ok nodes \<Longrightarrow> hkeys_ok (take i nodes) \<and> hkeys_ok (drop i nodes)"
  by (auto simp: hkeys_ok_list_all [of nodes] hkeys_ok_list_all [of "take i nodes"]
      hkeys_ok_list_all [of "drop i nodes"] dest: in_set_takeD in_set_dropD)

lemma hkeys_ok_append: "hkeys_ok (a @ n # b) \<longleftrightarrow> hkeys_ok a \<and> hkeys_ok [n] \<and> hkeys_ok b"
  by (simp add: hkeys_ok_def)

lemma ll_insertF_law:
  assumes inv: "ll_inv l" and f: "factory_wf f" "nul_free (factory_getKey f)"
    and step: "ll_insertF A now f l = (r, l')"
  shows "ll_inv l' \<and> insert_spec now f (map ll_data (ll_nodes l)) r (map ll_data (ll_nodes l'))"
proof -
  let ?ns = "ll_nodes l" and ?key = "factory_getKey f" and ?nl = "ll_locate (factory_getKey f) l"
  let ?v = "map ll_data ?ns" and ?i = "nl_prev ?nl"
  have good: "list_good hkey_ord nul_free ?v (ll_lc l)" and hk: "hkeys_ok ?ns"
    using inv by (simp_all add: ll_inv_def)
  then have s: "sorted_keys hkey_ord ?v" by (simp add: list_good_def)
  have valid: "factory_valid f" using f(1) by (rule factory_wf_valid)
  from s ll_locate_searched [OF hk f(2)] show ?thesis
  proof (cases rule: hord.searched_cases)
    case found
    let ?node = "?ns ! ?i"
    have i: "nl_node ?nl" "?i < length ?ns" using found(1,2) by simp_all
    obtain data lc' st' where u: "updatePair A now f (ll_data ?node) (ll_lc l) (ll_allocator l) = (r, data, lc', st')"
      using step valid i(1) by (auto simp: ll_insertF_def Let_def split: prod.splits)
    define node' where "node' = (if ir_status r = REPLACED
      then ?node\<lparr>ll_hkey := SS_create ?key, ll_data := data\<rparr> else ?node\<lparr>ll_data := data\<rparr>)"
    have l': "l' = l\<lparr>ll_nodes := ?ns[?i := node'], ll_lc := lc', ll_allocator := st'\<rparr>"
      using step valid i(1) u by (simp add: ll_insertF_def Let_def node'_def)
    have ko: "pkey (ll_data ?node) = ?key" using found(3) i by simp
    have split: "take ?i ?v @ ll_data ?node # drop (Suc ?i) ?v = ?v"
      using id_take_nth_drop [of ?i ?v, symmetric] i by simp
    have "list_good hkey_ord nul_free (take ?i ?v @ ll_data ?node # drop (Suc ?i) ?v) (ll_lc l)"
      using good by (simp only: split)
    note up = hord.update_law [OF this f(1) ko u, unfolded split]
    have v': "map ll_data (ll_nodes l') = take ?i ?v @ data # drop (Suc ?i) ?v"
      using i by (simp add: l' node'_def list_update_split map_update take_map drop_map)
    have n: "hkeys_ok [?node]" using hk i by (auto simp: hkeys_ok_list_all [of ?ns])
    have "pair_wf (snd (ll_data ?node))"
      using good i by (auto simp: list_good_def pairs_ok_def list_all_iff)
    then have "pkey data = ?key"
      using updatePair_spec(1) [OF f(1) _ _ u] ko by (simp add: pkey_def)
    then have "hkeys_ok [node']" using n ko f(2) by (auto simp: hkeys_ok_def node'_def)
    then have "hkeys_ok (ll_nodes l')"
      using hk i hkeys_ok_take_drop by (simp add: l' list_update_split hkeys_ok_append)
    then show ?thesis using up v' by (simp add: ll_inv_def l')
  next
    case absent
    have nf: "\<not> nl_node ?nl" using absent(1) by simp
    obtain c st where c: "pair_create A now f (ll_allocator l) = (c, st)" by fastforce
    obtain d st2 where d: "xallocate A st sizeof_LLNode = (d, st2)" by fastforce
    show ?thesis
    proof (cases c)
      case None
      then show ?thesis using step valid nf c inv insert_spec_failed [OF absent(2)]
        by (auto simp: ll_insertF_def Let_def ll_inv_def)
    next
      case (Some p)
      show ?thesis
      proof (cases d)
        case None
        then show ?thesis using Some step valid nf c d inv insert_spec_failed [OF absent(2)]
          by (auto simp: ll_insertF_def Let_def ll_inv_def)
      next
        case a: (Some a)
        let ?new = "\<lparr>ll_addr = a, ll_hkey = SS_create ?key, ll_data = p\<rparr>"
        have r: "r = inserted p" and ns': "ll_nodes l' = take ?i ?ns @ ?new # drop ?i ?ns"
          and lc': "ll_lc l' = lc_inc (size_t (bytes (snd p))) (ll_lc l)"
          using Some a step valid nf c d by (auto simp: ll_insertF_def Let_def)
        have j: "lower_bound (\<lambda>p. hkey_ord (pkey p)) ?v (hkey_ord ?key) = ?i" using absent(3) by simp
        have "pair_create A now f (ll_allocator l) = (Some p, st)" using c Some by simp
        note new = hord.insert_new_law [OF good f j absent(2) this]
        have "pkey p = ?key"
          using f(1) c Some by (cases rule: pair_create_cases) (auto simp: pkey_def)
        then have "hkeys_ok (ll_nodes l')"
          using hk hkeys_ok_take_drop f(2) by (simp add: ns' hkeys_ok_append) (simp add: hkeys_ok_def)
        then show ?thesis using new r lc' by (simp add: ll_inv_def ns' take_map drop_map)
      qed
    qed
  qed
qed

lemma ll_erase_law:
  assumes inv: "ll_inv l" and key: "nul_free k" and step: "ll_erase A now k l = (r, l')"
  shows "ll_inv l' \<and> erase_spec k (map ll_data (ll_nodes l)) r (map ll_data (ll_nodes l'))"
proof -
  let ?ns = "ll_nodes l" and ?i = "nl_prev (ll_locate k l)"
  let ?v = "map ll_data ?ns"
  have good: "list_good hkey_ord nul_free ?v (ll_lc l)" and hk: "hkeys_ok ?ns"
    using inv by (simp_all add: ll_inv_def)
  then have s: "sorted_keys hkey_ord ?v" by (simp add: list_good_def)
  from s ll_locate_searched [OF hk key] show ?thesis
  proof (cases rule: hord.searched_cases)
    case absent
    then show ?thesis using inv step by (auto simp: ll_erase_def Let_def erase_spec_def)
  next
    case found
    have i: "?i < length ?ns" using found(2) by simp
    have split: "take ?i ?v @ ll_data (?ns ! ?i) # drop (Suc ?i) ?v = ?v"
      using id_take_nth_drop [of ?i ?v, symmetric] i by simp
    have "list_good hkey_ord nul_free (take ?i ?v @ ll_data (?ns ! ?i) # drop (Suc ?i) ?v) (ll_lc l)"
      using good by (simp only: split)
    note rem = hord.remove_law [OF this, unfolded split]
    have l': "r = deleted" "ll_nodes l' = take ?i ?ns @ drop (Suc ?i) ?ns"
      "ll_lc l' = lc_dec (size_t (bytes (snd (ll_data (?ns ! ?i))))) (ll_lc l)"
      using step found(1) by (auto simp: ll_erase_def Let_def)
    have "hkeys_ok (ll_nodes l')"
      using hkeys_ok_take_drop [OF hk] by (simp add: l' hkeys_ok_def)
    then show ?thesis using rem l' found(3) i by (simp add: ll_inv_def take_map drop_map)
  qed
qed

lemma ll_ops_simps [simp]:
  "l_insertF (ll_ops A) = ll_insertF A" "l_erase (ll_ops A) = ll_erase A"
  "l_getPair (ll_ops A) = ll_getPair" "l_list (ll_ops A) l = map ll_data (ll_nodes l)"
  "l_find (ll_ops A) = ll_find" "l_clear (ll_ops A) = ll_clear A"
  "l_size (ll_ops A) l = lc_count (ll_lc l)" "l_bytes (ll_ops A) l = lc_bytes (ll_lc l)"
  by (simp_all add: ll_ops_def)

lemma ll_getPair_lookup:
  assumes "ll_inv l" "nul_free k"
  shows "ll_getPair l k = lookup (map ll_data (ll_nodes l)) k"
proof -
  let ?v = "map ll_data (ll_nodes l)"
  have s: "sorted_keys hkey_ord ?v" and hk: "hkeys_ok (ll_nodes l)"
    using assms(1) by (simp_all add: ll_inv_def list_good_def)
  from s refl show ?thesis
  proof (cases rule: hord.searched_cases [where key = k])
    case found
    then show ?thesis using ll_find_loop_eq [OF hk assms(2), of True]
      by (simp add: ll_getPair_def Let_def flip: Cons_nth_drop_Suc)
  next
    case absent
    then show ?thesis using ll_find_loop_eq [OF hk assms(2), of True]
      by (simp add: ll_getPair_def Let_def)
  qed
qed

interpretation ll: memlist "ll_ops A" ll_inv nul_free hkey_ord for A
proof unfold_locales
  fix l :: "'a LinkList" assume inv: "ll_inv l"
  show "sorted_keys hkey_ord (l_list (ll_ops A) l)" "pairs_ok nul_free (l_list (ll_ops A) l)"
    "lc_of (l_list (ll_ops A) l) = \<lparr>lc_count = l_size (ll_ops A) l, lc_bytes = l_bytes (ll_ops A) l\<rparr>"
    using inv by (simp_all add: ll_inv_def list_good_def)
  show "ll_inv (l_clear (ll_ops A) l) \<and> l_list (ll_ops A) (l_clear (ll_ops A) l) = []"
    by (simp add: ll_clear_def ll_inv_def list_good_def pairs_ok_def hkeys_ok_def lc_clr_def lc_zero_def
        Let_def split: prod.split)
  fix k :: str assume k: "nul_free k"
  show "l_getPair (ll_ops A) l k = lookup (l_list (ll_ops A) l) k"
    using ll_getPair_lookup [OF inv k] by simp
  show "l_find (ll_ops A) l k = dropWhile (\<lambda>p. hkey_ord (pkey p) < hkey_ord k) (l_list (ll_ops A) l)"
    using inv ll_find_loop_eq [of "ll_nodes l" k False] k
    by (simp add: ll_inv_def ll_find_def searched_def Let_def lower_bound_def drop_map [symmetric]
        dropWhile_eq_drop)
  fix now r l' assume "l_erase (ll_ops A) now k l = (r, l')"
  then show "ll_inv l' \<and> erase_spec k (l_list (ll_ops A) l) r (l_list (ll_ops A) l')"
    using ll_erase_law [OF inv k] by simp
next
  fix l :: "'a LinkList" and f now r l' assume inv: "ll_inv l"
  { assume "factory_wf f" "nul_free (factory_getKey f)" "l_insertF (ll_ops A) now f l = (r, l')"
    then show "ll_inv l' \<and> insert_spec now f (l_list (ll_ops A) l) r (l_list (ll_ops A) l')"
      using ll_insertF_law [OF inv] by simp }
  { assume "\<not> factory_valid f"
    then show "l_insertF (ll_ops A) now f l = (errorInvalid, l)" by (simp add: ll_insertF_def) }
qed

declare ll_insertF_def [eval_simps]
  ll_empty_def [eval_simps]
  ll_locate_def [eval_simps]
  sizeof_LLNode_def [eval_simps]

section \<open>Properties\<close>

lemma ll_inv_empty: "ll_inv (ll_empty st)"
  by (simp add: ll_inv_def ll_empty_def list_good_def lc_zero_def lc_of_def pairs_ok_def sorted_keys_def
      hkeys_ok_def)

text \<open>
  The linked list is the same last-writer-wins store as the vector list, for keys without zero
  bytes in their first eight characters.
\<close>

lemma ll_run_registers:
  assumes "list_all (\<lambda>(now, op). op_ok nul_free op \<and> explicit_write op) ops"
    and "l_run (ll_ops A) ops (ll_empty st) = (rs, l)" "list_all ir_ok rs" "k \<noteq> []" "nul_free k"
  shows "map_option reg_of (ll_getPair l k) = reg_run k ops None"
proof -
  have i: "ll_inv (ll_empty st)" by (rule ll_inv_empty)
  have "ll_inv l"
    using ll.run_inv [OF i, of ops A] assms(1,2) by (simp add: list_all_iff case_prod_beta)
  then have "ll_getPair l k = lookup (map ll_data (ll_nodes l)) k"
    using ll.getPair_lookup [of l k A] assms(4,5) by simp
  then show ?thesis using ll.run_registers [OF i assms(1-3)] by (simp add: ll_empty_def)
qed

text \<open>
  Every insertion into a linked list meets the insertion contract and keeps the order of the
  nodes, their packed keys and the counters; with a failed allocation, of the pair or of the node,
  nothing changes.
\<close>

lemma ll_insertF_contract:
  assumes "ll_inv l"
  shows "(\<not> factory_valid f \<longrightarrow> ll_insertF A now f l = (errorInvalid, l)) \<and>
    (factory_wf f \<and> nul_free (factory_getKey f) \<longrightarrow> ll_inv (snd (ll_insertF A now f l)) \<and>
       insert_spec now f (map ll_data (ll_nodes l)) (fst (ll_insertF A now f l))
         (map ll_data (ll_nodes (snd (ll_insertF A now f l)))))"
  using ll.insert_invalid [OF assms, where f = f and A = A and now = now]
    ll.insert_law [OF assms, where f = f and A = A and now = now]
  by (metis (no_types, lifting) prod.collapse ll_ops_simps)

text \<open>
  On the linked list \<open>find\<close> gives the pairs from the first key not smaller than the one asked
  for, and \<open>getPair\<close> the pair with the key, if there is one: the walk that skips by packed key
  misses nothing.
\<close>

lemma ll_find_correct:
  assumes "ll_inv l" "k \<noteq> []" "nul_free k"
  shows "ll_find l k = dropWhile (\<lambda>p. hkey_ord (pkey p) < hkey_ord k) (map ll_data (ll_nodes l)) \<and>
    ll_getPair l k = List.find (\<lambda>p. pkey p = k) (map ll_data (ll_nodes l))"
  using ll.find_dropWhile [OF assms] ll.getPair_lookup [OF assms] by (simp add: lookup_def)


end
