(* ===== verification/SkipList.thy ===== *)
theory SkipList
  imports LinkList "HOL-Library.Monad_Syntax"
begin

text \<open>
  \<^verbatim>\<open>hm4/skiplist.h\<close>, \<^verbatim>\<open>hm4/skiplist.cc\<close>: the skip list, with its pointers.  The nodes live in a store; a
  pointer is the number of the node in the order of allocation, so that a node that was freed is not in
  the store any more.  Reading through a pointer to such a node, or a lane that a node does not have,
  has no result: \<open>None\<close> is undefined behaviour, an exception, or a walk that does not end.
\<close>

section \<open>The code\<close>

definition MAX_HEIGHT :: nat where "MAX_HEIGHT = 64"

record SkNode =
  sk_addr :: u64
  sk_hkey :: u64
  sk_data :: pptr
  sk_next :: "nat option list"

record SkStore =
  sk_heads :: "nat option list"
  sk_nodes :: "nat \<Rightarrow> SkNode option"
  sk_fresh :: nat

record 's SkipList =
  sk_store :: SkStore
  sk_lc :: ListCounter
  sk_allocator :: 's
  sk_draws :: nat

text \<open>The numbers that \<open>rand64\<close> gives, and what \<open>__builtin_clzll\<close> makes of zero, which is undefined.\<close>

record sk_random =
  rand64 :: "nat \<Rightarrow> u64"
  clz0 :: nat

definition clz :: "sk_random \<Rightarrow> u64 \<Rightarrow> nat" where
  "clz R x = (if x = 0 then clz0 R else length (takeWhile (\<lambda>i. \<not> bit x i) (rev [0..<64])))"

definition getRandomHeight :: "sk_random \<Rightarrow> nat \<Rightarrow> nat" where
  "getRandomHeight R i =
     (let x = (clz R (rand64 R i) + 1) mod 256 in if x < 1 then 1 else if MAX_HEIGHT < x then MAX_HEIGHT else x)"

text \<open>
  A \<open>jtable\<close> is the array of the heads (\<open>None\<close>) or the array \<open>next\<close> of a node.  Reading and writing one
  of its entries.
\<close>

definition sk_load :: "SkStore \<Rightarrow> nat option \<Rightarrow> nat \<Rightarrow> nat option option" where
  "sk_load st jt h =
     (case jt of
        None \<Rightarrow> if h < length (sk_heads st) then Some (sk_heads st ! h) else None
      | Some a \<Rightarrow>
          do {
            n \<leftarrow> sk_nodes st a;
            if h < length (sk_next n) then Some (sk_next n ! h) else None
          })"

definition sk_save :: "nat option \<Rightarrow> nat \<Rightarrow> nat option \<Rightarrow> SkStore \<Rightarrow> SkStore option" where
  "sk_save jt h v st =
     (case jt of
        None \<Rightarrow> if h < length (sk_heads st) then Some (st\<lparr>sk_heads := (sk_heads st)[h := v]\<rparr>) else None
      | Some a \<Rightarrow>
          do {
            n \<leftarrow> sk_nodes st a;
            if h < length (sk_next n)
            then Some (st\<lparr>sk_nodes := (sk_nodes st)(a \<mapsto> n\<lparr>sk_next := (sk_next n)[h := v]\<rparr>)\<rparr>) else None
          })"

definition sk_cmp :: "SkNode \<Rightarrow> u64 \<Rightarrow> str \<Rightarrow> int" where
  "sk_cmp node hkey key = HPair_cmp (sk_hkey node) (snd (sk_data node)) hkey key"

text \<open>
  The walk along lane \<open>h\<close>, the inner loop of \<open>locate_\<close> and of \<open>find_\<close>: the last \<open>jtable\<close>, the node
  where the loop stops, and whether that node has the key.
\<close>

partial_function (option) sk_walk ::
  "SkStore \<Rightarrow> nat \<Rightarrow> u64 \<Rightarrow> str \<Rightarrow> nat option \<Rightarrow> nat option \<Rightarrow> (nat option \<times> nat option \<times> bool) option" where
  "sk_walk st h hkey key jt node =
     (case node of
        None \<Rightarrow> Some (jt, None, False)
      | Some a \<Rightarrow>
          do {
            n \<leftarrow> sk_nodes st a;
            if sk_hkey n \<ge> hkey \<and> sk_cmp n hkey key \<ge> 0 then Some (jt, node, sk_cmp n hkey key = 0)
            else do {
              node \<leftarrow> sk_load st (Some a) h;
              sk_walk st h hkey key (Some a) node
            }
          })"

text \<open>The loop over the lanes \<open>h - 1, ..., 0\<close>: the pointers \<open>prev\<close>, given by their \<open>jtable\<close>, and the node.\<close>

primrec sk_locate_loop ::
  "bool \<Rightarrow> SkStore \<Rightarrow> u64 \<Rightarrow> str \<Rightarrow> nat \<Rightarrow> nat option \<Rightarrow> nat option \<Rightarrow> (nat option list \<times> nat option) option" where
  "sk_locate_loop short st hkey key 0 jt node = Some ([], node)"
| "sk_locate_loop short st hkey key (Suc h) jt node =
     do {
       first \<leftarrow> sk_load st jt h;
       (jt, stop, eq) \<leftarrow> sk_walk st h hkey key jt first;
       if eq \<and> short then Some ([], stop)
       else do {
         (prev, node) \<leftarrow> sk_locate_loop short st hkey key h jt (if eq then stop else node);
         Some (prev @ [jt], node)
       }
     }"

definition sk_locate :: "bool \<Rightarrow> str \<Rightarrow> SkStore \<Rightarrow> (nat option list \<times> nat option) option" where
  "sk_locate short key st =
     (if key = [] then None else sk_locate_loop short st (SS_create key) key MAX_HEIGHT None None)"

primrec sk_find_loop ::
  "bool \<Rightarrow> SkStore \<Rightarrow> u64 \<Rightarrow> str \<Rightarrow> nat \<Rightarrow> nat option \<Rightarrow> nat option \<Rightarrow> nat option option" where
  "sk_find_loop exact st hkey key 0 jt node = Some (if exact then None else node)"
| "sk_find_loop exact st hkey key (Suc h) jt node =
     do {
       first \<leftarrow> sk_load st jt h;
       (jt, stop, eq) \<leftarrow> sk_walk st h hkey key jt first;
       if eq then Some stop else sk_find_loop exact st hkey key h jt stop
     }"

definition sk_find_node :: "bool \<Rightarrow> str \<Rightarrow> SkStore \<Rightarrow> nat option option" where
  "sk_find_node exact key st =
     (if key = [] then None else sk_find_loop exact st (SS_create key) key MAX_HEIGHT None None)"

text \<open>The nodes that an iterator visits.\<close>

partial_function (option) sk_collect :: "SkStore \<Rightarrow> nat option \<Rightarrow> nat list option" where
  "sk_collect st node =
     (case node of
        None \<Rightarrow> Some []
      | Some a \<Rightarrow>
          do {
            node \<leftarrow> sk_load st (Some a) 0;
            rest \<leftarrow> sk_collect st node;
            Some (a # rest)
          })"

definition sk_pair :: "SkStore \<Rightarrow> nat \<Rightarrow> pptr" where
  "sk_pair st a = sk_data (the (sk_nodes st a))"

definition sk_begin :: "SkStore \<Rightarrow> pptr list option" where
  "sk_begin st =
     do {
       first \<leftarrow> sk_load st None 0;
       as \<leftarrow> sk_collect st first;
       Some (map (sk_pair st) as)
     }"

definition sk_find :: "'s SkipList \<Rightarrow> str \<Rightarrow> pptr list option" where
  "sk_find l key =
     do {
       node \<leftarrow> sk_find_node False key (sk_store l);
       as \<leftarrow> sk_collect (sk_store l) node;
       Some (map (sk_pair (sk_store l)) as)
     }"

definition sk_getPair :: "'s SkipList \<Rightarrow> str \<Rightarrow> pptr option option" where
  "sk_getPair l key =
     do {
       node \<leftarrow> sk_find_node True key (sk_store l);
       Some (map_option (sk_pair (sk_store l)) node)
     }"

text \<open>\<open>newnode->next[i] = std::exchange(*nl.prev[i], newnode)\<close> for the lanes \<open>i < n\<close>.\<close>

primrec sk_link :: "nat \<Rightarrow> nat \<Rightarrow> nat option list \<Rightarrow> SkStore \<Rightarrow> SkStore option" where
  "sk_link new 0 prev st = Some st"
| "sk_link new (Suc i) prev st =
     do {
       st \<leftarrow> sk_link new i prev st;
       old \<leftarrow> sk_load st (prev ! i) i;
       st \<leftarrow> sk_save (prev ! i) i (Some new) st;
       sk_save (Some new) i old st
     }"

definition sizeof_SkNode :: "nat \<Rightarrow> u64" where
  "sizeof_SkNode height = of_nat (24 + (height - 1) * 8)"

definition sk_insertF ::
  "'s allocator_ops \<Rightarrow> sk_random \<Rightarrow> u64 \<Rightarrow> PairFactory \<Rightarrow> 's SkipList \<Rightarrow> (InsertResult \<times> 's SkipList) option" where
  "sk_insertF A R now f l =
     (if \<not> factory_valid f then Some (errorInvalid, l)
      else
        do {
          let key = factory_getKey f;
          let st = sk_store l;
          (prev, found) \<leftarrow> sk_locate True key st;
          case found of
            Some a \<Rightarrow>
              do {
                node \<leftarrow> sk_nodes st a;
                let (r, data, lc, alloc) = updatePair A now f (sk_data node) (sk_lc l) (sk_allocator l);
                let node = (if ir_status r = REPLACED then node\<lparr>sk_hkey := SS_create key, sk_data := data\<rparr>
                            else node\<lparr>sk_data := data\<rparr>);
                Some (r, l\<lparr>sk_store := st\<lparr>sk_nodes := (sk_nodes st)(a \<mapsto> node)\<rparr>, sk_lc := lc, sk_allocator := alloc\<rparr>)
              }
          | None \<Rightarrow>
              (case pair_create A now f (sk_allocator l) of
                 (None, alloc) \<Rightarrow> Some (errorNoMemory, l\<lparr>sk_allocator := alloc\<rparr>)
               | (Some newdata, alloc) \<Rightarrow>
                   do {
                     let height = getRandomHeight R (sk_draws l);
                     let l = l\<lparr>sk_draws := Suc (sk_draws l)\<rparr>;
                     case xallocate A alloc (sizeof_SkNode height) of
                       (None, alloc) \<Rightarrow> Some (errorNoMemory, l\<lparr>sk_allocator := xdeallocate A alloc (fst newdata)\<rparr>)
                     | (Some addr, alloc) \<Rightarrow>
                         do {
                           let new = sk_fresh st;
                           let newnode = \<lparr>sk_addr = addr, sk_hkey = SS_create key, sk_data = newdata,
                                          sk_next = replicate height None\<rparr>;
                           st \<leftarrow> sk_link new height prev
                                  (st\<lparr>sk_nodes := (sk_nodes st)(new \<mapsto> newnode), sk_fresh := Suc new\<rparr>);
                           Some (inserted newdata,
                             l\<lparr>sk_store := st, sk_lc := lc_inc (size_t (bytes (snd newdata))) (sk_lc l), sk_allocator := alloc\<rparr>)
                         }
                   })
        })"

text \<open>The lanes \<open>h, h + 1, ...\<close> of \<open>erase___\<close>, \<open>n\<close> of them left: the loop ends at the first lane without the node.\<close>

primrec sk_unlink :: "nat \<Rightarrow> nat \<Rightarrow> nat \<Rightarrow> nat option list \<Rightarrow> SkStore \<Rightarrow> SkStore option" where
  "sk_unlink 0 h a prev st = Some st"
| "sk_unlink (Suc n) h a prev st =
     do {
       p \<leftarrow> sk_load st (prev ! h) h;
       if p = Some a then do {
         v \<leftarrow> sk_load st (Some a) h;
         st \<leftarrow> sk_save (prev ! h) h v st;
         sk_unlink n (Suc h) a prev st
       } else Some st
     }"

definition sk_deallocate :: "'s allocator_ops \<Rightarrow> SkNode \<Rightarrow> 's \<Rightarrow> 's" where
  "sk_deallocate A node alloc = xdeallocate A (xdeallocate A alloc (fst (sk_data node))) (sk_addr node)"

definition sk_erase ::
  "'s allocator_ops \<Rightarrow> u64 \<Rightarrow> str \<Rightarrow> 's SkipList \<Rightarrow> (InsertResult \<times> 's SkipList) option" where
  "sk_erase A now key l =
     do {
       let st = sk_store l;
       (prev, found) \<leftarrow> sk_locate False key st;
       case found of
         None \<Rightarrow> Some (skipDeleted, l)
       | Some a \<Rightarrow>
           do {
             v \<leftarrow> sk_load st (Some a) 0;
             st \<leftarrow> sk_save (prev ! 0) 0 v st;
             st \<leftarrow> sk_unlink (MAX_HEIGHT - 1) 1 a prev st;
             node \<leftarrow> sk_nodes st a;
             Some (deleted,
               l\<lparr>sk_store := st\<lparr>sk_nodes := (sk_nodes st)(a := None)\<rparr>,
                 sk_lc := lc_dec (size_t (bytes (snd (sk_data node)))) (sk_lc l),
                 sk_allocator := sk_deallocate A node (sk_allocator l)\<rparr>)
           }
     }"

text \<open>\<open>zeroing_\<close> and \<open>clear\<close>: an allocator that can be reset frees all nodes at once.\<close>

definition sk_zeroing :: "'s SkipList \<Rightarrow> 's SkipList" where
  "sk_zeroing l =
     l\<lparr>sk_lc := lc_clr (sk_lc l), sk_store := (sk_store l)\<lparr>sk_heads := replicate MAX_HEIGHT None, sk_nodes := Map.empty\<rparr>\<rparr>"

definition sk_clear :: "'s allocator_ops \<Rightarrow> 's SkipList \<Rightarrow> 's SkipList option" where
  "sk_clear A l =
     (let (ok, alloc) = reset A (sk_allocator l) in
      if ok then Some (sk_zeroing (l\<lparr>sk_allocator := alloc\<rparr>))
      else
        do {
          first \<leftarrow> sk_load (sk_store l) None 0;
          as \<leftarrow> sk_collect (sk_store l) first;
          Some (sk_zeroing (l\<lparr>sk_allocator :=
            fold (\<lambda>a. sk_deallocate A (the (sk_nodes (sk_store l) a))) as alloc\<rparr>))
        })"

definition sk_mutable_notify :: "MutableNotifyMessage \<Rightarrow> 's SkipList \<Rightarrow> 's SkipList" where
  "sk_mutable_notify msg l = l\<lparr>sk_lc := lc_upd (size_t (bytes_old msg)) (size_t (bytes_new msg)) (sk_lc l)\<rparr>"

definition sk_empty :: "'s \<Rightarrow> 's SkipList" where
  "sk_empty alloc =
     \<lparr>sk_store = \<lparr>sk_heads = replicate MAX_HEIGHT None, sk_nodes = Map.empty, sk_fresh = 0\<rparr>,
      sk_lc = lc_zero, sk_allocator = alloc, sk_draws = 0\<rparr>"

definition sk_ops :: "'s allocator_ops \<Rightarrow> sk_random \<Rightarrow> 's SkipList list_ops" where
  "sk_ops A R = \<lparr>
     l_insertF = (\<lambda>now f l. the (sk_insertF A R now f l)),
     l_erase = (\<lambda>now key l. the (sk_erase A now key l)),
     l_getPair = (\<lambda>l key. the (sk_getPair l key)),
     l_list = (\<lambda>l. the (sk_begin (sk_store l))),
     l_find = (\<lambda>l key. the (sk_find l key)),
     l_clear = (\<lambda>l. the (sk_clear A l)),
     l_size = (\<lambda>l. lc_count (sk_lc l)),
     l_empty = (\<lambda>l. lc_count (sk_lc l) = 0),
     l_bytes = (\<lambda>l. lc_bytes (sk_lc l)),
     l_owns = (\<lambda>l. owns A (sk_allocator l)),
     l_store = (\<lambda>l p. l\<lparr>sk_store := (sk_store l)\<lparr>sk_nodes :=
        map_option (\<lambda>n. if fst (sk_data n) = fst p then n\<lparr>sk_data := p\<rparr> else n) \<circ> sk_nodes (sk_store l)\<rparr>\<rparr>),
     l_mutable_notify = sk_mutable_notify\<rparr>"

section \<open>Lanes\<close>

text \<open>What a change of pointers leaves: the fields of the nodes and the number of their lanes.\<close>

definition sk_frame :: "SkStore \<Rightarrow> nat \<Rightarrow> (u64 \<times> u64 \<times> pptr \<times> nat) option" where
  "sk_frame st a = map_option (\<lambda>n. (sk_addr n, sk_hkey n, sk_data n, length (sk_next n))) (sk_nodes st a)"

definition sk_same :: "SkStore \<Rightarrow> SkStore \<Rightarrow> bool" where
  "sk_same st st' \<longleftrightarrow> sk_fresh st' = sk_fresh st \<and> length (sk_heads st') = length (sk_heads st) \<and> sk_frame st' = sk_frame st"

definition sk_height :: "SkStore \<Rightarrow> nat \<Rightarrow> nat" where
  "sk_height st a = (case sk_nodes st a of None \<Rightarrow> 0 | Some n \<Rightarrow> length (sk_next n))"

definition sk_key :: "SkStore \<Rightarrow> nat \<Rightarrow> str" where
  "sk_key st a = pkey (sk_pair st a)"

lemma sk_same_refl [simp]: "sk_same st st"
  by (simp add: sk_same_def)

lemma sk_same_trans: "sk_same st st' \<Longrightarrow> sk_same st' st'' \<Longrightarrow> sk_same st st''"
  by (simp add: sk_same_def)

lemma sk_frame_height: "sk_frame st' a = sk_frame st a \<Longrightarrow> sk_height st' a = sk_height st a"
  by (auto simp: sk_frame_def sk_height_def split: option.splits)

lemma sk_frame_pair: "sk_frame st' a = sk_frame st a \<Longrightarrow> sk_pair st' a = sk_pair st a"
  by (cases "sk_nodes st a"; cases "sk_nodes st' a") (auto simp: sk_frame_def sk_pair_def)

lemma sk_load_None_iff:
  "sk_load st jt h = None \<longleftrightarrow> (case jt of None \<Rightarrow> length (sk_heads st) \<le> h | Some a \<Rightarrow> sk_height st a \<le> h)"
proof (cases jt)
  case (Some a)
  then show ?thesis by (cases "sk_nodes st a") (simp_all add: sk_load_def sk_height_def)
qed (simp add: sk_load_def)

lemma sk_same_load: "sk_same st st' \<Longrightarrow> sk_load st' jt h = None \<longleftrightarrow> sk_load st jt h = None"
proof -
  assume a: "sk_same st st'"
  then have "sk_height st' a = sk_height st a" for a by (intro sk_frame_height) (simp add: sk_same_def)
  then show ?thesis using a by (simp add: sk_load_None_iff sk_same_def split: option.split)
qed

lemma sk_save_spec:
  assumes "sk_load st jt h \<noteq> None"
  shows "\<exists>st'. sk_save jt h v st = Some st' \<and> sk_same st st' \<and>
    (\<forall>jt' h'. sk_load st' jt' h' = (if jt' = jt \<and> h' = h then Some v else sk_load st jt' h'))"
proof (cases jt)
  case None
  then show ?thesis using assms
    by (auto simp: sk_load_def sk_save_def sk_same_def sk_frame_def nth_list_update split: option.splits if_splits bind_splits)
next
  case (Some a)
  then obtain n where n: "sk_nodes st a = Some n" "h < length (sk_next n)"
    using assms by (auto simp: sk_load_def split: if_splits bind_splits)
  then show ?thesis using Some
    by (auto simp: sk_load_def sk_save_def sk_same_def sk_frame_def nth_list_update fun_eq_iff split: option.splits)
qed

text \<open>Lane \<open>h\<close> from a \<open>jtable\<close> on is a sequence of nodes.\<close>

fun linked :: "SkStore \<Rightarrow> nat \<Rightarrow> nat option \<Rightarrow> nat list \<Rightarrow> bool" where
  "linked st h jt [] \<longleftrightarrow> sk_load st jt h = Some None"
| "linked st h jt (a # as) \<longleftrightarrow> sk_load st jt h = Some (Some a) \<and> linked st h (Some a) as"

definition last_jt :: "nat option \<Rightarrow> nat list \<Rightarrow> nat option" where
  "last_jt jt as = (if as = [] then jt else Some (last as))"

definition hd_opt :: "'a list \<Rightarrow> 'a option" where
  "hd_opt as = (case as of [] \<Rightarrow> None | a # _ \<Rightarrow> Some a)"

lemma last_jt_simps [simp]: "last_jt jt [] = jt" "last_jt jt (a # as) = last_jt (Some a) as"
  by (simp_all add: last_jt_def)

lemma last_jt_append: "last_jt jt (xs @ ys) = last_jt (last_jt jt xs) ys"
  by (simp add: last_jt_def)

lemma last_jt_in: "last_jt None as = None \<or> (\<exists>a \<in> set as. last_jt None as = Some a)"
  by (simp add: last_jt_def)

lemma linked_load: "linked st h jt as \<Longrightarrow> sk_load st jt h = Some (hd_opt as)"
  by (cases as) (simp_all add: hd_opt_def)

lemma linked_drop: "linked st h jt (xs @ ys) \<Longrightarrow> linked st h (last_jt jt xs) ys"
  by (induction xs arbitrary: jt) auto

lemma linked_cong:
  "\<forall>j \<in> insert jt (Some ` set as). sk_load st' j h = sk_load st j h \<Longrightarrow> linked st' h jt as = linked st h jt as"
  by (induction as arbitrary: jt) auto

lemma linked_insert:
  assumes "linked st h jt (xs @ ys)" "distinct (xs @ ys)" "new \<notin> set (xs @ ys)" "jt \<notin> Some ` set (xs @ ys)" "jt \<noteq> Some new"
    and "\<And>j. sk_load st' j h =
      (if j = Some new then sk_load st (last_jt jt xs) h else if j = last_jt jt xs then Some (Some new) else sk_load st j h)"
  shows "linked st' h jt (xs @ new # ys)"
  using assms
proof (induction xs arbitrary: jt)
  case Nil
  have "linked st' h (Some new) ys"
  proof (cases ys)
    case Nil
    then show ?thesis using Nil.prems by simp
  next
    case (Cons y ys')
    have "linked st' h (Some y) ys' = linked st h (Some y) ys'"
      using Nil.prems Cons by (intro linked_cong) auto
    then show ?thesis using Nil.prems Cons by simp
  qed
  then show ?case using Nil.prems by simp
next
  case (Cons x xs)
  have ne: "jt \<noteq> last_jt (Some x) xs" using Cons.prems(4) by (auto simp: last_jt_def)
  have "linked st' h (Some x) (xs @ new # ys)"
    using Cons.prems by (intro Cons.IH) auto
  then show ?case using Cons.prems(1,5) Cons.prems(6) [of jt] ne by simp
qed

lemma linked_delete:
  assumes "linked st h jt (xs @ a # ys)" "distinct (xs @ a # ys)" "jt \<notin> Some ` set (xs @ a # ys)"
    and "\<And>j. j \<noteq> Some a \<Longrightarrow> sk_load st' j h = (if j = last_jt jt xs then sk_load st (Some a) h else sk_load st j h)"
  shows "linked st' h jt (xs @ ys)"
  using assms
proof (induction xs arbitrary: jt)
  case Nil
  show ?case
  proof (cases ys)
    case (Cons y ys')
    have "linked st' h (Some y) ys' = linked st h (Some y) ys'"
    proof (intro linked_cong ballI)
      fix j assume "j \<in> insert (Some y) (Some ` set ys')"
      then have "j \<noteq> Some a" "j \<noteq> jt" using Nil.prems(2,3) Cons by auto
      then show "sk_load st' j h = sk_load st j h" using Nil.prems(4) by simp
    qed
    then show ?thesis using Nil.prems Cons by auto
  qed (use Nil.prems in auto)
next
  case (Cons x xs)
  have ne: "jt \<noteq> last_jt (Some x) xs" "jt \<noteq> Some a" using Cons.prems(3) by (auto simp: last_jt_def)
  have "linked st' h (Some x) (xs @ ys)"
    using Cons.prems by (intro Cons.IH) auto
  then show ?case using Cons.prems(1) Cons.prems(4) [of jt] ne by simp
qed

lemma sk_collect_linked: "linked st 0 jt as \<Longrightarrow> sk_collect st (hd_opt as) = Some as"
proof (induction as arbitrary: jt)
  case (Cons a as)
  then have l: "linked st 0 (Some a) as" by simp
  show ?case using Cons.IH [OF l] linked_load [OF l] by (subst sk_collect.simps) (simp add: hd_opt_def [of "a # as"])
qed (subst sk_collect.simps, simp add: hd_opt_def)

section \<open>The invariant\<close>

definition lane :: "SkStore \<Rightarrow> nat \<Rightarrow> nat list \<Rightarrow> nat list" where
  "lane st h as = filter (\<lambda>a. h < sk_height st a) as"

definition node_ok :: "SkStore \<Rightarrow> nat \<Rightarrow> bool" where
  "node_ok st a \<longleftrightarrow>
     (case sk_nodes st a of
        None \<Rightarrow> False
      | Some n \<Rightarrow> 1 \<le> length (sk_next n) \<and> length (sk_next n) \<le> MAX_HEIGHT \<and>
          sk_hkey n = SS_create (pkey (sk_data n)) \<and> nul_free (pkey (sk_data n)) \<and> a < sk_fresh st)"

text \<open>The nodes of the list in their order, and the lanes that skip over some of them.\<close>

definition store_ok :: "SkStore \<Rightarrow> nat list \<Rightarrow> bool" where
  "store_ok st as \<longleftrightarrow>
     length (sk_heads st) = MAX_HEIGHT \<and> distinct as \<and> list_all (node_ok st) as \<and>
     (\<forall>h < MAX_HEIGHT. linked st h None (lane st h as))"

definition sk_inv :: "'s SkipList \<Rightarrow> bool" where
  "sk_inv l \<longleftrightarrow>
     (\<exists>as. store_ok (sk_store l) as \<and> list_good hkey_ord nul_free (map (sk_pair (sk_store l)) as) (sk_lc l))"

lemma lane_append [simp]: "lane st h (xs @ ys) = lane st h xs @ lane st h ys"
  by (simp add: lane_def)

lemma set_lane: "set (lane st h as) = {a \<in> set as. h < sk_height st a}"
  by (auto simp: lane_def)

lemma lane_cong: "\<forall>a \<in> set as. sk_height st' a = sk_height st a \<Longrightarrow> lane st' h as = lane st h as"
  by (simp add: lane_def cong: filter_cong)

lemma node_ok_height: "node_ok st a \<Longrightarrow> 1 \<le> sk_height st a \<and> sk_height st a \<le> MAX_HEIGHT"
  by (simp add: node_ok_def sk_height_def split: option.splits)

lemma lane_0: "list_all (node_ok st) as \<Longrightarrow> lane st 0 as = as"
  using node_ok_height by (fastforce simp: lane_def list_all_iff intro: filter_True)

lemma lane_top: "list_all (node_ok st) as \<Longrightarrow> MAX_HEIGHT \<le> h \<Longrightarrow> lane st h as = []"
  using node_ok_height by (fastforce simp: lane_def list_all_iff filter_empty_conv)

lemma node_ok_frame: "sk_frame st' a = sk_frame st a \<Longrightarrow> sk_fresh st \<le> sk_fresh st' \<Longrightarrow> node_ok st a \<Longrightarrow> node_ok st' a"
  by (cases "sk_nodes st a"; cases "sk_nodes st' a") (auto simp: sk_frame_def node_ok_def)

text \<open>The test of the walk.\<close>

lemma sk_stop:
  assumes "node_ok st a" "nul_free key" "sk_nodes st a = Some n"
  shows "sk_hkey n \<ge> SS_create key \<and> sk_cmp n (SS_create key) key \<ge> 0 \<longleftrightarrow> hkey_ord key \<le> hkey_ord (sk_key st a)"
    and "sk_cmp n (SS_create key) key = 0 \<longleftrightarrow> sk_key st a = key"
proof -
  let ?n = "\<lparr>ll_addr = 0, ll_hkey = sk_hkey n, ll_data = sk_data n\<rparr>"
  have k: "sk_key st a = pkey (ll_data ?n)" using assms(3) by (simp add: sk_key_def sk_pair_def)
  have ok: "hkeys_ok [?n]" using assms(1,3) by (simp add: node_ok_def hkeys_ok_def)
  have c: "sk_cmp n (SS_create key) key = node_cmp ?n (SS_create key) key" by (simp add: sk_cmp_def node_cmp_def)
  show "sk_hkey n \<ge> SS_create key \<and> sk_cmp n (SS_create key) key \<ge> 0 \<longleftrightarrow> hkey_ord key \<le> hkey_ord (sk_key st a)"
    using node_stop_iff [OF ok assms(2)] c k by simp
  show "sk_cmp n (SS_create key) key = 0 \<longleftrightarrow> sk_key st a = key"
    using node_cmp_ord [OF ok assms(2)] c k hord.ord_inject by simp
qed

lemma sk_walk_linked:
  assumes "linked st h jt (q @ hs)" "nul_free key" "list_all (node_ok st) (q @ hs)"
    and "\<forall>a \<in> set q. hkey_ord (sk_key st a) < hkey_ord key" "\<forall>a \<in> set hs. hkey_ord key \<le> hkey_ord (sk_key st a)"
  shows "sk_walk st h (SS_create key) key jt (hd_opt (q @ hs)) =
    Some (last_jt jt q, hd_opt hs, hs \<noteq> [] \<and> sk_key st (hd hs) = key)"
  using assms
proof (induction q arbitrary: jt)
  case Nil
  show ?case
  proof (cases hs)
    case Nil
    then show ?thesis by (subst sk_walk.simps) (simp add: hd_opt_def)
  next
    case (Cons a hs')
    then obtain n where n: "sk_nodes st a = Some n" using Nil.prems by (auto simp: node_ok_def split: option.splits)
    have "node_ok st a" using Nil.prems Cons by simp
    note s = sk_stop [OF this Nil.prems(2) n]
    show ?thesis using s Nil.prems(5) Cons n by (subst sk_walk.simps) (simp add: hd_opt_def)
  qed
next
  case (Cons a q)
  then obtain n where n: "sk_nodes st a = Some n" by (auto simp: node_ok_def split: option.splits)
  have "node_ok st a" using Cons.prems by simp
  note s = sk_stop [OF this Cons.prems(2) n]
  have l: "linked st h (Some a) (q @ hs)" using Cons.prems by simp
  have "sk_walk st h (SS_create key) key (Some a) (hd_opt (q @ hs)) =
      Some (last_jt (Some a) q, hd_opt hs, hs \<noteq> [] \<and> sk_key st (hd hs) = key)"
    using Cons.prems l by (intro Cons.IH) auto
  moreover have "\<not> hkey_ord key \<le> hkey_ord (sk_key st a)" using Cons.prems(4) by auto
  ultimately show ?case using s(1) n linked_load [OF l] by (subst sk_walk.simps) (auto simp: hd_opt_def [of "a # _"])
qed

section \<open>Locating a key\<close>

text \<open>The list around a key: the nodes with smaller keys and the other nodes.\<close>

definition sk_cut :: "SkStore \<Rightarrow> str \<Rightarrow> nat list \<Rightarrow> nat list \<Rightarrow> bool" where
  "sk_cut st key lo hi \<longleftrightarrow> store_ok st (lo @ hi) \<and> nul_free key \<and>
     (\<forall>a \<in> set lo. hkey_ord (sk_key st a) < hkey_ord key) \<and>
     (\<forall>a \<in> set hi. hkey_ord key \<le> hkey_ord (sk_key st a)) \<and>
     sorted_wrt (\<lambda>a b. hkey_ord (sk_key st a) < hkey_ord (sk_key st b)) hi"

definition sk_pred :: "SkStore \<Rightarrow> nat list \<Rightarrow> nat \<Rightarrow> nat option" where
  "sk_pred st lo h = last_jt None (lane st h lo)"

definition sk_found :: "SkStore \<Rightarrow> str \<Rightarrow> nat list \<Rightarrow> nat option" where
  "sk_found st key hi = (case hi of [] \<Rightarrow> None | a # _ \<Rightarrow> if sk_key st a = key then Some a else None)"

text \<open>A \<open>jtable\<close> that lane \<open>h\<close> can be entered from.\<close>

definition sk_entry :: "SkStore \<Rightarrow> nat list \<Rightarrow> nat \<Rightarrow> nat option \<Rightarrow> bool" where
  "sk_entry st lo h jt \<longleftrightarrow> jt = None \<or> (\<exists>x \<in> set (lane st h lo). jt = Some x)"

lemma sk_entry_pred: "sk_entry st lo h (sk_pred st lo (Suc h))"
  using last_jt_in [of "lane st (Suc h) lo"] by (auto simp: sk_entry_def sk_pred_def set_lane)

lemma sk_enter:
  assumes "sk_cut st key lo hi" "h < MAX_HEIGHT" "sk_entry st lo h jt"
  shows "\<exists>first. sk_load st jt h = Some first \<and>
    sk_walk st h (SS_create key) key jt first =
      Some (sk_pred st lo h, hd_opt (lane st h hi), lane st h hi \<noteq> [] \<and> sk_key st (hd (lane st h hi)) = key)"
proof -
  obtain p q where pq: "lane st h lo = p @ q" "last_jt None p = jt"
  proof (cases jt)
    case (Some x)
    then obtain p q where "lane st h lo = (p @ [x]) @ q" using assms(3) by (auto simp: sk_entry_def dest: split_list)
    then show ?thesis using that [of "p @ [x]" q] Some by (simp add: last_jt_append)
  qed (use that [of "[]"] in simp)
  have "linked st h None (p @ q @ lane st h hi)"
    using assms(1,2) pq(1) by (auto simp: sk_cut_def store_ok_def)
  then have l: "linked st h jt (q @ lane st h hi)" using linked_drop pq(2) by metis
  have "set (q @ lane st h hi) \<subseteq> set (lo @ hi)" "set q \<subseteq> set lo"
    using arg_cong [OF pq(1), of set] by (auto simp: set_lane)
  then have "sk_walk st h (SS_create key) key jt (hd_opt (q @ lane st h hi)) =
      Some (last_jt jt q, hd_opt (lane st h hi), lane st h hi \<noteq> [] \<and> sk_key st (hd (lane st h hi)) = key)"
    using assms(1) by (intro sk_walk_linked [OF l]) (auto simp: sk_cut_def store_ok_def list_all_iff set_lane)
  moreover have "last_jt jt q = sk_pred st lo h" using pq by (simp add: sk_pred_def last_jt_append)
  ultimately show ?thesis using linked_load [OF l] by simp
qed

text \<open>A lane that has the node stops at it, a lane that has not stops at another key.\<close>

lemma sk_lane_found:
  assumes "sk_cut st key lo hi"
  shows "lane st h hi \<noteq> [] \<and> sk_key st (hd (lane st h hi)) = key \<longleftrightarrow> (\<exists>a. sk_found st key hi = Some a \<and> h < sk_height st a)"
    and "sk_found st key hi = Some a \<Longrightarrow> h < sk_height st a \<Longrightarrow> hd_opt (lane st h hi) = Some a"
proof -
  show g: "sk_found st key hi = Some a \<Longrightarrow> h < sk_height st a \<Longrightarrow> hd_opt (lane st h hi) = Some a" for a
    by (auto simp: sk_found_def lane_def hd_opt_def split: list.splits if_splits)
  show "lane st h hi \<noteq> [] \<and> sk_key st (hd (lane st h hi)) = key \<longleftrightarrow> (\<exists>a. sk_found st key hi = Some a \<and> h < sk_height st a)"
  proof
    assume l: "lane st h hi \<noteq> [] \<and> sk_key st (hd (lane st h hi)) = key"
    let ?x = "hd (lane st h hi)"
    have x: "?x \<in> set hi" "h < sk_height st ?x" using l hd_in_set [of "lane st h hi"] by (auto simp: set_lane)
    obtain a hi' where hi: "hi = a # hi'" using x(1) by (cases hi) auto
    show "\<exists>a. sk_found st key hi = Some a \<and> h < sk_height st a"
    proof (cases "?x = a")
      case True
      then show ?thesis using l x(2) hi by (simp add: sk_found_def)
    next
      case False
      then have "hkey_ord (sk_key st a) < hkey_ord key" "hkey_ord key \<le> hkey_ord (sk_key st a)"
        using x l hi assms by (auto simp: sk_cut_def)
      then show ?thesis by simp
    qed
  next
    assume "\<exists>a. sk_found st key hi = Some a \<and> h < sk_height st a"
    then obtain a where a: "sk_found st key hi = Some a" "h < sk_height st a" by blast
    have "sk_key st a = key" using a(1) by (auto simp: sk_found_def split: list.splits if_splits)
    then show "lane st h hi \<noteq> [] \<and> sk_key st (hd (lane st h hi)) = key"
      using g [OF a] by (auto simp: hd_opt_def split: list.splits)
  qed
qed

lemma sk_locate_absent:
  assumes "sk_cut st key lo hi" "sk_found st key hi = None" "H \<le> MAX_HEIGHT" "0 < H \<Longrightarrow> sk_entry st lo (H - 1) jt"
  shows "sk_locate_loop short st (SS_create key) key H jt node = Some (map (sk_pred st lo) [0..<H], node)"
  using assms(3,4)
proof (induction H arbitrary: jt)
  case (Suc h)
  obtain first where f: "sk_load st jt h = Some first"
      "sk_walk st h (SS_create key) key jt first = Some (sk_pred st lo h, hd_opt (lane st h hi), False)"
    using sk_enter [OF assms(1), of h jt] Suc.prems sk_lane_found(1) [OF assms(1), of h] assms(2) by auto
  have "sk_entry st lo (h - 1) (sk_pred st lo h)" if "0 < h" using sk_entry_pred [of st lo "h - 1"] that by simp
  then show ?case using Suc f by simp
qed simp

lemma sk_locate_found:
  assumes "sk_cut st key lo hi" "sk_found st key hi = Some a" "H \<le> MAX_HEIGHT" "0 < H \<Longrightarrow> sk_entry st lo (H - 1) jt"
  shows "0 < H \<Longrightarrow> \<exists>prev. sk_locate_loop True st (SS_create key) key H jt node = Some (prev, Some a)"
    and "0 < H \<Longrightarrow> sk_locate_loop False st (SS_create key) key H jt node = Some (map (sk_pred st lo) [0..<H], Some a)"
proof -
  have "node_ok st a"
    using assms(1,2) by (auto simp: sk_cut_def store_ok_def sk_found_def split: list.splits if_splits)
  then have h0: "0 < sk_height st a" using node_ok_height by force
  have step: "\<exists>first. sk_load st jt h = Some first \<and> sk_walk st h (SS_create key) key jt first =
      Some (sk_pred st lo h, hd_opt (lane st h hi), h < sk_height st a)" if "h < MAX_HEIGHT" "sk_entry st lo h jt" for h jt
    using sk_enter [OF assms(1) that] sk_lane_found(1) [OF assms(1), of h] assms(2) by auto
  have ent: "sk_entry st lo (h - 1) (sk_pred st lo h)" if "0 < h" for h using sk_entry_pred [of st lo "h - 1"] that by simp
  note hit = sk_lane_found(2) [OF assms(1,2)]
  show "0 < H \<Longrightarrow> \<exists>prev. sk_locate_loop True st (SS_create key) key H jt node = Some (prev, Some a)"
    using assms(3,4)
  proof (induction H arbitrary: jt)
    case (Suc h)
    obtain first where f: "sk_load st jt h = Some first" "sk_walk st h (SS_create key) key jt first =
      Some (sk_pred st lo h, hd_opt (lane st h hi), h < sk_height st a)"
      using step [of h jt] Suc.prems by auto
    show ?case
    proof (cases "h < sk_height st a")
      case True
      then show ?thesis using f hit by simp
    next
      case False
      then have "0 < h" using h0 by (cases h) auto
      then obtain prev where "sk_locate_loop True st (SS_create key) key h (sk_pred st lo h) node = Some (prev, Some a)"
        using Suc.IH [of "sk_pred st lo h"] ent Suc.prems by auto
      then show ?thesis using f False by simp
    qed
  qed simp
  show "0 < H \<Longrightarrow> sk_locate_loop False st (SS_create key) key H jt node = Some (map (sk_pred st lo) [0..<H], Some a)"
    using assms(3,4)
  proof (induction H arbitrary: jt node)
    case (Suc h)
    obtain first where f: "sk_load st jt h = Some first" "sk_walk st h (SS_create key) key jt first =
      Some (sk_pred st lo h, hd_opt (lane st h hi), h < sk_height st a)"
      using step [of h jt] Suc.prems by auto
    show ?case
    proof (cases h)
      case 0
      then show ?thesis using f hit h0 by simp
    next
      case h: (Suc h')
      have "sk_locate_loop False st (SS_create key) key h (sk_pred st lo h) node = Some (map (sk_pred st lo) [0..<h], Some a)" for node
        using Suc.prems h sk_entry_pred [of st lo h'] by (intro Suc.IH) simp_all
      then show ?thesis using f by (simp del: sk_locate_loop.simps(1))
    qed
  qed simp
qed

lemma sk_find_loop_spec:
  assumes "sk_cut st key lo hi" "H \<le> MAX_HEIGHT" "0 < H" "sk_entry st lo (H - 1) jt"
  shows "sk_find_loop exact st (SS_create key) key H jt node =
    Some (case sk_found st key hi of Some a \<Rightarrow> Some a | None \<Rightarrow> if exact then None else hd_opt hi)"
  using assms(2-4)
proof (induction H arbitrary: jt node)
  case (Suc h)
  have ok: "list_all (node_ok st) hi" using assms(1) by (simp add: sk_cut_def store_ok_def)
  obtain first where f: "sk_load st jt h = Some first"
      "sk_walk st h (SS_create key) key jt first =
        Some (sk_pred st lo h, hd_opt (lane st h hi), \<exists>a. sk_found st key hi = Some a \<and> h < sk_height st a)"
    using sk_enter [OF assms(1), of h jt] Suc.prems sk_lane_found(1) [OF assms(1), of h] by auto
  show ?case
  proof (cases "\<exists>a. sk_found st key hi = Some a \<and> h < sk_height st a")
    case True
    then show ?thesis using f sk_lane_found(2) [OF assms(1), of _ h] by auto
  next
    case False
    then have nf: "sk_walk st h (SS_create key) key jt first = Some (sk_pred st lo h, hd_opt (lane st h hi), False)"
      using f(2) by simp
    show ?thesis
    proof (cases h)
      case 0
      then have "sk_found st key hi = None"
        using False ok node_ok_height by (fastforce simp: sk_found_def split: list.splits if_splits)
      then show ?thesis using f(1) nf 0 lane_0 [OF ok] by simp
    next
      case h: (Suc h')
      then have "sk_entry st lo (h - 1) (sk_pred st lo h)" using sk_entry_pred [of st lo h'] by simp
      then have "sk_find_loop exact st (SS_create key) key h (sk_pred st lo h) node =
        Some (case sk_found st key hi of Some a \<Rightarrow> Some a | None \<Rightarrow> if exact then None else hd_opt hi)" for node
        using Suc.IH [of "sk_pred st lo h" node] Suc.prems h by simp
      then show ?thesis using f(1) nf by simp
    qed
  qed
qed simp

lemma sk_locate_cut:
  assumes "sk_cut st key lo hi" "key \<noteq> []"
  shows "sk_found st key hi = None \<Longrightarrow> sk_locate short key st = Some (map (sk_pred st lo) [0..<MAX_HEIGHT], None)"
    and "sk_found st key hi = Some a \<Longrightarrow> \<exists>prev. sk_locate True key st = Some (prev, Some a)"
    and "sk_found st key hi = Some a \<Longrightarrow> sk_locate False key st = Some (map (sk_pred st lo) [0..<MAX_HEIGHT], Some a)"
    and "sk_find_node exact key st =
      Some (case sk_found st key hi of Some a \<Rightarrow> Some a | None \<Rightarrow> if exact then None else hd_opt hi)"
  using sk_locate_absent [OF assms(1), of MAX_HEIGHT None] sk_locate_found [OF assms(1), of a MAX_HEIGHT None None]
    sk_find_loop_spec [OF assms(1), of MAX_HEIGHT None] assms(2)
  by (simp_all add: sk_locate_def sk_find_node_def sk_entry_def MAX_HEIGHT_def)

section \<open>Changing the lanes\<close>

lemma sk_link_spec:
  assumes "\<forall>h < n. prev ! h \<noteq> Some new \<and> sk_load st (prev ! h) h \<noteq> None \<and> sk_load st (Some new) h \<noteq> None"
  shows "\<exists>st'. sk_link new n prev st = Some st' \<and> sk_same st st' \<and>
    (\<forall>jt h. sk_load st' jt h =
      (if n \<le> h then sk_load st jt h
       else if jt = Some new then sk_load st (prev ! h) h
       else if jt = prev ! h then Some (Some new) else sk_load st jt h))"
  using assms
proof (induction n)
  case (Suc n)
  then obtain st1 where 1: "sk_link new n prev st = Some st1" "sk_same st st1"
      "\<forall>jt h. sk_load st1 jt h = (if n \<le> h then sk_load st jt h else if jt = Some new then sk_load st (prev ! h) h
       else if jt = prev ! h then Some (Some new) else sk_load st jt h)" by auto
  then have l: "sk_load st1 (prev ! n) n = sk_load st (prev ! n) n" by simp
  then obtain old where old: "sk_load st (prev ! n) n = Some old" "sk_load st1 (prev ! n) n = Some old"
    using Suc.prems by auto
  obtain st2 where 2: "sk_save (prev ! n) n (Some new) st1 = Some st2" "sk_same st1 st2"
      "\<forall>jt h. sk_load st2 jt h = (if jt = prev ! n \<and> h = n then Some (Some new) else sk_load st1 jt h)"
    using sk_save_spec [of st1 "prev ! n" n "Some new"] old(2) by auto
  have "sk_load st2 (Some new) n \<noteq> None" using 1(3) 2(3) Suc.prems by auto
  then obtain st3 where 3: "sk_save (Some new) n old st2 = Some st3" "sk_same st2 st3"
      "\<forall>jt h. sk_load st3 jt h = (if jt = Some new \<and> h = n then Some old else sk_load st2 jt h)"
    using sk_save_spec [of st2 "Some new" n old] by auto
  have "sk_link new (Suc n) prev st = Some st3" using 1(1) old(2) 2(1) 3(1) by simp
  moreover have "sk_same st st3" using 1(2) 2(2) 3(2) sk_same_trans by blast
  moreover have "sk_load st3 jt h = (if Suc n \<le> h then sk_load st jt h else if jt = Some new then sk_load st (prev ! h) h
       else if jt = prev ! h then Some (Some new) else sk_load st jt h)" for jt h
    using 1(3) 2(3) 3(3) old(1) Suc.prems by (auto simp: less_Suc_eq not_less Suc_le_eq)
  ultimately show ?case by blast
qed auto

lemma sk_unlink_spec:
  assumes "\<forall>h'. h \<le> h' \<and> h' < h + n \<longrightarrow> prev ! h' \<noteq> Some a \<and>
      (if h' < H then sk_load st (prev ! h') h' = Some (Some a) \<and> sk_load st (Some a) h' \<noteq> None
       else \<exists>p. sk_load st (prev ! h') h' = Some p \<and> p \<noteq> Some a)"
  shows "\<exists>st'. sk_unlink n h a prev st = Some st' \<and> sk_same st st' \<and>
    (\<forall>jt h'. sk_load st' jt h' =
      (if h \<le> h' \<and> h' < h + n \<and> h' < H \<and> jt = prev ! h' then sk_load st (Some a) h' else sk_load st jt h'))"
  using assms
proof (induction n arbitrary: h st)
  case (Suc n)
  show ?case
  proof (cases "h < H")
    case True
    then obtain v where v: "sk_load st (prev ! h) h = Some (Some a)" "sk_load st (Some a) h = Some v" "prev ! h \<noteq> Some a"
      using Suc.prems [rule_format, of h] by auto
    obtain st1 where 1: "sk_save (prev ! h) h v st = Some st1" "sk_same st st1"
        "\<forall>jt h'. sk_load st1 jt h' = (if jt = prev ! h \<and> h' = h then Some v else sk_load st jt h')"
      using sk_save_spec [of st "prev ! h" h v] v(1) by auto
    have "\<forall>h'. Suc h \<le> h' \<and> h' < Suc h + n \<longrightarrow> prev ! h' \<noteq> Some a \<and>
      (if h' < H then sk_load st1 (prev ! h') h' = Some (Some a) \<and> sk_load st1 (Some a) h' \<noteq> None
       else \<exists>p. sk_load st1 (prev ! h') h' = Some p \<and> p \<noteq> Some a)"
      using Suc.prems 1(3) by simp
    from Suc.IH [OF this] obtain st' where 2: "sk_unlink n (Suc h) a prev st1 = Some st'" "sk_same st1 st'"
        "\<forall>jt h'. sk_load st' jt h' =
          (if Suc h \<le> h' \<and> h' < Suc h + n \<and> h' < H \<and> jt = prev ! h' then sk_load st1 (Some a) h' else sk_load st1 jt h')"
      by blast
    have "sk_unlink (Suc n) h a prev st = Some st'" using v 1(1) 2(1) by simp
    moreover have "sk_same st st'" using 1(2) 2(2) sk_same_trans by blast
    moreover have "sk_load st' jt h' =
      (if h \<le> h' \<and> h' < h + Suc n \<and> h' < H \<and> jt = prev ! h' then sk_load st (Some a) h' else sk_load st jt h')" for jt h'
      using 1(3) 2(3) v True by (cases "h' = h") auto
    ultimately show ?thesis by blast
  next
    case False
    then obtain p where "sk_load st (prev ! h) h = Some p" "p \<noteq> Some a" using Suc.prems [rule_format, of h] by auto
    then show ?thesis using False by auto
  qed
qed auto

lemma sk_pred_load:
  assumes "store_ok st (lo @ hi)" "h < MAX_HEIGHT"
  shows "sk_load st (sk_pred st lo h) h = Some (hd_opt (lane st h hi))" "sk_pred st lo h = None \<or> (\<exists>x \<in> set lo. sk_pred st lo h = Some x)"
proof -
  have "linked st h (sk_pred st lo h) (lane st h hi)"
    unfolding sk_pred_def using assms by (intro linked_drop) (simp add: store_ok_def)
  then show "sk_load st (sk_pred st lo h) h = Some (hd_opt (lane st h hi))" by (rule linked_load)
  show "sk_pred st lo h = None \<or> (\<exists>x \<in> set lo. sk_pred st lo h = Some x)"
    using last_jt_in [of "lane st h lo"] by (auto simp: sk_pred_def set_lane)
qed

lemma sk_update_store:
  assumes "store_ok st (lo @ a # hi)" "sk_nodes st a = Some n" "sk_next n' = sk_next n"
    and "sk_hkey n' = SS_create (pkey (sk_data n'))" "nul_free (pkey (sk_data n'))"
  shows "store_ok (st\<lparr>sk_nodes := (sk_nodes st)(a \<mapsto> n')\<rparr>) (lo @ a # hi)"
    and "map (sk_pair (st\<lparr>sk_nodes := (sk_nodes st)(a \<mapsto> n')\<rparr>)) (lo @ a # hi) = map (sk_pair st) lo @ sk_data n' # map (sk_pair st) hi"
proof -
  let ?st = "st\<lparr>sk_nodes := (sk_nodes st)(a \<mapsto> n')\<rparr>"
  have ld: "sk_load ?st jt h = sk_load st jt h" for jt h using assms(2,3) by (auto simp: sk_load_def split: option.split)
  have ht: "sk_height ?st = sk_height st" using assms(2,3) by (auto simp: sk_height_def fun_eq_iff)
  have "node_ok ?st b" if "node_ok st b" for b
    using that assms(2-5) by (cases "b = a"; cases "sk_nodes st b") (simp_all add: node_ok_def)
  then have "list_all (node_ok ?st) (lo @ a # hi)" using assms(1) unfolding store_ok_def list_all_iff by blast
  moreover have "linked ?st h None (lane ?st h (lo @ a # hi))" if "h < MAX_HEIGHT" for h
    using assms(1) that linked_cong [of None "lane st h (lo @ a # hi)" ?st h st] ld ht by (simp add: store_ok_def lane_def)
  ultimately show "store_ok ?st (lo @ a # hi)" using assms(1) by (simp add: store_ok_def)
  have "a \<notin> set lo" "a \<notin> set hi" using assms(1) by (auto simp: store_ok_def)
  then show "map (sk_pair ?st) (lo @ a # hi) = map (sk_pair st) lo @ sk_data n' # map (sk_pair st) hi"
    by (auto simp: sk_pair_def)
qed

lemma sk_insert_store:
  fixes addr :: u64
  assumes "store_ok st (lo @ hi)" "1 \<le> height" "height \<le> MAX_HEIGHT" "nul_free (pkey data)"
  defines "new \<equiv> sk_fresh st"
  defines "st0 \<equiv> st\<lparr>sk_nodes := (sk_nodes st)(new \<mapsto>
      \<lparr>sk_addr = addr, sk_hkey = SS_create (pkey data), sk_data = data, sk_next = replicate height None\<rparr>), sk_fresh := Suc new\<rparr>"
  shows "\<exists>st'. sk_link new height (map (sk_pred st lo) [0..<MAX_HEIGHT]) st0 = Some st' \<and> store_ok st' (lo @ new # hi) \<and>
    map (sk_pair st') (lo @ new # hi) = map (sk_pair st) lo @ data # map (sk_pair st) hi"
proof -
  let ?prev = "map (sk_pred st lo) [0..<MAX_HEIGHT]"
  have fresh: "new \<notin> set (lo @ hi)"
    using assms(1) by (auto simp: store_ok_def list_all_iff node_ok_def new_def split: option.splits)
  have ld0: "sk_load st0 jt h = (if jt = Some new then (if h < height then Some None else None) else sk_load st jt h)" for jt h
    by (cases jt) (auto simp: sk_load_def st0_def)
  have ht0: "sk_height st0 b = (if b = new then height else sk_height st b)" for b by (simp add: sk_height_def st0_def)
  have fr0: "sk_frame st0 b = sk_frame st b" if "b \<noteq> new" for b using that by (simp add: sk_frame_def st0_def)
  have pn: "sk_pred st lo h \<noteq> Some new" if "h < MAX_HEIGHT" for h
    using sk_pred_load(2) [OF assms(1) that] fresh by auto
  have "\<forall>h < height. ?prev ! h \<noteq> Some new \<and> sk_load st0 (?prev ! h) h \<noteq> None \<and> sk_load st0 (Some new) h \<noteq> None"
    using ld0 pn sk_pred_load(1) [OF assms(1)] assms(3) by simp
  from sk_link_spec [OF this] obtain st' where st': "sk_link new height ?prev st0 = Some st'" "sk_same st0 st'"
      "\<And>jt h. sk_load st' jt h = (if height \<le> h then sk_load st0 jt h else if jt = Some new then sk_load st0 (?prev ! h) h
       else if jt = ?prev ! h then Some (Some new) else sk_load st0 jt h)" by blast
  have fr: "sk_frame st' = sk_frame st0" "sk_fresh st' = Suc new" "length (sk_heads st') = length (sk_heads st)"
    using st'(2) by (simp_all add: sk_same_def st0_def)
  have ht: "sk_height st' b = (if b = new then height else sk_height st b)" for b using fr(1) ht0 sk_frame_height [of st' b st0] by simp
  have ok: "node_ok st' b" if "b \<in> set (lo @ hi)" for b
  proof -
    have "node_ok st b" using assms(1) that by (auto simp: store_ok_def list_all_iff)
    moreover have "b \<noteq> new" using that fresh by auto
    ultimately show ?thesis using node_ok_frame [of st' b st] fr fr0 by (simp add: new_def)
  qed
  have okn: "node_ok st' new"
  proof -
    have "node_ok st0 new" using assms(2-4) by (simp add: node_ok_def st0_def)
    then show ?thesis using node_ok_frame [of st' new st0] fr(1,2) by (simp add: st0_def)
  qed
  have lane': "lane st' h (lo @ new # hi) = lane st h lo @ (if h < height then new # lane st h hi else lane st h hi)" for h
    using fresh lane_cong [of lo st' st h] lane_cong [of hi st' st h] ht by (auto simp: lane_def)
  have "linked st' h None (lane st' h (lo @ new # hi))" if h: "h < MAX_HEIGHT" for h
  proof -
    have l: "linked st h None (lane st h lo @ lane st h hi)" "distinct (lane st h lo @ lane st h hi)" "new \<notin> set (lane st h lo @ lane st h hi)"
      using assms(1) h fresh by (auto simp: store_ok_def lane_def)
    show ?thesis
    proof (cases "h < height")
      case True
      have "linked st' h None (lane st h lo @ new # lane st h hi)"
        using l True h pn [OF h] by (intro linked_insert [OF l]) (auto simp: st'(3) ld0 sk_pred_def)
      then show ?thesis using lane' True by simp
    next
      case False
      have "linked st' h None (lane st h lo @ lane st h hi) = linked st h None (lane st h lo @ lane st h hi)"
        using l(3) False by (intro linked_cong) (auto simp: st'(3) ld0)
      then show ?thesis using l(1) lane' False by simp
    qed
  qed
  then have "store_ok st' (lo @ new # hi)"
    using assms(1) fresh ok okn fr(3) by (auto simp: store_ok_def list_all_iff)
  moreover have "sk_pair st' b = (if b = new then data else sk_pair st b)" for b
  proof -
    have "sk_pair st' b = sk_pair st0 b" using fr(1) by (intro sk_frame_pair) simp
    then show ?thesis by (simp add: sk_pair_def [of st0] sk_pair_def [of st]) (simp add: st0_def)
  qed
  then have "map (sk_pair st') (lo @ new # hi) = map (sk_pair st) lo @ data # map (sk_pair st) hi" using fresh by auto
  ultimately show ?thesis using st'(1) by blast
qed

lemma sk_delete_store:
  assumes "store_ok st (lo @ a # hi)"
  defines "prev \<equiv> map (sk_pred st lo) [0..<MAX_HEIGHT]"
  shows "\<exists>st'. do { v \<leftarrow> sk_load st (Some a) 0; st \<leftarrow> sk_save (prev ! 0) 0 v st; sk_unlink (MAX_HEIGHT - 1) 1 a prev st } = Some st' \<and>
    sk_same st st' \<and> store_ok (st'\<lparr>sk_nodes := (sk_nodes st')(a := None)\<rparr>) (lo @ hi) \<and>
    map (sk_pair (st'\<lparr>sk_nodes := (sk_nodes st')(a := None)\<rparr>)) (lo @ hi) = map (sk_pair st) lo @ map (sk_pair st) hi"
proof -
  let ?H = "sk_height st a"
  have a: "a \<notin> set lo" "a \<notin> set hi" "node_ok st a" using assms(1) by (auto simp: store_ok_def)
  have H: "1 \<le> ?H" "?H \<le> MAX_HEIGHT" using node_ok_height [OF a(3)] by auto
  have pr: "prev ! h \<noteq> Some a" "sk_load st (prev ! h) h = Some (if h < ?H then Some a else hd_opt (lane st h hi))"
    if "h < MAX_HEIGHT" for h
    using sk_pred_load [OF assms(1) that] a(1) that by (auto simp: prev_def lane_def hd_opt_def)
  have "hd_opt (lane st h hi) \<noteq> Some a" for h
    using a(2) set_lane [of st h hi] by (cases "lane st h hi") (auto simp: hd_opt_def)
  then have "\<forall>h'. 0 \<le> h' \<and> h' < 0 + Suc (MAX_HEIGHT - 1) \<longrightarrow> prev ! h' \<noteq> Some a \<and>
      (if h' < ?H then sk_load st (prev ! h') h' = Some (Some a) \<and> sk_load st (Some a) h' \<noteq> None
       else \<exists>p. sk_load st (prev ! h') h' = Some p \<and> p \<noteq> Some a)"
    using pr by (simp add: MAX_HEIGHT_def sk_load_None_iff [of st "Some a"])
  from sk_unlink_spec [OF this] obtain st' where st': "sk_unlink (Suc (MAX_HEIGHT - 1)) 0 a prev st = Some st'" "sk_same st st'"
      "\<And>jt h. sk_load st' jt h = (if h < MAX_HEIGHT \<and> h < ?H \<and> jt = prev ! h then sk_load st (Some a) h else sk_load st jt h)"
    by (auto simp: MAX_HEIGHT_def)
  have prg: "do { v \<leftarrow> sk_load st (Some a) 0; st \<leftarrow> sk_save (prev ! 0) 0 v st; sk_unlink (MAX_HEIGHT - 1) 1 a prev st } = Some st'"
  proof -
    have "0 < MAX_HEIGHT" by (simp add: MAX_HEIGHT_def)
    then have "sk_load st (prev ! 0) 0 = Some (Some a)" using pr [of 0] H(1) by simp
    then show ?thesis using st'(1) by (simp only: sk_unlink.simps) simp
  qed
  let ?st = "st'\<lparr>sk_nodes := (sk_nodes st')(a := None)\<rparr>"
  have ld: "sk_load ?st jt h = (if h < MAX_HEIGHT \<and> h < ?H \<and> jt = prev ! h then sk_load st (Some a) h else sk_load st jt h)"
    if "jt \<noteq> Some a" for jt h
    using st'(3) [of jt h] that by (auto simp: sk_load_def [of ?st] sk_load_def [of st'] split: option.splits)
  have fr: "sk_frame ?st b = sk_frame st b" if "b \<noteq> a" for b
    using st'(2) that by (simp add: sk_same_def sk_frame_def fun_eq_iff)
  have ht: "sk_height ?st b = sk_height st b" "sk_pair ?st b = sk_pair st b" if "b \<noteq> a" for b
    using fr [OF that] sk_frame_height sk_frame_pair by blast+
  have lane': "lane ?st h (lo @ hi) = lane st h lo @ lane st h hi" for h
    using a(1,2) ht(1) lane_cong [of "lo @ hi" ?st st h] by (metis (no_types, lifting) Un_iff lane_append set_append)
  have "linked ?st h None (lane ?st h (lo @ hi))" if h: "h < MAX_HEIGHT" for h
  proof -
    have l: "linked st h None (lane st h lo @ lane st h (a # hi))" "distinct (lane st h lo @ lane st h (a # hi))"
      using assms(1) h by (auto simp: store_ok_def lane_def)
    show ?thesis
    proof (cases "h < ?H")
      case True
      then have e: "lane st h (a # hi) = a # lane st h hi" by (simp add: lane_def)
      have "sk_load ?st j h = (if j = last_jt None (lane st h lo) then sk_load st (Some a) h else sk_load st j h)"
        if "j \<noteq> Some a" for j
        using ld [OF that, of h] h True by (simp add: prev_def sk_pred_def)
      from linked_delete [OF l [unfolded e] _ this] have "linked ?st h None (lane st h lo @ lane st h hi)" by auto
      then show ?thesis using lane' by simp
    next
      case False
      then have e: "lane st h (a # hi) = lane st h hi" by (simp add: lane_def)
      have "linked ?st h None (lane st h lo @ lane st h hi) = linked st h None (lane st h lo @ lane st h hi)"
      proof (intro linked_cong ballI)
        fix j assume "j \<in> insert None (Some ` set (lane st h lo @ lane st h hi))"
        then have "j \<noteq> Some a" using a(1,2) by (auto simp: set_lane)
        then show "sk_load ?st j h = sk_load st j h" using ld False by simp
      qed
      then show ?thesis using l(1) e lane' by simp
    qed
  qed
  moreover have "node_ok ?st b" if "b \<in> set (lo @ hi)" for b
  proof -
    have "node_ok st b" "b \<noteq> a" using assms(1) that a(1,2) by (auto simp: store_ok_def list_all_iff)
    then show ?thesis using node_ok_frame [OF fr, of b] st'(2) by (simp add: sk_same_def)
  qed
  ultimately have "store_ok ?st (lo @ hi)"
    using assms(1) st'(2) by (auto simp: store_ok_def list_all_iff sk_same_def)
  moreover have "map (sk_pair ?st) (lo @ hi) = map (sk_pair st) lo @ map (sk_pair st) hi"
  proof -
    have "b \<noteq> a" if "b \<in> set (lo @ hi)" for b using that a(1,2) by auto
    then have "map (sk_pair ?st) (lo @ hi) = map (sk_pair st) (lo @ hi)" using ht(2) by (intro map_cong) simp_all
    then show ?thesis by simp
  qed
  ultimately show ?thesis using prg st'(2) by blast
qed

section \<open>The operations keep the contract\<close>

abbreviation sk_list :: "'s SkipList \<Rightarrow> pptr list" where
  "sk_list l \<equiv> the (sk_begin (sk_store l))"

lemma sk_begin_ok:
  assumes "store_ok st as"
  shows "sk_begin st = Some (map (sk_pair st) as)"
proof -
  have "0 < MAX_HEIGHT" by (simp add: MAX_HEIGHT_def)
  then have "linked st 0 None (lane st 0 as)" using assms by (auto simp: store_ok_def)
  then have "linked st 0 None as" using assms lane_0 [of st as] by (simp add: store_ok_def)
  then show ?thesis using linked_load sk_collect_linked by (simp add: sk_begin_def)
qed

lemma sk_cut_at:
  assumes "store_ok st as" "sorted_keys hkey_ord (map (sk_pair st) as)" "nul_free key"
  obtains lo hi where "as = lo @ hi" "sk_cut st key lo hi"
    "lower_bound (\<lambda>p. hkey_ord (pkey p)) (map (sk_pair st) as) (hkey_ord key) = length lo"
    "lookup (map (sk_pair st) as) key = map_option (sk_pair st) (sk_found st key hi)"
proof -
  let ?v = "map (sk_pair st) as"
  define j where "j = lower_bound (\<lambda>p. hkey_ord (pkey p)) ?v (hkey_ord key)"
  have j: "j \<le> length as" using length_takeWhile_le [of _ ?v] by (simp add: j_def lower_bound_def)
  note sp = hord.sorted_keys_split(1,2) [OF assms(2) j_def [symmetric]]
  have "sorted_wrt (\<lambda>a b. hkey_ord (sk_key st a) < hkey_ord (sk_key st b)) as"
    using assms(2) by (simp add: sorted_keys_def sk_key_def sorted_wrt_map)
  then have "sk_cut st key (take j as) (drop j as)"
    using assms(1,3) sp by (auto simp: sk_cut_def sk_key_def take_map drop_map intro: sorted_wrt_drop)
  moreover have "lookup ?v key = map_option (sk_pair st) (sk_found st key (drop j as))"
  proof (cases "j < length as")
    case True
    then have "drop j as = as ! j # drop (Suc j) as" by (simp add: Cons_nth_drop_Suc)
    then show ?thesis using True hord.lookup_lower_bound [OF assms(2) j_def [symmetric]] by (simp add: sk_found_def sk_key_def)
  next
    case False
    then show ?thesis using hord.lookup_lower_bound [OF assms(2) j_def [symmetric]] by (simp add: sk_found_def)
  qed
  ultimately show ?thesis using that [of "take j as" "drop j as"] j by (simp add: j_def [symmetric])
qed

lemma sk_node_at:
  assumes "store_ok st as" "a \<in> set as"
  shows "\<exists>n. sk_nodes st a = Some n \<and> sk_hkey n = SS_create (pkey (sk_data n)) \<and> sk_data n = sk_pair st a"
proof -
  have "node_ok st a" using assms by (simp add: store_ok_def list_all_iff)
  then show ?thesis by (cases "sk_nodes st a") (simp_all add: node_ok_def sk_pair_def)
qed

lemma sk_found_Some:
  "sk_found st key hi = Some a \<Longrightarrow> \<exists>hi'. hi = a # hi' \<and> pkey (sk_pair st a) = key"
  by (auto simp: sk_found_def sk_key_def split: list.splits if_splits)

lemma getRandomHeight_range: "1 \<le> getRandomHeight R i" "getRandomHeight R i \<le> MAX_HEIGHT"
  by (auto simp: getRandomHeight_def Let_def MAX_HEIGHT_def)

lemma sk_insertF_law:
  assumes inv: "sk_inv l" and f: "factory_wf f" "nul_free (factory_getKey f)"
  shows "\<exists>r l'. sk_insertF A R now f l = Some (r, l') \<and> sk_inv l' \<and> insert_spec now f (sk_list l) r (sk_list l')"
proof -
  let ?st = "sk_store l" and ?key = "factory_getKey f"
  obtain as where ok: "store_ok ?st as" and good: "list_good hkey_ord nul_free (map (sk_pair ?st) as) (sk_lc l)"
    using inv by (auto simp: sk_inv_def)
  let ?v = "map (sk_pair ?st) as"
  have v: "sk_list l = ?v" using sk_begin_ok [OF ok] by simp
  have s: "sorted_keys hkey_ord ?v" using good by (simp add: list_good_def)
  have valid: "factory_valid f" "?key \<noteq> []" using f(1) factory_wf_valid factory_wf_key by blast+
  obtain lo hi where cut: "as = lo @ hi" "sk_cut ?st ?key lo hi"
      "lower_bound (\<lambda>p. hkey_ord (pkey p)) ?v (hkey_ord ?key) = length lo"
      "lookup ?v ?key = map_option (sk_pair ?st) (sk_found ?st ?key hi)"
    using sk_cut_at [OF ok s f(2)] .
  note loc = sk_locate_cut [OF cut(2) valid(2)]
  show ?thesis
  proof (cases "sk_found ?st ?key hi")
    case (Some a)
    obtain prev where p: "sk_locate True ?key ?st = Some (prev, Some a)" using loc(2) [OF Some] by blast
    obtain hi' where hi: "hi = a # hi'" "pkey (sk_pair ?st a) = ?key" using sk_found_Some [OF Some] by blast
    obtain n where n: "sk_nodes ?st a = Some n" "sk_hkey n = SS_create (pkey (sk_data n))" "sk_data n = sk_pair ?st a"
      using sk_node_at [OF ok, of a] cut(1) hi(1) by auto
    obtain r data lc alloc where u: "updatePair A now f (sk_data n) (sk_lc l) (sk_allocator l) = (r, data, lc, alloc)"
      by (metis prod.exhaust)
    define n' where "n' = (if ir_status r = REPLACED then n\<lparr>sk_hkey := SS_create ?key, sk_data := data\<rparr> else n\<lparr>sk_data := data\<rparr>)"
    define st' where "st' = ?st\<lparr>sk_nodes := (sk_nodes ?st)(a \<mapsto> n')\<rparr>"
    let ?l = "l\<lparr>sk_store := st', sk_lc := lc, sk_allocator := alloc\<rparr>" and ?v' = "map (sk_pair ?st) lo @ data # map (sk_pair ?st) hi'"
    have step: "sk_insertF A R now f l = Some (r, ?l)"
      using valid(1) p n(1) u by (simp add: sk_insertF_def Let_def n'_def st'_def)
    have split: "?v = map (sk_pair ?st) lo @ sk_data n # map (sk_pair ?st) hi'" using cut(1) hi(1) n(3) by simp
    have "pkey (sk_data n) = ?key" using hi(2) n(3) by simp
    note up = hord.update_law [OF good [unfolded split] f(1) this u]
    have "pair_wf (snd (sk_data n))" using good split by (simp add: list_good_def pairs_ok_def)
    then have "pkey data = ?key" using updatePair_spec(1) [OF f(1) _ _ u] hi(2) n(3) by (simp add: pkey_def)
    then have "sk_next n' = sk_next n" "sk_hkey n' = SS_create (pkey (sk_data n'))" "sk_data n' = data" "nul_free (pkey (sk_data n'))"
      using hi(2) n(2,3) f(2) by (simp_all add: n'_def)
    then have st': "store_ok st' as" "map (sk_pair st') as = ?v'"
      using sk_update_store [OF ok [unfolded cut(1) hi(1)] n(1), of n'] by (simp_all only: st'_def cut(1) hi(1))
    then have "sk_inv ?l" unfolding sk_inv_def using up by (intro exI [of _ as]) simp
    moreover have "sk_list ?l = ?v'" using sk_begin_ok [OF st'(1)] st'(2) by simp
    ultimately show ?thesis using step up v split by metis
  next
    case None
    have p: "sk_locate True ?key ?st = Some (map (sk_pred ?st lo) [0..<MAX_HEIGHT], None)" using loc(1) [OF None] .
    have absent: "lookup ?v ?key = None" using cut(4) None by simp
    obtain c alloc where c: "pair_create A now f (sk_allocator l) = (c, alloc)" by fastforce
    show ?thesis
    proof (cases c)
      case None
      then show ?thesis using valid(1) p c inv v insert_spec_failed [OF absent] by (auto simp: sk_insertF_def sk_inv_def)
    next
      case (Some data)
      let ?h = "getRandomHeight R (sk_draws l)"
      obtain d alloc2 where d: "xallocate A alloc (sizeof_SkNode ?h) = (d, alloc2)" by fastforce
      show ?thesis
      proof (cases d)
        case None
        then show ?thesis using Some valid(1) p c d inv v insert_spec_failed [OF absent]
          by (auto simp: sk_insertF_def sk_inv_def Let_def)
      next
        case (Some addr)
        have c': "pair_create A now f (sk_allocator l) = (Some data, alloc)" using c \<open>c = Some data\<close> by simp
        have k: "pkey data = ?key" using f(1) c' by (cases rule: pair_create_cases) (auto simp: pkey_def)
        obtain st' where st': "sk_link (sk_fresh ?st) ?h (map (sk_pred ?st lo) [0..<MAX_HEIGHT]) (?st\<lparr>sk_nodes := (sk_nodes ?st)(sk_fresh ?st \<mapsto>
              \<lparr>sk_addr = addr, sk_hkey = SS_create (pkey data), sk_data = data, sk_next = replicate ?h None\<rparr>),
              sk_fresh := Suc (sk_fresh ?st)\<rparr>) = Some st'"
            "store_ok st' (lo @ sk_fresh ?st # hi)"
            "map (sk_pair st') (lo @ sk_fresh ?st # hi) = map (sk_pair ?st) lo @ data # map (sk_pair ?st) hi"
          using sk_insert_store [of ?st lo hi ?h data addr] ok cut(1) getRandomHeight_range [of R "sk_draws l"] k f(2) by auto
        let ?l = "l\<lparr>sk_draws := Suc (sk_draws l), sk_store := st',
            sk_lc := lc_inc (size_t (bytes (snd data))) (sk_lc l), sk_allocator := alloc2\<rparr>"
        have step: "sk_insertF A R now f l = Some (inserted data, ?l)"
          using valid(1) p c' d Some st'(1) k by (simp add: sk_insertF_def Let_def)
        have "take (length lo) ?v = map (sk_pair ?st) lo" "drop (length lo) ?v = map (sk_pair ?st) hi" using cut(1) by simp_all
        then have "list_good hkey_ord nul_free (map (sk_pair st') (lo @ sk_fresh ?st # hi)) (sk_lc ?l) \<and>
            insert_spec now f ?v (inserted data) (map (sk_pair st') (lo @ sk_fresh ?st # hi))"
          unfolding st'(3) using hord.insert_new_law [OF good f cut(3) absent c'] by simp
        then show ?thesis using step st'(2) v sk_begin_ok [OF st'(2)] by (auto simp: sk_inv_def)
      qed
    qed
  qed
qed

lemma sk_erase_law:
  assumes inv: "sk_inv l" and key: "key \<noteq> []" "nul_free key"
  shows "\<exists>r l'. sk_erase A now key l = Some (r, l') \<and> sk_inv l' \<and> erase_spec key (sk_list l) r (sk_list l')"
proof -
  let ?st = "sk_store l"
  obtain as where ok: "store_ok ?st as" and good: "list_good hkey_ord nul_free (map (sk_pair ?st) as) (sk_lc l)"
    using inv by (auto simp: sk_inv_def)
  let ?v = "map (sk_pair ?st) as"
  have v: "sk_list l = ?v" using sk_begin_ok [OF ok] by simp
  have s: "sorted_keys hkey_ord ?v" using good by (simp add: list_good_def)
  obtain lo hi where cut: "as = lo @ hi" "sk_cut ?st key lo hi"
      "lookup ?v key = map_option (sk_pair ?st) (sk_found ?st key hi)"
    using sk_cut_at [OF ok s key(2)] by metis
  note loc = sk_locate_cut [OF cut(2) key(1)]
  show ?thesis
  proof (cases "sk_found ?st key hi")
    case None
    then show ?thesis using loc(1) [OF None] inv v cut(3) by (auto simp: sk_erase_def erase_spec_def)
  next
    case (Some a)
    obtain hi' where hi: "hi = a # hi'" "pkey (sk_pair ?st a) = key" using sk_found_Some [OF Some] by blast
    let ?prev = "map (sk_pred ?st lo) [0..<MAX_HEIGHT]"
    obtain st' where st': "do { v \<leftarrow> sk_load ?st (Some a) 0; st \<leftarrow> sk_save (?prev ! 0) 0 v ?st;
          sk_unlink (MAX_HEIGHT - 1) 1 a ?prev st } = Some st'" "sk_same ?st st'"
        "store_ok (st'\<lparr>sk_nodes := (sk_nodes st')(a := None)\<rparr>) (lo @ hi')"
        "map (sk_pair (st'\<lparr>sk_nodes := (sk_nodes st')(a := None)\<rparr>)) (lo @ hi') = map (sk_pair ?st) lo @ map (sk_pair ?st) hi'"
      using sk_delete_store [of ?st lo a hi'] ok cut(1) hi(1) by auto
    have fr: "sk_frame st' a = sk_frame ?st a" using st'(2) by (simp add: sk_same_def)
    obtain n0 where "sk_nodes ?st a = Some n0" using sk_node_at [OF ok, of a] cut(1) hi(1) by auto
    then obtain n where n: "sk_nodes st' a = Some n" using fr by (auto simp: sk_frame_def)
    have d: "sk_data n = sk_pair ?st a" using sk_frame_pair [OF fr] n by (simp add: sk_pair_def [of st'])
    define st2 where "st2 = st'\<lparr>sk_nodes := (sk_nodes st')(a := None)\<rparr>"
    let ?l = "l\<lparr>sk_store := st2, sk_lc := lc_dec (size_t (bytes (snd (sk_data n)))) (sk_lc l),
        sk_allocator := sk_deallocate A n (sk_allocator l)\<rparr>"
    have step: "sk_erase A now key l = Some (deleted, ?l)"
    proof -
      obtain v st1 where "sk_load ?st (Some a) 0 = Some v" "sk_save (?prev ! 0) 0 v ?st = Some st1"
          "sk_unlink (MAX_HEIGHT - 1) 1 a ?prev st1 = Some st'"
        using st'(1) by (auto simp: Option.bind_eq_Some_conv)
      then show ?thesis using loc(3) [OF Some] n unfolding sk_erase_def Let_def st2_def by simp
    qed
    have split: "?v = map (sk_pair ?st) lo @ sk_data n # map (sk_pair ?st) hi'" using cut(1) hi(1) d by simp
    note rem = hord.remove_law [OF good [unfolded split]]
    have "list_good hkey_ord nul_free (map (sk_pair st2) (lo @ hi')) (sk_lc ?l)"
      unfolding st2_def st'(4) using rem by simp
    then have "sk_inv ?l" unfolding sk_inv_def using st'(3) by (intro exI [of _ "lo @ hi'"]) (simp add: st2_def)
    moreover have "sk_list ?l = map (sk_pair ?st) lo @ map (sk_pair ?st) hi'"
      using sk_begin_ok [OF st'(3)] st'(4) by (simp add: st2_def)
    ultimately show ?thesis using step rem v split hi(2) d by metis
  qed
qed

lemma sk_reads:
  assumes inv: "sk_inv l" and key: "key \<noteq> []" "nul_free key"
  shows "sk_getPair l key = Some (lookup (sk_list l) key)"
    and "sk_find l key = Some (dropWhile (\<lambda>p. hkey_ord (pkey p) < hkey_ord key) (sk_list l))"
proof -
  let ?st = "sk_store l"
  obtain as where ok: "store_ok ?st as" and good: "list_good hkey_ord nul_free (map (sk_pair ?st) as) (sk_lc l)"
    using inv by (auto simp: sk_inv_def)
  let ?v = "map (sk_pair ?st) as"
  have v: "sk_list l = ?v" using sk_begin_ok [OF ok] by simp
  have s: "sorted_keys hkey_ord ?v" using good by (simp add: list_good_def)
  obtain lo hi where cut: "as = lo @ hi" "sk_cut ?st key lo hi"
      "lower_bound (\<lambda>p. hkey_ord (pkey p)) ?v (hkey_ord key) = length lo"
      "lookup ?v key = map_option (sk_pair ?st) (sk_found ?st key hi)"
    using sk_cut_at [OF ok s key(2)] .
  note node = sk_locate_cut(4) [OF cut(2) key(1)]
  show "sk_getPair l key = Some (lookup (sk_list l) key)"
    using node [of True] cut(4) v by (simp add: sk_getPair_def split: option.split)
  have "dropWhile (\<lambda>p. hkey_ord (pkey p) < hkey_ord key) ?v = map (sk_pair ?st) hi"
    using cut(1,3) by (metis append_eq_conv_conj dropWhile_eq_drop drop_map lower_bound_def)
  moreover have "sk_find_node False key ?st = Some (hd_opt hi)"
    using node [of False] by (auto simp: sk_found_def hd_opt_def split: option.split list.splits)
  moreover have "sk_collect ?st (hd_opt hi) = Some hi"
  proof -
    have "linked ?st 0 None (lane ?st 0 as)" using ok by (auto simp: store_ok_def MAX_HEIGHT_def)
    then have "linked ?st 0 None (lo @ hi)" using ok lane_0 [of ?st as] cut(1) by (simp add: store_ok_def)
    then show ?thesis using linked_drop sk_collect_linked by blast
  qed
  ultimately show "sk_find l key = Some (dropWhile (\<lambda>p. hkey_ord (pkey p) < hkey_ord key) (sk_list l))"
    using v by (simp add: sk_find_def)
qed

lemma store_ok_empty: "store_ok (st\<lparr>sk_heads := replicate MAX_HEIGHT None, sk_nodes := Map.empty\<rparr>) []"
  by (simp add: store_ok_def sk_load_def lane_def)

lemma sk_clear_law:
  assumes "sk_inv l"
  shows "\<exists>l'. sk_clear A l = Some l' \<and> sk_inv l' \<and> sk_list l' = []"
proof -
  have z: "sk_inv (sk_zeroing l') \<and> sk_list (sk_zeroing l') = []" for l' :: "'a SkipList"
    using store_ok_empty [of "sk_store l'"] sk_begin_ok [OF store_ok_empty, of "sk_store l'"]
    by (auto simp: sk_inv_def sk_zeroing_def list_good_def pairs_ok_def sorted_keys_def lc_clr_def lc_zero_def intro!: exI [of _ "[]"])
  obtain as where ok: "store_ok (sk_store l) as" using assms by (auto simp: sk_inv_def)
  obtain first as' where "sk_load (sk_store l) None 0 = Some first" "sk_collect (sk_store l) first = Some as'"
    using sk_begin_ok [OF ok] by (auto simp: sk_begin_def Option.bind_eq_Some_conv)
  then show ?thesis using z by (auto simp: sk_clear_def Let_def split: prod.split)
qed

lemma sk_ops_simps [simp]:
  "l_insertF (sk_ops A R) now f l = the (sk_insertF A R now f l)" "l_erase (sk_ops A R) now k l = the (sk_erase A now k l)"
  "l_getPair (sk_ops A R) l k = the (sk_getPair l k)" "l_list (sk_ops A R) l = sk_list l"
  "l_find (sk_ops A R) l k = the (sk_find l k)" "l_clear (sk_ops A R) l = the (sk_clear A l)"
  "l_size (sk_ops A R) l = lc_count (sk_lc l)" "l_bytes (sk_ops A R) l = lc_bytes (sk_lc l)"
  by (simp_all add: sk_ops_def)

interpretation sk: memlist "sk_ops A R" sk_inv nul_free hkey_ord for A R
proof unfold_locales
  fix l :: "'a SkipList" assume inv: "sk_inv l"
  then obtain as where as: "store_ok (sk_store l) as" "list_good hkey_ord nul_free (map (sk_pair (sk_store l)) as) (sk_lc l)"
    by (auto simp: sk_inv_def)
  then show "sorted_keys hkey_ord (l_list (sk_ops A R) l)" "pairs_ok nul_free (l_list (sk_ops A R) l)"
    "lc_of (l_list (sk_ops A R) l) = \<lparr>lc_count = l_size (sk_ops A R) l, lc_bytes = l_bytes (sk_ops A R) l\<rparr>"
    using sk_begin_ok [OF as(1)] by (simp_all add: list_good_def)
  show "sk_inv (l_clear (sk_ops A R) l) \<and> l_list (sk_ops A R) (l_clear (sk_ops A R) l) = []"
    using sk_clear_law [OF inv, of A] by auto
  fix k :: str assume k: "k \<noteq> []" "nul_free k"
  show "l_getPair (sk_ops A R) l k = lookup (l_list (sk_ops A R) l) k"
    "l_find (sk_ops A R) l k = dropWhile (\<lambda>p. hkey_ord (pkey p) < hkey_ord k) (l_list (sk_ops A R) l)"
    using sk_reads [OF inv k] by simp_all
  fix now r l' assume "l_erase (sk_ops A R) now k l = (r, l')"
  then show "sk_inv l' \<and> erase_spec k (l_list (sk_ops A R) l) r (l_list (sk_ops A R) l')"
    using sk_erase_law [OF inv k, of A now] by auto
next
  fix l :: "'a SkipList" and f now r l' assume inv: "sk_inv l"
  { assume "factory_wf f" "nul_free (factory_getKey f)" "l_insertF (sk_ops A R) now f l = (r, l')"
    then show "sk_inv l' \<and> insert_spec now f (l_list (sk_ops A R) l) r (l_list (sk_ops A R) l')"
      using sk_insertF_law [OF inv, of f A R now] by auto }
  { assume "\<not> factory_valid f"
    then show "l_insertF (sk_ops A R) now f l = (errorInvalid, l)" by (simp add: sk_insertF_def) }
qed

lemma sk_inv_empty: "sk_inv (sk_empty alloc)" "sk_list (sk_empty alloc) = []"
proof -
  let ?st = "\<lparr>sk_heads = replicate MAX_HEIGHT None, sk_nodes = Map.empty, sk_fresh = 0\<rparr>"
  have "store_ok ?st []" using store_ok_empty [of ?st] by simp
  then show "sk_inv (sk_empty alloc)" "sk_list (sk_empty alloc) = []"
    using sk_begin_ok by (auto simp: sk_inv_def sk_empty_def list_good_def pairs_ok_def sorted_keys_def intro!: exI [of _ "[]"])
qed

lemma sk_insert_first:
  assumes f: "factory_wf f" "nul_free (factory_getKey f)"
    and "pair_create A now f alloc = (Some p, a1)" "xallocate A a1 (sizeof_SkNode (getRandomHeight R 0)) = (Some addr, a2)"
  shows "\<exists>l. sk_insertF A R now f (sk_empty alloc) = Some (inserted p, l)"
proof -
  let ?st = "\<lparr>sk_heads = replicate MAX_HEIGHT None, sk_nodes = Map.empty, sk_fresh = 0\<rparr>" and ?key = "factory_getKey f"
  have ok: "store_ok ?st ([] @ [])" using store_ok_empty [of ?st] by simp
  have valid: "factory_valid f" "?key \<noteq> []" using f(1) factory_wf_valid factory_wf_key by blast+
  have "sk_cut ?st ?key [] []" using ok f(2) by (simp add: sk_cut_def)
  from sk_locate_cut(1) [OF this valid(2)] have l: "sk_locate True ?key ?st = Some (map (sk_pred ?st []) [0..<MAX_HEIGHT], None)"
    by (simp add: sk_found_def)
  have k: "pkey p = ?key" using f(1) assms(3) by (cases rule: pair_create_cases) (auto simp: pkey_def)
  show ?thesis
    using sk_insert_store [OF ok getRandomHeight_range [of R 0], of p addr] f(2) k l valid(1) assms(3,4)
    by (auto simp: sk_insertF_def sk_empty_def Let_def)
qed

section \<open>Properties\<close>

text \<open>
  C2: the skip list is the same last-writer-wins store as the other lists, whatever heights the nodes draw. 
  After any sequence of valid writes with explicit creation times none of which fails, a lookup gives, for
  every non-empty key, what a register has that keeps the newest write, for keys without zero bytes in their
  first eight characters.
\<close>

theorem sk_run_registers:
  assumes "list_all (\<lambda>(now, op). op_ok nul_free op \<and> explicit_write op) ops"
    and "l_run (sk_ops A R) ops (sk_empty st) = (rs, l)" "list_all ir_ok rs" "k \<noteq> []" "nul_free k"
  shows "\<exists>p. sk_getPair l k = Some p \<and> map_option reg_of p = reg_run k ops None"
proof -
  have "sk_inv l"
    using sk.run_inv [OF sk_inv_empty(1), of ops A R st] assms(1,2) by (simp add: list_all_iff case_prod_beta)
  then have "sk_getPair l k = Some (lookup (sk_list l) k)" by (intro sk_reads assms(4,5))
  then show ?thesis using sk.run_registers [OF sk_inv_empty(1) assms(1-3), of k] sk_inv_empty(2) [of st] by simp
qed

theorem sk_run_registers_witness:
  "\<exists>p. sk_getPair (snd (l_run (sk_ops arena_ops \<lparr>rand64 = (\<lambda>i. 0x4000000000000000), clz0 = 0\<rparr>)
     [(1, Insert (Normal [98] [1, 2] 0 7))] (sk_empty arena4k))) [98] = Some p \<and>
   map_option reg_of p = Some \<lparr>reg_created = to64 7, reg_val = [1, 2], reg_expires = 0\<rparr>"
proof -
  let ?R = "\<lparr>rand64 = (\<lambda>i. 0x4000000000000000), clz0 = 0\<rparr>" and ?f = "Normal [98] [1, 2] 0 7"
  let ?ops = "[(1, Insert ?f)] :: (u64 \<times> list_op) list"
  let ?r = "l_run (sk_ops arena_ops ?R) ?ops (sk_empty arena4k)"
  have h: "getRandomHeight ?R 0 = 2" by code_simp
  have f: "factory_wf ?f" "nul_free (factory_getKey ?f)" by (simp_all add: eval_simps nul_free_def)
  obtain p a1 addr a2 where c: "pair_create arena_ops 1 ?f arena4k = (Some p, a1)" "xallocate arena_ops a1 (sizeof_SkNode 2) = (Some addr, a2)"
    by (simp add: eval_simps sizeof_SkNode_def Let_def)
  from sk_insert_first [OF f c(1), of ?R] c(2) h obtain l where "sk_insertF arena_ops ?R 1 ?f (sk_empty arena4k) = Some (inserted p, l)"
    by auto
  then have "list_all ir_ok (fst ?r)" by (simp add: inserted_def)
  then show ?thesis
    using sk_run_registers [of ?ops arena_ops ?R arena4k "fst ?r" "snd ?r" "[98]"] f
    by (simp add: reg_run_def reg_write_def nul_free_def)
qed

text \<open>
  C8: the skip list never follows a dangling pointer, leaves a lane or runs in a circle.  On a well formed
  list every operation has a result, and the list it leaves is well formed again: its lanes are the same nodes
  in the same order, each lane with those that are high enough.
\<close>

theorem skip_list_memory_safe:
  assumes "sk_inv l" "k \<noteq> []" "nul_free k" "factory_wf f" "nul_free (factory_getKey f)"
  shows "(\<exists>r l'. sk_insertF A R now f l = Some (r, l') \<and> sk_inv l') \<and> (\<exists>r l'. sk_erase A now k l = Some (r, l') \<and> sk_inv l') \<and>
    sk_getPair l k \<noteq> None \<and> sk_find l k \<noteq> None \<and> sk_begin (sk_store l) \<noteq> None \<and> (\<exists>l'. sk_clear A l = Some l' \<and> sk_inv l')"
proof -
  have "sk_begin (sk_store l) \<noteq> None" using assms(1) sk_begin_ok by (auto simp: sk_inv_def)
  then show ?thesis
    using sk_insertF_law [OF assms(1,4,5), of A R now] sk_erase_law [OF assms(1-3), of A now] sk_reads [OF assms(1-3)]
      sk_clear_law [OF assms(1), of A] by auto
qed

theorem skip_list_memory_safe_witness: "\<exists>r l'. sk_erase arena_ops 1 [98] (sk_empty arena4k) = Some (r, l') \<and> sk_inv l'"
  using skip_list_memory_safe [of "sk_empty arena4k" "[98]" "Normal [98] [1, 2] 0 7" arena_ops _ 1] sk_inv_empty(1) [of arena4k]
  by (simp add: eval_simps nul_free_def)

end
