(* ===== verification/KvMemory.thy ===== *)
theory KvMemory
  imports KvStore SkipList
begin

text \<open>
  The skip list under the contract of the commands: in an arena, as \<^verbatim>\<open>db_net\<close> runs it, and on the
  system heap.  In the arena a pair may be written through a pointer; that needs the pairs to be at
  different addresses, which the arena guarantees because it never hands out memory twice.
\<close>

section \<open>Allocations from an arena\<close>

definition arena_grew :: "nat \<Rightarrow> ArenaAllocator \<Rightarrow> ArenaAllocator \<Rightarrow> bool" where
  "arena_grew n a a' \<longleftrightarrow>
     arena_inv8 a' \<and> arena_data a' = arena_data a \<and> arena_size a' = arena_size a \<and>
     unat (arena_pos a) \<le> unat (arena_pos a') \<and> unat (arena_pos a') \<le> unat (arena_pos a) + n"

definition fresh_in :: "ArenaAllocator \<Rightarrow> ArenaAllocator \<Rightarrow> u64 \<Rightarrow> bool" where
  "fresh_in a a' x \<longleftrightarrow>
     unat (arena_data a) + unat (arena_pos a) \<le> unat x \<and> unat x < unat (arena_data a) + unat (arena_pos a')"

lemma arena_grew_refl: "arena_inv8 a \<Longrightarrow> arena_grew n a a"
  by (simp add: arena_grew_def)

lemma arena_grew_trans: "arena_grew n a b \<Longrightarrow> arena_grew m b c \<Longrightarrow> arena_grew (n + m) a c"
  by (auto simp: arena_grew_def)

lemma arena_grew_mono: "arena_grew n a b \<Longrightarrow> n \<le> m \<Longrightarrow> arena_grew m a b"
  by (auto simp: arena_grew_def)

lemma fresh_in_grew: "fresh_in a b x \<Longrightarrow> arena_grew n b c \<Longrightarrow> fresh_in a c x"
  by (auto simp: arena_grew_def fresh_in_def)

lemma arena_step:
  assumes "arena_inv8 a" "arena_request n" "0 < unat n" "arena_xallocate a n = (r, a')"
  shows "arena_grew (7 + unat n) a a'" "r = Some p \<Longrightarrow> fresh_in a a' p"
    "unat (arena_pos a) + 7 + unat n \<le> unat (arena_size a) \<Longrightarrow> r \<noteq> None"
proof -
  have i: "arena_inv a" using assms(1) by (simp add: arena_inv8_def)
  have i8: "arena_inv8 a'" using arena_xallocate_inv8 [OF assms(1,2)] assms(4) by simp
  note al = arena_align_pos [OF i]
  from i assms(2) have "arena_grew (7 + unat n) a a' \<and> (r = Some p \<longrightarrow> fresh_in a a' p) \<and>
      (unat (arena_pos a) + 7 + unat n \<le> unat (arena_size a) \<longrightarrow> r \<noteq> None)"
  proof (cases rule: arena_xallocate_cases)
    case full
    then show ?thesis using assms(4) i8 al by (auto simp: arena_grew_def)
  next
    case (room q)
    then show ?thesis using assms(3,4) i8 al by (auto simp: arena_grew_def fresh_in_def)
  qed
  then show "arena_grew (7 + unat n) a a'" "r = Some p \<Longrightarrow> fresh_in a a' p"
    "unat (arena_pos a) + 7 + unat n \<le> unat (arena_size a) \<Longrightarrow> r \<noteq> None" by blast+
qed

lemma factory_bytes_le: "factory_wf f \<Longrightarrow> factory_bytes f \<le> maxBytes \<and> 0 < factory_bytes f"
  using factory_bytes_eq [of f] factory_val_le [of f] factory_wf_key_le [of f]
  by (simp add: maxBytes_def bytes_of_def sizeof_Pair_def)

lemma maxBytes_value: "maxBytes = 268436498"
  by (simp add: maxBytes_def bytes_of_def sizeof_Pair_def MAX_KEY_SIZE_def MAX_VAL_SIZE_def)

lemma pair_create_arena:
  assumes "arena_inv8 a" "factory_wf f" "pair_create arena_ops now f a = (r, a')"
  shows "arena_grew (7 + factory_bytes f) a a'" "r = Some p \<Longrightarrow> fresh_in a a' (fst p)"
    "unat (arena_pos a) + 7 + factory_bytes f \<le> unat (arena_size a) \<Longrightarrow> r \<noteq> None"
proof -
  let ?n = "size_t (factory_bytes f)"
  obtain x where x: "arena_xallocate a ?n = (x, a')" "map_option fst r = x"
    using assms(3) factory_wf_valid [OF assms(2)]
    by (auto simp: pair_create_def arena_ops_def split: prod.splits option.splits)
  have n: "unat ?n = factory_bytes f"
    using factory_bytes_le [OF assms(2)] by (simp add: size_t_def unat_of_nat maxBytes_value)
  have rq: "arena_request ?n" "0 < unat ?n"
    using factory_bytes_le [OF assms(2)] by (simp_all add: arena_request_def n maxBytes_value)
  note st = arena_step [OF assms(1) rq x(1)]
  show "arena_grew (7 + factory_bytes f) a a'"
    using st(1) n by simp
  show "fresh_in a a' (fst p)" if "r = Some p" using st(2) x(2) that by auto
  show "r \<noteq> None" if "unat (arena_pos a) + 7 + factory_bytes f \<le> unat (arena_size a)"
    using st(3) x(2) that n by auto
qed

lemma updatePair_arena:
  assumes "arena_inv8 a" "factory_wf f" "updatePair arena_ops now f old lc a = (r, new, lc', a')"
  shows "arena_grew (7 + factory_bytes f) a a'"
    "ir_pair r = Some p \<Longrightarrow> ir_status r \<noteq> UPDATED_IN_PLACE \<Longrightarrow> fresh_in a a' (fst p)"
    "unat (arena_pos a) + 7 + factory_bytes f \<le> unat (arena_size a) \<Longrightarrow> ir_ok r"
proof -
  obtain c a1 where c: "pair_create arena_ops now f a = (c, a1)" by fastforce
  note pc = pair_create_arena [OF assms(1,2) c]
  have x: "xdeallocate arena_ops a1 q = a1" for q by (simp add: arena_ops_def)
  show "arena_grew (7 + factory_bytes f) a a'"
    "ir_pair r = Some p \<Longrightarrow> ir_status r \<noteq> UPDATED_IN_PLACE \<Longrightarrow> fresh_in a a' (fst p)"
    "unat (arena_pos a) + 7 + factory_bytes f \<le> unat (arena_size a) \<Longrightarrow> ir_ok r"
    using assms(3) c x pc arena_grew_refl [OF assms(1)]
    by (auto simp: updatePair_def result_defs split: if_splits option.splits)
qed

section \<open>The addresses of the pairs\<close>

definition arena_addrs :: "ArenaAllocator \<Rightarrow> pptr list \<Rightarrow> bool" where
  "arena_addrs a v \<longleftrightarrow>
     arena_inv8 a \<and> inj_on fst (set v) \<and>
     (\<forall>p \<in> set v. unat (fst p) < unat (arena_data a) + unat (arena_pos a))"

lemma lookup_mem: "distinct (map pkey v) \<Longrightarrow> p \<in> set v \<longleftrightarrow> lookup v (pkey p) = Some p"
  using lookup_in lookup_Some_in by blast

lemma arena_addrs_insert:
  assumes spec: "insert_spec now f v r v'" and d: "distinct (map pkey v)" "distinct (map pkey v')"
    and a: "arena_addrs a v" and g: "arena_grew n a a'"
    and new: "\<And>p. ir_pair r = Some p \<Longrightarrow> ir_status r \<noteq> UPDATED_IN_PLACE \<Longrightarrow> fresh_in a a' (fst p)"
  shows "arena_addrs a' v'"
proof -
  have origin: "(\<exists>q \<in> set v. pkey q = pkey p \<and> fst q = fst p) \<or> fresh_in a a' (fst p) \<and> ir_pair r = Some p"
    if p: "p \<in> set v'" for p
  proof (cases "pkey p = factory_getKey f")
    case False
    then have "lookup v (pkey p) = Some p" using spec p lookup_mem [OF d(2)] by (simp add: insert_spec_def)
    then show ?thesis using lookup_Some_in by blast
  next
    case True
    show ?thesis
    proof (cases "ir_pair r")
      case None
      then have "lookup v (pkey p) = Some p" using spec p True lookup_mem [OF d(2)] by (simp add: insert_spec_def)
      then show ?thesis using lookup_Some_in by blast
    next
      case (Some p')
      then have "p = p'" using spec p True lookup_mem [OF d(2)] by (simp add: insert_spec_def)
      moreover have "pair_from now f (lookup v (factory_getKey f)) (ir_status r = UPDATED_IN_PLACE) p'"
        using spec Some by (simp add: insert_spec_def)
      ultimately show ?thesis using Some new True
        by (cases "ir_status r = UPDATED_IN_PLACE") (auto simp: pair_from_def dest!: lookup_Some_in)
    qed
  qed
  have old: "unat (fst q) < unat (arena_data a) + unat (arena_pos a)" if "q \<in> set v" for q
    using a that by (simp add: arena_addrs_def)
  have nf: "\<not> fresh_in a a' (fst q)" if "q \<in> set v" for q using old [OF that] by (simp add: fresh_in_def)
  have inj: "inj_on fst (set v)" using a by (simp add: arena_addrs_def)
  have "p1 = p2" if p: "p1 \<in> set v'" "p2 \<in> set v'" "fst p1 = fst p2" for p1 p2
  proof -
    have "pkey p1 = pkey p2 \<or> p1 = p2"
      using origin [OF p(1)] origin [OF p(2)] p(3) nf inj by (metis inj_onD option.inject)
    then show ?thesis using p(1,2) lookup_mem [OF d(2)] by (metis option.inject)
  qed
  moreover have "unat (fst p) < unat (arena_data a') + unat (arena_pos a')" if "p \<in> set v'" for p
  proof -
    have "unat (arena_data a') = unat (arena_data a)" "unat (arena_pos a) \<le> unat (arena_pos a')"
      using g by (simp_all add: arena_grew_def)
    then show ?thesis using origin [OF that] old by (fastforce simp: fresh_in_def)
  qed
  ultimately show ?thesis using g by (auto simp: arena_addrs_def arena_grew_def inj_on_def)
qed

lemma arena_addrs_subset: "arena_addrs a v \<Longrightarrow> set v' \<subseteq> set v \<Longrightarrow> arena_addrs a v'"
  by (auto simp: arena_addrs_def inj_on_def)


section \<open>The skip list in an arena\<close>

definition sk_arena_inv :: "ArenaAllocator SkipList \<Rightarrow> bool" where
  "sk_arena_inv l \<longleftrightarrow> sk_inv l \<and> arena_addrs (sk_allocator l) (sk_list l)"

text \<open>Memory for \<open>n\<close> more writes of any size: a pair, a node and their alignment each.\<close>

definition sk_write_max :: nat where
  "sk_write_max = maxBytes + 542"

definition sk_arena_room :: "nat \<Rightarrow> ArenaAllocator SkipList \<Rightarrow> bool" where
  "sk_arena_room n l \<longleftrightarrow>
     unat (arena_pos (sk_allocator l)) + n * sk_write_max \<le> unat (arena_size (sk_allocator l))"

lemma sk_distinct: "sk_inv l \<Longrightarrow> distinct (map pkey (sk_list l))"
  using sk.list_sorted [of l] hord.sorted_keys_distinct by simp

lemma sk_arena_inv_empty: "arena_inv8 a \<Longrightarrow> sk_arena_inv (sk_empty a)"
  using sk_inv_empty [of a] by (simp add: sk_arena_inv_def arena_addrs_def) (simp add: sk_empty_def)

lemma sizeof_SkNode_arena:
  "1 \<le> h \<Longrightarrow> h \<le> MAX_HEIGHT \<Longrightarrow> arena_request (sizeof_SkNode h) \<and> 0 < unat (sizeof_SkNode h) \<and> unat (sizeof_SkNode h) \<le> 528"
proof -
  assume h: "1 \<le> h" "h \<le> MAX_HEIGHT"
  then have "unat (sizeof_SkNode h) = 24 + (h - 1) * 8"
    unfolding sizeof_SkNode_def unat_of_nat by (intro mod_less) (simp add: MAX_HEIGHT_def)
  moreover have "h - 1 \<le> 63" using h by (simp add: MAX_HEIGHT_def)
  ultimately show ?thesis by (simp add: arena_request_def)
qed

lemma sk_insertF_arena:
  assumes a: "arena_inv8 (sk_allocator l)" and f: "factory_wf f"
    and s: "sk_insertF arena_ops R now f l = Some (r, l')"
  shows "arena_grew (factory_bytes f + 542) (sk_allocator l) (sk_allocator l')"
    "ir_pair r = Some p \<Longrightarrow> ir_status r \<noteq> UPDATED_IN_PLACE \<Longrightarrow> fresh_in (sk_allocator l) (sk_allocator l') (fst p)"
    "unat (arena_pos (sk_allocator l)) + factory_bytes f + 542 \<le> unat (arena_size (sk_allocator l)) \<Longrightarrow> ir_ok r"
    "ir_status r \<noteq> ERROR"
proof -
  let ?a = "sk_allocator l" and ?st = "sk_store l"
  let ?room = "unat (arena_pos ?a) + factory_bytes f + 542 \<le> unat (arena_size ?a)"
  have v: "factory_valid f" using f by (rule factory_wf_valid)
  obtain prev found where loc: "sk_locate True (factory_getKey f) ?st = Some (prev, found)"
    using s v by (auto simp: sk_insertF_def Let_def Option.bind_eq_Some_conv)
  have "arena_grew (factory_bytes f + 542) ?a (sk_allocator l') \<and>
      (ir_pair r = Some p \<longrightarrow> ir_status r \<noteq> UPDATED_IN_PLACE \<longrightarrow> fresh_in ?a (sk_allocator l') (fst p)) \<and>
      (?room \<longrightarrow> ir_ok r) \<and> ir_status r \<noteq> ERROR"
  proof (cases found)
    case (Some x)
    obtain node where node: "sk_nodes ?st x = Some node"
      using s v loc Some by (auto simp: sk_insertF_def Let_def Option.bind_eq_Some_conv)
    obtain data lc alloc where u: "updatePair arena_ops now f (sk_data node) (sk_lc l) ?a = (r, data, lc, alloc)"
      and l': "sk_allocator l' = alloc"
      using s v loc Some node by (auto simp: sk_insertF_def Let_def split: prod.splits)
    note up = updatePair_arena [OF a f u]
    have "ir_status r \<noteq> ERROR" using u by (auto simp: updatePair_def result_defs split: if_splits option.splits prod.splits)
    then show ?thesis using up(1) arena_grew_mono [OF up(1), of "factory_bytes f + 542"] up(2,3) by (auto simp: l')
  next
    case None
    obtain c a1 where c: "pair_create arena_ops now f ?a = (c, a1)" by fastforce
    note pc = pair_create_arena [OF a f c]
    have i1: "arena_inv8 a1" using pc(1) by (simp add: arena_grew_def)
    show ?thesis
    proof (cases c)
      case None2: None
      then have "r = errorNoMemory" "sk_allocator l' = a1" using s v loc None c by (auto simp: sk_insertF_def Let_def)
      then show ?thesis using arena_grew_mono [OF pc(1), of "factory_bytes f + 542"] pc(3) None2
        by (auto simp: errorNoMemory_def)
    next
      case (Some d)
      let ?h = "getRandomHeight R (sk_draws l)"
      note h = sizeof_SkNode_arena [OF getRandomHeight_range, of R "sk_draws l"]
      obtain x a2 where x: "arena_xallocate a1 (sizeof_SkNode ?h) = (x, a2)" by fastforce
      note st = arena_step [OF i1 _ _ x]
      have g: "arena_grew (factory_bytes f + 542) ?a a2"
        by (rule arena_grew_mono [OF arena_grew_trans [OF pc(1) st(1)]]) (use h in auto)
      have x': "xallocate arena_ops a1 (sizeof_SkNode ?h) = (x, a2)" "\<And>q. xdeallocate arena_ops a2 q = a2"
        using x by (simp_all add: arena_ops_def)
      have al: "sk_allocator l' = a2" "x = None \<longrightarrow> r = errorNoMemory" "x \<noteq> None \<longrightarrow> r = inserted d"
        using s v loc None c Some x' by (auto simp: sk_insertF_def Let_def Option.bind_eq_Some_conv split: option.splits)
      have fr: "fresh_in ?a a2 (fst d)" using fresh_in_grew [OF pc(2) [OF Some] st(1)] h by simp
      have "x \<noteq> None" if ?room
        using st(3) h that pc(1) by (auto simp: arena_grew_def)
      then show ?thesis using g al fr by (cases x) (auto simp: inserted_def errorNoMemory_def)
    qed
  qed
  then show "arena_grew (factory_bytes f + 542) (sk_allocator l) (sk_allocator l')"
    "ir_pair r = Some p \<Longrightarrow> ir_status r \<noteq> UPDATED_IN_PLACE \<Longrightarrow> fresh_in (sk_allocator l) (sk_allocator l') (fst p)"
    "unat (arena_pos (sk_allocator l)) + factory_bytes f + 542 \<le> unat (arena_size (sk_allocator l)) \<Longrightarrow> ir_ok r"
    "ir_status r \<noteq> ERROR" by blast+
qed


lemma sk_arena_insert:
  assumes "sk_arena_inv l" "factory_wf f" "nul_free (factory_getKey f)"
    and "l_insertF (sk_ops arena_ops R) now f l = (r, l')"
  shows "sk_arena_inv l' \<and> insert_spec now f (sk_list l) r (sk_list l')"
    "sk_arena_room (Suc n) l \<Longrightarrow> ir_ok r \<and> sk_arena_room n l'"
    "unat (arena_pos (sk_allocator l)) + factory_bytes f + 542 \<le> unat (arena_size (sk_allocator l)) \<Longrightarrow> ir_ok r"
    "ir_status r \<noteq> ERROR" "arena_size (sk_allocator l') = arena_size (sk_allocator l)"
proof -
  have i: "sk_inv l" "arena_addrs (sk_allocator l) (sk_list l)" using assms(1) by (simp_all add: sk_arena_inv_def)
  have a: "arena_inv8 (sk_allocator l)" using i(2) by (simp add: arena_addrs_def)
  have s: "sk_insertF arena_ops R now f l = Some (r, l')" "sk_inv l'" "insert_spec now f (sk_list l) r (sk_list l')"
    using sk_insertF_law [OF i(1) assms(2,3), of arena_ops R now] assms(4) by auto
  note al = sk_insertF_arena [OF a assms(2) s(1)]
  have "arena_addrs (sk_allocator l') (sk_list l')"
    by (rule arena_addrs_insert [OF s(3) sk_distinct [OF i(1)] sk_distinct [OF s(2)] i(2) al(1)]) (rule al(2))
  then show "sk_arena_inv l' \<and> insert_spec now f (sk_list l) r (sk_list l')" using s by (simp add: sk_arena_inv_def)
  show "ir_ok r \<and> sk_arena_room n l'" if "sk_arena_room (Suc n) l"
    using al(1,3) that factory_bytes_le [OF assms(2)] by (simp add: sk_arena_room_def arena_grew_def sk_write_max_def)
  show "ir_ok r" if "unat (arena_pos (sk_allocator l)) + factory_bytes f + 542 \<le> unat (arena_size (sk_allocator l))"
    using al(3) that .
  show "ir_status r \<noteq> ERROR" "arena_size (sk_allocator l') = arena_size (sk_allocator l)"
    using al(1,4) by (simp_all add: arena_grew_def)
qed

lemma sk_arena_erase:
  assumes "sk_arena_inv l" "k \<noteq> []" "nul_free k" "l_erase (sk_ops arena_ops R) now k l = (r, l')"
  shows "sk_arena_inv l' \<and> erase_spec k (sk_list l) r (sk_list l')" "sk_allocator l' = sk_allocator l"
proof -
  have i: "sk_inv l" "arena_addrs (sk_allocator l) (sk_list l)" using assms(1) by (simp_all add: sk_arena_inv_def)
  have s: "sk_erase arena_ops now k l = Some (r, l')" "sk_inv l'" "erase_spec k (sk_list l) r (sk_list l')"
    using sk_erase_law [OF i(1) assms(2,3), of arena_ops now] assms(4) by auto
  show al: "sk_allocator l' = sk_allocator l"
    using s(1) by (auto simp: sk_erase_def sk_deallocate_def arena_ops_def Let_def Option.bind_eq_Some_conv split: option.splits)
  have "set (sk_list l') \<subseteq> set (sk_list l)"
    using s(3) lookup_mem [OF sk_distinct [OF s(2)]] lookup_mem [OF sk_distinct [OF i(1)]]
    by (auto simp: erase_spec_def split: if_splits)
  then show "sk_arena_inv l' \<and> erase_spec k (sk_list l) r (sk_list l')"
    using s arena_addrs_subset [OF i(2)] al by (simp add: sk_arena_inv_def)
qed

text \<open>The write through a pointer: the node with that pair changes, and no other, as no two pairs share an address.\<close>

lemma sk_proceed_fields:
  "sk_allocator (proceedInsertHint (sk_ops A R) now p f l) = sk_allocator l"
  by (simp add: proceedInsertHint_def sk_ops_def sk_mutable_notify_def Let_def)

lemma sk_store_law:
  fixes now :: u64 and R :: sk_random
  assumes inv: "sk_arena_inv l" and lk: "lookup (sk_list l) (factory_getKey f) = Some p"
    and f: "factory_wf f" "nul_free (factory_getKey f)" "factory_bytes f \<le> bytes (snd p)"
  defines "l' \<equiv> proceedInsertHint (sk_ops arena_ops R) now p f l"
  shows "sk_arena_inv l' \<and>
    (\<forall>k. lookup (sk_list l') k = (if k = factory_getKey f then Some (fst p, factory_createHint now f (snd p)) else lookup (sk_list l) k))"
proof -
  let ?st = "sk_store l" and ?key = "factory_getKey f"
  define p' where "p' = (fst p, factory_createHint now f (snd p))"
  define upd where "upd = (\<lambda>n :: SkNode. if fst (sk_data n) = fst p then n\<lparr>sk_data := p'\<rparr> else n)"
  define st' where "st' = ?st\<lparr>sk_nodes := map_option upd \<circ> sk_nodes ?st\<rparr>"
  have l': "l' = l\<lparr>sk_store := st', sk_lc := lc_upd (size_t (bytes (snd p))) (size_t (bytes (snd p'))) (sk_lc l)\<rparr>"
    unfolding l'_def proceedInsertHint_def Let_def st'_def upd_def p'_def by (simp add: sk_ops_def sk_mutable_notify_def)
  obtain as where ok: "store_ok ?st as" and good: "list_good hkey_ord nul_free (map (sk_pair ?st) as) (sk_lc l)"
    using inv by (auto simp: sk_arena_inv_def sk_inv_def)
  let ?v = "map (sk_pair ?st) as"
  have v: "sk_list l = ?v" using sk_begin_ok [OF ok] by simp
  have inj: "inj_on fst (set ?v)" using inv v by (simp add: sk_arena_inv_def arena_addrs_def)
  obtain w1 w2 where w: "?v = w1 @ p # w2" using lookup_Some_in [OF lk] v by (metis split_list)
  have "distinct (map pkey ?v)" using sk_distinct [of l] inv unfolding v sk_arena_inv_def by blast
  then have d: "distinct ?v" by (metis distinct_map)
  have pk: "pkey p = ?key" using lookup_Some_in [OF lk] by simp
  have wf: "pair_wf (snd p)" using good w by (simp add: list_good_def pairs_ok_def)
  note ch = factory_createHint_spec [OF f(1) wf _ f(3), of now]
  have pk': "pkey p' = ?key" "pair_wf (snd p')" using ch pk by (simp_all add: p'_def pkey_def)
  have pr: "sk_pair st' a = (if fst (sk_pair ?st a) = fst p then p' else sk_pair ?st a)" if a: "a \<in> set as" for a
  proof -
    obtain n where "sk_nodes ?st a = Some n" using sk_node_at [OF ok a] by blast
    then show ?thesis by (simp add: st'_def sk_pair_def upd_def)
  qed
  have nx: "sk_next (upd n) = sk_next n" for n by (simp add: upd_def)
  have ld: "sk_load st' jt h = sk_load ?st jt h" for jt h
  proof (cases jt)
    case (Some a)
    then show ?thesis by (cases "sk_nodes ?st a") (simp_all add: st'_def sk_load_def nx)
  qed (simp add: st'_def sk_load_def)
  have ht: "sk_height st' = sk_height ?st" by (auto simp: st'_def sk_height_def fun_eq_iff nx split: option.split)
  have "node_ok st' b" if b: "b \<in> set as" for b
  proof -
    obtain n where n: "sk_nodes ?st b = Some n" "sk_data n = sk_pair ?st b" using sk_node_at [OF ok b] by blast
    have "fst (sk_data n) = fst p \<longrightarrow> sk_data n = p"
      using inj_onD [OF inj, of "sk_data n" p] n(2) b w by (metis in_set_conv_decomp image_eqI list.set_map)
    moreover have "node_ok ?st b" using ok b by (simp add: store_ok_def list_all_iff)
    ultimately show ?thesis using n(1) pk pk'(1) f(2) nx by (auto simp: node_ok_def st'_def upd_def)
  qed
  moreover have "linked st' h None (lane st' h as)" if "h < MAX_HEIGHT" for h
    using ok that linked_cong [of None "lane ?st h as" st' h ?st] ld ht by (simp add: store_ok_def lane_def)
  ultimately have ok': "store_ok st' as" using ok by (simp add: store_ok_def list_all_iff) (simp add: st'_def)
  have "map (sk_pair st') as = map (\<lambda>q. if fst q = fst p then p' else q) ?v" using pr by simp
  also have "\<dots> = w1 @ p' # w2"
  proof -
    have "fst q \<noteq> fst p" if "q \<in> set w1 \<union> set w2" for q
      using inj_onD [OF inj, of q p] that d w by auto
    then show ?thesis unfolding w by (simp add: map_idI)
  qed
  finally have v': "map (sk_pair st') as = w1 @ p' # w2" .
  have kk: "pkey p' = pkey p" using pk pk' by simp
  have s: "sorted_keys hkey_ord (w1 @ p # w2)" using good w by (simp add: list_good_def)
  note rep = hord.sorted_keys_replace [OF s kk]
  have "list_good hkey_ord nul_free (w1 @ p' # w2) (sk_lc l')"
    using good rep(1) pk' f(2) pk unfolding w l'
    by (simp add: list_good_def pairs_ok_def lc_of_update [of w1 p' w2 p] factory_wf_key [OF f(1)])
  then have i': "sk_inv l'" unfolding sk_inv_def using ok' v' by (intro exI [of _ as]) (simp add: l')
  have lv: "sk_list l' = w1 @ p' # w2" using sk_begin_ok [OF ok'] v' by (simp add: l')
  have "arena_addrs (sk_allocator l') (sk_list l')"
  proof -
    have ad: "arena_addrs (sk_allocator l) (w1 @ p # w2)" using inv v w by (simp add: sk_arena_inv_def)
    have "map fst (w1 @ p' # w2) = map fst (w1 @ p # w2)" by (simp add: p'_def)
    moreover have "distinct (map fst (w1 @ p # w2))" using inj d unfolding w by (simp only: distinct_map)
    ultimately have "inj_on fst (set (w1 @ p' # w2))" by (metis distinct_map)
    moreover have "sk_allocator l' = sk_allocator l" by (simp add: l')
    ultimately show ?thesis using ad unfolding lv by (simp add: arena_addrs_def p'_def)
  qed
  then show ?thesis using i' rep(2) lv v w pk by (auto simp: sk_arena_inv_def p'_def)
qed


interpretation ska: hint_list "sk_ops arena_ops R" sk_arena_inv nul_free hkey_ord sk_arena_room for R
proof unfold_locales
  fix l :: "ArenaAllocator SkipList" assume i: "sk_arena_inv l"
  then have inv: "sk_inv l" by (simp add: sk_arena_inv_def)
  show "sorted_keys hkey_ord (l_list (sk_ops arena_ops R) l)" "pairs_ok nul_free (l_list (sk_ops arena_ops R) l)"
    "lc_of (l_list (sk_ops arena_ops R) l) = \<lparr>lc_count = l_size (sk_ops arena_ops R) l, lc_bytes = l_bytes (sk_ops arena_ops R) l\<rparr>"
    by (rule sk.list_sorted [OF inv] sk.list_ok [OF inv] sk.list_counters [OF inv])+
  have "arena_inv8 (sk_allocator l)" using i by (simp add: sk_arena_inv_def arena_addrs_def)
  then have "arena_addrs ((sk_allocator l)\<lparr>arena_pos := 0\<rparr>) []"
    by (simp add: arena_addrs_def arena_inv8_def arena_inv_def)
  moreover have "sk_allocator (the (sk_clear arena_ops l)) = (sk_allocator l)\<lparr>arena_pos := 0\<rparr>"
    by (simp add: sk_clear_def arena_ops_def arena_reset_def sk_zeroing_def)
  ultimately show "sk_arena_inv (l_clear (sk_ops arena_ops R) l) \<and> l_list (sk_ops arena_ops R) (l_clear (sk_ops arena_ops R) l) = []"
    using sk.clear_law [OF inv, of arena_ops R] by (simp add: sk_arena_inv_def)
  fix k :: str and now
  {
    assume k: "k \<noteq> []" "nul_free k"
    show "l_getPair (sk_ops arena_ops R) l k = lookup (l_list (sk_ops arena_ops R) l) k"
      "l_find (sk_ops arena_ops R) l k = dropWhile (\<lambda>p. hkey_ord (pkey p) < hkey_ord k) (l_list (sk_ops arena_ops R) l)"
      by (rule sk.getPair_lookup [OF inv k] sk.find_dropWhile [OF inv k])+
    show "sk_arena_inv l' \<and> erase_spec k (l_list (sk_ops arena_ops R) l) r (l_list (sk_ops arena_ops R) l')"
      if "l_erase (sk_ops arena_ops R) now k l = (r, l')" for r l'
      using sk_arena_erase(1) [OF i k that] by simp
    show "sk_arena_room n (snd (l_erase (sk_ops arena_ops R) now k l))" if "sk_arena_room (Suc n) l" for n
      using sk_arena_erase(2) [OF i k, of R now] that
      by (cases "the (sk_erase arena_ops now k l)") (simp add: sk_arena_room_def)
  }
  fix f
  show "l_insertF (sk_ops arena_ops R) now f l = (errorInvalid, l)" if "\<not> factory_valid f"
    using sk.insert_invalid [OF inv that] .
  show "sk_arena_room n (proceedInsertHint (sk_ops arena_ops R) now p f l)" if "sk_arena_room (Suc n) l" for n p
    using that by (simp add: sk_arena_room_def sk_proceed_fields)
  assume f: "factory_wf f" "nul_free (factory_getKey f)"
  show "sk_arena_inv l' \<and> insert_spec now f (l_list (sk_ops arena_ops R) l) r (l_list (sk_ops arena_ops R) l')"
    if "l_insertF (sk_ops arena_ops R) now f l = (r, l')" for r l'
    using sk_arena_insert(1) [OF i f that] by simp
  show "ir_ok r \<and> sk_arena_room n l'"
    if "sk_arena_room (Suc n) l" "l_insertF (sk_ops arena_ops R) now f l = (r, l')" for n r l'
    using sk_arena_insert(2) [OF i f that(2,1)] .
  show "sk_arena_inv (proceedInsertHint (sk_ops arena_ops R) now p f l) \<and>
      (\<forall>k. lookup (l_list (sk_ops arena_ops R) (proceedInsertHint (sk_ops arena_ops R) now p f l)) k =
        (if k = factory_getKey f then Some (fst p, factory_createHint now f (snd p))
         else lookup (l_list (sk_ops arena_ops R) l) k))"
    if "lookup (l_list (sk_ops arena_ops R) l) (factory_getKey f) = Some p" "factory_bytes f \<le> bytes (snd p)" for p
    using sk_store_law [OF i, of f p R now] f that by simp
qed (rule hord.ord_inject)

end
