(* ===== verification/FileWriter.thy ===== *)
theory FileWriter
  imports Prelude
begin

text \<open>
  \<^verbatim>\<open>include/filewriter.h\<close>: the buffered writer \<open>FileWriterFD\<close> that the file builders and the
  binary log use.  The state keeps the bytes that \<open>::write\<close> has put into the file; the system call
  writes what it is given.  A null buffer is \<open>None\<close>.  The copy loop is a partial function, so that
  not returning is the value \<open>None\<close>, and the writer is shown to return and to append.
\<close>

section \<open>The code\<close>

record FileWriterFD =
  fw_open :: bool
  fw_pos :: nat
  fw_buffer :: "str option"
  fw_file :: str

definition mkFileWriterFD :: "bool \<Rightarrow> str option \<Rightarrow> FileWriterFD" where
  "mkFileWriterFD opened buffer = \<lparr>fw_open = opened, fw_pos = 0, fw_buffer = buffer, fw_file = []\<rparr>"

definition sys_write :: "str \<Rightarrow> FileWriterFD \<Rightarrow> FileWriterFD" where
  "sys_write data fw = fw\<lparr>fw_file := fw_file fw @ data\<rparr>"

definition fw_flush :: "FileWriterFD \<Rightarrow> FileWriterFD" where
  "fw_flush fw =
     (if fw_pos fw > 0
      then (sys_write (take (fw_pos fw) (the (fw_buffer fw))) fw)\<lparr>fw_pos := 0\<rparr>
      else fw)"

text \<open>The loop of \<open>write\<close>: what is left of the data, and the writer.\<close>

partial_function (option) fw_write_loop :: "str \<Rightarrow> FileWriterFD \<Rightarrow> FileWriterFD option" where
  "fw_write_loop p fw =
     (if length p > 0 then
        (let b = the (fw_buffer fw); space = length b - fw_pos fw in
         if space = 0 then fw_write_loop p (fw_flush fw)
         else
           (let toCopy = min space (length p) in
            fw_write_loop (drop toCopy p)
              (fw\<lparr>fw_buffer := Some (write_at (fw_pos fw) (take toCopy p) b),
                  fw_pos := fw_pos fw + toCopy\<rparr>)))
      else Some fw)"

definition fw_write :: "str \<Rightarrow> FileWriterFD \<Rightarrow> FileWriterFD option" where
  "fw_write data fw =
     (if \<not> fw_open fw then Some fw
      else case fw_buffer fw of
        None \<Rightarrow> Some (sys_write data fw)
      | Some b \<Rightarrow>
          if length data > length b then Some (sys_write data (fw_flush fw))
          else fw_write_loop data fw)"

definition fw_put :: "byte \<Rightarrow> FileWriterFD \<Rightarrow> FileWriterFD option" where
  "fw_put c fw = fw_write [c] fw"

definition fw_close :: "FileWriterFD \<Rightarrow> FileWriterFD" where
  "fw_close fw = (if \<not> fw_open fw then fw else (fw_flush fw)\<lparr>fw_open := False\<rparr>)"

text \<open>The move constructor: the new writer and what is left of the old one.\<close>

definition fw_move :: "FileWriterFD \<Rightarrow> FileWriterFD \<times> FileWriterFD" where
  "fw_move other = (other, other\<lparr>fw_open := False, fw_pos := 0\<rparr>)"

text \<open>A run of writes.\<close>

fun fw_writes :: "str list \<Rightarrow> FileWriterFD \<Rightarrow> FileWriterFD option" where
  "fw_writes [] fw = Some fw"
| "fw_writes (d # ds) fw = (case fw_write d fw of None \<Rightarrow> None | Some fw' \<Rightarrow> fw_writes ds fw')"

section \<open>The writer appends\<close>

definition fw_wf :: "FileWriterFD \<Rightarrow> bool" where
  "fw_wf fw \<longleftrightarrow> (case fw_buffer fw of None \<Rightarrow> fw_pos fw = 0 | Some b \<Rightarrow> fw_pos fw \<le> length b)"

text \<open>What has been accepted: the file, and the pending bytes of the buffer.\<close>

definition fw_content :: "FileWriterFD \<Rightarrow> str" where
  "fw_content fw =
     fw_file fw @ (case fw_buffer fw of None \<Rightarrow> [] | Some b \<Rightarrow> take (fw_pos fw) b)"

definition fw_capacity :: "FileWriterFD \<Rightarrow> nat option" where
  "fw_capacity fw = map_option length (fw_buffer fw)"

lemma fw_flush_spec:
  assumes "fw_wf fw"
  shows "fw_wf (fw_flush fw)" "fw_content (fw_flush fw) = fw_content fw"
    "fw_file (fw_flush fw) = fw_content fw" "fw_pos (fw_flush fw) = 0"
    "fw_buffer (fw_flush fw) = fw_buffer fw" "fw_open (fw_flush fw) = fw_open fw"
  using assms
  by (cases "fw_buffer fw"; simp add: fw_flush_def fw_wf_def fw_content_def sys_write_def)+

definition fw_extends :: "FileWriterFD \<Rightarrow> str \<Rightarrow> FileWriterFD \<Rightarrow> bool" where
  "fw_extends fw data fw' \<longleftrightarrow>
     fw_wf fw' \<and> fw_content fw' = fw_content fw @ data \<and> fw_open fw' = fw_open fw \<and>
     fw_capacity fw' = fw_capacity fw"

lemma fw_write_loop_extends:
  "\<lbrakk>fw_wf fw; fw_buffer fw = Some b; b \<noteq> []\<rbrakk> \<Longrightarrow>
     \<exists>fw'. fw_write_loop p fw = Some fw' \<and> fw_extends fw p fw'"
proof (induction "(length p, fw_pos fw)" arbitrary: p fw b
    rule: wf_induct_rule [OF wf_lex_prod [OF wf_less wf_less]])
  case 1
  note IH = 1(1) and wf = 1(2) and b = 1(3,4)
  let ?space = "length b - fw_pos fw"
  consider "p = []" | "p \<noteq> []" "?space = 0" | "p \<noteq> []" "?space > 0" by blast
  then show ?case
  proof cases
    case 1
    then show ?thesis using wf by (simp add: fw_write_loop.simps fw_extends_def)
  next
    case 2
    have "0 < length b" using b by simp
    then have "fw_pos fw > 0" using 2 by linarith
    then have "\<exists>fw'. fw_write_loop p (fw_flush fw) = Some fw' \<and> fw_extends (fw_flush fw) p fw'"
      using b fw_flush_spec [OF wf] by (intro IH [of p "fw_flush fw" b]) simp_all
    then show ?thesis using 2 b fw_flush_spec [OF wf]
      by (subst fw_write_loop.simps) (simp add: Let_def fw_extends_def fw_capacity_def)
  next
    case 3
    let ?n = "min ?space (length p)"
    let ?fw = "fw\<lparr>fw_buffer := Some (write_at (fw_pos fw) (take ?n p) b), fw_pos := fw_pos fw + ?n\<rparr>"
    have pos: "fw_pos fw \<le> length b" using wf b by (simp add: fw_wf_def)
    have wf': "fw_wf ?fw" using pos b by (simp add: fw_wf_def)
    have len: "length (drop ?n p) < length p" using 3 by simp
    have ne: "write_at (fw_pos fw) (take ?n p) b \<noteq> []"
      using length_write_at [of "fw_pos fw" "take ?n p" b] pos b by fastforce
    have c: "fw_content ?fw = fw_content fw @ take ?n p" using pos b
      by (simp add: fw_content_def write_at_inside min_def)
    have "\<exists>fw'. fw_write_loop (drop ?n p) ?fw = Some fw' \<and> fw_extends ?fw (drop ?n p) fw'"
      using len by (intro IH [OF _ wf' _ ne]) simp_all
    moreover have "fw_extends ?fw (drop ?n p) fw' \<Longrightarrow> fw_extends fw p fw'" for fw'
      using c pos b by (simp add: fw_extends_def fw_capacity_def)
    moreover have "fw_write_loop p fw = fw_write_loop (drop ?n p) ?fw"
      using 3 b by (subst fw_write_loop.simps) (simp add: Let_def)
    ultimately show ?thesis by auto
  qed
qed

lemma fw_write_extends:
  assumes "fw_wf fw" "fw_open fw"
  obtains fw' where "fw_write data fw = Some fw'" "fw_extends fw data fw'"
proof (cases "fw_buffer fw")
  case None
  then show ?thesis using that assms
    by (simp add: fw_write_def sys_write_def fw_extends_def fw_wf_def fw_content_def fw_capacity_def)
next
  case b: (Some b)
  show ?thesis
  proof (cases "length data > length b")
    case True
    have "fw_extends fw data (sys_write data (fw_flush fw))"
      using fw_flush_spec [OF assms(1)] b
      by (simp add: fw_extends_def fw_wf_def fw_content_def sys_write_def fw_capacity_def)
    then show ?thesis using that assms b True by (simp add: fw_write_def)
  next
    case False
    show ?thesis
    proof (cases "data = []")
      case True
      then show ?thesis using that assms b
        by (simp add: fw_write_def fw_write_loop.simps fw_extends_def)
    next
      case ne: False
      then have "b \<noteq> []" using False by auto
      from fw_write_loop_extends [OF assms(1) b this, of data] obtain fw'
        where "fw_write_loop data fw = Some fw'" "fw_extends fw data fw'" by blast
      then show ?thesis using that assms b False by (simp add: fw_write_def)
    qed
  qed
qed

lemma fw_writes_extends:
  "\<lbrakk>fw_wf fw; fw_open fw\<rbrakk> \<Longrightarrow> \<exists>fw'. fw_writes ds fw = Some fw' \<and> fw_extends fw (concat ds) fw'"
proof (induction ds arbitrary: fw)
  case (Cons d ds)
  obtain fw1 where 1: "fw_write d fw = Some fw1" "fw_extends fw d fw1"
    using Cons.prems by (rule fw_write_extends)
  then have "fw_wf fw1" "fw_open fw1" using Cons.prems by (simp_all add: fw_extends_def)
  from Cons.IH [OF this] 1 show ?case by (auto simp: fw_extends_def)
qed (simp add: fw_extends_def)

lemma mkFileWriterFD_wf [simp]:
  "fw_wf (mkFileWriterFD opened buffer)" "fw_content (mkFileWriterFD opened buffer) = []"
  "fw_open (mkFileWriterFD opened buffer) = opened"
  by (simp_all add: mkFileWriterFD_def fw_wf_def fw_content_def split: option.split)

section \<open>What ends up in the file\<close>

lemma fw_write_closed: "\<not> fw_open fw \<Longrightarrow> fw_writes ds fw = Some fw"
  by (induction ds) (simp_all add: fw_write_def)

text \<open>
  The buffered writer is equivalent to plain appending: whatever the buffer (null, shorter than a
  record, of size zero or larger than everything), every run of writes returns and, after the close,
  the file holds the written records one after the other; if the file could not be opened, the writes
  have no effect.\<close>

lemma file_writer_appends:
  "map_option (\<lambda>fw. fw_file (fw_close fw)) (fw_writes ds (mkFileWriterFD opened buffer)) =
     Some (if opened then concat ds else [])"
proof (cases opened)
  case True
  then obtain fw' where "fw_writes ds (mkFileWriterFD opened buffer) = Some fw'"
    and e: "fw_extends (mkFileWriterFD opened buffer) (concat ds) fw'"
    using fw_writes_extends [of "mkFileWriterFD opened buffer" ds] by auto
  moreover have "fw_file (fw_close fw') = concat ds"
    using e True fw_flush_spec [of fw'] by (simp add: fw_close_def fw_extends_def)
  ultimately show ?thesis using True by simp
next
  case False
  then show ?thesis
    by (simp add: fw_write_closed fw_close_def) (simp add: mkFileWriterFD_def)
qed

end
