(* ===== verification/DiskFile.thy ===== *)
theory DiskFile
  imports FileWriter FileMeta HPair Allocator
begin

text \<open>
  The files of a disk table and the access to them: \<^verbatim>\<open>include/blobguard.h\<close>, the builders of
  \<^verbatim>\<open>hm4/disk/filebuilder.cc\<close> (data, index and hot line file), \<open>Pair::fwrite\<close> of \<^verbatim>\<open>hm4/pair.h\<close>, the
  accessors \<open>fd_impl_\<close> of \<^verbatim>\<open>hm4/disk/disklist.cc\<close> and the forward iterator of
  \<^verbatim>\<open>hm4/disk/disklist.iterator.cc.h\<close>.  A mapped file is its address and its bytes; reading a struct
  that does not lie in the mapping is \<open>Fault\<close>.
\<close>

section \<open>BlobGuard\<close>

record BlobGuard =
  bg_data :: u64
  bg_mem :: str

definition bg_size :: "BlobGuard \<Rightarrow> u64" where
  "bg_size g = of_nat (length (bg_mem g))"

definition bg_empty :: "BlobGuard \<Rightarrow> bool" where
  "bg_empty g \<longleftrightarrow> bg_data g = 0 \<or> bg_size g = 0"

definition safeAccessMemory :: "BlobGuard \<Rightarrow> u64 \<Rightarrow> u64 \<Rightarrow> u64 option" where
  "safeAccessMemory g offset sz =
     (if bg_empty g \<or> sz = 0 \<or> offset + sz > bg_size g then None else Some (bg_data g + offset))"

definition safeAccessMemory_ptr :: "BlobGuard \<Rightarrow> u64 \<Rightarrow> u64 \<Rightarrow> u64 option" where
  "safeAccessMemory_ptr g ptr sz =
     (if bg_empty g \<or> sz = 0 \<or> ptr < bg_data g \<or> ptr + sz > bg_data g + bg_size g then None
      else Some ptr)"

definition bg_sizeAs :: "u64 \<Rightarrow> BlobGuard \<Rightarrow> u64" where
  "bg_sizeAs sizeof_T g = bg_size g div sizeof_T"

definition bg_as :: "u64 \<Rightarrow> BlobGuard \<Rightarrow> u64 \<Rightarrow> u64 \<Rightarrow> u64 option" where
  "bg_as sizeof_T g offset elements = safeAccessMemory g offset (elements * sizeof_T)"

definition bg_as_ptr :: "u64 \<Rightarrow> BlobGuard \<Rightarrow> u64 \<Rightarrow> u64 \<Rightarrow> u64 option" where
  "bg_as_ptr sizeof_T g ptr elements = safeAccessMemory_ptr g ptr (elements * sizeof_T)"

definition bg_asArray :: "u64 \<Rightarrow> BlobGuard \<Rightarrow> u64 \<Rightarrow> u64 option \<times> u64" where
  "bg_asArray sizeof_T g offset =
     (let elements = bg_sizeAs sizeof_T g
      in (safeAccessMemory g offset (elements * sizeof_T), elements))"

text \<open>The bytes behind a pointer, and whether \<open>n\<close> of them belong to the mapping.\<close>

definition bg_readable :: "BlobGuard \<Rightarrow> u64 \<Rightarrow> nat \<Rightarrow> bool" where
  "bg_readable g ptr n \<longleftrightarrow> bg_data g \<le> ptr \<and> unat (ptr - bg_data g) + n \<le> length (bg_mem g)"

definition bg_bytes :: "BlobGuard \<Rightarrow> u64 \<Rightarrow> str" where
  "bg_bytes g ptr = drop (unat (ptr - bg_data g)) (bg_mem g)"

section \<open>A pair in a file\<close>

text \<open>The first \<open>bytes()\<close> bytes of the struct.\<close>

definition pair_image :: "Pair \<Rightarrow> str" where
  "pair_image p =
     store_le 8 (p_created p) @ store_le 4 (p_expires p) @ store_le 4 (p_vallen p) @
     store_le 2 (p_keylen p) @ take (bytes p - offset_buffer) (p_buffer p)"

text \<open>The struct that some bytes are; its buffer is everything that follows.\<close>

definition pair_read :: "str \<Rightarrow> Pair" where
  "pair_read s =
     \<lparr>p_created = load64 s, p_expires = load32 (drop 8 s), p_vallen = load32 (drop 12 s),
      p_keylen = load16 (drop 16 s), p_buffer = drop 18 s\<rparr>"

text \<open>A pair without what follows it in memory.\<close>

definition pair_trim :: "Pair \<Rightarrow> Pair" where
  "pair_trim p = p\<lparr>p_buffer := take (bytes p - offset_buffer) (p_buffer p)\<rparr>"

text \<open>\<open>Pair::fwrite\<close>: the writes it makes; the gap is written byte by byte.\<close>

definition pair_fwrite :: "bool \<Rightarrow> Pair \<Rightarrow> str list" where
  "pair_fwrite aligned p =
     pair_image p #
     (if aligned then replicate (unat (align_gap (of_nat (bytes p)) (of_nat ALIGN))) [0] else [])"

section \<open>The builders\<close>

definition writeU64 :: "u64 \<Rightarrow> str" where
  "writeU64 data = store_le 8 (htobe64 data)"

definition writeStr :: "u64 \<Rightarrow> str" where
  "writeStr data = store_le 8 data"

text \<open>Each builder hands its writes to a \<open>FileWriter\<close>; the index builder keeps the next offset.\<close>

definition dataBuilder :: "bool \<Rightarrow> Pair \<Rightarrow> str list" where
  "dataBuilder aligned pair = pair_fwrite aligned pair"

definition indxBuilder :: "bool \<Rightarrow> Pair \<Rightarrow> u64 \<Rightarrow> str list \<times> u64" where
  "indxBuilder aligned pair index =
     ([writeU64 index],
      if aligned then index + align_calc (of_nat (bytes pair)) (of_nat ALIGN)
      else index + of_nat (bytes pair))"

record FileLineBuilder =
  lb_pos :: u64
  lb_hkey :: u64

definition lineBuilder :: "Pair \<Rightarrow> FileLineBuilder \<Rightarrow> str list \<times> FileLineBuilder" where
  "lineBuilder pair b =
     (let hkey = SS_create_order BigEndian (getKey pair);
          (w, b) = (if lb_hkey b \<noteq> hkey
                    then ([writeStr hkey, writeU64 (lb_pos b)], b\<lparr>lb_hkey := hkey\<rparr>)
                    else ([], b))
      in (w, b\<lparr>lb_pos := lb_pos b + 1\<rparr>))"

record FileBuilder =
  fbd_meta :: FileMetaBuilder
  fbd_indx :: u64
  fbd_line :: FileLineBuilder

definition FileBuilder_init :: FileBuilder where
  "FileBuilder_init = \<lparr>fbd_meta = metaBuilder_init, fbd_indx = 0, fbd_line = \<lparr>lb_pos = 0, lb_hkey = 0\<rparr>\<rparr>"

text \<open>The writes to the index, line and data file that one \<open>push_back\<close> makes.\<close>

definition push_back :: "bool \<Rightarrow> Pair \<Rightarrow> FileBuilder \<Rightarrow> (str list \<times> str list \<times> str list) \<times> FileBuilder" where
  "push_back aligned pair b =
     (let b = b\<lparr>fbd_meta := metaBuilder_push pair (fbd_meta b)\<rparr>;
          (wi, i) = indxBuilder aligned pair (fbd_indx b);
          b = b\<lparr>fbd_indx := i\<rparr>;
          (wl, l) = lineBuilder pair (fbd_line b);
          b = b\<lparr>fbd_line := l\<rparr>;
          wd = dataBuilder aligned pair
      in ((wi, wl, wd), b))"

fun builder_run :: "bool \<Rightarrow> Pair list \<Rightarrow> FileBuilder \<Rightarrow> (str list \<times> str list \<times> str list) \<times> FileBuilder" where
  "builder_run aligned [] b = (([], [], []), b)"
| "builder_run aligned (p # ps) b =
     (let ((wi, wl, wd), b) = push_back aligned p b;
          ((wi', wl', wd'), b) = builder_run aligned ps b
      in ((wi @ wi', wl @ wl', wd @ wd'), b))"

text \<open>The table on disk: the file of each builder, after the destructors have run.\<close>

record DiskTable =
  dt_meta :: str
  dt_indx :: str
  dt_line :: str
  dt_data :: str

text \<open>\<open>FileBuilderImpl_::copy\<close>: with \<open>keep\<close> every pair, otherwise those that are OK.\<close>

definition FileBuilder_build :: "bool \<Rightarrow> u64 \<Rightarrow> u32 \<Rightarrow> bool \<Rightarrow> Pair list \<Rightarrow> DiskTable" where
  "FileBuilder_build keep now now32 aligned ps =
     (let ps = (if keep then ps else filter (isOK now) ps);
          ((wi, wl, wd), b) = builder_run aligned ps FileBuilder_init
      in \<lparr>dt_meta = blob_image (metaBuilder_blob now32 aligned (fbd_meta b)),
          dt_indx = concat wi, dt_line = concat wl, dt_data = concat wd\<rparr>)"

section \<open>fd_impl_\<close>

datatype access = Fault | Null | Ptr u64

definition pair_at :: "BlobGuard \<Rightarrow> u64 \<Rightarrow> Pair" where
  "pair_at g ptr = pair_read (bg_bytes g ptr)"

definition alignedSize :: "Pair \<Rightarrow> bool \<Rightarrow> u64" where
  "alignedSize blob aligned =
     (let sz = of_nat (bytes blob) in if \<not> aligned then sz else align_calc sz (of_nat ALIGN))"

text \<open>The instance \<open>fdSafeAccess<false>\<close>; \<open>bytes()\<close> reads the header of the struct.\<close>

definition fdSafeAccess :: "BlobGuard \<Rightarrow> u64 option \<Rightarrow> access" where
  "fdSafeAccess vData blob =
     (case blob of
        None \<Rightarrow> Null
      | Some p \<Rightarrow>
          if \<not> bg_readable vData p offset_buffer then Fault
          else if safeAccessMemory_ptr vData p (of_nat (bytes (pair_at vData p))) = None then Null
          else Ptr p)"

definition fdGetFirst :: "BlobGuard \<Rightarrow> access" where
  "fdGetFirst vData = fdSafeAccess vData (bg_as (of_nat sizeof_Pair) vData 0 1)"

definition fdGetNext :: "BlobGuard \<Rightarrow> u64 \<Rightarrow> bool \<Rightarrow> access" where
  "fdGetNext vData current aligned =
     (let sz = alignedSize (pair_at vData current) aligned
      in fdSafeAccess vData (bg_as_ptr (of_nat sizeof_Pair) vData (current + sz) 1))"

definition fdGetAt :: "BlobGuard \<Rightarrow> BlobGuard \<Rightarrow> u64 \<Rightarrow> access" where
  "fdGetAt vData vIndx index =
     (case bg_as 8 vIndx 0 1 of
        None \<Rightarrow> Null
      | Some be_array \<Rightarrow>
          if length (bg_mem vIndx) < 8 * unat index + 8 then Fault
          else
            (let be_ptr = load64 (drop (8 * unat index) (bg_mem vIndx));
                 offset = betoh64 be_ptr
             in fdSafeAccess vData (bg_as (of_nat sizeof_Pair) vData offset 1)))"

section \<open>The forward iterator\<close>

record forward_iterator =
  fi_blob :: BlobGuard
  fi_pair :: access
  fi_aligned :: bool

definition fi_begin :: "BlobGuard \<Rightarrow> bool \<Rightarrow> forward_iterator" where
  "fi_begin mData aligned = \<lparr>fi_blob = mData, fi_pair = fdGetFirst mData, fi_aligned = aligned\<rparr>"

definition fi_increment :: "forward_iterator \<Rightarrow> forward_iterator" where
  "fi_increment it =
     (case fi_pair it of
        Ptr p \<Rightarrow> it\<lparr>fi_pair := fdGetNext (fi_blob it) p (fi_aligned it)\<rparr>
      | _ \<Rightarrow> it)"

text \<open>\<open>end()\<close> has a null pair, so a loop over the table runs until the pair is null.\<close>

partial_function (option) fi_collect :: "forward_iterator \<Rightarrow> Pair list option" where
  "fi_collect it =
     (case fi_pair it of
        Fault \<Rightarrow> None
      | Null \<Rightarrow> Some []
      | Ptr p \<Rightarrow> Option.bind (fi_collect (fi_increment it)) (\<lambda>ps. Some (pair_at (fi_blob it) p # ps)))"

section \<open>Pairs in memory and in files\<close>

lemma bytes_bounds: "offset_buffer + 2 \<le> bytes p" "bytes p + 7 < 2 ^ 29"
  using getKeyLen_le [of p] getValLen_le [of p]
  by (simp_all add: bytes_def bytes_of_def sizeof_Pair_def offset_buffer_def MAX_KEY_SIZE_def MAX_VAL_SIZE_def)

lemma length_pair_image: "pair_wf p \<Longrightarrow> length (pair_image p) = bytes p"
  using bytes_bounds(1) [of p]
  by (simp add: pair_wf_iff block_size_def pair_image_def offset_buffer_def)

lemma pair_read_image:
  assumes "pair_wf p"
  shows "pair_read (pair_image p @ rest) = p\<lparr>p_buffer := take (bytes p - offset_buffer) (p_buffer p) @ rest\<rparr>"
  by (simp add: pair_read_def pair_image_def)

lemma pair_trim_read_image:
  assumes "pair_wf p"
  shows "pair_trim (pair_read (pair_image p @ rest)) = pair_trim p"
    "bytes (pair_read (pair_image p @ rest)) = bytes p"
  using assms by (simp_all add: pair_read_image pair_trim_def pair_wf_iff block_size_def)

text \<open>Everything that a client reads from a pair, it reads from the trimmed pair.\<close>

lemma pair_trim_accessors:
  "getKey (pair_trim p) = getKey p" "getVal (pair_trim p) = getVal p" "getCreated (pair_trim p) = getCreated p"
  "getExpires (pair_trim p) = getExpires p" "bytes (pair_trim p) = bytes p"
  "isTombstone (pair_trim p) = isTombstone p"
  by (simp_all add: pair_trim_def getKey_def getVal_def getCreated_def getExpires_def isTombstone_def
        bytes_def bytes_of_def sizeof_Pair_def offset_buffer_def take_drop min_def)

definition record_size :: "bool \<Rightarrow> Pair \<Rightarrow> nat" where
  "record_size aligned p = (if aligned then 8 * ((bytes p + 7) div 8) else bytes p)"

lemma record_size_bounds:
  "bytes p \<le> record_size aligned p" "record_size aligned p < bytes p + 8" "record_size aligned p < 2 ^ 29"
  using bytes_bounds(2) [of p] by (auto simp: record_size_def)

lemma unat_bytes: "unat (of_nat (bytes p) :: u64) = bytes p"
  using bytes_bounds(2) [of p] by (simp add: unat_of_nat)

lemma unat_align_calc_bytes: "unat (align_calc (of_nat (bytes p)) (of_nat ALIGN)) = 8 * ((bytes p + 7) div 8)"
proof -
  have "unat (of_nat (bytes p) :: u64) + 7 < 2 ^ 64" using bytes_bounds(2) [of p] by (simp add: unat_bytes)
  then show ?thesis using unat_arena_align [of "of_nat (bytes p)"]
    by (simp add: ALIGN_def align_calc_8 unat_bytes)
qed

lemma unat_alignedSize: "unat (alignedSize p aligned) = record_size aligned p"
  by (simp add: alignedSize_def record_size_def Let_def unat_bytes unat_align_calc_bytes)

lemma alignedSize_word: "alignedSize p aligned = of_nat (record_size aligned p)"
  using record_size_bounds(3) [of aligned p] by (simp add: word_unat_eq_iff unat_alignedSize unat_of_nat)

definition pair_record :: "bool \<Rightarrow> Pair \<Rightarrow> str" where
  "pair_record aligned p = concat (pair_fwrite aligned p)"

lemma length_pair_record:
  assumes "pair_wf p"
  shows "length (pair_record aligned p) = record_size aligned p"
proof -
  let ?b = "of_nat (bytes p) :: u64"
  have "?b \<le> align_calc ?b (of_nat ALIGN)"
    by (simp add: word_le_nat_alt unat_bytes unat_align_calc_bytes)
  then have "unat (align_gap ?b (of_nat ALIGN)) = 8 * ((bytes p + 7) div 8) - bytes p"
    by (simp add: align_gap_def unat_sub unat_bytes unat_align_calc_bytes)
  then show ?thesis using assms
    by (simp add: pair_record_def pair_fwrite_def length_pair_image record_size_def sum_list_replicate
        length_concat)
qed

lemma pair_record_image:
  "\<exists>gap. pair_record aligned p = pair_image p @ gap"
  by (simp add: pair_record_def pair_fwrite_def)

lemma alignedSize_cong: "bytes p = bytes q \<Longrightarrow> alignedSize p a = alignedSize q a"
  by (simp add: alignedSize_def)

section \<open>Access inside a mapping\<close>

text \<open>A mapping leaves room for one more record below the top of the address space.\<close>

definition bg_ok :: "BlobGuard \<Rightarrow> bool" where
  "bg_ok g \<longleftrightarrow> bg_data g \<noteq> 0 \<and> unat (bg_data g) + length (bg_mem g) + 2 ^ 30 < 2 ^ 64"

lemma unat_of_nat_small: "n < 2 ^ 64 \<Longrightarrow> unat (of_nat n :: u64) = n"
  by (simp add: unat_of_nat)

lemma unat_bg_add:
  assumes "bg_ok g" "n < length (bg_mem g) + 2 ^ 30"
  shows "unat (bg_data g + of_nat n) = unat (bg_data g) + n"
proof -
  have "n < 2 ^ 64" using assms by (simp add: bg_ok_def)
  then have "unat (of_nat n :: u64) = n" by (rule unat_of_nat_small)
  then show ?thesis using assms by (simp add: bg_ok_def unat_add_lem [THEN iffD1])
qed

lemma bg_size_nat: "bg_ok g \<Longrightarrow> unat (bg_size g) = length (bg_mem g)"
  unfolding bg_size_def by (rule unat_of_nat_small) (simp add: bg_ok_def)

lemma bg_empty_iff: "bg_ok g \<Longrightarrow> bg_empty g \<longleftrightarrow> bg_mem g = []"
  using bg_size_nat [of g] by (auto simp: bg_empty_def bg_ok_def unat_eq_0 [symmetric])

text \<open>The checks decide exactly whether the range lies in the mapping.\<close>

lemma safeAccess_nat:
  assumes "bg_ok g" "n + m < 2 ^ 64" "0 < m"
  shows "safeAccessMemory g (of_nat n) (of_nat m) =
    (if n + m \<le> length (bg_mem g) then Some (bg_data g + of_nat n) else None)"
proof -
  have "unat (of_nat n + of_nat m :: u64) = n + m"
    using assms(2) unat_of_nat_small [of "n + m"] by simp
  moreover have "(of_nat m :: u64) \<noteq> 0"
  proof
    assume "(of_nat m :: u64) = 0"
    then show False using assms(2,3) unat_of_nat_small [of m] by simp
  qed
  ultimately show ?thesis using assms bg_size_nat [of g] bg_empty_iff [of g]
    by (auto simp: safeAccessMemory_def word_less_nat_alt)
qed

lemma safeAccess_ptr_nat:
  assumes "bg_ok g" "n + m < length (bg_mem g) + 2 ^ 30" "0 < m"
  shows "safeAccessMemory_ptr g (bg_data g + of_nat n) (of_nat m) =
    (if n + m \<le> length (bg_mem g) then Some (bg_data g + of_nat n) else None)"
proof -
  have m: "m < 2 ^ 64" using assms by (simp add: bg_ok_def)
  have "(of_nat m :: u64) \<noteq> 0" 
  proof
    assume "(of_nat m :: u64) = 0"
    then show False using assms(3) unat_of_nat_small [OF m] by simp
  qed
  moreover have "unat (bg_data g + of_nat n) = unat (bg_data g) + n"
    using assms by (intro unat_bg_add) simp_all
  moreover have "unat (bg_data g + of_nat n + of_nat m) = unat (bg_data g) + (n + m)"
    using unat_bg_add [OF assms(1,2)] by (simp add: add.assoc)
  moreover have "unat (bg_data g + bg_size g) = unat (bg_data g) + length (bg_mem g)"
    unfolding bg_size_def using assms(1) by (intro unat_bg_add) simp_all
  ultimately show ?thesis using assms bg_empty_iff [of g]
    by (auto simp: safeAccessMemory_ptr_def word_less_nat_alt)
qed

lemma bg_readable_nat:
  assumes "bg_ok g" "n < length (bg_mem g) + 2 ^ 30"
  shows "bg_readable g (bg_data g + of_nat n) m \<longleftrightarrow> n + m \<le> length (bg_mem g)"
    "bg_bytes g (bg_data g + of_nat n) = drop n (bg_mem g)"
proof -
  have "n < 2 ^ 64" using assms by (simp add: bg_ok_def)
  then have "unat (of_nat n :: u64) = n" by (rule unat_of_nat_small)
  then show "bg_readable g (bg_data g + of_nat n) m \<longleftrightarrow> n + m \<le> length (bg_mem g)"
    "bg_bytes g (bg_data g + of_nat n) = drop n (bg_mem g)"
    using unat_bg_add [OF assms] by (simp_all add: bg_readable_def bg_bytes_def word_le_nat_alt)
qed

text \<open>What \<open>fdSafeAccess\<close> returns for a position of the mapping that has room for a header.\<close>

lemma fdSafeAccess_nat:
  assumes "bg_ok g" "n + sizeof_Pair \<le> length (bg_mem g)"
  shows "fdSafeAccess g (Some (bg_data g + of_nat n)) =
    (if n + bytes (pair_read (drop n (bg_mem g))) \<le> length (bg_mem g) then Ptr (bg_data g + of_nat n) else Null)"
proof -
  let ?p = "pair_read (drop n (bg_mem g))"
  have n: "n < length (bg_mem g) + 2 ^ 30" using assms(2) by simp
  have b: "n + bytes ?p < length (bg_mem g) + 2 ^ 30" "0 < bytes ?p"
    using bytes_bounds [of ?p] assms(2) by simp_all
  show ?thesis
    using bg_readable_nat [OF assms(1) n] safeAccess_ptr_nat [OF assms(1) b] assms(2)
    by (simp add: fdSafeAccess_def pair_at_def offset_buffer_def sizeof_Pair_def)
qed

lemma bg_as_ptr_nat:
  assumes "bg_ok g" "n < length (bg_mem g) + 2 ^ 29"
  shows "bg_as_ptr (of_nat sizeof_Pair) g (bg_data g + of_nat n) 1 =
    (if n + sizeof_Pair \<le> length (bg_mem g) then Some (bg_data g + of_nat n) else None)"
  using safeAccess_ptr_nat [OF assms(1), of n sizeof_Pair] assms(2)
  by (simp add: bg_as_ptr_def sizeof_Pair_def)

lemma bg_as_nat:
  assumes "bg_ok g" "n + sizeof_Pair < 2 ^ 64"
  shows "bg_as (of_nat sizeof_Pair) g (of_nat n) 1 =
    (if n + sizeof_Pair \<le> length (bg_mem g) then Some (bg_data g + of_nat n) else None)"
  using safeAccess_nat [OF assms(1), of n sizeof_Pair] assms(2)
  by (simp add: bg_as_def sizeof_Pair_def)

section \<open>The data file\<close>

definition data_bytes :: "bool \<Rightarrow> Pair list \<Rightarrow> str" where
  "data_bytes aligned ps = concat (map (pair_record aligned) ps)"

definition record_offset :: "bool \<Rightarrow> Pair list \<Rightarrow> nat \<Rightarrow> nat" where
  "record_offset aligned ps i = sum_list (map (record_size aligned) (take i ps))"

lemma record_offset_0 [simp]: "record_offset aligned ps 0 = 0"
  by (simp add: record_offset_def)

lemma record_offset_Cons_Suc [simp]:
  "record_offset aligned (p # ps) (Suc i) = record_size aligned p + record_offset aligned ps i"
  by (simp add: record_offset_def)

lemma record_offset_Suc:
  "i < length ps \<Longrightarrow> record_offset aligned ps (Suc i) = record_offset aligned ps i + record_size aligned (ps ! i)"
  by (simp add: record_offset_def take_Suc_conv_app_nth)

lemma length_data_bytes:
  "list_all pair_wf ps \<Longrightarrow> length (data_bytes aligned ps) = record_offset aligned ps (length ps)"
  by (induction ps) (simp_all add: data_bytes_def length_pair_record)

lemma drop_data_bytes:
  "list_all pair_wf ps \<Longrightarrow> i \<le> length ps \<Longrightarrow>
     drop (record_offset aligned ps i) (data_bytes aligned ps) = data_bytes aligned (drop i ps)"
proof (induction ps arbitrary: i)
  case (Cons p ps)
  then show ?case by (cases i) (simp_all add: data_bytes_def length_pair_record)
qed simp

lemma drop_data_record:
  assumes "list_all pair_wf ps" "i < length ps"
  obtains rest where "drop (record_offset aligned ps i) (data_bytes aligned ps) = pair_image (ps ! i) @ rest"
proof -
  have "drop i ps = ps ! i # drop (Suc i) ps" using assms(2) by (rule Cons_nth_drop_Suc [symmetric])
  then have "drop (record_offset aligned ps i) (data_bytes aligned ps) =
      pair_record aligned (ps ! i) @ data_bytes aligned (drop (Suc i) ps)"
    using drop_data_bytes [OF assms(1), of i aligned] assms(2) by (simp add: data_bytes_def)
  with pair_record_image [of aligned "ps ! i"] that show ?thesis by auto
qed

lemma record_in_file:
  assumes "list_all pair_wf ps" "i < length ps"
  shows "record_offset aligned ps i + record_size aligned (ps ! i) \<le> length (data_bytes aligned ps)"
proof -
  have "map (record_size aligned) ps =
      map (record_size aligned) (take (Suc i) ps) @ map (record_size aligned) (drop (Suc i) ps)"
    by (simp flip: map_append)
  then have "record_offset aligned ps (length ps) =
      record_offset aligned ps (Suc i) + sum_list (map (record_size aligned) (drop (Suc i) ps))"
    unfolding record_offset_def by (metis sum_list_append take_all_iff order_refl)
  then show ?thesis using assms by (simp add: length_data_bytes record_offset_Suc)
qed

text \<open>A mapping of the data file of \<open>ps\<close>.\<close>

definition maps_data :: "BlobGuard \<Rightarrow> bool \<Rightarrow> Pair list \<Rightarrow> bool" where
  "maps_data g aligned ps \<longleftrightarrow> bg_ok g \<and> list_all pair_wf ps \<and> bg_mem g = data_bytes aligned ps"

definition record_ptr :: "BlobGuard \<Rightarrow> bool \<Rightarrow> Pair list \<Rightarrow> nat \<Rightarrow> u64" where
  "record_ptr g aligned ps i = bg_data g + of_nat (record_offset aligned ps i)"

lemma record_access:
  assumes "maps_data g aligned ps" "i < length ps"
  shows "fdSafeAccess g (Some (record_ptr g aligned ps i)) = Ptr (record_ptr g aligned ps i)"
    "pair_trim (pair_at g (record_ptr g aligned ps i)) = pair_trim (ps ! i)"
    "bytes (pair_at g (record_ptr g aligned ps i)) = bytes (ps ! i)"
    "record_offset aligned ps i + sizeof_Pair \<le> length (bg_mem g)"
proof -
  let ?n = "record_offset aligned ps i"
  have g: "bg_ok g" "bg_mem g = data_bytes aligned ps" and wf: "list_all pair_wf ps"
    using assms(1) by (simp_all add: maps_data_def)
  have p: "pair_wf (ps ! i)" using wf assms(2) by (simp add: list_all_length)
  obtain rest where r: "drop ?n (bg_mem g) = pair_image (ps ! i) @ rest"
    using drop_data_record [OF wf assms(2)] g(2) by metis
  have in_file: "?n + bytes (ps ! i) \<le> length (bg_mem g)"
    using record_in_file [OF wf assms(2), of aligned] record_size_bounds(1) [of "ps ! i" aligned] g(2) by simp
  then show s: "?n + sizeof_Pair \<le> length (bg_mem g)"
    using bytes_bounds(1) [of "ps ! i"] by (simp add: offset_buffer_def sizeof_Pair_def)
  then have "?n < length (bg_mem g) + 2 ^ 30" by simp
  note b = bg_readable_nat(2) [OF g(1) this]
  show "pair_trim (pair_at g (record_ptr g aligned ps i)) = pair_trim (ps ! i)"
    "bytes (pair_at g (record_ptr g aligned ps i)) = bytes (ps ! i)"
    using pair_trim_read_image [OF p, of rest] b r by (simp_all add: pair_at_def record_ptr_def)
  show "fdSafeAccess g (Some (record_ptr g aligned ps i)) = Ptr (record_ptr g aligned ps i)"
    using fdSafeAccess_nat [OF g(1) s] r pair_trim_read_image(2) [OF p, of rest] in_file
    by (simp add: record_ptr_def)
qed

lemma fdGetFirst_maps:
  assumes "maps_data g aligned ps"
  shows "fdGetFirst g = (if ps = [] then Null else Ptr (record_ptr g aligned ps 0))"
proof (cases "ps = []")
  case True
  then have "bg_mem g = []" using assms by (simp add: maps_data_def data_bytes_def)
  then show ?thesis using True bg_as_nat [of g 0] assms
    by (simp add: fdGetFirst_def maps_data_def fdSafeAccess_def sizeof_Pair_def)
next
  case False
  then have i: "0 < length ps" by simp
  from record_access [OF assms i] False bg_as_nat [of g 0] assms show ?thesis
    by (simp add: fdGetFirst_def maps_data_def sizeof_Pair_def record_ptr_def)
qed

lemma fdGetNext_maps:
  assumes "maps_data g aligned ps" "i < length ps"
  shows "fdGetNext g (record_ptr g aligned ps i) aligned =
    (if Suc i < length ps then Ptr (record_ptr g aligned ps (Suc i)) else Null)"
proof -
  let ?n = "record_offset aligned ps (Suc i)"
  have g: "bg_ok g" "bg_mem g = data_bytes aligned ps" and wf: "list_all pair_wf ps"
    using assms(1) by (simp_all add: maps_data_def)
  note r = record_access [OF assms]
  have "alignedSize (pair_at g (record_ptr g aligned ps i)) aligned = of_nat (record_size aligned (ps ! i))"
    using alignedSize_cong [OF r(3)] by (simp add: alignedSize_word)
  then have step: "record_ptr g aligned ps i + alignedSize (pair_at g (record_ptr g aligned ps i)) aligned =
      bg_data g + of_nat ?n"
    using assms(2) by (simp add: record_ptr_def record_offset_Suc add.assoc)
  have le: "?n \<le> length (bg_mem g)"
    using record_in_file [OF wf assms(2), of aligned] assms(2) g(2) by (simp add: record_offset_Suc)
  then have as: "bg_as_ptr (of_nat sizeof_Pair) g (bg_data g + of_nat ?n) 1 =
      (if ?n + sizeof_Pair \<le> length (bg_mem g) then Some (bg_data g + of_nat ?n) else None)"
    using g(1) by (intro bg_as_ptr_nat) simp_all
  show ?thesis
  proof (cases "Suc i < length ps")
    case True
    then show ?thesis using record_access(1,4) [OF assms(1) True] as
      unfolding fdGetNext_def Let_def step by (simp add: record_ptr_def)
  next
    case False
    then have "Suc i = length ps" using assms(2) by simp
    then have "?n = length (bg_mem g)" using g(2) length_data_bytes [OF wf] by simp
    then show ?thesis using False as
      unfolding fdGetNext_def Let_def step by (simp add: fdSafeAccess_def sizeof_Pair_def)
  qed
qed

lemma fi_collect_from:
  assumes "maps_data g aligned ps" "i < length ps"
  shows "\<exists>qs. fi_collect \<lparr>fi_blob = g, fi_pair = Ptr (record_ptr g aligned ps i), fi_aligned = aligned\<rparr> = Some qs \<and>
    map pair_trim qs = map pair_trim (drop i ps)"
  using assms(2)
proof (induction "length ps - i" arbitrary: i)
  case (Suc n)
  let ?it = "\<lambda>a. \<lparr>fi_blob = g, fi_pair = a, fi_aligned = aligned\<rparr>"
  have inc: "fi_increment (?it (Ptr (record_ptr g aligned ps i))) =
      ?it (if Suc i < length ps then Ptr (record_ptr g aligned ps (Suc i)) else Null)"
    using fdGetNext_maps [OF assms(1) Suc.prems] by (simp add: fi_increment_def)
  have d: "drop i ps = ps ! i # drop (Suc i) ps" using Suc.prems by (rule Cons_nth_drop_Suc [symmetric])
  have "\<exists>qs. fi_collect (?it (if Suc i < length ps then Ptr (record_ptr g aligned ps (Suc i)) else Null)) = Some qs \<and>
      map pair_trim qs = map pair_trim (drop (Suc i) ps)"
  proof (cases "Suc i < length ps")
    case True
    then show ?thesis using Suc.hyps(1) [of "Suc i"] Suc.hyps(2) by simp
  next
    case False
    then show ?thesis by (subst fi_collect.simps) simp
  qed
  with inc d record_access(2) [OF assms(1) Suc.prems] show ?case
    by (subst fi_collect.simps) auto
qed simp

lemma fi_collect_maps:
  assumes "maps_data g aligned ps"
  shows "\<exists>qs. fi_collect (fi_begin g aligned) = Some qs \<and> map pair_trim qs = map pair_trim ps"
proof (cases "ps = []")
  case True
  then show ?thesis using fdGetFirst_maps [OF assms]
    by (simp add: fi_begin_def fi_collect.simps)
next
  case False
  then show ?thesis using fdGetFirst_maps [OF assms] fi_collect_from [OF assms, of 0]
    by (simp add: fi_begin_def)
qed

section \<open>The index file\<close>

definition indx_bytes :: "bool \<Rightarrow> Pair list \<Rightarrow> u64 \<Rightarrow> str" where
  "indx_bytes aligned ps base =
     concat (map (\<lambda>i. writeU64 (base + of_nat (record_offset aligned ps i))) [0..<length ps])"

lemma record_size_word:
  "(if aligned then align_calc (of_nat (bytes p)) (of_nat ALIGN) else of_nat (bytes p) :: u64) =
     of_nat (record_size aligned p)"
  using alignedSize_word [of p aligned] by (cases aligned) (simp_all add: alignedSize_def Let_def)

lemma indxBuilder_snd: "snd (indxBuilder aligned p index) = index + of_nat (record_size aligned p)"
  using record_size_word [of aligned p] by (auto simp: indxBuilder_def)

lemma indx_bytes_Cons:
  "indx_bytes aligned (p # ps) base =
     writeU64 base @ indx_bytes aligned ps (base + of_nat (record_size aligned p))"
  by (simp add: indx_bytes_def map_upt_Suc add.assoc del: upt_Suc)

lemma builder_run_files_conj:
  "concat (fst (fst (builder_run aligned ps b))) = indx_bytes aligned ps (fbd_indx b) \<and>
   concat (snd (snd (fst (builder_run aligned ps b)))) = data_bytes aligned ps \<and>
   fbd_meta (snd (builder_run aligned ps b)) = fold metaBuilder_push ps (fbd_meta b)"
proof (induction ps arbitrary: b)
  case (Cons p ps)
  obtain wi i where i: "indxBuilder aligned p (fbd_indx b) = (wi, i)" by fastforce
  obtain wl l where l: "lineBuilder p (fbd_line b) = (wl, l)" by fastforce
  have wi: "wi = [writeU64 (fbd_indx b)]" "i = fbd_indx b + of_nat (record_size aligned p)"
    using i indxBuilder_snd [of aligned p "fbd_indx b"] by (simp_all add: indxBuilder_def)
  let ?b = "b\<lparr>fbd_meta := metaBuilder_push p (fbd_meta b), fbd_indx := i, fbd_line := l\<rparr>"
  have pb: "push_back aligned p b = ((wi, wl, dataBuilder aligned p), ?b)"
    using i l by (simp add: push_back_def Let_def)
  obtain wi' wl' wd' b' where r: "builder_run aligned ps ?b = ((wi', wl', wd'), b')"
    by (metis prod.collapse)
  have run: "builder_run aligned (p # ps) b = ((wi @ wi', wl @ wl', dataBuilder aligned p @ wd'), b')"
    unfolding builder_run.simps pb Let_def prod.case r ..
  show ?case using r Cons.IH [of ?b] wi unfolding run
    by (simp add: indx_bytes_Cons data_bytes_def dataBuilder_def pair_record_def)
qed (simp add: indx_bytes_def data_bytes_def)

lemmas builder_run_files = builder_run_files_conj [THEN conjunct1]
  builder_run_files_conj [THEN conjunct2, THEN conjunct1]
  builder_run_files_conj [THEN conjunct2, THEN conjunct2]

lemma length_writeU64 [simp]: "length (writeU64 x) = 8"
  by (simp add: writeU64_def)

lemma concat_blocks_drop:
  assumes "\<And>i. i < n \<Longrightarrow> length (f i) = m"
  shows "i \<le> n \<Longrightarrow> drop (m * i) (concat (map f [0..<n])) = concat (map f [i..<n])"
proof (induction i)
  case (Suc i)
  then have "drop (m * i) (concat (map f [0..<n])) = f i @ concat (map f [Suc i..<n])"
    by (simp add: upt_conv_Cons)
  then have "drop m (drop (m * i) (concat (map f [0..<n]))) = concat (map f [Suc i..<n])"
    using assms [of i] Suc.prems by simp
  then show ?case by (simp add: add.commute)
qed simp

lemma indx_bytes_entry:
  assumes "i < length ps"
  shows "betoh64 (load64 (drop (8 * i) (indx_bytes aligned ps base))) =
      base + of_nat (record_offset aligned ps i)"
    "length (indx_bytes aligned ps base) = 8 * length ps"
proof -
  let ?f = "\<lambda>i. writeU64 (base + of_nat (record_offset aligned ps i))"
  have "drop (8 * i) (indx_bytes aligned ps base) = concat (map ?f [i..<length ps])"
    unfolding indx_bytes_def using assms by (intro concat_blocks_drop) simp_all
  also have "\<dots> = ?f i @ concat (map ?f [Suc i..<length ps])" using assms by (simp add: upt_conv_Cons)
  finally show "betoh64 (load64 (drop (8 * i) (indx_bytes aligned ps base))) =
      base + of_nat (record_offset aligned ps i)"
    by (simp add: writeU64_def)
  show "length (indx_bytes aligned ps base) = 8 * length ps"
    by (simp add: indx_bytes_def length_concat o_def sum_list_triv)
qed

definition maps_indx :: "BlobGuard \<Rightarrow> bool \<Rightarrow> Pair list \<Rightarrow> bool" where
  "maps_indx g aligned ps \<longleftrightarrow> bg_ok g \<and> bg_mem g = indx_bytes aligned ps 0"

lemma fdGetAt_maps:
  assumes "maps_data gd aligned ps" "maps_indx gi aligned ps" "i < length ps"
  shows "fdGetAt gd gi (of_nat i) = Ptr (record_ptr gd aligned ps i)"
proof -
  note e = indx_bytes_entry [OF assms(3), of aligned 0]
  have gi: "bg_ok gi" "length (bg_mem gi) = 8 * length ps" using assms(2) e by (simp_all add: maps_indx_def)
  then have "8 * length ps < 2 ^ 64" by (simp add: bg_ok_def)
  then have i: "unat (of_nat i :: u64) = i" using assms(3) by (intro unat_of_nat_small) simp
  have "bg_as 8 gi 0 1 \<noteq> None"
    using safeAccess_nat [OF gi(1), of 0 8] gi(2) assms(3) by (simp add: bg_as_def)
  moreover have "8 * i + 8 \<le> length (bg_mem gi)" using gi(2) assms(3) by simp
  moreover have "bg_as (of_nat sizeof_Pair) gd (of_nat (record_offset aligned ps i)) 1 =
      Some (record_ptr gd aligned ps i)"
  proof -
    have gd: "bg_ok gd" using assms(1) by (simp add: maps_data_def)
    moreover have "record_offset aligned ps i + sizeof_Pair < 2 ^ 64"
      using record_access(4) [OF assms(1,3)] gd by (simp add: bg_ok_def)
    ultimately show ?thesis using record_access(4) [OF assms(1,3)] by (simp add: bg_as_nat record_ptr_def)
  qed
  ultimately show ?thesis using i e(1) record_access(1) [OF assms(1,3)] assms(2)
    by (auto simp: fdGetAt_def Let_def maps_indx_def)
qed

section \<open>Reading any bytes\<close>

text \<open>A position of the mapping from which a whole pair can be read.\<close>

definition pair_inside :: "BlobGuard \<Rightarrow> nat \<Rightarrow> bool" where
  "pair_inside g n \<longleftrightarrow>
     n + sizeof_Pair \<le> length (bg_mem g) \<and> n + bytes (pair_read (drop n (bg_mem g))) \<le> length (bg_mem g)"

lemma pair_at_nat: "bg_ok g \<Longrightarrow> pair_inside g n \<Longrightarrow> pair_at g (bg_data g + of_nat n) = pair_read (drop n (bg_mem g))"
  using bg_readable_nat(2) [of g n] by (simp add: pair_at_def pair_inside_def)

lemma fdGetFirst_any:
  assumes "bg_ok g"
  shows "fdGetFirst g = (if pair_inside g 0 then Ptr (bg_data g) else Null)"
  using bg_as_nat [OF assms, of 0] fdSafeAccess_nat [OF assms, of 0]
  by (simp add: fdGetFirst_def fdSafeAccess_def sizeof_Pair_def pair_inside_def)

lemma fdGetNext_any:
  fixes g :: BlobGuard and n :: nat and aligned :: bool
  assumes "bg_ok g" "pair_inside g n"
  defines "n' \<equiv> n + record_size aligned (pair_read (drop n (bg_mem g)))"
  shows "fdGetNext g (bg_data g + of_nat n) aligned =
    (if pair_inside g n' then Ptr (bg_data g + of_nat n') else Null)"
proof -
  have step: "bg_data g + of_nat n + alignedSize (pair_at g (bg_data g + of_nat n)) aligned =
      bg_data g + of_nat n'"
    by (simp add: pair_at_nat [OF assms(1,2)] alignedSize_word n'_def)
  have "n' < length (bg_mem g) + 2 ^ 29"
    using assms(2) record_size_bounds(3) [of aligned "pair_read (drop n (bg_mem g))"]
      bytes_bounds(1) [of "pair_read (drop n (bg_mem g))"]
    by (simp add: n'_def pair_inside_def)
  note as = bg_as_ptr_nat [OF assms(1) this]
  show ?thesis
  proof (cases "n' + sizeof_Pair \<le> length (bg_mem g)")
    case True
    then show ?thesis using as fdSafeAccess_nat [OF assms(1) True]
      unfolding fdGetNext_def Let_def step by (simp add: pair_inside_def)
  next
    case False
    then show ?thesis using as unfolding fdGetNext_def Let_def step
      by (simp add: pair_inside_def fdSafeAccess_def)
  qed
qed

text \<open>
  The records from a position on, up to the first position where no whole record lies in the mapping:
  each starts where the one before, with its alignment, ends.
\<close>

fun records_from :: "BlobGuard \<Rightarrow> bool \<Rightarrow> nat \<Rightarrow> Pair list \<Rightarrow> bool" where
  "records_from g aligned n [] \<longleftrightarrow> \<not> pair_inside g n"
| "records_from g aligned n (q # qs) \<longleftrightarrow>
     pair_inside g n \<and> q = pair_read (drop n (bg_mem g)) \<and> records_from g aligned (n + record_size aligned q) qs"

lemma fi_collect_any:
  assumes "bg_ok g"
  shows "pair_inside g n \<Longrightarrow>
    \<exists>qs. fi_collect \<lparr>fi_blob = g, fi_pair = Ptr (bg_data g + of_nat n), fi_aligned = aligned\<rparr> = Some qs \<and>
      records_from g aligned n qs \<and> n + sum_list (map bytes qs) \<le> length (bg_mem g)"
proof (induction "length (bg_mem g) - n" arbitrary: n rule: less_induct)
  case less
  let ?it = "\<lambda>a. \<lparr>fi_blob = g, fi_pair = a, fi_aligned = aligned\<rparr>"
  let ?p = "pair_read (drop n (bg_mem g))"
  let ?n = "n + record_size aligned ?p"
  have adv: "n < ?n" "n + bytes ?p \<le> ?n" "n < length (bg_mem g)"
    using record_size_bounds(1) [of ?p aligned] bytes_bounds(1) [of ?p] less.prems
    by (simp_all add: pair_inside_def sizeof_Pair_def)
  have inc: "fi_increment (?it (Ptr (bg_data g + of_nat n))) =
      ?it (if pair_inside g ?n then Ptr (bg_data g + of_nat ?n) else Null)"
    using fdGetNext_any [OF assms less.prems, of aligned] by (simp add: fi_increment_def)
  have "\<exists>qs. fi_collect (?it (if pair_inside g ?n then Ptr (bg_data g + of_nat ?n) else Null)) = Some qs \<and>
      records_from g aligned ?n qs \<and> n + bytes ?p + sum_list (map bytes qs) \<le> length (bg_mem g)"
  proof (cases "pair_inside g ?n")
    case True
    have "length (bg_mem g) - ?n < length (bg_mem g) - n" using adv by linarith
    from less.hyps [OF this True] show ?thesis using True adv(2) by auto
  next
    case False
    have "fi_collect (?it Null) = Some []" by (subst fi_collect.simps) simp
    moreover have "n + bytes ?p \<le> length (bg_mem g)" using less.prems by (simp add: pair_inside_def)
    ultimately show ?thesis using False by simp
  qed
  then obtain qs where qs: "fi_collect (?it (if pair_inside g ?n then Ptr (bg_data g + of_nat ?n) else Null)) = Some qs"
    "records_from g aligned ?n qs" "n + bytes ?p + sum_list (map bytes qs) \<le> length (bg_mem g)" by blast
  have "fi_collect (?it (Ptr (bg_data g + of_nat n))) = Some (?p # qs)"
    using inc qs(1) pair_at_nat [OF assms less.prems] by (subst fi_collect.simps) simp
  then show ?case using qs(2,3) less.prems by (simp add: add.assoc)
qed

section \<open>The table that a build leaves\<close>

lemma FileBuilder_build_files:
  "dt_data (FileBuilder_build True now now32 aligned ps) = data_bytes aligned ps"
  "dt_indx (FileBuilder_build True now now32 aligned ps) = indx_bytes aligned ps 0"
  "dt_meta (FileBuilder_build True now now32 aligned ps) = meta_file now32 aligned ps"
proof -
  obtain wi wl wd b where r: "builder_run aligned ps FileBuilder_init = ((wi, wl, wd), b)"
    by (metis prod.collapse)
  from builder_run_files [of aligned ps FileBuilder_init]
  show "dt_data (FileBuilder_build True now now32 aligned ps) = data_bytes aligned ps"
    "dt_indx (FileBuilder_build True now now32 aligned ps) = indx_bytes aligned ps 0"
    "dt_meta (FileBuilder_build True now now32 aligned ps) = meta_file now32 aligned ps"
    unfolding r by (simp_all add: FileBuilder_build_def r meta_file_def) (simp_all add: FileBuilder_init_def)
qed

text \<open>
  C26: random access to a table returns what was stored.  When the data and the index file of a build are
  mapped, position \<open>i\<close> of the table is a pointer to the \<open>i\<close>-th pair of the input,
  with or without alignment: all of its bytes are there.
\<close>

theorem disk_random_access:
  assumes "list_all pair_wf ps" "i < length ps"
    and "bg_ok gd" "bg_mem gd = dt_data (FileBuilder_build True now now32 aligned ps)"
    and "bg_ok gi" "bg_mem gi = dt_indx (FileBuilder_build True now now32 aligned ps)"
  shows "\<exists>ptr. fdGetAt gd gi (of_nat i) = Ptr ptr \<and> pair_trim (pair_at gd ptr) = pair_trim (ps ! i)"
proof -
  have m: "maps_data gd aligned ps" "maps_indx gi aligned ps"
    using assms by (simp_all add: maps_data_def maps_indx_def FileBuilder_build_files)
  show ?thesis using fdGetAt_maps [OF m assms(2)] record_access(2) [OF m(1) assms(2)] by blast
qed

definition sample_pair :: Pair where
  "sample_pair = \<lparr>p_created = 0, p_expires = 0, p_vallen = htobe32 1, p_keylen = htobe16 1, p_buffer = [97, 0, 98, 0]\<rparr>"

lemma sample_pair_wf: "pair_wf sample_pair" "bytes sample_pair = 22"
  by (simp_all add: pair_wf_def sample_pair_def getKeyLen_def getValLen_def MAX_KEY_MASK_def MAX_VAL_MASK_def
        bytes_def bytes_of_def sizeof_Pair_def)

lemma sample_maps:
  "bg_ok \<lparr>bg_data = 4096, bg_mem = data_bytes aligned [sample_pair]\<rparr>"
  "bg_ok \<lparr>bg_data = 8192, bg_mem = indx_bytes aligned [sample_pair] 0\<rparr>"
  using record_size_bounds(2) [of aligned sample_pair] indx_bytes_entry(2) [of 0 "[sample_pair]" aligned 0]
  by (simp_all add: bg_ok_def length_data_bytes sample_pair_wf)

theorem disk_random_access_witness:
  "\<exists>ptr. fdGetAt \<lparr>bg_data = 4096, bg_mem = data_bytes True [sample_pair]\<rparr>
      \<lparr>bg_data = 8192, bg_mem = indx_bytes True [sample_pair] 0\<rparr> 0 = Ptr ptr"
  using disk_random_access [of "[sample_pair]" 0 "\<lparr>bg_data = 4096, bg_mem = data_bytes True [sample_pair]\<rparr>"
      0 0 True "\<lparr>bg_data = 8192, bg_mem = indx_bytes True [sample_pair] 0\<rparr>"]
  by (auto simp: sample_pair_wf sample_maps FileBuilder_build_files)

text \<open>
  C27: iterating a table forward, from \<open>begin()\<close> until the iterator equals \<open>end()\<close>,
  terminates and visits exactly the pairs that were stored, in order, provided that it runs with the alignment
  the table was written with.
\<close>

theorem disk_forward_iteration:
  assumes "list_all pair_wf ps" "bg_ok gd" "bg_mem gd = dt_data (FileBuilder_build True now now32 aligned ps)"
  shows "\<exists>qs. fi_collect (fi_begin gd aligned) = Some qs \<and> map pair_trim qs = map pair_trim ps"
  using assms by (intro fi_collect_maps) (simp add: maps_data_def FileBuilder_build_files)

theorem disk_forward_iteration_witness:
  "\<exists>qs. fi_collect (fi_begin \<lparr>bg_data = 4096, bg_mem = data_bytes False [sample_pair]\<rparr> False) = Some qs \<and>
    map pair_trim qs = [pair_trim sample_pair]"
  using disk_forward_iteration [of "[sample_pair]" "\<lparr>bg_data = 4096, bg_mem = data_bytes False [sample_pair]\<rparr>" 0 0 False]
  by (simp add: sample_pair_wf sample_maps FileBuilder_build_files)

text \<open>
  C28: forward iteration is safe on any bytes, a damaged or truncated data file included: it never reads
  outside the mapping and it terminates.  The pairs it visits are exactly the records that lie in the file one
  after the other from its start, each wholly inside the file and starting where the one before, with its
  alignment, ends, up to the first place where no whole record is left; so their sizes add up to no more than
  the size of the file.
\<close>

theorem disk_forward_safe:
  assumes "bg_ok g"
  shows "\<exists>qs. fi_collect (fi_begin g aligned) = Some qs \<and> records_from g aligned 0 qs \<and>
    sum_list (map bytes qs) \<le> length (bg_mem g)"
proof (cases "pair_inside g 0")
  case True
  then show ?thesis using fi_collect_any [OF assms True, of aligned] fdGetFirst_any [OF assms]
    by (simp add: fi_begin_def)
next
  case False
  then show ?thesis using fdGetFirst_any [OF assms]
    by (simp add: fi_begin_def fi_collect.simps)
qed

theorem disk_forward_safe_witness:
  "\<exists>qs. fi_collect (fi_begin \<lparr>bg_data = 4096, bg_mem = replicate 100 255\<rparr> True) = Some qs \<and>
    records_from \<lparr>bg_data = 4096, bg_mem = replicate 100 255\<rparr> True 0 qs"
  using disk_forward_safe [of "\<lparr>bg_data = 4096, bg_mem = replicate 100 255\<rparr>" True] by (auto simp: bg_ok_def)

text \<open>
  The bounds check of \<open>BlobGuard\<close> wraps: an index entry that holds an offset just below the
  top of the address space passes \<open>offset + size > size_\<close>, and the header of the pair is then
  read in front of the mapping.
\<close>

lemma corrupt_index_reads_outside:
  "fdGetAt \<lparr>bg_data = 4096, bg_mem = replicate 64 0\<rparr> \<lparr>bg_data = 8192, bg_mem = writeU64 (- 8)\<rparr> 0 = Fault"
proof -
  let ?gi = "\<lparr>bg_data = 8192, bg_mem = writeU64 (- 8)\<rparr>"
  let ?gd = "\<lparr>bg_data = 4096 :: u64, bg_mem = replicate 64 (0 :: byte)\<rparr>"
  have "bg_as 8 ?gi 0 1 = Some 8192"
    by (simp add: bg_as_def safeAccessMemory_def bg_empty_def bg_size_def)
  moreover have "betoh64 (load64 (bg_mem ?gi)) = - 8" by (simp add: writeU64_def)
  moreover have "bg_as (of_nat sizeof_Pair) ?gd (- 8) 1 = Some 4088"
    by (simp add: bg_as_def safeAccessMemory_def bg_empty_def bg_size_def sizeof_Pair_def)
  ultimately show ?thesis
    by (simp add: fdGetAt_def Let_def fdSafeAccess_def bg_readable_def)
qed

end
