(* ===== verification/LCPSearch.thy ===== *)
theory LCPSearch
  imports Pair BinarySearch
begin

text \<open>
  The search of \<^verbatim>\<open>include/binarysearch.h.cc\<close> with a comparator that has a state, over a range whose
  elements may not be readable, and the comparator \<open>PairLCPCompare\<close> of \<^verbatim>\<open>hm4/disk/disklist.cc\<close>, which
  skips the characters that the keys of the remaining range are known to share with the search key.
  A probe returns \<open>None\<close> when the element can not be read or the comparator throws.
\<close>

section \<open>The code\<close>

type_synonym 's probe = "'s \<Rightarrow> nat \<Rightarrow> (int \<times> 's) option"

partial_function (option) linearSearchS ::
  "'s probe \<Rightarrow> 's \<Rightarrow> nat \<Rightarrow> nat \<Rightarrow> BinarySearchResult option" where
  "linearSearchS cmpf s first fin =
     (if first \<noteq> fin then
        Option.bind (cmpf s first) (\<lambda>r.
          if fst r = 0 then Some \<lparr>bs_found = True, bs_it = first\<rparr>
          else if fst r > 0 then Some \<lparr>bs_found = False, bs_it = first\<rparr>
          else linearSearchS cmpf (snd r) (first + 1) fin)
      else Some \<lparr>bs_found = False, bs_it = first\<rparr>)"

partial_function (option) binarySearchS ::
  "'s probe \<Rightarrow> nat \<Rightarrow> 's \<Rightarrow> nat \<Rightarrow> nat \<Rightarrow> BinarySearchResult option" where
  "binarySearchS cmpf minimum_distance s start fin =
     (if start + minimum_distance < fin then
        (let mid = start + (fin - start) div 2 in
         Option.bind (cmpf s mid) (\<lambda>r.
           if fst r < 0 then binarySearchS cmpf minimum_distance (snd r) (mid + 1) fin
           else if fst r > 0 then binarySearchS cmpf minimum_distance (snd r) start mid
           else Some \<lparr>bs_found = True, bs_it = mid\<rparr>))
      else linearSearchS cmpf s start fin)"

record PairLCPCompare =
  prefixL :: nat
  prefixR :: nat

definition mkPairLCPCompare :: "nat \<Rightarrow> PairLCPCompare" where
  "mkPairLCPCompare start = \<lparr>prefixL = start, prefixR = start\<rparr>"

definition lcp_state_prefix :: "PairLCPCompare \<Rightarrow> nat" where
  "lcp_state_prefix s = min (prefixL s) (prefixR s)"

definition PairLCPCompare_call :: "Pair \<Rightarrow> str \<Rightarrow> PairLCPCompare \<Rightarrow> (int \<times> PairLCPCompare) option" where
  "PairLCPCompare_call pair key s =
     (let pr = lcp_state_prefix s in
      case pair_cmpLCP_start pair key pr of
        None \<Rightarrow> None
      | Some r \<Rightarrow>
          (let s = (if lcp_cmp r \<ge> 0 then s\<lparr>prefixL := pr + lcp_prefix r\<rparr> else s);
               s = (if lcp_cmp r \<le> 0 then s\<lparr>prefixR := pr + lcp_prefix r\<rparr> else s)
           in Some (lcp_cmp r, s)))"

section \<open>A comparator that tells the truth about its range\<close>

text \<open>
  \<open>inv s a b\<close>: the state \<open>s\<close> is fit for the positions from \<open>a\<close> below \<open>b\<close>.  A probe in the range
  answers with the order of the element and leaves a state that is fit for the half that is left.
\<close>

locale stateful_search =
  fixes probe :: "'e \<Rightarrow> 's probe" and keys :: "'e \<Rightarrow> 'o::linorder list" and skey :: "'e \<Rightarrow> 'o"
    and inv :: "'e \<Rightarrow> 's \<Rightarrow> nat \<Rightarrow> nat \<Rightarrow> bool"
  assumes sorted_keys: "inv e s a b \<Longrightarrow> sorted_wrt (<) (keys e)"
    and probe_law: "inv e s a b \<Longrightarrow> a \<le> i \<Longrightarrow> i < b \<Longrightarrow> b \<le> length (keys e) \<Longrightarrow>
      \<exists>s'. probe e s i = Some (sgn3 (keys e ! i) (skey e), s') \<and>
        (keys e ! i < skey e \<longrightarrow> inv e s' (i + 1) b) \<and> (skey e < keys e ! i \<longrightarrow> inv e s' a i)"
begin

lemma less_lb:
  assumes "inv e s a b" "i < length (keys e)"
  shows "keys e ! i < skey e \<longleftrightarrow> i < lower_bound (\<lambda>x. x) (keys e) (skey e)"
  using lower_bound_less [of i "\<lambda>x. x" "keys e" "skey e"] sorted_keys [OF assms(1)]
    lower_bound_ge(1) [of "\<lambda>x. x" "keys e" "skey e" i] assms(2)
  by (auto simp: not_less [symmetric])

lemma eq_lb:
  assumes "inv e s a b" "i < length (keys e)" "keys e ! i = skey e"
  shows "lower_bound (\<lambda>x. x) (keys e) (skey e) = i"
  using less_lb [OF assms(1,2)] assms(2,3) sorted_keys [OF assms(1)]
    lower_bound_ge(2) [of "\<lambda>x. x" "keys e" "skey e" i]
  by (cases "lower_bound (\<lambda>x. x) (keys e) (skey e) < i") auto

lemma linearSearchS_searched:
  "\<lbrakk>inv e s first fin; first \<le> (lower_bound (\<lambda>x. x) (keys e) (skey e)); (lower_bound (\<lambda>x. x) (keys e) (skey e)) \<le> fin; fin \<le> length (keys e); fin < length (keys e) \<longrightarrow> keys e ! fin \<noteq> skey e\<rbrakk> \<Longrightarrow>
    linearSearchS (probe e) s first fin = Some (searched (\<lambda>x. x) (keys e) (skey e))"
proof (induction "fin - first" arbitrary: first s)
  case 0
  then have "first = fin" "(lower_bound (\<lambda>x. x) (keys e) (skey e)) = fin" by simp_all
  then show ?case using 0 by (auto simp: linearSearchS.simps searched_def Let_def)
next
  case (Suc n)
  then have f: "first < fin" "first < length (keys e)" by simp_all
  obtain s' where s': "probe e s first = Some (sgn3 (keys e ! first) (skey e), s')" "keys e ! first < skey e \<longrightarrow> inv e s' (first + 1) fin"
    using probe_law [OF Suc.prems(1) _ f(1) Suc.prems(4)] by auto
  show ?case
  proof (cases "keys e ! first < skey e")
    case True
    then have "linearSearchS (probe e) s' (first + 1) fin = Some (searched (\<lambda>x. x) (keys e) (skey e))"
      using Suc s' less_lb [OF Suc.prems(1) f(2)] by (intro Suc.hyps(1)) simp_all
    then show ?thesis using s' f(1) True by (subst linearSearchS.simps) (simp add: sgn3_def)
  next
    case False
    then have "(lower_bound (\<lambda>x. x) (keys e) (skey e)) = first" using less_lb [OF Suc.prems(1) f(2)] Suc.prems(2) by simp
    then show ?thesis using s' f False
      by (subst linearSearchS.simps) (auto simp: searched_def Let_def not_less order_le_less)
  qed
qed

lemma binarySearchS_searched:
  "\<lbrakk>inv e s start fin; start \<le> (lower_bound (\<lambda>x. x) (keys e) (skey e)); (lower_bound (\<lambda>x. x) (keys e) (skey e)) \<le> fin; fin \<le> length (keys e); fin < length (keys e) \<longrightarrow> keys e ! fin \<noteq> skey e\<rbrakk> \<Longrightarrow>
    binarySearchS (probe e) d s start fin = Some (searched (\<lambda>x. x) (keys e) (skey e))"
proof (induction "fin - start" arbitrary: start fin s rule: less_induct)
  case less
  let ?m = "start + (fin - start) div 2"
  show ?case
  proof (cases "start + d < fin")
    case False
    then show ?thesis using linearSearchS_searched less.prems by (subst binarySearchS.simps) simp
  next
    case True
    then have m: "start \<le> ?m" "?m < fin" "?m < length (keys e)" using less.prems(4) by auto
    obtain s' where s': "probe e s ?m = Some (sgn3 (keys e ! ?m) (skey e), s')"
      "keys e ! ?m < skey e \<longrightarrow> inv e s' (?m + 1) fin" "skey e < keys e ! ?m \<longrightarrow> inv e s' start ?m"
      using probe_law [OF less.prems(1) m(1,2) less.prems(4)] by blast
    note unfold = binarySearchS.simps [of "probe e" d s start fin] Let_def s'(1)
    consider "keys e ! ?m < skey e" | "keys e ! ?m = skey e" | "skey e < keys e ! ?m" by (rule linorder_cases)
    then show ?thesis
    proof cases
      case 1
      then have "binarySearchS (probe e) d s' (?m + 1) fin = Some (searched (\<lambda>x. x) (keys e) (skey e))"
        using less.prems s' less_lb [OF less.prems(1) m(3)] m by (intro less.hyps) auto
      then show ?thesis using True 1 by (simp add: unfold)
    next
      case 2
      then show ?thesis using True m eq_lb [OF less.prems(1) m(3) 2] by (simp add: unfold searched_def)
    next
      case 3
      then have "binarySearchS (probe e) d s' start ?m = Some (searched (\<lambda>x. x) (keys e) (skey e))"
        using less.prems s' less_lb [OF less.prems(1) m(3)] m by (intro less.hyps) auto
      moreover have "\<not> keys e ! ?m < skey e" using 3 by simp
      ultimately show ?thesis using True 3 by (simp add: unfold)
    qed
  qed
qed

end

section \<open>Common prefixes of sorted strings\<close>

lemma lcp_ge_iff: "m \<le> lcp a b \<longleftrightarrow> m \<le> length a \<and> m \<le> length b \<and> take m a = take m b"
proof (induction a b arbitrary: m rule: lcp.induct)
  case (1 x xs y ys)
  then show ?case by (cases m) auto
qed auto

lemma prefix_sandwich:
  "\<lbrakk>take m lo = take m hi; m \<le> length lo; lo < x; x < hi\<rbrakk> \<Longrightarrow> take m x = take m lo \<and> m < length (x :: str)"
proof (induction m arbitrary: lo hi x)
  case 0
  then show ?case by (cases x) auto
next
  case (Suc m)
  obtain a lo' where lo: "lo = a # lo'" using Suc.prems(2) by (cases lo) auto
  obtain hi' where hi: "hi = a # hi'" using Suc.prems(1) lo by (cases hi) auto
  obtain c x' where x: "x = c # x'" using Suc.prems(3) lo by (cases x) auto
  have "c = a" using Suc.prems(3,4) lo hi x by auto
  then show ?case using Suc.IH [of lo' hi' x'] Suc.prems lo hi x by auto
qed

lemma lcp_drop: "m \<le> lcp a b \<Longrightarrow> m + lcp (drop m a) (drop m b) = lcp a b"
proof (induction a b arbitrary: m rule: lcp.induct)
  case (1 x xs y ys)
  then show ?case by (cases m) (auto split: if_splits)
qed auto

lemma sgn3_drop_prefix: "m \<le> lcp a b \<Longrightarrow> sgn3 (drop m a) (drop m b) = sgn3 a b"
proof (induction a b arbitrary: m rule: lcp.induct)
  case (1 x xs y ys)
  then show ?case by (cases m) (auto simp: sgn3_Cons_Cons split: if_splits)
qed auto

section \<open>PairLCPCompare keeps its promise\<close>

text \<open>
  The state after some probes of a sorted table with the keys \<open>ks\<close>: the right prefix is the base or
  was found on a key below the range, the left one on a key above it.
\<close>

definition lcp_low :: "str list \<Rightarrow> str \<Rightarrow> nat \<Rightarrow> nat \<Rightarrow> nat \<Rightarrow> nat \<Rightarrow> bool" where
  "lcp_low ks key start r a b \<longleftrightarrow>
     r = start \<or> (\<exists>lo. lo < key \<and> r \<le> lcp lo key \<and> (\<forall>j. a \<le> j \<and> j < b \<longrightarrow> lo < ks ! j))"

definition lcp_high :: "str list \<Rightarrow> str \<Rightarrow> nat \<Rightarrow> nat \<Rightarrow> nat \<Rightarrow> nat \<Rightarrow> bool" where
  "lcp_high ks key start l a b \<longleftrightarrow>
     l = start \<or> (\<exists>hi. key < hi \<and> l \<le> lcp hi key \<and> (\<forall>j. a \<le> j \<and> j < b \<longrightarrow> ks ! j < hi))"

text \<open>Every key of the range shares \<open>start\<close> characters with the search key, and has more.\<close>

definition lcp_base :: "str list \<Rightarrow> str \<Rightarrow> nat \<Rightarrow> nat \<Rightarrow> nat \<Rightarrow> bool" where
  "lcp_base ks key start a b \<longleftrightarrow>
     start < length key \<and> (\<forall>j. a \<le> j \<and> j < b \<longrightarrow> start \<le> lcp (ks ! j) key \<and> start < length (ks ! j))"

definition lcp_inv :: "str list \<Rightarrow> str \<Rightarrow> nat \<Rightarrow> PairLCPCompare \<Rightarrow> nat \<Rightarrow> nat \<Rightarrow> bool" where
  "lcp_inv ks key start s a b \<longleftrightarrow>
     lcp_base ks key start a b \<and> start \<le> prefixL s \<and> start \<le> prefixR s \<and>
     lcp_low ks key start (prefixR s) a b \<and> lcp_high ks key start (prefixL s) a b"

lemma lcp_inv_prefix:
  assumes "lcp_inv ks key start s a b" "a \<le> i" "i < b"
  shows "lcp_state_prefix s \<le> lcp (ks ! i) key" "lcp_state_prefix s < length (ks ! i)"
    "lcp_state_prefix s < length key"
proof -
  let ?m = "lcp_state_prefix s"
  have base: "start \<le> lcp (ks ! i) key" "start < length (ks ! i)" "start < length key" "start \<le> ?m"
    using assms by (simp_all add: lcp_inv_def lcp_base_def lcp_state_prefix_def)
  have "?m \<le> lcp (ks ! i) key \<and> ?m < length (ks ! i) \<and> ?m < length key"
  proof (cases "?m = start")
    case False
    then have "prefixR s \<noteq> start" "prefixL s \<noteq> start" using base(4) by (auto simp: lcp_state_prefix_def)
    then obtain lo hi where lo: "lo < key" "prefixR s \<le> lcp lo key" "lo < ks ! i"
      and hi: "key < hi" "prefixL s \<le> lcp hi key" "ks ! i < hi"
      using assms by (auto simp: lcp_inv_def lcp_low_def lcp_high_def)
    have l: "?m \<le> lcp lo key" "?m \<le> lcp hi key" using lo hi by (simp_all add: lcp_state_prefix_def)
    then have eq: "take ?m lo = take ?m hi" "?m \<le> length lo" "take ?m lo = take ?m key"
      by (simp_all add: lcp_ge_iff)
    from prefix_sandwich [OF eq(1,2) lo(3) hi(3)] prefix_sandwich [OF eq(1,2) lo(1) hi(1)] eq
    show ?thesis by (simp add: lcp_ge_iff)
  qed (use base in simp)
  then show "?m \<le> lcp (ks ! i) key" "?m < length (ks ! i)" "?m < length key" by simp_all
qed

lemma PairLCPCompare_step:
  assumes "lcp_inv ks key start s a b" "a \<le> i" "i < b" "ks ! i = getKey p"
  shows "PairLCPCompare_call p key s =
    Some (sgn3 (ks ! i) key,
      \<lparr>prefixL = (if key \<le> ks ! i then lcp (ks ! i) key else prefixL s),
       prefixR = (if ks ! i \<le> key then lcp (ks ! i) key else prefixR s)\<rparr>)"
proof -
  let ?m = "lcp_state_prefix s"
  note m = lcp_inv_prefix [OF assms(1-3)]
  have "drop ?m (ks ! i) \<noteq> []" "drop ?m key \<noteq> []" using m by simp_all
  note c = cmpLCP_nonempty [OF this]
  have "key \<noteq> []" using m(3) by auto
  then have "pair_cmpLCP_start p key ?m = Some \<lparr>lcp_cmp = sgn3 (ks ! i) key, lcp_prefix = lcp (drop ?m (ks ! i)) (drop ?m key)\<rparr>"
    using c m assms(4) sgn3_drop_prefix [OF m(1)]
    by (simp add: pair_cmpLCP_start_def cmpLCP_start_def substr_def)
  then show ?thesis using lcp_drop [OF m(1)]
    by (cases s) (auto simp: PairLCPCompare_call_def Let_def)
qed

lemma sorted_nth_less: "sorted_wrt (<) (ks :: 'a::linorder list) \<Longrightarrow> i < j \<Longrightarrow> j < length ks \<Longrightarrow> ks ! i < ks ! j"
  by (rule sorted_wrt_nth_less)

text \<open>A search: how the elements are read, their keys, the search key and the prefix that is skipped.\<close>

record lcp_env =
  le_at :: "nat \<Rightarrow> Pair option"
  le_keys :: "str list"
  le_key :: str
  le_start :: nat

definition lcp_probe :: "lcp_env \<Rightarrow> PairLCPCompare probe" where
  "lcp_probe e s i = Option.bind (le_at e i) (\<lambda>p. PairLCPCompare_call p (le_key e) s)"

definition lcp_fit :: "lcp_env \<Rightarrow> PairLCPCompare \<Rightarrow> nat \<Rightarrow> nat \<Rightarrow> bool" where
  "lcp_fit e s a b \<longleftrightarrow>
     sorted_wrt (<) (le_keys e) \<and>
     (\<forall>i < length (le_keys e). \<exists>p. le_at e i = Some p \<and> getKey p = le_keys e ! i) \<and>
     lcp_inv (le_keys e) (le_key e) (le_start e) s a b"

interpretation lcps: stateful_search lcp_probe le_keys le_key lcp_fit
proof
  fix e s a b
  assume "lcp_fit e s a b"
  then show "sorted_wrt (<) (le_keys e)" by (simp add: lcp_fit_def)
next
  fix e s a b i
  assume fit: "lcp_fit e s a b" and i: "a \<le> i" "i < b" "b \<le> length (le_keys e)"
  let ?ks = "le_keys e" and ?key = "le_key e" and ?start = "le_start e"
  have sorted: "sorted_wrt (<) ?ks" and inv: "lcp_inv ?ks ?key ?start s a b"
    using fit by (simp_all add: lcp_fit_def)
  have "i < length ?ks" using i by simp
  then obtain p where p: "le_at e i = Some p" "?ks ! i = getKey p" using fit by (auto simp: lcp_fit_def)
  let ?s = "\<lparr>prefixL = (if ?key \<le> ?ks ! i then lcp (?ks ! i) ?key else prefixL s),
       prefixR = (if ?ks ! i \<le> ?key then lcp (?ks ! i) ?key else prefixR s)\<rparr>"
  have start: "?start \<le> lcp (?ks ! i) ?key" using inv i by (simp add: lcp_inv_def lcp_base_def)
  have "lcp_fit e ?s (i + 1) b" if "?ks ! i < ?key"
  proof -
    have "lcp_low ?ks ?key ?start (lcp (?ks ! i) ?key) (i + 1) b"
      unfolding lcp_low_def using that i sorted_nth_less [OF sorted, of i] by auto
    then show ?thesis using fit inv i start that
      by (auto simp: lcp_fit_def lcp_inv_def lcp_base_def lcp_high_def)
  qed
  moreover have "lcp_fit e ?s a i" if "?key < ?ks ! i"
  proof -
    have "lcp_high ?ks ?key ?start (lcp (?ks ! i) ?key) a i"
      unfolding lcp_high_def using that i sorted_nth_less [OF sorted, of _ i] by auto
    then show ?thesis using fit inv i start that
      by (auto simp: lcp_fit_def lcp_inv_def lcp_base_def lcp_low_def)
  qed
  moreover have "lcp_probe e s i = Some (sgn3 (?ks ! i) ?key, ?s)"
    using PairLCPCompare_step [OF inv i(1,2) p(2)] p(1) by (simp add: lcp_probe_def)
  ultimately show "\<exists>s'. lcp_probe e s i = Some (sgn3 (?ks ! i) ?key, s') \<and>
      (?ks ! i < ?key \<longrightarrow> lcp_fit e s' (i + 1) b) \<and> (?key < ?ks ! i \<longrightarrow> lcp_fit e s' a i)"
    by blast
qed

lemma lcp_search_correct:
  assumes "sorted_wrt (<) ks"
    and "\<And>i. i < length ks \<Longrightarrow> \<exists>p. at i = Some p \<and> getKey p = ks ! i"
    and "lcp_base ks key start a b" "a \<le> lower_bound (\<lambda>x. x) ks key" "lower_bound (\<lambda>x. x) ks key \<le> b"
    and "b \<le> length ks" "b < length ks \<longrightarrow> ks ! b \<noteq> key"
  shows "binarySearchS (\<lambda>s i. Option.bind (at i) (\<lambda>p. PairLCPCompare_call p key s)) d (mkPairLCPCompare start) a b =
    Some (searched (\<lambda>x. x) ks key)"
proof -
  let ?e = "\<lparr>le_at = at, le_keys = ks, le_key = key, le_start = start\<rparr>"
  have "lcp_fit ?e (mkPairLCPCompare start) a b"
    using assms by (simp add: lcp_fit_def lcp_inv_def mkPairLCPCompare_def lcp_low_def lcp_high_def)
  from lcps.binarySearchS_searched [OF this, of d] assms(4-7) show ?thesis
    by (simp add: lcp_probe_def [abs_def])
qed

end
