(* ===== verification/DiskOpen.thy ===== *)
theory DiskOpen
  imports DiskFile LCPSearch IList
begin

text \<open>
  \<^verbatim>\<open>hm4/disk/disklist.h\<close> and \<^verbatim>\<open>hm4/disk/disklist.cc\<close>: the state of a disk table, how it is opened,
  which search it selects, element access and the binary search over the table.  The mapping that
  the system gives for each file of the table is an argument of the open operations.
\<close>

section \<open>The state\<close>

datatype SearchMode = BINARY | HOTLINE | HASHINDEX | BTREE

datatype OpenMode = OPEN_NORMAL | OPEN_MINIMAL | OPEN_FORWARD

definition bg_closed :: BlobGuard where
  "bg_closed = \<lparr>bg_data = 0, bg_mem = []\<rparr>"

record DiskList =
  mIndx :: BlobGuard
  mLine :: BlobGuard
  mHash :: BlobGuard
  mData :: BlobGuard
  mTree :: BlobGuard
  mKeys :: BlobGuard
  metadata :: FileMeta
  searchMode_T :: SearchMode
  searchMode_F :: SearchMode
  dk_aligned :: bool
  dk_id :: u64

text \<open>A new object; the header that the constructor clears is whatever was in memory.\<close>

definition mkDiskList :: "FileMeta \<Rightarrow> DiskList" where
  "mkDiskList m =
     \<lparr>mIndx = bg_closed, mLine = bg_closed, mHash = bg_closed, mData = bg_closed, mTree = bg_closed,
      mKeys = bg_closed, metadata = meta_clear m, searchMode_T = BINARY, searchMode_F = BINARY,
      dk_aligned = True, dk_id = 0\<rparr>"

text \<open>The files of a table: the header, and the mapping of each other file that can be opened.\<close>

record DiskFiles =
  f_meta :: "str option"
  f_indx :: "BlobGuard option"
  f_line :: "BlobGuard option"
  f_hash :: "BlobGuard option"
  f_data :: "BlobGuard option"
  f_tree :: "BlobGuard option"
  f_keys :: "BlobGuard option"

definition oc_open :: "BlobGuard option \<Rightarrow> bool \<times> BlobGuard" where
  "oc_open f = (case f of None \<Rightarrow> (False, bg_closed) | Some g \<Rightarrow> (True, g))"

definition mf_bool :: "BlobGuard \<Rightarrow> bool" where
  "mf_bool g \<longleftrightarrow> bg_data g \<noteq> 0"

definition dk_size :: "DiskList \<Rightarrow> u64" where
  "dk_size l = meta_size (metadata l)"

definition dk_createdMin :: "DiskList \<Rightarrow> u64" where
  "dk_createdMin l = meta_createdMin (metadata l)"

definition dk_createdMax :: "DiskList \<Rightarrow> u64" where
  "dk_createdMax l = meta_createdMax (metadata l)"

definition dk_bytes :: "DiskList \<Rightarrow> u64" where
  "dk_bytes l = bg_size (mData l)"

section \<open>Opening\<close>

definition checkMetadata :: "FileMeta \<Rightarrow> bool" where
  "checkMetadata m =
     (if \<not> meta_bool m then False
      else if \<not> meta_sorted m then False
      else if meta_size m = 0 then False
      else True)"

definition openForRepair :: "DiskFiles \<Rightarrow> bool \<Rightarrow> DiskList \<Rightarrow> bool \<times> DiskList" where
  "openForRepair fs aligned l =
     (let (ok, g) = oc_open (f_data fs) in (ok, l\<lparr>dk_aligned := aligned, mData := g\<rparr>))"

definition openForward :: "DiskFiles \<Rightarrow> DiskList \<Rightarrow> bool \<times> DiskList" where
  "openForward fs l =
     (let l = l\<lparr>metadata := snd (meta_open (metadata l) (f_meta fs))\<rparr> in
      if \<not> checkMetadata (metadata l) then (False, l)
      else
        (let (result, g) = oc_open (f_data fs);
             l = l\<lparr>mData := g\<rparr>
         in if \<not> result then (result, l\<lparr>metadata := meta_clear (metadata l)\<rparr>) else (result, l)))"

definition openMinimal :: "DiskFiles \<Rightarrow> DiskList \<Rightarrow> bool \<times> DiskList" where
  "openMinimal fs l =
     (let l = l\<lparr>metadata := snd (meta_open (metadata l) (f_meta fs))\<rparr> in
      if \<not> checkMetadata (metadata l) then (False, l)
      else
        (let (b1, gd) = oc_open (f_data fs);
             l = l\<lparr>mData := gd\<rparr>;
             (b2, gi) = oc_open (f_indx fs);
             l = l\<lparr>mIndx := gi\<rparr>;
             b3 = (bg_sizeAs 8 (mIndx l) = dk_size l);
             l = l\<lparr>dk_aligned := meta_aligned (metadata l)\<rparr>;
             result = (b1 \<and> b2 \<and> b3)
         in if \<not> result then (result, l\<lparr>metadata := meta_clear (metadata l)\<rparr>) else (result, l)))"

definition openNormal :: "DiskFiles \<Rightarrow> DiskList \<Rightarrow> bool \<times> DiskList" where
  "openNormal fs l =
     (let (ok, l) = openMinimal fs l in
      if \<not> ok then (False, l)
      else
        (let (b, g) = oc_open (f_line fs);
             l = l\<lparr>mLine := g\<rparr>;
             l = (if b \<and> bg_sizeAs 16 (mLine l) = 0 then l\<lparr>mLine := bg_closed\<rparr> else l);
             (b, g) = oc_open (f_hash fs);
             l = l\<lparr>mHash := g\<rparr>;
             l = (if b \<and> bg_sizeAs 16 (mHash l) < 64 then l\<lparr>mHash := bg_closed\<rparr> else l);
             (b, g) = oc_open (f_tree fs);
             l = l\<lparr>mTree := g\<rparr>;
             l = (if b then l\<lparr>mKeys := snd (oc_open (f_keys fs))\<rparr> else l)
         in (True, l)))"

definition calcSearchMode :: "DiskList \<Rightarrow> DiskList" where
  "calcSearchMode l =
     (let x = (mf_bool (mTree l) \<and> mf_bool (mKeys l), mf_bool (mHash l), mf_bool (mLine l));
          (t, f) = (case x of
              (False, False, False) \<Rightarrow> (BINARY, BINARY)
            | (False, False, True) \<Rightarrow> (HOTLINE, HOTLINE)
            | (False, True, False) \<Rightarrow> (HASHINDEX, BINARY)
            | (False, True, True) \<Rightarrow> (HASHINDEX, HOTLINE)
            | (True, False, _) \<Rightarrow> (BTREE, BTREE)
            | (True, True, _) \<Rightarrow> (HASHINDEX, BTREE))
      in l\<lparr>searchMode_T := t, searchMode_F := f\<rparr>)"

definition dk_open :: "u64 \<Rightarrow> DiskFiles \<Rightarrow> OpenMode \<Rightarrow> DiskList \<Rightarrow> bool \<times> DiskList" where
  "dk_open i fs mode l =
     (let l = l\<lparr>dk_id := i\<rparr>;
          (result, l) = (case mode of
              OPEN_NORMAL \<Rightarrow> openNormal fs l
            | OPEN_MINIMAL \<Rightarrow> openMinimal fs l
            | OPEN_FORWARD \<Rightarrow> openForward fs l)
      in (result, calcSearchMode l))"

definition dk_close :: "DiskList \<Rightarrow> DiskList" where
  "dk_close l =
     l\<lparr>mIndx := bg_closed, mData := bg_closed, mLine := bg_closed, mHash := bg_closed,
       mTree := bg_closed, mKeys := bg_closed\<rparr>"

section \<open>Access\<close>

text \<open>\<open>operator[]\<close>; \<open>None\<close> is the failed assertion or the dereference of a null or wild pointer.\<close>

definition dk_at :: "DiskList \<Rightarrow> u64 \<Rightarrow> pptr option" where
  "dk_at l index =
     (if \<not> index < dk_size l then None
      else case fdGetAt (mData l) (mIndx l) index of
        Ptr p \<Rightarrow> Some (p, pair_at (mData l) p)
      | _ \<Rightarrow> None)"

definition dk_begin :: "DiskList \<Rightarrow> forward_iterator" where
  "dk_begin l = fi_begin (mData l) (dk_aligned l)"

text \<open>The conversion of a random access iterator into a forward iterator; the end has a null pair.\<close>

definition ra_to_forward :: "DiskList \<Rightarrow> u64 \<Rightarrow> forward_iterator" where
  "ra_to_forward l p =
     (if p \<ge> dk_size l then \<lparr>fi_blob = bg_closed, fi_pair = Null, fi_aligned = False\<rparr>
      else \<lparr>fi_blob = mData l, fi_pair = fdGetAt (mData l) (mIndx l) p, fi_aligned = dk_aligned l\<rparr>)"

definition searchBinary :: "nat \<Rightarrow> str \<Rightarrow> DiskList \<Rightarrow> nat \<Rightarrow> nat \<Rightarrow> BinarySearchResult option" where
  "searchBinary start key l first fin =
     binarySearchS (\<lambda>s i. Option.bind (dk_at l (of_nat i)) (\<lambda>p. PairLCPCompare_call (snd p) key s)) 5
       (mkPairLCPCompare start) first fin"

definition searchBinary_all :: "str \<Rightarrow> DiskList \<Rightarrow> BinarySearchResult option" where
  "searchBinary_all key l = searchBinary 0 key l 0 (unat (dk_size l))"

section \<open>The table that a list of pairs was built into\<close>

definition dk_maps :: "DiskList \<Rightarrow> Pair list \<Rightarrow> bool" where
  "dk_maps l ps \<longleftrightarrow>
     maps_data (mData l) (dk_aligned l) ps \<and> maps_indx (mIndx l) (dk_aligned l) ps \<and>
     dk_size l = of_nat (length ps) \<and> sorted_wrt (<) (map getKey ps) \<and> list_all (\<lambda>p. getKey p \<noteq> []) ps"

lemma dk_maps_length:
  assumes "dk_maps l ps"
  shows "length ps < 2 ^ 61" "unat (dk_size l) = length ps" "i < length ps \<Longrightarrow> unat (of_nat i :: u64) = i"
proof -
  have "bg_ok (mIndx l)" "length (bg_mem (mIndx l)) = 8 * length ps"
    using assms indx_bytes_entry(2) [of 0 ps "dk_aligned l" 0]
    by (cases ps; simp add: dk_maps_def maps_indx_def indx_bytes_def)+
  then show n: "length ps < 2 ^ 61" by (simp add: bg_ok_def)
  then show "unat (dk_size l) = length ps" using assms by (simp add: dk_maps_def unat_of_nat_small)
  show "unat (of_nat i :: u64) = i" if "i < length ps" using n that by (intro unat_of_nat_small) simp
qed

lemma dk_at_maps:
  assumes "dk_maps l ps" "i < length ps"
  obtains q where "dk_at l (of_nat i) = Some q" "pair_trim (snd q) = pair_trim (ps ! i)"
    "getKey (snd q) = getKey (ps ! i)"
proof -
  note n = dk_maps_length [OF assms(1)]
  have m: "maps_data (mData l) (dk_aligned l) ps" "maps_indx (mIndx l) (dk_aligned l) ps"
    using assms(1) by (simp_all add: dk_maps_def)
  let ?q = "(record_ptr (mData l) (dk_aligned l) ps i, pair_at (mData l) (record_ptr (mData l) (dk_aligned l) ps i))"
  have t: "pair_trim (snd ?q) = pair_trim (ps ! i)" using record_access(2) [OF m(1) assms(2)] by simp
  moreover have "getKey (snd ?q) = getKey (ps ! i)"
    using arg_cong [OF t, of getKey] by (simp add: pair_trim_accessors)
  moreover have "dk_at l (of_nat i) = Some ?q"
    using fdGetAt_maps [OF m assms(2)] n(2) n(3) [OF assms(2)] assms(2)
    by (simp add: dk_at_def word_less_nat_alt)
  ultimately show ?thesis using that by blast
qed

text \<open>The binary search of a part of the table that holds the lower bound.\<close>

lemma searchBinary_range:
  assumes "dk_maps l ps" "lcp_base (map getKey ps) key start a b"
    and "a \<le> lower_bound getKey ps key" "lower_bound getKey ps key \<le> b" "b \<le> length ps"
    and "b < length ps \<longrightarrow> getKey (ps ! b) \<noteq> key"
  shows "searchBinary start key l a b = Some (searched getKey ps key)"
proof -
  let ?ks = "map getKey ps"
  have lb: "lower_bound (\<lambda>x. x) ?ks key = lower_bound getKey ps key"
    by (simp add: lower_bound_def takeWhile_map o_def)
  have sr: "searched (\<lambda>x. x) ?ks key = searched getKey ps key"
    using lower_bound_le [of getKey ps key] by (auto simp: searched_def lb Let_def)
  have at: "\<exists>p. map_option snd (dk_at l (of_nat i)) = Some p \<and> getKey p = ?ks ! i" if "i < length ?ks" for i
    using dk_at_maps [OF assms(1), of i] that by (metis length_map nth_map option.simps(9))
  have "binarySearchS (\<lambda>s i. Option.bind (map_option snd (dk_at l (of_nat i))) (\<lambda>p. PairLCPCompare_call p key s)) 5
      (mkPairLCPCompare start) a b = Some (searched (\<lambda>x. x) ?ks key)"
    using assms at lb by (intro lcp_search_correct) (simp_all add: dk_maps_def)
  then show ?thesis by (simp add: searchBinary_def sr Option.bind_map_option o_def)
qed

lemma searchBinary_all_maps:
  assumes "dk_maps l ps" "key \<noteq> []"
  shows "searchBinary_all key l = Some (searched getKey ps key)"
  unfolding searchBinary_all_def dk_maps_length(2) [OF assms(1)]
  using assms lower_bound_le [of getKey ps key]
  by (intro searchBinary_range) (auto simp: lcp_base_def dk_maps_def list_all_length)

section \<open>Opening a table that was built\<close>

text \<open>The files of the build of \<open>ps\<close>, mapped; the indexes may be there or not.\<close>

definition files_of :: "DiskFiles \<Rightarrow> bool \<Rightarrow> u32 \<Rightarrow> Pair list \<Rightarrow> bool" where
  "files_of fs aligned now32 ps \<longleftrightarrow>
     f_meta fs = Some (meta_file now32 aligned ps) \<and>
     (\<exists>gd gi. f_data fs = Some gd \<and> maps_data gd aligned ps \<and> f_indx fs = Some gi \<and> maps_indx gi aligned ps)"

lemma openMinimal_files:
  assumes "files_of fs aligned now32 ps" "blob_wf (metadata l)" "ps \<noteq> []"
    and "sorted_wrt (<) (map getKey ps)" "list_all (\<lambda>p. getKey p \<noteq> []) ps"
  obtains l' where "openMinimal fs l = (True, l')" "dk_maps l' ps" "dk_aligned l' = aligned"
    "metadata l' = metaBuilder_blob now32 aligned (fold metaBuilder_push ps metaBuilder_init)"
proof -
  obtain gd gi where fs: "f_meta fs = Some (meta_file now32 aligned ps)"
    "f_data fs = Some gd" "maps_data gd aligned ps" "f_indx fs = Some gi" "maps_indx gi aligned ps"
    using assms(1) by (auto simp: files_of_def)
  let ?m = "metaBuilder_blob now32 aligned (fold metaBuilder_push ps metaBuilder_init)"
  note acc = metaBuilder_accessors [of now32 aligned ps]
  have len: "length (bg_mem gi) = 8 * length ps" "bg_ok gi"
    using fs(5) indx_bytes_entry(2) [of 0 ps aligned 0] assms(3) by (simp_all add: maps_indx_def)
  then have n: "length ps < 2 ^ 61" by (simp add: bg_ok_def)
  have "unat (bg_sizeAs 8 gi) = length ps"
    using len bg_size_nat [OF len(2)] by (simp add: bg_sizeAs_def unat_div)
  then have b3: "bg_sizeAs 8 gi = of_nat (length ps)" using n by (simp add: word_unat_eq_iff unat_of_nat)
  have "(of_nat (length ps) :: u64) \<noteq> 0"
  proof
    assume "(of_nat (length ps) :: u64) = 0"
    then show False using n assms(3) unat_of_nat_small [of "length ps"] by simp
  qed
  then have c: "checkMetadata ?m" using acc by (simp add: checkMetadata_def)
  let ?l = "l\<lparr>metadata := ?m, mData := gd, mIndx := gi, dk_aligned := aligned\<rparr>"
  have "openMinimal fs l = (True, ?l)"
    using fs c b3 acc meta_file_open [OF assms(2), of now32 aligned ps]
    by (simp add: openMinimal_def Let_def oc_open_def dk_size_def)
  moreover have "dk_maps ?l ps" using fs assms(4,5) acc by (simp add: dk_maps_def dk_size_def)
  ultimately show ?thesis using that by simp
qed

end
