(* ===== verification/HotLine.thy ===== *)
theory HotLine
  imports DiskOpen
begin

text \<open>
  The hot line of a disk table: \<open>searchHotLine\<close> of \<^verbatim>\<open>hm4/disk/disklist.cc\<close> over the file that
  \<open>FileLineBuilder\<close> of \<^verbatim>\<open>hm4/disk/filebuilder.cc\<close> writes.  The file has one node per run of keys with
  the same first eight characters, so that a lookup is a binary search over integers followed by one
  inside the run.
\<close>

section \<open>The code\<close>

record HotLineNode =
  hn_key :: u64
  hn_pos :: u64

definition hotline_nodes :: "BlobGuard \<Rightarrow> u64 \<Rightarrow> HotLineNode list" where
  "hotline_nodes g n =
     map (\<lambda>i. \<lparr>hn_key = load64 (drop (16 * i) (bg_mem g)), hn_pos = load64 (drop (16 * i + 8) (bg_mem g))\<rparr>)
       [0..<unat n]"

definition hotline_comp :: "HotLineNode \<Rightarrow> u64 \<Rightarrow> int" where
  "hotline_comp node hkey = snd (SS_compare (betoh64 (hn_key node)) hkey)"

definition searchHotLine :: "str \<Rightarrow> DiskList \<Rightarrow> BinarySearchResult option" where
  "searchHotLine key l =
     (let (nodes, nodesCount) = bg_asArray 16 (mLine l) 0 in
      if nodes = None then searchBinary_all key l
      else
        (let hkey = SS_create key;
             ns = hotline_nodes (mLine l) nodesCount;
             r = binarySearch hotline_comp ns hkey
         in if bs_it r = length ns then Some \<lparr>bs_found = False, bs_it = unat (dk_size l)\<rparr>
            else
              (let listPos = betoh64 (hn_pos (ns ! bs_it r)) in
               if listPos \<ge> dk_size l then searchBinary_all key l
               else if \<not> bs_found r then Some \<lparr>bs_found = False, bs_it = unat listPos\<rparr>
               else if length key < SS_N then Some \<lparr>bs_found = True, bs_it = unat listPos\<rparr>
               else if length key = SS_N then
                 Option.bind (dk_at l listPos)
                   (\<lambda>p. Some \<lparr>bs_found = equalsX SS_N (snd p) key, bs_it = unat listPos\<rparr>)
               else
                 (let listPosLast = (if bs_it r + 1 = length ns then dk_size l
                                     else betoh64 (hn_pos (ns ! (bs_it r + 1))))
                  in searchBinary SS_N key l (unat listPos) (unat listPosLast)))))"

section \<open>Runs of equal values\<close>

text \<open>The positions where the value differs from the one before; \<open>h\<close> is the value before the first.\<close>

fun runs :: "'a \<Rightarrow> nat \<Rightarrow> 'a list \<Rightarrow> nat list" where
  "runs h i [] = []"
| "runs h i (x # xs) = (if x \<noteq> h then i # runs x (i + 1) xs else runs h (i + 1) xs)"

lemma runs_range: "r \<in> set (runs h i xs) \<Longrightarrow> i \<le> r \<and> r < i + length xs"
  by (induction xs arbitrary: h i) (force split: if_splits)+

lemma runs_sorted: "sorted_wrt (<) (runs h i xs)"
proof (induction xs arbitrary: h i)
  case (Cons x xs)
  show ?case using Cons.IH runs_range [of _ x "i + 1" xs] by (auto simp: Suc_le_eq)
qed simp

lemma nth_Cons_shift: "i + 1 \<le> r \<Longrightarrow> (x # xs) ! (r - i) = xs ! (r - (i + 1))"
  by (simp add: nth_Cons')

lemma runs_cover:
  "j < length xs \<Longrightarrow> xs ! j = h \<or> (\<exists>r \<in> set (runs h i xs). r \<le> i + j \<and> xs ! (r - i) = xs ! j)"
proof (induction xs arbitrary: h i j)
  case (Cons x xs)
  show ?case
  proof (cases j)
    case 0
    then show ?thesis by (cases "x = h") auto
  next
    case (Suc k)
    then have "xs ! k = x \<or> (\<exists>r \<in> set (runs x (i + 1) xs). r \<le> i + 1 + k \<and> xs ! (r - (i + 1)) = xs ! k)"
      using Cons.IH [of k x "i + 1"] Cons.prems by simp
    then show ?thesis
    proof
      assume "xs ! k = x"
      then show ?thesis using Suc by auto
    next
      assume "\<exists>r \<in> set (runs x (i + 1) xs). r \<le> i + 1 + k \<and> xs ! (r - (i + 1)) = xs ! k"
      then obtain r where r: "r \<in> set (runs x (i + 1) xs)" "r \<le> i + 1 + k" "xs ! (r - (i + 1)) = xs ! k" by blast
      have "i + 1 \<le> r" using runs_range [OF r(1)] by simp
      then have "(x # xs) ! (r - i) = xs ! (r - (i + 1))" by (rule nth_Cons_shift)
      then show ?thesis using r Suc by (intro disjI2 bexI [of _ r]) auto
    qed
  qed
qed simp

lemma runs_increasing:
  "sorted (h # xs) \<Longrightarrow> sorted_wrt (<) (h # map (\<lambda>r. xs ! (r - i)) (runs h i (xs :: 'a::linorder list)))"
proof (induction xs arbitrary: h i)
  case (Cons x xs)
  have IH: "sorted_wrt (<) (x # map (\<lambda>r. xs ! (r - (i + 1))) (runs x (i + 1) xs))" using Cons by simp
  have eq: "map (\<lambda>r. (x # xs) ! (r - i)) (runs x (i + 1) xs) = map (\<lambda>r. xs ! (r - (i + 1))) (runs x (i + 1) xs)"
  proof (rule map_cong [OF refl])
    fix r assume "r \<in> set (runs x (i + 1) xs)"
    from runs_range [OF this] have "i + 1 \<le> r" by simp
    then show "(x # xs) ! (r - i) = xs ! (r - (i + 1))" by (rule nth_Cons_shift)
  qed
  show ?case
  proof (cases "x = h")
    case True
    then show ?thesis using IH eq by (simp del: map_eq_conv)
  next
    case False
    then have "h < x" using Cons.prems by auto
    then show ?thesis using IH eq False by (auto simp del: map_eq_conv intro: less_trans)
  qed
qed simp

section \<open>The file of the line builder\<close>

definition pair_hkey :: "Pair \<Rightarrow> u64" where
  "pair_hkey p = SS_create (getKey p)"

definition line_bytes :: "u64 \<Rightarrow> nat \<Rightarrow> Pair list \<Rightarrow> str" where
  "line_bytes h i ps =
     concat (map (\<lambda>r. writeU64 (pair_hkey (ps ! (r - i))) @ writeU64 (of_nat r)) (runs h i (map pair_hkey ps)))"

lemma SS_BigEndian: "SS_create_order BigEndian k = htobe64 (SS_create k)"
  by (simp add: SS_create_def SS_create_order_def SS_result_def)

lemma line_bytes_Cons:
  "line_bytes h i (p # ps) =
     (if pair_hkey p \<noteq> h then writeU64 (pair_hkey p) @ writeU64 (of_nat i) else []) @
     line_bytes (pair_hkey p) (i + 1) ps"
proof -
  have "map (\<lambda>r. writeU64 (pair_hkey ((p # ps) ! (r - i))) @ writeU64 (of_nat r)) (runs (pair_hkey p) (i + 1) (map pair_hkey ps)) =
      map (\<lambda>r. writeU64 (pair_hkey (ps ! (r - (i + 1)))) @ writeU64 (of_nat r)) (runs (pair_hkey p) (i + 1) (map pair_hkey ps))"
  proof (rule map_cong [OF refl])
    fix r assume "r \<in> set (runs (pair_hkey p) (i + 1) (map pair_hkey ps))"
    from runs_range [OF this] have "i + 1 \<le> r" by simp
    then have "(p # ps) ! (r - i) = ps ! (r - (i + 1))" by (rule nth_Cons_shift)
    then show "writeU64 (pair_hkey ((p # ps) ! (r - i))) @ writeU64 (of_nat r) =
        writeU64 (pair_hkey (ps ! (r - (i + 1)))) @ writeU64 (of_nat r)" by simp
  qed
  then show ?thesis by (auto simp: line_bytes_def simp del: map_eq_conv)
qed

lemma builder_run_line:
  assumes "fbd_line b = \<lparr>lb_pos = of_nat i, lb_hkey = htobe64 h\<rparr>"
  shows "concat (fst (snd (fst (builder_run aligned ps b)))) = line_bytes h i ps"
  using assms
proof (induction ps arbitrary: b h i)
  case (Cons p ps)
  let ?h = "pair_hkey p"
  have l: "lineBuilder p (fbd_line b) =
      (if ?h \<noteq> h then [writeU64 ?h, writeU64 (of_nat i)] else [], \<lparr>lb_pos = of_nat (i + 1), lb_hkey = htobe64 ?h\<rparr>)"
    using Cons.prems
    by (auto simp: lineBuilder_def Let_def SS_BigEndian pair_hkey_def writeU64_def writeStr_def add.commute)
  obtain wi j where wi: "indxBuilder aligned p (fbd_indx b) = (wi, j)" by fastforce
  let ?b = "b\<lparr>fbd_meta := metaBuilder_push p (fbd_meta b), fbd_indx := j,
      fbd_line := \<lparr>lb_pos = of_nat (i + 1), lb_hkey = htobe64 ?h\<rparr>\<rparr>"
  obtain wl where wl: "wl = (if ?h \<noteq> h then [writeU64 ?h, writeU64 (of_nat i)] else [])" by blast
  have pb: "push_back aligned p b = ((wi, wl, dataBuilder aligned p), ?b)"
    using l wi wl by (simp add: push_back_def Let_def)
  obtain wi' wl' wd' b' where r: "builder_run aligned ps ?b = ((wi', wl', wd'), b')" by (metis prod.collapse)
  have run: "builder_run aligned (p # ps) b = ((wi @ wi', wl @ wl', dataBuilder aligned p @ wd'), b')"
    unfolding builder_run.simps pb Let_def prod.case r ..
  have "concat wl' = line_bytes ?h (i + 1) ps" using Cons.IH [of ?b "i + 1" ?h] r by simp
  then show ?case unfolding run by (simp add: line_bytes_Cons wl)
qed (simp add: line_bytes_def)

lemma FileBuilder_build_line:
  "dt_line (FileBuilder_build True now now32 aligned ps) = line_bytes 0 0 ps"
proof -
  obtain wi wl wd b where r: "builder_run aligned ps FileBuilder_init = ((wi, wl, wd), b)"
    by (metis prod.collapse)
  have "fbd_line FileBuilder_init = \<lparr>lb_pos = of_nat 0, lb_hkey = htobe64 0\<rparr>" by (simp add: FileBuilder_init_def)
  from builder_run_line [OF this, of aligned ps] show ?thesis
    unfolding r by (simp add: FileBuilder_build_def r)
qed

text \<open>The nodes that the mapped file holds.\<close>

definition line_node :: "Pair list \<Rightarrow> nat \<Rightarrow> HotLineNode" where
  "line_node ps r = \<lparr>hn_key = htobe64 (pair_hkey (ps ! r)), hn_pos = htobe64 (of_nat r)\<rparr>"

definition line_runs :: "Pair list \<Rightarrow> nat list" where
  "line_runs ps = runs 0 0 (map pair_hkey ps)"

lemma length_runs_le: "length (runs h i xs) \<le> length xs"
  by (induction xs arbitrary: h i) (auto intro: le_SucI)

lemma concat_blocks_nth:
  assumes "\<And>x. x \<in> set xs \<Longrightarrow> length (f x) = m" "j < length xs"
  shows "drop (m * j) (concat (map f xs)) = f (xs ! j) @ concat (map f (drop (Suc j) xs))"
  using assms
proof (induction xs arbitrary: j)
  case (Cons x xs)
  show ?case
  proof (cases j)
    case (Suc k)
    then show ?thesis using Cons.IH [of k] Cons.prems by simp
  qed simp
qed simp

lemma line_nodes_maps:
  assumes "bg_ok g" "bg_mem g = line_bytes 0 0 ps" "ps \<noteq> []" "pair_hkey (hd ps) \<noteq> 0"
  shows "\<exists>ptr. bg_asArray 16 g 0 = (Some ptr, of_nat (length (line_runs ps)))"
    "hotline_nodes g (of_nat (length (line_runs ps))) = map (line_node ps) (line_runs ps)"
proof -
  let ?R = "line_runs ps"
  let ?f = "\<lambda>r. writeU64 (pair_hkey (ps ! r)) @ writeU64 (of_nat r)"
  have mem: "bg_mem g = concat (map ?f ?R)" using assms(2) by (simp add: line_bytes_def line_runs_def)
  then have len: "length (bg_mem g) = 16 * length ?R"
    by (simp add: length_concat o_def sum_list_triv)
  then have n: "length ?R < 2 ^ 60" using assms(1) by (simp add: bg_ok_def)
  have ne: "?R \<noteq> []" using assms(3,4) by (cases ps) (auto simp: line_runs_def)
  have u: "unat (of_nat (length ?R) :: u64) = length ?R" using n by (intro unat_of_nat_small) simp
  have "unat (bg_sizeAs 16 g) = length ?R"
    using len bg_size_nat [OF assms(1)] by (simp add: bg_sizeAs_def unat_div)
  then have sz: "bg_sizeAs 16 g = of_nat (length ?R)" using u by (simp add: word_unat_eq_iff)
  have "safeAccessMemory g 0 (of_nat (length ?R) * 16) \<noteq> None"
    using safeAccess_nat [OF assms(1), of 0 "length ?R * 16"] n ne len by simp
  then show "\<exists>ptr. bg_asArray 16 g 0 = (Some ptr, of_nat (length ?R))"
    by (auto simp: bg_asArray_def sz Let_def)
  show "hotline_nodes g (of_nat (length ?R)) = map (line_node ps) ?R"
  proof (rule nth_equalityI)
    fix j assume "j < length (hotline_nodes g (of_nat (length ?R)))"
    then have j: "j < length ?R" by (simp add: hotline_nodes_def u)
    have d: "drop (16 * j) (bg_mem g) = ?f (?R ! j) @ concat (map ?f (drop (Suc j) ?R))"
      unfolding mem using j by (intro concat_blocks_nth) simp_all
    then have "drop (16 * j + 8) (bg_mem g) = writeU64 (of_nat (?R ! j)) @ concat (map ?f (drop (Suc j) ?R))"
      unfolding add.commute [of "16 * j" 8] drop_drop [symmetric] d by simp
    then show "hotline_nodes g (of_nat (length ?R)) ! j = map (line_node ps) ?R ! j"
      using d j by (simp add: hotline_nodes_def u line_node_def writeU64_def)
  qed (simp add: hotline_nodes_def u)
qed

section \<open>The search of a built table\<close>

lemma snd_SS_compare: "snd (SS_compare a b) = sgn3 a b"
  by (simp add: SS_compare_def SS_sizeCheck_def Let_def)

interpretation hls: search_order hotline_comp "\<lambda>n. betoh64 (hn_key n)" "\<lambda>k. k" "\<lambda>n. True" "\<lambda>k. True"
  by unfold_locales (simp_all add: hotline_comp_def snd_SS_compare)

text \<open>Tables whose keys have no zero byte among the first eight characters.\<close>

definition line_ok :: "Pair list \<Rightarrow> bool" where
  "line_ok ps \<longleftrightarrow> sorted_wrt (<) (map getKey ps) \<and> list_all (\<lambda>p. getKey p \<noteq> [] \<and> nul_free (getKey p)) ps"

lemma pair_hkey_pos:
  assumes "nul_free (getKey p)" "getKey p \<noteq> []"
  shows "0 < pair_hkey p"
proof -
  have "SS_create [] < SS_create (getKey p)"
    unfolding SS_create_less_iff using assms
    by (cases "getKey p") (auto simp: nul_free_def numeral_eq_Suc pad_def word_gt_0)
  then show ?thesis by (metis pair_hkey_def word_gt_0 word_not_simps(1))
qed

lemma line_ok_sorted:
  assumes "line_ok ps"
  shows "sorted (0 # map pair_hkey ps)"
proof -
  have "pair_hkey (ps ! i) \<le> pair_hkey (ps ! j)" if "i < j" "j < length ps" for i j
  proof -
    have "getKey (ps ! i) < getKey (ps ! j)"
      using assms that sorted_wrt_nth_less [of "(<)" "map getKey ps" i j] by (simp add: line_ok_def)
    then show ?thesis using assms that unfolding pair_hkey_def
      by (intro SS_create_mono) (auto simp: line_ok_def list_all_length)
  qed
  then have "sorted_wrt (\<le>) (map pair_hkey ps)" by (auto simp: sorted_wrt_iff_nth_less)
  then show ?thesis by simp
qed

lemma line_runs_facts:
  assumes "line_ok ps"
  shows "sorted_wrt (<) (line_runs ps)" "\<And>j. j < length (line_runs ps) \<Longrightarrow> line_runs ps ! j < length ps"
    "sorted_wrt (<) (map (\<lambda>r. pair_hkey (ps ! r)) (line_runs ps))"
    "\<And>i. i < length ps \<Longrightarrow> \<exists>j < length (line_runs ps). line_runs ps ! j \<le> i \<and>
        pair_hkey (ps ! (line_runs ps ! j)) = pair_hkey (ps ! i)"
proof -
  let ?R = "line_runs ps"
  show "sorted_wrt (<) ?R" by (simp add: line_runs_def runs_sorted)
  show lt: "?R ! j < length ps" if "j < length ?R" for j
    using runs_range [of "?R ! j" 0 0 "map pair_hkey ps"] that by (simp add: line_runs_def)
  have "sorted_wrt (<) (map (\<lambda>r. map pair_hkey ps ! (r - 0)) ?R)"
    using runs_increasing [OF line_ok_sorted [OF assms], of 0] by (simp add: line_runs_def)
  moreover have "map (\<lambda>r. map pair_hkey ps ! (r - 0)) ?R = map (\<lambda>r. pair_hkey (ps ! r)) ?R"
    using lt by (auto simp: in_set_conv_nth)
  ultimately show "sorted_wrt (<) (map (\<lambda>r. pair_hkey (ps ! r)) ?R)" by (simp only:)
  show "\<exists>j < length ?R. ?R ! j \<le> i \<and> pair_hkey (ps ! (?R ! j)) = pair_hkey (ps ! i)" if i: "i < length ps" for i
  proof -
    have "0 < pair_hkey (ps ! i)"
      using assms i by (intro pair_hkey_pos) (auto simp: line_ok_def list_all_length)
    then obtain r where r: "r \<in> set ?R" "r \<le> i" "map pair_hkey ps ! (r - 0) = map pair_hkey ps ! i"
      using runs_cover [of i "map pair_hkey ps" 0 0] i by (auto simp: line_runs_def)
    then obtain j where "j < length ?R" "?R ! j = r" by (metis in_set_conv_nth)
    then show ?thesis using r i by (intro exI [of _ j]) auto
  qed
qed

text \<open>Where the runs put a search key.\<close>

lemma line_runs_search:
  assumes "line_ok ps" "nul_free key"
  defines "j \<equiv> lower_bound (\<lambda>r. pair_hkey (ps ! r)) (line_runs ps) (SS_create key)"
  shows "i < length ps \<Longrightarrow> j = length (line_runs ps) \<or> i < line_runs ps ! j \<Longrightarrow> pair_hkey (ps ! i) < SS_create key"
    and "j < length (line_runs ps) \<Longrightarrow> line_runs ps ! j \<le> i \<Longrightarrow> i < length ps \<Longrightarrow> SS_create key \<le> pair_hkey (ps ! i)"
    and "j < length (line_runs ps) \<Longrightarrow> Suc j < length (line_runs ps) \<Longrightarrow> line_runs ps ! Suc j \<le> i \<Longrightarrow>
      i < length ps \<Longrightarrow> SS_create key < pair_hkey (ps ! i)"
    and "j < length (line_runs ps) \<Longrightarrow> pair_hkey (ps ! (line_runs ps ! j)) = SS_create key \<Longrightarrow>
      line_runs ps ! j \<le> i \<Longrightarrow> i < length ps \<Longrightarrow> Suc j = length (line_runs ps) \<or> i < line_runs ps ! Suc j \<Longrightarrow>
      pair_hkey (ps ! i) = SS_create key"
proof -
  let ?R = "line_runs ps" and ?h = "\<lambda>r. pair_hkey (ps ! r)" and ?k = "SS_create key"
  note facts = line_runs_facts [OF assms(1)]
  have jl: "j \<le> length ?R" by (simp add: j_def lower_bound_le)
  have inc: "?R ! a < ?R ! b" if "a < b" "b < length ?R" for a b
    using facts(1) that by (rule sorted_wrt_nth_less)
  have hinc: "?h (?R ! a) < ?h (?R ! b)" if "a < b" "b < length ?R" for a b
    using sorted_wrt_nth_less [OF facts(3), of a b] that by simp
  have mono: "?h a \<le> ?h b" if "a \<le> b" "b < length ps" for a b
    using sorted_nth_mono [of "map pair_hkey ps" a b] line_ok_sorted [OF assms(1)] that by simp
  show 1: "?h i < ?k" if i: "i < length ps" "j = length ?R \<or> i < ?R ! j" for i
  proof -
    obtain m where m: "m < length ?R" "?R ! m \<le> i" "?h (?R ! m) = ?h i" using facts(4) [OF i(1)] by blast
    have "m < j"
    proof (rule ccontr)
      assume "\<not> m < j"
      then have "?R ! j \<le> ?R ! m" "j \<noteq> length ?R" using inc [of j m] m(1) by (cases "j = m"; force)+
      then show False using i(2) m(2) by simp
    qed
    then show ?thesis using lower_bound_less [of m ?h ?R ?k] m(3) by (simp add: j_def)
  qed
  have at: "?k \<le> ?h (?R ! j)" if "j < length ?R"
    using that lower_bound_nth [of ?h ?R ?k] by (simp add: j_def)
  show "?k \<le> ?h i" if "j < length ?R" "?R ! j \<le> i" "i < length ps" for i
    using at [OF that(1)] mono [OF that(2,3)] by simp
  show "?k < ?h i" if "j < length ?R" "Suc j < length ?R" "?R ! Suc j \<le> i" "i < length ps" for i
    using at [OF that(1)] hinc [of j "Suc j"] mono [OF that(3,4)] that(2) by simp
  show "?h i = ?k" if a: "j < length ?R" "?h (?R ! j) = ?k" "?R ! j \<le> i" "i < length ps"
      "Suc j = length ?R \<or> i < ?R ! Suc j" for i
  proof -
    obtain m where m: "m < length ?R" "?R ! m \<le> i" "?h (?R ! m) = ?h i" using facts(4) [OF a(4)] by blast
    have "m \<le> j"
    proof (rule ccontr)
      assume "\<not> m \<le> j"
      then have "Suc j \<le> m" by simp
      then have "?R ! Suc j \<le> ?R ! m" "Suc j \<noteq> length ?R" using inc [of "Suc j" m] m(1) by (cases "Suc j = m"; force)+
      then show False using a(5) m(2) by simp
    qed
    then have "?h (?R ! m) \<le> ?h (?R ! j)" using hinc [of m j] a(1) by (cases "m = j") auto
    then show ?thesis using m(3) a(2) mono [OF a(3,4)] by simp
  qed
qed

lemma SS_create_eq_take:
  assumes "nul_free a" "nul_free b" "SS_create a = SS_create b"
  shows "take 8 a = take 8 b"
proof (rule ccontr)
  assume "take 8 a \<noteq> take 8 b"
  with assms SS_compare_differ [of a b] snd_SS_compare [of "SS_create a" "SS_create b"]
  have "sgn3 a b = 0" by simp
  then show False using \<open>take 8 a \<noteq> take 8 b\<close> by simp
qed

text \<open>The table with its hot line.\<close>

definition line_maps :: "DiskList \<Rightarrow> Pair list \<Rightarrow> bool" where
  "line_maps l ps \<longleftrightarrow>
     dk_maps l ps \<and> ps \<noteq> [] \<and> line_ok ps \<and> bg_ok (mLine l) \<and> bg_mem (mLine l) = line_bytes 0 0 ps"

lemma line_lower_bound:
  assumes "line_ok ps" "j \<le> length ps"
    and "\<And>i. i < j \<Longrightarrow> getKey (ps ! i) < key" "j < length ps \<Longrightarrow> key \<le> getKey (ps ! j)"
  shows "lower_bound getKey ps key = j"
  using assms by (intro lower_bound_unique) (auto simp: line_ok_def)

definition line_search :: "Pair list \<Rightarrow> str \<Rightarrow> nat" where
  "line_search ps key = lower_bound (\<lambda>r. pair_hkey (ps ! r)) (line_runs ps) (SS_create key)"

lemma hotline_binarySearch:
  assumes "line_ok ps"
  shows "binarySearch hotline_comp (map (line_node ps) (line_runs ps)) (SS_create key) =
    \<lparr>bs_found = line_search ps key < length (line_runs ps) \<and>
        pair_hkey (ps ! (line_runs ps ! line_search ps key)) = SS_create key,
     bs_it = line_search ps key\<rparr>"
proof -
  let ?ns = "map (line_node ps) (line_runs ps)"
  have "map (\<lambda>n. betoh64 (hn_key n)) ?ns = map (\<lambda>r. pair_hkey (ps ! r)) (line_runs ps)"
    by (simp add: line_node_def)
  then have "sorted_wrt (<) (map (\<lambda>n. betoh64 (hn_key n)) ?ns)"
    using line_runs_facts(3) [OF assms] by (simp only:)
  then have "binarySearch hotline_comp ?ns (SS_create key) =
      searched (\<lambda>n. betoh64 (hn_key n)) ?ns (SS_create key)"
    by (intro hls.binarySearch_searched) (simp_all add: list_all_iff)
  moreover have "lower_bound (\<lambda>n. betoh64 (hn_key n)) ?ns (SS_create key) = line_search ps key"
    by (simp add: lower_bound_def line_search_def takeWhile_map o_def line_node_def)
  ultimately show ?thesis by (auto simp: searched_def Let_def line_node_def)
qed

text \<open>The lower bound of the search key, by what the hot line says.\<close>

lemma line_search_bound:
  assumes "line_ok ps" "nul_free key"
  defines "j \<equiv> line_search ps key"
  shows "j = length (line_runs ps) \<Longrightarrow> lower_bound getKey ps key = length ps"
    "j < length (line_runs ps) \<Longrightarrow> pair_hkey (ps ! (line_runs ps ! j)) \<noteq> SS_create key \<Longrightarrow>
      lower_bound getKey ps key = line_runs ps ! j \<and> getKey (ps ! (line_runs ps ! j)) \<noteq> key"
    "j < length (line_runs ps) \<Longrightarrow> pair_hkey (ps ! (line_runs ps ! j)) = SS_create key \<Longrightarrow>
      line_runs ps ! j \<le> lower_bound getKey ps key"
proof -
  let ?R = "line_runs ps"
  note s = line_runs_search [OF assms(1,2), folded line_search_def j_def]
  have nf: "nul_free (getKey (ps ! i))" if "i < length ps" for i
    using assms(1) that by (simp add: line_ok_def list_all_length)
  have lt: "getKey (ps ! i) < key" if "i < length ps" "j = length ?R \<or> i < ?R ! j" for i
    using s(1) [OF that] nf [OF that(1)] assms(2) by (intro SS_create_less_imp) (auto simp: pair_hkey_def)
  note R = line_runs_facts(2) [OF assms(1)]
  show "lower_bound getKey ps key = length ps" if "j = length ?R"
    using that lt by (intro line_lower_bound [OF assms(1)]) auto
  show "lower_bound getKey ps key = ?R ! j \<and> getKey (ps ! (?R ! j)) \<noteq> key"
    if j: "j < length ?R" "pair_hkey (ps ! (?R ! j)) \<noteq> SS_create key"
  proof -
    have "SS_create key < pair_hkey (ps ! (?R ! j))" using s(2) [OF j(1) order_refl R] j by simp
    then have "key < getKey (ps ! (?R ! j))"
      using nf [OF R [OF j(1)]] assms(2) by (intro SS_create_less_imp) (auto simp: pair_hkey_def)
    moreover from this have "lower_bound getKey ps key = ?R ! j"
      using lt R [OF j(1)] by (intro line_lower_bound [OF assms(1)]) auto
    ultimately show ?thesis by auto
  qed
  show "?R ! j \<le> lower_bound getKey ps key" if j: "j < length ?R" "pair_hkey (ps ! (?R ! j)) = SS_create key"
  proof (rule ccontr)
    let ?l = "lower_bound getKey ps key"
    assume "\<not> ?R ! j \<le> ?l"
    then have l: "?l < ?R ! j" "?l < length ps" using R [OF j(1)] by simp_all
    then show False using lt [of ?l] lower_bound_nth [of getKey ps key] by simp
  qed
qed

lemma take_same_length:
  assumes "take n a = take n b"
  shows "n \<le> length a \<longleftrightarrow> n \<le> length b" "length b < n \<Longrightarrow> a = b"
proof -
  have "min (length a) n = min (length b) n" using arg_cong [OF assms, of length] by (simp add: min.commute)
  then show l: "n \<le> length a \<longleftrightarrow> n \<le> length b" by linarith
  show "a = b" if "length b < n"
  proof -
    have "length a < n" using l that by simp
    then show ?thesis using assms that by simp
  qed
qed

lemma line_run_take:
  assumes "line_ok ps" "nul_free key" "i < length ps" "pair_hkey (ps ! i) = SS_create key"
  shows "take 8 (getKey (ps ! i)) = take 8 key"
  using assms by (intro SS_create_eq_take) (auto simp: pair_hkey_def line_ok_def list_all_length)

text \<open>Inside the run of a long key, when no key of the table is its first eight characters.\<close>

lemma searchHotLine_run:
  assumes "line_maps l ps" "nul_free key" "8 < length key" "\<forall>p \<in> set ps. getKey p \<noteq> take 8 key"
  defines "j \<equiv> line_search ps key"
  assumes "j < length (line_runs ps)" "pair_hkey (ps ! (line_runs ps ! j)) = SS_create key"
  shows "searchBinary 8 key l (line_runs ps ! j)
      (if Suc j = length (line_runs ps) then length ps else line_runs ps ! Suc j) =
    Some (searched getKey ps key)"
proof -
  let ?R = "line_runs ps"
  let ?b = "if Suc j = length ?R then length ps else ?R ! Suc j"
  have l: "dk_maps l ps" "line_ok ps" using assms(1) by (simp_all add: line_maps_def)
  note s = line_runs_search [OF l(2) assms(2), folded line_search_def j_def]
  have b: "?b \<le> length ps" using line_runs_facts(2) [OF l(2), of "Suc j"] assms(6) by auto
  have base: "lcp_base (map getKey ps) key 8 (?R ! j) ?b"
    unfolding lcp_base_def
  proof (intro conjI allI impI; (elim conjE)?)
    fix i assume i: "?R ! j \<le> i" "i < ?b"
    have n: "i < length ps" using i b by simp
    have "Suc j = length ?R \<or> i < ?R ! Suc j" using i(2) by (cases "Suc j = length ?R") simp_all
    then have "pair_hkey (ps ! i) = SS_create key" by (rule s(4) [OF assms(6,7) i(1) n])
    then have t: "take 8 (getKey (ps ! i)) = take 8 key" by (rule line_run_take [OF l(2) assms(2) n])
    have len: "8 \<le> length (getKey (ps ! i))" using take_same_length(1) [OF t] assms(3) by simp
    have "getKey (ps ! i) \<noteq> take 8 key" using bspec [OF assms(4) nth_mem [OF n]] .
    then show "8 < length (map getKey ps ! i)" using t len n by (cases "length (getKey (ps ! i)) = 8") auto
    show "8 \<le> lcp (map getKey ps ! i) key" using t len n assms(3) by (simp add: lcp_ge_iff)
  qed (rule assms(3))
  have above: "key < getKey (ps ! ?b)" if "?b < length ps"
  proof -
    have e: "Suc j < length ?R" "?b = ?R ! Suc j" using that assms(6) by (auto split: if_splits)
    have "SS_create key < pair_hkey (ps ! ?b)" using that e by (intro s(3) [OF assms(6) e(1)]) simp_all
    then show ?thesis using l(2) assms(2) that
      by (intro SS_create_less_imp) (auto simp: pair_hkey_def line_ok_def list_all_length)
  qed
  have "lower_bound getKey ps key \<le> ?b"
  proof (rule ccontr)
    assume "\<not> lower_bound getKey ps key \<le> ?b"
    then have "?b < lower_bound getKey ps key" by simp
    then show False
      using lower_bound_less [of ?b getKey ps key] above lower_bound_le [of getKey ps key] by fastforce
  qed
  moreover have "?R ! j \<le> lower_bound getKey ps key"
    using line_search_bound(3) [OF l(2) assms(2)] assms(6,7) by (simp add: j_def)
  ultimately show ?thesis
    using l(1) base b above by (intro searchBinary_range) (blast | fastforce)+
qed

lemma line_maps_nodes:
  assumes "line_maps l ps"
  obtains ptr where "bg_asArray 16 (mLine l) 0 = (Some ptr, of_nat (length (line_runs ps)))"
    "hotline_nodes (mLine l) (of_nat (length (line_runs ps))) = map (line_node ps) (line_runs ps)"
proof -
  have l: "ps \<noteq> []" "line_ok ps" "bg_ok (mLine l)" "bg_mem (mLine l) = line_bytes 0 0 ps"
    using assms by (simp_all add: line_maps_def)
  have "pair_hkey (hd ps) \<noteq> 0"
    using pair_hkey_pos [of "hd ps"] l(1,2) by (cases ps) (auto simp: line_ok_def)
  from line_nodes_maps [OF l(3,4,1) this] that show ?thesis by blast
qed

lemma line_node_pos [simp]: "betoh64 (hn_pos (line_node ps x)) = of_nat x"
  by (simp add: line_node_def)

lemma line_run_inside:
  assumes "line_maps l ps" "j < length (line_runs ps)"
  shows "line_runs ps ! j < length ps" "unat (of_nat (line_runs ps ! j) :: u64) = line_runs ps ! j"
    "\<not> dk_size l \<le> of_nat (line_runs ps ! j)"
proof -
  have l: "dk_maps l ps" "line_ok ps" using assms(1) by (simp_all add: line_maps_def)
  show r: "line_runs ps ! j < length ps" by (rule line_runs_facts(2) [OF l(2) assms(2)])
  then show u: "unat (of_nat (line_runs ps ! j) :: u64) = line_runs ps ! j" by (rule dk_maps_length(3) [OF l(1)])
  show "\<not> dk_size l \<le> of_nat (line_runs ps ! j)"
    using r u dk_maps_length(2) [OF l(1)] by (simp add: word_le_nat_alt)
qed

text \<open>A long key whose first eight characters are in the hot line is searched in its run.\<close>

lemma searchHotLine_long:
  assumes "line_maps l ps" "8 < length key" "line_search ps key < length (line_runs ps)"
    and "pair_hkey (ps ! (line_runs ps ! line_search ps key)) = SS_create key"
  shows "searchHotLine key l = searchBinary 8 key l (line_runs ps ! line_search ps key)
    (if Suc (line_search ps key) = length (line_runs ps) then length ps
     else line_runs ps ! Suc (line_search ps key))"
proof -
  let ?R = "line_runs ps" and ?j = "line_search ps key"
  obtain ptr where nodes: "bg_asArray 16 (mLine l) 0 = (Some ptr, of_nat (length ?R))"
    "hotline_nodes (mLine l) (of_nat (length ?R)) = map (line_node ps) ?R"
    using assms(1) by (rule line_maps_nodes)
  have l: "dk_maps l ps" "line_ok ps" using assms(1) by (simp_all add: line_maps_def)
  note r = line_run_inside [OF assms(1,3)]
  show ?thesis
  proof (cases "Suc ?j = length ?R")
    case True
    then show ?thesis
      using assms(2-4) r dk_maps_length(2) [OF l(1)] hotline_binarySearch [OF l(2), of key]
      by (simp add: searchHotLine_def nodes Let_def SS_N_def)
  next
    case False
    then have "Suc ?j < length ?R" using assms(3) by simp
    from False line_run_inside [OF assms(1) this] this show ?thesis
      using assms(2-4) r hotline_binarySearch [OF l(2), of key]
      by (simp add: searchHotLine_def nodes Let_def SS_N_def)
  qed
qed

text \<open>The other outcomes need no search in the run.\<close>

lemma searchHotLine_short:
  assumes "line_maps l ps" "nul_free key" "length key \<le> 8" "line_search ps key < length (line_runs ps)"
    and "pair_hkey (ps ! (line_runs ps ! line_search ps key)) = SS_create key"
  shows "searchHotLine key l = Some (searched getKey ps key)"
proof -
  let ?R = "line_runs ps" and ?j = "line_search ps key"
  let ?r = "?R ! ?j"
  obtain ptr where nodes: "bg_asArray 16 (mLine l) 0 = (Some ptr, of_nat (length ?R))"
    "hotline_nodes (mLine l) (of_nat (length ?R)) = map (line_node ps) ?R"
    using assms(1) by (rule line_maps_nodes)
  have l: "dk_maps l ps" "line_ok ps" using assms(1) by (simp_all add: line_maps_def)
  note r = line_run_inside [OF assms(1,4)]
  note unf = searchHotLine_def nodes Let_def hotline_binarySearch [OF l(2), of key] searched_def SS_N_def
  have t: "take 8 (getKey (ps ! ?r)) = take 8 key" by (rule line_run_take [OF l(2) assms(2) r(1) assms(5)])
  then have app: "getKey (ps ! ?r) = key @ drop 8 (getKey (ps ! ?r))"
    using assms(3) by (metis append_take_drop_id take_all)
  have "sgn3 key (key @ x) \<le> 0" for x using sgn3_append_same [of key "[]" x] by (cases x) simp_all
  then have "key \<le> getKey (ps ! ?r)" using app by (metis sgn3_le_0)
  moreover have "getKey (ps ! i) < key" if "i < ?r" for i
    using lower_bound_less [of i getKey ps key] line_search_bound(3) [OF l(2) assms(2,4,5)] that by simp
  ultimately have lb: "lower_bound getKey ps key = ?r" using r(1) by (intro line_lower_bound [OF l(2)]) auto
  obtain q where q: "dk_at l (of_nat ?r) = Some q" "getKey (snd q) = getKey (ps ! ?r)"
    using dk_at_maps [OF l(1) r(1)] by metis
  have eq: "equalsX 8 (snd q) key \<longleftrightarrow> getKey (ps ! ?r) = key" if "length key = 8"
    using that app q(2) by (auto simp: equalsX_def)
  show ?thesis
  proof (cases "length key = 8")
    case True
    then show ?thesis using assms(4,5) r q(1) eq lb by (simp add: unf)
  next
    case False
    then have "length key < 8" using assms(3) by simp
    then show ?thesis using assms(4,5) r lb take_same_length(2) [OF t] by (simp add: unf)
  qed
qed

lemma searchHotLine_maps:
  assumes "line_maps l ps" "nul_free key"
    and "8 < length key \<longrightarrow> (\<forall>p \<in> set ps. getKey p \<noteq> take 8 key)"
  shows "searchHotLine key l = Some (searched getKey ps key)"
proof -
  let ?R = "line_runs ps" and ?j = "line_search ps key"
  obtain ptr where nodes: "bg_asArray 16 (mLine l) 0 = (Some ptr, of_nat (length ?R))"
    "hotline_nodes (mLine l) (of_nat (length ?R)) = map (line_node ps) ?R"
    using assms(1) by (rule line_maps_nodes)
  have l: "dk_maps l ps" "line_ok ps" using assms(1) by (simp_all add: line_maps_def)
  note unf = searchHotLine_def nodes Let_def hotline_binarySearch [OF l(2), of key] searched_def
  note bound = line_search_bound [OF l(2) assms(2)]
  consider "?j = length ?R" | "?j < length ?R" "pair_hkey (ps ! (?R ! ?j)) \<noteq> SS_create key"
    | "?j < length ?R" "pair_hkey (ps ! (?R ! ?j)) = SS_create key"
    using lower_bound_le [of "\<lambda>r. pair_hkey (ps ! r)" ?R "SS_create key"] by (fastforce simp: line_search_def)
  then show ?thesis
  proof cases
    case 1
    then show ?thesis using bound(1) dk_maps_length(2) [OF l(1)] by (simp add: unf)
  next
    case 2
    then show ?thesis using bound(2) line_run_inside [OF assms(1) 2(1)] by (simp add: unf)
  next
    case 3
    show ?thesis
    proof (cases "8 < length key")
      case True
      then show ?thesis using assms 3 by (simp add: searchHotLine_long searchHotLine_run)
    next
      case False
      then show ?thesis using assms 3 by (intro searchHotLine_short) simp_all
    qed
  qed
qed

section \<open>A key that is exactly the first eight characters\<close>

text \<open>The run of such a key begins with it.\<close>

lemma line_run_start:
  assumes "line_ok ps" "nul_free key" "r < length ps" "getKey (ps ! r) = take 8 key" "8 < length key"
  shows "line_search ps key < length (line_runs ps)" "line_runs ps ! line_search ps key = r"
    "pair_hkey (ps ! r) = SS_create key"
proof -
  let ?R = "line_runs ps" and ?j = "line_search ps key"
  have pad: "pad 8 (take 8 key) = pad 8 key" using assms(5) by (simp add: pad_def)
  then show h: "pair_hkey (ps ! r) = SS_create key"
    using assms(4) by (simp add: pair_hkey_def SS_create_eq_iff)
  note s = line_runs_search [OF assms(1,2), folded line_search_def]
  have jl: "?j \<le> length ?R" by (simp add: line_search_def lower_bound_le)
  have r: "\<not> (?j = length ?R \<or> r < ?R ! ?j)" using s(1) [OF assms(3)] h by auto
  then show j: "?j < length ?R" using jl by simp
  note Rj = line_runs_facts(2) [OF assms(1) j]
  have eq: "pair_hkey (ps ! (?R ! ?j)) = SS_create key"
  proof -
    have "SS_create key \<le> pair_hkey (ps ! (?R ! ?j))" using s(2) [OF j order_refl Rj] .
    moreover have "pair_hkey (ps ! (?R ! ?j)) \<le> pair_hkey (ps ! r)"
      using sorted_nth_mono [of "map pair_hkey ps" "?R ! ?j" r] line_ok_sorted [OF assms(1)] r assms(3) by simp
    ultimately show ?thesis using h by simp
  qed
  have t: "take 8 (getKey (ps ! (?R ! ?j))) = take 8 key" by (rule line_run_take [OF assms(1,2) Rj eq])
  show "?R ! ?j = r"
  proof (rule ccontr)
    assume "?R ! ?j \<noteq> r"
    then have "getKey (ps ! (?R ! ?j)) < getKey (ps ! r)"
      using r assms(1,3) sorted_wrt_nth_less [of "(<)" "map getKey ps" "?R ! ?j" r] by (simp add: line_ok_def)
    moreover have "getKey (ps ! (?R ! ?j)) = getKey (ps ! r) @ drop 8 (getKey (ps ! (?R ! ?j)))"
      using t assms(4) by (metis append_take_drop_id)
    moreover have "sgn3 (getKey (ps ! r)) (getKey (ps ! r) @ x) \<le> 0" for x
      using sgn3_append_same [of "getKey (ps ! r)" "[]" x] by (cases x) simp_all
    ultimately show False by (metis leD sgn3_le_0)
  qed
qed

lemma PairLCPCompare_exhausted:
  assumes "getKey p = take 8 key" "8 < length key"
  shows "PairLCPCompare_call p key (mkPairLCPCompare 8) =
    Some (0, \<lparr>prefixL = 8, prefixR = 8\<rparr>)"
proof -
  have "pair_cmpLCP_start p key 8 = Some \<lparr>lcp_cmp = 0, lcp_prefix = 0\<rparr>"
    using assms cmpLCP_empty [of "[]" "drop 8 key"]
    by (auto simp: pair_cmpLCP_start_def cmpLCP_start_def substr_def)
  then show ?thesis by (simp add: PairLCPCompare_call_def lcp_state_prefix_def mkPairLCPCompare_def)
qed

lemma searchHotLine_exhausted:
  assumes "line_maps l ps" "nul_free key" "8 < length key"
    and "length (filter (\<lambda>p. take 8 (getKey p) = take 8 key) ps) \<le> 5"
    and "r < length ps" "getKey (ps ! r) = take 8 key"
  shows "searchHotLine key l = Some \<lparr>bs_found = True, bs_it = r\<rparr>"
proof -
  let ?R = "line_runs ps" and ?j = "line_search ps key"
  let ?b = "if Suc ?j = length ?R then length ps else ?R ! Suc ?j"
  have l: "dk_maps l ps" "line_ok ps" using assms(1) by (simp_all add: line_maps_def)
  note st = line_run_start [OF l(2) assms(2,5,6,3)]
  have b: "r < ?b" "?b \<le> length ps"
  proof -
    have "r < ?R ! Suc ?j" "?R ! Suc ?j < length ps" if "Suc ?j < length ?R"
      using sorted_wrt_nth_less [OF line_runs_facts(1) [OF l(2)] lessI that] st(2)
        line_runs_facts(2) [OF l(2) that] by simp_all
    then show "r < ?b" "?b \<le> length ps" using assms(5) st(1) by (cases "Suc ?j = length ?R"; force)+
  qed
  have "{r..<?b} \<subseteq> {i. i < length ps \<and> take 8 (getKey (ps ! i)) = take 8 key}"
  proof
    fix i assume i: "i \<in> {r..<?b}"
    then have il: "i < length ps" using b(2) by simp
    have "Suc ?j = length ?R \<or> i < ?R ! Suc ?j" using i by (auto split: if_splits)
    then have "pair_hkey (ps ! i) = SS_create key"
      using line_runs_search(4) [OF l(2) assms(2), folded line_search_def, OF st(1) _ _ il] st(2,3) i by simp
    from line_run_take [OF l(2) assms(2) il this] il
    show "i \<in> {i. i < length ps \<and> take 8 (getKey (ps ! i)) = take 8 key}" by simp
  qed
  from card_mono [OF _ this] assms(4) have b5: "?b \<le> r + 5" by (simp add: length_filter_conv_card)
  obtain q where q: "dk_at l (of_nat r) = Some q" "getKey (snd q) = take 8 key"
    using dk_at_maps [OF l(1) assms(5)] assms(6) by metis
  have "searchBinary 8 key l r ?b = Some \<lparr>bs_found = True, bs_it = r\<rparr>"
    using b(1) b5 q PairLCPCompare_exhausted [OF q(2) assms(3)] unfolding searchBinary_def
    by (subst binarySearchS.simps, subst linearSearchS.simps) simp
  then show ?thesis using searchHotLine_long [OF assms(1,3) st(1)] st by simp
qed

section \<open>Sample tables\<close>

definition sample_key_pair :: "str \<Rightarrow> u64 \<Rightarrow> Pair" where
  "sample_key_pair key created =
     \<lparr>p_created = htobe64 created, p_expires = 0, p_vallen = htobe32 1, p_keylen = htobe16 (of_nat (length key)),
      p_buffer = key @ [0, 98, 0]\<rparr>"

definition sample_disk :: "Pair list \<Rightarrow> DiskList" where
  "sample_disk ps =
     \<lparr>mIndx = \<lparr>bg_data = 4096, bg_mem = indx_bytes True ps 0\<rparr>, mLine = \<lparr>bg_data = 4096, bg_mem = line_bytes 0 0 ps\<rparr>,
      mHash = bg_closed, mData = \<lparr>bg_data = 4096, bg_mem = data_bytes True ps\<rparr>, mTree = bg_closed, mKeys = bg_closed,
      metadata = metaBuilder_blob 0 True (fold metaBuilder_push ps metaBuilder_init),
      searchMode_T = HOTLINE, searchMode_F = HOTLINE, dk_aligned = True, dk_id = 0\<rparr>"

lemma sample_key_pair:
  assumes "length key \<le> MAX_KEY_SIZE"
  shows "getKey (sample_key_pair key created) = key" "pair_wf (sample_key_pair key created)"
    "getCreated (sample_key_pair key created) = created"
proof -
  have k: "getKeyLen (sample_key_pair key created) = length key"
    using assms unat_key_mask by (simp add: getKeyLen_def sample_key_pair_def)
  have v: "getValLen (sample_key_pair key created) = 1"
    by (simp add: getValLen_def sample_key_pair_def MAX_VAL_MASK_def)
  show "getKey (sample_key_pair key created) = key" using k by (simp add: getKey_def sample_key_pair_def)
  show "pair_wf (sample_key_pair key created)" using k v by (simp add: pair_wf_def) (simp add: sample_key_pair_def)
  show "getCreated (sample_key_pair key created) = created" by (simp add: getCreated_def sample_key_pair_def)
qed

lemma bg_ok_small: "length mem < 2 ^ 40 \<Longrightarrow> bg_ok \<lparr>bg_data = 4096, bg_mem = mem\<rparr>"
  by (simp add: bg_ok_def)

lemma length_data_small: "list_all pair_wf ps \<Longrightarrow> length (data_bytes aligned ps) \<le> length ps * 2 ^ 29"
proof (induction ps)
  case (Cons p ps)
  have "length (pair_record aligned p) < 2 ^ 29"
    using Cons.prems record_size_bounds(3) [of aligned p] by (simp add: length_pair_record)
  then show ?case using Cons by (simp add: data_bytes_def)
qed (simp add: data_bytes_def)

lemma sample_disk_maps:
  assumes "list_all pair_wf ps" "sorted_wrt (<) (map getKey ps)" "list_all (\<lambda>p. getKey p \<noteq> []) ps" "length ps < 1000"
  shows "dk_maps (sample_disk ps) ps"
proof -
  have "length (data_bytes True ps) < 2 ^ 40" using length_data_small [OF assms(1), of True] assms(4) by simp
  moreover have "length (indx_bytes True ps 0) < 2 ^ 40"
    using assms(4) by (simp add: indx_bytes_def length_concat o_def sum_list_triv)
  ultimately show ?thesis using assms metaBuilder_accessors(5) [of 0 True ps]
    by (simp add: dk_maps_def sample_disk_def maps_data_def maps_indx_def bg_ok_small dk_size_def)
qed

lemma sample_disk_line_maps:
  assumes "list_all pair_wf ps" "line_ok ps" "ps \<noteq> []" "length ps < 1000"
  shows "line_maps (sample_disk ps) ps"
proof -
  have "length (line_bytes 0 0 ps) < 2 ^ 40"
    using length_runs_le [of 0 0 "map pair_hkey ps"] assms(4)
    by (simp add: line_bytes_def length_concat o_def sum_list_triv)
  then show ?thesis using sample_disk_maps [OF assms(1) _ _ assms(4)] assms(2,3)
    by (auto simp: line_maps_def line_ok_def list_all_iff bg_ok_small) (simp_all add: sample_disk_def bg_ok_small)
qed

section \<open>Properties\<close>

text \<open>
  The search through the hot line gives what the plain binary search of the table gives, that is the
  position of the key or of the first greater one, for every key without a zero byte among its first eight
  characters, unless the key is longer than eight characters and the table holds exactly its first eight as a
  key.
\<close>

lemma hotline_agrees_with_binary:
  assumes "line_maps l ps" "key \<noteq> []" "nul_free key" "8 < length key \<longrightarrow> (\<forall>p \<in> set ps. getKey p \<noteq> take 8 key)"
  shows "searchHotLine key l = searchBinary_all key l \<and> searchHotLine key l = Some (searched getKey ps key)"
  using searchHotLine_maps [OF assms(1,3,4)] searchBinary_all_maps [of l ps key] assms(1,2)
  by (simp add: line_maps_def)

text \<open>
  C30: the exception is real.  When the table holds a key of exactly eight characters, and it holds at most
  five keys that begin with these characters, so that the run of the hot line is searched linearly from its
  start, the hot line reports the key as the answer for every longer key that begins with it, without a zero
  byte among its first eight characters: the comparison inside the run skips eight characters and takes the
  empty rest for equal.
\<close>

theorem hotline_wrong_hit:
  assumes "line_maps l ps" "length (filter (\<lambda>p. take 8 (getKey p) = take 8 key) ps) \<le> 5"
    and "r < length ps" "getKey (ps ! r) = take 8 key" "8 < length key" "nul_free key"
  shows "searchHotLine key l = Some \<lparr>bs_found = True, bs_it = r\<rparr> \<and> getKey (ps ! r) \<noteq> key"
proof -
  have "length (getKey (ps ! r)) \<noteq> length key" using assms(4,5) by simp
  then show ?thesis using searchHotLine_exhausted [OF assms(1,6,5,2,3,4)] by auto
qed

theorem hotline_wrong_hit_witness:
  "searchHotLine [97, 97, 97, 97, 97, 97, 97, 97, 99] (sample_disk [sample_key_pair [97, 97, 97, 97, 97, 97, 97, 97] 5]) =
     Some \<lparr>bs_found = True, bs_it = 0\<rparr>"
  using hotline_wrong_hit [of "sample_disk [sample_key_pair [97, 97, 97, 97, 97, 97, 97, 97] 5]"
      "[sample_key_pair [97, 97, 97, 97, 97, 97, 97, 97] 5]" "[97, 97, 97, 97, 97, 97, 97, 97, 99]" 0]
    sample_disk_line_maps [of "[sample_key_pair [97, 97, 97, 97, 97, 97, 97, 97] 5]"]
    sample_key_pair [of "[97, 97, 97, 97, 97, 97, 97, 97]" 5]
  by (simp add: line_ok_def nul_free_def MAX_KEY_SIZE_def)

end
