(* ===== verification/Murmur.thy ===== *)
theory Murmur
  imports FileMeta
begin

text \<open>
  The hash functions of the hash index and of the sketches: \<^verbatim>\<open>include/murmur_hash_64a.h\<close> and the mixer
  of \<^verbatim>\<open>include/murmur_hash_mixer.h\<close>.
\<close>

section \<open>murmur_hash64a\<close>

definition murmur_m :: u64 where "murmur_m = 0xc6a4a7935bd1e995"

primrec murmur_words :: "nat \<Rightarrow> u64 \<Rightarrow> str \<Rightarrow> u64" where
  "murmur_words 0 h data = h"
| "murmur_words (Suc n) h data =
     (let k = load64 data;
          k = k * murmur_m;
          k = k XOR drop_bit 47 k;
          k = k * murmur_m;
          h = h XOR k;
          h = h * murmur_m
      in murmur_words n h (drop 8 data))"

text \<open>The fall through of \<open>switch(size & 7)\<close>: from the last byte down to the first.\<close>

definition murmur_tail :: "u64 \<Rightarrow> str \<Rightarrow> u64" where
  "murmur_tail h data2 =
     (if data2 = [] then h
      else foldr (\<lambda>i h. h XOR push_bit (i * 8) (ucast (data2 ! i))) [0..<length data2] h * murmur_m)"

definition murmur_hash64a :: "str \<Rightarrow> u64 \<Rightarrow> u64" where
  "murmur_hash64a key seed =
     (let sz = length key;
          h = seed XOR (of_nat sz * murmur_m);
          h = murmur_words (sz div 8) h key;
          h = murmur_tail h (drop (8 * (sz div 8)) key);
          h = h XOR drop_bit 47 h;
          h = h * murmur_m;
          h = h XOR drop_bit 47 h
      in h)"

abbreviation key_hash :: "str \<Rightarrow> u64" where
  "key_hash k \<equiv> murmur_hash64a k 0"

section \<open>murmur_hash_mixer64\<close>

definition murmur_hash_mixer64 :: "u64 \<Rightarrow> u64 \<Rightarrow> u64" where
  "murmur_hash_mixer64 x seed =
     (let x = x XOR seed;
          x = x XOR drop_bit 33 x;
          x = x * 0xff51afd7ed558ccd;
          x = x XOR drop_bit 33 x;
          x = x * 0xc4ceb9fe1a85ec53;
          x = x XOR drop_bit 33 x
      in x)"

definition murmur_hash_mixer64_nz :: "u64 \<Rightarrow> u64 \<Rightarrow> u64" where
  "murmur_hash_mixer64_nz x seed =
     (let zeroResult = murmur_hash_mixer64 0xDEEDBEEFABBAB0BA 0;
          result = murmur_hash_mixer64 x seed
      in if result \<noteq> 0 then result else zeroResult)"

end
