(* ===== verification/HashIndex.thy ===== *)
theory HashIndex
  imports HotLine Murmur
begin

text \<open>
  The hash index of a disk table: the builders of
  \<^verbatim>\<open>hm4/disk/hashindexbuilder.misc.h\<close>, \<^verbatim>\<open>hm4/disk/hashindexbuilder.standard.h\<close> and
  \<^verbatim>\<open>hm4/disk/hashindexbuilder.multipass.h\<close>, and \<open>searchHashIndex\<close> of \<^verbatim>\<open>hm4/disk/disklist.cc\<close>.  It is an
  open addressing table with at most sixteen probes; a hash of zero marks a free cell.
\<close>

section \<open>The builders\<close>

definition HASHTABLE_OPEN_ADDRESSES :: nat where "HASHTABLE_OPEN_ADDRESSES = 16"

record NodeHelper =
  nh_hash :: u64
  nh_pos :: u64

text \<open>The node of the file, both fields big endian.\<close>

record HashNode =
  hx_hash :: u64
  hx_pos :: u64

definition nh_cell :: "NodeHelper \<Rightarrow> u64 \<Rightarrow> u64" where
  "nh_cell d count = nh_hash d mod count"

definition getNodeBE :: "NodeHelper \<Rightarrow> HashNode" where
  "getNodeBE d = \<lparr>hx_hash = htobe64 (nh_hash d), hx_pos = htobe64 (nh_pos d)\<rparr>"

definition hash_cell :: "u64 \<Rightarrow> nat \<Rightarrow> u64 \<Rightarrow> nat" where
  "hash_cell hc i nodesCount = unat ((hc + of_nat i) mod nodesCount)"

text \<open>\<open>insert__\<close>: \<open>n\<close> more probes from probe \<open>i\<close>; \<open>hashof\<close> reads a node and \<open>f\<close> is the projection.\<close>

primrec insert_probes ::
  "('n \<Rightarrow> u64) \<Rightarrow> (NodeHelper \<Rightarrow> 'n) \<Rightarrow> NodeHelper \<Rightarrow> 'n list \<Rightarrow> u64 \<Rightarrow> nat \<Rightarrow> nat \<Rightarrow> bool \<times> 'n list" where
  "insert_probes hashof f data nodes nodesCount i 0 = (False, nodes)"
| "insert_probes hashof f data nodes nodesCount i (Suc n) =
     (let cell = hash_cell (nh_hash data) i nodesCount in
      if hashof (nodes ! cell) = 0 then (True, nodes[cell := f data])
      else insert_probes hashof f data nodes nodesCount (i + 1) n)"

definition hash_insert ::
  "('n \<Rightarrow> u64) \<Rightarrow> (NodeHelper \<Rightarrow> 'n) \<Rightarrow> NodeHelper \<Rightarrow> 'n list \<Rightarrow> u64 \<Rightarrow> bool \<times> 'n list" where
  "hash_insert hashof f data nodes nodesCount =
     insert_probes hashof f data nodes nodesCount 0 HASHTABLE_OPEN_ADDRESSES"

definition insertHH :: "NodeHelper \<Rightarrow> NodeHelper list \<Rightarrow> u64 \<Rightarrow> bool \<times> NodeHelper list" where
  "insertHH data nodes nodesCount = hash_insert nh_hash (\<lambda>d. d) data nodes nodesCount"

definition insertMM :: "NodeHelper \<Rightarrow> HashNode list \<Rightarrow> u64 \<Rightarrow> bool \<times> HashNode list" where
  "insertMM data nodes nodesCount = hash_insert hx_hash getNodeBE data nodes nodesCount"

text \<open>\<open>pos_++\<close> in the type of the builder: 32 bit for tables of up to that many nodes.\<close>

definition pos_next :: "bool \<Rightarrow> u64 \<Rightarrow> u64" where
  "pos_next is32 p = (if is32 then ucast (ucast (p + 1) :: u32) else p + 1)"

record HashIndexStandardBuilder =
  sb_pos :: u64
  sb_buffer :: "NodeHelper list"
  sb_nodesCount :: u64

definition mkHashIndexStandardBuilder :: "u64 \<Rightarrow> HashIndexStandardBuilder" where
  "mkHashIndexStandardBuilder nodesCount =
     \<lparr>sb_pos = 0, sb_buffer = replicate (unat nodesCount) \<lparr>nh_hash = 0, nh_pos = 0\<rparr>, sb_nodesCount = nodesCount\<rparr>"

definition sb_call :: "bool \<Rightarrow> Pair \<Rightarrow> HashIndexStandardBuilder \<Rightarrow> bool \<times> HashIndexStandardBuilder" where
  "sb_call is32 pair b =
     (let data = \<lparr>nh_hash = key_hash (getKey pair), nh_pos = sb_pos b\<rparr>;
          b = b\<lparr>sb_pos := pos_next is32 (sb_pos b)\<rparr>;
          (ok, nodes) = insertHH data (sb_buffer b) (sb_nodesCount b)
      in (ok, b\<lparr>sb_buffer := nodes\<rparr>))"

definition node_bytes :: "HashNode \<Rightarrow> str" where
  "node_bytes n = store_le 8 (hx_hash n) @ store_le 8 (hx_pos n)"

text \<open>The destructor writes the table.\<close>

definition sb_file :: "HashIndexStandardBuilder \<Rightarrow> str" where
  "sb_file b = concat (map (\<lambda>i. node_bytes (getNodeBE (sb_buffer b ! i))) [0..<unat (sb_nodesCount b)])"

record HashIndexMultiPassBuilder =
  mp_pos :: u64
  mp_vector :: "NodeHelper list"
  mp_capacity :: nat
  mp_nodesCount :: u64
  mp_nodes :: "HashNode list option"

definition mkHashIndexMultiPassBuilder :: "bool \<Rightarrow> nat \<Rightarrow> u64 \<Rightarrow> HashIndexMultiPassBuilder" where
  "mkHashIndexMultiPassBuilder mapped capacity nodesCount =
     \<lparr>mp_pos = 0, mp_vector = [], mp_capacity = capacity, mp_nodesCount = nodesCount,
      mp_nodes = (if mapped then Some (replicate (unat nodesCount) \<lparr>hx_hash = 0, hx_pos = 0\<rparr>) else None)\<rparr>"

text \<open>\<open>flush\<close>: sort by cell, then insert; the order of equal cells is that of \<open>std::sort\<close>.\<close>

definition mp_flush :: "NodeHelper list \<Rightarrow> HashNode list option \<Rightarrow> u64 \<Rightarrow> HashNode list option" where
  "mp_flush vec nodes nodesCount =
     map_option (\<lambda>ns. fold (\<lambda>node ns. snd (insertMM node ns nodesCount)) (sort_key (\<lambda>d. nh_cell d nodesCount) vec) ns)
       nodes"

definition mp_call :: "bool \<Rightarrow> Pair \<Rightarrow> HashIndexMultiPassBuilder \<Rightarrow> bool \<times> HashIndexMultiPassBuilder" where
  "mp_call is32 pair b =
     (if mp_nodes b = None then (False, b)
      else
        (let b = b\<lparr>mp_vector := mp_vector b @ [\<lparr>nh_hash = key_hash (getKey pair), nh_pos = mp_pos b\<rparr>],
                   mp_pos := pos_next is32 (mp_pos b)\<rparr>;
             b = (if length (mp_vector b) = mp_capacity b
                  then b\<lparr>mp_nodes := mp_flush (mp_vector b) (mp_nodes b) (mp_nodesCount b), mp_vector := []\<rparr>
                  else b)
         in (True, b)))"

definition mp_finish :: "HashIndexMultiPassBuilder \<Rightarrow> HashIndexMultiPassBuilder" where
  "mp_finish b =
     (if mp_vector b \<noteq> []
      then b\<lparr>mp_nodes := mp_flush (mp_vector b) (mp_nodes b) (mp_nodesCount b)\<rparr> else b)"

section \<open>searchHashIndex\<close>

definition hash_nodes :: "BlobGuard \<Rightarrow> u64 \<Rightarrow> HashNode list" where
  "hash_nodes g n =
     map (\<lambda>i. \<lparr>hx_hash = load64 (drop (16 * i) (bg_mem g)), hx_pos = load64 (drop (16 * i + 8) (bg_mem g))\<rparr>)
       [0..<unat n]"

primrec search_probes ::
  "BinarySearchResult option \<Rightarrow> str \<Rightarrow> DiskList \<Rightarrow> HashNode list \<Rightarrow> u64 \<Rightarrow> u64 \<Rightarrow> nat \<Rightarrow> nat
   \<Rightarrow> BinarySearchResult option" where
  "search_probes fallback key l nodes nodesCount hc i 0 = fallback"
| "search_probes fallback key l nodes nodesCount hc i (Suc n) =
     (let node = nodes ! hash_cell hc i nodesCount;
          continue = search_probes fallback key l nodes nodesCount hc (i + 1) n
      in if hx_hash node = 0 then Some \<lparr>bs_found = False, bs_it = unat (dk_size l)\<rparr>
         else if hx_hash node = htobe64 hc then
           (let listPos = betoh64 (hx_pos node) in
            if listPos \<ge> dk_size l then fallback
            else Option.bind (dk_at l listPos) (\<lambda>p.
              if cmp (snd p) key = 0 then Some \<lparr>bs_found = True, bs_it = unat listPos\<rparr> else continue))
         else continue)"

definition searchHashIndex :: "BinarySearchResult option \<Rightarrow> str \<Rightarrow> DiskList \<Rightarrow> BinarySearchResult option" where
  "searchHashIndex fallback key l =
     (let (nodes, nodesCount) = bg_asArray 16 (mHash l) 0 in
      if nodes = None then fallback
      else search_probes fallback key l (hash_nodes (mHash l) nodesCount) nodesCount (key_hash key) 0
             HASHTABLE_OPEN_ADDRESSES)"

section \<open>What the table holds after some insertions\<close>

definition taken :: "NodeHelper list \<Rightarrow> u64 \<Rightarrow> u64 \<Rightarrow> nat \<Rightarrow> bool" where
  "taken nodes nodesCount hc n \<longleftrightarrow> (\<forall>i < n. nh_hash (nodes ! hash_cell hc i nodesCount) \<noteq> 0)"

text \<open>An entry sits behind taken cells only, or all its cells are taken.\<close>

definition placed :: "NodeHelper list \<Rightarrow> u64 \<Rightarrow> NodeHelper \<Rightarrow> bool" where
  "placed nodes nodesCount d \<longleftrightarrow>
     (\<exists>i < HASHTABLE_OPEN_ADDRESSES. nodes ! hash_cell (nh_hash d) i nodesCount = d \<and>
        taken nodes nodesCount (nh_hash d) i) \<or>
     taken nodes nodesCount (nh_hash d) HASHTABLE_OPEN_ADDRESSES"

definition table_ok :: "NodeHelper list \<Rightarrow> u64 \<Rightarrow> NodeHelper set \<Rightarrow> bool" where
  "table_ok nodes nodesCount D \<longleftrightarrow>
     length nodes = unat nodesCount \<and> nodesCount \<noteq> 0 \<and>
     (\<forall>d \<in> set nodes. nh_hash d \<noteq> 0 \<longrightarrow> d \<in> D) \<and> (\<forall>d \<in> D. nh_hash d \<noteq> 0 \<and> placed nodes nodesCount d)"

lemma hash_cell_less: "nodesCount \<noteq> 0 \<Longrightarrow> hash_cell hc i nodesCount < unat nodesCount"
  unfolding hash_cell_def word_less_nat_alt [symmetric] by (simp add: word_mod_less_divisor word_gt_0)

text \<open>Where an insertion ends.\<close>

lemma insert_probes_cases:
  assumes "insert_probes nh_hash (\<lambda>d. d) data nodes nodesCount i n = (ok, nodes')"
  shows "(ok \<and> (\<exists>j. i \<le> j \<and> j < i + n \<and> nh_hash (nodes ! hash_cell (nh_hash data) j nodesCount) = 0 \<and>
            nodes' = nodes[hash_cell (nh_hash data) j nodesCount := data] \<and>
            (\<forall>k. i \<le> k \<and> k < j \<longrightarrow> nh_hash (nodes ! hash_cell (nh_hash data) k nodesCount) \<noteq> 0))) \<or>
    (\<not> ok \<and> nodes' = nodes \<and>
       (\<forall>k. i \<le> k \<and> k < i + n \<longrightarrow> nh_hash (nodes ! hash_cell (nh_hash data) k nodesCount) \<noteq> 0))"
  using assms
proof (induction n arbitrary: i)
  case (Suc n)
  show ?case
  proof (cases "nh_hash (nodes ! hash_cell (nh_hash data) i nodesCount) = 0")
    case True
    then show ?thesis using Suc.prems by (intro disjI1) (auto simp: Let_def intro!: exI [of _ i])
  next
    case False
    then have "insert_probes nh_hash (\<lambda>d. d) data nodes nodesCount (i + 1) n = (ok, nodes')"
      using Suc.prems by (simp add: Let_def)
    note IH = Suc.IH [OF this]
    have step: "nh_hash (nodes ! hash_cell (nh_hash data) k nodesCount) \<noteq> 0"
      if "\<forall>k. i + 1 \<le> k \<and> k < j \<longrightarrow> nh_hash (nodes ! hash_cell (nh_hash data) k nodesCount) \<noteq> 0" "i \<le> k" "k < j" for j k
      using that False by (cases "k = i") auto
    from IH show ?thesis
    proof (elim disjE conjE exE)
      fix j
      assume "ok" "i + 1 \<le> j" "j < i + 1 + n" "nh_hash (nodes ! hash_cell (nh_hash data) j nodesCount) = 0"
        "nodes' = nodes[hash_cell (nh_hash data) j nodesCount := data]"
        "\<forall>k. i + 1 \<le> k \<and> k < j \<longrightarrow> nh_hash (nodes ! hash_cell (nh_hash data) k nodesCount) \<noteq> 0"
      then show ?thesis using step [of j] by (intro disjI1 conjI exI [of _ j]) auto
    next
      assume "\<not> ok" "nodes' = nodes"
        "\<forall>k. i + 1 \<le> k \<and> k < i + 1 + n \<longrightarrow> nh_hash (nodes ! hash_cell (nh_hash data) k nodesCount) \<noteq> 0"
      then show ?thesis using step [of "i + 1 + n"] by (intro disjI2 conjI) auto
    qed
  qed
qed auto

lemma taken_update:
  assumes "taken nodes nodesCount hc n" "nh_hash d \<noteq> 0"
  shows "taken (nodes[c := d]) nodesCount hc n"
  using assms by (cases "c < length nodes") (auto simp: taken_def nth_list_update list_update_beyond)

lemma placed_update:
  assumes "placed nodes nodesCount d" "nh_hash e \<noteq> 0" "nh_hash (nodes ! c) = 0" "nh_hash d \<noteq> 0"
  shows "placed (nodes[c := e]) nodesCount d"
  using assms taken_update [OF _ assms(2)] unfolding placed_def
  by (metis nth_list_update_neq)

lemma insertHH_ok:
  assumes "table_ok nodes nodesCount D" "nh_hash d \<noteq> 0"
  shows "table_ok (snd (insertHH d nodes nodesCount)) nodesCount (insert d D)"
proof -
  obtain ok nodes' where i: "insertHH d nodes nodesCount = (ok, nodes')" by fastforce
  have t: "length nodes = unat nodesCount" "nodesCount \<noteq> 0" "\<forall>d \<in> set nodes. nh_hash d \<noteq> 0 \<longrightarrow> d \<in> D"
    "\<forall>d \<in> D. nh_hash d \<noteq> 0 \<and> placed nodes nodesCount d"
    using assms(1) by (simp_all add: table_ok_def)
  let ?c = "\<lambda>j. hash_cell (nh_hash d) j nodesCount"
  from insert_probes_cases [of d nodes nodesCount 0 HASHTABLE_OPEN_ADDRESSES ok nodes'] i
  consider (new) j where "j < HASHTABLE_OPEN_ADDRESSES" "nh_hash (nodes ! ?c j) = 0" "nodes' = nodes[?c j := d]"
      "\<forall>k < j. nh_hash (nodes ! ?c k) \<noteq> 0"
    | (full) "nodes' = nodes" "\<forall>k < HASHTABLE_OPEN_ADDRESSES. nh_hash (nodes ! ?c k) \<noteq> 0"
    by (auto simp: insertHH_def hash_insert_def)
  then show ?thesis
  proof cases
    case new
    have c: "?c j < length nodes" using t(1,2) hash_cell_less by simp
    have tk: "taken nodes' nodesCount (nh_hash d) j"
      unfolding new(3) using new(4) assms(2) by (intro taken_update) (simp_all add: taken_def)
    have "placed nodes' nodesCount d"
      unfolding placed_def using tk new(1,3) c by (intro disjI1 exI [of _ j]) simp
    moreover have "placed nodes' nodesCount e" if "e \<in> D" for e
      unfolding new(3) using t(4) that assms(2) new(2) by (intro placed_update) simp_all
    moreover have "e \<in> insert d D" if "e \<in> set nodes'" "nh_hash e \<noteq> 0" for e
      using that t(3) set_update_subset_insert [of nodes "?c j" d] unfolding new(3) by blast
    ultimately show ?thesis using t assms(2) i new(3) by (auto simp: table_ok_def)
  next
    case full
    then have "placed nodes' nodesCount d" by (simp add: placed_def taken_def)
    then show ?thesis using t assms(2) i full(1) by (auto simp: table_ok_def)
  qed
qed

lemma table_ok_empty:
  "nodesCount \<noteq> 0 \<Longrightarrow> table_ok (replicate (unat nodesCount) \<lparr>nh_hash = 0, nh_pos = 0\<rparr>) nodesCount {}"
  by (simp add: table_ok_def)

text \<open>Both builders insert in some order.\<close>

definition insert_all :: "NodeHelper list \<Rightarrow> u64 \<Rightarrow> NodeHelper list \<Rightarrow> NodeHelper list" where
  "insert_all ds nodesCount nodes = fold (\<lambda>d ns. snd (insertHH d ns nodesCount)) ds nodes"

lemma insert_all_ok:
  "table_ok nodes nodesCount D \<Longrightarrow> list_all (\<lambda>d. nh_hash d \<noteq> 0) ds \<Longrightarrow>
     table_ok (insert_all ds nodesCount nodes) nodesCount (D \<union> set ds)"
proof (induction ds arbitrary: nodes D)
  case (Cons d ds)
  have "table_ok (snd (insertHH d nodes nodesCount)) nodesCount (insert d D)"
    using Cons.prems by (intro insertHH_ok) simp_all
  from Cons.IH [OF this] Cons.prems show ?case by (simp add: insert_all_def Un_commute insert_commute)
qed (simp add: insert_all_def)

text \<open>Up to the probe that finds it, the probes for an entry meet taken cells only.\<close>

lemma placed_probe:
  assumes "placed nodes nodesCount d" "nh_hash d \<noteq> 0" "i < HASHTABLE_OPEN_ADDRESSES"
    and "\<And>j. j < i \<Longrightarrow> nodes ! hash_cell (nh_hash d) j nodesCount \<noteq> d"
  shows "nh_hash (nodes ! hash_cell (nh_hash d) i nodesCount) \<noteq> 0"
proof -
  consider "taken nodes nodesCount (nh_hash d) HASHTABLE_OPEN_ADDRESSES"
    | k where "nodes ! hash_cell (nh_hash d) k nodesCount = d" "taken nodes nodesCount (nh_hash d) k"
    using assms(1) by (auto simp: placed_def)
  then show ?thesis
  proof cases
    case 1
    then show ?thesis using assms(3) by (simp add: taken_def)
  next
    case 2
    then have "i \<le> k" using assms(4) [of k] by (meson not_le)
    then show ?thesis using 2 assms(2) by (cases "i = k") (auto simp: taken_def)
  qed
qed

section \<open>The file holds the table\<close>

definition node_of :: "HashNode \<Rightarrow> NodeHelper" where
  "node_of n = \<lparr>nh_hash = betoh64 (hx_hash n), nh_pos = betoh64 (hx_pos n)\<rparr>"

lemma node_of_getNodeBE [simp]: "node_of (getNodeBE d) = d"
  by (simp add: node_of_def getNodeBE_def)

lemma getNodeBE_node_of [simp]: "getNodeBE (node_of n) = n"
  by (simp add: node_of_def getNodeBE_def)

lemma node_of_hash_0 [simp]: "nh_hash (node_of n) = 0 \<longleftrightarrow> hx_hash n = 0"
  by (metis HashNode.select_convs(1) getNodeBE_def getNodeBE_node_of htobe_eq_0_iff(3))

text \<open>The multi pass builder inserts into big endian nodes; decoded, it is the other insertion.\<close>

lemma insert_probes_decode:
  assumes "nodesCount \<noteq> 0" "length nodes = unat nodesCount"
  shows "map node_of (snd (insert_probes hx_hash getNodeBE d nodes nodesCount i n)) =
    snd (insert_probes nh_hash (\<lambda>d. d) d (map node_of nodes) nodesCount i n)"
proof (induction n arbitrary: i)
  case (Suc n)
  have "hash_cell (nh_hash d) i nodesCount < length nodes" using assms hash_cell_less by simp
  then show ?case using Suc.IH [of "i + 1"] by (simp add: Let_def map_update)
qed simp

lemma length_insert_probes [simp]:
  "length (snd (insert_probes hashof f d nodes nodesCount i n)) = length nodes"
  by (induction n arbitrary: i) (simp_all add: Let_def)

lemma insertMM_decode:
  assumes "nodesCount \<noteq> 0" "length nodes = unat nodesCount"
  shows "map node_of (snd (insertMM d nodes nodesCount)) = snd (insertHH d (map node_of nodes) nodesCount)"
    "length (snd (insertMM d nodes nodesCount)) = unat nodesCount"
  using insert_probes_decode [OF assms] assms(2) by (simp_all add: insertMM_def insertHH_def hash_insert_def)

lemma fold_insertMM_decode:
  "\<lbrakk>nodesCount \<noteq> 0; length nodes = unat nodesCount\<rbrakk> \<Longrightarrow>
     map node_of (fold (\<lambda>d ns. snd (insertMM d ns nodesCount)) ds nodes) = insert_all ds nodesCount (map node_of nodes) \<and>
     length (fold (\<lambda>d ns. snd (insertMM d ns nodesCount)) ds nodes) = unat nodesCount"
proof (induction ds arbitrary: nodes)
  case (Cons d ds)
  from Cons.IH [of "snd (insertMM d nodes nodesCount)"] insertMM_decode [OF Cons.prems, of d] Cons.prems
  show ?case by (simp add: insert_all_def)
qed (simp add: insert_all_def)

section \<open>The lookup\<close>

text \<open>The entries of a table of pairs: the hash of each key with its position.\<close>

definition hash_entries :: "Pair list \<Rightarrow> NodeHelper set" where
  "hash_entries ps = {\<lparr>nh_hash = key_hash (getKey (ps ! i)), nh_pos = of_nat i\<rparr> | i. i < length ps}"

definition hash_maps :: "DiskList \<Rightarrow> Pair list \<Rightarrow> bool" where
  "hash_maps l ps \<longleftrightarrow>
     dk_maps l ps \<and>
     (\<exists>ptr nodesCount. bg_asArray 16 (mHash l) 0 = (Some ptr, nodesCount) \<and>
        table_ok (map node_of (hash_nodes (mHash l) nodesCount)) nodesCount (hash_entries ps))"

text \<open>The answers that are right: the position of the key, or that it is not there.\<close>

definition hash_answer :: "Pair list \<Rightarrow> str \<Rightarrow> BinarySearchResult option \<Rightarrow> bool" where
  "hash_answer ps key r \<longleftrightarrow>
     (\<exists>x. r = Some x \<and> bs_found x = bs_found (searched getKey ps key) \<and>
        (bs_found x \<longrightarrow> bs_it x = bs_it (searched getKey ps key)))"

lemma searched_found_iff:
  assumes "sorted_wrt (<) (map getKey ps)"
  shows "bs_found (searched getKey ps key) \<longleftrightarrow> key \<in> getKey ` set ps"
    "i < length ps \<Longrightarrow> getKey (ps ! i) = key \<Longrightarrow> bs_it (searched getKey ps key) = i \<and> bs_found (searched getKey ps key)"
proof -
  show at: "bs_it (searched getKey ps key) = i \<and> bs_found (searched getKey ps key)"
    if i: "i < length ps" "getKey (ps ! i) = key" for i
  proof -
    have "lower_bound getKey ps key = i"
      using assms i sorted_wrt_nth_less [of "(<)" "map getKey ps" _ i] by (intro lower_bound_unique) auto
    then show ?thesis using i by (simp add: searched_def)
  qed
  show "bs_found (searched getKey ps key) \<longleftrightarrow> key \<in> getKey ` set ps"
  proof
    assume "bs_found (searched getKey ps key)"
    then have "lower_bound getKey ps key < length ps" "getKey (ps ! lower_bound getKey ps key) = key"
      by (simp_all add: searched_def Let_def)
    then show "key \<in> getKey ` set ps" by (metis imageI nth_mem)
  next
    assume "key \<in> getKey ` set ps"
    then show "bs_found (searched getKey ps key)" using at by (auto simp: in_set_conv_nth)
  qed
qed

lemma search_probes_right:
  assumes "dk_maps l ps" "key \<noteq> []" "hash_answer ps key fallback"
    and ok: "table_ok (map node_of nodes) nodesCount (hash_entries ps)"
    and "i + n = HASHTABLE_OPEN_ADDRESSES"
    and rest: "\<And>p j. p < length ps \<Longrightarrow> getKey (ps ! p) = key \<Longrightarrow> j < i \<Longrightarrow>
      node_of (nodes ! hash_cell (key_hash key) j nodesCount) \<noteq> \<lparr>nh_hash = key_hash key, nh_pos = of_nat p\<rparr>"
  shows "hash_answer ps key (search_probes fallback key l nodes nodesCount (key_hash key) i n)"
  using assms(5) rest
proof (induction n arbitrary: i)
  case (Suc n)
  let ?hc = "key_hash key"
  let ?node = "nodes ! hash_cell ?hc i nodesCount"
  have sorted: "sorted_wrt (<) (map getKey ps)" using assms(1) by (simp add: dk_maps_def)
  have t: "length nodes = unat nodesCount" "nodesCount \<noteq> 0" using ok by (simp_all add: table_ok_def)
  have cell: "hash_cell ?hc j nodesCount < length nodes" for j using t hash_cell_less by simp
  have continue: "hash_answer ps key (search_probes fallback key l nodes nodesCount ?hc (i + 1) n)"
    if "\<And>p. p < length ps \<Longrightarrow> getKey (ps ! p) = key \<Longrightarrow> node_of ?node \<noteq> \<lparr>nh_hash = ?hc, nh_pos = of_nat p\<rparr>"
    using Suc.prems that by (intro Suc.IH) (auto simp: less_Suc_eq)
  consider "hx_hash ?node = 0" | "hx_hash ?node \<noteq> 0" "hx_hash ?node \<noteq> htobe64 ?hc"
    | "hx_hash ?node \<noteq> 0" "hx_hash ?node = htobe64 ?hc" by blast
  then show ?case
  proof cases
    case 1
    have "key \<notin> getKey ` set ps"
    proof
      assume "key \<in> getKey ` set ps"
      then obtain p where p: "p < length ps" "getKey (ps ! p) = key" by (auto simp: in_set_conv_nth)
      let ?d = "\<lparr>nh_hash = ?hc, nh_pos = of_nat p\<rparr>"
      have "?d \<in> hash_entries ps" using p by (auto simp: hash_entries_def)
      then have "placed (map node_of nodes) nodesCount ?d" "nh_hash ?d \<noteq> 0" using ok by (auto simp: table_ok_def)
      then have "nh_hash (map node_of nodes ! hash_cell (nh_hash ?d) i nodesCount) \<noteq> 0"
        using Suc.prems(1) Suc.prems(2) [OF p] cell by (intro placed_probe) simp_all
      then show False using 1 cell [of i] by simp
    qed
    then show ?thesis using 1 searched_found_iff(1) [OF sorted, of key]
      by (auto simp: hash_answer_def Let_def)
  next
    case 2
    then have "node_of ?node \<noteq> \<lparr>nh_hash = ?hc, nh_pos = of_nat p\<rparr>" for p
      by (metis HashNode.select_convs(1) NodeHelper.select_convs(1) getNodeBE_def getNodeBE_node_of)
    then show ?thesis using 2 continue by (simp add: Let_def)
  next
    case 3
    have "node_of ?node \<in> hash_entries ps"
      using ok 3(1) cell [of i] unfolding table_ok_def by (metis node_of_hash_0 nth_map nth_mem length_map)
    then obtain p where p: "p < length ps" "node_of ?node = \<lparr>nh_hash = key_hash (getKey (ps ! p)), nh_pos = of_nat p\<rparr>"
      by (auto simp: hash_entries_def)
    have pos: "betoh64 (hx_pos ?node) = of_nat p" using p(2) by (simp add: node_of_def)
    have u: "unat (of_nat p :: u64) = p" by (rule dk_maps_length(3) [OF assms(1) p(1)])
    then have inside: "\<not> dk_size l \<le> of_nat p" using p(1) dk_maps_length(2) [OF assms(1)] by (simp add: word_le_nat_alt)
    obtain q where q: "dk_at l (of_nat p) = Some q" "getKey (snd q) = getKey (ps ! p)"
      using dk_at_maps [OF assms(1) p(1)] by metis
    have c: "cmp (snd q) key = 0 \<longleftrightarrow> getKey (ps ! p) = key" using assms(2) q(2) by (simp add: cmp_def cmpX_def)
    show ?thesis
    proof (cases "getKey (ps ! p) = key")
      case True
      then show ?thesis using 3 pos inside q(1) c u searched_found_iff(2) [OF sorted p(1) True]
        by (simp add: Let_def hash_answer_def)
    next
      case False
      have "node_of ?node \<noteq> \<lparr>nh_hash = ?hc, nh_pos = of_nat p'\<rparr>" if "p' < length ps" "getKey (ps ! p') = key" for p'
      proof
        assume "node_of ?node = \<lparr>nh_hash = ?hc, nh_pos = of_nat p'\<rparr>"
        then have "(of_nat p :: u64) = of_nat p'" using p(2) by simp
        then have "unat (of_nat p :: u64) = unat (of_nat p' :: u64)" by (rule arg_cong)
        then have "p = p'" unfolding u dk_maps_length(3) [OF assms(1) that(1)] .
        then show False using that False by simp
      qed
      then show ?thesis using 3 pos inside q(1) c False continue by (simp add: Let_def)
    qed
  qed
qed (simp add: assms(3))

lemma searchHashIndex_right:
  assumes "hash_maps l ps" "key \<noteq> []" "hash_answer ps key fallback"
  shows "hash_answer ps key (searchHashIndex fallback key l)"
proof -
  obtain ptr nodesCount where "bg_asArray 16 (mHash l) 0 = (Some ptr, nodesCount)"
    "table_ok (map node_of (hash_nodes (mHash l) nodesCount)) nodesCount (hash_entries ps)" and l: "dk_maps l ps"
    using assms(1) by (auto simp: hash_maps_def)
  then show ?thesis
    using search_probes_right [OF l assms(2,3), of "hash_nodes (mHash l) nodesCount" nodesCount 0 HASHTABLE_OPEN_ADDRESSES]
    by (simp add: searchHashIndex_def)
qed

section \<open>The builders leave a good table\<close>

lemma hash_file_nodes:
  assumes "bg_ok g" "bg_mem g = concat (map node_bytes ns)" "ns \<noteq> []"
  shows "\<exists>ptr. bg_asArray 16 g 0 = (Some ptr, of_nat (length ns))" "hash_nodes g (of_nat (length ns)) = ns"
proof -
  have len: "length (bg_mem g) = 16 * length ns"
    using assms(2) by (simp add: length_concat o_def sum_list_triv node_bytes_def)
  then have n: "length ns < 2 ^ 60" using assms(1) by (simp add: bg_ok_def)
  have u: "unat (of_nat (length ns) :: u64) = length ns" using n by (intro unat_of_nat_small) simp
  have "unat (bg_sizeAs 16 g) = length ns"
    using len bg_size_nat [OF assms(1)] by (simp add: bg_sizeAs_def unat_div)
  then have sz: "bg_sizeAs 16 g = of_nat (length ns)" using u by (simp add: word_unat_eq_iff)
  have "safeAccessMemory g 0 (of_nat (length ns) * 16) \<noteq> None"
    using safeAccess_nat [OF assms(1), of 0 "length ns * 16"] n assms(3) len by simp
  then show "\<exists>ptr. bg_asArray 16 g 0 = (Some ptr, of_nat (length ns))"
    by (auto simp: bg_asArray_def sz Let_def)
  show "hash_nodes g (of_nat (length ns)) = ns"
  proof (rule nth_equalityI)
    fix j assume "j < length (hash_nodes g (of_nat (length ns)))"
    then have j: "j < length ns" by (simp add: hash_nodes_def u)
    have d: "drop (16 * j) (bg_mem g) = node_bytes (ns ! j) @ concat (map node_bytes (drop (Suc j) ns))"
      unfolding assms(2) using j by (intro concat_blocks_nth) (simp_all add: node_bytes_def)
    then have "drop (16 * j + 8) (bg_mem g) = store_le 8 (hx_pos (ns ! j)) @ concat (map node_bytes (drop (Suc j) ns))"
      unfolding add.commute [of "16 * j" 8] drop_drop [symmetric] d by (simp add: node_bytes_def)
    then show "hash_nodes g (of_nat (length ns)) ! j = ns ! j"
      using d j by (simp add: hash_nodes_def u node_bytes_def)
  qed (simp add: hash_nodes_def u)
qed

text \<open>The entries in the order of the table, from position \<open>i\<close> on.\<close>

definition hash_data :: "nat \<Rightarrow> Pair list \<Rightarrow> NodeHelper list" where
  "hash_data i ps = map (\<lambda>j. \<lparr>nh_hash = key_hash (getKey (ps ! j)), nh_pos = of_nat (i + j)\<rparr>) [0..<length ps]"

lemma hash_data_Cons:
  "hash_data i (p # ps) = \<lparr>nh_hash = key_hash (getKey p), nh_pos = of_nat i\<rparr> # hash_data (i + 1) ps"
  by (simp add: hash_data_def map_upt_Suc del: upt_Suc)

lemma set_hash_data: "set (hash_data 0 ps) = hash_entries ps"
  by (auto simp: hash_data_def hash_entries_def)

lemma pos_next_nat:
  assumes "is32 \<longrightarrow> i + 1 < 2 ^ 32"
  shows "pos_next is32 (of_nat i) = of_nat (i + 1)"
proof (cases is32)
  case True
  have "(of_nat i + 1 :: u64) = of_nat (i + 1)" by simp
  moreover have "ucast (ucast (of_nat (i + 1) :: u64) :: u32) = (of_nat (i + 1) :: u64)"
    using assms True
    by (simp add: word_unat_eq_iff unsigned_ucast_eq unsigned_take_bit_eq take_bit_nat_def unat_of_nat del: of_nat_Suc of_nat_add)
  ultimately show ?thesis using True by (simp only: pos_next_def if_True)
qed (simp add: pos_next_def add.commute)

lemma sb_run:
  assumes "is32 \<longrightarrow> i + length ps < 2 ^ 32" "sb_pos b = of_nat i"
  shows "sb_buffer (fold (\<lambda>p b. snd (sb_call is32 p b)) ps b) = insert_all (hash_data i ps) (sb_nodesCount b) (sb_buffer b) \<and>
    sb_nodesCount (fold (\<lambda>p b. snd (sb_call is32 p b)) ps b) = sb_nodesCount b"
  using assms
proof (induction ps arbitrary: b i)
  case (Cons p ps)
  let ?b = "snd (sb_call is32 p b)"
  have f: "sb_pos ?b = of_nat (i + 1)" "sb_nodesCount ?b = sb_nodesCount b"
    "sb_buffer ?b = snd (insertHH \<lparr>nh_hash = key_hash (getKey p), nh_pos = of_nat i\<rparr> (sb_buffer b) (sb_nodesCount b))"
    using Cons.prems pos_next_nat [of is32 i] by (cases is32; simp add: sb_call_def Let_def split: prod.split)+
  from Cons.IH [OF _ f(1)] Cons.prems(1) f show ?case by (simp add: hash_data_Cons insert_all_def)
qed (simp add: insert_all_def hash_data_def)

definition hashes_ok :: "Pair list \<Rightarrow> bool" where
  "hashes_ok ps \<longleftrightarrow> list_all (\<lambda>p. key_hash (getKey p) \<noteq> 0) ps"

lemma hash_data_nonzero: "hashes_ok ps \<Longrightarrow> list_all (\<lambda>d. nh_hash d \<noteq> 0) (hash_data i ps)"
  by (auto simp: hashes_ok_def hash_data_def list_all_iff)

lemma standard_table:
  assumes "hashes_ok ps" "nodesCount \<noteq> 0" "is32 \<longrightarrow> length ps < 2 ^ 32"
  shows "\<exists>ns. sb_file (fold (\<lambda>p b. snd (sb_call is32 p b)) ps (mkHashIndexStandardBuilder nodesCount)) =
      concat (map node_bytes ns) \<and> length ns = unat nodesCount \<and> table_ok (map node_of ns) nodesCount (hash_entries ps)"
proof -
  let ?z = "replicate (unat nodesCount) \<lparr>nh_hash = 0, nh_pos = 0\<rparr>"
  let ?t = "insert_all (hash_data 0 ps) nodesCount ?z"
  have ok: "table_ok ?t nodesCount (hash_entries ps)"
    using insert_all_ok [OF table_ok_empty [OF assms(2)] hash_data_nonzero [OF assms(1), of 0]] by (simp add: set_hash_data)
  have b: "sb_buffer (fold (\<lambda>p b. snd (sb_call is32 p b)) ps (mkHashIndexStandardBuilder nodesCount)) = ?t"
    "sb_nodesCount (fold (\<lambda>p b. snd (sb_call is32 p b)) ps (mkHashIndexStandardBuilder nodesCount)) = nodesCount"
    using sb_run [of is32 0 ps "mkHashIndexStandardBuilder nodesCount"] assms(3)
    by (simp_all add: mkHashIndexStandardBuilder_def)
  have len: "length ?t = unat nodesCount" using ok by (simp add: table_ok_def)
  have "map (\<lambda>i. node_bytes (getNodeBE (?t ! i))) [0..<unat nodesCount] = map node_bytes (map getNodeBE ?t)"
    using len by (intro nth_equalityI) simp_all
  moreover have "map node_of (map getNodeBE ?t) = ?t" by (simp add: o_def)
  ultimately show ?thesis using ok len b by (intro exI [of _ "map getNodeBE ?t"]) (simp add: sb_file_def del: map_map)
qed

text \<open>The invariant of the multi pass builder: what is in the file, and what waits in the vector.\<close>

definition mp_inv :: "HashIndexMultiPassBuilder \<Rightarrow> NodeHelper set \<Rightarrow> bool" where
  "mp_inv b D \<longleftrightarrow>
     (\<exists>ns E. mp_nodes b = Some ns \<and> table_ok (map node_of ns) (mp_nodesCount b) E \<and>
        E \<union> set (mp_vector b) = D \<and> list_all (\<lambda>d. nh_hash d \<noteq> 0) (mp_vector b))"

lemma mp_flush_ok:
  assumes "table_ok (map node_of ns) nodesCount E" "list_all (\<lambda>d. nh_hash d \<noteq> 0) vec"
  shows "\<exists>ns'. mp_flush vec (Some ns) nodesCount = Some ns' \<and> table_ok (map node_of ns') nodesCount (E \<union> set vec)"
proof -
  let ?ds = "sort_key (\<lambda>d. nh_cell d nodesCount) vec"
  have "nodesCount \<noteq> 0" "length ns = unat nodesCount" using assms(1) by (simp_all add: table_ok_def)
  note d = fold_insertMM_decode [OF this, of ?ds]
  have "table_ok (insert_all ?ds nodesCount (map node_of ns)) nodesCount (E \<union> set ?ds)"
    using assms by (intro insert_all_ok) (simp_all add: list_all_iff)
  then show ?thesis using d by (simp add: mp_flush_def)
qed

lemma mp_call_inv:
  assumes "mp_inv b D" "mp_pos b = of_nat i" "is32 \<longrightarrow> i + 1 < 2 ^ 32" "key_hash (getKey p) \<noteq> 0"
  shows "mp_inv (snd (mp_call is32 p b)) (insert \<lparr>nh_hash = key_hash (getKey p), nh_pos = of_nat i\<rparr> D)"
    "mp_pos (snd (mp_call is32 p b)) = of_nat (i + 1)" "mp_nodesCount (snd (mp_call is32 p b)) = mp_nodesCount b"
proof -
  let ?d = "\<lparr>nh_hash = key_hash (getKey p), nh_pos = of_nat i\<rparr>"
  let ?v = "mp_vector b @ [?d]"
  obtain ns E where b: "mp_nodes b = Some ns" "table_ok (map node_of ns) (mp_nodesCount b) E"
    "E \<union> set (mp_vector b) = D" "list_all (\<lambda>d. nh_hash d \<noteq> 0) (mp_vector b)"
    using assms(1) by (auto simp: mp_inv_def)
  have v: "list_all (\<lambda>d. nh_hash d \<noteq> 0) ?v" using b(4) assms(4) by simp
  obtain ns' where ns': "mp_flush ?v (Some ns) (mp_nodesCount b) = Some ns'"
    "table_ok (map node_of ns') (mp_nodesCount b) (E \<union> set ?v)"
    using mp_flush_ok [OF b(2) v] by blast
  show "mp_inv (snd (mp_call is32 p b)) (insert ?d D)"
    using b ns' v assms(2) by (auto simp: mp_call_def mp_inv_def Let_def)
  show "mp_pos (snd (mp_call is32 p b)) = of_nat (i + 1)" "mp_nodesCount (snd (mp_call is32 p b)) = mp_nodesCount b"
    using b(1) assms(2) pos_next_nat [OF assms(3)] by (simp_all add: mp_call_def Let_def)
qed

lemma mp_run:
  assumes "mp_inv b D" "mp_pos b = of_nat i" "is32 \<longrightarrow> i + length ps < 2 ^ 32" "hashes_ok ps"
  shows "mp_inv (fold (\<lambda>p b. snd (mp_call is32 p b)) ps b) (D \<union> set (hash_data i ps)) \<and>
    mp_nodesCount (fold (\<lambda>p b. snd (mp_call is32 p b)) ps b) = mp_nodesCount b"
  using assms
proof (induction ps arbitrary: b D i)
  case (Cons p ps)
  have p: "key_hash (getKey p) \<noteq> 0" "hashes_ok ps" using Cons.prems(4) by (simp_all add: hashes_ok_def)
  have n: "is32 \<longrightarrow> i + 1 < 2 ^ 32" "is32 \<longrightarrow> i + 1 + length ps < 2 ^ 32" using Cons.prems(3) by (cases is32; simp)+
  note c = mp_call_inv [OF Cons.prems(1,2) n(1) p(1)]
  from Cons.IH [OF c(1,2) n(2) p(2)] c(3) show ?case by (simp add: hash_data_Cons insert_commute)
qed (simp add: hash_data_def)

lemma multipass_table:
  assumes "hashes_ok ps" "nodesCount \<noteq> 0" "is32 \<longrightarrow> length ps < 2 ^ 32"
  shows "\<exists>ns. mp_nodes (mp_finish (fold (\<lambda>p b. snd (mp_call is32 p b)) ps (mkHashIndexMultiPassBuilder True cap nodesCount))) = Some ns \<and>
    length ns = unat nodesCount \<and> table_ok (map node_of ns) nodesCount (hash_entries ps)"
proof -
  let ?init = "mkHashIndexMultiPassBuilder True cap nodesCount"
  let ?b = "fold (\<lambda>p b. snd (mp_call is32 p b)) ps ?init"
  have "node_of \<lparr>hx_hash = 0, hx_pos = 0\<rparr> = \<lparr>nh_hash = 0, nh_pos = 0\<rparr>"
    by (simp add: node_of_def endian_defs)
  then have "table_ok (map node_of (replicate (unat nodesCount) \<lparr>hx_hash = 0, hx_pos = 0\<rparr>)) nodesCount {}"
    using table_ok_empty [OF assms(2)] by simp
  then have "mp_inv ?init {}" by (auto simp: mp_inv_def mkHashIndexMultiPassBuilder_def)
  from mp_run [OF this, of 0 is32 ps] assms(1,3)
  have run: "mp_inv ?b (hash_entries ps)" "mp_nodesCount ?b = nodesCount"
    by (simp_all add: mkHashIndexMultiPassBuilder_def set_hash_data)
  then obtain ns E where b: "mp_nodes ?b = Some ns" "table_ok (map node_of ns) nodesCount E"
    "E \<union> set (mp_vector ?b) = hash_entries ps" "list_all (\<lambda>d. nh_hash d \<noteq> 0) (mp_vector ?b)"
    by (auto simp: mp_inv_def)
  obtain ns' where "mp_flush (mp_vector ?b) (Some ns) nodesCount = Some ns'"
    "table_ok (map node_of ns') nodesCount (hash_entries ps)"
    using mp_flush_ok [OF b(2,4)] b(3) by auto
  then show ?thesis using b run(2)
    by (cases "mp_vector ?b = []") (auto simp: mp_finish_def table_ok_def)
qed

text \<open>The hash files that the two builders write for a table.\<close>

definition hash_built :: "Pair list \<Rightarrow> str \<Rightarrow> bool" where
  "hash_built ps mem \<longleftrightarrow>
     (\<exists>nodesCount is32. nodesCount \<noteq> 0 \<and> (is32 \<longrightarrow> length ps < 2 ^ 32) \<and>
       (mem = sb_file (fold (\<lambda>p b. snd (sb_call is32 p b)) ps (mkHashIndexStandardBuilder nodesCount)) \<or>
        (\<exists>cap ns. mp_nodes (mp_finish (fold (\<lambda>p b. snd (mp_call is32 p b)) ps
              (mkHashIndexMultiPassBuilder True cap nodesCount))) = Some ns \<and>
            mem = concat (map node_bytes ns))))"

lemma hash_built_table:
  assumes "hash_built ps mem" "hashes_ok ps"
  obtains ns nodesCount where "mem = concat (map node_bytes ns)" "length ns = unat nodesCount" "ns \<noteq> []"
    "table_ok (map node_of ns) nodesCount (hash_entries ps)"
proof -
  obtain nodesCount is32 where n: "nodesCount \<noteq> 0" "is32 \<longrightarrow> length ps < 2 ^ 32"
    "mem = sb_file (fold (\<lambda>p b. snd (sb_call is32 p b)) ps (mkHashIndexStandardBuilder nodesCount)) \<or>
      (\<exists>cap ns. mp_nodes (mp_finish (fold (\<lambda>p b. snd (mp_call is32 p b)) ps
          (mkHashIndexMultiPassBuilder True cap nodesCount))) = Some ns \<and> mem = concat (map node_bytes ns))"
    using assms(1) by (auto simp: hash_built_def)
  have "\<exists>ns. mem = concat (map node_bytes ns) \<and> length ns = unat nodesCount \<and>
      table_ok (map node_of ns) nodesCount (hash_entries ps)"
    using n(3)
  proof
    assume "\<exists>cap ns. mp_nodes (mp_finish (fold (\<lambda>p b. snd (mp_call is32 p b)) ps
          (mkHashIndexMultiPassBuilder True cap nodesCount))) = Some ns \<and> mem = concat (map node_bytes ns)"
    then show ?thesis using multipass_table [OF assms(2) n(1,2)] by (metis option.inject)
  qed (use standard_table [OF assms(2) n(1,2)] in metis)
  moreover have "unat nodesCount \<noteq> 0" using n(1) by (simp add: unat_eq_0)
  ultimately show ?thesis using that by (metis list.size(3))
qed

lemma hash_maps_built:
  assumes "dk_maps l ps" "bg_ok (mHash l)" "hashes_ok ps" "hash_built ps (bg_mem (mHash l))"
  shows "hash_maps l ps"
proof -
  obtain ns nodesCount where ns: "bg_mem (mHash l) = concat (map node_bytes ns)" "length ns = unat nodesCount" "ns \<noteq> []"
    "table_ok (map node_of ns) nodesCount (hash_entries ps)"
    using hash_built_table [OF assms(4,3)] .
  have "of_nat (length ns) = nodesCount" using ns(2) by simp
  with hash_file_nodes [OF assms(2) ns(1,3)] assms(1) ns(4) show ?thesis by (auto simp: hash_maps_def)
qed

section \<open>Properties\<close>

text \<open>
  C15: the search through the hash index finds exactly the keys of the table, at their positions, when
  the index was written by the standard or by the multi pass builder for that table, whatever its size
  and however many entries did not fit into their sixteen probes: a key with no free probe makes the
  search fall back to the binary search.  No key of the table may have the hash zero, the mark of a
  free cell.\<close>

theorem hash_index_exact:
  assumes "dk_maps l ps" "bg_ok (mHash l)" "hashes_ok ps" "hash_built ps (bg_mem (mHash l))" "key \<noteq> []"
  shows "\<exists>r. searchHashIndex (searchBinary_all key l) key l = Some r \<and> (bs_found r \<longleftrightarrow> key \<in> getKey ` set ps) \<and>
    (bs_found r \<longrightarrow> bs_it r < length ps \<and> getKey (ps ! bs_it r) = key)"
proof -
  have "hash_answer ps key (searchBinary_all key l)"
    using searchBinary_all_maps [OF assms(1,5)] by (simp add: hash_answer_def)
  then have "hash_answer ps key (searchHashIndex (searchBinary_all key l) key l)"
    by (rule searchHashIndex_right [OF hash_maps_built [OF assms(1-4)] assms(5)])
  moreover have s: "sorted_wrt (<) (map getKey ps)" using assms(1) by (simp add: dk_maps_def)
  ultimately show ?thesis using searched_found_iff [OF s]
    by (auto simp: hash_answer_def in_set_conv_nth)
qed

lemma key_hash_a: "key_hash [97] \<noteq> 0"
  by (simp add: murmur_hash64a_def murmur_tail_def murmur_m_def Let_def eval_simps)

theorem hash_index_exact_witness:
  "\<exists>r. searchHashIndex (searchBinary_all [97] ((sample_disk [sample_key_pair [97] 5])\<lparr>mHash := \<lparr>bg_data = 4096,
       bg_mem = sb_file (snd (sb_call False (sample_key_pair [97] 5) (mkHashIndexStandardBuilder 3)))\<rparr>\<rparr>)) [97]
      ((sample_disk [sample_key_pair [97] 5])\<lparr>mHash := \<lparr>bg_data = 4096,
       bg_mem = sb_file (snd (sb_call False (sample_key_pair [97] 5) (mkHashIndexStandardBuilder 3)))\<rparr>\<rparr>) = Some r \<and>
    bs_found r"
proof -
  let ?p = "sample_key_pair [97] 5"
  let ?f = "sb_file (snd (sb_call False ?p (mkHashIndexStandardBuilder 3)))"
  let ?l = "(sample_disk [?p])\<lparr>mHash := \<lparr>bg_data = 4096, bg_mem = ?f\<rparr>\<rparr>"
  have p: "getKey ?p = [97]" "pair_wf ?p" using sample_key_pair [of "[97]" 5] by (simp_all add: MAX_KEY_SIZE_def)
  have l: "dk_maps ?l [?p]"
    using sample_disk_maps [of "[?p]"] p by (simp add: dk_maps_def dk_size_def)
  have h: "hashes_ok [?p]" using p key_hash_a by (simp add: hashes_ok_def)
  obtain ns where "?f = concat (map node_bytes ns)" "length ns = 3"
    using standard_table [OF h, of 3 False] by auto
  then have "length ?f = 48" by (simp add: length_concat o_def sum_list_triv node_bytes_def)
  then have g: "bg_ok (mHash ?l)" by (simp add: bg_ok_small)
  have "hash_built [?p] ?f" unfolding hash_built_def
    by (intro exI [of _ 3] exI [of _ False] conjI disjI1) simp_all
  with hash_index_exact [OF l g h, of "[97]"] p(1) show ?thesis by auto
qed

end
