(* ===== verification/BTreeIndex.thy ===== *)
theory BTreeIndex
  imports HotLine
begin

text \<open>
  The B tree of a disk table: \<^verbatim>\<open>include/bfslookup.h\<close>, \<^verbatim>\<open>hm4/disk/btreeindexnode.h\<close>, the builder of
  \<^verbatim>\<open>hm4/disk/btreeindexbuilder.h.cc\<close> and \<open>BTreeSearchHelper\<close> of \<^verbatim>\<open>hm4/disk/disklist.cc\<close>.  A node holds 127
  offsets into the file of keys, in breadth first order; the search narrows a range of the table and
  ends in a binary search of what is left.  Positions of nodes are natural numbers: a mapping has
  fewer than 2 to the 55th nodes, so \<open>pos * 128 + 128\<close> does not wrap.
\<close>

section \<open>bfslookup.h and btreeindexnode.h\<close>

function bfs_reorder :: "nat \<Rightarrow> nat \<Rightarrow> nat \<Rightarrow> nat \<Rightarrow> nat list" where
  "bfs_reorder begin fin target_level current_level =
     (if begin \<ge> fin then []
      else
        (let mid = begin + (fin - begin) div 2 in
         if current_level = target_level then [mid]
         else if current_level < target_level
         then bfs_reorder begin mid target_level (current_level + 1) @
              bfs_reorder (mid + 1) fin target_level (current_level + 1)
         else []))"
  by pat_completeness auto
termination by (relation "measure (\<lambda>(b, e, t, c). e - b)") auto

declare bfs_reorder.simps [simp del]

definition NODE_LEVELS :: nat where "NODE_LEVELS = 7"

definition bfs_build :: "nat \<Rightarrow> nat list" where
  "bfs_build Levels = concat (map (\<lambda>level. bfs_reorder 0 (2 ^ Levels - 1) level 0) [0..<Levels])"

definition LL :: "nat list" where "LL = bfs_build NODE_LEVELS"

definition VALUES :: nat where "VALUES = 127"

definition sizeof_Node :: nat where "sizeof_Node = 1016"
definition sizeof_NodeData :: nat where "sizeof_NodeData = 10"

section \<open>The search\<close>

datatype 'a acc = Crash | BTreeAccessError | Value 'a

datatype NodeResult = Result u64 | NodeIndex nat

definition accessNodeValue :: "BlobGuard \<Rightarrow> u64 \<Rightarrow> (str \<times> u64) acc" where
  "accessNodeValue keys offsetBE =
     (let offset = betoh64 offsetBE in
      case bg_as (of_nat sizeof_NodeData) keys offset 1 of
        None \<Rightarrow> BTreeAccessError
      | Some nd \<Rightarrow>
          if \<not> bg_readable keys nd sizeof_NodeData then Crash
          else
            (let dataid = betoh64 (load64 (bg_bytes keys nd));
                 keysize = unat (betoh16 (load16 (drop 8 (bg_bytes keys nd))))
             in case bg_as 1 keys (offset + of_nat sizeof_NodeData) (of_nat keysize) of
                  None \<Rightarrow> BTreeAccessError
                | Some keyptr \<Rightarrow>
                    if \<not> bg_readable keys keyptr keysize then Crash
                    else Value (take keysize (bg_bytes keys keyptr), dataid)))"

definition node_value :: "BlobGuard \<Rightarrow> nat \<Rightarrow> nat \<Rightarrow> u64" where
  "node_value tree pos node_pos = load64 (drop (sizeof_Node * pos + 8 * node_pos) (bg_mem tree))"

function levelOrderBinarySearch ::
  "DiskList \<Rightarrow> str \<Rightarrow> nat \<Rightarrow> nat \<Rightarrow> u64 \<times> u64 \<Rightarrow> (NodeResult \<times> (u64 \<times> u64)) acc" where
  "levelOrderBinarySearch l key pos node_pos st =
     (case accessNodeValue (mKeys l) (node_value (mTree l) pos node_pos) of
        Crash \<Rightarrow> Crash
      | BTreeAccessError \<Rightarrow> BTreeAccessError
      | Value x \<Rightarrow>
          (let c = sgn3 (fst x) key; dataid = snd x in
           if c < 0 then
             (let node_index = LL ! node_pos + 1; node_pos' = 2 * node_pos + 1 + 1; st = (dataid + 1, snd st) in
              if node_pos' < VALUES then levelOrderBinarySearch l key pos node_pos' st
              else Value (NodeIndex node_index, st))
           else if c > 0 then
             (let node_index = LL ! node_pos; node_pos' = 2 * node_pos + 1; st = (fst st, dataid) in
              if node_pos' < VALUES then levelOrderBinarySearch l key pos node_pos' st
              else Value (NodeIndex node_index, st))
           else Value (Result dataid, st)))"
  by pat_completeness auto
termination by (relation "measure (\<lambda>(l, key, pos, node_pos, st). VALUES - node_pos)") auto

declare levelOrderBinarySearch.simps [simp del]

function btreeSearch_loop ::
  "DiskList \<Rightarrow> str \<Rightarrow> nat \<Rightarrow> nat \<Rightarrow> u64 \<times> u64 \<Rightarrow> BinarySearchResult option acc" where
  "btreeSearch_loop l key nodesCount pos st =
     (if pos < nodesCount then
        (case levelOrderBinarySearch l key pos 0 st of
           Crash \<Rightarrow> Crash
         | BTreeAccessError \<Rightarrow> BTreeAccessError
         | Value r \<Rightarrow>
             (case fst r of
                Result dataid \<Rightarrow> Value (Some \<lparr>bs_found = True, bs_it = unat dataid\<rparr>)
              | NodeIndex node_index \<Rightarrow>
                  (let branches = VALUES + 1 in
                   if node_index = VALUES
                   then btreeSearch_loop l key nodesCount (pos * branches + branches) (snd r)
                   else btreeSearch_loop l key nodesCount (pos * branches + node_index + 1) (snd r))))
      else Value (searchBinary 0 key l (unat (fst st)) (unat (snd st))))"
  by pat_completeness auto
termination by (relation "measure (\<lambda>(l, key, n, pos, st). n - pos)") auto

declare btreeSearch_loop.simps [simp del]

definition btreeSearch :: "str \<Rightarrow> DiskList \<Rightarrow> BinarySearchResult option acc" where
  "btreeSearch key l =
     (let (nodes, nodesCount) = bg_asArray (of_nat sizeof_Node) (mTree l) 0 in
      if nodes = None then BTreeAccessError
      else btreeSearch_loop l key (unat nodesCount) 0 (0, dk_size l))"

definition searchBTree :: "str \<Rightarrow> DiskList \<Rightarrow> BinarySearchResult option" where
  "searchBTree key l =
     (case btreeSearch key l of
        Value r \<Rightarrow> r
      | BTreeAccessError \<Rightarrow> searchBinary_all key l
      | Crash \<Rightarrow> None)"

section \<open>The builder\<close>

record BTreeIndexBuilder =
  bb_current :: u64
  bb_indx :: "str list"
  bb_data :: "str list"

definition push_back_key :: "bool \<Rightarrow> Pair list \<Rightarrow> nat \<Rightarrow> BTreeIndexBuilder \<Rightarrow> BTreeIndexBuilder" where
  "push_back_key aligned ps index b =
     (let key = getKey (ps ! index);
          nd = store_le 8 (htobe64 (of_nat index)) @ store_le 2 (htobe16 (of_nat (length key)));
          b = b\<lparr>bb_data := bb_data b @ [nd, key, [0]]\<rparr>;
          data_size = of_nat (sizeof_NodeData + length key + 1);
          b = b\<lparr>bb_current := bb_current b + data_size\<rparr>
      in if aligned
         then b\<lparr>bb_data := bb_data b @ replicate (unat (align_gap data_size 8)) [0],
                bb_current := bb_current b + align_gap data_size 8\<rparr>
         else b)"

text \<open>One value of a node: remember the offset, then write the key.\<close>

definition node_step ::
  "bool \<Rightarrow> Pair list \<Rightarrow> nat \<Rightarrow> nat \<Rightarrow> nat \<Rightarrow> str \<times> BTreeIndexBuilder \<Rightarrow> str \<times> BTreeIndexBuilder" where
  "node_step aligned ps lo distance j nb =
     (let i = LL ! j;
          node = fst nb @ store_le 8 (htobe64 (bb_current (snd nb)));
          index = lo + distance * (i + 1)
      in (node, push_back_key aligned ps index (snd nb)))"

text \<open>\<open>reorder_\<close>, \<open>n\<close> levels above the target; \<open>None\<close> is the logic error of a node that is not full.\<close>

primrec reorder ::
  "nat \<Rightarrow> bool \<Rightarrow> Pair list \<Rightarrow> nat \<Rightarrow> nat \<Rightarrow> BTreeIndexBuilder \<Rightarrow> BTreeIndexBuilder option" where
  "reorder 0 aligned ps lo fin b =
     (if lo \<ge> fin then Some b
      else
        (let sz = fin - lo; distance = sz div (VALUES + 1) in
         if sz \<le> VALUES then None
         else
           (let (node, b) = fold (node_step aligned ps lo distance) [0..<VALUES] ([], b)
            in Some (b\<lparr>bb_indx := bb_indx b @ [node]\<rparr>))))"
| "reorder (Suc n) aligned ps lo fin b =
     (if lo \<ge> fin then Some b
      else
        (let sz = fin - lo;
             distance = sz div (VALUES + 1);
             child = (\<lambda>i. (if i = 0 then lo else lo + distance * i + 1,
                           if i = VALUES then fin else lo + distance * (i + 1)))
         in fold (\<lambda>i ob. Option.bind ob (reorder n aligned ps (fst (child i)) (snd (child i)))) [0..<VALUES + 1] (Some b)))"

function calcDepth :: "nat \<Rightarrow> nat" where
  "calcDepth count =
     (if count > 0 then
        (if count > VALUES then 1 + calcDepth ((count - VALUES) div (VALUES + 1)) else 1)
      else 0)"
  by pat_completeness auto
termination by (relation "measure (\<lambda>n. n)") (auto simp: VALUES_def)

declare calcDepth.simps [simp del]

text \<open>
  \<open>build\<close>: the index and the key file, or nothing when the list is too short for a tree.  The number of
  levels is an 8 bit \<open>level_type\<close>, so for an empty list \<open>calcDepth__(size) - 1\<close> wraps around to 255.
\<close>

definition btree_levels :: "nat \<Rightarrow> nat" where
  "btree_levels n = (calcDepth n + 255) mod 256"

definition btree_build :: "bool \<Rightarrow> Pair list \<Rightarrow> (str \<times> str) option option" where
  "btree_build aligned ps =
     (let total_levels = btree_levels (length ps) in
      if total_levels = 0 then Some None
      else
        map_option (\<lambda>b. Some (concat (bb_indx b), concat (bb_data b)))
          (fold (\<lambda>level ob. Option.bind ob (reorder level aligned ps 0 (length ps))) [0..<total_levels]
             (Some \<lparr>bb_current = 0, bb_indx = [], bb_data = []\<rparr>)))"

section \<open>The search is right over any index that tells the truth\<close>

definition btree_true :: "DiskList \<Rightarrow> Pair list \<Rightarrow> bool" where
  "btree_true l ps \<longleftrightarrow>
     (\<forall>pos node_pos. pos < unat (snd (bg_asArray (of_nat sizeof_Node) (mTree l) 0)) \<longrightarrow> node_pos < VALUES \<longrightarrow>
        (case accessNodeValue (mKeys l) (node_value (mTree l) pos node_pos) of
           Crash \<Rightarrow> False
         | BTreeAccessError \<Rightarrow> True
         | Value x \<Rightarrow> unat (snd x) < length ps \<and> fst x = getKey (ps ! unat (snd x))))"

text \<open>The range that is left holds the lower bound, and its end is not the key.\<close>

definition btree_range :: "Pair list \<Rightarrow> str \<Rightarrow> u64 \<times> u64 \<Rightarrow> bool" where
  "btree_range ps key st \<longleftrightarrow>
     unat (fst st) \<le> lower_bound getKey ps key \<and> lower_bound getKey ps key \<le> unat (snd st) \<and>
     unat (snd st) \<le> length ps \<and> (unat (snd st) < length ps \<longrightarrow> getKey (ps ! unat (snd st)) \<noteq> key)"

lemma keys_lower_bound:
  assumes "sorted_wrt (<) (map getKey ps)" "i < length ps"
  shows "getKey (ps ! i) < key \<longleftrightarrow> i < lower_bound getKey ps key" "getKey (ps ! i) = key \<Longrightarrow> lower_bound getKey ps key = i"
proof -
  show lt: "getKey (ps ! i) < key \<longleftrightarrow> i < lower_bound getKey ps key"
    using lower_bound_less [of i getKey ps key] lower_bound_ge(1) [OF assms(1), of key i] assms(2)
    by (meson leD leI)
  show "lower_bound getKey ps key = i" if "getKey (ps ! i) = key"
    using lt that lower_bound_ge(2) [OF assms(1), of key i] assms(2)
    by (metis less_irrefl linorder_neqE_nat order_less_imp_le)
qed

lemma btree_range_step:
  assumes "sorted_wrt (<) (map getKey ps)" "length ps < 2 ^ 61" "btree_range ps key st" "unat d < length ps"
  shows "getKey (ps ! unat d) < key \<Longrightarrow> btree_range ps key (d + 1, snd st)"
    "key < getKey (ps ! unat d) \<Longrightarrow> btree_range ps key (fst st, d)"
proof -
  note lb = keys_lower_bound [OF assms(1,4), of key]
  have "unat (d + 1) = unat d + 1" using assms(2,4) unat_add_lem [of d 1] by simp
  then show "btree_range ps key (d + 1, snd st)" if "getKey (ps ! unat d) < key"
    using lb that assms(3) by (simp add: btree_range_def)
  show "btree_range ps key (fst st, d)" if "key < getKey (ps ! unat d)"
    using lb that assms(3,4) by (auto simp: btree_range_def not_less [symmetric])
qed

lemma level_search_range:
  assumes "dk_maps l ps" "btree_true l ps" "pos < unat (snd (bg_asArray (of_nat sizeof_Node) (mTree l) 0))"
  shows "node_pos < VALUES \<Longrightarrow> btree_range ps key st \<Longrightarrow>
    (case levelOrderBinarySearch l key pos node_pos st of
       Crash \<Rightarrow> False
     | BTreeAccessError \<Rightarrow> True
     | Value (Result d, st') \<Rightarrow> searched getKey ps key = \<lparr>bs_found = True, bs_it = unat d\<rparr>
     | Value (NodeIndex i, st') \<Rightarrow> btree_range ps key st')"
proof (induction "VALUES - node_pos" arbitrary: node_pos st rule: less_induct)
  case less
  have sorted: "sorted_wrt (<) (map getKey ps)" using assms(1) by (simp add: dk_maps_def)
  note n = dk_maps_length(1) [OF assms(1)]
  have tr: "case accessNodeValue (mKeys l) (node_value (mTree l) pos node_pos) of
      Crash \<Rightarrow> False | BTreeAccessError \<Rightarrow> True | Value x \<Rightarrow> unat (snd x) < length ps \<and> fst x = getKey (ps ! unat (snd x))"
    using assms(2,3) less.prems(1) by (simp add: btree_true_def)
  show ?case
  proof (cases "accessNodeValue (mKeys l) (node_value (mTree l) pos node_pos)")
    case Crash
    then show ?thesis using tr by simp
  next
    case BTreeAccessError
    then show ?thesis by (subst levelOrderBinarySearch.simps) simp
  next
    case (Value x)
    obtain k d where x: "x = (k, d)" by (cases x)
    have d: "unat d < length ps" "k = getKey (ps ! unat d)" using tr Value x by simp_all
    note step = btree_range_step [OF sorted n less.prems(2) d(1)]
    note unf = levelOrderBinarySearch.simps [of l key pos node_pos st] Value x Let_def
    consider "k < key" | "k = key" | "key < k" by (rule linorder_cases)
    then show ?thesis
    proof cases
      case 1
      then have r: "btree_range ps key (d + 1, snd st)" using step(1) d(2) by simp
      show ?thesis
      proof (cases "2 * node_pos + 1 + 1 < VALUES")
        case True
        then show ?thesis using less.hyps [of "2 * node_pos + 1 + 1" "(d + 1, snd st)"] r 1 by (simp add: unf)
      next
        case False
        then show ?thesis using r 1 by (simp add: unf)
      qed
    next
      case 2
      then show ?thesis using keys_lower_bound(2) [OF sorted d(1), of key] d by (simp add: unf searched_def)
    next
      case 3
      then have r: "btree_range ps key (fst st, d)" and ge: "\<not> k < key" using step(2) d(2) by simp_all
      show ?thesis
      proof (cases "2 * node_pos + 1 < VALUES")
        case True
        then show ?thesis using less.hyps [of "2 * node_pos + 1" "(fst st, d)"] r 3 ge by (simp add: unf)
      next
        case False
        then show ?thesis using r 3 ge by (simp add: unf)
      qed
    qed
  qed
qed

lemma btreeSearch_loop_right:
  assumes "dk_maps l ps" "btree_true l ps" "key \<noteq> []"
    and "nodesCount = unat (snd (bg_asArray (of_nat sizeof_Node) (mTree l) 0))"
  shows "btree_range ps key st \<Longrightarrow>
    btreeSearch_loop l key nodesCount pos st \<in> {BTreeAccessError, Value (Some (searched getKey ps key))}"
proof (induction "nodesCount - pos" arbitrary: pos st rule: less_induct)
  case less
  show ?case
  proof (cases "pos < nodesCount")
    case False
    have "searchBinary 0 key l (unat (fst st)) (unat (snd st)) = Some (searched getKey ps key)"
      using assms less.prems
      by (intro searchBinary_range) (auto simp: btree_range_def lcp_base_def dk_maps_def list_all_length)
    then show ?thesis using False by (subst btreeSearch_loop.simps) simp
  next
    case True
    have V: "0 < VALUES" by (simp add: VALUES_def)
    note unf = btreeSearch_loop.simps [of l key nodesCount pos st]
    note lv = level_search_range [OF assms(1,2) True [unfolded assms(4)] V less.prems]
    show ?thesis
    proof (cases "levelOrderBinarySearch l key pos 0 st")
      case Crash
      then show ?thesis using lv by simp
    next
      case BTreeAccessError
      then show ?thesis using True by (simp add: unf)
    next
      case (Value r)
      obtain x st' where r: "r = (x, st')" by (cases r)
      show ?thesis
      proof (cases x)
        case (Result d)
        then show ?thesis using True Value r lv by (simp add: unf)
      next
        case (NodeIndex i)
        then have "btree_range ps key st'" using lv Value r by simp
        note IH = less.hyps [OF _ this]
        have "nodesCount - (pos * (VALUES + 1) + (VALUES + 1)) < nodesCount - pos"
          "nodesCount - (pos * (VALUES + 1) + i + 1) < nodesCount - pos"
          using True by (simp_all add: less_Suc_eq_le diff_less_mono2)
        from IH [OF this(1)] IH [OF this(2)] show ?thesis using True Value r NodeIndex by (simp add: unf Let_def)
      qed
    qed
  qed
qed

lemma searchBTree_right:
  assumes "dk_maps l ps" "btree_true l ps" "key \<noteq> []"
  shows "searchBTree key l = Some (searched getKey ps key)"
proof -
  note n = dk_maps_length(2) [OF assms(1)]
  have "btree_range ps key (0, dk_size l)" using n lower_bound_le [of getKey ps key] by (simp add: btree_range_def)
  from btreeSearch_loop_right [OF assms refl this, of 0]
  have "btreeSearch key l \<in> {BTreeAccessError, Value (Some (searched getKey ps key))}"
    by (cases "bg_asArray (of_nat sizeof_Node) (mTree l) 0") (simp add: btreeSearch_def)
  then show ?thesis using searchBinary_all_maps [OF assms(1,3)] by (auto simp: searchBTree_def)
qed

section \<open>The files that the builder writes tell the truth\<close>

lemma bfs_reorder_range: "x \<in> set (bfs_reorder b e t c) \<Longrightarrow> b \<le> x \<and> x < e"
proof (induction b e t c rule: bfs_reorder.induct)
  case (1 b e t c)
  let ?m = "b + (e - b) div 2"
  show ?case
  proof (cases "b \<ge> e")
    case True
    then show ?thesis using "1.prems" by (simp add: bfs_reorder.simps [of b e t c])
  next
    case False
    then have m: "b \<le> ?m" "?m < e" by auto
    consider "c = t" | "c < t" | "t < c" by linarith
    then show ?thesis
    proof cases
      case 1
      then show ?thesis using "1.prems" False m by (simp add: bfs_reorder.simps [of b e t t])
    next
      case 2
      then have "x \<in> set (bfs_reorder b ?m t (c + 1)) \<or> x \<in> set (bfs_reorder (?m + 1) e t (c + 1))"
        using "1.prems" False by (simp add: bfs_reorder.simps [of b e t c] Let_def)
      then show ?thesis using "1.IH" [OF False refl] 2 m by fastforce
    next
      case 3
      then show ?thesis using "1.prems" False by (simp add: bfs_reorder.simps [of b e t c])
    qed
  qed
qed

lemma length_LL: "length LL = VALUES"
  by code_simp

lemma LL_less: "j < VALUES \<Longrightarrow> LL ! j < VALUES"
proof -
  assume "j < VALUES"
  then have "LL ! j \<in> set LL" using length_LL by simp
  then show ?thesis
    using bfs_reorder_range by (fastforce simp: LL_def bfs_build_def NODE_LEVELS_def VALUES_def)
qed

text \<open>The record of a key, and the offsets of the records of a sequence of positions.\<close>

definition key_record :: "bool \<Rightarrow> Pair list \<Rightarrow> nat \<Rightarrow> str" where
  "key_record aligned ps i =
     (let key = getKey (ps ! i); data_size = of_nat (sizeof_NodeData + length key + 1) :: u64 in
      store_le 8 (htobe64 (of_nat i)) @ store_le 2 (htobe16 (of_nat (length key))) @ key @ [0] @
      (if aligned then replicate (unat (align_gap data_size 8)) 0 else []))"

definition key_records :: "bool \<Rightarrow> Pair list \<Rightarrow> nat list \<Rightarrow> str" where
  "key_records aligned ps is = concat (map (key_record aligned ps) is)"

definition offsets_bytes :: "bool \<Rightarrow> Pair list \<Rightarrow> nat list \<Rightarrow> str" where
  "offsets_bytes aligned ps is =
     concat (map (\<lambda>q. writeU64 (of_nat (length (key_records aligned ps (take q is))))) [0..<length is])"

text \<open>
  The builder after the keys at the positions \<open>is\<close>, with a node under construction.
\<close>

definition bb_inv :: "bool \<Rightarrow> Pair list \<Rightarrow> nat list \<Rightarrow> str \<times> BTreeIndexBuilder \<Rightarrow> bool" where
  "bb_inv aligned ps is nb \<longleftrightarrow>
     concat (bb_data (snd nb)) = key_records aligned ps is \<and>
     bb_current (snd nb) = of_nat (length (key_records aligned ps is)) \<and>
     concat (bb_indx (snd nb)) @ fst nb = offsets_bytes aligned ps is \<and> (\<forall>i \<in> set is. i < length ps)"

lemma offsets_bytes_snoc:
  "offsets_bytes aligned ps (is @ [i]) =
     offsets_bytes aligned ps is @ writeU64 (of_nat (length (key_records aligned ps is)))"
  by (auto simp: offsets_bytes_def intro!: arg_cong [of _ _ concat])

lemma push_back_key_spec:
  "concat (bb_data (push_back_key aligned ps i b)) = concat (bb_data b) @ key_record aligned ps i"
  "bb_current (push_back_key aligned ps i b) = bb_current b + of_nat (length (key_record aligned ps i))"
  "bb_indx (push_back_key aligned ps i b) = bb_indx b"
  by (auto simp: push_back_key_def key_record_def Let_def sizeof_NodeData_def concat_replicate_single
      algebra_simps)

lemma node_step_inv:
  assumes "bb_inv aligned ps is nb" "lo + distance * (LL ! j + 1) < length ps"
  shows "bb_inv aligned ps (is @ [lo + distance * (LL ! j + 1)]) (node_step aligned ps lo distance j nb)"
  using assms
  by (auto simp: bb_inv_def node_step_def Let_def push_back_key_spec key_records_def offsets_bytes_snoc writeU64_def)

lemma node_fold_inv:
  assumes "bb_inv aligned ps is nb" "\<And>j. j \<in> set js \<Longrightarrow> lo + distance * (LL ! j + 1) < length ps"
  shows "\<exists>is'. length is' = length is + length js \<and> bb_inv aligned ps is' (fold (node_step aligned ps lo distance) js nb)"
  using assms
proof (induction js arbitrary: "is" nb)
  case (Cons j js)
  have "bb_inv aligned ps (is @ [lo + distance * (LL ! j + 1)]) (node_step aligned ps lo distance j nb)"
    using Cons.prems by (intro node_step_inv) auto
  from Cons.IH [OF this] Cons.prems(2) show ?case by simp
qed auto

text \<open>The positions of a node, and the ranges below it, stay inside the range of the node.\<close>

lemma distance_bound:
  assumes "i \<le> VALUES" "lo < fin"
  shows "lo + (fin - lo) div (VALUES + 1) * i < fin"
proof -
  let ?d = "(fin - lo) div (VALUES + 1)"
  have "?d * i \<le> ?d * VALUES" using assms(1) by simp
  also have "\<dots> < fin - lo"
  proof (cases "?d = 0")
    case False
    have "?d * (VALUES + 1) \<le> fin - lo" by (rule div_times_less_eq_dividend)
    then show ?thesis using False by (simp add: VALUES_def)
  qed (use assms(2) in simp)
  finally show ?thesis using assms(2) by simp
qed

lemma fold_bind_None: "fold (\<lambda>x ob. Option.bind ob (f x)) xs None = None"
  by (induction xs) simp_all

lemma fold_bind_inv:
  assumes "fold (\<lambda>x ob. Option.bind ob (f x)) xs (Some b) = Some b'" "P b"
    and "\<And>x b b'. x \<in> set xs \<Longrightarrow> P b \<Longrightarrow> f x b = Some b' \<Longrightarrow> P b'"
  shows "P b'"
  using assms
proof (induction xs arbitrary: b)
  case (Cons x xs)
  obtain b1 where b1: "f x b = Some b1"
    using Cons.prems(1) by (cases "f x b") (auto simp: fold_bind_None)
  have "P b1" by (rule Cons.prems(3) [OF _ Cons.prems(2) b1]) simp
  moreover have "fold (\<lambda>x ob. Option.bind ob (f x)) xs (Some b1) = Some b'" using Cons.prems(1) b1 by simp
  ultimately show ?case using Cons.IH [of b1] Cons.prems(3) by (meson list.set_intros(2))
qed simp

definition bb_ok :: "bool \<Rightarrow> Pair list \<Rightarrow> BTreeIndexBuilder \<Rightarrow> bool" where
  "bb_ok aligned ps b \<longleftrightarrow> (\<exists>is. bb_inv aligned ps is ([], b))"

lemma reorder_node_ok:
  assumes "bb_ok aligned ps b" "fin \<le> length ps" "reorder 0 aligned ps lo fin b = Some b'"
  shows "bb_ok aligned ps b'"
proof (cases "lo \<ge> fin")
  case True
  then show ?thesis using assms by simp
next
  case False
  let ?d = "(fin - lo) div (VALUES + 1)"
  obtain "is" where b: "bb_inv aligned ps is ([], b)" using assms(1) by (auto simp: bb_ok_def)
  obtain node b1 where f: "fold (node_step aligned ps lo ?d) [0..<VALUES] ([], b) = (node, b1)" by fastforce
  have "lo + ?d * (LL ! j + 1) < length ps" if "j \<in> set [0..<VALUES]" for j
    using distance_bound [of "LL ! j + 1" lo fin] LL_less [of j] that False assms(2) by simp
  then have "\<exists>is'. length is' = length is + length [0..<VALUES] \<and>
      bb_inv aligned ps is' (fold (node_step aligned ps lo ?d) [0..<VALUES] ([], b))"
    by (rule node_fold_inv [OF b])
  then obtain is' where "bb_inv aligned ps is' (node, b1)" unfolding f by blast
  then have "bb_ok aligned ps (b1\<lparr>bb_indx := bb_indx b1 @ [node]\<rparr>)" by (auto simp: bb_inv_def bb_ok_def)
  then show ?thesis using assms(3) False f by (auto simp: Let_def split: if_splits)
qed

lemma reorder_ok:
  "\<lbrakk>bb_ok aligned ps b; fin \<le> length ps; reorder n aligned ps lo fin b = Some b'\<rbrakk> \<Longrightarrow> bb_ok aligned ps b'"
proof (induction n arbitrary: lo fin b b')
  case 0
  then show ?case by (rule reorder_node_ok)
next
  case (Suc n)
  show ?case
  proof (cases "lo \<ge> fin")
    case True
    then show ?thesis using Suc.prems by simp
  next
    case False
    let ?d = "(fin - lo) div (VALUES + 1)"
    let ?b = "\<lambda>i. if i = 0 then lo else lo + ?d * i + 1"
    let ?e = "\<lambda>i. if i = VALUES then fin else lo + ?d * (i + 1)"
    have e: "?e i \<le> length ps" if "i \<in> set [0..<VALUES + 1]" for i
      using distance_bound [of "i + 1" lo fin] that False Suc.prems(2) by auto
    have f: "fold (\<lambda>i ob. Option.bind ob (reorder n aligned ps (?b i) (?e i))) [0..<VALUES + 1] (Some b) = Some b'"
      using Suc.prems(3) False by (simp only: reorder.simps Let_def if_False fst_conv snd_conv)
    show ?thesis
    proof (rule fold_bind_inv [OF f, where P = "bb_ok aligned ps"])
      show "bb_ok aligned ps b" by (rule Suc.prems(1))
    next
      fix i b1 b2
      assume "i \<in> set [0..<VALUES + 1]" "bb_ok aligned ps b1" "reorder n aligned ps (?b i) (?e i) b1 = Some b2"
      then show "bb_ok aligned ps b2" using Suc.IH [of b1 "?e i" "?b i" b2] e by simp
    qed
  qed
qed

lemma btree_build_inv:
  assumes "btree_build aligned ps = Some (Some (indx, keys))"
  obtains "is" where "indx = offsets_bytes aligned ps is" "keys = key_records aligned ps is" "\<forall>i \<in> set is. i < length ps"
proof -
  let ?b = "\<lparr>bb_current = 0, bb_indx = [], bb_data = []\<rparr>"
  obtain b' where b': "fold (\<lambda>level ob. Option.bind ob (reorder level aligned ps 0 (length ps)))
      [0..<btree_levels (length ps)] (Some ?b) = Some b'"
    "indx = concat (bb_indx b')" "keys = concat (bb_data b')"
    using assms by (auto simp: btree_build_def Let_def split: if_splits)
  have "bb_inv aligned ps [] ([], ?b)" by (simp add: bb_inv_def key_records_def offsets_bytes_def)
  then have "bb_ok aligned ps ?b" unfolding bb_ok_def by blast
  then have "bb_ok aligned ps b'"
    by (rule fold_bind_inv [OF b'(1)]) (rule reorder_ok [OF _ order_refl])
  then show ?thesis using that b'(2,3) by (auto simp: bb_inv_def bb_ok_def)
qed

text \<open>Reading a value of a node through the mapped files.\<close>

lemma access_key_record:
  assumes "bg_ok g" "drop o' (bg_mem g) = key_record aligned ps i @ rest" "o' \<le> length (bg_mem g)"
    and "getKey (ps ! i) \<noteq> []" "pair_wf (ps ! i)"
  shows "accessNodeValue g (htobe64 (of_nat o')) = Value (getKey (ps ! i), of_nat i)"
proof -
  let ?k = "getKey (ps ! i)"
  have k: "length ?k < 2 ^ 16" using getKeyLen_le [of "ps ! i"] assms(5) by (simp add: MAX_KEY_SIZE_def)
  obtain gap where rec: "drop o' (bg_mem g) =
      store_le 8 (htobe64 (of_nat i)) @ store_le 2 (htobe16 (of_nat (length ?k))) @ ?k @ gap"
    using assms(2) by (simp add: key_record_def Let_def)
  have len: "o' + 10 + length ?k \<le> length (bg_mem g)" using arg_cong [OF rec, of length] assms(3) by simp
  then have small: "o' + 10 + length ?k < 2 ^ 64" "length ?k < 2 ^ 64" using assms(1) by (simp_all add: bg_ok_def)
  have "bg_as 10 g (of_nat o') 1 = Some (bg_data g + of_nat o')"
    using safeAccess_nat [OF assms(1), of o' 10] len small by (simp add: bg_as_def)
  moreover have "bg_readable g (bg_data g + of_nat o') 10" "bg_bytes g (bg_data g + of_nat o') = drop o' (bg_mem g)"
    using bg_readable_nat [OF assms(1), of o'] len by simp_all
  moreover have "bg_as 1 g (of_nat o' + 10) (of_nat (length ?k)) = Some (bg_data g + of_nat (o' + 10))"
    using safeAccess_nat [OF assms(1), of "o' + 10" "length ?k"] len small assms(4) by (simp add: bg_as_def)
  moreover have "bg_readable g (bg_data g + of_nat (o' + 10)) (length ?k)"
    "bg_bytes g (bg_data g + of_nat (o' + 10)) = drop (o' + 10) (bg_mem g)"
    using bg_readable_nat [OF assms(1), of "o' + 10"] len by simp_all
  moreover have "drop (o' + 10) (bg_mem g) = ?k @ gap"
    unfolding add.commute [of o' 10] drop_drop [symmetric] rec by simp
  moreover have "unat (of_nat (length ?k) :: u16) = length ?k" using k by (simp add: unat_of_nat)
  ultimately show ?thesis by (simp add: accessNodeValue_def Let_def sizeof_NodeData_def rec)
qed

lemma key_records_drop:
  assumes "q < length is"
  shows "drop (length (key_records aligned ps (take q is))) (key_records aligned ps is) =
    key_record aligned ps (is ! q) @ key_records aligned ps (drop (Suc q) is)"
proof -
  have "is = take q is @ is ! q # drop (Suc q) is" using assms by (rule id_take_nth_drop)
  then have "key_records aligned ps is = key_records aligned ps (take q is) @ key_record aligned ps (is ! q) @
      key_records aligned ps (drop (Suc q) is)"
    unfolding key_records_def by (metis concat.simps(2) concat_append list.map(2) map_append)
  then show ?thesis by simp
qed

lemma btree_files_true:
  assumes "dk_maps l ps" "btree_build aligned ps = Some (Some (indx, keys))"
    and "bg_ok (mTree l)" "bg_mem (mTree l) = indx" "bg_ok (mKeys l)" "bg_mem (mKeys l) = keys"
  shows "btree_true l ps"
  unfolding btree_true_def
proof (intro allI impI)
  obtain "is" where f: "indx = offsets_bytes aligned ps is" "keys = key_records aligned ps is"
    "\<forall>i \<in> set is. i < length ps"
    using assms(2) by (rule btree_build_inv)
  fix pos node_pos
  assume pos: "pos < unat (snd (bg_asArray (of_nat sizeof_Node) (mTree l) 0))" and np: "node_pos < VALUES"
  let ?q = "127 * pos + node_pos"
  let ?off = "length (key_records aligned ps (take ?q is))"
  have len: "length (bg_mem (mTree l)) = 8 * length is"
    using assms(4) f(1) by (simp add: offsets_bytes_def length_concat o_def sum_list_triv)
  have "unat (bg_sizeAs (of_nat sizeof_Node) (mTree l)) = 8 * length is div 1016"
    using bg_size_nat [OF assms(3)] len by (simp add: bg_sizeAs_def unat_div sizeof_Node_def)
  then have "pos < 8 * length is div 1016" using pos by (simp add: bg_asArray_def Let_def)
  then have "1016 * (pos + 1) \<le> 8 * length is" by (simp add: less_eq_div_iff_mult_less_eq Suc_le_eq [symmetric])
  then have q: "?q < length is" using np by (simp add: VALUES_def)
  have "drop (8 * ?q) (bg_mem (mTree l)) =
      writeU64 (of_nat ?off) @ concat (map (\<lambda>q. writeU64 (of_nat (length (key_records aligned ps (take q is))))) [Suc ?q..<length is])"
    unfolding assms(4) f(1) offsets_bytes_def using q
    by (subst concat_blocks_drop) (simp_all add: upt_conv_Cons)
  then have v: "node_value (mTree l) pos node_pos = htobe64 (of_nat ?off)"
    by (simp add: node_value_def sizeof_Node_def writeU64_def algebra_simps)
  have i: "is ! ?q < length ps" using f(3) q by simp
  have wf: "pair_wf (ps ! (is ! ?q))" "getKey (ps ! (is ! ?q)) \<noteq> []"
    using assms(1) i by (simp_all add: dk_maps_def maps_data_def list_all_length)
  have "accessNodeValue (mKeys l) (htobe64 (of_nat ?off)) = Value (getKey (ps ! (is ! ?q)), of_nat (is ! ?q))"
  proof (rule access_key_record [OF assms(5) _ _ wf(2,1)])
    show d: "drop ?off (bg_mem (mKeys l)) = key_record aligned ps (is ! ?q) @ key_records aligned ps (drop (Suc ?q) is)"
      unfolding assms(6) f(2) by (rule key_records_drop [OF q])
    show "?off \<le> length (bg_mem (mKeys l))" using arg_cong [OF d, of length] wf(2) by (simp add: key_record_def Let_def)
  qed
  then show "case accessNodeValue (mKeys l) (node_value (mTree l) pos node_pos) of
      Crash \<Rightarrow> False | BTreeAccessError \<Rightarrow> True | Value x \<Rightarrow> unat (snd x) < length ps \<and> fst x = getKey (ps ! unat (snd x))"
    using v i dk_maps_length(3) [OF assms(1) i] by simp
qed

section \<open>The builder never meets a node that is not full\<close>

lemma fold_bind_total:
  assumes "\<And>x b. x \<in> set xs \<Longrightarrow> f x b \<noteq> None"
  shows "fold (\<lambda>x ob. Option.bind ob (f x)) xs (Some b) \<noteq> None"
  using assms
proof (induction xs arbitrary: b)
  case (Cons x xs)
  obtain b1 where "f x b = Some b1" using Cons.prems [of x b] by auto
  then show ?case using Cons.IH [of b1] Cons.prems by simp
qed simp

text \<open>The size of a range that has full nodes \<open>n\<close> levels below it.\<close>

primrec full_size :: "nat \<Rightarrow> nat" where
  "full_size 0 = 128"
| "full_size (Suc n) = 128 * (full_size n + 1)"

lemma reorder_total: "full_size n \<le> fin - lo \<Longrightarrow> reorder n aligned ps lo fin b \<noteq> None"
proof (induction n arbitrary: lo fin b)
  case 0
  then have "VALUES < fin - lo" "lo < fin" by (simp_all add: VALUES_def)
  then show ?case by (simp add: Let_def split: prod.split)
next
  case (Suc n)
  let ?d = "(fin - lo) div (VALUES + 1)"
  have d: "full_size n + 1 \<le> ?d" "?d * 128 \<le> fin - lo"
    using Suc.prems by (simp_all add: VALUES_def less_eq_div_iff_mult_less_eq)
  have "reorder n aligned ps (if i = 0 then lo else lo + ?d * i + 1)
      (if i = VALUES then fin else lo + ?d * (i + 1)) b1 \<noteq> None" if "i \<in> set [0..<VALUES + 1]" for i b1
  proof (rule Suc.IH)
    have "?d * i \<le> ?d * 127" using that by (simp add: VALUES_def)
    moreover have "?d * 127 + ?d \<le> fin - lo" using d(2) by simp
    ultimately show "full_size n \<le> (if i = VALUES then fin else lo + ?d * (i + 1)) -
        (if i = 0 then lo else lo + ?d * i + 1)"
      using d(1) by (auto simp: VALUES_def)
  qed
  then have "fold (\<lambda>i ob. Option.bind ob (reorder n aligned ps (if i = 0 then lo else lo + ?d * i + 1)
      (if i = VALUES then fin else lo + ?d * (i + 1)))) [0..<VALUES + 1] (Some b) \<noteq> None"
    by (rule fold_bind_total)
  moreover have "\<not> lo \<ge> fin" using Suc.prems by simp
  ultimately show ?case by (simp only: reorder.simps Let_def fst_conv snd_conv if_False) simp
qed

lemma calcDepth_full: "L + 2 \<le> calcDepth c \<Longrightarrow> full_size L + 1 \<le> c"
proof (induction L arbitrary: c)
  case 0
  then have c: "c > VALUES" "1 \<le> calcDepth ((c - VALUES) div (VALUES + 1))"
    by (simp_all add: calcDepth.simps [of c] split: if_splits)
  then have "0 < (c - VALUES) div (VALUES + 1)" by (cases "(c - VALUES) div (VALUES + 1)") (simp_all add: calcDepth.simps [of 0])
  then show ?case by (simp add: VALUES_def div_greater_zero_iff)
next
  case (Suc L)
  then have c: "L + 2 \<le> calcDepth ((c - VALUES) div (VALUES + 1))"
    by (simp add: calcDepth.simps [of c] split: if_splits)
  from Suc.IH [OF this] show ?case by (simp add: VALUES_def less_eq_div_iff_mult_less_eq)
qed

lemma calcDepth_zero: "calcDepth n = 0 \<longleftrightarrow> n = 0"
  by (simp add: calcDepth.simps [of n])

lemma calcDepth_one: "calcDepth n - 1 = 0 \<longleftrightarrow> n < 255"
proof -
  have "(n - 127) div 128 = 0 \<longleftrightarrow> n < 255" if "127 < n" using that by auto
  then show ?thesis by (auto simp: calcDepth.simps [of n] calcDepth_zero VALUES_def)
qed

lemma btree_levels_le: "0 < n \<Longrightarrow> btree_levels n \<le> calcDepth n - 1"
proof -
  assume "0 < n"
  then obtain d where d: "calcDepth n = Suc d" using calcDepth_zero [of n] by (cases "calcDepth n") auto
  have "calcDepth n + 255 = d + 256" using d by simp
  then show ?thesis using d by (simp only: btree_levels_def) simp
qed

lemma calcDepth_bound: "c < 2 ^ (7 * k) \<Longrightarrow> calcDepth c \<le> k"
proof (induction k arbitrary: c)
  case (Suc k)
  have "(c - VALUES) div (VALUES + 1) < 2 ^ (7 * k)" using Suc.prems by (simp add: VALUES_def div_less_iff_less_mult power_add)
  from Suc.IH [OF this] show ?case by (simp add: calcDepth.simps [of c])
qed (simp add: calcDepth.simps [of 0])

lemma btree_levels_zero:
  assumes "n < 2 ^ 64"
  shows "btree_levels n = 0 \<longleftrightarrow> 0 < n \<and> n < 255"
proof (cases "n = 0")
  case True
  then show ?thesis by (simp add: btree_levels_def calcDepth.simps [of 0])
next
  case False
  then obtain d where d: "calcDepth n = Suc d" using calcDepth_zero [of n] by (cases "calcDepth n") auto
  have "n < 2 ^ (7 * 10)" using assms by simp
  then have "d < 256" using calcDepth_bound [of n 10] d by simp
  moreover have "calcDepth n + 255 = d + 256" using d by simp
  ultimately have "btree_levels n = d" by (simp only: btree_levels_def) simp
  then show ?thesis using False calcDepth_one [of n] d by simp
qed

lemma reorder_empty: "reorder n aligned ps 0 0 b = Some b"
  by (cases n) simp_all

lemma btree_build_total: "btree_build aligned ps \<noteq> None"
proof -
  have "reorder level aligned ps 0 (length ps) b \<noteq> None" if "level \<in> set [0..<btree_levels (length ps)]" for level b
  proof (cases "ps = []")
    case False
    show ?thesis
    proof (rule reorder_total)
      have "level + 2 \<le> calcDepth (length ps)" using that btree_levels_le [of "length ps"] False by auto
      from calcDepth_full [OF this] show "full_size level \<le> length ps - 0" by simp
    qed
  qed (simp add: reorder_empty)
  then have "fold (\<lambda>level ob. Option.bind ob (reorder level aligned ps 0 (length ps)))
      [0..<btree_levels (length ps)] (Some b) \<noteq> None" for b
    by (rule fold_bind_total)
  then show ?thesis by (simp add: btree_build_def Let_def)
qed

lemma btree_build_none: "btree_build aligned ps = Some None \<longleftrightarrow> btree_levels (length ps) = 0"
  by (cases "btree_levels (length ps) = 0") (auto simp: btree_build_def)

lemma btree_build_empty: "btree_build aligned [] = Some (Some ([], []))"
proof -
  have "fold (\<lambda>level ob. Option.bind ob (reorder level aligned [] 0 0)) xs (Some b) = Some b" for xs b
    by (induction xs) (simp_all add: reorder_empty)
  then show ?thesis by (simp add: btree_build_def btree_levels_def calcDepth.simps [of 0])
qed

lemma fold_node_step_indx: "bb_indx (snd (fold (node_step aligned ps lo d) js (node, b))) = bb_indx b"
  by (induction js arbitrary: node b) (simp_all add: node_step_def Let_def push_back_key_spec)

section \<open>Properties\<close>

definition sample_byte_pairs :: "Pair list" where
  "sample_byte_pairs = map (\<lambda>i. sample_key_pair [of_nat (Suc i)] 5) [0..<255]"

text \<open>
  C17: the builder of the B tree never meets a node that it cannot fill, whatever the list: it ends without its
  logic error.  For a list whose size fits the 64 bits of \<open>size_t\<close> it writes no tree exactly when
  there are some pairs but fewer than 255, which is less than one full node and a key on each side of every
  value; for an empty list the number of levels wraps around to 255, and it writes a tree with no nodes and no
  keys.
\<close>

theorem btree_build_never_fails:
  assumes "length ps < 2 ^ 64"
  shows "\<exists>files. btree_build aligned ps = Some files \<and> (files = None \<longleftrightarrow> 0 < length ps \<and> length ps < 255) \<and>
    (ps = [] \<longrightarrow> files = Some ([], []))"
proof -
  obtain files where f: "btree_build aligned ps = Some files" using btree_build_total [of aligned ps] by auto
  have n: "files = None \<longleftrightarrow> btree_levels (length ps) = 0" using btree_build_none [of aligned ps] unfolding f by simp
  have e: "files = Some ([], [])" if "ps = []" using f btree_build_empty [of aligned] that by simp
  show ?thesis using f n e unfolding btree_levels_zero [OF assms] by (intro exI [of _ files] conjI impI)
qed

theorem btree_build_never_fails_witness:
  "btree_build True [] = Some (Some ([], [])) \<and> btree_build True (take 254 sample_byte_pairs) = Some None \<and>
   (\<exists>indx keys. btree_build True sample_byte_pairs = Some (Some (indx, keys)))"
proof -
  have n: "length (take 254 sample_byte_pairs) = 254" "length sample_byte_pairs = 255" by (simp_all add: sample_byte_pairs_def)
  show ?thesis
    using btree_build_never_fails [of "[]" True] btree_build_never_fails [of "take 254 sample_byte_pairs" True]
      btree_build_never_fails [of sample_byte_pairs True] unfolding n by auto
qed

text \<open>
  C16: the search through the B tree that was built for a table gives what the plain binary search gives, the
  position of the key or of the first greater one, for every key.
\<close>

theorem btree_search_correct:
  assumes "dk_maps l ps" "key \<noteq> []" "btree_build aligned ps = Some (Some (bg_mem (mTree l), bg_mem (mKeys l)))"
    and "bg_ok (mTree l)" "bg_ok (mKeys l)"
  shows "searchBTree key l = searchBinary_all key l \<and> searchBTree key l = Some (searched getKey ps key)"
  using searchBTree_right [OF assms(1) btree_files_true [OF assms(1,3,4) refl assms(5) refl] assms(2)]
    searchBinary_all_maps [OF assms(1,2)] by simp

lemma sample_byte_keys: "map getKey sample_byte_pairs = map (\<lambda>i. [of_nat (Suc i)]) [0..<255]" "list_all pair_wf sample_byte_pairs"
  using sample_key_pair [of "[x]" 5 for x] by (auto simp: sample_byte_pairs_def MAX_KEY_SIZE_def list_all_iff)

lemma sample_byte_disk: "dk_maps (sample_disk sample_byte_pairs) sample_byte_pairs"
proof (rule sample_disk_maps [OF sample_byte_keys(2)])
  have "(of_nat (Suc i) :: 8 word) < of_nat (Suc j)" if "i < j" "j < 255" for i j
    using that by (simp add: word_less_nat_alt unat_of_nat del: of_nat_Suc)
  then show "sorted_wrt (<) (map getKey sample_byte_pairs)"
    unfolding sample_byte_keys by (auto simp: sorted_wrt_iff_nth_less)
  have "getKey p \<noteq> []" if "p \<in> set sample_byte_pairs" for p
  proof -
    have "getKey p \<in> set (map getKey sample_byte_pairs)" using that by simp
    then show ?thesis unfolding sample_byte_keys by auto
  qed
  then show "list_all (\<lambda>p. getKey p \<noteq> []) sample_byte_pairs" by (simp add: list_all_iff)
qed (simp add: sample_byte_pairs_def)

lemma sample_btree_files:
  "\<exists>t k. btree_build False sample_byte_pairs = Some (Some (t, k)) \<and> length t < 2 ^ 40 \<and> length k < 2 ^ 40"
proof -
  let ?ps = sample_byte_pairs
  have n: "length ?ps = 255" by (simp add: sample_byte_pairs_def)
  obtain t k where b: "btree_build False ?ps = Some (Some (t, k))"
    using btree_build_total [of False ?ps] n btree_levels_zero [of "length ?ps"]
    by (auto simp: btree_build_def Let_def split: if_splits)
  have d: "btree_levels 255 = 1" by (simp add: btree_levels_def calcDepth.simps [of 255] calcDepth.simps [of "Suc 0"] VALUES_def)
  let ?b = "\<lparr>bb_current = 0, bb_indx = [], bb_data = []\<rparr>"
  obtain node b1 where f: "fold (node_step False ?ps 0 1) [0..<VALUES] ([], ?b) = (node, b1)" by fastforce
  have "bb_inv False ?ps [] ([], ?b)" by (simp add: bb_inv_def key_records_def offsets_bytes_def)
  from node_fold_inv [OF this, of "[0..<VALUES]" 0 1] LL_less f n
  obtain "is" where i: "length is = 127" "bb_inv False ?ps is (node, b1)" by (force simp: VALUES_def)
  have idx: "bb_indx b1 = []" using fold_node_step_indx [of False ?ps 0 1 "[0..<VALUES]" "[]" ?b] f by simp
  have tk: "t = node" "k = concat (bb_data b1)"
    using b f idx by (simp_all add: btree_build_def n d VALUES_def)
  have "length (key_record False ?ps j) = 12" if "j \<in> set is" for j
  proof -
    have j: "j < 255" using i(2) that n by (simp add: bb_inv_def)
    then have "getKey (?ps ! j) = [of_nat (Suc j)]" using sample_byte_keys(1) n
      by (metis (no_types, lifting) add_0 nth_map nth_upt length_map length_upt minus_nat.diff_0)
    then show ?thesis by (simp add: key_record_def)
  qed
  then have m: "map (length \<circ> key_record False ?ps) is = map (\<lambda>j. 12) is" by simp
  have "length (key_records False ?ps is) = sum_list (map (\<lambda>j. 12) is)"
    by (simp only: key_records_def length_concat map_map m)
  then have "length (key_records False ?ps is) = 12 * 127" using i(1) by (simp add: sum_list_triv)
  moreover have "length (offsets_bytes False ?ps is) = 8 * 127"
    using i(1) by (simp add: offsets_bytes_def length_concat o_def sum_list_triv writeU64_def)
  ultimately have "length t = 1016" "length k = 1524" using i(2) tk idx by (simp_all add: bb_inv_def)
  then show ?thesis using b by simp
qed

theorem btree_search_correct_witness:
  "\<exists>l. searchBTree [7] l = Some (searched getKey sample_byte_pairs [7]) \<and>
    btree_build False sample_byte_pairs = Some (Some (bg_mem (mTree l), bg_mem (mKeys l)))"
proof -
  obtain t k where b: "btree_build False sample_byte_pairs = Some (Some (t, k))" "length t < 2 ^ 40" "length k < 2 ^ 40"
    using sample_btree_files by blast
  let ?l = "(sample_disk sample_byte_pairs)\<lparr>mTree := \<lparr>bg_data = 4096, bg_mem = t\<rparr>, mKeys := \<lparr>bg_data = 4096, bg_mem = k\<rparr>\<rparr>"
  have "dk_maps ?l sample_byte_pairs" using sample_byte_disk by (simp add: dk_maps_def dk_size_def)
  from btree_search_correct [OF this, of "[7]" False] b have "searchBTree [7] ?l = Some (searched getKey sample_byte_pairs [7])"
    by (auto simp: bg_ok_small)
  then show ?thesis using b(1) by (intro exI [of _ ?l]) simp
qed

end
