(* ===== verification/DiskList.thy ===== *)
theory DiskList
  imports HashIndex BTreeIndex
begin

text \<open>
  The lookups of \<^verbatim>\<open>hm4/disk/disklist.cc\<close> that choose among the four searches, and the point lookup of a
  \<open>CollectionList\<close> of disk tables, which passes the best pair so far from table to table.
\<close>

section \<open>The code\<close>

datatype FindMode = EXACT | PREFIX | HASH_FALLBACK

text \<open>The searches by \<open>searchMode_F_\<close>, in the modes \<open>PREFIX\<close> and \<open>HASH_FALLBACK\<close>.\<close>

definition ra_find_F :: "str \<Rightarrow> DiskList \<Rightarrow> BinarySearchResult option" where
  "ra_find_F key l =
     (case searchMode_F l of
        BINARY \<Rightarrow> searchBinary_all key l
      | HOTLINE \<Rightarrow> searchHotLine key l
      | BTREE \<Rightarrow> searchBTree key l
      | HASHINDEX \<Rightarrow> searchBinary_all key l)"

definition ra_find_ex :: "FindMode \<Rightarrow> str \<Rightarrow> DiskList \<Rightarrow> BinarySearchResult option" where
  "ra_find_ex B key l =
     (case B of
        PREFIX \<Rightarrow> ra_find_F key l
      | HASH_FALLBACK \<Rightarrow> ra_find_F key l
      | EXACT \<Rightarrow>
          (case searchMode_T l of
             BINARY \<Rightarrow> searchBinary_all key l
           | HOTLINE \<Rightarrow> searchHotLine key l
           | HASHINDEX \<Rightarrow> searchHashIndex (ra_find_F key l) key l
           | BTREE \<Rightarrow> searchBTree key l))"

definition ra_find :: "str \<Rightarrow> DiskList \<Rightarrow> u64 option" where
  "ra_find key l = map_option (\<lambda>r. of_nat (bs_it r)) (ra_find_ex PREFIX key l)"

definition dk_find :: "str \<Rightarrow> DiskList \<Rightarrow> forward_iterator option" where
  "dk_find key l = map_option (ra_to_forward l) (ra_find key l)"

text \<open>The outer \<open>None\<close> is a crash, the inner one the null pointer.\<close>

definition dk_getPair :: "DiskList \<Rightarrow> str \<Rightarrow> pptr option option" where
  "dk_getPair l key =
     Option.bind (ra_find_ex EXACT key l) (\<lambda>result.
       if bs_found result then map_option Some (dk_at l (of_nat (bs_it result))) else Some None)"

definition dk_getPair_best :: "DiskList \<Rightarrow> str \<Rightarrow> pptr option \<Rightarrow> pptr option option" where
  "dk_getPair_best l key best =
     (case best of
        None \<Rightarrow> dk_getPair l key
      | Some b \<Rightarrow>
          if getCreated (snd b) > dk_createdMax l then Some best
          else map_option (\<lambda>p. getNewestPair p best) (dk_getPair l key))"

fun tables_getPair_best :: "DiskList list \<Rightarrow> str \<Rightarrow> pptr option \<Rightarrow> pptr option option" where
  "tables_getPair_best [] key best = Some best"
| "tables_getPair_best (l # ls) key best =
     Option.bind (dk_getPair_best l key best) (tables_getPair_best ls key)"

definition tables_getPair :: "DiskList list \<Rightarrow> str \<Rightarrow> pptr option option" where
  "tables_getPair ls key = tables_getPair_best ls key None"

section \<open>Every search finds the same\<close>

text \<open>What each index has to satisfy when its search is selected.\<close>

definition hotline_fits :: "DiskList \<Rightarrow> Pair list \<Rightarrow> str \<Rightarrow> bool" where
  "hotline_fits l ps key \<longleftrightarrow>
     line_maps l ps \<and> nul_free key \<and> (8 < length key \<longrightarrow> (\<forall>p \<in> set ps. getKey p \<noteq> take 8 key))"

definition mode_fits :: "SearchMode \<Rightarrow> DiskList \<Rightarrow> Pair list \<Rightarrow> str \<Rightarrow> bool" where
  "mode_fits m l ps key =
     (case m of
        BINARY \<Rightarrow> True
      | HOTLINE \<Rightarrow> hotline_fits l ps key
      | HASHINDEX \<Rightarrow> hash_maps l ps
      | BTREE \<Rightarrow> btree_true l ps)"

definition indexes_fit :: "DiskList \<Rightarrow> Pair list \<Rightarrow> str \<Rightarrow> bool" where
  "indexes_fit l ps key \<longleftrightarrow>
     dk_maps l ps \<and> key \<noteq> [] \<and> mode_fits (searchMode_T l) l ps key \<and> mode_fits (searchMode_F l) l ps key"

lemma ra_find_F_right:
  assumes "indexes_fit l ps key"
  shows "ra_find_F key l = Some (searched getKey ps key)"
  using assms searchBinary_all_maps [of l ps key] searchHotLine_maps [of l ps key] searchBTree_right [of l ps key]
  by (cases "searchMode_F l") (simp_all add: ra_find_F_def indexes_fit_def mode_fits_def hotline_fits_def)

lemma ra_find_ex_right:
  assumes "indexes_fit l ps key"
  shows "hash_answer ps key (ra_find_ex EXACT key l)"
proof -
  have fb: "hash_answer ps key (Some (searched getKey ps key))" by (simp add: hash_answer_def)
  have l: "dk_maps l ps" "key \<noteq> []" "mode_fits (searchMode_T l) l ps key" using assms by (simp_all add: indexes_fit_def)
  show ?thesis
  proof (cases "searchMode_T l")
    case HASHINDEX
    then show ?thesis using l searchHashIndex_right [of l ps key, OF _ l(2) fb] ra_find_F_right [OF assms]
      by (simp add: ra_find_ex_def mode_fits_def)
  next
    case BINARY
    then show ?thesis using fb searchBinary_all_maps [OF l(1,2)] by (simp add: ra_find_ex_def)
  next
    case HOTLINE
    then show ?thesis using fb l(3) searchHotLine_maps [of l ps key]
      by (simp add: ra_find_ex_def mode_fits_def hotline_fits_def)
  next
    case BTREE
    then show ?thesis using fb l searchBTree_right [of l ps key] by (simp add: ra_find_ex_def mode_fits_def)
  qed
qed

text \<open>The pair of a key in a sorted sequence, as the reference for the lookup.\<close>

definition pair_of :: "Pair list \<Rightarrow> str \<Rightarrow> Pair option" where
  "pair_of ps key = find (\<lambda>p. getKey p = key) ps"

lemma pair_of_nth:
  assumes "sorted_wrt (<) (map getKey ps)" "i < length ps" "getKey (ps ! i) = key"
  shows "pair_of ps key = Some (ps ! i)"
proof -
  have "getKey (ps ! j) \<noteq> key" if "j < i" for j
    using sorted_wrt_nth_less [OF assms(1), of j i] that assms(2,3) by auto
  then show ?thesis using assms(2,3) by (auto simp: pair_of_def find_Some_iff)
qed

lemma pair_of_None: "key \<notin> getKey ` set ps \<Longrightarrow> pair_of ps key = None"
  by (auto simp: pair_of_def find_None_iff)

lemma dk_getPair_right:
  assumes "indexes_fit l ps key"
  obtains q where "dk_getPair l key = Some q" "map_option (\<lambda>q. pair_trim (snd q)) q = map_option pair_trim (pair_of ps key)"
proof -
  have l: "dk_maps l ps" using assms by (simp add: indexes_fit_def)
  then have sorted: "sorted_wrt (<) (map getKey ps)" by (simp add: dk_maps_def)
  obtain x where x: "ra_find_ex EXACT key l = Some x" "bs_found x = bs_found (searched getKey ps key)"
    "bs_found x \<longrightarrow> bs_it x = bs_it (searched getKey ps key)"
    using ra_find_ex_right [OF assms] by (auto simp: hash_answer_def)
  show ?thesis
  proof (cases "key \<in> getKey ` set ps")
    case True
    then obtain i where i: "i < length ps" "getKey (ps ! i) = key" by (auto simp: in_set_conv_nth)
    then have "bs_found x" "bs_it x = i" using x searched_found_iff(2) [OF sorted i] by auto
    moreover obtain q where "dk_at l (of_nat i) = Some q" "pair_trim (snd q) = pair_trim (ps ! i)"
      using dk_at_maps [OF l i(1)] by metis
    ultimately show ?thesis using that [of "Some q"] x(1) pair_of_nth [OF sorted i] by (simp add: dk_getPair_def)
  next
    case False
    then have "\<not> bs_found x" using x(2) searched_found_iff(1) [OF sorted, of key] by simp
    then show ?thesis using that [of None] x(1) pair_of_None [OF False] by (simp add: dk_getPair_def)
  qed
qed

section \<open>Opening what was built\<close>

text \<open>
  The files of a table with its indexes.  The hot line, the hash index and the B tree may each be there
  or not: the header, the index and the data are enough to open a table.
\<close>

definition table_files :: "DiskFiles \<Rightarrow> bool \<Rightarrow> u32 \<Rightarrow> Pair list \<Rightarrow> bool" where
  "table_files fs aligned now32 ps \<longleftrightarrow>
     files_of fs aligned now32 ps \<and>
     (\<forall>g. f_line fs = Some g \<longrightarrow> bg_ok g \<and> bg_mem g = dt_line (FileBuilder_build True 0 now32 aligned ps)) \<and>
     (\<forall>g. f_hash fs = Some g \<longrightarrow>
        bg_ok g \<and> hashes_ok ps \<and> hash_built ps (bg_mem g)) \<and>
     (\<forall>gt gk. f_tree fs = Some gt \<longrightarrow> f_keys fs = Some gk \<longrightarrow>
        bg_ok gt \<and> bg_ok gk \<and> btree_build aligned ps = Some (Some (bg_mem gt, bg_mem gk)))"

definition table_ok_keys :: "Pair list \<Rightarrow> bool" where
  "table_ok_keys ps \<longleftrightarrow>
     ps \<noteq> [] \<and> sorted_wrt (<) (map getKey ps) \<and> list_all (\<lambda>p. getKey p \<noteq> []) ps"

lemma bg_closed_bool [simp]: "\<not> mf_bool bg_closed"
  by (simp add: mf_bool_def bg_closed_def)

text \<open>The state after \<open>openNormal\<close>, file by file.\<close>

lemma openNormal_spec:
  assumes "openMinimal fs l = (True, l1)"
  shows "\<exists>l2. openNormal fs l = (True, l2) \<and>
    mData l2 = mData l1 \<and> mIndx l2 = mIndx l1 \<and> metadata l2 = metadata l1 \<and> dk_aligned l2 = dk_aligned l1 \<and>
    mLine l2 = (case f_line fs of Some g \<Rightarrow> if bg_sizeAs 16 g = 0 then bg_closed else g | None \<Rightarrow> bg_closed) \<and>
    mHash l2 = (case f_hash fs of Some g \<Rightarrow> if bg_sizeAs 16 g < 64 then bg_closed else g | None \<Rightarrow> bg_closed) \<and>
    mTree l2 = (case f_tree fs of Some g \<Rightarrow> g | None \<Rightarrow> bg_closed) \<and>
    mKeys l2 = (case f_tree fs of Some g \<Rightarrow> (case f_keys fs of Some g \<Rightarrow> g | None \<Rightarrow> bg_closed) | None \<Rightarrow> mKeys l1)"
  using assms
  by (cases "f_line fs"; cases "f_hash fs"; cases "f_tree fs"; cases "f_keys fs")
     (simp_all add: openNormal_def oc_open_def Let_def)

lemma calcSearchMode_modes:
  assumes "m = searchMode_T (calcSearchMode l) \<or> m = searchMode_F (calcSearchMode l)"
  shows "m = HOTLINE \<Longrightarrow> mf_bool (mLine l)" "m = HASHINDEX \<Longrightarrow> mf_bool (mHash l)"
    "m = BTREE \<Longrightarrow> mf_bool (mTree l) \<and> mf_bool (mKeys l)"
  using assms by (auto simp: calcSearchMode_def Let_def split: bool.splits if_splits prod.splits)

lemma calcSearchMode_fields [simp]:
  "mData (calcSearchMode l) = mData l" "mIndx (calcSearchMode l) = mIndx l" "mLine (calcSearchMode l) = mLine l"
  "mHash (calcSearchMode l) = mHash l" "mTree (calcSearchMode l) = mTree l" "mKeys (calcSearchMode l) = mKeys l"
  "metadata (calcSearchMode l) = metadata l" "dk_aligned (calcSearchMode l) = dk_aligned l"
  by (simp_all add: calcSearchMode_def Let_def split: prod.split)

lemma dk_maps_cong:
  "\<lbrakk>mData l = mData l'; mIndx l = mIndx l'; metadata l = metadata l'; dk_aligned l = dk_aligned l'\<rbrakk> \<Longrightarrow>
     dk_maps l ps \<longleftrightarrow> dk_maps l' ps"
  by (simp add: dk_maps_def dk_size_def)

text \<open>A table that was built and opened: what every index holds.\<close>

lemma dk_open_built:
  assumes files: "table_files fs aligned now32 ps" and m: "blob_wf m" and keys: "table_ok_keys ps"
    and step: "dk_open i fs OPEN_NORMAL (mkDiskList m) = (ok, l)"
  shows "ok \<and> dk_maps l ps \<and> metadata l = metaBuilder_blob now32 aligned (fold metaBuilder_push ps metaBuilder_init) \<and>
    dk_aligned l = aligned \<and> (mf_bool (mLine l) \<longrightarrow> f_line fs \<noteq> None \<and> (line_ok ps \<longrightarrow> line_maps l ps)) \<and> (mf_bool (mHash l) \<longrightarrow> hash_maps l ps) \<and>
    (mf_bool (mTree l) \<and> mf_bool (mKeys l) \<longrightarrow> btree_true l ps) \<and>
    (\<exists>l2. l = calcSearchMode l2)"
proof -
  let ?l0 = "(mkDiskList m)\<lparr>dk_id := i\<rparr>"
  have wf: "blob_wf (metadata ?l0)" using m by (simp add: mkDiskList_def meta_clear_def blob_wf_def)
  have k: "ps \<noteq> []" "sorted_wrt (<) (map getKey ps)" "list_all (\<lambda>p. getKey p \<noteq> []) ps"
    using keys by (simp_all add: table_ok_keys_def)
  have fo: "files_of fs aligned now32 ps" using files by (simp add: table_files_def)
  obtain l1 where l1: "openMinimal fs ?l0 = (True, l1)" "dk_maps l1 ps" "dk_aligned l1 = aligned"
    "metadata l1 = metaBuilder_blob now32 aligned (fold metaBuilder_push ps metaBuilder_init)"
    using fo wf k by (rule openMinimal_files)
  have keys0: "mKeys l1 = bg_closed"
    using l1(1) by (auto simp: openMinimal_def mkDiskList_def Let_def split: prod.splits if_splits)
  obtain l2 where l2: "openNormal fs ?l0 = (True, l2)" "mData l2 = mData l1" "mIndx l2 = mIndx l1"
    "metadata l2 = metadata l1" "dk_aligned l2 = dk_aligned l1"
    "mLine l2 = (case f_line fs of Some g \<Rightarrow> if bg_sizeAs 16 g = 0 then bg_closed else g | None \<Rightarrow> bg_closed)"
    "mHash l2 = (case f_hash fs of Some g \<Rightarrow> if bg_sizeAs 16 g < 64 then bg_closed else g | None \<Rightarrow> bg_closed)"
    "mTree l2 = (case f_tree fs of Some g \<Rightarrow> g | None \<Rightarrow> bg_closed)"
    "mKeys l2 = (case f_tree fs of Some g \<Rightarrow> (case f_keys fs of Some g \<Rightarrow> g | None \<Rightarrow> bg_closed) | None \<Rightarrow> mKeys l1)"
    using openNormal_spec [OF l1(1)] by metis
  have l: "l = calcSearchMode l2" "ok" using step l2(1) by (simp_all add: dk_open_def Let_def)
  have dk: "dk_maps l ps" using l1(2) dk_maps_cong [of l l1 ps] l(1) l2(2-5) by simp
  have "f_line fs \<noteq> None \<and> (line_ok ps \<longrightarrow> line_maps l ps)" if "mf_bool (mLine l)"
    using that files l(1) l2(6) dk k(1)
    by (cases "f_line fs") (auto simp: line_maps_def table_files_def FileBuilder_build_line split: if_splits)
  moreover have "hash_maps l ps" if b: "mf_bool (mHash l)"
  proof -
    obtain g where g: "f_hash fs = Some g" "mHash l = g"
      using b l(1) l2(7) by (auto split: option.splits if_splits)
    then show ?thesis using files dk by (intro hash_maps_built) (auto simp: table_files_def)
  qed
  moreover have "btree_true l ps" if b: "mf_bool (mTree l)" "mf_bool (mKeys l)"
  proof -
    obtain gt gk where g: "f_tree fs = Some gt" "f_keys fs = Some gk" "mTree l = gt" "mKeys l = gk"
      using b l(1) l2(8,9) keys0 by (auto split: option.splits)
    then have "bg_ok gt" "bg_ok gk" "btree_build aligned ps = Some (Some (bg_mem gt, bg_mem gk))"
      using files by (auto simp: table_files_def)
    then show ?thesis using dk g(3,4) by (intro btree_files_true) auto
  qed
  ultimately show ?thesis using dk l l1(3,4) l2(4,5) by auto
qed

text \<open>
  Keys for which the hot line, when there is one, can be trusted: neither the key nor the stored keys have a
  zero byte among their first eight characters, and the first eight characters of a longer key are not a
  stored key.
\<close>

definition line_trusted :: "DiskFiles \<Rightarrow> Pair list \<Rightarrow> str \<Rightarrow> bool" where
  "line_trusted fs ps key \<longleftrightarrow>
     (f_line fs = None \<or>
      line_ok ps \<and> nul_free key \<and> (8 < length key \<longrightarrow> (\<forall>p \<in> set ps. getKey p \<noteq> take 8 key)))"

lemma dk_open_indexes_fit:
  assumes "table_files fs aligned now32 ps" "blob_wf m" "table_ok_keys ps"
    and "dk_open i fs OPEN_NORMAL (mkDiskList m) = (ok, l)" "key \<noteq> []" "line_trusted fs ps key"
  shows "indexes_fit l ps key"
proof -
  note o = dk_open_built [OF assms(1-4)]
  then obtain l2 where l2: "l = calcSearchMode l2" by blast
  have "mode_fits x l ps key" if "x = searchMode_T l \<or> x = searchMode_F l" for x
    using o assms(6) calcSearchMode_modes [of x l2] that l2
    by (cases x) (auto simp: mode_fits_def hotline_fits_def line_trusted_def)
  then show ?thesis using o assms(5) by (simp add: indexes_fit_def)
qed

section \<open>Lookups over an opened table\<close>

lemma ra_find_begin:
  assumes "dk_maps l ps" "ra_find_F key l = Some (searched getKey ps key)"
  shows "\<exists>qs. Option.bind (dk_find key l) fi_collect = Some qs \<and>
    map pair_trim qs = map pair_trim (drop (lower_bound getKey ps key) ps)"
proof -
  let ?i = "lower_bound getKey ps key"
  have i: "bs_it (searched getKey ps key) = ?i" by (simp add: searched_def Let_def)
  note n = dk_maps_length [OF assms(1)]
  have m: "maps_data (mData l) (dk_aligned l) ps" "maps_indx (mIndx l) (dk_aligned l) ps"
    using assms(1) by (simp_all add: dk_maps_def)
  have f: "dk_find key l = Some (ra_to_forward l (of_nat ?i))"
    using assms(2) i by (simp add: dk_find_def ra_find_def ra_find_ex_def)
  show ?thesis
  proof (cases "?i < length ps")
    case True
    then have "ra_to_forward l (of_nat ?i) =
        \<lparr>fi_blob = mData l, fi_pair = Ptr (record_ptr (mData l) (dk_aligned l) ps ?i), fi_aligned = dk_aligned l\<rparr>"
      using fdGetAt_maps [OF m True] n(2) n(3) [OF True] by (simp add: ra_to_forward_def word_le_nat_alt)
    then show ?thesis using fi_collect_from [OF m(1) True] f by simp
  next
    case False
    then have e: "?i = length ps" using lower_bound_le [of getKey ps key] by simp
    have "dk_size l = of_nat ?i" using assms(1) e by (simp add: dk_maps_def)
    then have "ra_to_forward l (of_nat ?i) = \<lparr>fi_blob = bg_closed, fi_pair = Null, fi_aligned = False\<rparr>"
      by (simp add: ra_to_forward_def)
    then show ?thesis using f e by (simp add: fi_collect.simps)
  qed
qed

definition sample_files :: "Pair list \<Rightarrow> DiskFiles" where
  "sample_files ps =
     \<lparr>f_meta = Some (meta_file 0 True ps), f_indx = Some (mIndx (sample_disk ps)), f_line = Some (mLine (sample_disk ps)),
      f_hash = None, f_data = Some (mData (sample_disk ps)), f_tree = None, f_keys = None\<rparr>"

lemma sample_table_files:
  assumes "list_all pair_wf ps" "line_ok ps" "ps \<noteq> []" "length ps < 1000"
  shows "table_files (sample_files ps) True 0 ps" "table_files ((sample_files ps)\<lparr>f_line := None\<rparr>) True 0 ps"
  using sample_disk_line_maps [OF assms] assms(3)
  by (simp_all add: table_files_def files_of_def sample_files_def line_maps_def dk_maps_def FileBuilder_build_line)
     (simp_all add: sample_disk_def)

lemma sample_blob_wf: "blob_wf (FileMetaBlob_create 0 0 0 0 0 0)"
  by (simp add: blob_wf_def FileMetaBlob_create_def LOGO_def)

section \<open>Properties\<close>

text \<open>
  C9: a non-empty table, sorted by key, that the builder wrote is opened, and a point lookup of a non-empty
  key in it returns the pair that was stored under the key, or null when there is none; the stored pair is
  read back through the mapped files.  The line, hash and tree files may each be there or not, which covers
  the four searches that the table can select: without any of them the search is the plain binary one.  A hash
  file was written by one of the two builders, and no stored key then has the hash zero.  With a line file the
  stored keys and the key looked up have no zero byte among their first eight characters, and the keys on
  which the hot line is wrong are excluded: a key longer than eight characters whose first eight are
  themselves a stored key.
\<close>

theorem disk_table_lookup:
  assumes "table_files fs aligned now32 ps" "blob_wf m" "table_ok_keys ps"
    and "dk_open i fs OPEN_NORMAL (mkDiskList m) = (ok, l)" "key \<noteq> []" "line_trusted fs ps key"
  shows "ok \<and> (\<exists>q. dk_getPair l key = Some q \<and>
    map_option (\<lambda>q. pair_trim (snd q)) q = map_option pair_trim (pair_of ps key))"
  using dk_getPair_right [OF dk_open_indexes_fit [OF assms]] dk_open_built [OF assms(1-4)] by metis

theorem disk_table_lookup_witness:
  "\<exists>q q'. dk_getPair (snd (dk_open 1 (sample_files [sample_key_pair [97] 5]) OPEN_NORMAL
      (mkDiskList (FileMetaBlob_create 0 0 0 0 0 0)))) [97] = Some (Some q) \<and>
    pair_trim (snd q) = pair_trim (sample_key_pair [97] 5) \<and>
    dk_getPair (snd (dk_open 1 ((sample_files [sample_key_pair [97] 5])\<lparr>f_line := None\<rparr>) OPEN_NORMAL
      (mkDiskList (FileMetaBlob_create 0 0 0 0 0 0)))) [97] = Some (Some q') \<and>
    pair_trim (snd q') = pair_trim (sample_key_pair [97] 5)"
proof -
  let ?p = "sample_key_pair [97] 5"
  have p: "getKey ?p = [97]" "pair_wf ?p" using sample_key_pair [of "[97]" 5] by (simp_all add: MAX_KEY_SIZE_def)
  then have k: "table_ok_keys [?p]" "line_ok [?p]" "line_trusted fs [?p] [97]" for fs
    by (simp_all add: table_ok_keys_def line_ok_def line_trusted_def nul_free_def)
  have t: "table_files (sample_files [?p]) True 0 [?p]" "table_files ((sample_files [?p])\<lparr>f_line := None\<rparr>) True 0 [?p]"
    using sample_table_files [of "[?p]"] k p by simp_all
  from disk_table_lookup [OF t(1) sample_blob_wf k(1) prod.collapse [symmetric] _ k(3), of 1]
    disk_table_lookup [OF t(2) sample_blob_wf k(1) prod.collapse [symmetric] _ k(3), of 1] p(1)
  show ?thesis by (auto simp: pair_of_def)
qed

text \<open>
  C10: \<open>find\<close> of a non-empty key on an opened table gives an iterator that runs over exactly the
  stored pairs from the first key that is not less than the given one to the end, in order, and then stops.
  The table is non-empty, sorted by key and written by the builder, its line, hash and tree files may each be
  there or not (a hash file with no stored hash of zero).  With a line file the claim is for tables and keys
  without zero bytes among the first eight characters, and it excludes the keys on which the hot line is
  wrong: a key longer than eight characters whose first eight are themselves a stored key.
\<close>

theorem disk_table_find:
  assumes "table_files fs aligned now32 ps" "blob_wf m" "table_ok_keys ps"
    and "dk_open i fs OPEN_NORMAL (mkDiskList m) = (ok, l)" "key \<noteq> []" "line_trusted fs ps key"
  shows "\<exists>qs. Option.bind (dk_find key l) fi_collect = Some qs \<and>
    map pair_trim qs = map pair_trim (dropWhile (\<lambda>p. getKey p < key) ps)"
proof -
  have f: "indexes_fit l ps key" by (rule dk_open_indexes_fit [OF assms])
  have "drop (lower_bound getKey ps key) ps = dropWhile (\<lambda>p. getKey p < key) ps"
    by (simp add: lower_bound_def dropWhile_eq_drop)
  then show ?thesis using ra_find_begin [OF _ ra_find_F_right [OF f]] f by (simp add: indexes_fit_def)
qed

theorem disk_table_find_witness:
  "\<exists>q. Option.bind (dk_find [96] (snd (dk_open 1 (sample_files [sample_key_pair [97] 5]) OPEN_NORMAL
      (mkDiskList (FileMetaBlob_create 0 0 0 0 0 0))))) fi_collect = Some [q] \<and>
    pair_trim q = pair_trim (sample_key_pair [97] 5)"
proof -
  let ?p = "sample_key_pair [97] 5"
  have p: "getKey ?p = [97]" "pair_wf ?p" using sample_key_pair [of "[97]" 5] by (simp_all add: MAX_KEY_SIZE_def)
  then have k: "table_ok_keys [?p]" "line_ok [?p]" "line_trusted fs [?p] [96]" for fs
    by (simp_all add: table_ok_keys_def line_ok_def line_trusted_def nul_free_def)
  have t: "table_files (sample_files [?p]) True 0 [?p]" using sample_table_files [of "[?p]"] k p by simp
  from disk_table_find [OF t sample_blob_wf k(1) prod.collapse [symmetric] _ k(3), of 1] p(1)
  show ?thesis by (auto simp: map_eq_Cons_conv)
qed

text \<open>
  C31: the header of a table reports its smallest creation time as the greatest, so the lookup over several
  tables skips tables it has to search: given any pair that is newer than the oldest pair of the table, the
  lookup returns it unchanged, even when the table holds a newer pair of the same key.
\<close>

theorem disk_prune_hides_newer:
  assumes "table_files fs aligned now32 ps" "blob_wf m" "table_ok_keys ps"
    and "dk_open i fs OPEN_NORMAL (mkDiskList m) = (ok, l)"
    and "old \<in> set ps" "getCreated old < getCreated (snd b)"
    and "p \<in> set ps" "getKey p = key" "getCreated (snd b) < getCreated p"
  shows "dk_getPair_best l key (Some b) = Some (Some b) \<and> getCreated (snd b) < getCreated p"
proof -
  have "dk_createdMax l = minCreated ps"
    using dk_open_built [OF assms(1-4)] metaBuilder_accessors(9) [of now32 aligned ps] by (simp add: dk_createdMax_def)
  then have "dk_createdMax l < getCreated (snd b)" using minCreated_le [OF assms(5)] assms(6) by simp
  then show ?thesis using assms(9) by (simp add: dk_getPair_best_def)
qed

theorem disk_prune_hides_newer_witness:
  "dk_getPair_best (snd (dk_open 1 (sample_files [sample_key_pair [97] 9, sample_key_pair [98] 1]) OPEN_NORMAL
      (mkDiskList (FileMetaBlob_create 0 0 0 0 0 0)))) [97] (Some (64, sample_key_pair [97] 5)) =
     Some (Some (64, sample_key_pair [97] 5))"
proof -
  let ?p = "sample_key_pair [97] 9" and ?q = "sample_key_pair [98] 1"
  have p: "getKey ?p = [97]" "pair_wf ?p" "getKey ?q = [98]" "pair_wf ?q"
    "getCreated ?p = 9" "getCreated ?q = 1" "getCreated (sample_key_pair [97] 5) = 5"
    using sample_key_pair [of "[97]"] sample_key_pair [of "[98]"] by (simp_all add: MAX_KEY_SIZE_def)
  then have k: "table_ok_keys [?p, ?q]" "line_ok [?p, ?q]" by (simp_all add: table_ok_keys_def line_ok_def nul_free_def)
  have t: "table_files (sample_files [?p, ?q]) True 0 [?p, ?q]" using sample_table_files(1) [of "[?p, ?q]"] k p by simp
  from disk_prune_hides_newer [OF t sample_blob_wf k(1) prod.collapse [symmetric], of ?q "(64, sample_key_pair [97] 5)" ?p "[97]" 1] p
  show ?thesis by simp
qed

end
