(* ===== verification/FlushMemory.thy ===== *)
theory FlushMemory
  imports FlushList KvMemory DiskList
begin

text \<open>
  The flush list over the skip list in an arena, as \<^verbatim>\<open>db_net\<close> runs it.  Nodes and pairs come from the same
  arena, which a flush empties: a write that does not fit is flushed first and then stored.  What a flush
  writes is read back from the files through \<open>DiskList\<close>.
\<close>

section \<open>Room after a flush\<close>

lemma sk_arena_count:
  assumes "sk_arena_inv l"
  shows "length (sk_list l) < 2 ^ 64"
proof -
  have a: "arena_addrs (sk_allocator l) (sk_list l)" "sk_inv l" using assms by (simp_all add: sk_arena_inv_def)
  have d: "distinct (sk_list l)" using sk_distinct [OF a(2)] by (simp add: distinct_map)
  let ?n = "unat (arena_data (sk_allocator l)) + unat (arena_pos (sk_allocator l))"
  have "(\<lambda>p. unat (fst p)) ` set (sk_list l) \<subseteq> {..<?n}" using a(1) by (auto simp: arena_addrs_def)
  then have "card ((\<lambda>p. unat (fst p)) ` set (sk_list l)) \<le> ?n" using card_mono [of "{..<?n}"] by simp
  moreover have "inj_on (\<lambda>p. unat (fst p)) (set (sk_list l))"
    using a(1) by (auto simp: arena_addrs_def inj_on_def word_unat_eq_iff)
  from card_image [OF this] have "card ((\<lambda>p. unat (fst p)) ` set (sk_list l)) = length (sk_list l)"
    using distinct_card [OF d] by simp
  moreover have "?n < 2 ^ 64" using a(1) by (simp add: arena_addrs_def arena_inv8_def arena_inv_def)
  ultimately show ?thesis by simp
qed

interpretation fls: flush_room "sk_ops arena_ops R" sk_arena_inv nul_free hkey_ord
  "\<lambda>n l. n + 542 \<le> unat (arena_size (sk_allocator l))" for R
proof unfold_locales
  show "hkey_ord a = hkey_ord b \<longleftrightarrow> a = b" for a b by (rule hkey_ord_inject)
  fix l :: "ArenaAllocator SkipList" assume l: "sk_arena_inv l"
  show "l_list (sk_ops arena_ops R) l = []" if "l_empty (sk_ops arena_ops R) l"
  proof -
    have "l_size (sk_ops arena_ops R) l = 0" using that by (simp add: sk_ops_def)
    moreover have "l_size (sk_ops arena_ops R) l = of_nat (length (sk_list l))"
      using ska.list_counters [OF l, of R] by (simp add: lc_of_def)
    ultimately have "(of_nat (length (sk_list l)) :: u64) = 0" by simp
    then have "length (sk_list l) = 0" using sk_arena_count [OF l] by (auto simp: word_unat_eq_iff unat_of_nat)
    then show ?thesis by simp
  qed
  fix now f r l' assume f: "factory_wf f" "nul_free (factory_getKey f)"
  show "ir_ok r" if "factory_bytes f + 542 \<le> unat (arena_size (sk_allocator l))"
    "l_insertF (sk_ops arena_ops R) now f (l_clear (sk_ops arena_ops R) l) = (r, l')"
  proof -
    have "sk_allocator (l_clear (sk_ops arena_ops R) l) = (sk_allocator l)\<lparr>arena_pos := 0\<rparr>"
      by (simp add: sk_clear_def arena_ops_def arena_reset_def sk_zeroing_def)
    then show ?thesis using sk_arena_insert(3) [OF _ f that(2)] ska.clear_law [OF l] that(1) by simp
  qed
  show "ir_status r \<noteq> ERROR \<and> (n + 542 \<le> unat (arena_size (sk_allocator l')) \<longleftrightarrow> n + 542 \<le> unat (arena_size (sk_allocator l)))"
    if "l_insertF (sk_ops arena_ops R) now f l = (r, l')" for n
    using sk_arena_insert(4,5) [OF l f that] by simp
qed

section \<open>What a flush writes\<close>

text \<open>Of the pair under a key, what a flush with the option leaves for the file.\<close>

definition kept :: "TombstoneOptions \<Rightarrow> u64 \<Rightarrow> pptr option \<Rightarrow> pptr option" where
  "kept opts now p =
     (case p of None \<Rightarrow> None | Some p \<Rightarrow> if opts = KEEP \<or> isOK now (snd p) then Some p else None)"

lemma lookup_file_build:
  assumes "distinct (map pkey v)"
  shows "lookup (file_build opts now v) k = kept opts now (lookup v k)"
proof (cases "opts = KEEP")
  case False
  have d: "distinct (map pkey (filter (\<lambda>p. isOK now (snd p)) v))" using assms by (rule distinct_map_filter)
  have "lookup (filter (\<lambda>p. isOK now (snd p)) v) k = Some p \<longleftrightarrow> lookup v k = Some p \<and> isOK now (snd p)" for p
    using lookup_in [OF d, of p] lookup_in [OF assms, of p] lookup_Some_in [of _ k p] by force
  then have "lookup (filter (\<lambda>p. isOK now (snd p)) v) k = kept opts now (lookup v k)"
    using False by (cases "lookup (filter (\<lambda>p. isOK now (snd p)) v) k"; cases "lookup v k") (force simp: kept_def)+
  then show ?thesis using False by (simp add: file_build_def)
qed (auto simp: file_build_def kept_def split: option.split)

lemma set_file_build: "set (file_build opts now v) \<subseteq> set v"
  by (auto simp: file_build_def)

lemma pair_of_lookup: "pair_of (map snd v) k = map_option snd (lookup v k)"
  by (induction v) (auto simp: pair_of_def lookup_Cons pkey_def)

lemma flushed_keys:
  assumes "sk_arena_inv l" "list_all (\<lambda>p. ascii_first (drop 8 (pkey p))) (sk_list l)"
  shows "sorted_wrt (<) (map getKey (map snd (file_build opts now (sk_list l))))"
    "line_ok (map snd (file_build opts now (sk_list l)))"
    "list_all pair_wf (map snd (file_build opts now (sk_list l)))"
proof -
  have o: "pairs_ok nul_free (sk_list l)" using ska.list_ok [OF assms(1)] by simp
  have "sorted_wrt (\<lambda>p q. hkey_ord (pkey p) < hkey_ord (pkey q)) (sk_list l)"
    using ska.list_sorted [OF assms(1)] by (simp add: sorted_keys_def sorted_wrt_map)
  then have "sorted_wrt (\<lambda>p q. pkey p < pkey q) (sk_list l)"
    by (rule sorted_wrt_mono_rel [rotated]) (use assms(2) hkey_ord_ascii in \<open>auto simp: list_all_iff\<close>)
  then have "sorted_wrt (\<lambda>p q. pkey p < pkey q) (file_build opts now (sk_list l))"
    by (simp add: file_build_def sorted_wrt_filter)
  then show s: "sorted_wrt (<) (map getKey (map snd (file_build opts now (sk_list l))))" by (simp add: sorted_wrt_map pkey_def)
  show "list_all pair_wf (map snd (file_build opts now (sk_list l)))"
    using o set_file_build [of opts now "sk_list l"] by (auto simp: pairs_ok_def list_all_iff)
  show "line_ok (map snd (file_build opts now (sk_list l)))"
    using s o set_file_build [of opts now "sk_list l"] by (auto simp: line_ok_def pairs_ok_def list_all_iff pkey_def)
qed

section \<open>Properties\<close>

text \<open>
  C11: The guarantee of \<^verbatim>\<open>flushlist_guarantees.txt\<close> for the flush list over the skip
  list in an arena, whose nodes and pairs both come from the arena: a valid write never fails.  The result is
  positive, and the pair is in the memory list afterwards with the creation time of the write: with its value
  and expiration when the factory writes a whole pair (\<open>Normal\<close>, \<open>Clone\<close>), as a tombstone when it deletes; the only exception is a write that is skipped because the list
  holds a pair of the key that is too new to be replaced, which stays.  When the predicate orders a flush the
  pair is stored as a new one; otherwise it is stored directly, and when that runs out of memory, after a
  flush.  It is enough that the arena is 542 bytes larger than the pair (the largest node and the alignment of
  both), that the buffer of the flush list holds the pair, and that the key has no zero byte among its first
  eight characters.  It holds whether the flush keeps or removes tombstones.
\<close>

theorem flush_list_always_inserts:
  assumes "sk_arena_inv (fl_list fl)" "factory_wf f" "nul_free (factory_getKey f)"
    and "factory_bytes f \<le> block_size bufferPair" "factory_bytes f + 542 \<le> unat (arena_size (sk_allocator (fl_list fl)))"
    and "fl_insertF (sk_ops arena_ops R) predicate opts bufferPair now f fl = (r, fl')"
  shows "sk_arena_inv (fl_list fl') \<and> ir_ok r \<and>
    ((\<exists>p. ir_pair r = Some p \<and> l_getPair (sk_ops arena_ops R) (fl_list fl') (factory_getKey f) = Some p \<and>
        getCreated (snd p) = factory_created now f \<and>
        (factory_full f \<longrightarrow> getVal (snd p) = factory_val f \<and> getExpires (snd p) = factory_expires f) \<and>
        (factory_tomb f \<longrightarrow> isTombstone (snd p))) \<or>
     (\<exists>old. ir_status r = SKIP_INSERTED \<and> l_getPair (sk_ops arena_ops R) (fl_list fl) (factory_getKey f) = Some old \<and>
        l_getPair (sk_ops arena_ops R) (fl_list fl') (factory_getKey f) = Some old \<and>
        \<not> isValidForReplace (factory_getCreated f) (snd old))) \<and>
    (predicate (fl_list fl) (size_t (factory_bytes f)) \<longrightarrow> ir_status r = INSERTED)"
  using fls.always_stored [OF assms] unfolding stored_def .

text \<open>A small arena and a list with one pair in it.\<close>

definition arena_small :: ArenaAllocator where
  "arena_small = \<lparr>arena_data = 4096, arena_size = 600, arena_pos = 0\<rparr>"

definition sample_skip :: "ArenaAllocator SkipList" where
  "sample_skip = snd (l_insertF (sk_ops arena_ops \<lparr>rand64 = (\<lambda>i. 0), clz0 = 0\<rparr>) 1 (Normal [98] [1, 2] 0 0) (sk_empty arena_small))"

lemma sample_skip:
  "sk_arena_inv sample_skip" "arena_size (sk_allocator sample_skip) = 600"
  "\<exists>p. sk_list sample_skip = [p] \<and> pkey p = [98] \<and> getVal (snd p) = [1, 2]"
proof -
  let ?L = "sk_ops arena_ops \<lparr>rand64 = (\<lambda>i. 0), clz0 = 0\<rparr>" and ?f = "Normal [98] [1, 2] 0 0"
  have a: "arena_inv8 arena_small" by (simp add: arena_small_def arena_inv8_def arena_inv_def)
  have f: "factory_wf ?f" "nul_free (factory_getKey ?f)" by (simp_all add: eval_simps nul_free_def)
  obtain r where s: "l_insertF ?L 1 ?f (sk_empty arena_small) = (r, sample_skip)" by (simp add: sample_skip_def prod_eq_iff)
  note i = sk_arena_insert [OF sk_arena_inv_empty [OF a] f s]
  have e: "sk_list (sk_empty arena_small) = []" "sk_allocator (sk_empty arena_small) = arena_small"
    using sk_inv_empty(2) [of arena_small] by (simp_all add: sk_empty_def)
  show inv: "sk_arena_inv sample_skip" using i(1) by blast
  show "arena_size (sk_allocator sample_skip) = 600" using i(5) e(2) by (simp add: arena_small_def)
  have "ir_ok r" using i(3) e(2) by (simp add: arena_small_def eval_simps)
  have sp: "insert_spec 1 ?f [] r (sk_list sample_skip)" using i(1) e(1) by simp
  then obtain p where p: "ir_pair r = Some p" using \<open>ir_ok r\<close> by (cases "ir_status r") (auto simp: insert_spec_def)
  have lk: "lookup (sk_list sample_skip) k = (if k = [98] then Some p else None)" for k
    using sp p by (auto simp: insert_spec_def)
  have d: "distinct (map pkey (sk_list sample_skip))" using inv by (intro sk_distinct) (simp add: sk_arena_inv_def)
  have k: "pkey p = [98]" using lookup_Some_in [of "sk_list sample_skip" "[98]" p] lk by simp
  then have "set (sk_list sample_skip) = {p}" using lk lookup_mem [OF d] by (auto split: if_splits)
  moreover have "distinct (sk_list sample_skip)" using d by (simp add: distinct_map)
  ultimately have "sk_list sample_skip = [p]"
    by (cases "sk_list sample_skip"; cases "tl (sk_list sample_skip)") auto
  then show "\<exists>p. sk_list sample_skip = [p] \<and> pkey p = [98] \<and> getVal (snd p) = [1, 2]"
    using k sp p by (auto simp: insert_spec_def factory_full_def)
qed

theorem flush_list_always_inserts_witness:
  "\<exists>p. l_getPair (sk_ops arena_ops \<lparr>rand64 = (\<lambda>i. 0), clz0 = 0\<rparr>)
     (fl_list (snd (fl_insertF (sk_ops arena_ops \<lparr>rand64 = (\<lambda>i. 0), clz0 = 0\<rparr>) (\<lambda>l n. True) KEEP (raw_memory 4096) 2
        (Normal [99] [3, 4] 0 0) \<lparr>fl_list = sample_skip, fl_version = 0, fl_disk = []\<rparr>))) [99] = Some p \<and>
    getVal (snd p) = [3, 4]"
proof -
  let ?L = "sk_ops arena_ops \<lparr>rand64 = (\<lambda>i. 0), clz0 = 0\<rparr>"
  let ?s = "fl_insertF ?L (\<lambda>l n. True) KEEP (raw_memory 4096) 2 (Normal [99] [3, 4] 0 0) \<lparr>fl_list = sample_skip, fl_version = 0, fl_disk = []\<rparr>"
  have "factory_wf (Normal [99] [3, 4] 0 0)" "nul_free [99]" "factory_bytes (Normal [99] [3, 4] 0 0) \<le> block_size (raw_memory 4096)"
    "factory_bytes (Normal [99] [3, 4] 0 0) + 542 \<le> 600"
    by (simp_all add: eval_simps nul_free_def block_size_def offset_buffer_def)
  then show ?thesis
    using flush_list_always_inserts [of "\<lparr>fl_list = sample_skip, fl_version = 0, fl_disk = []\<rparr>" "Normal [99] [3, 4] 0 0" "raw_memory 4096"
        "\<lparr>rand64 = (\<lambda>i. 0), clz0 = 0\<rparr>" "\<lambda>l n. True" KEEP 2 "fst ?s" "snd ?s"] sample_skip(1,2)
    by (auto simp: factory_full_def)
qed

text \<open>
  C12: What a flush writes is what the memory list held.  When the skip list in the arena is flushed to a new
  table and the table, with whichever of its line, hash and tree files, is opened, a point lookup in the files
  returns for every key the pair that the memory list returned for it, and nothing when the list had none;
  with the option that removes tombstones, a pair that is deleted or expired at the time of the flush is not
  found any more.  The ninth character of the stored keys is below 128 (the skip list compares it as a signed
  character, the table does not), the table is not empty, and the key looked up is not empty.  As in every
  lookup through a hot line, the key has no zero byte among its first eight characters, and its first eight
  characters are not a stored key when it is longer; a hash file has no stored hash of zero.
\<close>

theorem flushed_table_answers:
  assumes "sk_arena_inv l" "list_all (\<lambda>p. ascii_first (drop 8 (pkey p))) (sk_list l)"
    and "DiskFileFlush (sk_ops arena_ops R) opts now l tables = t # tables" "t \<noteq> []"
    and "table_files fs True now32 (map snd t)" "blob_wf m" "dk_open i fs OPEN_NORMAL (mkDiskList m) = (ok, d)"
    and "key \<noteq> []" "nul_free key" "8 < length key \<longrightarrow> (\<forall>p \<in> set t. pkey p \<noteq> take 8 key)"
  shows "ok \<and> (\<exists>q. dk_getPair d key = Some q \<and>
    map_option (\<lambda>q. pair_trim (snd q)) q =
      map_option (\<lambda>p. pair_trim (snd p)) (kept opts now (l_getPair (sk_ops arena_ops R) l key)))"
proof -
  have t: "t = file_build opts now (sk_list l)"
    using assms(3) by (auto simp: DiskFileFlush_def split: if_splits)
  note k = flushed_keys [OF assms(1,2), of opts now, folded t]
  have keys: "table_ok_keys (map snd t)" "line_trusted fs (map snd t) key"
    using k assms(4,8-10) by (auto simp: table_ok_keys_def line_ok_def line_trusted_def list_all_iff pkey_def)
  have g: "l_getPair (sk_ops arena_ops R) l key = lookup (sk_list l) key"
    using ska.getPair_lookup [OF assms(1,8,9)] by simp
  have "distinct (map pkey (sk_list l))" using assms(1) by (intro sk_distinct) (simp add: sk_arena_inv_def)
  then have "pair_of (map snd t) key = map_option snd (kept opts now (l_getPair (sk_ops arena_ops R) l key))"
    using lookup_file_build [of "sk_list l" opts now key] g unfolding t pair_of_lookup by simp
  moreover have "ok" using dk_open_built [OF assms(5,6) keys(1) assms(7)] by blast
  moreover obtain q where "dk_getPair d key = Some q"
    "map_option (\<lambda>q. pair_trim (snd q)) q = map_option pair_trim (pair_of (map snd t) key)"
    using dk_getPair_right [OF dk_open_indexes_fit [OF assms(5,6) keys(1) assms(7,8) keys(2)]] by blast
  ultimately show ?thesis by (simp add: option.map_comp comp_def)
qed

theorem flushed_table_answers_witness:
  "\<exists>p q. DiskFileFlush (sk_ops arena_ops \<lparr>rand64 = (\<lambda>i. 0), clz0 = 0\<rparr>) KEEP 3 sample_skip [] = [[p]] \<and> getVal (snd p) = [1, 2] \<and>
    dk_getPair (snd (dk_open 1 (sample_files [snd p]) OPEN_NORMAL (mkDiskList (FileMetaBlob_create 0 0 0 0 0 0)))) [98] =
      Some (Some q) \<and> pair_trim (snd q) = pair_trim (snd p)"
proof -
  let ?R = "\<lparr>rand64 = (\<lambda>i. 0), clz0 = 0\<rparr>"
  obtain p where p: "sk_list sample_skip = [p]" "pkey p = [98]" "getVal (snd p) = [1, 2]" using sample_skip(3) by blast
  have a: "list_all (\<lambda>p. ascii_first (drop 8 (pkey p))) (sk_list sample_skip)" using p by (simp add: ascii_first_def)
  have "lc_of [p] = \<lparr>lc_count = l_size (sk_ops arena_ops ?R) sample_skip, lc_bytes = l_bytes (sk_ops arena_ops ?R) sample_skip\<rparr>"
    using ska.list_counters [OF sample_skip(1), of ?R] p(1) by simp
  then have "l_size (sk_ops arena_ops ?R) sample_skip = 1" by (simp add: lc_of_def)
  then have f: "DiskFileFlush (sk_ops arena_ops ?R) KEEP 3 sample_skip [] = [p] # []"
    using p(1) by (simp add: DiskFileFlush_def file_build_def sk_ops_def)
  have k: "list_all pair_wf [snd p]" "line_ok [snd p]"
    using flushed_keys [OF sample_skip(1) a, of KEEP 3] p(1) by (simp_all add: file_build_def)
  have t: "table_files (sample_files (map snd [p])) True 0 (map snd [p])" using sample_table_files(1) [of "[snd p]"] k by simp
  have g: "l_getPair (sk_ops arena_ops ?R) sample_skip [98] = Some p"
    using ska.getPair_lookup [OF sample_skip(1), of "[98]" ?R] p by (simp add: nul_free_def lookup_Cons)
  from flushed_table_answers [OF sample_skip(1) a f _ t sample_blob_wf prod.collapse [symmetric], of "[98]" 1] g f p(3)
  show ?thesis by (auto simp: kept_def nul_free_def)
qed

end
