(* ===== verification/ItemSlot.thy ===== *)
theory ItemSlot
  imports Endian
begin

text \<open>
  The slot for a short string that the ring buffer, the Misra-Gries counters and the heavy hitter list
  share: a size of one or two bytes and a buffer of fixed length (\<^verbatim>\<open>include/ringbuffer.h\<close>,
  \<^verbatim>\<open>include/misragries.h\<close>, \<^verbatim>\<open>include/heavyhitter.h\<close>).  The stored size is big endian; the model keeps the
  number.  A conversion to the size type is reduced modulo its range.
\<close>

text \<open>The template parameters: the bits of \<open>SizeType\<close>, and \<open>MaxItemSize\<close>.\<close>

record slot_conf =
  SizeBits :: nat
  MaxItemSize :: nat

definition conf_ok :: "slot_conf \<Rightarrow> bool" where
  "conf_ok c \<longleftrightarrow> 1 \<le> MaxItemSize c \<and> MaxItemSize c < 2 ^ SizeBits c"

record ItemSlot =
  slot_size :: nat
  slot_item :: str

definition isItemValid :: "slot_conf \<Rightarrow> str \<Rightarrow> bool" where
  "isItemValid c sv \<longleftrightarrow> 1 \<le> length sv \<and> length sv \<le> MaxItemSize c"

definition getItem :: "slot_conf \<Rightarrow> ItemSlot \<Rightarrow> str" where
  "getItem c x = (if slot_size x \<le> MaxItemSize c then take (slot_size x) (slot_item x) else [])"

definition setItem :: "slot_conf \<Rightarrow> str \<Rightarrow> ItemSlot \<Rightarrow> ItemSlot" where
  "setItem c sv x = \<lparr>slot_size = length sv mod 2 ^ SizeBits c, slot_item = write_at 0 sv (slot_item x)\<rparr>"

text \<open>A slot of zeroed memory.\<close>

definition slot_zero :: "slot_conf \<Rightarrow> ItemSlot" where
  "slot_zero c = \<lparr>slot_size = 0, slot_item = replicate (MaxItemSize c) 0\<rparr>"

definition slot_wf :: "slot_conf \<Rightarrow> ItemSlot \<Rightarrow> bool" where
  "slot_wf c x \<longleftrightarrow> length (slot_item x) = MaxItemSize c"

lemma slot_wf_zero [simp]: "slot_wf c (slot_zero c)"
  by (simp add: slot_wf_def slot_zero_def)

lemma slot_size_zero [simp]: "slot_size (slot_zero c) = 0"
  by (simp add: slot_zero_def)

lemma setItem_spec:
  assumes "conf_ok c" "isItemValid c sv" "slot_wf c x"
  shows "getItem c (setItem c sv x) = sv" "slot_size (setItem c sv x) = length sv" "slot_size (setItem c sv x) \<noteq> 0"
    "slot_wf c (setItem c sv x)"
  using assms by (auto simp: conf_ok_def isItemValid_def slot_wf_def getItem_def setItem_def write_at_inside)

lemma list_all_update: "\<lbrakk>list_all P xs; P x\<rbrakk> \<Longrightarrow> list_all P (xs[i := x])"
  by (auto simp: list_all_iff dest: set_update_subset_insert [THEN subsetD])

lemma betoh_inject [simp]: "betoh32 a = betoh32 b \<longleftrightarrow> a = b" "betoh64 c = betoh64 d \<longleftrightarrow> c = d"
  by (metis htobe_betoh)+

lemma betoh_0 [simp]: "betoh32 0 = 0" "betoh64 0 = 0"
  using betoh_htobe(2,3) [of 0] by simp_all

lemma distinct_map_filterI:
  assumes "\<forall>i < length xs. \<forall>j < length xs. P (xs ! i) \<longrightarrow> P (xs ! j) \<longrightarrow> f (xs ! i) = f (xs ! j) \<longrightarrow> i = j"
  shows "distinct (map f (filter P xs))"
  using assms
proof (induction xs)
  case (Cons x xs)
  have "\<forall>i < length xs. \<forall>j < length xs. P (xs ! i) \<longrightarrow> P (xs ! j) \<longrightarrow> f (xs ! i) = f (xs ! j) \<longrightarrow> i = j"
    using Cons.prems by (metis Suc_less_eq length_Cons nat.inject nth_Cons_Suc)
  moreover have "f y \<noteq> f x" if "P x" "y \<in> set xs" "P y" for y
    using Cons.prems that by (metis Suc_less_eq in_set_conv_nth length_Cons nat.distinct(1) nth_Cons_0 nth_Cons_Suc zero_less_Suc)
  ultimately show ?case using Cons.IH by fastforce
qed simp

end
