(* ===== verification/RingBuffer.thy ===== *)
theory RingBuffer
  imports ItemSlot
begin

text \<open>
  \<^verbatim>\<open>include/ringbuffer.h\<close>: a bounded queue of short strings inside the value of a pair.  A slot of size
  zero is free, which tells a full buffer from an empty one when the indexes meet.
\<close>

section \<open>The code\<close>

text \<open>The value: both indexes are stored big endian.\<close>

record RingList =
  rb_head :: u32
  rb_tail :: u32
  rb_items :: "ItemSlot list"

text \<open>The number of slots and the template parameters.\<close>

record RawRingBuffer =
  rb_size :: nat
  rb_conf :: slot_conf

definition rb_clear_memory :: "RawRingBuffer \<Rightarrow> RingList" where
  "rb_clear_memory b = \<lparr>rb_head = 0, rb_tail = 0, rb_items = replicate (rb_size b) (slot_zero (rb_conf b))\<rparr>"

definition rb_check :: "RawRingBuffer \<Rightarrow> RingList \<Rightarrow> bool" where
  "rb_check b rb \<longleftrightarrow> unat (betoh32 (rb_head rb)) < rb_size b \<and> unat (betoh32 (rb_tail rb)) < rb_size b"

definition rb_clear :: "RingList \<Rightarrow> RingList" where
  "rb_clear rb = rb\<lparr>rb_head := 0, rb_tail := 0, rb_items := (rb_items rb)[0 := (rb_items rb ! 0)\<lparr>slot_size := 0\<rparr>]\<rparr>"

definition rb_checkSet :: "RawRingBuffer \<Rightarrow> RingList \<Rightarrow> RingList" where
  "rb_checkSet b rb = (if rb_check b rb then rb else rb_clear rb)"

definition rb_count :: "RawRingBuffer \<Rightarrow> RingList \<Rightarrow> nat" where
  "rb_count b rb =
     (if \<not> rb_check b rb then 0
      else
        (let head = betoh32 (rb_head rb); tail = betoh32 (rb_tail rb) in
         if head = tail then (if slot_size (rb_items rb ! unat tail) \<noteq> 0 then rb_size b else 0)
         else if head > tail then unat (head - tail)
         else rb_size b - unat tail + unat head))"

text \<open>\<open>i + 1 == size_ ? 0 : i + 1\<close> on an index of 32 bits.\<close>

definition rb_next :: "RawRingBuffer \<Rightarrow> u32 \<Rightarrow> u32" where
  "rb_next b i = (if unat (i + 1) = rb_size b then 0 else i + 1)"

text \<open>\<open>None\<close> is the failed assertion of \<open>setItem\<close>.\<close>

definition rb_push :: "RawRingBuffer \<Rightarrow> str \<Rightarrow> RingList \<Rightarrow> RingList option" where
  "rb_push b item rb =
     (let rb = rb_checkSet b rb;
          head = betoh32 (rb_head rb);
          tail = betoh32 (rb_tail rb);
          full = (head = tail \<and> slot_size (rb_items rb ! unat tail) \<noteq> 0)
      in if \<not> length item \<le> MaxItemSize (rb_conf b) then None
         else
           (let rb = rb\<lparr>rb_items := (rb_items rb)[unat head := setItem (rb_conf b) item (rb_items rb ! unat head)]\<rparr>;
                nextHead = rb_next b head;
                rb = (if full then rb\<lparr>rb_tail := htobe32 (rb_next b tail)\<rparr> else rb)
            in Some (rb\<lparr>rb_head := htobe32 nextHead\<rparr>)))"

definition rb_pop :: "RawRingBuffer \<Rightarrow> RingList \<Rightarrow> str \<times> RingList" where
  "rb_pop b rb =
     (let rb = rb_checkSet b rb;
          head = betoh32 (rb_head rb);
          tail = betoh32 (rb_tail rb)
      in if head = tail \<and> slot_size (rb_items rb ! unat tail) = 0 then ([], rb)
         else
           (let x = rb_items rb ! unat tail;
                item = getItem (rb_conf b) x;
                rb = rb\<lparr>rb_items := (rb_items rb)[unat tail := x\<lparr>slot_size := 0\<rparr>]\<rparr>
            in (item, rb\<lparr>rb_tail := htobe32 (rb_next b tail)\<rparr>)))"

primrec rb_walk :: "nat \<Rightarrow> RawRingBuffer \<Rightarrow> RingList \<Rightarrow> u32 \<Rightarrow> str list" where
  "rb_walk 0 b rb i = []"
| "rb_walk (Suc steps) b rb i =
     getItem (rb_conf b) (rb_items rb ! unat i) # rb_walk steps b rb (rb_next b i)"

text \<open>\<open>for_each\<close>: the strings that the callback gets, in order.\<close>

definition rb_for_each :: "RawRingBuffer \<Rightarrow> RingList \<Rightarrow> str list" where
  "rb_for_each b rb =
     (if \<not> rb_check b rb then []
      else
        (let head = betoh32 (rb_head rb); tail = betoh32 (rb_tail rb) in
         if head = tail \<and> slot_size (rb_items rb ! unat tail) = 0 then []
         else rb_walk (rb_count b rb) b rb tail))"

section \<open>The queue it holds\<close>

definition rb_ok :: "RawRingBuffer \<Rightarrow> bool" where
  "rb_ok b \<longleftrightarrow> 0 < rb_size b \<and> rb_size b < 2 ^ 32 \<and> conf_ok (rb_conf b)"

text \<open>
  The buffer holds the queue \<open>q\<close>: the strings lie from the tail on, around the end, and every other
  slot is free.
\<close>

definition rb_holds :: "RawRingBuffer \<Rightarrow> RingList \<Rightarrow> str list \<Rightarrow> bool" where
  "rb_holds b rb q \<longleftrightarrow>
     rb_ok b \<and> rb_check b rb \<and> length (rb_items rb) = rb_size b \<and> length q \<le> rb_size b \<and>
     list_all (slot_wf (rb_conf b)) (rb_items rb) \<and>
     unat (betoh32 (rb_head rb)) = (unat (betoh32 (rb_tail rb)) + length q) mod rb_size b \<and>
     (\<forall>k < rb_size b. let x = rb_items rb ! ((unat (betoh32 (rb_tail rb)) + k) mod rb_size b) in
        if k < length q then slot_size x \<noteq> 0 \<and> getItem (rb_conf b) x = q ! k else slot_size x = 0)"

lemma rb_next_nat:
  assumes "rb_size b < 2 ^ 32" "unat i < rb_size b"
  shows "unat (rb_next b i) = (unat i + 1) mod rb_size b"
proof -
  have "unat (i + 1) = unat i + 1" using assms unat_add_lem [of i 1] by simp
  then show ?thesis using assms(2) by (auto simp: rb_next_def)
qed

text \<open>Positions on the ring.\<close>

lemma ring_pos: "t < n \<Longrightarrow> k \<le> n \<Longrightarrow> (t + k) mod n = (if t + k < n then t + k else t + k - n)" for n :: nat
  by (auto simp: le_mod_geq not_less)

lemma ring_pos_eq:
  assumes "t < n" "j < n" "k < (n :: nat)"
  shows "(t + j) mod n = (t + k) mod n \<longleftrightarrow> j = k"
  using assms by (auto simp: ring_pos split: if_splits)

lemma ring_pos_Suc: "((t + 1) mod n + k) mod n = (t + Suc k) mod n" for n :: nat
  by (simp add: mod_add_left_eq)

lemma ring_update:
  assumes "t < n" "j < n" "k < n" "length xs = (n :: nat)"
  shows "xs[(t + j) mod n := x] ! ((t + k) mod n) = (if k = j then x else xs ! ((t + k) mod n))"
  using assms ring_pos_eq [of t n k j] by (auto simp: nth_list_update)

text \<open>When the indexes meet, the queue is empty or full.\<close>

lemma rb_holds_meet:
  assumes "rb_holds b rb q"
  shows "rb_head rb = rb_tail rb \<longleftrightarrow> q = [] \<or> length q = rb_size b"
    "q = [] \<longleftrightarrow> rb_head rb = rb_tail rb \<and> slot_size (rb_items rb ! unat (betoh32 (rb_tail rb))) = 0"
    "length q = rb_size b \<longleftrightarrow> rb_head rb = rb_tail rb \<and> slot_size (rb_items rb ! unat (betoh32 (rb_tail rb))) \<noteq> 0"
proof -
  let ?t = "unat (betoh32 (rb_tail rb))" and ?n = "rb_size b"
  have h: "?t < ?n" "0 < ?n" "length q \<le> ?n" "unat (betoh32 (rb_head rb)) = (?t + length q) mod ?n"
    using assms by (simp_all add: rb_holds_def rb_check_def rb_ok_def)
  have "betoh32 (rb_head rb) = betoh32 (rb_tail rb) \<longleftrightarrow> (?t + length q) mod ?n = ?t"
    unfolding h(4) [symmetric] by (simp add: word_unat_eq_iff)
  also have "\<dots> \<longleftrightarrow> q = [] \<or> length q = ?n" using h(1-3) by (auto simp: ring_pos split: if_splits)
  finally show meet: "rb_head rb = rb_tail rb \<longleftrightarrow> q = [] \<or> length q = ?n"
    by (metis htobe_betoh(2))
  have z: "slot_size (rb_items rb ! ?t) \<noteq> 0 \<longleftrightarrow> q \<noteq> []"
  proof -
    have "let x = rb_items rb ! ((?t + 0) mod ?n) in
        if 0 < length q then slot_size x \<noteq> 0 \<and> getItem (rb_conf b) x = q ! 0 else slot_size x = 0"
      using assms h(2) by (simp only: rb_holds_def)
    then show ?thesis using h(1) by (auto simp: Let_def split: if_splits)
  qed
  show "q = [] \<longleftrightarrow> rb_head rb = rb_tail rb \<and> slot_size (rb_items rb ! ?t) = 0"
    "length q = ?n \<longleftrightarrow> rb_head rb = rb_tail rb \<and> slot_size (rb_items rb ! ?t) \<noteq> 0"
    using meet z h(2) by auto
qed

lemma rb_holdsD:
  assumes "rb_holds b rb q"
  shows "rb_ok b" "rb_check b rb" "unat (betoh32 (rb_tail rb)) < rb_size b" "unat (betoh32 (rb_head rb)) < rb_size b"
    "length (rb_items rb) = rb_size b" "length q \<le> rb_size b" "list_all (slot_wf (rb_conf b)) (rb_items rb)"
    "unat (betoh32 (rb_head rb)) = (unat (betoh32 (rb_tail rb)) + length q) mod rb_size b"
    "k < length q \<Longrightarrow> slot_size (rb_items rb ! ((unat (betoh32 (rb_tail rb)) + k) mod rb_size b)) \<noteq> 0"
    "k < length q \<Longrightarrow> getItem (rb_conf b) (rb_items rb ! ((unat (betoh32 (rb_tail rb)) + k) mod rb_size b)) = q ! k"
    "length q \<le> k \<Longrightarrow> k < rb_size b \<Longrightarrow>
       slot_size (rb_items rb ! ((unat (betoh32 (rb_tail rb)) + k) mod rb_size b)) = 0"
  using assms by (simp_all add: rb_holds_def rb_check_def Let_def)

lemma rb_checkSet_holds [simp]: "rb_holds b rb q \<Longrightarrow> rb_checkSet b rb = rb"
  by (simp add: rb_checkSet_def rb_holdsD(2))

text \<open>\<open>push\<close> appends, and drops the oldest string of a full buffer.\<close>

lemma rb_push_holds:
  assumes "rb_holds b rb q" "isItemValid (rb_conf b) item"
  shows "\<exists>rb'. rb_push b item rb = Some rb' \<and>
    rb_holds b rb' ((if length q = rb_size b then tl q else q) @ [item])"
proof -
  let ?t = "unat (betoh32 (rb_tail rb))" and ?h = "unat (betoh32 (rb_head rb))" and ?n = "rb_size b" and ?c = "rb_conf b"
  note d = rb_holdsD [OF assms(1)]
  have ok: "conf_ok ?c" "0 < ?n" "?n < 2 ^ 32" using d(1) by (simp_all add: rb_ok_def)
  let ?x = "setItem ?c item (rb_items rb ! ?h)"
  have wf: "slot_wf ?c (rb_items rb ! ?h)" using d(4,5,7) by (simp add: list_all_length)
  note x = setItem_spec [OF ok(1) assms(2) wf]
  have all: "list_all (slot_wf ?c) ((rb_items rb)[?h := ?x])"
    using d(7) x(4) by (rule list_all_update)
  note next_h = rb_next_nat [OF ok(3) d(4)] and next_t = rb_next_nat [OF ok(3) d(3)]
  have len: "length item \<le> MaxItemSize ?c" using assms(2) by (simp add: isItemValid_def)
  let ?rb = "rb\<lparr>rb_items := (rb_items rb)[?h := ?x], rb_head := htobe32 (rb_next b (betoh32 (rb_head rb)))\<rparr>"
  show ?thesis
  proof (cases "length q = ?n")
    case True
    then have meet: "rb_head rb = rb_tail rb" "slot_size (rb_items rb ! ?t) \<noteq> 0" using rb_holds_meet(3) [OF assms(1)] by auto
    let ?rb' = "?rb\<lparr>rb_tail := htobe32 (rb_next b (betoh32 (rb_tail rb)))\<rparr>"
    have p: "rb_push b item rb = Some ?rb'" using assms(1) meet len by (simp add: rb_push_def Let_def)
    have at: "(rb_items rb)[?t := ?x] ! (((?t + 1) mod ?n + k) mod ?n) =
        (if Suc k = ?n then ?x else rb_items rb ! ((?t + Suc k) mod ?n))" if "k < ?n" for k
    proof (cases "Suc k = ?n")
      case True
      then have "(?t + Suc k) mod ?n = ?t" using d(3) by simp
      then show ?thesis using True d(3,5) unfolding ring_pos_Suc by simp
    next
      case False
      then show ?thesis using ring_update [of ?t ?n 0 "Suc k" "rb_items rb" ?x] d(3,5) ok(2) that
        unfolding ring_pos_Suc by simp
    qed
    have q: "length (tl q @ [item]) = ?n" using True ok(2) by simp
    have "rb_holds b ?rb' (tl q @ [item])"
      unfolding rb_holds_def rb_check_def Let_def
    proof (intro conjI allI impI)
      fix k assume k: "k < ?n"
      have "(tl q @ [item]) ! k = (if Suc k = ?n then item else q ! Suc k)"
        using True k by (auto simp: nth_append nth_tl)
      then show "if k < length (tl q @ [item])
        then slot_size (rb_items ?rb' ! ((unat (betoh32 (rb_tail ?rb')) + k) mod ?n)) \<noteq> 0 \<and>
          getItem ?c (rb_items ?rb' ! ((unat (betoh32 (rb_tail ?rb')) + k) mod ?n)) = (tl q @ [item]) ! k
        else slot_size (rb_items ?rb' ! ((unat (betoh32 (rb_tail ?rb')) + k) mod ?n)) = 0"
        using k q True x at [OF k] d(9,10) [of "Suc k"] meet(1) next_t by auto
    qed (use d(1,3,5) ok(2) all q next_h next_t meet(1) True in auto)
    then show ?thesis using p True by simp
  next
    case False
    have nf: "\<not> (rb_head rb = rb_tail rb \<and> slot_size (rb_items rb ! ?t) \<noteq> 0)"
      using rb_holds_meet(3) [OF assms(1)] False by blast
    then have p: "rb_push b item rb = Some ?rb" using assms(1) len by (auto simp: rb_push_def Let_def)
    have lq: "length q < ?n" using d(6) False by simp
    have "rb_holds b ?rb (q @ [item])"
      unfolding rb_holds_def rb_check_def Let_def
    proof (intro conjI allI impI)
      fix k assume k: "k < ?n"
      have "(rb_items rb)[?h := ?x] ! ((?t + k) mod ?n) = (if k = length q then ?x else rb_items rb ! ((?t + k) mod ?n))"
        unfolding d(8) by (rule ring_update [OF d(3) lq k d(5)])
      then show "if k < length (q @ [item])
        then slot_size (rb_items ?rb ! ((unat (betoh32 (rb_tail ?rb)) + k) mod ?n)) \<noteq> 0 \<and>
          getItem ?c (rb_items ?rb ! ((unat (betoh32 (rb_tail ?rb)) + k) mod ?n)) = (q @ [item]) ! k
        else slot_size (rb_items ?rb ! ((unat (betoh32 (rb_tail ?rb)) + k) mod ?n)) = 0"
        using k lq x d(9,10,11) [of k] by (auto simp: nth_append less_Suc_eq)
    qed (use d(1,3,5,8) ok(2) all lq next_h in \<open>auto simp: mod_Suc_eq\<close>)
    then show ?thesis using p False by auto
  qed
qed

text \<open>\<open>pop\<close> takes the oldest string.\<close>

lemma rb_pop_holds:
  assumes "rb_holds b rb q"
  shows "fst (rb_pop b rb) = (case q of [] \<Rightarrow> [] | x # _ \<Rightarrow> x) \<and> rb_holds b (snd (rb_pop b rb)) (tl q)"
proof (cases q)
  case Nil
  then show ?thesis using assms rb_holds_meet(2) [OF assms] by (simp add: rb_pop_def)
next
  case (Cons x0 q')
  let ?t = "unat (betoh32 (rb_tail rb))" and ?n = "rb_size b" and ?c = "rb_conf b"
  note d = rb_holdsD [OF assms]
  have ok: "0 < ?n" "?n < 2 ^ 32" using d(1) by (simp_all add: rb_ok_def)
  note next_t = rb_next_nat [OF ok(2) d(3)]
  let ?x = "rb_items rb ! ?t"
  have t0: "(?t + 0) mod ?n = ?t" using d(3) by simp
  have ne: "\<not> (rb_head rb = rb_tail rb \<and> slot_size ?x = 0)" using rb_holds_meet(2) [OF assms] Cons by auto
  let ?rb = "rb\<lparr>rb_items := (rb_items rb)[?t := ?x\<lparr>slot_size := 0\<rparr>], rb_tail := htobe32 (rb_next b (betoh32 (rb_tail rb)))\<rparr>"
  have p: "rb_pop b rb = (getItem ?c ?x, ?rb)" using assms ne by (auto simp: rb_pop_def Let_def)
  have g: "getItem ?c ?x = x0" using d(10) [of 0] t0 Cons by simp
  have wf: "slot_wf ?c ?x" using d(3,5,7) by (simp add: list_all_length)
  have all: "list_all (slot_wf ?c) ((rb_items rb)[?t := ?x\<lparr>slot_size := 0\<rparr>])"
    using d(7) wf by (intro list_all_update) (simp_all add: slot_wf_def)
  have "rb_holds b ?rb q'"
    unfolding rb_holds_def rb_check_def Let_def
  proof (intro conjI allI impI)
    fix k assume k: "k < ?n"
    have at: "(rb_items rb)[?t := ?x\<lparr>slot_size := 0\<rparr>] ! (((?t + 1) mod ?n + k) mod ?n) =
        (if Suc k = ?n then ?x\<lparr>slot_size := 0\<rparr> else rb_items rb ! ((?t + Suc k) mod ?n))"
    proof (cases "Suc k = ?n")
      case True
      then have "(?t + Suc k) mod ?n = ?t" using d(3) by simp
      then show ?thesis using True d(3,5) unfolding ring_pos_Suc by simp
    next
      case False
      then show ?thesis using ring_update [of ?t ?n 0 "Suc k" "rb_items rb" "?x\<lparr>slot_size := 0\<rparr>"] d(3,5) ok(1) k
        unfolding ring_pos_Suc by simp
    qed
    show "if k < length q'
      then slot_size (rb_items ?rb ! ((unat (betoh32 (rb_tail ?rb)) + k) mod ?n)) \<noteq> 0 \<and>
        getItem ?c (rb_items ?rb ! ((unat (betoh32 (rb_tail ?rb)) + k) mod ?n)) = q' ! k
      else slot_size (rb_items ?rb ! ((unat (betoh32 (rb_tail ?rb)) + k) mod ?n)) = 0"
      using k at d(6) d(9,10,11) [of "Suc k"] Cons next_t by auto
  qed (use d(1,2,3,4,5,6,8) ok(1) all next_t Cons ring_pos_Suc [of ?t ?n "length q'"] in \<open>auto simp: rb_check_def mod_Suc_eq\<close>)
  then show ?thesis using p g Cons by simp
qed

text \<open>Reading does not depend on where the queue lies.\<close>

lemma rb_count_holds:
  assumes "rb_holds b rb q"
  shows "rb_count b rb = length q"
proof -
  let ?t = "unat (betoh32 (rb_tail rb))" and ?h = "unat (betoh32 (rb_head rb))" and ?n = "rb_size b"
  note d = rb_holdsD [OF assms]
  note m = rb_holds_meet [OF assms]
  show ?thesis
  proof (cases "rb_head rb = rb_tail rb")
    case True
    let ?z = "slot_size (rb_items rb ! ?t) = 0"
    have "?z \<longrightarrow> length q = 0" "\<not> ?z \<longrightarrow> length q = ?n" using m(2,3) True by blast+
    then show ?thesis using True d(2) by (cases ?z) (simp_all add: rb_count_def)
  next
    case False
    then have q: "0 < length q" "length q < ?n" using m(1) d(6) by auto
    have pos: "?h = (if ?t + length q < ?n then ?t + length q else ?t + length q - ?n)"
      using d(3,8) q ring_pos [of ?t ?n "length q"] by simp
    have "betoh32 (rb_tail rb) < betoh32 (rb_head rb) \<longleftrightarrow> ?t < ?h" by (simp add: word_less_nat_alt)
    then show ?thesis using False d(2,3) q pos unat_sub [of "betoh32 (rb_tail rb)" "betoh32 (rb_head rb)"]
      by (auto simp: rb_count_def Let_def word_le_nat_alt split: if_splits)
  qed
qed

lemma rb_walk_holds:
  assumes "rb_holds b rb q" "k + steps \<le> length q" "unat i = (unat (betoh32 (rb_tail rb)) + k) mod rb_size b"
  shows "rb_walk steps b rb i = take steps (drop k q)"
  using assms(2,3)
proof (induction steps arbitrary: k i)
  case (Suc steps)
  note d = rb_holdsD [OF assms(1)]
  have n: "0 < rb_size b" "rb_size b < 2 ^ 32" using d(1) by (simp_all add: rb_ok_def)
  then have "unat i < rb_size b" using Suc.prems(2) by simp
  then have "unat (rb_next b i) = (unat (betoh32 (rb_tail rb)) + Suc k) mod rb_size b"
    using rb_next_nat [OF n(2)] Suc.prems(2) by (simp add: mod_Suc_eq)
  with Suc.IH [of "Suc k"] Suc.prems d(10) [of k] show ?case
    by (simp add: Cons_nth_drop_Suc [symmetric])
qed simp

lemma rb_for_each_holds:
  assumes "rb_holds b rb q"
  shows "rb_for_each b rb = q"
proof -
  note d = rb_holdsD [OF assms]
  have "rb_walk (length q) b rb (betoh32 (rb_tail rb)) = q"
    using rb_walk_holds [OF assms, of 0 "length q" "betoh32 (rb_tail rb)"] d(3) by simp
  then show ?thesis using d(2) rb_count_holds [OF assms] rb_holds_meet(2) [OF assms]
    by (auto simp: rb_for_each_def Let_def)
qed

lemma rb_holds_empty: "rb_ok b \<Longrightarrow> rb_holds b (rb_clear_memory b) []"
  by (auto simp: rb_holds_def rb_check_def rb_clear_memory_def rb_ok_def list_all_length endian_defs Let_def)

section \<open>Runs\<close>

text \<open>The bounded queue as a specification.\<close>

datatype rb_op = Push str | Pop

fun queue_step :: "nat \<Rightarrow> rb_op \<Rightarrow> str list \<Rightarrow> str list" where
  "queue_step n (Push item) q = (if length q = n then tl q else q) @ [item]"
| "queue_step n Pop q = tl q"

fun rb_step :: "RawRingBuffer \<Rightarrow> rb_op \<Rightarrow> RingList \<Rightarrow> RingList option" where
  "rb_step b (Push item) rb = rb_push b item rb"
| "rb_step b Pop rb = Some (snd (rb_pop b rb))"

fun rb_run :: "RawRingBuffer \<Rightarrow> rb_op list \<Rightarrow> RingList \<Rightarrow> RingList option" where
  "rb_run b [] rb = Some rb"
| "rb_run b (op # ops) rb = Option.bind (rb_step b op rb) (rb_run b ops)"

fun rb_op_ok :: "RawRingBuffer \<Rightarrow> rb_op \<Rightarrow> bool" where
  "rb_op_ok b (Push item) = isItemValid (rb_conf b) item"
| "rb_op_ok b Pop = True"

lemma rb_step_holds:
  assumes "rb_holds b rb q" "rb_op_ok b op"
  shows "\<exists>rb'. rb_step b op rb = Some rb' \<and> rb_holds b rb' (queue_step (rb_size b) op q)"
  using assms rb_push_holds [OF assms(1)] rb_pop_holds [OF assms(1)] by (cases op) auto

lemma rb_run_holds:
  assumes "rb_holds b rb q" "list_all (rb_op_ok b) ops"
  shows "\<exists>rb'. rb_run b ops rb = Some rb' \<and> rb_holds b rb' (fold (queue_step (rb_size b)) ops q)"
  using assms
proof (induction ops arbitrary: rb q)
  case (Cons op ops)
  then obtain rb1 where "rb_step b op rb = Some rb1" "rb_holds b rb1 (queue_step (rb_size b) op q)"
    using rb_step_holds by fastforce
  with Cons show ?case by simp
qed simp

section \<open>Properties\<close>

text \<open>
  C32: the ring buffer is a bounded queue.  After any sequence of pushes, of valid items, and pops on a zeroed
  value the iteration gives the strings of a queue that drops its oldest string when it is full, oldest first,
  the count is their number, and the next pop returns the oldest; no operation fails, wherever the indexes
  have wrapped.
\<close>

theorem ring_buffer_is_queue:
  assumes "rb_ok b" "list_all (rb_op_ok b) ops"
  shows "\<exists>rb. rb_run b ops (rb_clear_memory b) = Some rb \<and>
    rb_for_each b rb = fold (queue_step (rb_size b)) ops [] \<and>
    rb_count b rb = length (fold (queue_step (rb_size b)) ops []) \<and>
    fst (rb_pop b rb) = (case fold (queue_step (rb_size b)) ops [] of [] \<Rightarrow> [] | x # _ \<Rightarrow> x)"
proof -
  obtain rb where r: "rb_run b ops (rb_clear_memory b) = Some rb" "rb_holds b rb (fold (queue_step (rb_size b)) ops [])"
    using rb_run_holds [OF rb_holds_empty [OF assms(1)] assms(2)] by blast
  show ?thesis
    by (rule exI [of _ rb]) (simp add: r rb_for_each_holds [OF r(2)] rb_count_holds [OF r(2)] rb_pop_holds [OF r(2)])
qed

theorem ring_buffer_is_queue_witness:
  "\<exists>rb. rb_run \<lparr>rb_size = 2, rb_conf = \<lparr>SizeBits = 8, MaxItemSize = 15\<rparr>\<rparr> [Push [97], Push [98], Push [99]]
      (rb_clear_memory \<lparr>rb_size = 2, rb_conf = \<lparr>SizeBits = 8, MaxItemSize = 15\<rparr>\<rparr>) = Some rb \<and>
    rb_for_each \<lparr>rb_size = 2, rb_conf = \<lparr>SizeBits = 8, MaxItemSize = 15\<rparr>\<rparr> rb = [[98], [99]]"
  using ring_buffer_is_queue [of "\<lparr>rb_size = 2, rb_conf = \<lparr>SizeBits = 8, MaxItemSize = 15\<rparr>\<rparr>" "[Push [97], Push [98], Push [99]]"]
  by (auto simp: rb_ok_def conf_ok_def isItemValid_def)

text \<open>
  \<open>clear\<close> frees only the first slot.  When it is applied to a value with damaged indexes and strings in
  the other slots, the buffer looks full again after one push and one pop.
\<close>

lemma ring_buffer_clear_stale:
  defines "b \<equiv> \<lparr>rb_size = 2, rb_conf = \<lparr>SizeBits = 8, MaxItemSize = 1\<rparr>\<rparr>"
  defines "rb \<equiv> \<lparr>rb_head = htobe32 7, rb_tail = 0,
    rb_items = [\<lparr>slot_size = 1, slot_item = [97]\<rparr>, \<lparr>slot_size = 1, slot_item = [97]\<rparr>]\<rparr>"
  shows "map_option (\<lambda>rb. rb_count b (snd (rb_pop b rb))) (rb_push b [98] rb) = Some 2"
  by (simp add: b_def rb_def rb_push_def rb_pop_def rb_count_def rb_checkSet_def rb_check_def rb_clear_def rb_next_def
      setItem_def getItem_def Let_def)

end
