(* ===== verification/MisraGries.thy ===== *)
theory MisraGries
  imports ItemSlot
begin

text \<open>
  \<^verbatim>\<open>include/misragries.h\<close>: the Misra-Gries counters for the frequent items of a stream, inside the value
  of a pair.  A score of zero marks a free slot.  The assertion of \<open>setItem\<close>, that the string fits, is
  what \<open>isItemValid\<close> guards in the commands, and a hypothesis here.
\<close>

section \<open>The code\<close>

text \<open>The score is stored big endian.\<close>

record MGItem =
  mg_score :: u64
  mg_slot :: ItemSlot

definition mg_bool :: "MGItem \<Rightarrow> bool" where
  "mg_bool x \<longleftrightarrow> mg_score x \<noteq> 0"

definition mg_setScore :: "u64 \<Rightarrow> MGItem \<Rightarrow> MGItem" where
  "mg_setScore score x = x\<lparr>mg_score := htobe64 score\<rparr>"

definition mg_getScore :: "MGItem \<Rightarrow> u64" where
  "mg_getScore x = betoh64 (mg_score x)"

definition mg_getItem :: "slot_conf \<Rightarrow> MGItem \<Rightarrow> str" where
  "mg_getItem c x = getItem c (mg_slot x)"

definition mg_cmpItem :: "slot_conf \<Rightarrow> str \<Rightarrow> MGItem \<Rightarrow> bool" where
  "mg_cmpItem c s x \<longleftrightarrow> s = mg_getItem c x"

definition mg_setItem :: "slot_conf \<Rightarrow> str \<Rightarrow> MGItem \<Rightarrow> u64 \<times> MGItem" where
  "mg_setItem c sv x = (1, \<lparr>mg_score = htobe64 1, mg_slot = setItem c sv (mg_slot x)\<rparr>)"

definition mg_incr :: "MGItem \<Rightarrow> u64 \<times> MGItem" where
  "mg_incr x =
     (if mg_score x = htobe64 0xFFFFFFFFFFFFFFFF then (0xFFFFFFFFFFFFFFFF, x)
      else (let s = mg_getScore x + 1 in (s, mg_setScore s x)))"

definition mg_decr :: "MGItem \<Rightarrow> MGItem" where
  "mg_decr x =
     (if mg_score x = htobe64 0 then x
      else if mg_score x = htobe64 1 then x\<lparr>mg_score := 0\<rparr>
      else mg_setScore (mg_getScore x - 1) x)"

definition mg_clear :: "slot_conf \<Rightarrow> nat \<Rightarrow> MGItem list" where
  "mg_clear c n = replicate n \<lparr>mg_score = 0, mg_slot = slot_zero c\<rparr>"

text \<open>The loop over the slots: the slot of the item, or the last free slot (\<open>None\<close> is \<open>NOT_FOUND\<close>).\<close>

fun mg_scan :: "slot_conf \<Rightarrow> str \<Rightarrow> nat \<Rightarrow> nat option \<Rightarrow> MGItem list \<Rightarrow> nat + nat option" where
  "mg_scan c item i indexEmptySlot [] = Inr indexEmptySlot"
| "mg_scan c item i indexEmptySlot (x # xs) =
     (if \<not> mg_bool x then mg_scan c item (Suc i) (Some i) xs
      else if mg_cmpItem c item x then Inl i
      else mg_scan c item (Suc i) indexEmptySlot xs)"

definition mg_add :: "slot_conf \<Rightarrow> str \<Rightarrow> MGItem list \<Rightarrow> u64 \<times> MGItem list" where
  "mg_add c item mg =
     (case mg_scan c item 0 None mg of
        Inl i \<Rightarrow> (let (r, x) = mg_incr (mg ! i) in (r, mg[i := x]))
      | Inr (Some i) \<Rightarrow> (let (r, x) = mg_setItem c item (mg ! i) in (r, mg[i := x]))
      | Inr None \<Rightarrow> (0, map mg_decr mg))"

section \<open>The counters bound the frequencies\<close>

lemma mg_scan_cases:
  assumes "mg_scan c item i e xs = r" "\<And>j. e = Some j \<Longrightarrow> j < i"
  shows "(\<exists>j. r = Inl (i + j) \<and> j < length xs \<and> mg_bool (xs ! j) \<and> mg_getItem c (xs ! j) = item) \<or>
    ((\<forall>x \<in> set xs. mg_bool x \<longrightarrow> mg_getItem c x \<noteq> item) \<and>
     ((\<exists>j. r = Inr (Some (i + j)) \<and> j < length xs \<and> \<not> mg_bool (xs ! j)) \<or>
      (r = Inr e \<and> (\<forall>x \<in> set xs. mg_bool x))))"
  using assms
proof (induction xs arbitrary: i e)
  case (Cons x xs)
  let ?P = "\<lambda>i e xs. (\<exists>j. r = Inl (i + j) \<and> j < length xs \<and> mg_bool (xs ! j) \<and> mg_getItem c (xs ! j) = item) \<or>
    ((\<forall>x \<in> set xs. mg_bool x \<longrightarrow> mg_getItem c x \<noteq> item) \<and>
     ((\<exists>j. r = Inr (Some (i + j)) \<and> j < length xs \<and> \<not> mg_bool (xs ! j)) \<or>
      (r = Inr e \<and> (\<forall>x \<in> set xs. mg_bool x))))"
  have step: "?P i e (x # xs)"
    if "?P (Suc i) e' xs" "e' = e \<and> mg_bool x \<and> mg_getItem c x \<noteq> item \<or> e' = Some i \<and> \<not> mg_bool x" for e'
    using that
  proof (elim disjE conjE exE)
    fix j assume "r = Inl (Suc i + j)" "j < length xs" "mg_bool (xs ! j)" "mg_getItem c (xs ! j) = item"
    then show ?thesis by (intro disjI1 exI [of _ "Suc j"]) simp
  next
    fix j assume "r = Inr (Some (Suc i + j))" "j < length xs" "\<not> mg_bool (xs ! j)"
      "\<forall>x \<in> set xs. mg_bool x \<longrightarrow> mg_getItem c x \<noteq> item"
      and "e' = e" "mg_bool x" "mg_getItem c x \<noteq> item"
    then show ?thesis by (intro disjI2 conjI disjI1 exI [of _ "Suc j"]) simp_all
  next
    fix j assume "r = Inr (Some (Suc i + j))" "j < length xs" "\<not> mg_bool (xs ! j)"
      "\<forall>x \<in> set xs. mg_bool x \<longrightarrow> mg_getItem c x \<noteq> item"
      and "e' = Some i" "\<not> mg_bool x"
    then show ?thesis by (intro disjI2 conjI disjI1 exI [of _ "Suc j"]) simp_all
  qed auto
  show ?case
  proof (cases "mg_bool x \<and> mg_getItem c x = item")
    case True
    then show ?thesis using Cons.prems(1) by (auto simp: mg_cmpItem_def)
  next
    case False
    let ?e = "if mg_bool x then e else Some i"
    have r: "mg_scan c item (Suc i) ?e xs = r" using Cons.prems(1) False by (auto simp: mg_cmpItem_def split: if_splits)
    have "j < Suc i" if "?e = Some j" for j using that Cons.prems(2) [of j] by (auto split: if_splits)
    from Cons.IH [OF r this] show ?thesis using False by (intro step [of ?e]) auto
  qed
qed simp

text \<open>The scores as numbers; a slot that is in use.\<close>

definition mg_nat :: "MGItem \<Rightarrow> nat" where
  "mg_nat x = unat (mg_getScore x)"

lemma mg_bool_nat: "mg_bool x \<longleftrightarrow> mg_nat x \<noteq> 0"
  by (metis mg_bool_def mg_nat_def mg_getScore_def betoh_htobe(3) htobe_betoh(3) htobe_0(3) unat_eq_0)

lemma mg_decr_nat: "mg_nat (mg_decr x) = mg_nat x - 1" "mg_slot (mg_decr x) = mg_slot x"
proof -
  obtain s where s: "mg_score x = htobe64 s" by (metis htobe_betoh(3))
  have "unat (s - 1) = unat s - 1" if "s \<noteq> 0" using that by (simp add: unat_minus_one)
  then show "mg_nat (mg_decr x) = mg_nat x - 1"
    by (simp add: mg_decr_def mg_nat_def mg_setScore_def mg_getScore_def s)
  show "mg_slot (mg_decr x) = mg_slot x" by (simp add: mg_decr_def mg_setScore_def)
qed

lemma mg_incr_nat:
  assumes "mg_nat x < 2 ^ 64 - 1"
  shows "mg_nat (snd (mg_incr x)) = mg_nat x + 1" "mg_slot (snd (mg_incr x)) = mg_slot x"
proof -
  have "mg_getScore x \<noteq> 0xFFFFFFFFFFFFFFFF" using assms by (auto simp: mg_nat_def)
  then have "mg_score x \<noteq> htobe64 0xFFFFFFFFFFFFFFFF" by (auto simp: mg_getScore_def)
  then show "mg_slot (snd (mg_incr x)) = mg_slot x" "mg_nat (snd (mg_incr x)) = mg_nat x + 1"
    using assms unat_add_lem [of "mg_getScore x" 1]
    by (simp_all add: mg_incr_def Let_def mg_setScore_def mg_nat_def mg_getScore_def)
qed

text \<open>
  After the stream \<open>xs\<close>, with \<open>D\<close> rounds in which every counter was decreased.
\<close>

definition mg_inv :: "slot_conf \<Rightarrow> str list \<Rightarrow> nat \<Rightarrow> MGItem list \<Rightarrow> bool" where
  "mg_inv c xs D mg \<longleftrightarrow>
     (\<forall>x \<in> set mg. slot_wf c (mg_slot x)) \<and>
     (\<forall>i < length mg. \<forall>j < length mg. mg_bool (mg ! i) \<longrightarrow> mg_bool (mg ! j) \<longrightarrow>
        mg_getItem c (mg ! i) = mg_getItem c (mg ! j) \<longrightarrow> i = j) \<and>
     sum_list (map mg_nat mg) + D * (length mg + 1) = length xs \<and>
     (\<forall>x \<in> set mg. mg_bool x \<longrightarrow>
        mg_nat x \<le> count_list xs (mg_getItem c x) \<and> count_list xs (mg_getItem c x) \<le> mg_nat x + D) \<and>
     (\<forall>s. (\<forall>x \<in> set mg. mg_bool x \<longrightarrow> mg_getItem c x \<noteq> s) \<longrightarrow> count_list xs s \<le> D)"

text \<open>Two streams are compared through the counter of one item.\<close>

lemma mg_inv_add_same:
  assumes "mg_inv c xs D mg" "i < length mg" "mg_nat y = mg_nat (mg ! i) + 1" "slot_wf c (mg_slot y)"
    and "mg_getItem c y = item" "mg_bool (mg ! i) \<longrightarrow> mg_getItem c (mg ! i) = item"
    and "\<And>j. j < length mg \<Longrightarrow> j \<noteq> i \<Longrightarrow> mg_bool (mg ! j) \<Longrightarrow> mg_getItem c (mg ! j) \<noteq> item"
  shows "mg_inv c (xs @ [item]) D (mg[i := y])"
proof -
  note inv = assms(1) [unfolded mg_inv_def]
  have y: "mg_bool y" using assms(3) by (simp add: mg_bool_nat)
  have at: "x \<in> set (mg[i := y]) \<Longrightarrow> x = y \<or> (\<exists>j < length mg. j \<noteq> i \<and> x = mg ! j)" for x
    by (metis in_set_conv_nth length_list_update nth_list_update_eq nth_list_update_neq)
  have cnt: "mg_nat (mg ! i) \<le> count_list xs item \<and> count_list xs item \<le> mg_nat (mg ! i) + D"
  proof (cases "mg_bool (mg ! i)")
    case True
    then show ?thesis using inv assms(2,6) by auto
  next
    case False
    then have "mg_bool x \<longrightarrow> mg_getItem c x \<noteq> item" if "x \<in> set mg" for x
      using that assms(7) by (metis in_set_conv_nth)
    then show ?thesis using inv False by (auto simp: mg_bool_nat)
  qed
  show ?thesis unfolding mg_inv_def
  proof (intro conjI ballI allI impI)
    fix x assume "x \<in> set (mg[i := y])"
    then show "slot_wf c (mg_slot x)" using at inv assms(4) by fastforce
  next
    fix j k assume "j < length (mg[i := y])" "k < length (mg[i := y])" "mg_bool (mg[i := y] ! j)" "mg_bool (mg[i := y] ! k)"
      "mg_getItem c (mg[i := y] ! j) = mg_getItem c (mg[i := y] ! k)"
    then show "j = k" using inv assms(2,5) assms(7) [of j] assms(7) [of k] by (cases "j = i"; cases "k = i") simp_all
  next
    have "mg_nat (mg ! i) \<le> sum_list (map mg_nat mg)" using assms(2) by (intro member_le_sum_list) simp_all
    then show "sum_list (map mg_nat (mg[i := y])) + D * (length (mg[i := y]) + 1) = length (xs @ [item])"
      using inv assms(2,3) by (simp add: map_update sum_list_update)
  next
    fix x assume x: "x \<in> set (mg[i := y])" "mg_bool x"
    have "x = y \<or> (x \<in> set mg \<and> mg_getItem c x \<noteq> item)" using at [OF x(1)] x(2) assms(7) by auto
    then show "mg_nat x \<le> count_list (xs @ [item]) (mg_getItem c x)"
      "count_list (xs @ [item]) (mg_getItem c x) \<le> mg_nat x + D"
      using x(2) cnt assms(3,5) inv by auto
  next
    fix s assume s: "\<forall>x \<in> set (mg[i := y]). mg_bool x \<longrightarrow> mg_getItem c x \<noteq> s"
    have "s \<noteq> item" using s y assms(2,5) by (metis set_update_memI)
    moreover have "mg_bool x \<longrightarrow> mg_getItem c x \<noteq> s" if "x \<in> set mg" for x
    proof (cases "x = mg ! i")
      case True
      then show ?thesis using assms(6) \<open>s \<noteq> item\<close> by auto
    next
      case False
      then have "x \<in> set (mg[i := y])" using that by (metis in_set_conv_nth length_list_update nth_list_update_neq)
      then show ?thesis using s by blast
    qed
    ultimately show "count_list (xs @ [item]) s \<le> D" using inv by simp
  qed
qed

lemma mg_inv_add_new:
  assumes "mg_inv c xs D mg" "\<forall>x \<in> set mg. mg_bool x \<and> mg_getItem c x \<noteq> item"
  shows "mg_inv c (xs @ [item]) (Suc D) (map mg_decr mg)"
proof -
  note inv = assms(1) [unfolded mg_inv_def]
  have it [simp]: "mg_getItem c (mg_decr x) = mg_getItem c x" for x by (simp add: mg_getItem_def mg_decr_nat)
  have "sum_list (map mg_nat mg) = sum_list (map (mg_nat \<circ> mg_decr) mg) + length mg"
    using assms(2) by (induction mg) (auto simp: mg_decr_nat mg_bool_nat)
  then have sum: "sum_list (map mg_nat (map mg_decr mg)) + Suc D * (length (map mg_decr mg) + 1) = length (xs @ [item])"
    using inv by simp
  show ?thesis unfolding mg_inv_def
  proof (intro conjI ballI allI impI sum)
    fix x assume "x \<in> set (map mg_decr mg)"
    then show "slot_wf c (mg_slot x)" using inv by (auto simp: mg_decr_nat)
  next
    fix j k assume "j < length (map mg_decr mg)" "k < length (map mg_decr mg)"
      "mg_getItem c (map mg_decr mg ! j) = mg_getItem c (map mg_decr mg ! k)"
    then show "j = k" using inv assms(2) by auto
  next
    fix x assume "x \<in> set (map mg_decr mg)" "mg_bool x"
    then obtain y where "y \<in> set mg" "x = mg_decr y" by auto
    then show "mg_nat x \<le> count_list (xs @ [item]) (mg_getItem c x)"
      "count_list (xs @ [item]) (mg_getItem c x) \<le> mg_nat x + Suc D"
      using inv assms(2) by (auto simp: mg_decr_nat mg_bool_nat)
  next
    fix s assume s: "\<forall>x \<in> set (map mg_decr mg). mg_bool x \<longrightarrow> mg_getItem c x \<noteq> s"
    show "count_list (xs @ [item]) s \<le> Suc D"
    proof (cases "\<exists>y \<in> set mg. mg_getItem c y = s")
      case True
      then obtain y where y: "y \<in> set mg" "mg_getItem c y = s" by blast
      then have "mg_nat (mg_decr y) = 0" using s by (auto simp: mg_bool_nat)
      moreover have "count_list xs s \<le> mg_nat y + D" "mg_nat y \<noteq> 0" "s \<noteq> item"
        using inv assms(2) y by (auto simp: mg_bool_nat)
      ultimately show ?thesis by (simp add: mg_decr_nat)
    next
      case False
      then show ?thesis using inv by (auto simp: le_SucI)
    qed
  qed
qed

lemma mg_add_inv:
  assumes "conf_ok c" "isItemValid c item" "mg_inv c xs D mg" "length xs < 2 ^ 64 - 1"
  shows "\<exists>D'. mg_inv c (xs @ [item]) D' (snd (mg_add c item mg))"
proof -
  note inv = assms(3) [unfolded mg_inv_def]
  have small: "mg_nat x < 2 ^ 64 - 1" if "x \<in> set mg" for x
    using that inv assms(4) member_le_sum_list [of "mg_nat x" "map mg_nat mg"] by simp
  have wf: "slot_wf c (mg_slot (mg ! j))" if "j < length mg" for j using inv that by simp
  have "(\<exists>j. mg_scan c item 0 None mg = Inl (0 + j) \<and> j < length mg \<and> mg_bool (mg ! j) \<and> mg_getItem c (mg ! j) = item) \<or>
    ((\<forall>x \<in> set mg. mg_bool x \<longrightarrow> mg_getItem c x \<noteq> item) \<and>
     ((\<exists>j. mg_scan c item 0 None mg = Inr (Some (0 + j)) \<and> j < length mg \<and> \<not> mg_bool (mg ! j)) \<or>
      (mg_scan c item 0 None mg = Inr None \<and> (\<forall>x \<in> set mg. mg_bool x))))"
    by (rule mg_scan_cases [OF refl]) simp
  then show ?thesis
  proof (elim disjE conjE exE)
    fix j assume j: "mg_scan c item 0 None mg = Inl (0 + j)" "j < length mg" "mg_bool (mg ! j)" "mg_getItem c (mg ! j) = item"
    note n = mg_incr_nat [OF small, of "mg ! j"]
    have "mg_inv c (xs @ [item]) D (mg[j := snd (mg_incr (mg ! j))])"
      using j inv n wf [of j] by (intro mg_inv_add_same assms(3)) (auto simp: mg_getItem_def)
    then show ?thesis using j by (auto simp: mg_add_def split: prod.split)
  next
    fix j assume j: "mg_scan c item 0 None mg = Inr (Some (0 + j))" "j < length mg" "\<not> mg_bool (mg ! j)"
      "\<forall>x \<in> set mg. mg_bool x \<longrightarrow> mg_getItem c x \<noteq> item"
    have "mg_inv c (xs @ [item]) D (mg[j := snd (mg_setItem c item (mg ! j))])"
      using j setItem_spec [OF assms(1,2) wf [OF j(2)]]
      by (intro mg_inv_add_same assms(3)) (auto simp: mg_setItem_def mg_getItem_def mg_bool_nat mg_nat_def mg_getScore_def)
    then show ?thesis using j by (auto simp: mg_add_def mg_setItem_def)
  next
    assume "mg_scan c item 0 None mg = Inr None" "\<forall>x \<in> set mg. mg_bool x" "\<forall>x \<in> set mg. mg_bool x \<longrightarrow> mg_getItem c x \<noteq> item"
    then show ?thesis using mg_inv_add_new [OF assms(3)] by (auto simp: mg_add_def)
  qed
qed

definition mg_run :: "slot_conf \<Rightarrow> str list \<Rightarrow> MGItem list \<Rightarrow> MGItem list" where
  "mg_run c xs mg = fold (\<lambda>item mg. snd (mg_add c item mg)) xs mg"

lemma mg_clear_inv: "mg_inv c [] 0 (mg_clear c n)"
  by (auto simp: mg_inv_def mg_clear_def mg_bool_def mg_nat_def mg_getScore_def sum_list_replicate)

lemma mg_run_inv:
  assumes "conf_ok c" "list_all (isItemValid c) xs" "length xs < 2 ^ 64"
  shows "\<exists>D. mg_inv c xs D (mg_run c xs (mg_clear c n))"
  using assms(2,3)
proof (induction xs rule: rev_induct)
  case Nil
  then show ?case using mg_clear_inv by (auto simp: mg_run_def)
next
  case (snoc item xs)
  then obtain D where "mg_inv c xs D (mg_run c xs (mg_clear c n))" by auto
  from mg_add_inv [OF assms(1) _ this, of item] snoc.prems show ?case by (simp add: mg_run_def)
qed

lemma length_mg_run [simp]: "length (mg_run c xs mg) = length mg"
proof -
  have "length (snd (mg_add c item mg)) = length mg" for item mg
    by (auto simp: mg_add_def split: sum.splits option.splits prod.splits)
  then show ?thesis unfolding mg_run_def by (induction xs arbitrary: mg) auto
qed

section \<open>Properties\<close>

text \<open>
  C33: the counters bound the true frequencies.  After any stream of valid items into \<open>n\<close> zeroed slots
  each slot in use has a score that is at most the number of occurrences of its item and at most
  \<open>N / (n + 1)\<close> below it, no item has two slots, and every item that occurs more than \<open>N / (n + 1)\<close>
  times has a slot, for a stream of \<open>N\<close> items.\<close>

theorem misra_gries_bounds:
  assumes "conf_ok c" "list_all (isItemValid c) xs" "length xs < 2 ^ 64"
  shows "let mg = mg_run c xs (mg_clear c n) in
    (\<forall>x \<in> set mg. mg_bool x \<longrightarrow> unat (mg_getScore x) \<le> count_list xs (mg_getItem c x) \<and>
       count_list xs (mg_getItem c x) \<le> unat (mg_getScore x) + length xs div (n + 1)) \<and>
    distinct (map (mg_getItem c) (filter mg_bool mg)) \<and>
    (\<forall>s. length xs div (n + 1) < count_list xs s \<longrightarrow> (\<exists>x \<in> set mg. mg_bool x \<and> mg_getItem c x = s))"
proof -
  let ?mg = "mg_run c xs (mg_clear c n)"
  obtain D where D: "mg_inv c xs D ?mg" using mg_run_inv [OF assms] by blast
  then have "D * (n + 1) \<le> length xs" by (simp add: mg_inv_def mg_clear_def)
  then have le: "D \<le> length xs div (n + 1)" by (simp add: less_eq_div_iff_mult_less_eq)
  have "distinct (map (mg_getItem c) (filter mg_bool ?mg))"
    using D by (intro distinct_map_filterI) (simp add: mg_inv_def)
  then show ?thesis using D le unfolding Let_def mg_inv_def mg_nat_def by fastforce
qed

theorem misra_gries_bounds_witness:
  "\<exists>x \<in> set (mg_run \<lparr>SizeBits = 8, MaxItemSize = 15\<rparr> [[97], [98], [97 :: byte]] (mg_clear \<lparr>SizeBits = 8, MaxItemSize = 15\<rparr> 1)).
     mg_bool x \<and> mg_getItem \<lparr>SizeBits = 8, MaxItemSize = 15\<rparr> x = [97]"
proof -
  let ?c = "\<lparr>SizeBits = 8, MaxItemSize = 15\<rparr>" and ?xs = "[[97], [98], [97 :: byte]]"
  have "conf_ok ?c" "list_all (isItemValid ?c) ?xs" "length ?xs < 2 ^ 64" by (simp_all add: conf_ok_def isItemValid_def)
  note all = misra_gries_bounds [OF this, of 1, unfolded Let_def]
  have "length ?xs div (1 + 1) < count_list ?xs [97]" by code_simp
  then show ?thesis using all by blast
qed

end
