(* ===== verification/HeavyHitter.thy ===== *)
theory HeavyHitter
  imports ItemSlot
begin

text \<open>
  \<^verbatim>\<open>include/heavyhitter.h\<close>: a list of the items with the greatest (or least) scores, inside the value of
  a pair.  An item of size zero marks a free slot.  The assertion of \<open>setItem\<close>, that the string fits, is
  what \<open>isItemValid\<close> guards in the commands, and a hypothesis here.
\<close>

section \<open>The code\<close>

text \<open>The score, a signed number, is stored big endian.\<close>

record HHItem =
  hh_score :: u64
  hh_slot :: ItemSlot

definition hh_start :: "bool \<Rightarrow> u64" where
  "hh_start Up = (if Up then 0x7FFFFFFFFFFFFFFF else 0x8000000000000000)"

definition hh_comp :: "bool \<Rightarrow> u64 \<Rightarrow> u64 \<Rightarrow> bool" where
  "hh_comp Up a b = (if Up then sint a > sint b else sint a < sint b)"

definition hh_bool :: "HHItem \<Rightarrow> bool" where
  "hh_bool x \<longleftrightarrow> slot_size (hh_slot x) \<noteq> 0"

definition hh_getScore :: "HHItem \<Rightarrow> u64" where
  "hh_getScore x = betoh64 (hh_score x)"

definition hh_setScore :: "u64 \<Rightarrow> HHItem \<Rightarrow> HHItem" where
  "hh_setScore score x = x\<lparr>hh_score := htobe64 score\<rparr>"

definition hh_getItem :: "slot_conf \<Rightarrow> HHItem \<Rightarrow> str" where
  "hh_getItem c x = getItem c (hh_slot x)"

definition hh_setItem :: "slot_conf \<Rightarrow> str \<Rightarrow> HHItem \<Rightarrow> HHItem" where
  "hh_setItem c sv x = x\<lparr>hh_slot := setItem c sv (hh_slot x)\<rparr>"

definition hh_set :: "slot_conf \<Rightarrow> u64 \<Rightarrow> str \<Rightarrow> HHItem \<Rightarrow> HHItem" where
  "hh_set c score item x = hh_setItem c item (hh_setScore score x)"

definition hh_clear :: "slot_conf \<Rightarrow> nat \<Rightarrow> HHItem list" where
  "hh_clear c n = replicate n \<lparr>hh_score = 0, hh_slot = slot_zero c\<rparr>"

text \<open>
  The loop: the slot of the item, or the worst score with its slot and the last free slot.
\<close>

fun hh_scan ::
  "slot_conf \<Rightarrow> bool \<Rightarrow> str \<Rightarrow> nat \<Rightarrow> u64 \<Rightarrow> nat option \<Rightarrow> nat option \<Rightarrow> HHItem list \<Rightarrow> nat + (u64 \<times> nat option \<times> nat option)" where
  "hh_scan c Up item i minScore indexMinScore indexEmptySlot [] = Inr (minScore, indexMinScore, indexEmptySlot)"
| "hh_scan c Up item i minScore indexMinScore indexEmptySlot (x # xs) =
     (if \<not> hh_bool x then hh_scan c Up item (Suc i) minScore indexMinScore (Some i) xs
      else if item = hh_getItem c x then Inl i
      else if hh_comp Up minScore (hh_getScore x)
      then hh_scan c Up item (Suc i) (hh_getScore x) (Some i) indexEmptySlot xs
      else hh_scan c Up item (Suc i) minScore indexMinScore indexEmptySlot xs)"

definition hh_add :: "slot_conf \<Rightarrow> bool \<Rightarrow> str \<Rightarrow> u64 \<Rightarrow> HHItem list \<Rightarrow> bool \<times> HHItem list" where
  "hh_add c Up item score hh =
     (case hh_scan c Up item 0 (hh_start Up) None None hh of
        Inl i \<Rightarrow>
          if hh_comp Up score (hh_getScore (hh ! i)) then (True, hh[i := hh_setScore score (hh ! i)])
          else (False, hh)
      | Inr (minScore, indexMinScore, indexEmptySlot) \<Rightarrow>
          (case indexEmptySlot of
             Some i \<Rightarrow> (True, hh[i := hh_set c score item (hh ! i)])
           | None \<Rightarrow>
               (case indexMinScore of
                  Some i \<Rightarrow> if hh_comp Up score minScore then (True, hh[i := hh_set c score item (hh ! i)]) else (False, hh)
                | None \<Rightarrow> (False, hh))))"

definition hh_run :: "slot_conf \<Rightarrow> bool \<Rightarrow> (str \<times> u64) list \<Rightarrow> HHItem list \<Rightarrow> HHItem list" where
  "hh_run c Up xs hh = fold (\<lambda>(item, score) hh. snd (hh_add c Up item score hh)) xs hh"

section \<open>The list keeps the best\<close>

text \<open>The scores in the order of the comparator: a better score has a greater rank.\<close>

definition hh_rank :: "bool \<Rightarrow> u64 \<Rightarrow> int" where
  "hh_rank Up s = (if Up then sint s else - sint s)"

abbreviation item_rank :: "bool \<Rightarrow> HHItem \<Rightarrow> int" where
  "item_rank Up x \<equiv> hh_rank Up (hh_getScore x)"

lemma hh_comp_rank: "hh_comp Up a b \<longleftrightarrow> hh_rank Up b < hh_rank Up a"
  by (simp add: hh_comp_def hh_rank_def)

lemma hh_start_rank: "hh_rank Up s \<le> hh_rank Up (hh_start Up)"
proof -
  have "- (2 ^ 63) \<le> sint s" "sint s < 2 ^ 63" using sint_ge [of s] sint_lt [of s] by simp_all
  then show ?thesis by (simp add: hh_rank_def hh_start_def)
qed

lemma hh_scan_Inl:
  assumes "hh_scan c Up item i m im ie xs = Inl r"
  shows "\<exists>j. r = i + j \<and> j < length xs \<and> hh_bool (xs ! j) \<and> hh_getItem c (xs ! j) = item"
  using assms
proof (induction xs arbitrary: i m im ie)
  case (Cons x xs)
  show ?case
  proof (cases "hh_bool x \<and> item = hh_getItem c x")
    case True
    then show ?thesis using Cons.prems by auto
  next
    case False
    then obtain m' im' ie' where "hh_scan c Up item (Suc i) m' im' ie' xs = Inl r"
      using Cons.prems by (auto split: if_splits)
    from Cons.IH [OF this] show ?thesis by (metis add_Suc_shift length_Cons nth_Cons_Suc Suc_less_eq)
  qed
qed simp

text \<open>Without a hit: \<open>hh\<close> is the whole list, \<open>xs\<close> what is left of it.\<close>

definition hh_worst :: "bool \<Rightarrow> HHItem list \<Rightarrow> nat \<Rightarrow> u64 \<Rightarrow> nat option \<Rightarrow> nat option \<Rightarrow> bool" where
  "hh_worst Up hh i m im ie \<longleftrightarrow>
     (case im of None \<Rightarrow> m = hh_start Up | Some k \<Rightarrow> k < i \<and> hh_bool (hh ! k) \<and> hh_getScore (hh ! k) = m) \<and>
     (case ie of None \<Rightarrow> \<forall>k < i. hh_bool (hh ! k) | Some k \<Rightarrow> k < i \<and> \<not> hh_bool (hh ! k)) \<and>
     (\<forall>k < i. hh_bool (hh ! k) \<longrightarrow> hh_rank Up m \<le> item_rank Up (hh ! k))"

lemma hh_scan_Inr:
  assumes "hh_scan c Up item i m im ie (drop i hh) = Inr (m', im', ie')" "hh_worst Up hh i m im ie" "i \<le> length hh"
    and "\<forall>k < i. hh_bool (hh ! k) \<longrightarrow> hh_getItem c (hh ! k) \<noteq> item"
  shows "hh_worst Up hh (length hh) m' im' ie' \<and> (\<forall>x \<in> set hh. hh_bool x \<longrightarrow> hh_getItem c x \<noteq> item)"
  using assms
proof (induction "length hh - i" arbitrary: i m im ie)
  case 0
  then show ?case by (auto simp: in_set_conv_nth)
next
  case (Suc n)
  then have i: "i < length hh" by simp
  then have d: "drop i hh = hh ! i # drop (Suc i) hh" by (simp add: Cons_nth_drop_Suc)
  have n: "n = length hh - Suc i" "Suc i \<le> length hh" using Suc.hyps(2) i by simp_all
  note w = Suc.prems(2) [unfolded hh_worst_def]
  have go: ?case
    if "hh_scan c Up item (Suc i) m2 im2 ie2 (drop (Suc i) hh) = Inr (m', im', ie')" "hh_worst Up hh (Suc i) m2 im2 ie2"
      "hh_bool (hh ! i) \<longrightarrow> hh_getItem c (hh ! i) \<noteq> item" for m2 im2 ie2
    using Suc.hyps(1) [OF n(1) that(1,2) n(2)] Suc.prems(4) that(3) by (auto simp: less_Suc_eq)
  show ?case
  proof (cases "hh_bool (hh ! i)")
    case False
    then show ?thesis using Suc.prems(1) d w
      by (intro go [of m im "Some i"]) (auto simp: hh_worst_def less_Suc_eq split: option.splits)
  next
    case True
    then have ne: "hh_getItem c (hh ! i) \<noteq> item" using Suc.prems(1) d by auto
    show ?thesis
    proof (cases "hh_comp Up m (hh_getScore (hh ! i))")
      case comp: True
      then have r: "item_rank Up (hh ! i) < hh_rank Up m" by (simp add: hh_comp_rank)
      then show ?thesis using Suc.prems(1) d w True ne comp
        by (intro go [of "hh_getScore (hh ! i)" "Some i" ie])
           (auto simp: hh_worst_def less_Suc_eq split: option.splits intro: order.trans [OF order_less_imp_le])
    next
      case comp: False
      then have r: "hh_rank Up m \<le> item_rank Up (hh ! i)" by (simp add: hh_comp_rank)
      show ?thesis using Suc.prems(1) d w True ne comp r
        by (intro go [of m im ie]) (auto simp: hh_worst_def less_Suc_eq split: option.splits)
    qed
  qed
qed

text \<open>
  After the stream \<open>xs\<close>: each item of the list has its best score, and an item that is not in the list
  is not better than any that is, and then the list is full.
\<close>

definition hh_inv :: "slot_conf \<Rightarrow> bool \<Rightarrow> (str \<times> u64) list \<Rightarrow> HHItem list \<Rightarrow> bool" where
  "hh_inv c Up xs hh \<longleftrightarrow>
     (\<forall>x \<in> set hh. slot_wf c (hh_slot x)) \<and>
     (\<forall>i < length hh. \<forall>j < length hh. hh_bool (hh ! i) \<longrightarrow> hh_bool (hh ! j) \<longrightarrow>
        hh_getItem c (hh ! i) = hh_getItem c (hh ! j) \<longrightarrow> i = j) \<and>
     (\<forall>x \<in> set hh. hh_bool x \<longrightarrow> (hh_getItem c x, hh_getScore x) \<in> set xs \<and>
        (\<forall>s. (hh_getItem c x, s) \<in> set xs \<longrightarrow> hh_rank Up s \<le> item_rank Up x)) \<and>
     (\<forall>(t, s) \<in> set xs. (\<exists>x \<in> set hh. hh_bool x \<and> hh_getItem c x = t) \<or>
        (\<forall>x \<in> set hh. hh_bool x \<and> hh_rank Up s \<le> item_rank Up x))"

text \<open>Nothing is stored: the new score is not better than what is there.\<close>

lemma hh_inv_skip:
  assumes "hh_inv c Up xs hh"
    and "(\<exists>x \<in> set hh. hh_bool x \<and> hh_getItem c x = item \<and> hh_rank Up score \<le> item_rank Up x) \<or>
      (\<forall>x \<in> set hh. hh_bool x \<and> hh_getItem c x \<noteq> item \<and> hh_rank Up score \<le> item_rank Up x)"
  shows "hh_inv c Up (xs @ [(item, score)]) hh"
proof -
  note inv = assms(1) [unfolded hh_inv_def]
  have "hh_rank Up score \<le> item_rank Up x" if x: "x \<in> set hh" "hh_bool x" "hh_getItem c x = item" for x
    using assms(2)
  proof
    assume "\<exists>y \<in> set hh. hh_bool y \<and> hh_getItem c y = item \<and> hh_rank Up score \<le> item_rank Up y"
    then obtain y where y: "y \<in> set hh" "hh_bool y" "hh_getItem c y = item" "hh_rank Up score \<le> item_rank Up y" by blast
    obtain i j where ij: "i < length hh" "x = hh ! i" "j < length hh" "y = hh ! j"
      using x(1) y(1) by (metis in_set_conv_nth)
    then have "i = j" using inv x y by simp
    then show ?thesis using y ij by simp
  qed (use x in auto)
  then show ?thesis using inv assms(2) unfolding hh_inv_def by (auto simp: case_prod_beta)
qed

text \<open>
  A slot is written with the item: its own with a better score, a free one, or the worst of a full
  list.
\<close>

lemma hh_inv_write:
  assumes "hh_inv c Up xs hh" "i < length hh" "hh_bool y" "hh_getItem c y = item" "hh_getScore y = score" "slot_wf c (hh_slot y)"
    and other: "\<And>j. j < length hh \<Longrightarrow> j \<noteq> i \<Longrightarrow> hh_bool (hh ! j) \<Longrightarrow> hh_getItem c (hh ! j) \<noteq> item"
    and slot: "\<not> hh_bool (hh ! i) \<or> item_rank Up (hh ! i) < hh_rank Up score \<and>
      (hh_getItem c (hh ! i) = item \<or> (\<forall>x \<in> set hh. hh_bool x \<and> item_rank Up (hh ! i) \<le> item_rank Up x))"
  shows "hh_inv c Up (xs @ [(item, score)]) (hh[i := y])"
proof -
  note inv = assms(1) [unfolded hh_inv_def]
  let ?h = "hh[i := y]"
  have at: "x = y \<or> (\<exists>j < length hh. j \<noteq> i \<and> x = hh ! j)" if "x \<in> set ?h" for x
    using that by (metis in_set_conv_nth length_list_update nth_list_update_eq nth_list_update_neq)
  have y_in: "y \<in> set ?h" using assms(2) by (rule set_update_memI)
  have keep: "x \<in> set ?h" if "x \<in> set hh" "x \<noteq> hh ! i" for x
    using that by (metis in_set_conv_nth length_list_update nth_list_update_neq)
  have old: "hh ! i \<in> set hh" using assms(2) by simp
  have best: "hh_rank Up s \<le> hh_rank Up score" if s: "(item, s) \<in> set xs" for s
  proof (cases "\<exists>x \<in> set hh. hh_bool x \<and> hh_getItem c x = item")
    case True
    then obtain j where j: "j < length hh" "hh_bool (hh ! j)" "hh_getItem c (hh ! j) = item" by (auto simp: in_set_conv_nth)
    then have "j = i" using other by blast
    then show ?thesis using slot j inv s old by fastforce
  next
    case False
    then have "\<forall>x \<in> set hh. hh_bool x \<and> hh_rank Up s \<le> item_rank Up x" using inv s by fastforce
    then show ?thesis using slot old by fastforce
  qed
  show ?thesis unfolding hh_inv_def
  proof (intro conjI ballI allI impI)
    fix x assume "x \<in> set ?h"
    then show "slot_wf c (hh_slot x)" using at inv assms(6) by fastforce
  next
    fix j k assume "j < length ?h" "k < length ?h" "hh_bool (?h ! j)" "hh_bool (?h ! k)" "hh_getItem c (?h ! j) = hh_getItem c (?h ! k)"
    then show "j = k" using inv assms(2,4) other [of j] other [of k] by (cases "j = i"; cases "k = i") simp_all
  next
    fix x assume x: "x \<in> set ?h" "hh_bool x"
    have c: "x = y \<or> (x \<in> set hh \<and> hh_getItem c x \<noteq> item)" using at [OF x(1)] x(2) other by auto
    show "(hh_getItem c x, hh_getScore x) \<in> set (xs @ [(item, score)])" using c x(2) assms(4,5) inv by auto
    fix s assume "(hh_getItem c x, s) \<in> set (xs @ [(item, score)])"
    then show "hh_rank Up s \<le> item_rank Up x" using c x(2) assms(4,5) inv best by auto
  next
    fix z assume z: "z \<in> set (xs @ [(item, score)])"
    obtain t s where ts: "z = (t, s)" by (cases z)
    have "(\<exists>x \<in> set ?h. hh_bool x \<and> hh_getItem c x = t) \<or> (\<forall>x \<in> set ?h. hh_bool x \<and> hh_rank Up s \<le> item_rank Up x)"
    proof (cases "t = item")
      case True
      then show ?thesis using y_in assms(3,4) by blast
    next
      case False
      then have xs: "(t, s) \<in> set xs" using z ts by auto
      show ?thesis
      proof (cases "\<exists>x \<in> set hh. hh_bool x \<and> hh_getItem c x = t \<and> x \<noteq> hh ! i")
        case True
        then show ?thesis using keep by blast
      next
        case not_in: False
        have "\<forall>x \<in> set hh. hh_bool x \<and> hh_rank Up s \<le> item_rank Up x"
        proof (cases "\<exists>x \<in> set hh. hh_bool x \<and> hh_getItem c x = t")
          case True
          then have e: "hh_bool (hh ! i)" "hh_getItem c (hh ! i) = t" using not_in by auto
          then have "hh_rank Up s \<le> item_rank Up (hh ! i)" using inv old xs by blast
          then show ?thesis using slot e False by (meson order.trans)
        next
          case none: False
          then show ?thesis using inv xs by fastforce
        qed
        moreover then have "hh_rank Up s \<le> hh_rank Up score" using slot old by fastforce
        ultimately show ?thesis using at assms(3,5) by (metis nth_mem)
      qed
    qed
    then show "case z of (t, s) \<Rightarrow> (\<exists>x \<in> set ?h. hh_bool x \<and> hh_getItem c x = t) \<or>
        (\<forall>x \<in> set ?h. hh_bool x \<and> hh_rank Up s \<le> item_rank Up x)" by (simp add: ts)
  qed
qed

lemma hh_add_inv:
  assumes "conf_ok c" "isItemValid c item" "hh_inv c Up xs hh"
  shows "hh_inv c Up (xs @ [(item, score)]) (snd (hh_add c Up item score hh))"
proof -
  note inv = assms(3) [unfolded hh_inv_def]
  have wf: "slot_wf c (hh_slot (hh ! j))" if "j < length hh" for j using inv that by simp
  have set_ok: "hh_bool (hh_set c score item (hh ! j))" "hh_getItem c (hh_set c score item (hh ! j)) = item"
    "hh_getScore (hh_set c score item (hh ! j)) = score" "slot_wf c (hh_slot (hh_set c score item (hh ! j)))"
    if "j < length hh" for j
    using setItem_spec [OF assms(1,2) wf [OF that]]
    by (simp_all add: hh_set_def hh_setItem_def hh_setScore_def hh_bool_def hh_getItem_def hh_getScore_def)
  show ?thesis
  proof (cases "hh_scan c Up item 0 (hh_start Up) None None hh")
    case (Inl i)
    then have i: "i < length hh" "hh_bool (hh ! i)" "hh_getItem c (hh ! i) = item" using hh_scan_Inl by force+
    show ?thesis
    proof (cases "hh_comp Up score (hh_getScore (hh ! i))")
      case True
      have "hh_inv c Up (xs @ [(item, score)]) (hh[i := hh_setScore score (hh ! i)])"
        using i wf [of i] inv True
        by (intro hh_inv_write assms(3))
           (auto simp: hh_setScore_def hh_bool_def hh_getItem_def hh_getScore_def hh_comp_rank)
      then show ?thesis using Inl True by (simp add: hh_add_def)
    next
      case False
      then have "hh_inv c Up (xs @ [(item, score)]) hh"
        using i by (intro hh_inv_skip assms(3) disjI1 bexI [of _ "hh ! i"]) (auto simp: hh_comp_rank)
      then show ?thesis using Inl False by (simp add: hh_add_def)
    qed
  next
    case (Inr r)
    obtain m im ie where r: "r = (m, im, ie)" by (cases r)
    have w: "hh_worst Up hh (length hh) m im ie" "\<forall>x \<in> set hh. hh_bool x \<longrightarrow> hh_getItem c x \<noteq> item"
      using hh_scan_Inr [of c Up item 0 "hh_start Up" None None hh m im ie] Inr r by (simp_all add: hh_worst_def)
    note worst = w(1) [unfolded hh_worst_def]
    have ne: "hh_getItem c (hh ! j) \<noteq> item" if "j < length hh" "hh_bool (hh ! j)" for j using w(2) that by auto
    show ?thesis
    proof (cases ie)
      case (Some i)
      then have i: "i < length hh" "\<not> hh_bool (hh ! i)" using worst by simp_all
      have "hh_inv c Up (xs @ [(item, score)]) (hh[i := hh_set c score item (hh ! i)])"
        using i ne set_ok [OF i(1)] by (intro hh_inv_write assms(3)) auto
      then show ?thesis using Inr r Some by (simp add: hh_add_def)
    next
      case None
      then have full: "\<forall>x \<in> set hh. hh_bool x \<and> hh_rank Up m \<le> item_rank Up x" using worst by (auto simp: in_set_conv_nth)
      show ?thesis
      proof (cases "im \<noteq> None \<and> hh_comp Up score m")
        case True
        then obtain i where i: "im = Some i" "i < length hh" "hh_getScore (hh ! i) = m" "hh_comp Up score m" using worst by auto
        have "hh_inv c Up (xs @ [(item, score)]) (hh[i := hh_set c score item (hh ! i)])"
          using i ne full set_ok [OF i(2)] by (intro hh_inv_write assms(3)) (auto simp: hh_comp_rank)
        then show ?thesis using Inr r None i by (simp add: hh_add_def)
      next
        case False
        then have "hh_rank Up score \<le> hh_rank Up m"
          using worst hh_start_rank [of Up score] by (cases im) (auto simp: hh_comp_rank)
        then have "hh_inv c Up (xs @ [(item, score)]) hh"
          using full w(2) by (intro hh_inv_skip assms(3) disjI2) (blast intro: order.trans)
        then show ?thesis using Inr r None False by (auto simp: hh_add_def split: option.split)
      qed
    qed
  qed
qed

lemma hh_run_inv:
  assumes "conf_ok c" "list_all (\<lambda>(item, score). isItemValid c item) xs"
  shows "hh_inv c Up xs (hh_run c Up xs (hh_clear c n))"
  using assms(2)
proof (induction xs rule: rev_induct)
  case Nil
  then show ?case by (auto simp: hh_run_def hh_inv_def hh_clear_def hh_bool_def)
next
  case (snoc z xs)
  then show ?case using hh_add_inv [OF assms(1), of "fst z" Up xs _ "snd z"]
    by (simp add: hh_run_def case_prod_beta)
qed

section \<open>Properties\<close>

text \<open>
  C34: the list keeps the best items.  After any stream of valid items with scores into zeroed slots no
  item has two slots, each item in the list has the best of its scores (the greatest when counting up,
  the least when counting down), and an item that is not in the list has no score that is better than
  that of any item in it, and then there is no free slot.\<close>

theorem heavy_hitter_keeps_best:
  assumes "conf_ok c" "list_all (\<lambda>(item, score). isItemValid c item) xs"
  shows "let hh = hh_run c Up xs (hh_clear c n) in
    distinct (map (hh_getItem c) (filter hh_bool hh)) \<and>
    (\<forall>x \<in> set hh. hh_bool x \<longrightarrow> (hh_getItem c x, hh_getScore x) \<in> set xs \<and>
       (\<forall>s. (hh_getItem c x, s) \<in> set xs \<longrightarrow> \<not> hh_comp Up s (hh_getScore x))) \<and>
    (\<forall>t s. (t, s) \<in> set xs \<longrightarrow> (\<exists>x \<in> set hh. hh_bool x \<and> hh_getItem c x = t) \<or>
       (\<forall>x \<in> set hh. hh_bool x \<and> \<not> hh_comp Up s (hh_getScore x)))"
proof -
  let ?hh = "hh_run c Up xs (hh_clear c n)"
  have inv: "hh_inv c Up xs ?hh" by (rule hh_run_inv [OF assms])
  have "distinct (map (hh_getItem c) (filter hh_bool ?hh))"
    using inv by (intro distinct_map_filterI) (simp add: hh_inv_def)
  then show ?thesis using inv unfolding Let_def hh_inv_def hh_comp_rank not_less by fastforce
qed

theorem heavy_hitter_keeps_best_witness:
  "\<exists>hh. hh = hh_run \<lparr>SizeBits = 8, MaxItemSize = 15\<rparr> True [([97], 5), ([98], 7)] (hh_clear \<lparr>SizeBits = 8, MaxItemSize = 15\<rparr> 1) \<and>
    distinct (map (hh_getItem \<lparr>SizeBits = 8, MaxItemSize = 15\<rparr>) (filter hh_bool hh))"
  using heavy_hitter_keeps_best [of "\<lparr>SizeBits = 8, MaxItemSize = 15\<rparr>" "[([97], 5), ([98], 7)]" True 1]
  by (simp add: conf_ok_def isItemValid_def Let_def)

end
