(* ===== verification/CuckooFilter.thy ===== *)
theory CuckooFilter
  imports Murmur
begin

text \<open>
  \<^verbatim>\<open>include/cuckoofilter.h\<close>: an approximate set of strings in a table of fingerprints, two buckets for each
  fingerprint.  The fingerprints are stored big endian; the model keeps the numbers.  A fingerprint of
  zero marks a free slot.
\<close>

section \<open>The code\<close>

text \<open>The template parameters, the bits of \<open>FPT\<close> and \<open>Slots\<close>, and the number of buckets.\<close>

record CuckooFilter =
  FPTBits :: nat
  Slots :: nat
  cf_size :: u64

definition MaxKicks :: nat where "MaxKicks = 256"

definition cf_hash :: "str \<Rightarrow> u64" where
  "cf_hash s = murmur_hash64a s 0"

definition hashAltIndex :: "CuckooFilter \<Rightarrow> u64 \<Rightarrow> u64 \<Rightarrow> u64" where
  "hashAltIndex c index fp = (index XOR murmur_hash64a (store_le (FPTBits c div 8) fp) 0) mod cf_size c"

definition createFP :: "CuckooFilter \<Rightarrow> u64 \<Rightarrow> u64" where
  "createFP c hc = (let fp = take_bit (FPTBits c) hc in if fp \<noteq> 0 then fp else fp OR 1)"

definition cf_clear :: "CuckooFilter \<Rightarrow> u64 list" where
  "cf_clear c = replicate (Slots c * unat (cf_size c)) 0"

definition cf_ix :: "CuckooFilter \<Rightarrow> u64 \<Rightarrow> nat \<Rightarrow> nat" where
  "cf_ix c index slot = unat index * Slots c + slot"

definition cf_bucket :: "CuckooFilter \<Rightarrow> u64 \<Rightarrow> nat list" where
  "cf_bucket c index = map (cf_ix c index) [0..<Slots c]"

definition cf_rand :: "CuckooFilter \<Rightarrow> u64 \<Rightarrow> nat \<Rightarrow> nat" where
  "cf_rand c fp iteration =
     (if Slots c = 1 then 0
      else unat (murmur_hash_mixer64_nz (fp XOR of_nat iteration) 0 AND of_nat (Slots c - 1)))"

text \<open>\<open>tryInsert__\<close> over the positions of a bucket.\<close>

fun cf_tryInsert :: "bool \<Rightarrow> u64 \<Rightarrow> nat list \<Rightarrow> u64 list \<Rightarrow> bool \<times> u64 list" where
  "cf_tryInsert Initial fp [] table = (False, table)"
| "cf_tryInsert Initial fp (p # ps) table =
     (if Initial \<and> table ! p = fp then (True, table)
      else if table ! p = 0 then (True, table[p := fp])
      else cf_tryInsert Initial fp ps table)"

definition cf_tryFind :: "u64 \<Rightarrow> nat list \<Rightarrow> u64 list \<Rightarrow> nat option" where
  "cf_tryFind fp ps table = find (\<lambda>p. table ! p = fp) ps"

text \<open>The undo of the kicks, the newest first.\<close>

definition cf_rollback :: "CuckooFilter \<Rightarrow> (u64 \<times> u64 \<times> nat) list \<Rightarrow> u64 list \<Rightarrow> u64 list" where
  "cf_rollback c rollback table = fold (\<lambda>(index, fp, slot) table. table[cf_ix c index slot := fp]) rollback table"

text \<open>The loop of kicks, with \<open>n\<close> rounds left; \<open>rollback\<close> has the newest entry first.\<close>

primrec cf_kicks ::
  "nat \<Rightarrow> nat \<Rightarrow> CuckooFilter \<Rightarrow> u64 \<Rightarrow> u64 \<Rightarrow> (u64 \<times> u64 \<times> nat) list \<Rightarrow> u64 list \<Rightarrow> bool \<times> u64 list" where
  "cf_kicks 0 i c fp index rollback table = (False, cf_rollback c rollback table)"
| "cf_kicks (Suc n) i c fp index rollback table =
     (let slot = cf_rand c fp i;
          old = table ! cf_ix c index slot;
          table = table[cf_ix c index slot := fp];
          fp = old;
          rollback = (index, fp, slot) # rollback;
          index = hashAltIndex c index fp;
          (ok, table) = cf_tryInsert False fp (cf_bucket c index) table
      in if ok then (True, table) else cf_kicks n (Suc i) c fp index rollback table)"

definition cf_insert :: "CuckooFilter \<Rightarrow> str \<Rightarrow> u64 list \<Rightarrow> bool \<times> u64 list" where
  "cf_insert c s table =
     (let hc = cf_hash s;
          fpo = createFP c hc;
          index1 = hc mod cf_size c;
          (ok, table) = cf_tryInsert True fpo (cf_bucket c index1) table
      in if ok then (True, table)
         else
           (let index2 = hashAltIndex c index1 fpo;
                (ok, table) = cf_tryInsert True fpo (cf_bucket c index2) table
            in if ok then (True, table) else cf_kicks MaxKicks 0 c fpo index1 [] table))"

definition cf_remove :: "CuckooFilter \<Rightarrow> str \<Rightarrow> u64 list \<Rightarrow> bool \<times> u64 list" where
  "cf_remove c s table =
     (let hc = cf_hash s;
          fp = createFP c hc;
          index1 = hc mod cf_size c
      in case cf_tryFind fp (cf_bucket c index1) table of
           Some p \<Rightarrow> (True, table[p := 0])
         | None \<Rightarrow>
             (case cf_tryFind fp (cf_bucket c (hashAltIndex c index1 fp)) table of
                Some p \<Rightarrow> (True, table[p := 0])
              | None \<Rightarrow> (False, table)))"

definition cf_lookup :: "CuckooFilter \<Rightarrow> str \<Rightarrow> u64 list \<Rightarrow> bool" where
  "cf_lookup c s table =
     (let hc = cf_hash s;
          fp = createFP c hc;
          index1 = hc mod cf_size c
      in if cf_tryFind fp (cf_bucket c index1) table \<noteq> None then True
         else cf_tryFind fp (cf_bucket c (hashAltIndex c index1 fp)) table \<noteq> None)"

section \<open>No false negatives\<close>

definition cf_ok :: "CuckooFilter \<Rightarrow> u64 list \<Rightarrow> bool" where
  "cf_ok c table \<longleftrightarrow> Slots c \<in> {1, 2, 4, 8} \<and> cf_size c \<noteq> 0 \<and> length table = Slots c * unat (cf_size c)"

text \<open>The fingerprint is in one of its two buckets.\<close>

definition cf_has :: "CuckooFilter \<Rightarrow> u64 list \<Rightarrow> u64 \<Rightarrow> u64 \<Rightarrow> bool" where
  "cf_has c table fp index \<longleftrightarrow>
     (\<exists>p \<in> set (cf_bucket c index) \<union> set (cf_bucket c (hashAltIndex c index fp)). table ! p = fp)"

lemma cf_lookup_has: "cf_lookup c s table \<longleftrightarrow> cf_has c table (createFP c (cf_hash s)) (cf_hash s mod cf_size c)"
  by (auto simp: cf_lookup_def cf_has_def cf_tryFind_def Let_def find_None_iff)

lemma createFP_nonzero: "createFP c hc \<noteq> 0"
  by (simp add: createFP_def Let_def)

lemma set_cf_bucket: "p \<in> set (cf_bucket c index) \<longleftrightarrow> (\<exists>slot < Slots c. p = unat index * Slots c + slot)"
  unfolding cf_bucket_def cf_ix_def set_map set_upt by (auto intro!: exI [of _ "p - unat index * Slots c"])

lemma cf_bucket_bound:
  assumes "cf_ok c table" "index < cf_size c" "p \<in> set (cf_bucket c index)"
  shows "p < length table"
proof -
  obtain slot where s: "slot < Slots c" "p = unat index * Slots c + slot" using assms(3) set_cf_bucket by blast
  have "unat index + 1 \<le> unat (cf_size c)" using assms(2) by (simp add: word_less_nat_alt)
  then have "(unat index + 1) * Slots c \<le> unat (cf_size c) * Slots c" by (rule mult_le_mono1)
  then show ?thesis using s assms(1) by (simp add: cf_ok_def algebra_simps)
qed

lemma cf_rand_slot:
  assumes "cf_ok c table"
  shows "cf_rand c fp i < Slots c"
proof -
  let ?x = "murmur_hash_mixer64_nz (fp XOR of_nat i) 0 AND of_nat (Slots c - 1)"
  have "?x \<le> of_nat (Slots c - 1)" by (rule word_and_le1)
  then have "unat ?x \<le> unat (of_nat (Slots c - 1) :: u64)" by (simp add: word_le_nat_alt)
  also have "\<dots> \<le> Slots c - 1" by (simp add: unat_of_nat)
  finally have "unat ?x \<le> Slots c - 1" .
  moreover have "0 < Slots c" using assms by (auto simp: cf_ok_def)
  ultimately have "unat ?x < Slots c" by linarith
  then show ?thesis using \<open>0 < Slots c\<close> by (simp add: cf_rand_def)
qed

lemma cf_alt_bound: "cf_size c \<noteq> 0 \<Longrightarrow> hashAltIndex c index fp < cf_size c"
  by (simp add: hashAltIndex_def word_mod_less_divisor word_neq_0_conv)

lemma cf_alt_alt:
  assumes "cf_size c = 2 ^ k" "k < 64" "index < cf_size c"
  shows "hashAltIndex c (hashAltIndex c index fp) fp = index"
proof -
  let ?h = "murmur_hash64a (store_le (FPTBits c div 8) fp) 0"
  have alt: "hashAltIndex c i fp = take_bit k (i XOR ?h)" for i
    by (simp add: hashAltIndex_def assms(1) take_bit_eq_mod)
  have i: "take_bit k index = index" using assms(1,3) by (simp add: take_bit_eq_mask less_mask_eq)
  have "take_bit k (take_bit k (index XOR ?h) XOR ?h) = take_bit k index"
    by (simp add: take_bit_xor xor.assoc)
  then show ?thesis by (simp add: alt i)
qed

text \<open>What an insertion into a bucket does to the table.\<close>

definition cf_grows :: "u64 list \<Rightarrow> u64 list \<Rightarrow> bool" where
  "cf_grows t t' \<longleftrightarrow> length t' = length t \<and> (\<forall>p. t ! p \<noteq> 0 \<longrightarrow> t' ! p = t ! p)"

lemma cf_tryInsert_cases:
  assumes "cf_tryInsert Initial fp ps table = (ok, table')" "\<And>p. p \<in> set ps \<Longrightarrow> p < length table"
  shows "(\<not> ok \<longrightarrow> table' = table) \<and> cf_grows table table' \<and> (ok \<longrightarrow> (\<exists>p \<in> set ps. table' ! p = fp))"
  using assms
proof (induction ps)
  case (Cons p ps)
  consider "Initial \<and> table ! p = fp" | "\<not> (Initial \<and> table ! p = fp)" "table ! p = 0" | "\<not> (Initial \<and> table ! p = fp)" "table ! p \<noteq> 0"
    by blast
  then show ?case
  proof cases
    case 2
    have "cf_grows table (table[p := fp])" using 2(2) unfolding cf_grows_def by (metis length_list_update nth_list_update_neq)
    moreover have "p < length table" using Cons.prems(2) by simp
    ultimately show ?thesis using 2 Cons.prems(1) by auto
  next
    case 3
    then have "cf_tryInsert Initial fp ps table = (ok, table')" using Cons.prems(1) by (auto split: if_splits)
    from Cons.IH [OF this] Cons.prems(2) show ?thesis by auto
  qed (use Cons.prems in \<open>auto simp: cf_grows_def\<close>)
qed (simp add: cf_grows_def)

lemma cf_hasI: "\<lbrakk>p \<in> set (cf_bucket c i) \<or> p \<in> set (cf_bucket c (hashAltIndex c i f)); t ! p = f\<rbrakk> \<Longrightarrow> cf_has c t f i"
  unfolding cf_has_def by blast

lemma cf_hasE:
  assumes "cf_has c t f i"
  obtains p where "p \<in> set (cf_bucket c i) \<or> p \<in> set (cf_bucket c (hashAltIndex c i f))" "t ! p = f"
  using assms unfolding cf_has_def by blast

lemma cf_has_mono: "\<lbrakk>cf_has c t f i; cf_grows t t'; f \<noteq> 0\<rbrakk> \<Longrightarrow> cf_has c t' f i"
  by (erule cf_hasE) (auto simp: cf_grows_def intro: cf_hasI)

lemma cf_bucket_inj:
  assumes "cf_ix c index slot \<in> set (cf_bucket c j)" "slot < Slots c"
  shows "j = index"
proof -
  obtain slot' where s: "slot' < Slots c" "cf_ix c index slot = unat j * Slots c + slot'" using assms(1) set_cf_bucket by blast
  then have "(unat index * Slots c + slot) div Slots c = (unat j * Slots c + slot') div Slots c" by (simp add: cf_ix_def)
  then show ?thesis using s(1) assms(2) by (simp add: word_unat_eq_iff)
qed

text \<open>
  The invariant of the kicks: every fingerprint of \<open>P\<close> is in one of its buckets, except for the one in
  hand, whose buckets are known.
\<close>

definition cf_but :: "CuckooFilter \<Rightarrow> (u64 \<times> u64) set \<Rightarrow> u64 \<Rightarrow> u64 \<Rightarrow> u64 list \<Rightarrow> bool" where
  "cf_but c P fp index table \<longleftrightarrow>
     (\<forall>(f, i) \<in> P. f \<noteq> 0 \<and> i < cf_size c \<and>
        (cf_has c table f i \<or> f = fp \<and> (i = index \<or> i = hashAltIndex c index fp)))"

lemma cf_but_placed:
  assumes "cf_but c P fp index table" "cf_size c = 2 ^ k" "k < 64" "index < cf_size c"
    and "p \<in> set (cf_bucket c index)" "table' ! p = fp" "cf_grows table table'" "(f, i) \<in> P"
  shows "cf_has c table' f i"
proof -
  have f: "f \<noteq> 0" "cf_has c table f i \<or> f = fp \<and> (i = index \<or> i = hashAltIndex c index fp)"
    using assms(1,8) by (auto simp: cf_but_def)
  from f(2) show ?thesis
  proof
    assume "cf_has c table f i"
    then show ?thesis using cf_has_mono assms(7) f(1) by blast
  next
    assume "f = fp \<and> (i = index \<or> i = hashAltIndex c index fp)"
    then show ?thesis using assms(5,6) cf_alt_alt [OF assms(2-4), of fp] by (intro cf_hasI [of p]) auto
  qed
qed

lemma cf_but_kick:
  assumes "cf_but c P fp index table" "cf_ok c table" "cf_size c = 2 ^ k" "k < 64" "index < cf_size c" "slot < Slots c"
    and old: "old = table ! cf_ix c index slot"
  shows "cf_but c P old (hashAltIndex c index old) (table[cf_ix c index slot := fp])"
proof -
  let ?p = "cf_ix c index slot" and ?t = "table[cf_ix c index slot := fp]"
  have p: "?p \<in> set (cf_bucket c index)" using assms(6) set_cf_bucket cf_ix_def by auto
  then have at: "?t ! ?p = fp" using cf_bucket_bound [OF assms(2,5)] by simp
  have alt: "hashAltIndex c (hashAltIndex c index x) x = index" for x by (rule cf_alt_alt [OF assms(3-5)])
  have "cf_has c ?t f i \<or> f = old \<and> (i = hashAltIndex c index old \<or> i = index)" if P: "(f, i) \<in> P" for f i
  proof -
    have f: "i < cf_size c" "cf_has c table f i \<or> f = fp \<and> (i = index \<or> i = hashAltIndex c index fp)"
      using assms(1) P by (auto simp: cf_but_def)
    from f(2) show ?thesis
    proof
      assume "cf_has c table f i"
      then obtain q where q: "q \<in> set (cf_bucket c i) \<or> q \<in> set (cf_bucket c (hashAltIndex c i f))" "table ! q = f"
        by (rule cf_hasE)
      show ?thesis
      proof (cases "q = ?p")
        case False
        then have "?t ! q = f" using q(2) by simp
        then show ?thesis using q(1) cf_hasI by blast
      next
        case True
        then have "i = index \<or> hashAltIndex c i f = index" using q(1) cf_bucket_inj [OF _ assms(6)] by blast
        moreover have "f = old" using q(2) True old by simp
        ultimately show ?thesis using cf_alt_alt [OF assms(3,4) f(1), of f] by auto
      qed
    next
      assume "f = fp \<and> (i = index \<or> i = hashAltIndex c index fp)"
      then show ?thesis using at p alt [of fp] cf_hasI [of ?p c i f ?t] by auto
    qed
  qed
  then show ?thesis using assms(1) alt by (fastforce simp: cf_but_def)
qed

text \<open>The kicks end with every fingerprint in place, or with the table as it was.\<close>

lemma cf_kicks_placed:
  assumes "cf_size c = 2 ^ k" "k < 64"
  shows "\<lbrakk>cf_kicks n j c fp index rb table = (True, table'); cf_but c P fp index table; cf_ok c table; index < cf_size c\<rbrakk> \<Longrightarrow>
    (\<forall>(f, i) \<in> P. cf_has c table' f i) \<and> cf_ok c table'"
proof (induction n arbitrary: j fp index rb table)
  case (Suc n)
  let ?slot = "cf_rand c fp j"
  let ?p = "cf_ix c index ?slot"
  let ?old = "table ! ?p" and ?t = "table[?p := fp]"
  let ?index = "hashAltIndex c index ?old"
  have nz: "cf_size c \<noteq> 0" using Suc.prems(3) by (simp add: cf_ok_def)
  have ok: "cf_ok c ?t" using Suc.prems(3) by (simp add: cf_ok_def)
  note bound = cf_alt_bound [OF nz, of index ?old]
  have but: "cf_but c P ?old ?index ?t"
    by (rule cf_but_kick [OF Suc.prems(2,3) assms Suc.prems(4) cf_rand_slot [OF Suc.prems(3)] refl])
  obtain b t2 where ti: "cf_tryInsert False ?old (cf_bucket c ?index) ?t = (b, t2)" by fastforce
  note cs = cf_tryInsert_cases [OF ti cf_bucket_bound [OF ok bound]]
  show ?case
  proof (cases b)
    case True
    then obtain p where p: "p \<in> set (cf_bucket c ?index)" "t2 ! p = ?old" "cf_grows ?t t2" using cs by auto
    then have "cf_has c t2 f i" if "(f, i) \<in> P" for f i using cf_but_placed [OF but assms bound p that] by simp
    moreover have "cf_ok c t2" using ok p(3) by (simp add: cf_ok_def cf_grows_def)
    moreover have "table' = t2" using Suc.prems(1) ti True by (simp add: Let_def)
    ultimately show ?thesis by auto
  next
    case False
    then have "cf_kicks n (Suc j) c ?old ?index ((index, ?old, ?slot) # rb) ?t = (True, table')"
      using Suc.prems(1) ti cs by (simp add: Let_def)
    from Suc.IH [OF this but ok bound] show ?thesis .
  qed
qed simp

lemma cf_kicks_rollback:
  assumes "cf_size c \<noteq> 0"
  shows "\<lbrakk>cf_kicks n j c fp index rb table = (False, table'); cf_ok c table; index < cf_size c\<rbrakk> \<Longrightarrow> table' = cf_rollback c rb table"
proof (induction n arbitrary: j fp index rb table)
  case (Suc n)
  let ?p = "cf_ix c index (cf_rand c fp j)"
  let ?old = "table ! ?p" and ?t = "table[?p := fp]"
  let ?index = "hashAltIndex c index ?old"
  have ok: "cf_ok c ?t" using Suc.prems(2) by (simp add: cf_ok_def)
  note bound = cf_alt_bound [OF assms, of index ?old]
  obtain b t2 where ti: "cf_tryInsert False ?old (cf_bucket c ?index) ?t = (b, t2)" by fastforce
  have b: "\<not> b" "t2 = ?t"
    using Suc.prems(1) ti cf_tryInsert_cases [OF ti cf_bucket_bound [OF ok bound]] by (auto simp: Let_def split: if_splits)
  have "cf_kicks n (Suc j) c ?old ?index ((index, ?old, cf_rand c fp j) # rb) ?t = (False, table')"
    using Suc.prems(1) ti b by (simp add: Let_def)
  from Suc.IH [OF this ok bound] show ?case by (simp add: cf_rollback_def)
qed simp

lemma cf_insert_failed:
  assumes "cf_insert c s table = (False, table')" "cf_ok c table"
  shows "table' = table"
proof -
  let ?i = "cf_hash s mod cf_size c" and ?f = "createFP c (cf_hash s)"
  have nz: "cf_size c \<noteq> 0" using assms(2) by (simp add: cf_ok_def)
  then have i: "?i < cf_size c" by (simp add: word_mod_less_divisor word_neq_0_conv)
  obtain b1 t1 where t1: "cf_tryInsert True ?f (cf_bucket c ?i) table = (b1, t1)" by fastforce
  have b1: "\<not> b1" "t1 = table" using assms(1) t1 cf_tryInsert_cases [OF t1 cf_bucket_bound [OF assms(2) i]]
    by (auto simp: cf_insert_def Let_def split: if_splits)
  obtain b2 t2 where t2: "cf_tryInsert True ?f (cf_bucket c (hashAltIndex c ?i ?f)) table = (b2, t2)" by fastforce
  have b2: "\<not> b2" "t2 = table"
    using assms(1) t1 b1 t2 cf_tryInsert_cases [OF t2 cf_bucket_bound [OF assms(2) cf_alt_bound [OF nz]]]
    by (auto simp: cf_insert_def Let_def split: if_splits)
  have "cf_kicks MaxKicks 0 c ?f ?i [] table = (False, table')" using assms(1) t1 t2 b1 b2 by (simp add: cf_insert_def Let_def)
  from cf_kicks_rollback [OF nz this assms(2) i] show ?thesis by (simp add: cf_rollback_def)
qed

lemma cf_insert_placed:
  assumes "cf_insert c s table = (True, table')" "cf_ok c table" "cf_size c = 2 ^ k" "k < 64"
  shows "cf_ok c table' \<and> cf_lookup c s table' \<and> (\<forall>s'. cf_lookup c s' table \<longrightarrow> cf_lookup c s' table')"
proof -
  let ?i = "cf_hash s mod cf_size c" and ?f = "createFP c (cf_hash s)"
  let ?P = "insert (?f, ?i) {(createFP c (cf_hash s'), cf_hash s' mod cf_size c) | s'. cf_lookup c s' table}"
  have nz: "cf_size c \<noteq> 0" using assms(2) by (simp add: cf_ok_def)
  then have less: "x mod cf_size c < cf_size c" for x by (simp add: word_mod_less_divisor word_neq_0_conv)
  have but: "cf_but c ?P ?f ?i table" using less createFP_nonzero by (auto simp: cf_but_def cf_lookup_has)
  have direct: ?thesis
    if "cf_tryInsert True ?f (cf_bucket c j) table = (True, table')" "j < cf_size c" "j = ?i \<or> j = hashAltIndex c ?i ?f" for j
  proof -
    note cs = cf_tryInsert_cases [OF that(1) cf_bucket_bound [OF assms(2) that(2)]]
    then obtain p where p: "p \<in> set (cf_bucket c j)" "table' ! p = ?f" "cf_grows table table'" by auto
    then have "cf_lookup c s table'" unfolding cf_lookup_has using that(3) by (intro cf_hasI [of p]) auto
    moreover have "cf_lookup c s' table'" if "cf_lookup c s' table" for s'
      using that cf_has_mono [OF _ p(3) createFP_nonzero] unfolding cf_lookup_has by blast
    ultimately show ?thesis using assms(2) p(3) by (auto simp: cf_ok_def cf_grows_def)
  qed
  obtain b1 t1 where t1: "cf_tryInsert True ?f (cf_bucket c ?i) table = (b1, t1)" by fastforce
  obtain b2 t2 where t2: "cf_tryInsert True ?f (cf_bucket c (hashAltIndex c ?i ?f)) table = (b2, t2)" by fastforce
  have u1: "\<not> b1 \<longrightarrow> t1 = table" using cf_tryInsert_cases [OF t1 cf_bucket_bound [OF assms(2) less]] by simp
  have u2: "\<not> b2 \<longrightarrow> t2 = table" using cf_tryInsert_cases [OF t2 cf_bucket_bound [OF assms(2) cf_alt_bound [OF nz]]] by simp
  consider "b1" | "\<not> b1" "b2" | "\<not> b1" "\<not> b2" by blast
  then show ?thesis
  proof cases
    case 1
    then show ?thesis using assms(1) t1 less by (intro direct [of ?i]) (auto simp: cf_insert_def Let_def)
  next
    case 2
    then show ?thesis using assms(1) t1 u1 t2 cf_alt_bound [OF nz]
      by (intro direct [of "hashAltIndex c ?i ?f"]) (auto simp: cf_insert_def Let_def)
  next
    case 3
    then have "cf_kicks MaxKicks 0 c ?f ?i [] table = (True, table')"
      using assms(1) t1 t2 u1 u2 by (simp add: cf_insert_def Let_def)
    from cf_kicks_placed [OF assms(3,4) this but assms(2) less]
    show ?thesis unfolding cf_lookup_has by (auto simp: cf_lookup_has)
  qed
qed

text \<open>A sequence of insertions: the strings that went in, and the table.\<close>

fun cf_inserts :: "CuckooFilter \<Rightarrow> str list \<Rightarrow> u64 list \<Rightarrow> str list \<times> u64 list" where
  "cf_inserts c [] table = ([], table)"
| "cf_inserts c (s # ss) table =
     (let (ok, table) = cf_insert c s table; (ins, table) = cf_inserts c ss table
      in (if ok then s # ins else ins, table))"

lemma cf_inserts_lookup:
  assumes "cf_size c = 2 ^ k" "k < 64"
  shows "\<lbrakk>cf_inserts c ss table = (ins, table'); cf_ok c table\<rbrakk> \<Longrightarrow>
    (\<forall>s \<in> set ins. cf_lookup c s table') \<and> (\<forall>s. cf_lookup c s table \<longrightarrow> cf_lookup c s table')"
proof (induction ss arbitrary: table ins)
  case (Cons s ss)
  obtain ok t where i: "cf_insert c s table = (ok, t)" by fastforce
  obtain ins' where r: "cf_inserts c ss t = (ins', table')" "ins = (if ok then s # ins' else ins')"
    using Cons.prems(1) i by (auto simp: Let_def split: prod.splits)
  show ?case
  proof (cases ok)
    case True
    then have "cf_ok c t" "cf_lookup c s t" "\<forall>s'. cf_lookup c s' table \<longrightarrow> cf_lookup c s' t"
      using cf_insert_placed [OF _ Cons.prems(2) assms] i by auto
    with Cons.IH [OF r(1)] r(2) True show ?thesis by auto
  next
    case False
    then have "t = table" using cf_insert_failed [OF _ Cons.prems(2)] i by simp
    with Cons.IH [OF r(1)] Cons.prems(2) r(2) False show ?thesis by simp
  qed
qed simp

lemma cf_ok_clear: "Slots c \<in> {1, 2, 4, 8} \<Longrightarrow> cf_size c \<noteq> 0 \<Longrightarrow> cf_ok c (cf_clear c)"
  by (simp add: cf_ok_def cf_clear_def)

section \<open>Properties\<close>

text \<open>
  C35: a filter whose number of buckets is a power of two has no false negatives.  In any sequence of
  insertions into a cleared table, every string whose insertion succeeded is found at the end, however
  the fingerprints were moved between their buckets, and an insertion that gives up after its kicks
  leaves the table exactly as it was.\<close>

theorem cuckoo_no_false_negatives:
  assumes "Slots c \<in> {1, 2, 4, 8}" "cf_size c = 2 ^ k" "k < 64"
    and "cf_inserts c ss (cf_clear c) = (ins, table)"
  shows "(\<forall>s \<in> set ins. cf_lookup c s table) \<and>
    (\<forall>s table'. cf_ok c table' \<longrightarrow> \<not> fst (cf_insert c s table') \<longrightarrow> snd (cf_insert c s table') = table')"
proof
  have "cf_size c \<noteq> 0" using assms(2,3) by simp
  then show "\<forall>s \<in> set ins. cf_lookup c s table"
    using cf_inserts_lookup [OF assms(2-4) cf_ok_clear [OF assms(1)]] by blast
  show "\<forall>s table'. cf_ok c table' \<longrightarrow> \<not> fst (cf_insert c s table') \<longrightarrow> snd (cf_insert c s table') = table'"
    using cf_insert_failed by (metis prod.collapse)
qed

theorem cuckoo_no_false_negatives_witness:
  "\<exists>ins table. cf_inserts \<lparr>FPTBits = 8, Slots = 4, cf_size = 2\<rparr> [[97], [98]] (cf_clear \<lparr>FPTBits = 8, Slots = 4, cf_size = 2\<rparr>) =
     (ins, table) \<and> list_all (\<lambda>s. cf_lookup \<lparr>FPTBits = 8, Slots = 4, cf_size = 2\<rparr> s table) ins"
  unfolding list_all_iff
  using cuckoo_no_false_negatives [of "\<lparr>FPTBits = 8, Slots = 4, cf_size = 2\<rparr>" 1 "[[97], [98]]",
      OF _ _ _ prod.collapse [symmetric]]
  by (metis (no_types, lifting) CuckooFilter.select_convs insertCI power_one_right prod.collapse
      one_less_numeral_iff semiring_norm(76))

text \<open>Otherwise the alternate bucket of the alternate bucket need not be the first one again.\<close>

lemma cuckoo_alternate_not_involutive:
  "hashAltIndex \<lparr>FPTBits = 8, Slots = 4, cf_size = 3\<rparr>
     (hashAltIndex \<lparr>FPTBits = 8, Slots = 4, cf_size = 3\<rparr> 0 2) 2 \<noteq> 0"
  by (simp add: hashAltIndex_def murmur_hash64a_def murmur_tail_def murmur_m_def store_le_def Let_def)

definition sample_filter :: CuckooFilter where
  "sample_filter = \<lparr>FPTBits = 8, Slots = 4, cf_size = 3\<rparr>"

lemma sample_filter_hashes:
  "cf_hash [98] = 0xea8bfc7d922a2a37"
  "cf_hash [102] = 0x5647bce94f90d9aa"
  "cf_hash [103] = 0xb5f2c769562d9a23"
  "cf_hash [107] = 0x76e009c21a9e845a"
  "cf_hash [106] = 0xdce594566b8c31f5"
  "cf_hash [109] = 0x296d4827ee613bde"
  "cf_hash [111] = 0xb754a4f6a509b6a8"
  "cf_hash [119] = 0x22727cb14c3bb41d"
  "cf_hash [113] = 0x7af8d99b413c664f"
  by (simp_all add: cf_hash_def murmur_hash64a_def murmur_tail_def murmur_m_def Let_def)

lemma sample_filter_alt:
  "hashAltIndex sample_filter 0 245 = 1"
  "hashAltIndex sample_filter 1 79 = 0"
  "hashAltIndex sample_filter 1 245 = 2"
  by (simp_all add: sample_filter_def hashAltIndex_def murmur_hash64a_def murmur_tail_def murmur_m_def store_le_def Let_def)

lemma sample_filter_rand: "cf_rand sample_filter 79 0 = 0"
  by (simp add: sample_filter_def cf_rand_def murmur_hash_mixer64_nz_def murmur_hash_mixer64_def Let_def)

lemma sample_filter_bucket:
  "cf_bucket sample_filter 0 = [0, 1, 2, 3]" "cf_bucket sample_filter 1 = [4, 5, 6, 7]" "cf_bucket sample_filter 2 = [8, 9, 10, 11]"
  by (simp_all add: sample_filter_def cf_bucket_def cf_ix_def upt_rec)

text \<open>
  C36: with another number of buckets the filter forgets strings.  In a filter of three buckets nine
  insertions succeed, and then the fifth string is not found any more: its fingerprint was moved twice
  and is now in neither of its buckets.\<close>

theorem cuckoo_loses_key:
  "\<exists>table. cf_inserts sample_filter [[98], [102], [103], [107], [106], [109], [111], [119], [113]] (cf_clear sample_filter) =
     ([[98], [102], [103], [107], [106], [109], [111], [119], [113]], table) \<and> \<not> cf_lookup sample_filter [106] table"
proof -
  have p: "Slots sample_filter = 4" "cf_size sample_filter = 3" "FPTBits sample_filter = 8" "MaxKicks = 256"
    by (simp_all add: sample_filter_def MaxKicks_def)
  let ?t = "[55, 170, 35, 90, 79, 222, 168, 29, 245, 0, 0, 0] :: u64 list"
  have "replicate 12 (0 :: u64) = [0, 0, 0, 0, 0, 0, 0, 0, 0, 0, 0, 0]" by code_simp
  then have z: "cf_clear sample_filter = [0, 0, 0, 0, 0, 0, 0, 0, 0, 0, 0, 0]" by (simp add: cf_clear_def p)
  have k: "cf_kicks 256 0 sample_filter 79 1 [] [55, 170, 35, 90, 245, 222, 168, 29, 0, 0, 0, 0] = (True, ?t)"
    using cf_kicks.simps(2) [of 255 0 sample_filter 79 1 "[]" "[55, 170, 35, 90, 245, 222, 168, 29, 0, 0, 0, 0]"]
    by (simp add: sample_filter_rand sample_filter_alt sample_filter_bucket cf_ix_def p Let_def)
  have "cf_inserts sample_filter [[98], [102], [103], [107], [106], [109], [111], [119], [113]] (cf_clear sample_filter) =
     ([[98], [102], [103], [107], [106], [109], [111], [119], [113]], ?t)"
    by (simp add: cf_insert_def createFP_def sample_filter_hashes sample_filter_alt sample_filter_bucket p z k Let_def take_bit_eq_mod)
  moreover have "\<not> cf_lookup sample_filter [106] ?t"
    by (simp add: cf_lookup_def cf_tryFind_def createFP_def sample_filter_hashes sample_filter_alt sample_filter_bucket p
        Let_def take_bit_eq_mod)
  ultimately show ?thesis by blast
qed

end
