(* ===== verification/Decimal.thy ===== *)
theory Decimal
  imports MyString
begin

text \<open>
  Numbers as text: \<open>to_string\<close>, \<open>from_string\<close> and \<open>myClamp\<close> of \<^verbatim>\<open>include/mystring.h\<close> over
  \<open>std::to_chars\<close> and \<open>std::from_chars\<close>, and \<open>atoi\<close> as the protocol parser uses it.
\<close>

section \<open>The code\<close>

definition isdigit :: "byte \<Rightarrow> bool" where
  "isdigit c \<longleftrightarrow> 48 \<le> c \<and> c \<le> 57"

text \<open>The text that \<open>std::to_chars\<close> writes for an unsigned number.\<close>

fun dec :: "nat \<Rightarrow> str" where
  "dec n = (if n < 10 then [48 + of_nat n] else dec (n div 10) @ [48 + of_nat (n mod 10)])"

declare dec.simps [simp del]

definition to_string_buffer_t_size :: nat where "to_string_buffer_t_size = 48"

text \<open>For a number that does not fit into the buffer \<open>to_chars\<close> reports an error.\<close>

definition to_string :: "nat \<Rightarrow> str" where
  "to_string value = (let s = dec value in if length s > to_string_buffer_t_size then [48] else s)"

definition to_string_signed :: "int \<Rightarrow> str" where
  "to_string_signed value =
     (let s = (if value < 0 then [45] else []) @ dec (nat \<bar>value\<bar>)
      in if length s > to_string_buffer_t_size then [48] else s)"

text \<open>The number that a run of digits denotes.\<close>

definition dec_val :: "str \<Rightarrow> nat" where
  "dec_val s = foldl (\<lambda>a c. 10 * a + unat (c - 48)) 0 s"

text \<open>
  \<open>std::from_chars\<close> reads the longest run of digits; an empty run and a number that the type cannot
  hold are errors.  For a signed type a minus sign may stand in front.
\<close>

definition from_string :: "str \<Rightarrow> 'w::len word \<Rightarrow> 'w word" where
  "from_string s default_value =
     (let d = takeWhile isdigit s
      in if d = [] \<or> dec_val d \<ge> 2 ^ LENGTH('w) then default_value else of_nat (dec_val d))"

definition from_string_signed :: "str \<Rightarrow> int \<Rightarrow> int" where
  "from_string_signed s default_value =
     (let neg = (s \<noteq> [] \<and> hd s = 45);
          d = takeWhile isdigit (if neg then tl s else s);
          v = (if neg then - int (dec_val d) else int (dec_val d))
      in if d = [] \<or> v < - (2 ^ 63) \<or> v \<ge> 2 ^ 63 then default_value else v)"

definition myClamp :: "str \<Rightarrow> u64 \<Rightarrow> u64 \<Rightarrow> u64" where
  "myClamp p mn mx = (let a = from_string p 0 in if a < mn then mn else if mx < a then mx else a)"

text \<open>
  \<open>atoi\<close> on a string of signs and digits.  For a number outside of the range of \<open>int\<close> the C standard
  does not say what it returns: that is the argument \<open>ub\<close>.
\<close>

definition atoi :: "(int \<Rightarrow> u32) \<Rightarrow> str \<Rightarrow> u32" where
  "atoi ub s =
     (let sign = (s \<noteq> [] \<and> (hd s = 45 \<or> hd s = 43));
          d = takeWhile isdigit (if sign then tl s else s);
          v = (if sign \<and> hd s = 45 then - int (dec_val d) else int (dec_val d))
      in if - (2 ^ 31) \<le> v \<and> v < 2 ^ 31 then of_int v else ub v)"

section \<open>Digits\<close>

lemma digit_val: "n < 10 \<Longrightarrow> unat ((48 + of_nat n :: byte) - 48) = n"
  by (simp add: unat_of_nat)

lemma digit_isdigit: "n < 10 \<Longrightarrow> isdigit (48 + of_nat n)"
proof -
  assume n: "n < 10"
  then have "unat (48 + of_nat n :: byte) = 48 + n" by (simp add: unat_word_ariths unat_of_nat)
  then show ?thesis using n by (simp add: isdigit_def word_le_nat_alt)
qed

lemma dec_val_snoc [simp]: "dec_val (s @ [c]) = 10 * dec_val s + unat (c - 48)"
  by (simp add: dec_val_def)

lemma dec_val_Nil [simp]: "dec_val [] = 0"
  by (simp add: dec_val_def)

lemma dec_val_dec [simp]: "dec_val (dec n) = n"
proof (induction n rule: dec.induct)
  case (1 n)
  show ?case
  proof (cases "n < 10")
    case True
    then show ?thesis using digit_val [of n] by (simp add: dec.simps [of n] dec_val_def)
  next
    case False
    then show ?thesis using 1 digit_val [of "n mod 10"] by (simp add: dec.simps [of n] mult.commute)
  qed
qed

lemma dec_isdigit: "list_all isdigit (dec n)"
proof (induction n rule: dec.induct)
  case (1 n)
  then show ?case using digit_isdigit [of n] digit_isdigit [of "n mod 10"] by (subst dec.simps) simp
qed

lemma dec_not_Nil [simp]: "dec n \<noteq> []" "[] \<noteq> dec n"
  by (subst dec.simps, simp)+

lemma length_dec: "n < 10 ^ k \<Longrightarrow> 0 < k \<Longrightarrow> length (dec n) \<le> k"
proof (induction n arbitrary: k rule: dec.induct)
  case (1 n)
  show ?case
  proof (cases "n < 10")
    case True
    then show ?thesis using 1 by (simp add: dec.simps [of n])
  next
    case False
    then obtain j where j: "k = Suc j" "0 < j" using 1(2,3) by (cases k; cases "k - 1") auto
    then have "n div 10 < 10 ^ j" using 1(2) by (simp add: less_mult_imp_div_less mult.commute)
    then show ?thesis using 1(1) [OF False _ j(2)] False j by (simp add: dec.simps [of n])
  qed
qed

lemma foldl_digits_ge: "a \<le> foldl (\<lambda>a c. 10 * a + unat (c - 48 :: byte)) a s"
proof (induction s arbitrary: a)
  case (Cons c s)
  show ?case using Cons [of "10 * a + unat (c - 48)"] by simp
qed simp

lemma dec_val_take_le: "dec_val (take k s) \<le> dec_val s"
proof -
  have "dec_val s = foldl (\<lambda>a c. 10 * a + unat (c - 48)) (dec_val (take k s)) (drop k s)"
    by (metis append_take_drop_id dec_val_def foldl_append)
  then show ?thesis using foldl_digits_ge by metis
qed

lemma hd_dec_pos: "0 < n \<Longrightarrow> 0 < unat (hd (dec n) - 48)"
proof (induction n rule: dec.induct)
  case (1 n)
  then show ?case using digit_val [of n] by (subst dec.simps) (auto simp: hd_append)
qed

text \<open>Cutting the text of a number leaves a number that is not greater, and not zero.\<close>

lemma dec_val_take_pos: "0 < n \<Longrightarrow> 0 < k \<Longrightarrow> 0 < dec_val (take k (dec n))"
proof -
  assume a: "0 < n" "0 < k"
  have "take 1 (take k (dec n)) = [hd (dec n)]"
    using a by (cases "dec n"; cases k) (use dec_not_Nil in auto)
  then have "dec_val (take 1 (take k (dec n))) = unat (hd (dec n) - 48)" by (simp add: dec_val_def)
  then show ?thesis using hd_dec_pos [OF a(1)] dec_val_take_le [of 1 "take k (dec n)"] by linarith
qed

lemma takeWhile_isdigit:
  "list_all isdigit d \<Longrightarrow> r = [] \<or> \<not> isdigit (hd r) \<Longrightarrow> takeWhile isdigit (d @ r) = d"
  by (cases r) (auto simp: takeWhile_append2 list_all_iff)

lemma to_string_dec: "n < 2 ^ 64 \<Longrightarrow> to_string n = dec n"
proof -
  assume "n < 2 ^ 64"
  then have "length (dec n) \<le> 20" by (intro length_dec) simp_all
  then show ?thesis by (simp add: to_string_def to_string_buffer_t_size_def)
qed

lemma length_to_string: "n < 2 ^ 64 \<Longrightarrow> length (to_string n) \<le> 20"
  using length_dec [of n 20] by (simp add: to_string_dec)

lemma to_string_signed_dec:
  assumes "- (2 ^ 63) \<le> n" "n < 2 ^ 63"
  shows "to_string_signed n = (if n < 0 then [45] else []) @ dec (nat \<bar>n\<bar>)" "length (to_string_signed n) \<le> 20"
proof -
  have "length (dec (nat \<bar>n\<bar>)) \<le> 19" using assms by (intro length_dec) auto
  then show "to_string_signed n = (if n < 0 then [45] else []) @ dec (nat \<bar>n\<bar>)" "length (to_string_signed n) \<le> 20"
    by (auto simp: to_string_signed_def to_string_buffer_t_size_def Let_def)
qed

lemma atoi_digits:
  assumes "list_all isdigit d" "dec_val d < 2 ^ 31"
  shows "atoi ub d = of_nat (dec_val d)"
proof -
  have "\<not> (d \<noteq> [] \<and> (hd d = 45 \<or> hd d = 43))" using assms(1) by (cases d) (auto simp: isdigit_def)
  then show ?thesis using assms takeWhile_isdigit [OF assms(1), of "[]"] by (auto simp: atoi_def Let_def simp del: takeWhile_eq_all_conv)
qed

section \<open>Round trips\<close>

lemma from_string_to_string:
  fixes u :: "'w::len word"
  assumes "rest = [] \<or> \<not> isdigit (hd rest)" "LENGTH('w) \<le> 64"
  shows "from_string (to_string (unat u) @ rest) d = u"
proof -
  have le: "(2 :: nat) ^ LENGTH('w) \<le> 2 ^ 64" using assms(2) by (intro power_increasing) simp_all
  have u: "unat u < 2 ^ LENGTH('w)" by (rule unsigned_less)
  have "to_string (unat u) = dec (unat u)" by (rule to_string_dec [OF less_le_trans [OF u le]])
  then show ?thesis
    using takeWhile_isdigit [OF dec_isdigit assms(1)] u
    by (auto simp: from_string_def Let_def simp del: unsigned_less)
qed

lemma from_string_signed_to_string:
  assumes "rest = [] \<or> \<not> isdigit (hd rest)" "- (2 ^ 63) \<le> i" "i < 2 ^ 63"
  shows "from_string_signed (to_string_signed i @ rest) e = i"
proof -
  have "hd (dec (nat \<bar>i\<bar>) @ rest) \<noteq> 45"
    using dec_isdigit [of "nat \<bar>i\<bar>"] by (cases "dec (nat \<bar>i\<bar>)") (auto simp: isdigit_def)
  then show ?thesis
    using assms(2,3) takeWhile_isdigit [OF dec_isdigit assms(1), of "nat \<bar>i\<bar>"]
    by (auto simp: from_string_signed_def to_string_signed_dec(1) [OF assms(2,3)] Let_def)
qed

lemmas number_texts [simp] =
  from_string_to_string [of "[]", simplified] from_string_signed_to_string [of "[]", simplified]

section \<open>Properties\<close>

text \<open>
  Numbers survive the way through text.  Every 64 bit number, unsigned or signed, that is written
  with \<open>to_string\<close> is what \<open>from_string\<close> reads back, whatever follows the number, as long as that does
  not begin with a digit.\<close>

lemma number_text_roundtrip:
  fixes u :: u64
  assumes "rest = [] \<or> \<not> isdigit (hd rest)"
  shows "from_string (to_string (unat u) @ rest) d = u \<and>
    (- (2 ^ 63) \<le> i \<longrightarrow> i < 2 ^ 63 \<longrightarrow> from_string_signed (to_string_signed i @ rest) e = i)"
  using from_string_to_string [OF assms, of u d] from_string_signed_to_string [OF assms] by simp


end
