(* ===== verification/RedisProtocol.thy ===== *)
theory RedisProtocol
  imports Decimal
begin

text \<open>
  \<^verbatim>\<open>net/protocol/redisprotocol.cc\<close> and \<^verbatim>\<open>redisprotocol.h\<close>: the parser of the requests and the writers of the
  responses.  A parameter is a view into the source, a position and a size.  The buffer of the source
  and the sizes read from it are far below the range of \<open>size_t\<close>, so positions are natural numbers.
\<close>

section \<open>The parser\<close>

datatype ProtocolStatus = OK | BUFFER_NOT_READ | ERROR

definition STAR :: byte where "STAR = 42"

definition DOLLAR :: byte where "DOLLAR = 36"

definition COLON :: byte where "COLON = 58"

definition PLUS :: byte where "PLUS = 43"

definition ENDLN :: str where "ENDLN = [13, 10]"

definition MAX_PARAMS :: nat where "MAX_PARAMS = 255"

definition MAX_PARAM_SIZE :: nat where "MAX_PARAM_SIZE = 0xFFFFFFF"

definition INT_BUFFER_SIZE :: nat where "INT_BUFFER_SIZE = 16"

record RedisProtocolParser =
  rp_src :: str
  rp_params :: "(nat \<times> nat) list"
  rp_pos :: nat

text \<open>\<open>readInt_\<close>: the characters that go into its buffer, \<open>n\<close> places left, and the position after them.\<close>

primrec readInt_loop :: "nat \<Rightarrow> str \<Rightarrow> nat \<Rightarrow> str \<times> nat" where
  "readInt_loop 0 src pos = ([], pos)"
| "readInt_loop (Suc n) src pos =
     (if pos < length src then
        (let c = src ! pos in
         if c \<noteq> 45 \<and> c \<noteq> 43 \<and> (c < 48 \<or> c > 57) then ([], pos)
         else (let (buff, pos) = readInt_loop n src (Suc pos) in (c # buff, pos)))
      else ([], pos))"

text \<open>The \<open>int\<close> is converted to \<open>size_t\<close> at once: a negative number becomes a huge one.\<close>

definition readInt :: "(int \<Rightarrow> u32) \<Rightarrow> RedisProtocolParser \<Rightarrow> nat \<times> RedisProtocolParser" where
  "readInt ub p =
     (let (buff, pos) = readInt_loop INT_BUFFER_SIZE (rp_src p) (rp_pos p)
      in (unat (scast (atoi ub buff) :: u64), p\<lparr>rp_pos := pos\<rparr>))"

definition readLn :: "RedisProtocolParser \<Rightarrow> ProtocolStatus \<times> RedisProtocolParser" where
  "readLn p =
     (if rp_pos p + 2 > length (rp_src p) then (BUFFER_NOT_READ, p)
      else if rp_src p ! rp_pos p = 13 \<and> rp_src p ! (rp_pos p + 1) = 10 then (OK, p\<lparr>rp_pos := rp_pos p + 2\<rparr>)
      else (ERROR, p))"

definition readParam :: "(int \<Rightarrow> u32) \<Rightarrow> RedisProtocolParser \<Rightarrow> (ProtocolStatus \<times> (nat \<times> nat)) \<times> RedisProtocolParser" where
  "readParam ub p =
     (if rp_pos p + 2 > length (rp_src p) then ((BUFFER_NOT_READ, (0, 0)), p)
      else if rp_src p ! rp_pos p \<noteq> DOLLAR then ((ERROR, (0, 0)), p)
      else
        (let p = p\<lparr>rp_pos := rp_pos p + 1\<rparr>;
             (sz, p) = readInt ub p
         in if sz > MAX_PARAM_SIZE then ((ERROR, (0, 0)), p)
            else
              (let (stat, p) = readLn p in
               if stat \<noteq> OK then ((stat, (0, 0)), p)
               else
                 (let pos_save = rp_pos p;
                      p = p\<lparr>rp_pos := rp_pos p + sz\<rparr>
                  in if rp_pos p > length (rp_src p) then ((BUFFER_NOT_READ, (0, 0)), p)
                     else
                       (let (stat, p) = readLn p in
                        if stat \<noteq> OK then ((stat, (0, 0)), p) else ((OK, (pos_save, sz)), p))))))"

text \<open>The loop over the parameters, \<open>n\<close> of them left.\<close>

primrec readParams :: "nat \<Rightarrow> (int \<Rightarrow> u32) \<Rightarrow> RedisProtocolParser \<Rightarrow> ProtocolStatus \<times> RedisProtocolParser" where
  "readParams 0 ub p = (OK, p)"
| "readParams (Suc n) ub p =
     (let ((status, data), p) = readParam ub p in
      if status = OK then readParams n ub (p\<lparr>rp_params := rp_params p @ [data]\<rparr>)
      else (status, p))"

definition parse :: "(int \<Rightarrow> u32) \<Rightarrow> RedisProtocolParser \<Rightarrow> ProtocolStatus \<times> RedisProtocolParser" where
  "parse ub p =
     (if rp_pos p + 2 > length (rp_src p) then (BUFFER_NOT_READ, p)
      else if rp_src p ! rp_pos p \<noteq> STAR then (ERROR, p)
      else
        (let p = p\<lparr>rp_pos := rp_pos p + 1\<rparr>;
             (paramsCount, p) = readInt ub p
         in if paramsCount = 0 \<or> paramsCount > MAX_PARAMS then (ERROR, p)
            else
              (let p = p\<lparr>rp_params := []\<rparr>;
                   (stat, p) = readLn p
               in if stat \<noteq> OK then (stat, p) else readParams paramsCount ub p)))"

text \<open>
  \<open>RedisProtocol::operator()\<close> on the parameters of the request before.  The result has the views over the
  new source; views that were not cleared still refer to the old one.
\<close>

definition RedisProtocol :: "(int \<Rightarrow> u32) \<Rightarrow> (nat \<times> nat) list \<Rightarrow> str \<Rightarrow> ProtocolStatus \<times> (nat \<times> nat) list" where
  "RedisProtocol ub params src =
     (let (status, p) = parse ub \<lparr>rp_src = src, rp_params = params, rp_pos = 0\<rparr> in (status, rp_params p))"

definition view :: "str \<Rightarrow> nat \<times> nat \<Rightarrow> str" where
  "view src v = (case v of (p, n) \<Rightarrow> take n (drop p src))"

section \<open>The responses\<close>

text \<open>The number of bytes that the caller reserves.\<close>

definition calc_size_str :: "str \<Rightarrow> nat" where
  "calc_size_str s = 1 + to_string_buffer_t_size + length ENDLN + length s + length ENDLN"

datatype Response =
    RespOK
  | RespBool bool
  | RespError str
  | RespString str
  | RespSimpleString str
  | RespNumber64 u64
  | RespNumberU64 u64
  | RespNumberSV str
  | RespStrings "str list"

text \<open>\<open>:0\<close> and \<open>:1\<close>, \<open>+OK\<close>, \<open>-ERR \<close>.\<close>

definition TRUE :: str where "TRUE = [58, 49]"

definition FALSE :: str where "FALSE = [58, 48]"

definition OK_text :: str where "OK_text = [43, 79, 75]"

definition ERR_text :: str where "ERR_text = [45, 69, 82, 82, 32]"

definition MAX64 :: str where
  "MAX64 = [49, 56, 52, 52, 54, 55, 52, 52, 48, 55, 51, 55, 48, 57, 53, 53, 49, 54, 49, 53]"

fun resp_size :: "Response \<Rightarrow> nat" where
  "resp_size RespOK = length OK_text + length ENDLN"
| "resp_size (RespBool bb) = length TRUE + length ENDLN"
| "resp_size (RespError msg) = length ERR_text + length msg + length ENDLN"
| "resp_size (RespString msg) = calc_size_str msg"
| "resp_size (RespSimpleString msg) = 1 + length msg + length ENDLN"
| "resp_size (RespNumber64 n) = 1 + to_string_buffer_t_size + length ENDLN"
| "resp_size (RespNumberU64 n) =
     (if n > 0x0FFFFFFFFFFFFFFF then calc_size_str MAX64 else 1 + to_string_buffer_t_size + length ENDLN)"
| "resp_size (RespNumberSV n) = 1 + length n + length ENDLN"
| "resp_size (RespStrings list) =
     1 + to_string_buffer_t_size + length ENDLN + foldl (\<lambda>sum s. sum + calc_size_str s) 0 list"

text \<open>\<open>copy\<close> writes at the pointer and moves it; the state is the buffer, the pointer and the size so far.\<close>

definition copy :: "str \<Rightarrow> str \<times> nat \<times> nat \<Rightarrow> str \<times> nat \<times> nat" where
  "copy s st = (case st of (buffer, ptr, sz) \<Rightarrow> (write_at ptr s buffer, ptr + length s, sz + length s))"

definition responceNumberSV :: "str \<Rightarrow> str \<times> nat \<times> nat \<Rightarrow> str \<times> nat \<times> nat" where
  "responceNumberSV n st = copy ENDLN (copy n (copy [COLON] st))"

definition responceStringNR :: "str \<Rightarrow> str \<times> nat \<times> nat \<Rightarrow> str \<times> nat \<times> nat" where
  "responceStringNR msg st =
     (let n = to_string (length msg) in copy ENDLN (copy msg (copy ENDLN (copy n (copy [DOLLAR] st)))))"

fun resp_write :: "Response \<Rightarrow> str \<times> nat \<times> nat \<Rightarrow> str \<times> nat \<times> nat" where
  "resp_write RespOK st = copy ENDLN (copy OK_text st)"
| "resp_write (RespBool bb) st = copy ENDLN (copy (if bb then TRUE else FALSE) st)"
| "resp_write (RespError msg) st = copy ENDLN (copy msg (copy ERR_text st))"
| "resp_write (RespString msg) st = responceStringNR msg st"
| "resp_write (RespSimpleString msg) st = copy ENDLN (copy msg (copy [PLUS] st))"
| "resp_write (RespNumber64 n) st = responceNumberSV (to_string_signed (sint n)) st"
| "resp_write (RespNumberU64 n) st =
     (if n > 0x0FFFFFFFFFFFFFFF then responceStringNR (to_string (unat n)) st
      else responceNumberSV (to_string (unat n)) st)"
| "resp_write (RespNumberSV n) st = responceNumberSV n st"
| "resp_write (RespStrings list) st =
     foldl (\<lambda>st msg. responceStringNR msg st) (copy ENDLN (copy (to_string (length list)) (copy [STAR] st))) list"

section \<open>What a response puts on the wire\<close>

definition wire_string :: "str \<Rightarrow> str" where
  "wire_string msg = DOLLAR # dec (length msg) @ ENDLN @ msg @ ENDLN"

definition wire_strings :: "str list \<Rightarrow> str" where
  "wire_strings list = STAR # dec (length list) @ ENDLN @ concat (map wire_string list)"

fun wire :: "Response \<Rightarrow> str" where
  "wire RespOK = OK_text @ ENDLN"
| "wire (RespBool bb) = (if bb then TRUE else FALSE) @ ENDLN"
| "wire (RespError msg) = ERR_text @ msg @ ENDLN"
| "wire (RespString msg) = wire_string msg"
| "wire (RespSimpleString msg) = PLUS # msg @ ENDLN"
| "wire (RespNumber64 n) = COLON # to_string_signed (sint n) @ ENDLN"
| "wire (RespNumberU64 n) =
     (if n > 0x0FFFFFFFFFFFFFFF then wire_string (dec (unat n)) else COLON # dec (unat n) @ ENDLN)"
| "wire (RespNumberSV n) = COLON # n @ ENDLN"
| "wire (RespStrings list) = wire_strings list"

text \<open>The strings of a response have lengths of 64 bits.\<close>

fun resp_fits :: "Response \<Rightarrow> bool" where
  "resp_fits (RespString msg) \<longleftrightarrow> length msg < 2 ^ 64"
| "resp_fits (RespStrings list) \<longleftrightarrow> length list < 2 ^ 64 \<and> list_all (\<lambda>msg. length msg < 2 ^ 64) list"
| "resp_fits _ \<longleftrightarrow> True"

text \<open>Writing a string after what is already written.\<close>

definition wrote :: "str \<Rightarrow> str \<times> nat \<times> nat \<Rightarrow> str \<times> nat \<times> nat \<Rightarrow> bool" where
  "wrote s st st' \<longleftrightarrow>
     (case st of (buffer, ptr, sz) \<Rightarrow>
        ptr + length s \<le> length buffer \<longrightarrow>
          st' = (take ptr buffer @ s @ drop (ptr + length s) buffer, ptr + length s, sz + length s))"

lemma wrote_copy: "wrote s st (copy s st)"
  by (auto simp: wrote_def copy_def write_at_inside)

lemma wrote_append:
  assumes "wrote s st st'" "wrote t st' st''"
  shows "wrote (s @ t) st st''"
proof -
  obtain buffer ptr sz where st: "st = (buffer, ptr, sz)" by (cases st)
  show ?thesis
  proof (cases "ptr + length (s @ t) \<le> length buffer")
    case True
    then have "ptr + length s \<le> length buffer" "min (length buffer) ptr = ptr" by auto
    then show ?thesis using True assms unfolding wrote_def st by (simp add: ac_simps)
  qed (simp add: wrote_def st)
qed

lemma wrote_copy_append: "wrote s st st' \<Longrightarrow> wrote (s @ t) st (copy t st')"
  using wrote_append wrote_copy by blast

lemma wrote_responceNumberSV: "wrote (COLON # n @ ENDLN) st (responceNumberSV n st)"
proof -
  have "wrote (([COLON] @ n) @ ENDLN) st (responceNumberSV n st)"
    unfolding responceNumberSV_def by (intro wrote_copy_append wrote_copy)
  then show ?thesis by simp
qed

lemma wrote_responceStringNR:
  assumes "length msg < 2 ^ 64"
  shows "wrote (wire_string msg) st (responceStringNR msg st)"
proof -
  have "wrote (((([DOLLAR] @ to_string (length msg)) @ ENDLN) @ msg) @ ENDLN) st (responceStringNR msg st)"
    unfolding responceStringNR_def Let_def by (intro wrote_copy_append wrote_copy)
  then show ?thesis by (simp only: wire_string_def to_string_dec [OF assms]) simp
qed

lemma wrote_strings:
  "list_all (\<lambda>msg. length msg < 2 ^ 64) list \<Longrightarrow> wrote s st st' \<Longrightarrow>
     wrote (s @ concat (map wire_string list)) st (foldl (\<lambda>st msg. responceStringNR msg st) st' list)"
proof (induction list arbitrary: s st')
  case (Cons msg list)
  then show ?case
    using Cons.IH [of "s @ wire_string msg"] wrote_append [OF Cons.prems(2) wrote_responceStringNR] by simp
qed simp

lemma unat_u64_less [simp]: "unat (n :: u64) < 18446744073709551616"
  using unsigned_less [of n] by simp

lemma length_u64_dec: "length (dec (unat (n :: u64))) \<le> 20"
  using unat_u64_less [of n] by (intro length_dec) (simp_all del: unat_u64_less)

lemma dec_u64_less: "length (dec (unat (n :: u64))) < 2 ^ 64"
  using length_u64_dec [of n] by simp

lemma resp_write_wrote:
  assumes "resp_fits r"
  shows "wrote (wire r) st (resp_write r st)"
proof (cases r)
  case (RespNumberU64 n)
  then show ?thesis
    using wrote_responceStringNR [OF dec_u64_less [of n], of st] wrote_responceNumberSV [of "dec (unat n)" st]
    by (simp add: to_string_dec)
next
  case (RespStrings list)
  have "wrote (([STAR] @ dec (length list)) @ ENDLN) st (copy ENDLN (copy (dec (length list)) (copy [STAR] st)))"
    by (intro wrote_copy_append wrote_copy)
  then show ?thesis
    using wrote_strings [of list "STAR # dec (length list) @ ENDLN"] assms
    by (simp add: RespStrings wire_strings_def to_string_dec)
next
  case (RespError msg)
  have "wrote ((ERR_text @ msg) @ ENDLN) st (copy ENDLN (copy msg (copy ERR_text st)))"
    by (intro wrote_copy_append wrote_copy)
  then show ?thesis by (simp add: RespError)
next
  case (RespSimpleString msg)
  have "wrote (([PLUS] @ msg) @ ENDLN) st (copy ENDLN (copy msg (copy [PLUS] st)))"
    by (intro wrote_copy_append wrote_copy)
  then show ?thesis by (simp add: RespSimpleString)
qed (use assms wrote_copy_append [OF wrote_copy] wrote_responceNumberSV wrote_responceStringNR in simp_all)

lemma length_wire_string: "length msg < 2 ^ 64 \<Longrightarrow> length (wire_string msg) \<le> calc_size_str msg"
  using length_dec [of "length msg" 20] by (simp add: wire_string_def calc_size_str_def to_string_buffer_t_size_def ENDLN_def)

lemma length_wire_strings:
  "list_all (\<lambda>msg. length msg < 2 ^ 64) list \<Longrightarrow>
     n + length (concat (map wire_string list)) \<le> foldl (\<lambda>sum s. sum + calc_size_str s) n list"
proof (induction list arbitrary: n)
  case (Cons msg list)
  have "length (wire_string msg) \<le> calc_size_str msg" using Cons.prems by (simp add: length_wire_string)
  then show ?case using Cons.IH [of "n + calc_size_str msg"] Cons.prems by simp
qed simp

lemma resp_size_enough:
  assumes "resp_fits r"
  shows "length (wire r) \<le> resp_size r"
proof (cases r)
  case (RespNumber64 n)
  have "length (to_string_signed (sint n)) \<le> 20"
    using sint_ge [of n] sint_less [of n] by (intro to_string_signed_dec(2)) simp_all
  then show ?thesis by (simp add: RespNumber64 to_string_buffer_t_size_def)
next
  case (RespNumberU64 n)
  then show ?thesis
    using length_wire_string [OF dec_u64_less [of n]] length_u64_dec [of n]
    by (simp add: RespNumberU64 calc_size_str_def MAX64_def to_string_buffer_t_size_def)
next
  case (RespStrings list)
  have "length (dec (length list)) \<le> 20" using assms RespStrings by (intro length_dec) simp_all
  then show ?thesis
    using length_wire_strings [of list 0] assms by (simp add: RespStrings wire_strings_def to_string_buffer_t_size_def ENDLN_def)
qed (use assms length_wire_string in \<open>simp_all add: TRUE_def FALSE_def\<close>)

section \<open>Reading what was written\<close>

lemmas const_simps = STAR_def DOLLAR_def ENDLN_def MAX_PARAMS_def MAX_PARAM_SIZE_def INT_BUFFER_SIZE_def

lemma cut_left: "w @ x = a @ b \<Longrightarrow> length w < length a \<Longrightarrow> \<exists>x'. x' \<noteq> [] \<and> w @ x' = a"
  by (auto simp: append_eq_append_conv2)

lemma cut_right: "w @ x = a @ b \<Longrightarrow> length a \<le> length w \<Longrightarrow> \<exists>w'. w = a @ w' \<and> w' @ x = b"
  by (auto simp: append_eq_append_conv2)

lemma readInt_loop_digits:
  assumes "list_all isdigit d" "length d \<le> n" "r = [] \<or> hd r = 13" "src = pre @ d @ r"
  shows "readInt_loop n src (length pre) = (d, length pre + length d)"
  using assms
proof (induction n arbitrary: d pre)
  case (Suc n)
  show ?case
  proof (cases d)
    case Nil
    then show ?thesis using Suc.prems by (cases r) auto
  next
    case (Cons c d')
    have "readInt_loop n src (length (pre @ [c])) = (d', length (pre @ [c]) + length d')"
      using Suc.prems Cons by (intro Suc.IH) auto
    then show ?thesis using Suc.prems Cons by (auto simp: isdigit_def)
  qed
qed simp

lemma scast_nonneg: "v < 2 ^ 31 \<Longrightarrow> unat (scast (of_nat v :: u32) :: u64) = v"
proof -
  assume v: "v < 2 ^ 31"
  then have "sint (of_nat v :: u32) = int v" by (simp add: signed_of_nat signed_take_bit_int_eq_self)
  then have "(scast (of_nat v :: u32) :: u64) = of_nat v" by (simp add: scast_eq)
  then show ?thesis using v by (simp add: unat_of_nat)
qed

lemma readInt_digits:
  assumes "list_all isdigit d" "length d \<le> 16" "r = [] \<or> hd r = 13" "dec_val d < 2 ^ 31"
    and "rp_src p = pre @ d @ r" "rp_pos p = length pre"
  shows "readInt ub p = (dec_val d, p\<lparr>rp_pos := length pre + length d\<rparr>)"
  using readInt_loop_digits [OF assms(1) _ assms(3,5), of 16] assms scast_nonneg [OF assms(4)]
  by (simp add: readInt_def INT_BUFFER_SIZE_def atoi_digits)

lemma readLn_short: "length (rp_src p) < rp_pos p + 2 \<Longrightarrow> readLn p = (BUFFER_NOT_READ, p)"
  by (simp add: readLn_def)

lemma readLn_ENDLN:
  "rp_src p = pre @ ENDLN @ r \<Longrightarrow> rp_pos p = length pre \<Longrightarrow> readLn p = (OK, p\<lparr>rp_pos := length pre + 2\<rparr>)"
  by (simp add: readLn_def ENDLN_def nth_append)

definition str_fits :: "str \<Rightarrow> bool" where
  "str_fits msg \<longleftrightarrow> length msg \<le> MAX_PARAM_SIZE"

lemma str_fits_dec:
  assumes "str_fits msg"
  shows "length (dec (length msg)) \<le> 16" "length msg < 2 ^ 31"
  using assms length_dec [of "length msg" 16] by (simp_all add: str_fits_def MAX_PARAM_SIZE_def)

lemma readParam_wire:
  assumes "str_fits msg" "rp_src p = pre @ wire_string msg @ r" "rp_pos p = length pre"
  shows "readParam ub p =
    ((OK, (length pre + 3 + length (dec (length msg)), length msg)), p\<lparr>rp_pos := length pre + length (wire_string msg)\<rparr>)"
proof -
  let ?d = "dec (length msg)"
  have i: "readInt ub (p\<lparr>rp_pos := Suc (length pre)\<rparr>) = (length msg, p\<lparr>rp_pos := Suc (length pre) + length ?d\<rparr>)"
    using readInt_digits [OF dec_isdigit str_fits_dec(1) [OF assms(1)], of "ENDLN @ msg @ ENDLN @ r" _ "pre @ [DOLLAR]" ub]
      str_fits_dec [OF assms(1)] assms(2) by (simp add: wire_string_def ENDLN_def)
  have l1: "readLn (p\<lparr>rp_pos := Suc (length pre) + length ?d\<rparr>) = (OK, p\<lparr>rp_pos := length pre + 3 + length ?d\<rparr>)"
    using readLn_ENDLN [of "p\<lparr>rp_pos := Suc (length pre) + length ?d\<rparr>" "pre @ DOLLAR # ?d" "msg @ ENDLN @ r"] assms(2)
    by (simp add: wire_string_def ac_simps)
  have l2: "readLn (p\<lparr>rp_pos := length pre + 3 + length ?d + length msg\<rparr>) =
      (OK, p\<lparr>rp_pos := length pre + length (wire_string msg)\<rparr>)"
    using readLn_ENDLN [of "p\<lparr>rp_pos := length pre + 3 + length ?d + length msg\<rparr>" "pre @ DOLLAR # ?d @ ENDLN @ msg" r] assms(2)
    by (simp add: wire_string_def ENDLN_def ac_simps)
  have "rp_src p ! length pre = DOLLAR" "length pre + 2 \<le> length (rp_src p)"
    "length pre + 3 + length ?d + length msg \<le> length (rp_src p)"
    using assms(2) by (simp_all add: wire_string_def ENDLN_def)
  then show ?thesis using i l1 l2 assms(1,3) by (simp add: readParam_def str_fits_def Let_def)
qed

text \<open>A number that is cut off, or followed by a single character, is not the end of a line.\<close>

lemma cut_number:
  assumes "w @ x = dec n @ ENDLN" "x \<noteq> []" "w \<noteq> []"
  obtains k r where "0 < k" "w = take k (dec n) @ r" "r = [] \<or> hd r = 13" "length r < 2" "r = [] \<or> length (dec n) \<le> k"
proof (cases "length w \<le> length (dec n)")
  case True
  then have "w = take (length w) (dec n)" using assms(1) by (metis append_eq_append_conv_if)
  then show ?thesis using that [of "length w" "[]"] assms(3) by simp
next
  case False
  then obtain w' where "w = dec n @ w'" "w' @ x = [13, 10]" "w' \<noteq> []"
    using cut_right [OF assms(1)] by (auto simp: ENDLN_def)
  then have "w = dec n @ [13]" using assms(2) by (auto simp: append_eq_Cons_conv)
  then show ?thesis using that [of "length (dec n)" "[13]"] by simp
qed

lemma readInt_cut:
  assumes "w @ x = dec n @ ENDLN" "x \<noteq> []" "w \<noteq> []" "length (dec n) \<le> 16" "n < 2 ^ 31"
    and "rp_src p = pre @ w" "rp_pos p = length pre"
  shows "\<exists>v q. readInt ub p = (v, p\<lparr>rp_pos := q\<rparr>) \<and> v \<le> n \<and> (0 < n \<longrightarrow> 0 < v) \<and> length (rp_src p) < q + 2"
proof -
  obtain k r where k: "0 < k" "w = take k (dec n) @ r" "r = [] \<or> hd r = 13" "length r < 2" "r = [] \<or> length (dec n) \<le> k"
    using cut_number [OF assms(1-3)] .
  let ?d = "take k (dec n)"
  have d: "list_all isdigit ?d" "length ?d \<le> 16" "dec_val ?d \<le> n"
    using dec_isdigit [of n] assms(4) dec_val_take_le [of k "dec n"] by (auto simp: list_all_iff dest: in_set_takeD)
  then have "readInt ub p = (dec_val ?d, p\<lparr>rp_pos := length pre + length ?d\<rparr>)"
    using readInt_digits [OF d(1,2) k(3)] assms(5-7) k(2) by simp
  moreover have "0 < n \<longrightarrow> 0 < dec_val ?d" using dec_val_take_pos k(1) by blast
  moreover have "length (rp_src p) < length pre + length ?d + 2" using assms(6) k(2,4) by simp
  ultimately show ?thesis using d(3) by blast
qed

lemma readParam_cut:
  assumes "str_fits msg" "w @ x = wire_string msg" "x \<noteq> []" "rp_src p = pre @ w" "rp_pos p = length pre"
  shows "\<exists>v p'. readParam ub p = ((BUFFER_NOT_READ, v), p')"
proof (cases "length w < 2")
  case True
  then show ?thesis using assms by (simp add: readParam_def)
next
  case False
  let ?d = "dec (length msg)"
  obtain w' where w': "w = DOLLAR # w'" "w' \<noteq> []" "w' @ x = (?d @ ENDLN) @ msg @ ENDLN"
    using False assms(2) by (cases w) (auto simp: wire_string_def)
  let ?p = "p\<lparr>rp_pos := Suc (length pre)\<rparr>"
  have src: "rp_src ?p = (pre @ [DOLLAR]) @ w'" "rp_pos ?p = length (pre @ [DOLLAR])" using assms(4) w'(1) by simp_all
  have st: "rp_src p ! length pre = DOLLAR" "length pre + 2 \<le> length (rp_src p)"
    using assms(4) w'(1,2) by (cases w'; simp)+
  show ?thesis
  proof (cases "length w' < length (?d @ ENDLN)")
    case True
    then obtain x' where "w' @ x' = ?d @ ENDLN" "x' \<noteq> []"
      using cut_left [OF w'(3)] by blast
    then obtain v q where "readInt ub ?p = (v, ?p\<lparr>rp_pos := q\<rparr>)" "v \<le> length msg" "length (rp_src ?p) < q + 2"
      using readInt_cut [OF _ _ w'(2) str_fits_dec [OF assms(1)] src, of x' ub] by blast
    then show ?thesis
      using st assms(1,5) readLn_short [of "p\<lparr>rp_pos := q\<rparr>"] by (simp add: readParam_def str_fits_def Let_def)
  next
    case False
    then obtain w'' where w'': "w' = ?d @ ENDLN @ w''" "w'' @ x = msg @ ENDLN"
      using cut_right [OF w'(3)] by auto
    have i: "readInt ub ?p = (length msg, p\<lparr>rp_pos := Suc (length pre) + length ?d\<rparr>)"
      using readInt_digits [OF dec_isdigit str_fits_dec(1) [OF assms(1)], of "ENDLN @ w''" ?p "pre @ [DOLLAR]" ub]
        str_fits_dec [OF assms(1)] src(1) w''(1) by (simp add: ENDLN_def)
    have l1: "readLn (p\<lparr>rp_pos := Suc (length pre) + length ?d\<rparr>) = (OK, p\<lparr>rp_pos := length pre + 3 + length ?d\<rparr>)"
      using readLn_ENDLN [of "p\<lparr>rp_pos := Suc (length pre) + length ?d\<rparr>" "pre @ DOLLAR # ?d" w''] src(1) w''(1)
      by (simp add: ac_simps)
    have "length (rp_src p) = length pre + 3 + length ?d + length w''" "length w'' < length msg + 2"
      using src(1) w''(1) arg_cong [OF w''(2), of length] assms(3) by (simp_all add: ENDLN_def flip: length_greater_0_conv)
    then have "readLn (p\<lparr>rp_pos := length pre + 3 + length ?d + length msg\<rparr>) =
      (BUFFER_NOT_READ, p\<lparr>rp_pos := length pre + 3 + length ?d + length msg\<rparr>)"
      by (intro readLn_short) simp
    then show ?thesis using st i l1 assms(1,5) by (simp add: readParam_def str_fits_def Let_def)
  qed
qed

lemma view_append: "p + n \<le> length src \<Longrightarrow> view (src @ m) (p, n) = view src (p, n)"
  by (simp add: view_def)

lemma view_mid: "view (a @ s @ b) (length a, length s) = s"
  by (simp add: view_def)

lemma readParams_wire:
  assumes "list_all str_fits ss" "rp_src p = pre @ concat (map wire_string ss) @ r" "rp_pos p = length pre"
  shows "\<exists>p'. readParams (length ss) ub p = (OK, p') \<and> map (view (rp_src p)) (rp_params p') = map (view (rp_src p)) (rp_params p) @ ss"
  using assms
proof (induction ss arbitrary: p pre)
  case (Cons msg ss)
  let ?v = "(length pre + 3 + length (dec (length msg)), length msg)"
  let ?p = "p\<lparr>rp_pos := length (pre @ wire_string msg), rp_params := rp_params p @ [?v]\<rparr>"
  have r: "readParam ub p = ((OK, ?v), p\<lparr>rp_pos := length (pre @ wire_string msg)\<rparr>)"
    using readParam_wire [of msg p pre "concat (map wire_string ss) @ r" ub] Cons.prems by simp
  have v: "view (rp_src p) ?v = msg"
    using Cons.prems(2) view_mid [of "pre @ DOLLAR # dec (length msg) @ ENDLN" msg]
    by (simp add: wire_string_def [of msg] ENDLN_def numeral_3_eq_3)
  obtain p' where "readParams (length ss) ub ?p = (OK, p')"
      "map (view (rp_src ?p)) (rp_params p') = map (view (rp_src ?p)) (rp_params ?p) @ ss"
    using Cons.IH [of ?p "pre @ wire_string msg"] Cons.prems by auto
  then show ?case using r v by simp
qed simp

lemma readParams_cut:
  assumes "list_all str_fits ss" "w @ x = concat (map wire_string ss)" "x \<noteq> []" "rp_src p = pre @ w" "rp_pos p = length pre"
  shows "fst (readParams (length ss) ub p) = BUFFER_NOT_READ"
  using assms
proof (induction ss arbitrary: p pre w)
  case (Cons msg ss)
  show ?case
  proof (cases "length w < length (wire_string msg)")
    case True
    then obtain x' where "w @ x' = wire_string msg" "x' \<noteq> []"
      using cut_left [of w x "wire_string msg"] Cons.prems(2) by auto
    then obtain v p' where "readParam ub p = ((BUFFER_NOT_READ, v), p')"
      using readParam_cut [of msg w x' p pre ub] Cons.prems by auto
    then show ?thesis by simp
  next
    case False
    then obtain w' where w': "w = wire_string msg @ w'" "w' @ x = concat (map wire_string ss)"
      using cut_right [of w x "wire_string msg"] Cons.prems(2) by auto
    let ?v = "(length pre + 3 + length (dec (length msg)), length msg)"
    have "readParam ub p = ((OK, ?v), p\<lparr>rp_pos := length (pre @ wire_string msg)\<rparr>)"
      using readParam_wire [of msg p pre w' ub] Cons.prems w'(1) by simp
    moreover have "fst (readParams (length ss) ub (p\<lparr>rp_pos := length (pre @ wire_string msg), rp_params := rp_params p @ [?v]\<rparr>)) =
        BUFFER_NOT_READ"
      using Cons.IH [OF _ w'(2) Cons.prems(3), of _ "pre @ wire_string msg"] Cons.prems w'(1) by simp
    ultimately show ?thesis by simp
  qed
qed simp

lemma parse_wire:
  assumes "list_all str_fits ss" "ss \<noteq> []" "length ss \<le> MAX_PARAMS"
  shows "\<exists>params. RedisProtocol ub old (wire_strings ss @ r) = (OK, params) \<and> map (view (wire_strings ss @ r)) params = ss"
proof -
  let ?d = "dec (length ss)" and ?src = "wire_strings ss @ r"
  let ?p = "\<lambda>params pos. \<lparr>rp_src = ?src, rp_params = params, rp_pos = pos\<rparr>"
  have c: "?src = [STAR] @ ?d @ ENDLN @ concat (map wire_string ss) @ r" by (simp add: wire_strings_def)
  have "length ?d \<le> 16" using assms(3) by (intro length_dec) (simp_all add: MAX_PARAMS_def)
  then have i: "readInt ub (?p old (Suc 0)) = (length ss, ?p old (1 + length ?d))"
    using readInt_digits [OF dec_isdigit, of "length ss" "ENDLN @ concat (map wire_string ss) @ r" "?p old (Suc 0)" "[STAR]" ub]
      assms(3) c by (simp add: ENDLN_def MAX_PARAMS_def)
  have l: "readLn (?p [] (1 + length ?d)) = (OK, ?p [] (3 + length ?d))"
    using readLn_ENDLN [of "?p [] (1 + length ?d)" "STAR # ?d" "concat (map wire_string ss) @ r"] c by simp
  obtain p' where "readParams (length ss) ub (?p [] (3 + length ?d)) = (OK, p')" "map (view ?src) (rp_params p') = ss"
    using readParams_wire [OF assms(1), of "?p [] (3 + length ?d)" "STAR # ?d @ ENDLN" r ub] c by (auto simp: ENDLN_def)
  moreover have "?src ! 0 = STAR" "2 \<le> length ?src" using c by (simp_all add: ENDLN_def)
  ultimately show ?thesis
    using i l assms(2,3) by (simp add: RedisProtocol_def parse_def)
qed

lemma parse_cut:
  assumes "list_all str_fits ss" "ss \<noteq> []" "length ss \<le> MAX_PARAMS" "w @ x = wire_strings ss" "x \<noteq> []"
  shows "fst (RedisProtocol ub old w) = BUFFER_NOT_READ"
proof (cases "length w < 2")
  case True
  then show ?thesis by (simp add: RedisProtocol_def parse_def)
next
  case False
  let ?d = "dec (length ss)"
  let ?p = "\<lambda>params pos. \<lparr>rp_src = w, rp_params = params, rp_pos = pos\<rparr>"
  obtain w' where w': "w = STAR # w'" "w' \<noteq> []" "w' @ x = (?d @ ENDLN) @ concat (map wire_string ss)"
    using False assms(4) by (cases w) (auto simp: wire_strings_def)
  have d: "length ?d \<le> 16" "length ss < 2 ^ 31"
    using assms(3) length_dec [of "length ss" 16] by (simp_all add: MAX_PARAMS_def)
  show ?thesis
  proof (cases "length w' < length (?d @ ENDLN)")
    case True
    then obtain x' where "w' @ x' = ?d @ ENDLN" "x' \<noteq> []" using cut_left [OF w'(3)] by blast
    then obtain v q where v: "readInt ub (?p old (Suc 0)) = (v, ?p old q)" "v \<le> length ss" "0 < v" "length w < q + 2"
      using readInt_cut [OF _ _ w'(2) d, of x' "?p old (Suc 0)" "[STAR]" ub] w'(1) assms(2) by auto
    then have "readLn (?p [] q) = (BUFFER_NOT_READ, ?p [] q)" by (intro readLn_short) simp
    then show ?thesis using v False w'(1) assms(3) by (simp add: RedisProtocol_def parse_def)
  next
    case F: False
    then obtain w'' where w'': "w' = ?d @ ENDLN @ w''" "w'' @ x = concat (map wire_string ss)"
      using cut_right [OF w'(3)] by auto
    have i: "readInt ub (?p old (Suc 0)) = (length ss, ?p old (1 + length ?d))"
      using readInt_digits [OF dec_isdigit d(1), of "ENDLN @ w''" "?p old (Suc 0)" "[STAR]" ub] d(2) w'(1) w''(1)
      by (simp add: ENDLN_def)
    have l: "readLn (?p [] (1 + length ?d)) = (OK, ?p [] (3 + length ?d))"
      using readLn_ENDLN [of "?p [] (1 + length ?d)" "STAR # ?d" w''] w'(1) w''(1) by simp
    have "fst (readParams (length ss) ub (?p [] (3 + length ?d))) = BUFFER_NOT_READ"
      using readParams_cut [OF assms(1) w''(2) assms(5), of "?p [] (3 + length ?d)" "STAR # ?d @ ENDLN" ub] w'(1) w''(1)
      by (simp add: ENDLN_def)
    then show ?thesis
      using i l False w'(1) assms(2,3) by (auto simp: RedisProtocol_def parse_def split: prod.split)
  qed
qed

section \<open>Any input\<close>

text \<open>What is read of a source stays when more of it arrives.\<close>

definition rp_more :: "RedisProtocolParser \<Rightarrow> str \<Rightarrow> RedisProtocolParser" where
  "rp_more p m = p\<lparr>rp_src := rp_src p @ m\<rparr>"

lemma rp_more_simps [simp]:
  "rp_src (rp_more p m) = rp_src p @ m" "rp_pos (rp_more p m) = rp_pos p" "rp_params (rp_more p m) = rp_params p"
  "rp_more (p\<lparr>rp_pos := q\<rparr>) m = (rp_more p m)\<lparr>rp_pos := q\<rparr>"
  "rp_more (p\<lparr>rp_params := v\<rparr>) m = (rp_more p m)\<lparr>rp_params := v\<rparr>"
  "rp_more \<lparr>rp_src = s, rp_params = v, rp_pos = q\<rparr> m = \<lparr>rp_src = s @ m, rp_params = v, rp_pos = q\<rparr>"
  by (simp_all add: rp_more_def)

lemma readInt_loop_more:
  "readInt_loop n src pos = (b, q) \<Longrightarrow> q < length src \<Longrightarrow> readInt_loop n (src @ m) pos = (b, q)"
proof (induction n arbitrary: pos b)
  case (Suc n)
  then show ?case by (auto simp: nth_append Let_def split: if_splits prod.splits)
qed simp

lemma readLn_more:
  "readLn p = (OK, p') \<Longrightarrow> readLn (rp_more p m) = (OK, rp_more p' m) \<and> p' = p\<lparr>rp_pos := rp_pos p + 2\<rparr> \<and> rp_pos p + 2 \<le> length (rp_src p)"
  by (auto simp: readLn_def nth_append split: if_splits)

lemma readInt_more:
  "readInt ub p = (v, p') \<Longrightarrow> rp_pos p' < length (rp_src p) \<Longrightarrow>
     readInt ub (rp_more p m) = (v, rp_more p' m) \<and> (\<exists>q. p' = p\<lparr>rp_pos := q\<rparr>)"
  using readInt_loop_more [of INT_BUFFER_SIZE "rp_src p" "rp_pos p" _ _ m]
  by (auto simp: readInt_def split: prod.splits)

lemma readParam_more:
  assumes "readParam ub p = ((OK, (a, n)), p')"
  shows "readParam ub (rp_more p m) = ((OK, (a, n)), rp_more p' m) \<and> a + n \<le> length (rp_src p) \<and>
    rp_src p' = rp_src p \<and> rp_params p' = rp_params p"
proof -
  let ?p = "p\<lparr>rp_pos := rp_pos p + 1\<rparr>"
  have g: "rp_pos p + 2 \<le> length (rp_src p)" "rp_src p ! rp_pos p = DOLLAR"
    using assms by (auto simp: readParam_def split: if_splits)
  obtain sz p1 where i: "readInt ub ?p = (sz, p1)" by (cases "readInt ub ?p")
  obtain s2 p2 where l: "readLn p1 = (s2, p2)" by (cases "readLn p1")
  let ?p2 = "p2\<lparr>rp_pos := rp_pos p2 + sz\<rparr>"
  obtain s3 p3 where l': "readLn ?p2 = (s3, p3)" by (cases "readLn ?p2")
  have ok: "sz \<le> MAX_PARAM_SIZE" "s2 = OK" "rp_pos p2 + sz \<le> length (rp_src p2)" "s3 = OK" "a = rp_pos p2" "n = sz" "p' = p3"
    using assms g i l l' by (auto simp: readParam_def Let_def split: if_splits)
  have s1: "rp_src p1 = rp_src p" "rp_params p1 = rp_params p"
    using i by (auto simp: readInt_def split: prod.splits)
  have 2: "readLn (rp_more p1 m) = (OK, rp_more p2 m)" "p2 = p1\<lparr>rp_pos := rp_pos p1 + 2\<rparr>" "rp_pos p1 + 2 \<le> length (rp_src p1)"
    using readLn_more [of p1 p2 m] l ok(2) by auto
  have 3: "readLn (rp_more ?p2 m) = (OK, rp_more p3 m)" "p3 = ?p2\<lparr>rp_pos := rp_pos ?p2 + 2\<rparr>"
    using readLn_more [of ?p2 p3 m] l' ok(4) by auto
  have 1: "readInt ub (rp_more ?p m) = (sz, rp_more p1 m)" using readInt_more [OF i, of m] s1(1) 2(3) by simp
  have "readParam ub (rp_more p m) = ((OK, (a, n)), rp_more p' m)"
    using g 1 2(1) 3(1) ok by (simp add: readParam_def nth_append)
  then show ?thesis using ok(3,5-7) s1 2(2) 3(2) by simp
qed

lemma readParams_more:
  "readParams k ub p = (OK, p') \<Longrightarrow> \<forall>(a, n) \<in> set (rp_params p). a + n \<le> length (rp_src p) \<Longrightarrow>
     readParams k ub (rp_more p m) = (OK, rp_more p' m) \<and> length (rp_params p') = length (rp_params p) + k \<and>
     (\<forall>(a, n) \<in> set (rp_params p'). a + n \<le> length (rp_src p))"
proof (induction k arbitrary: p)
  case (Suc k)
  obtain st a n p1 where r: "readParam ub p = ((st, (a, n)), p1)" by (metis prod.exhaust)
  then have st: "st = OK" "readParams k ub (p1\<lparr>rp_params := rp_params p1 @ [(a, n)]\<rparr>) = (OK, p')"
    using Suc.prems(1) by (simp_all split: if_splits)
  have m: "readParam ub (rp_more p m) = ((OK, (a, n)), rp_more p1 m)" "a + n \<le> length (rp_src p)" "rp_src p1 = rp_src p" "rp_params p1 = rp_params p"
    using readParam_more [of ub p a n p1 m] r st(1) by auto
  show ?case using Suc.IH [OF st(2)] Suc.prems(2) m by auto
qed auto

lemma parse_more:
  assumes "RedisProtocol ub old src = (OK, params)"
  shows "RedisProtocol ub old (src @ m) = (OK, params) \<and> 1 \<le> length params \<and> length params \<le> MAX_PARAMS \<and>
    (\<forall>(a, n) \<in> set params. a + n \<le> length src)"
proof -
  let ?p = "\<lambda>params pos. \<lparr>rp_src = src, rp_params = params, rp_pos = pos\<rparr>"
  have g: "2 \<le> length src" "src ! 0 = STAR"
    using assms by (auto simp: RedisProtocol_def parse_def split: if_splits prod.splits)
  obtain k q where i: "readInt ub (?p old 1) = (k, ?p old q)"
    by (cases "readInt ub (?p old 1)") (auto simp: readInt_def split: prod.splits)
  obtain s2 p2 where l: "readLn (?p [] q) = (s2, p2)" by (cases "readLn (?p [] q)")
  obtain s3 p3 where r: "readParams k ub p2 = (s3, p3)" by (cases "readParams k ub p2")
  have ok: "k \<noteq> 0" "k \<le> MAX_PARAMS" "s2 = OK" "s3 = OK" "params = rp_params p3"
    using assms g i l r by (auto simp: RedisProtocol_def parse_def split: if_splits)
  have 2: "readLn (rp_more (?p [] q) m) = (OK, rp_more p2 m)" "p2 = ?p [] (q + 2)" "q + 2 \<le> length src"
    using readLn_more [of "?p [] q" p2 m] l ok(3) by auto
  have 3: "readParams k ub (rp_more p2 m) = (OK, rp_more p3 m)" "length params = k" "\<forall>(a, n) \<in> set params. a + n \<le> length src"
    using readParams_more [of k ub p2 p3 m] r ok(4,5) 2(2) by auto
  have 1: "readInt ub (rp_more (?p old 1) m) = (k, rp_more (?p old q) m)" using readInt_more [OF i, of m] 2(3) by simp
  have "(src @ m) ! 0 = STAR" using g by (cases src) simp_all
  then have "RedisProtocol ub old (src @ m) = (OK, params)"
    using g 1 2(1) 3(1) ok by (simp add: RedisProtocol_def parse_def)
  then show ?thesis using 3(2,3) ok(1,2) by simp
qed

section \<open>Properties\<close>

text \<open>
  C39: requests arrive as they were sent.  A non-empty list of up to 255 strings, each of at most
  \<open>MAX_PARAM_SIZE\<close> (268435455) bytes, that is written as an array of strings is parsed back into
  the same strings, whatever follows it in the buffer, and for every beginning of it that is shorter the
  parser asks for more data and reports no error, so a request may arrive in any pieces.
\<close>

theorem redis_requests_roundtrip:
  assumes "ss \<noteq> []" "length ss \<le> MAX_PARAMS" "list_all str_fits ss" "resp_size (RespStrings ss) \<le> length buffer"
    and "resp_write (RespStrings ss) (buffer, 0, 0) = (buffer', n, sz)"
  shows "n = sz \<and>
    (\<exists>params. RedisProtocol ub old (take n buffer' @ rest) = (OK, params) \<and> map (view (take n buffer' @ rest)) params = ss) \<and>
    (\<forall>k < n. fst (RedisProtocol ub old (take k buffer')) = BUFFER_NOT_READ)"
proof -
  have fits: "resp_fits (RespStrings ss)"
    using assms(2,3) by (auto simp: list_all_iff str_fits_def MAX_PARAMS_def MAX_PARAM_SIZE_def)
  have "wrote (wire_strings ss) (buffer, 0, 0) (buffer', n, sz)"
    using resp_write_wrote [OF fits, of "(buffer, 0, 0)"] assms(5) by simp
  moreover have "length (wire_strings ss) \<le> length buffer" using resp_size_enough [OF fits] assms(4) by simp
  ultimately have w: "take n buffer' = wire_strings ss" "n = length (wire_strings ss)" "n = sz"
    by (simp_all add: wrote_def)
  have "fst (RedisProtocol ub old (take k buffer')) = BUFFER_NOT_READ" if "k < n" for k
  proof -
    have "take k buffer' = take k (wire_strings ss)" using that by (simp add: w(1) [symmetric] min_absorb1)
    then show ?thesis using parse_cut [OF assms(3,1,2) append_take_drop_id, of k] that w(2) by simp
  qed
  then show ?thesis using parse_wire [OF assms(3,1,2)] w by metis
qed

theorem redis_requests_roundtrip_witness:
  "\<exists>params. RedisProtocol (\<lambda>_. 0) [] ([42, 49, 13, 10, 36, 52, 13, 10, 80, 73, 78, 71, 13, 10] @ [42]) = (OK, params) \<and>
     map (view ([42, 49, 13, 10, 36, 52, 13, 10, 80, 73, 78, 71, 13, 10] @ [42])) params = [[80, 73, 78, 71]]"
proof -
  have "resp_write (RespStrings [[80, 73, 78, 71]]) (replicate 120 0, 0, 0) =
      ([42, 49, 13, 10, 36, 52, 13, 10, 80, 73, 78, 71, 13, 10] @ replicate 106 0, 14, 14)"
    by code_simp
  from redis_requests_roundtrip [OF _ _ _ _ this, of "\<lambda>_. 0" "[]" "[42]"] show ?thesis
    by (simp add: MAX_PARAMS_def str_fits_def MAX_PARAM_SIZE_def calc_size_str_def to_string_buffer_t_size_def ENDLN_def)
qed

text \<open>
  C40: the parser never hands out memory that is not its own.  Whatever bytes it gets, and whatever
  \<open>atoi\<close> makes of numbers out of range, after a successful parse there are between 1 and 255
  parameters, each of them lies inside the source, and the result stays the same when more data has arrived.
\<close>

theorem redis_params_inside:
  assumes "RedisProtocol ub old src = (OK, params)"
  shows "1 \<le> length params \<and> length params \<le> MAX_PARAMS \<and> (\<forall>(a, n) \<in> set params. a + n \<le> length src) \<and>
    RedisProtocol ub old (src @ later) = (OK, params)"
  using parse_more [OF assms] by blast

theorem redis_params_inside_witness:
  "\<exists>params. RedisProtocol (\<lambda>_. 0) [] (wire_strings [[97]] @ [1, 2, 3]) = (OK, params) \<and>
     length params \<le> MAX_PARAMS \<and> list_all (\<lambda>(a, n). a + n \<le> length (wire_strings [[97]])) params"
proof -
  obtain params where "RedisProtocol (\<lambda>_. 0) [] (wire_strings [[97]]) = (OK, params)"
    using parse_wire [of "[[97]]" "\<lambda>_. 0" "[]" "[]"] by (auto simp: MAX_PARAMS_def str_fits_def MAX_PARAM_SIZE_def)
  from redis_params_inside [OF this, of "[1, 2, 3]"] show ?thesis unfolding list_all_iff by blast
qed

text \<open>
  The space that is reserved for a response is enough.  Every response writes no more than the number of
  bytes that its \<open>size\<close> announced, the rest of the buffer stays as it was, and the returned size
  is the number of bytes written.
\<close>

lemma redis_response_fits:
  assumes "resp_fits r" "ptr + resp_size r \<le> length buffer"
  shows "\<exists>s. resp_write r (buffer, ptr, 0) = (take ptr buffer @ s @ drop (ptr + length s) buffer, ptr + length s, length s) \<and>
    length s \<le> resp_size r"
proof (intro exI conjI)
  show "resp_write r (buffer, ptr, 0) =
      (take ptr buffer @ wire r @ drop (ptr + length (wire r)) buffer, ptr + length (wire r), length (wire r))"
    using resp_write_wrote [OF assms(1), of "(buffer, ptr, 0)"] resp_size_enough [OF assms(1)] assms(2)
    by (simp add: wrote_def)
qed (rule resp_size_enough [OF assms(1)])


end
