(* ===== verification/Commands.thy ===== *)
theory Commands
  imports IList RedisProtocol DiskFile Murmur
begin

text \<open>
  The commands of the key value worker, \<^verbatim>\<open>net/worker/keyvaluecommands\<close>: \<^verbatim>\<open>cmd_immutable.h\<close>,
  \<^verbatim>\<open>cmd_mutable.h\<close>, \<^verbatim>\<open>cmd_mutable_get.h\<close>, \<^verbatim>\<open>cmd_cas.h\<close>, \<^verbatim>\<open>cmd_copy.h\<close>, \<^verbatim>\<open>cmd_counter.h\<close>,
  \<^verbatim>\<open>cmd_compat.h\<close>, \<^verbatim>\<open>cmd_murmur.h\<close> and part of \<^verbatim>\<open>cmd_info.h\<close>, with the messages of
  \<^verbatim>\<open>net/worker/workerdefs.h\<close> and the saturating arithmetic of \<^verbatim>\<open>include/checkoverflow.h\<close>.  A command
  takes the list, the clock and the parameters, the name of the command first; it gives the response
  and the list that it leaves.
\<close>

type_synonym 'l command = "'l list_ops \<Rightarrow> u64 \<Rightarrow> str list \<Rightarrow> 'l \<Rightarrow> Response \<times> 'l"

section \<open>Messages\<close>

definition ascii :: "string \<Rightarrow> str" where
  "ascii s = map of_char s"

definition SYS_NOT_IMPLEMENTED :: str where "SYS_NOT_IMPLEMENTED = ascii ''Not Implemented''"
definition SYS_PROTOCOL_BREAK :: str where "SYS_PROTOCOL_BREAK = ascii ''General Bad Request / Not Implemented''"
definition NEED_EXACT_PARAMS_1 :: str where "NEED_EXACT_PARAMS_1 = ascii ''The command needs exactly 1 parameter''"
definition NEED_EXACT_PARAMS_2 :: str where "NEED_EXACT_PARAMS_2 = ascii ''The command needs exactly 2 parameters''"
definition NEED_EXACT_PARAMS_3 :: str where "NEED_EXACT_PARAMS_3 = ascii ''The command needs exactly 3 parameters''"
definition NEED_EXACT_PARAMS_4 :: str where "NEED_EXACT_PARAMS_4 = ascii ''The command needs exactly 4 parameters''"
definition NEED_EXACT_PARAMS_12 :: str where "NEED_EXACT_PARAMS_12 = ascii ''The command needs exactly 1 or 2 parameters''"
definition NEED_EXACT_PARAMS_23 :: str where "NEED_EXACT_PARAMS_23 = ascii ''The command needs exactly 2 or 3 parameters''"
definition NEED_EXACT_PARAMS_34 :: str where "NEED_EXACT_PARAMS_34 = ascii ''The command needs exactly 3 or 4 parameters''"
definition NEED_EXACT_PARAMS_234 :: str where "NEED_EXACT_PARAMS_234 = ascii ''The command needs exactly 2, 3 or 4 parameters''"
definition NEED_MORE_PARAMS_1 :: str where "NEED_MORE_PARAMS_1 = ascii ''The command needs 1 or more parameters''"
definition NEED_MORE_PARAMS_2 :: str where "NEED_MORE_PARAMS_2 = ascii ''The command needs 2 or more parameters''"
definition NEED_MORE_PARAMS_3 :: str where "NEED_MORE_PARAMS_3 = ascii ''The command needs 3 or more parameters''"
definition NEED_GROUP_PARAMS_2 :: str where "NEED_GROUP_PARAMS_2 = ascii ''The command needs 2 or more parameters in groups''"
definition NEED_GROUP_PARAMS_3 :: str where "NEED_GROUP_PARAMS_3 = ascii ''The command needs 3 or more parameters in groups''"
definition EMPTY_KEY :: str where "EMPTY_KEY = ascii ''The key can not be empty''"
definition EMPTY_VAL :: str where "EMPTY_VAL = ascii ''The value can not be empty''"
definition CONTAINER_CAPACITY :: str where "CONTAINER_CAPACITY = ascii ''Container capacity error''"
definition INTERNAL_ERROR :: str where "INTERNAL_ERROR = ascii ''Internal error''"
definition INVALID_PARAMETERS :: str where "INVALID_PARAMETERS = ascii ''Invalid parameters''"
definition INVALID_KEY_SIZE :: str where "INVALID_KEY_SIZE = ascii ''Invalid key size''"

section \<open>Results\<close>

text \<open>\<open>result.set_0()\<close> and \<open>result.set_1()\<close>.\<close>

definition set_0 :: Response where "set_0 = RespNumberSV [48]"

definition set_1 :: Response where "set_1 = RespNumberSV [49]"

definition SEPARATOR :: str where "SEPARATOR = [126]"

text \<open>
  \<open>concatenateBuffer(bufferKey, keyN, DBAdapter::SEPARATOR, subN)\<close> with a \<open>PairBufferKey\<close> on the stack;
  what the buffer held does not matter.
\<close>

definition compositeKey :: "str \<Rightarrow> str \<Rightarrow> str" where
  "compositeKey keyN subN = snd (concatenateBuffer (replicate MAX_KEY_SIZE 0) [keyN, SEPARATOR, subN])"

text \<open>A loop \<open>for(itk = begin; itk != end; itk += 2)\<close> visits the pairs of parameters.\<close>

fun groups2 :: "str list \<Rightarrow> (str \<times> str) list" where
  "groups2 (a # b # xs) = (a, b) # groups2 xs"
| "groups2 xs = []"

section \<open>\<^verbatim>\<open>cmd_immutable.h\<close>\<close>

definition GET :: "'l command" where
  "GET L now p l =
     (if length p \<noteq> 2 then (RespError NEED_EXACT_PARAMS_1, l)
      else let key = p ! 1 in
      if \<not> isKeyValid key then (RespError EMPTY_KEY, l)
      else (RespString (getPairVal now (l_getPair L) l key), l))"

definition MGET :: "'l command" where
  "MGET L now p l =
     (if length p < 2 then (RespError NEED_MORE_PARAMS_1, l)
      else let keys = drop 1 p in
      if \<not> list_all isKeyValid keys then (RespError EMPTY_KEY, l)
      else (RespStrings (map (getPairVal now (l_getPair L) l) keys), l))"

definition EXISTS :: "'l command" where
  "EXISTS L now p l =
     (if length p \<noteq> 2 then (RespError NEED_EXACT_PARAMS_1, l)
      else let key = p ! 1 in
      if \<not> isKeyValid key then (RespError EMPTY_KEY, l)
      else (RespBool (getPairOK now (l_getPair L) l key), l))"

definition TTL :: "'l command" where
  "TTL L now p l =
     (if length p \<noteq> 2 then (RespError NEED_EXACT_PARAMS_1, l)
      else let key = p ! 1 in
      if \<not> isKeyValid key then (RespError EMPTY_KEY, l)
      else (RespNumberU64 (getPairOK_pred now (l_getPair L) l key
              (\<lambda>b q. if b then ucast (getTTL now (snd (the q))) else 0)), l))"

definition EXPIRETIME :: "'l command" where
  "EXPIRETIME L now p l =
     (if length p \<noteq> 2 then (RespError NEED_EXACT_PARAMS_1, l)
      else let key = p ! 1 in
      if \<not> isKeyValid key then (RespError EMPTY_KEY, l)
      else (RespNumberU64 (getPairOK_pred now (l_getPair L) l key
              (\<lambda>b q. if b then ucast (getExpiresAt (snd (the q))) else 0)), l))"

definition DUMP :: "'l command" where
  "DUMP L now p l =
     (if length p \<noteq> 2 then (RespError NEED_EXACT_PARAMS_1, l)
      else let key = p ! 1 in
      if \<not> isKeyValid key then (RespError EMPTY_KEY, l)
      else case l_getPair L l key of
             Some q \<Rightarrow> (RespString (pair_image (snd q)), l)
           | None \<Rightarrow> (RespString [], l))"

definition SIZEOF :: "'l command" where
  "SIZEOF L now p l =
     (if length p \<noteq> 2 then (RespError NEED_EXACT_PARAMS_1, l)
      else let key = p ! 1 in
      if \<not> isKeyValid key then (RespError EMPTY_KEY, l)
      else (RespNumberU64 (getPairOK_pred now (l_getPair L) l key
              (\<lambda>b q. if b then size_t (bytes (snd (the q))) else 0)), l))"

text \<open>\<open>val.substr(start, finish - start + 1)\<close>: the difference is taken in \<open>uint64_t\<close>.\<close>

definition GETRANGE :: "'l command" where
  "GETRANGE L now p l =
     (if length p \<noteq> 4 then (RespError NEED_EXACT_PARAMS_3, l)
      else let key = p ! 1;
               start = from_string (p ! 2) (0 :: u64);
               finish = from_string (p ! 3) (0 :: u64) in
      if \<not> isKeyValid key then (RespError EMPTY_KEY, l)
      else if finish < start then (RespString [], l)
      else let val = getPairVal now (l_getPair L) l key in
      if unat start \<ge> length val then (RespString [], l)
      else (RespString (take (unat (finish - start + 1)) (drop (unat start) val)), l))"

definition STRLEN :: "'l command" where
  "STRLEN L now p l =
     (if length p \<noteq> 2 then (RespError NEED_EXACT_PARAMS_1, l)
      else let key = p ! 1 in
      if \<not> isKeyValid key then (RespError EMPTY_KEY, l)
      else (RespNumberU64 (getPairOK_pred now (l_getPair L) l key
              (\<lambda>b q. if b then size_t (getValLen (snd (the q))) else 0)), l))"

definition HGET :: "'l command" where
  "HGET L now p l =
     (if length p \<noteq> 3 then (RespError NEED_EXACT_PARAMS_2, l)
      else let keyN = p ! 1; subN = p ! 2 in
      if \<not> isCompositeKeyValid 1 [keyN, subN] then (RespError INVALID_KEY_SIZE, l)
      else (RespString (getPairVal now (l_getPair L) l (compositeKey keyN subN)), l))"

definition HMGET :: "'l command" where
  "HMGET L now p l =
     (if length p < 3 then (RespError NEED_MORE_PARAMS_3, l)
      else let keyN = p ! 1; subs = drop 2 p in
      if keyN = [] then (RespError EMPTY_KEY, l)
      else if \<not> list_all (\<lambda>subN. isCompositeKeyValid 1 [keyN, subN]) subs then (RespError INVALID_KEY_SIZE, l)
      else (RespStrings (map (\<lambda>subN. getPairVal now (l_getPair L) l (compositeKey keyN subN)) subs), l))"

definition HEXISTS :: "'l command" where
  "HEXISTS L now p l =
     (if length p \<noteq> 3 then (RespError NEED_EXACT_PARAMS_3, l)
      else let keyN = p ! 1; subN = p ! 2 in
      if \<not> isCompositeKeyValid 1 [keyN, subN] then (RespError INVALID_KEY_SIZE, l)
      else (RespBool (getPairOK now (l_getPair L) l (compositeKey keyN subN)), l))"

section \<open>\<^verbatim>\<open>cmd_mutable.h\<close>\<close>

text \<open>
  \<open>hm4::insert(*db, key, val, exp)\<close>, its result is not used.
\<close>

definition db_insert :: "'l list_ops \<Rightarrow> u64 \<Rightarrow> str \<Rightarrow> str \<Rightarrow> u32 \<Rightarrow> 'l \<Rightarrow> 'l" where
  "db_insert L now key val exp l = snd (insert_kv L now key val exp 0 l)"

definition db_erase :: "'l list_ops \<Rightarrow> u64 \<Rightarrow> str \<Rightarrow> 'l \<Rightarrow> 'l" where
  "db_erase L now key l = snd (l_erase L now key l)"

definition SET :: "'l command" where
  "SET L now p l =
     (if length p \<noteq> 3 \<and> length p \<noteq> 4 then (RespError NEED_EXACT_PARAMS_23, l)
      else let key = p ! 1 in
      if \<not> isKeyValid key then (RespError EMPTY_KEY, l)
      else let val = p ! 2 in
      if \<not> isValValid val then (RespError EMPTY_VAL, l)
      else let exp = (if length p = 4 then from_string (p ! 3) (0 :: u32) else 0)
      in (RespOK, db_insert L now key val exp l))"

text \<open>The validation loop that the commands on groups of two share.\<close>

fun check_groups :: "(str \<times> str) list \<Rightarrow> str option" where
  "check_groups [] = None"
| "check_groups ((key, val) # kvs) =
     (if \<not> isKeyValid key then Some EMPTY_KEY
      else if \<not> isValValid val then Some EMPTY_VAL
      else check_groups kvs)"

definition MSET :: "'l command" where
  "MSET L now p l =
     (if length p < 3 \<or> (length p - 1) mod 2 \<noteq> 0 then (RespError NEED_GROUP_PARAMS_2, l)
      else let kvs = groups2 (drop 1 p) in
      case check_groups kvs of
        Some e \<Rightarrow> (RespError e, l)
      | None \<Rightarrow> (RespOK, fold (\<lambda>(key, val). db_insert L now key val 0) kvs l))"

definition MSETNX :: "'l command" where
  "MSETNX L now p l =
     (if length p < 3 \<or> (length p - 1) mod 2 \<noteq> 0 then (RespError NEED_GROUP_PARAMS_2, l)
      else let kvs = groups2 (drop 1 p) in
      case check_groups kvs of
        Some e \<Rightarrow> (RespError e, l)
      | None \<Rightarrow>
          if list_ex (\<lambda>(key, val). getPairOK now (l_getPair L) l key) kvs then (set_0, l)
          else (set_1, fold (\<lambda>(key, val). db_insert L now key val 0) kvs l))"

definition ParamContainerSize :: nat where "ParamContainerSize = 255"

text \<open>The pair that is at an address now.\<close>

definition l_load :: "'l list_ops \<Rightarrow> 'l \<Rightarrow> pptr \<Rightarrow> pptr" where
  "l_load L l p = (case find (\<lambda>q. fst q = fst p) (l_list L l) of Some q \<Rightarrow> q | None \<Rightarrow> p)"

text \<open>\<open>MSETXX\<close>: the loop that fills \<open>pcontainer\<close>; \<open>None\<close> when a key does not exist.\<close>

fun msetxx_hints :: "'l list_ops \<Rightarrow> u64 \<Rightarrow> (str \<times> str) list \<Rightarrow> 'l \<Rightarrow> pptr option list option" where
  "msetxx_hints L now [] l = Some []"
| "msetxx_hints L now ((key, val) # kvs) l =
     (case getPairPtr now (l_getPair L) l key of
        None \<Rightarrow> None
      | Some hint \<Rightarrow>
          map_option ((#) (if l_owns L l (fst hint) \<and> getValLen (snd hint) \<ge> length val then Some hint else None))
            (msetxx_hints L now kvs l))"

definition msetxx_hint_loop :: "'l list_ops \<Rightarrow> u64 \<Rightarrow> ((str \<times> str) \<times> pptr option) list \<Rightarrow> 'l \<Rightarrow> 'l" where
  "msetxx_hint_loop L now ks l =
     fold (\<lambda>((key, val), h) l. case h of
             Some hint \<Rightarrow> proceedInsertHint L now (l_load L l hint) (Normal key val 0 0) l
           | None \<Rightarrow> l) ks l"

definition msetxx_normal_loop :: "'l list_ops \<Rightarrow> u64 \<Rightarrow> ((str \<times> str) \<times> pptr option) list \<Rightarrow> 'l \<Rightarrow> 'l" where
  "msetxx_normal_loop L now ks l =
     fold (\<lambda>((key, val), h) l. case h of
             Some hint \<Rightarrow> l
           | None \<Rightarrow> db_insert L now key val 0 l) ks l"

definition MSETXX :: "'l command" where
  "MSETXX L now p l =
     (if length p < 3 \<or> (length p - 1) mod 2 \<noteq> 0 then (RespError NEED_GROUP_PARAMS_2, l)
      else let kvs = groups2 (drop 1 p) in
      case check_groups kvs of
        Some e \<Rightarrow> (RespError e, l)
      | None \<Rightarrow>
          if length p div 2 > ParamContainerSize then (RespError CONTAINER_CAPACITY, l)
          else case msetxx_hints L now kvs l of
                 None \<Rightarrow> (set_0, l)
               | Some pcontainer \<Rightarrow>
                   let ks = zip kvs pcontainer
                   in (set_1, msetxx_normal_loop L now ks (msetxx_hint_loop L now ks l)))"

definition SETEX :: "'l command" where
  "SETEX L now p l =
     (if length p \<noteq> 4 then (RespError NEED_EXACT_PARAMS_3, l)
      else let key = p ! 1 in
      if \<not> isKeyValid key then (RespError EMPTY_KEY, l)
      else let val = p ! 3 in
      if \<not> isValValid val then (RespError EMPTY_VAL, l)
      else let exp = from_string (p ! 2) (0 :: u32)
      in (RespOK, db_insert L now key val exp l))"

definition HSET :: "'l command" where
  "HSET L now p l =
     (if length p \<noteq> 4 \<and> length p \<noteq> 5 then (RespError NEED_EXACT_PARAMS_34, l)
      else let keyN = p ! 1; subN = p ! 2 in
      if \<not> isCompositeKeyValid 1 [keyN, subN] then (RespError INVALID_KEY_SIZE, l)
      else let key = compositeKey keyN subN; val = p ! 3 in
      if \<not> isValValid val then (RespError EMPTY_VAL, l)
      else let exp = (if length p = 5 then from_string (p ! 4) (0 :: u32) else 0)
      in (RespOK, db_insert L now key val exp l))"

fun check_sub_groups :: "str \<Rightarrow> (str \<times> str) list \<Rightarrow> str option" where
  "check_sub_groups keyN [] = None"
| "check_sub_groups keyN ((subN, val) # kvs) =
     (if \<not> isCompositeKeyValid 1 [keyN, subN] then Some INVALID_KEY_SIZE
      else if \<not> isValValid val then Some EMPTY_VAL
      else check_sub_groups keyN kvs)"

definition HMSET :: "'l command" where
  "HMSET L now p l =
     (if length p < 3 \<or> (length p - 2) mod 2 \<noteq> 0 then (RespError NEED_GROUP_PARAMS_2, l)
      else let keyN = p ! 1 in
      if keyN = [] then (RespError EMPTY_KEY, l)
      else let kvs = groups2 (drop 2 p) in
      case check_sub_groups keyN kvs of
        Some e \<Rightarrow> (RespError e, l)
      | None \<Rightarrow> (RespOK, fold (\<lambda>(subN, val). db_insert L now (compositeKey keyN subN) val 0) kvs l))"

definition SETNX :: "'l command" where
  "SETNX L now p l =
     (if length p \<noteq> 3 \<and> length p \<noteq> 4 then (RespError NEED_EXACT_PARAMS_23, l)
      else let key = p ! 1 in
      if \<not> isKeyValid key then (RespError EMPTY_KEY, l)
      else let val = p ! 2 in
      if \<not> isValValid val then (RespError EMPTY_VAL, l)
      else if getPairOK now (l_getPair L) l key then (RespBool False, l)
      else let exp = (if length p = 4 then from_string (p ! 3) (0 :: u32) else 0)
      in (RespBool True, db_insert L now key val exp l))"

definition SETXX :: "'l command" where
  "SETXX L now p l =
     (if length p \<noteq> 3 \<and> length p \<noteq> 4 then (RespError NEED_EXACT_PARAMS_23, l)
      else let key = p ! 1 in
      if \<not> isKeyValid key then (RespError EMPTY_KEY, l)
      else let val = p ! 2 in
      if \<not> isValValid val then (RespError EMPTY_VAL, l)
      else case getPairPtr now (l_getPair L) l key of
             Some hint \<Rightarrow>
               (let exp = (if length p = 4 then from_string (p ! 3) (0 :: u32) else 0)
                in (RespBool True, insertHint L now hint (Normal key val exp 0) l))
           | None \<Rightarrow> (RespBool False, l))"

definition DEL :: "'l command" where
  "DEL L now p l =
     (if length p < 2 then (RespError NEED_MORE_PARAMS_1, l)
      else let keys = drop 1 p in
      if \<not> list_all isKeyValid keys then (RespError EMPTY_KEY, l)
      else (set_1, fold (db_erase L now) keys l))"

definition HDEL :: "'l command" where
  "HDEL L now p l =
     (if length p < 3 then (RespError NEED_MORE_PARAMS_2, l)
      else let keyN = p ! 1 in
      if keyN = [] then (RespError EMPTY_KEY, l)
      else let subs = drop 2 p in
      if \<not> list_all (\<lambda>subN. isCompositeKeyValid 1 [keyN, subN]) subs then (RespError INVALID_KEY_SIZE, l)
      else (set_1, fold (\<lambda>subN. db_erase L now (compositeKey keyN subN)) subs l))"

text \<open>
  \<open>APPEND_Factory\<close>: the base copies the old value, the action writes the new one behind it.  Without
  a pair the hint is null, and no allocator owns the null pointer.
\<close>

definition APPEND_Factory :: "str \<Rightarrow> Pair option \<Rightarrow> str \<Rightarrow> str \<Rightarrow> PairFactory" where
  "APPEND_Factory key pair val1 val2 =
     Action key (length val1 + length val2) pair 0 False (write_at (length val1) val2)"

definition APPEND :: "'l command" where
  "APPEND L now p l =
     (if length p \<noteq> 3 then (RespError NEED_EXACT_PARAMS_2, l)
      else let key = p ! 1 in
      if \<not> isKeyValid key then (RespError EMPTY_KEY, l)
      else let val_new = p ! 2 in
      if \<not> isValValid val_new then (RespError EMPTY_VAL, l)
      else let pair = getPairPtr now (l_getPair L) l key;
               val_old = (case pair of Some q \<Rightarrow> getVal (snd q) | None \<Rightarrow> []) in
      if \<not> isValValid_size (length val_new + length val_old) then (RespError EMPTY_VAL, l)
      else let factory = APPEND_Factory key (map_option snd pair) val_old val_new
      in (RespNumberU64 (size_t (length val_old + length val_new)),
          case pair of Some hint \<Rightarrow> insertHint L now hint factory l
                     | None \<Rightarrow> snd (l_insertF L now factory l)))"

definition EXPIRE :: "'l command" where
  "EXPIRE L now p l =
     (if length p \<noteq> 3 then (RespError NEED_EXACT_PARAMS_2, l)
      else let key = p ! 1 in
      if \<not> isKeyValid key then (RespError EMPTY_KEY, l)
      else case getPairPtr now (l_getPair L) l key of
             Some hint \<Rightarrow>
               (let exp = from_string (p ! 2) (0 :: u32)
                in (RespBool True, insertHint L now hint (Expires key (getVal (snd hint)) exp 0) l))
           | None \<Rightarrow> (RespBool False, l))"

definition EXPIREAT :: "'l command" where
  "EXPIREAT L now p l =
     (if length p \<noteq> 3 then (RespError NEED_EXACT_PARAMS_2, l)
      else let key = p ! 1 in
      if \<not> isKeyValid key then (RespError EMPTY_KEY, l)
      else case getPairPtr now (l_getPair L) l key of
             Some hint \<Rightarrow>
               (let time = from_string (p ! 2) (0 :: u32)
                in if to32 now \<ge> time
                   then (RespBool True, insertHint L now hint (Tombstone key 0) l)
                   else let exp = time - to32 now
                        in (RespBool True, insertHint L now hint (Expires key (getVal (snd hint)) exp 0) l))
           | None \<Rightarrow> (RespBool False, l))"

definition PERSIST :: "'l command" where
  "PERSIST L now p l =
     (if length p \<noteq> 2 then (RespError NEED_EXACT_PARAMS_1, l)
      else let key = p ! 1 in
      if \<not> isKeyValid key then (RespError EMPTY_KEY, l)
      else case getPairPtr now (l_getPair L) l key of
             Some hint \<Rightarrow>
               (RespBool True,
                if isExpiresSet (snd hint) then insertHint L now hint (Expires key (getVal (snd hint)) 0 0) l else l)
           | None \<Rightarrow> (RespBool False, l))"

definition PERSISTDELETED :: "'l command" where
  "PERSISTDELETED L now p l =
     (if length p \<noteq> 2 then (RespError NEED_EXACT_PARAMS_1, l)
      else let key = p ! 1 in
      if \<not> isKeyValid key then (RespError EMPTY_KEY, l)
      else (RespOK,
            case l_getPair L l key of
              Some hint \<Rightarrow> insertHint L now hint (Normal (getKey (snd hint)) (getVal (snd hint)) 0 0) l
            | None \<Rightarrow> l))"

section \<open>\<^verbatim>\<open>cmd_mutable_get.h\<close>\<close>

text \<open>A predicate: what it does when the key has no live pair, and what it does with the pair.\<close>

record 'l GetPredicate =
  gp_process :: "'l \<Rightarrow> 'l"
  gp_processHint :: "pptr \<Rightarrow> 'l \<Rightarrow> 'l"

definition SetPredicate :: "'l list_ops \<Rightarrow> u64 \<Rightarrow> str \<Rightarrow> str \<Rightarrow> 'l GetPredicate" where
  "SetPredicate L now key val = \<lparr>
     gp_process = db_insert L now key val 0,
     gp_processHint = (\<lambda>hint. insertHint L now hint (Normal (getKey (snd hint)) val 0 0))\<rparr>"

definition DeletePredicate :: "'l list_ops \<Rightarrow> u64 \<Rightarrow> 'l GetPredicate" where
  "DeletePredicate L now = \<lparr>
     gp_process = id,
     gp_processHint = (\<lambda>hint. insertHint L now hint (Tombstone (getKey (snd hint)) 0))\<rparr>"

definition ExpirePredicate :: "'l list_ops \<Rightarrow> u64 \<Rightarrow> u32 \<Rightarrow> 'l GetPredicate" where
  "ExpirePredicate L now expires = \<lparr>
     gp_process = id,
     gp_processHint = (\<lambda>hint. insertHint L now hint (Expires (getKey (snd hint)) (getVal (snd hint)) expires 0))\<rparr>"

definition PersistPredicate :: "'l list_ops \<Rightarrow> u64 \<Rightarrow> 'l GetPredicate" where
  "PersistPredicate L now = \<lparr>
     gp_process = id,
     gp_processHint = (\<lambda>hint. insertHint L now hint (Expires (getKey (snd hint)) (getVal (snd hint)) 0 0))\<rparr>"

definition ExpireAtPredicate :: "'l list_ops \<Rightarrow> u64 \<Rightarrow> u32 \<Rightarrow> 'l GetPredicate" where
  "ExpireAtPredicate L now time = \<lparr>
     gp_process = id,
     gp_processHint = (\<lambda>hint l.
       if to32 now \<ge> time then insertHint L now hint (Tombstone (getKey (snd hint)) 0) l
       else insertHint L now hint (Expires (getKey (snd hint)) (getVal (snd hint)) (time - to32 now) 0) l)\<rparr>"

text \<open>The reply is written before the list changes.\<close>

definition processGet :: "'l GetPredicate \<Rightarrow> 'l list_ops \<Rightarrow> u64 \<Rightarrow> str \<Rightarrow> 'l \<Rightarrow> Response \<times> 'l" where
  "processGet pr L now key l =
     (case getPairPtr now (l_getPair L) l key of
        Some it \<Rightarrow> (RespString (getVal (snd it)), gp_processHint pr it l)
      | None \<Rightarrow> (RespString [], gp_process pr l))"

definition GETSET :: "'l command" where
  "GETSET L now p l =
     (if length p \<noteq> 3 then (RespError NEED_EXACT_PARAMS_2, l)
      else let key = p ! 1 in
      if \<not> isKeyValid key then (RespError EMPTY_KEY, l)
      else let val = p ! 2 in
      if \<not> isValValid val then (RespError EMPTY_VAL, l)
      else processGet (SetPredicate L now key val) L now key l)"

definition GETDEL :: "'l command" where
  "GETDEL L now p l =
     (if length p \<noteq> 2 then (RespError NEED_EXACT_PARAMS_1, l)
      else let key = p ! 1 in
      if \<not> isKeyValid key then (RespError EMPTY_KEY, l)
      else processGet (DeletePredicate L now) L now key l)"

definition GETEX :: "'l command" where
  "GETEX L now p l =
     (if length p \<noteq> 3 then (RespError NEED_EXACT_PARAMS_2, l)
      else let key = p ! 1 in
      if \<not> isKeyValid key then (RespError EMPTY_KEY, l)
      else processGet (ExpirePredicate L now (from_string (p ! 2) 0)) L now key l)"

definition GETEXAT :: "'l command" where
  "GETEXAT L now p l =
     (if length p \<noteq> 3 then (RespError NEED_EXACT_PARAMS_2, l)
      else let key = p ! 1 in
      if \<not> isKeyValid key then (RespError EMPTY_KEY, l)
      else processGet (ExpireAtPredicate L now (from_string (p ! 2) 0)) L now key l)"

definition GETPERSIST :: "'l command" where
  "GETPERSIST L now p l =
     (if length p \<noteq> 2 then (RespError NEED_EXACT_PARAMS_1, l)
      else let key = p ! 1 in
      if \<not> isKeyValid key then (RespError EMPTY_KEY, l)
      else processGet (PersistPredicate L now) L now key l)"

section \<open>\<^verbatim>\<open>cmd_cas.h\<close>\<close>

definition CAS :: "'l command" where
  "CAS L now p l =
     (if length p \<noteq> 4 \<and> length p \<noteq> 5 then (RespError NEED_EXACT_PARAMS_34, l)
      else let key = p ! 1 in
      if \<not> isKeyValid key then (RespError EMPTY_KEY, l)
      else let old_val = p ! 2 in
      if \<not> isValValidNZ old_val then (RespError EMPTY_VAL, l)
      else let val = p ! 3 in
      if \<not> isValValidNZ val then (RespError EMPTY_VAL, l)
      else case getPairPtr now (l_getPair L) l key of
             Some hint \<Rightarrow>
               if getVal (snd hint) = old_val
               then let exp = (if length p = 5 then from_string (p ! 4) (0 :: u32) else 0)
                    in (RespBool True, insertHint L now hint (Normal key val exp 0) l)
               else (RespBool False, l)
           | None \<Rightarrow> (RespBool False, l))"

definition CAD :: "'l command" where
  "CAD L now p l =
     (if length p \<noteq> 3 then (RespError NEED_EXACT_PARAMS_2, l)
      else let key = p ! 1 in
      if \<not> isKeyValid key then (RespError EMPTY_KEY, l)
      else let old_val = p ! 2 in
      if \<not> isValValidNZ old_val then (RespError EMPTY_VAL, l)
      else case getPairPtr now (l_getPair L) l key of
             Some hint \<Rightarrow>
               if getVal (snd hint) = old_val
               then (RespBool True, insertHint L now hint (Tombstone key 0) l)
               else (RespBool False, l)
           | None \<Rightarrow> (RespBool False, l))"

section \<open>\<^verbatim>\<open>cmd_copy.h\<close>\<close>

datatype CPMVOperation = MV | MV_NX | CP | CP_NX

definition cpmv :: "CPMVOperation \<Rightarrow> 'l command" where
  "cpmv operation L now p l =
     (if length p \<noteq> 3 then (RespError NEED_EXACT_PARAMS_2, l)
      else let key = p ! 1 in
      if \<not> isKeyValid key then (RespError EMPTY_KEY, l)
      else let newkey = p ! 2 in
      if \<not> isKeyValid newkey then (RespError EMPTY_KEY, l)
      else if key = newkey then (RespError INVALID_PARAMETERS, l)
      else if operation \<in> {CP_NX, MV_NX} \<and> getPairOK now (l_getPair L) l newkey then (RespBool False, l)
      else case getPairPtr now (l_getPair L) l key of
             Some it \<Rightarrow>
               (let l = db_insert L now newkey (getVal (snd it)) (getTTL now (snd it)) l
                in (RespBool True, if operation \<in> {MV, MV_NX} then db_erase L now key l else l))
           | None \<Rightarrow> (RespBool False, l))"

section \<open>checkoverflow.h and \<^verbatim>\<open>cmd_counter.h\<close>\<close>

definition I64_MIN :: int where "I64_MIN = - (2 ^ 63)"

definition I64_MAX :: int where "I64_MAX = 2 ^ 63 - 1"

definition safe_incr :: "int \<Rightarrow> int \<Rightarrow> int \<Rightarrow> int \<Rightarrow> int" where
  "safe_incr lo hi a x =
     (if x > 0 \<and> a > hi - x then hi
      else if x < 0 \<and> a < lo - x then lo
      else a + x)"

definition safe_decr :: "int \<Rightarrow> int \<Rightarrow> int \<Rightarrow> int \<Rightarrow> int" where
  "safe_decr lo hi a x =
     (if x < 0 \<and> a > hi + x then hi
      else if x > 0 \<and> a < lo + x then lo
      else a - x)"

text \<open>\<open>Sign * nx\<close> in \<open>int64_t\<close>; outside of the range it is undefined, and \<open>ub\<close> says what it gives.\<close>

definition sign_mult :: "(int \<Rightarrow> int) \<Rightarrow> int \<Rightarrow> int \<Rightarrow> int" where
  "sign_mult ub Sign nx =
     (let n = Sign * nx in if I64_MIN \<le> n \<and> n \<le> I64_MAX then n else ub n)"

definition do_incr_decr :: "(int \<Rightarrow> int) \<Rightarrow> int \<Rightarrow> 'l command" where
  "do_incr_decr ub Sign L now p l =
     (if length p \<noteq> 2 \<and> length p \<noteq> 3 then (RespError NEED_EXACT_PARAMS_12, l)
      else let key = p ! 1 in
      if \<not> isKeyValid key then (RespError EMPTY_KEY, l)
      else let nx = (if length p = 3 then from_string_signed (p ! 2) 0 else 1);
               n = sign_mult ub Sign nx in
      case getPairPtr now (l_getPair L) l key of
        Some hint \<Rightarrow>
          (let nResult = safe_incr I64_MIN I64_MAX n (from_string_signed (getVal (snd hint)) 0);
               val = to_string_signed nResult
           in (RespNumberSV val, insertHint L now hint (Normal key val 0 0) l))
      | None \<Rightarrow>
          (let val = to_string_signed n in (RespNumberSV val, db_insert L now key val 0 l)))"

definition check_limit :: "int \<Rightarrow> int \<Rightarrow> int \<Rightarrow> bool" where
  "check_limit Sign n limit = (if Sign = -1 then n \<ge> limit else n \<le> limit)"

definition do_incr_decr_limit :: "(int \<Rightarrow> int) \<Rightarrow> int \<Rightarrow> 'l command" where
  "do_incr_decr_limit ub Sign L now p l =
     (if length p \<noteq> 4 then (RespError NEED_EXACT_PARAMS_4, l)
      else let key = p ! 1 in
      if \<not> isKeyValid key then (RespError EMPTY_KEY, l)
      else let nx = from_string_signed (p ! 2) 0 in
      if nx \<le> 0 then (RespError INVALID_PARAMETERS, l)
      else let n = sign_mult ub Sign nx in
      if n = 0 then (RespError INVALID_PARAMETERS, l)
      else let limit = from_string_signed (p ! 3) 0 in
      case getPairPtr now (l_getPair L) l key of
        Some hint \<Rightarrow>
          (let nResult = safe_incr I64_MIN I64_MAX n (from_string_signed (getVal (snd hint)) 0)
           in if check_limit Sign nResult limit
              then (RespBool True, insertHint L now hint (Normal key (to_string_signed nResult) 0 0) l)
              else (RespBool False, l))
      | None \<Rightarrow>
          if check_limit Sign n limit
          then (RespBool True, db_insert L now key (to_string_signed n) 0 l)
          else (RespBool False, l))"

definition do_incr_to :: "(int \<Rightarrow> int \<Rightarrow> bool) \<Rightarrow> 'l command" where
  "do_incr_to better L now p l =
     (if length p \<noteq> 3 then (RespError NEED_EXACT_PARAMS_2, l)
      else let key = p ! 1 in
      if \<not> isKeyValid key then (RespError EMPTY_KEY, l)
      else let n = from_string_signed (p ! 2) 0 in
      case getPairPtr now (l_getPair L) l key of
        Some hint \<Rightarrow>
          (let val = getVal (snd hint) in
           if better n (from_string_signed val 0)
           then (RespNumberSV (to_string_signed n), insertHint L now hint (Normal key (to_string_signed n) 0 0) l)
           else (RespNumberSV val, l))
      | None \<Rightarrow> (RespNumberSV (to_string_signed n), db_insert L now key (to_string_signed n) 0 l))"

section \<open>\<^verbatim>\<open>cmd_compat.h\<close> and \<^verbatim>\<open>cmd_murmur.h\<close>\<close>

definition compat_OK :: "'l command" where
  "compat_OK L now p l = (RespOK, l)"

definition compat_TYPE :: "'l command" where
  "compat_TYPE L now p l = (RespSimpleString (ascii ''string''), l)"

definition compat_TOUCH :: "'l command" where
  "compat_TOUCH L now p l = (RespBool True, l)"

definition compat_COMMAND :: "'l command" where
  "compat_COMMAND L now p l = (RespError SYS_NOT_IMPLEMENTED, l)"

definition MURMUR :: "'l command" where
  "MURMUR L now p l =
     (if length p < 2 \<or> length p > 4 then (RespError NEED_EXACT_PARAMS_234, l)
      else let val = p ! 1;
               seed = (if length p \<ge> 3 then from_string (p ! 2) (0 :: u64) else 0);
               md = (if length p = 4 then from_string (p ! 3) (0 :: u64) else 0);
               h = murmur_hash64a val seed
      in (RespNumberU64 (if md \<noteq> 0 then h mod md else h), l))"

section \<open>\<^verbatim>\<open>cmd_info.h\<close>\<close>

definition DBSIZE :: "'l command" where
  "DBSIZE L now p l = (RespNumberU64 (l_size L l), l)"

definition MAXKEYSIZE :: "'l command" where
  "MAXKEYSIZE L now p l = (RespNumberU64 (of_nat MAX_KEY_SIZE), l)"

definition MAXVALSIZE :: "'l command" where
  "MAXVALSIZE L now p l = (RespNumberU64 (of_nat MAX_VAL_SIZE), l)"

definition PING :: "'l command" where
  "PING L now p l = (RespSimpleString (ascii ''pong''), l)"

definition ECHO :: "'l command" where
  "ECHO L now p l =
     (if length p \<noteq> 2 then (RespError NEED_EXACT_PARAMS_1, l) else (RespString (p ! 1), l))"

definition REM :: "'l command" where
  "REM L now p l = (RespOK, l)"

end
