(* ===== verification/CommandSpec.thy ===== *)
theory CommandSpec
  imports Commands KvStore
begin

text \<open>
  What the commands mean: a request, as a client would write it, is answered from the map of the live
  registers and changes it by a sequence of writes.  The commands of theory \<open>Commands\<close> implement this
  on every list that keeps the contract \<open>kv_list\<close>, with all the ways they have to write: insertion,
  write through a pointer, tombstone and erasure.
\<close>

section \<open>Requests\<close>

datatype Request =
    Get str | MGet "str list" | Exists str | Ttl str | ExpireTime str | SizeOf str | StrLen str
  | GetRange str u64 u64 | HGet str str | HMGet str "str list" | HExists str str
  | Set str str "u32 option" | MSet "(str \<times> str) list" | MSetNX "(str \<times> str) list" | SetEX str u32 str
  | HSet str str str "u32 option" | HMSet str "(str \<times> str) list" | SetNX str str "u32 option"
  | SetXX str str "u32 option" | Del "str list" | HDel str "str list" | Append str str
  | Expire str u32 | ExpireAt str u32 | Persist str
  | GetSet str str | GetDel str | GetEX str u32 | GetEXAt str u32 | GetPersist str
  | Cas str str str "u32 option" | Cad str str | CopyMove CPMVOperation str str
  | Incr str "int option" | Decr str "int option" | IncrLimit str int int | DecrLimit str int int
  | IncrTo str int | DecrTo str int

text \<open>The parameters on the wire.  Numbers are decimal texts.\<close>

definition num :: "'w::len word \<Rightarrow> str" where
  "num n = to_string (unat n)"

definition opt :: "('a \<Rightarrow> str) \<Rightarrow> 'a option \<Rightarrow> str list" where
  "opt txt e = (case e of None \<Rightarrow> [] | Some x \<Rightarrow> [txt x])"

definition flat :: "(str \<times> str) list \<Rightarrow> str list" where
  "flat kvs = concat (map (\<lambda>(k, v). [k, v]) kvs)"

fun params :: "Request \<Rightarrow> str list" where
  "params (Get k) = [ascii ''GET'', k]"
| "params (MGet ks) = ascii ''MGET'' # ks"
| "params (Exists k) = [ascii ''EXISTS'', k]"
| "params (Ttl k) = [ascii ''TTL'', k]"
| "params (ExpireTime k) = [ascii ''EXPIRETIME'', k]"
| "params (SizeOf k) = [ascii ''SIZEOF'', k]"
| "params (StrLen k) = [ascii ''STRLEN'', k]"
| "params (GetRange k a b) = [ascii ''GETRANGE'', k, num a, num b]"
| "params (HGet k s) = [ascii ''HGET'', k, s]"
| "params (HMGet k ss) = ascii ''HMGET'' # k # ss"
| "params (HExists k s) = [ascii ''HEXISTS'', k, s]"
| "params (Set k v e) = [ascii ''SET'', k, v] @ opt num e"
| "params (MSet kvs) = ascii ''MSET'' # flat kvs"
| "params (MSetNX kvs) = ascii ''MSETNX'' # flat kvs"
| "params (SetEX k e v) = [ascii ''SETEX'', k, num e, v]"
| "params (HSet k s v e) = [ascii ''HSET'', k, s, v] @ opt num e"
| "params (HMSet k kvs) = ascii ''HMSET'' # k # flat kvs"
| "params (SetNX k v e) = [ascii ''SETNX'', k, v] @ opt num e"
| "params (SetXX k v e) = [ascii ''SETXX'', k, v] @ opt num e"
| "params (Del ks) = ascii ''DEL'' # ks"
| "params (HDel k ss) = ascii ''HDEL'' # k # ss"
| "params (Append k v) = [ascii ''APPEND'', k, v]"
| "params (Expire k e) = [ascii ''EXPIRE'', k, num e]"
| "params (ExpireAt k t) = [ascii ''EXPIREAT'', k, num t]"
| "params (Persist k) = [ascii ''PERSIST'', k]"
| "params (GetSet k v) = [ascii ''GETSET'', k, v]"
| "params (GetDel k) = [ascii ''GETDEL'', k]"
| "params (GetEX k e) = [ascii ''GETEX'', k, num e]"
| "params (GetEXAt k t) = [ascii ''GETEXAT'', k, num t]"
| "params (GetPersist k) = [ascii ''GETPERSIST'', k]"
| "params (Cas k v w e) = [ascii ''CAS'', k, v, w] @ opt num e"
| "params (Cad k v) = [ascii ''CAD'', k, v]"
| "params (CopyMove oper k k') =
     [case oper of MV \<Rightarrow> ascii ''RENAME'' | MV_NX \<Rightarrow> ascii ''RENAMENX'' | CP \<Rightarrow> ascii ''COPY'' | CP_NX \<Rightarrow> ascii ''COPYNX'', k, k']"
| "params (Incr k n) = [ascii ''INCR'', k] @ opt to_string_signed n"
| "params (Decr k n) = [ascii ''DECR'', k] @ opt to_string_signed n"
| "params (IncrLimit k n m) = [ascii ''INCRLIMIT'', k, to_string_signed n, to_string_signed m]"
| "params (DecrLimit k n m) = [ascii ''DECRLIMIT'', k, to_string_signed n, to_string_signed m]"
| "params (IncrTo k n) = [ascii ''INCRTO'', k, to_string_signed n]"
| "params (DecrTo k n) = [ascii ''DECRTO'', k, to_string_signed n]"

text \<open>The command object that the storage finds for the name.\<close>

fun command_of :: "(int \<Rightarrow> int) \<Rightarrow> Request \<Rightarrow> 'l command" where
  "command_of ub (Get k) = GET"
| "command_of ub (MGet ks) = MGET"
| "command_of ub (Exists k) = EXISTS"
| "command_of ub (Ttl k) = TTL"
| "command_of ub (ExpireTime k) = EXPIRETIME"
| "command_of ub (SizeOf k) = SIZEOF"
| "command_of ub (StrLen k) = STRLEN"
| "command_of ub (GetRange k a b) = GETRANGE"
| "command_of ub (HGet k s) = HGET"
| "command_of ub (HMGet k ss) = HMGET"
| "command_of ub (HExists k s) = HEXISTS"
| "command_of ub (Set k v e) = SET"
| "command_of ub (MSet kvs) = MSET"
| "command_of ub (MSetNX kvs) = MSETNX"
| "command_of ub (SetEX k e v) = SETEX"
| "command_of ub (HSet k s v e) = HSET"
| "command_of ub (HMSet k kvs) = HMSET"
| "command_of ub (SetNX k v e) = SETNX"
| "command_of ub (SetXX k v e) = SETXX"
| "command_of ub (Del ks) = DEL"
| "command_of ub (HDel k ss) = HDEL"
| "command_of ub (Append k v) = APPEND"
| "command_of ub (Expire k e) = EXPIRE"
| "command_of ub (ExpireAt k t) = EXPIREAT"
| "command_of ub (Persist k) = PERSIST"
| "command_of ub (GetSet k v) = GETSET"
| "command_of ub (GetDel k) = GETDEL"
| "command_of ub (GetEX k e) = GETEX"
| "command_of ub (GetEXAt k t) = GETEXAT"
| "command_of ub (GetPersist k) = GETPERSIST"
| "command_of ub (Cas k v w e) = CAS"
| "command_of ub (Cad k v) = CAD"
| "command_of ub (CopyMove oper k k') = cpmv oper"
| "command_of ub (Incr k n) = do_incr_decr ub 1"
| "command_of ub (Decr k n) = do_incr_decr ub (-1)"
| "command_of ub (IncrLimit k n m) = do_incr_decr_limit ub 1"
| "command_of ub (DecrLimit k n m) = do_incr_decr_limit ub (-1)"
| "command_of ub (IncrTo k n) = do_incr_to (>)"
| "command_of ub (DecrTo k n) = do_incr_to (<)"

section \<open>Their meaning\<close>

definition val_of :: "u64 \<Rightarrow> kv \<Rightarrow> str \<Rightarrow> str" where
  "val_of now M k = (case live now M k of None \<Rightarrow> [] | Some r \<Rightarrow> reg_val r)"

definition int_of :: "u64 \<Rightarrow> kv \<Rightarrow> str \<Rightarrow> int" where
  "int_of now M k = from_string_signed (val_of now M k) 0"

definition ttl_of :: "u64 \<Rightarrow> reg \<Rightarrow> u32" where
  "ttl_of now r = (if reg_expires r = 0 then 0 else to32 (addTime (reg_created r) (reg_expires r) - now))"

definition hash_key :: "str \<Rightarrow> str \<Rightarrow> str" where
  "hash_key k s = k @ SEPARATOR @ s"

definition exp_of :: "u32 option \<Rightarrow> u32" where
  "exp_of e = (case e of None \<Rightarrow> 0 | Some x \<Rightarrow> x)"

text \<open>A number as far as 64 bits hold it.\<close>

definition clamp64 :: "int \<Rightarrow> int" where
  "clamp64 n = max I64_MIN (min I64_MAX n)"

definition put :: "u64 \<Rightarrow> str \<Rightarrow> str \<Rightarrow> u32 \<Rightarrow> kv_write" where
  "put now k v e = (k, mk_reg now v e)"

definition put_int :: "u64 \<Rightarrow> str \<Rightarrow> int \<Rightarrow> kv_write" where
  "put_int now k n = put now k (to_string_signed n) 0"

text \<open>\<open>EXPIREAT\<close>: a time in the past deletes.\<close>

definition put_at :: "u64 \<Rightarrow> str \<Rightarrow> str \<Rightarrow> u32 \<Rightarrow> kv_write" where
  "put_at now k v t = (if to32 now \<ge> t then (k, None) else put now k v (t - to32 now))"

fun spec :: "u64 \<Rightarrow> Request \<Rightarrow> kv \<Rightarrow> Response \<times> kv_write list" where
  "spec now (Get k) M = (RespString (val_of now M k), [])"
| "spec now (MGet ks) M = (RespStrings (map (val_of now M) ks), [])"
| "spec now (Exists k) M = (RespBool (live now M k \<noteq> None), [])"
| "spec now (Ttl k) M = (RespNumberU64 (case live now M k of None \<Rightarrow> 0 | Some r \<Rightarrow> ucast (ttl_of now r)), [])"
| "spec now (ExpireTime k) M =
     (RespNumberU64 (case live now M k of None \<Rightarrow> 0
        | Some r \<Rightarrow> if reg_expires r = 0 then 0 else ucast (to32 (reg_created r) + reg_expires r)), [])"
| "spec now (SizeOf k) M =
     (RespNumberU64 (case live now M k of None \<Rightarrow> 0 | Some r \<Rightarrow> of_nat (bytes_of (length k) (length (reg_val r)))), [])"
| "spec now (StrLen k) M = (RespNumberU64 (of_nat (length (val_of now M k))), [])"
| "spec now (GetRange k a b) M =
     (RespString (take (Suc (unat b) - unat a) (drop (unat a) (val_of now M k))), [])"
| "spec now (HGet k s) M = (RespString (val_of now M (hash_key k s)), [])"
| "spec now (HMGet k ss) M = (RespStrings (map (\<lambda>s. val_of now M (hash_key k s)) ss), [])"
| "spec now (HExists k s) M = (RespBool (live now M (hash_key k s) \<noteq> None), [])"
| "spec now (Set k v e) M = (RespOK, [put now k v (exp_of e)])"
| "spec now (MSet kvs) M = (RespOK, map (\<lambda>(k, v). put now k v 0) kvs)"
| "spec now (MSetNX kvs) M =
     (if \<exists>(k, v) \<in> set kvs. live now M k \<noteq> None then (set_0, [])
      else (set_1, map (\<lambda>(k, v). put now k v 0) kvs))"
| "spec now (SetEX k e v) M = (RespOK, [put now k v e])"
| "spec now (HSet k s v e) M = (RespOK, [put now (hash_key k s) v (exp_of e)])"
| "spec now (HMSet k kvs) M = (RespOK, map (\<lambda>(s, v). put now (hash_key k s) v 0) kvs)"
| "spec now (SetNX k v e) M =
     (if live now M k = None then (RespBool True, [put now k v (exp_of e)]) else (RespBool False, []))"
| "spec now (SetXX k v e) M =
     (if live now M k = None then (RespBool False, []) else (RespBool True, [put now k v (exp_of e)]))"
| "spec now (Del ks) M = (set_1, map (\<lambda>k. (k, None)) ks)"
| "spec now (HDel k ss) M = (set_1, map (\<lambda>s. (hash_key k s, None)) ss)"
| "spec now (Append k v) M =
     (let w = val_of now M k @ v in (RespNumberU64 (of_nat (length w)), [put now k w 0]))"
| "spec now (Expire k e) M =
     (case live now M k of None \<Rightarrow> (RespBool False, []) | Some r \<Rightarrow> (RespBool True, [put now k (reg_val r) e]))"
| "spec now (ExpireAt k t) M =
     (case live now M k of None \<Rightarrow> (RespBool False, []) | Some r \<Rightarrow> (RespBool True, [put_at now k (reg_val r) t]))"
| "spec now (Persist k) M =
     (case live now M k of None \<Rightarrow> (RespBool False, [])
      | Some r \<Rightarrow> (RespBool True, if reg_expires r = 0 then [] else [put now k (reg_val r) 0]))"
| "spec now (GetSet k v) M = (RespString (val_of now M k), [put now k v 0])"
| "spec now (GetDel k) M = (RespString (val_of now M k), if live now M k = None then [] else [(k, None)])"
| "spec now (GetEX k e) M =
     (RespString (val_of now M k), case live now M k of None \<Rightarrow> [] | Some r \<Rightarrow> [put now k (reg_val r) e])"
| "spec now (GetEXAt k t) M =
     (RespString (val_of now M k), case live now M k of None \<Rightarrow> [] | Some r \<Rightarrow> [put_at now k (reg_val r) t])"
| "spec now (GetPersist k) M =
     (RespString (val_of now M k), case live now M k of None \<Rightarrow> [] | Some r \<Rightarrow> [put now k (reg_val r) 0])"
| "spec now (Cas k v w e) M =
     (if val_of now M k = v then (RespBool True, [put now k w (exp_of e)]) else (RespBool False, []))"
| "spec now (Cad k v) M =
     (if val_of now M k = v then (RespBool True, [(k, None)]) else (RespBool False, []))"
| "spec now (CopyMove oper k k') M =
     (if k = k' then (RespError INVALID_PARAMETERS, [])
      else if oper \<in> {MV_NX, CP_NX} \<and> live now M k' \<noteq> None then (RespBool False, [])
      else case live now M k of
             None \<Rightarrow> (RespBool False, [])
           | Some r \<Rightarrow> (RespBool True, put now k' (reg_val r) (ttl_of now r) # (if oper \<in> {MV, MV_NX} then [(k, None)] else [])))"
| "spec now (Incr k n) M =
     (let m = clamp64 (int_of now M k + (case n of None \<Rightarrow> 1 | Some x \<Rightarrow> x))
      in (RespNumberSV (to_string_signed m), [put_int now k m]))"
| "spec now (Decr k n) M =
     (let m = clamp64 (int_of now M k - (case n of None \<Rightarrow> 1 | Some x \<Rightarrow> x))
      in (RespNumberSV (to_string_signed m), [put_int now k m]))"
| "spec now (IncrLimit k n lim) M =
     (let m = clamp64 (int_of now M k + n)
      in if m \<le> lim then (RespBool True, [put_int now k m]) else (RespBool False, []))"
| "spec now (DecrLimit k n lim) M =
     (let m = clamp64 (int_of now M k - n)
      in if lim \<le> m then (RespBool True, [put_int now k m]) else (RespBool False, []))"
| "spec now (IncrTo k n) M =
     (if live now M k = None \<or> int_of now M k < n then (RespNumberSV (to_string_signed n), [put_int now k n])
      else (RespNumberSV (val_of now M k), []))"
| "spec now (DecrTo k n) M =
     (if live now M k = None \<or> n < int_of now M k then (RespNumberSV (to_string_signed n), [put_int now k n])
      else (RespNumberSV (val_of now M k), []))"

section \<open>Requests that a client may send\<close>

definition key_good :: "(str \<Rightarrow> bool) \<Rightarrow> str \<Rightarrow> bool" where
  "key_good key_ok k \<longleftrightarrow> isKeyValid k \<and> key_ok k"

definition hash_good :: "(str \<Rightarrow> bool) \<Rightarrow> str \<Rightarrow> str \<Rightarrow> bool" where
  "hash_good key_ok k s \<longleftrightarrow> isCompositeKeyValid 1 [k, s] \<and> key_ok (hash_key k s)"

definition int64 :: "int \<Rightarrow> bool" where
  "int64 n \<longleftrightarrow> I64_MIN \<le> n \<and> n \<le> I64_MAX"

fun request_ok :: "(str \<Rightarrow> bool) \<Rightarrow> u64 \<Rightarrow> kv \<Rightarrow> Request \<Rightarrow> bool" where
  "request_ok key_ok now M (Get k) \<longleftrightarrow> key_good key_ok k"
| "request_ok key_ok now M (MGet ks) \<longleftrightarrow> ks \<noteq> [] \<and> list_all (key_good key_ok) ks"
| "request_ok key_ok now M (Exists k) \<longleftrightarrow> key_good key_ok k"
| "request_ok key_ok now M (Ttl k) \<longleftrightarrow> key_good key_ok k"
| "request_ok key_ok now M (ExpireTime k) \<longleftrightarrow> key_good key_ok k"
| "request_ok key_ok now M (SizeOf k) \<longleftrightarrow> key_good key_ok k"
| "request_ok key_ok now M (StrLen k) \<longleftrightarrow> key_good key_ok k"
| "request_ok key_ok now M (GetRange k a b) \<longleftrightarrow> key_good key_ok k \<and> \<not> (a = 0 \<and> b = - 1)"
| "request_ok key_ok now M (HGet k s) \<longleftrightarrow> hash_good key_ok k s"
| "request_ok key_ok now M (HMGet k ss) \<longleftrightarrow> ss \<noteq> [] \<and> list_all (hash_good key_ok k) ss"
| "request_ok key_ok now M (HExists k s) \<longleftrightarrow> hash_good key_ok k s"
| "request_ok key_ok now M (Set k v e) \<longleftrightarrow> key_good key_ok k \<and> isValValid v"
| "request_ok key_ok now M (MSet kvs) \<longleftrightarrow> kvs \<noteq> [] \<and> list_all (\<lambda>(k, v). key_good key_ok k \<and> isValValid v) kvs"
| "request_ok key_ok now M (MSetNX kvs) \<longleftrightarrow> kvs \<noteq> [] \<and> list_all (\<lambda>(k, v). key_good key_ok k \<and> isValValid v) kvs"
| "request_ok key_ok now M (SetEX k e v) \<longleftrightarrow> key_good key_ok k \<and> isValValid v"
| "request_ok key_ok now M (HSet k s v e) \<longleftrightarrow> hash_good key_ok k s \<and> isValValid v"
| "request_ok key_ok now M (HMSet k kvs) \<longleftrightarrow> kvs \<noteq> [] \<and> list_all (\<lambda>(s, v). hash_good key_ok k s \<and> isValValid v) kvs"
| "request_ok key_ok now M (SetNX k v e) \<longleftrightarrow> key_good key_ok k \<and> isValValid v"
| "request_ok key_ok now M (SetXX k v e) \<longleftrightarrow> key_good key_ok k \<and> isValValid v"
| "request_ok key_ok now M (Del ks) \<longleftrightarrow> ks \<noteq> [] \<and> list_all (key_good key_ok) ks"
| "request_ok key_ok now M (HDel k ss) \<longleftrightarrow> ss \<noteq> [] \<and> list_all (hash_good key_ok k) ss"
| "request_ok key_ok now M (Append k v) \<longleftrightarrow>
     key_good key_ok k \<and> isValValid_size (length (val_of now M k) + length v)"
| "request_ok key_ok now M (Expire k e) \<longleftrightarrow> key_good key_ok k"
| "request_ok key_ok now M (ExpireAt k t) \<longleftrightarrow> key_good key_ok k"
| "request_ok key_ok now M (Persist k) \<longleftrightarrow> key_good key_ok k"
| "request_ok key_ok now M (GetSet k v) \<longleftrightarrow> key_good key_ok k \<and> isValValid v"
| "request_ok key_ok now M (GetDel k) \<longleftrightarrow> key_good key_ok k"
| "request_ok key_ok now M (GetEX k e) \<longleftrightarrow> key_good key_ok k"
| "request_ok key_ok now M (GetEXAt k t) \<longleftrightarrow> key_good key_ok k"
| "request_ok key_ok now M (GetPersist k) \<longleftrightarrow> key_good key_ok k"
| "request_ok key_ok now M (Cas k v w e) \<longleftrightarrow> key_good key_ok k \<and> isValValidNZ v \<and> isValValidNZ w"
| "request_ok key_ok now M (Cad k v) \<longleftrightarrow> key_good key_ok k \<and> isValValidNZ v"
| "request_ok key_ok now M (CopyMove oper k k') \<longleftrightarrow> key_good key_ok k \<and> key_good key_ok k'"
| "request_ok key_ok now M (Incr k n) \<longleftrightarrow> key_good key_ok k \<and> (\<forall>x. n = Some x \<longrightarrow> int64 x)"
| "request_ok key_ok now M (Decr k n) \<longleftrightarrow> key_good key_ok k \<and> (\<forall>x. n = Some x \<longrightarrow> int64 x \<and> x \<noteq> I64_MIN)"
| "request_ok key_ok now M (IncrLimit k n m) \<longleftrightarrow> key_good key_ok k \<and> int64 n \<and> 0 < n \<and> int64 m"
| "request_ok key_ok now M (DecrLimit k n m) \<longleftrightarrow> key_good key_ok k \<and> int64 n \<and> 0 < n \<and> int64 m"
| "request_ok key_ok now M (IncrTo k n) \<longleftrightarrow> key_good key_ok k \<and> int64 n"
| "request_ok key_ok now M (DecrTo k n) \<longleftrightarrow> key_good key_ok k \<and> int64 n"

section \<open>Texts, keys and groups\<close>

lemma from_string_num [simp]: "LENGTH('w) \<le> 64 \<Longrightarrow> from_string (num (e :: 'w::len word)) d = e"
  by (simp add: num_def)

lemma key_goodD: "key_good key_ok k \<Longrightarrow> isKeyValid k \<and> key_ok k \<and> k \<noteq> []"
  by (auto simp: key_good_def isKeyValid_def isKeyValid_size_def)

lemma hash_goodD:
  assumes "hash_good key_ok k s"
  shows "isCompositeKeyValid 1 [k, s]" "k \<noteq> []" "key_good key_ok (hash_key k s)" "compositeKey k s = hash_key k s"
proof -
  have a: "isKeyValid_size (1 + (length k + length s))" "k \<noteq> []" "s \<noteq> []"
    using assms by (simp_all add: hash_good_def isCompositeKeyValid_def concatenateBufferSize_def)
  show "isCompositeKeyValid 1 [k, s]" "k \<noteq> []" using assms a by (simp_all add: hash_good_def)
  show "key_good key_ok (hash_key k s)"
    using assms a by (simp add: hash_good_def key_good_def isKeyValid_def hash_key_def SEPARATOR_def)
  have "concatenateBufferSize [k, SEPARATOR, s] \<le> MAX_KEY_SIZE"
    using a by (simp add: concatenateBufferSize_def isKeyValid_size_def SEPARATOR_def)
  then show "compositeKey k s = hash_key k s"
    using concatenateBuffer_eq [of "[k, SEPARATOR, s]" "replicate MAX_KEY_SIZE 0"]
    by (simp add: compositeKey_def hash_key_def)
qed

lemma hash_goods:
  assumes "list_all (hash_good key_ok k) ss" "ss \<noteq> []"
  shows "list_all (\<lambda>s. isCompositeKeyValid 1 [k, s]) ss" "k \<noteq> []"
proof -
  show "list_all (\<lambda>s. isCompositeKeyValid 1 [k, s]) ss" using assms(1) by (simp add: list_all_iff hash_good_def)
  show "k \<noteq> []" using assms hash_goodD(2) [of key_ok k "hd ss"] by (cases ss) simp_all
qed

lemma flat_simps [simp]: "flat [] = []" "flat ((k, v) # kvs) = k # v # flat kvs"
  by (simp_all add: flat_def)

lemma groups2_flat [simp]: "groups2 (flat kvs) = kvs"
  by (induction kvs) auto

lemma length_flat [simp]: "length (flat kvs) = 2 * length kvs"
  by (induction kvs) auto

lemma check_groups_ok:
  "list_all (\<lambda>(k, v). key_good key_ok k \<and> isValValid v) kvs \<Longrightarrow> check_groups kvs = None"
  by (induction kvs) (auto simp: key_good_def)

lemma check_sub_groups_ok:
  "list_all (\<lambda>(s, v). hash_good key_ok k s \<and> isValValid v) kvs \<Longrightarrow> check_sub_groups k kvs = None"
  by (induction kvs) (auto simp: hash_good_def)

lemma safe_incr_clamp:
  "int64 a \<Longrightarrow> int64 x \<Longrightarrow> safe_incr I64_MIN I64_MAX a x = clamp64 (x + a)"
  by (auto simp: safe_incr_def clamp64_def int64_def I64_MIN_def I64_MAX_def)

lemma from_string_signed_int64: "int64 (from_string_signed s 0)"
  by (auto simp: from_string_signed_def int64_def I64_MIN_def I64_MAX_def Let_def)

lemma range_bound: "i - j = m \<Longrightarrow> j \<le> i \<Longrightarrow> i \<le> m \<Longrightarrow> j = 0 \<and> i = m" for i j m :: nat
  by arith

lemma unat_range:
  fixes a b :: u64
  assumes "\<not> (a = 0 \<and> b = - 1)" "a \<le> b"
  shows "unat (b - a + 1) = Suc (unat b) - unat a"
proof -
  have d: "unat (b - a) = unat b - unat a" "unat a \<le> unat b"
    using assms(2) by (simp_all add: unat_sub word_le_nat_alt)
  have "b - a \<noteq> - 1"
  proof
    assume "b - a = - 1"
    then have "unat b - unat a = unat (- 1 :: u64)" using d(1) by simp
    moreover have "unat b \<le> unat (- 1 :: u64)" by (rule word_le_nat_alt [THEN iffD1]) simp
    ultimately have "unat a = 0 \<and> unat b = unat (- 1 :: u64)" using d(2) by (intro range_bound)
    then have "a = 0 \<and> b = - 1" by (simp only: unat_eq_0 word_unat_eq_iff)
    then show False using assms(1) by blast
  qed
  then have "1 + (b - a) \<noteq> 0" by (metis add.commute eq_neg_iff_add_eq_0)
  then have "unat (1 + (b - a)) = Suc (unat (b - a))" by (rule unatSuc)
  then show ?thesis using d by (simp add: add.commute)
qed

lemma from_string_signed_Nil: "from_string_signed [] d = d"
  by (simp add: from_string_signed_def Let_def)

lemma int64_of: "int64 (int_of now M k)"
  by (simp add: int_of_def from_string_signed_int64)

lemma int64_clamp: "int64 (clamp64 n)" "int64 n \<Longrightarrow> clamp64 n = n"
  by (auto simp: int64_def clamp64_def I64_MIN_def I64_MAX_def)

lemma int64_text [simp]: "int64 n \<Longrightarrow> from_string_signed (to_string_signed n) d = n"
  by (intro from_string_signed_to_string [of "[]", simplified]) (auto simp: int64_def I64_MIN_def I64_MAX_def)

lemma int64_text_valid: "int64 n \<Longrightarrow> isValValid (to_string_signed n)"
  using to_string_signed_dec [of n] by (simp add: isValValid_def isValValid_size_def int64_def I64_MIN_def I64_MAX_def MAX_VAL_SIZE_def)

lemma isValValid_Nil [simp]: "isValValid []"
  by (simp add: isValValid_def isValValid_size_def)

section \<open>The writes of the commands\<close>

definition refined ::
  "(kv_write list \<Rightarrow> 'l \<Rightarrow> 'l \<Rightarrow> bool) \<Rightarrow> Response \<times> 'l \<Rightarrow> Response \<times> kv_write list \<Rightarrow> 'l \<Rightarrow> bool" where
  "refined W step sp l \<longleftrightarrow> fst step = fst sp \<and> W (snd sp) l (snd step)"

lemma refined_simp [simp]: "refined W (r, l') (r', ws) l \<longleftrightarrow> r = r' \<and> W ws l l'"
  by (simp add: refined_def)

context kv_list
begin

lemma put_insert:
  assumes "inv l" "key_good key_ok k" "isValValid v"
  shows "writes [put now k v e] l (db_insert L now k v e l)"
  using kv_insert [OF assms(1), of "Normal k v e 0" now] key_goodD [OF assms(2)] assms(3)
  by (simp add: db_insert_def insert_kv_def put_def fwrite_def)

lemma put_hint:
  assumes "inv l" "key_good key_ok k" "l_getPair L l k = Some p" "isValValid v"
  shows "writes [put now k v e] l (insertHint L now p (Normal k v e 0) l)"
  using kv_hint [OF assms(1), of "Normal k v e 0" p now] key_goodD [OF assms(2)] assms(3,4)
  by (simp add: put_def fwrite_def)

lemma val_valid: "pair_wf q \<Longrightarrow> isValValid (getVal q)"
  using getValLen_le [of q] by (simp add: isValValid_def isValValid_size_def)

lemma expire_hint:
  assumes "inv l" "key_good key_ok k" "l_getPair L l k = Some p"
  shows "writes [put now k (getVal (snd p)) e] l (insertHint L now p (Expires k (getVal (snd p)) e 0) l)"
  using kv_hint [OF assms(1), of "Expires k (getVal (snd p)) e 0" p now] key_goodD [OF assms(2)] assms(3)
    val_valid [of "snd p"] kv_wf [OF assms(1) _ _ assms(3)]
  by (simp add: put_def fwrite_def)

lemma tomb_hint:
  assumes "inv l" "key_good key_ok k" "l_getPair L l k = Some p"
  shows "writes [(k, None)] l (insertHint L now p (Tombstone k 0) l)"
  using kv_hint [OF assms(1), of "Tombstone k 0" p now] key_goodD [OF assms(2)] assms(3)
  by (simp add: fwrite_def mk_reg_def)

lemma erase_write: "inv l \<Longrightarrow> key_good key_ok k \<Longrightarrow> writes [(k, None)] l (db_erase L now k l)"
  using kv_erase [of l k now] by (simp add: db_erase_def key_good_def)

lemma writes_fold:
  assumes "\<And>x l. x \<in> set xs \<Longrightarrow> inv l \<Longrightarrow> writes [w x] l (f x l)" "inv l"
  shows "writes (map w xs) l (fold f xs l)"
  using assms
proof (induction xs arbitrary: l)
  case Nil
  then show ?case by (simp add: kv_wrote_Nil)
next
  case (Cons x xs)
  have x: "writes [w x] l (f x l)" using Cons.prems by simp
  then have "inv (f x l)" by (simp add: kv_wrote_def)
  then have "writes (map w xs) (f x l) (fold f xs (f x l))" using Cons.IH Cons.prems(1) by simp
  from kv_wrote_append [OF x this] show ?case by simp
qed

text \<open>Reading.\<close>

lemma val_live: "inv l \<Longrightarrow> key_good key_ok k \<Longrightarrow> getPairVal now (l_getPair L) l k = val_of now (kv l) k"
  using getPairVal_live [of l k] key_goodD [of key_ok k] by (simp add: val_of_def)

lemma ok_live: "inv l \<Longrightarrow> key_good key_ok k \<Longrightarrow> getPairOK now (l_getPair L) l k \<longleftrightarrow> live now (kv l) k \<noteq> None"
  using getPairOK_live [of l k] key_goodD [of key_ok k] by simp

lemma ptr_live:
  assumes "inv l" "key_good key_ok k"
  obtains (none) "getPairPtr now (l_getPair L) l k = None" "live now (kv l) k = None" "val_of now (kv l) k = []"
  | (some) p r where "getPairPtr now (l_getPair L) l k = Some p" "live now (kv l) k = Some r"
      "l_getPair L l k = Some p" "pair_wf (snd p)" "getKey (snd p) = k" "pair_reg (snd p) = Some r"
      "getVal (snd p) = reg_val r" "getCreated (snd p) = reg_created r" "getExpires (snd p) = reg_expires r"
      "val_of now (kv l) k = reg_val r" "reg_ok now r" "reg_val r \<noteq> []"
proof -
  have k: "k \<noteq> []" "key_ok k" using key_goodD [OF assms(2)] by simp_all
  from assms(1) k show thesis
  proof (cases rule: getPairPtr_live [where now = now])
    case none
    then show thesis using that(1) by (simp add: val_of_def)
  next
    case (some p r)
    have "reg_ok now r" using some(2) by (auto simp: live_def split: option.splits if_splits)
    moreover have "reg_val r \<noteq> []" using some(6,7) by (auto simp: pair_reg_def mk_reg_def split: if_splits)
    ultimately show thesis using that(2) [of p r] some by (simp add: val_of_def)
  qed
qed

lemma pred_live:
  "getPairOK_pred now get l k pr = (case getPairPtr now get l k of None \<Rightarrow> pr False (get l k) | Some p \<Rightarrow> pr True (Some p))"
  by (simp add: getPairPtr_def getPairOK_pred_def Let_def split: option.split)

lemma ttl_live: "reg_ok now r \<Longrightarrow> getExpires q = reg_expires r \<Longrightarrow> getCreated q = reg_created r \<Longrightarrow> getTTL now q = ttl_of now r"
  using isExpiresSet_iff [of q]
  by (auto simp: getTTL_def ttl_of_def isExpiresSet_def reg_ok_def expired_def Let_def)

lemma expires_at_live:
  "getExpires q = reg_expires r \<Longrightarrow> getCreated q = reg_created r \<Longrightarrow>
     getExpiresAt q = (if reg_expires r = 0 then 0 else to32 (reg_created r) + reg_expires r)"
  using isExpiresSet_iff [of q] by (auto simp: getExpiresAt_def isExpiresSet_def)

section \<open>The commands implement their meaning\<close>

abbreviation implements :: "(int \<Rightarrow> int) \<Rightarrow> u64 \<Rightarrow> Request \<Rightarrow> 'l \<Rightarrow> bool" where
  "implements ub now rq l \<equiv> refined writes (command_of ub rq L now (params rq) l) (spec now rq (kv l)) l"

lemma writes_Nil: "inv l \<Longrightarrow> writes [] l l"
  by (rule kv_wrote_Nil)

lemma read_commands:
  assumes "inv l"
  shows "key_good key_ok k \<Longrightarrow> implements ub now (Get k) l"
    "key_good key_ok k \<Longrightarrow> implements ub now (Exists k) l"
  using assms by (simp_all add: GET_def EXISTS_def ok_live val_live writes_Nil key_goodD)

lemma read_hash_commands:
  assumes "inv l" "hash_good key_ok k s"
  shows "implements ub now (HGet k s) l" "implements ub now (HExists k s) l"
proof -
  note h = hash_goodD [OF assms(2)]
  show "implements ub now (HGet k s) l" "implements ub now (HExists k s) l"
    using h(1) by (simp_all add: HGET_def HEXISTS_def h(4) ok_live [OF assms(1) h(3)] val_live [OF assms(1) h(3)] writes_Nil assms(1))
qed

lemma read_many_commands:
  assumes "inv l"
  shows "list_all (key_good key_ok) ks \<Longrightarrow> ks \<noteq> [] \<Longrightarrow> implements ub now (MGet ks) l"
    "list_all (hash_good key_ok k) ss \<Longrightarrow> ss \<noteq> [] \<Longrightarrow> implements ub now (HMGet k ss) l"
proof -
  assume a: "list_all (key_good key_ok) ks" "ks \<noteq> []"
  have "list_all isKeyValid ks" using a(1) by (simp add: list_all_iff key_good_def)
  moreover have "map (getPairVal now (l_getPair L) l) ks = map (val_of now (kv l)) ks"
    using a(1) val_live [OF assms] by (simp add: list_all_iff)
  moreover have "\<not> length (params (MGet ks)) < 2" using a(2) by (cases ks) simp_all
  ultimately show "implements ub now (MGet ks) l" by (simp add: MGET_def writes_Nil [OF assms])
next
  assume a: "list_all (hash_good key_ok k) ss" "ss \<noteq> []"
  note g = hash_goods [OF a]
  have "getPairVal now (l_getPair L) l (compositeKey k s) = val_of now (kv l) (hash_key k s)" if "s \<in> set ss" for s
    using hash_goodD(3,4) [of key_ok k s] a(1) that val_live [OF assms] by (simp add: list_all_iff)
  then have "map (\<lambda>s. getPairVal now (l_getPair L) l (compositeKey k s)) ss = map (\<lambda>s. val_of now (kv l) (hash_key k s)) ss"
    by simp
  moreover have "\<not> length (params (HMGet k ss)) < 3" using a(2) by (cases ss) simp_all
  ultimately show "implements ub now (HMGet k ss) l" using g by (simp add: HMGET_def writes_Nil [OF assms])
qed

lemma range_command:
  assumes "inv l" "key_good key_ok k" "\<not> (a = 0 \<and> b = - 1)"
  shows "implements ub now (GetRange k a b) l"
proof -
  let ?v = "val_of now (kv l) k"
  have n: "unat (b - a + 1) = Suc (unat b) - unat a" if "a \<le> b" using unat_range [OF assms(3) that] .
  show ?thesis
  proof (cases "a \<le> b")
    case True
    then show ?thesis using n assms(1) key_goodD [OF assms(2)]
      by (auto simp: GETRANGE_def val_live [OF assms(1,2)] writes_Nil not_less Let_def)
  next
    case False
    then have "Suc (unat b) - unat a = 0" by (simp add: word_le_nat_alt)
    then show ?thesis using False assms(1) key_goodD [OF assms(2)]
      by (simp add: GETRANGE_def writes_Nil not_le Let_def)
  qed
qed

lemma pointer_reads:
  assumes "inv l" "key_good key_ok k"
  shows "implements ub now (Ttl k) l" "implements ub now (ExpireTime k) l" "implements ub now (SizeOf k) l"
    "implements ub now (StrLen k) l"
proof -
  have v: "isKeyValid k" using key_goodD [OF assms(2)] by simp
  note defs = TTL_def EXPIRETIME_def SIZEOF_def STRLEN_def pred_live writes_Nil [OF assms(1)] v
  have "implements ub now (Ttl k) l \<and> implements ub now (ExpireTime k) l \<and> implements ub now (SizeOf k) l \<and>
    implements ub now (StrLen k) l"
    using assms
  proof (cases rule: ptr_live [where now = now])
    case none
    then show ?thesis by (simp add: defs)
  next
    case (some p r)
    have "getKeyLen (snd p) = length k" "getValLen (snd p) = length (reg_val r)"
      using some(4,5,7) length_getKey [of "snd p"] length_getVal [of "snd p"] by simp_all
    then show ?thesis using some
      by (simp add: defs ttl_live [OF some(11,9,8)] expires_at_live [OF some(9,8)] bytes_def size_t_def)
  qed
  then show "implements ub now (Ttl k) l" "implements ub now (ExpireTime k) l" "implements ub now (SizeOf k) l"
    "implements ub now (StrLen k) l" by blast+
qed

lemma put_commands:
  assumes "inv l" "key_good key_ok k" "isValValid v"
  shows "implements ub now (Set k v e) l" "implements ub now (SetEX k x v) l" "implements ub now (SetNX k v e) l"
  using put_insert [OF assms] key_goodD [OF assms(2)] assms(3)
  by (auto simp: SET_def SETEX_def SETNX_def opt_def exp_of_def ok_live [OF assms(1,2)] writes_Nil [OF assms(1)]
      split: option.split)

lemma put_hash_command:
  assumes "inv l" "hash_good key_ok k s" "isValValid v"
  shows "implements ub now (HSet k s v e) l"
proof -
  note h = hash_goodD [OF assms(2)]
  show ?thesis using put_insert [OF assms(1) h(3) assms(3)] h(1) assms(3)
    by (auto simp: HSET_def opt_def exp_of_def h(4) split: option.split)
qed

lemma put_many:
  assumes "inv l" "list_all (\<lambda>(k, v). key_good key_ok k \<and> isValValid v) kvs"
  shows "writes (map (\<lambda>(k, v). put now k v 0) kvs) l (fold (\<lambda>(key, val). db_insert L now key val 0) kvs l)"
  using assms by (intro writes_fold) (auto simp: list_all_iff split: prod.split intro!: put_insert)

lemma put_many_commands:
  assumes "inv l" "kvs \<noteq> []"
  shows "list_all (\<lambda>(k, v). key_good key_ok k \<and> isValValid v) kvs \<Longrightarrow> implements ub now (MSet kvs) l"
    "list_all (\<lambda>(k, v). key_good key_ok k \<and> isValValid v) kvs \<Longrightarrow> implements ub now (MSetNX kvs) l"
    "list_all (\<lambda>(s, v). hash_good key_ok k s \<and> isValValid v) kvs \<Longrightarrow> implements ub now (HMSet k kvs) l"
proof -
  have n: "\<not> (2 * length kvs < 2)" using assms(2) by (cases kvs) simp_all
  {
    assume a: "list_all (\<lambda>(k, v). key_good key_ok k \<and> isValValid v) kvs"
    note w = put_many [OF assms(1) a, of now]
    show "implements ub now (MSet kvs) l" using n w check_groups_ok [OF a] by (simp add: MSET_def)
    have "list_ex (\<lambda>(key, val). getPairOK now (l_getPair L) l key) kvs \<longleftrightarrow> (\<exists>(k, v) \<in> set kvs. live now (kv l) k \<noteq> None)"
      using a ok_live [OF assms(1)] by (fastforce simp: list_ex_iff list_all_iff)
    then show "implements ub now (MSetNX kvs) l"
      using n w check_groups_ok [OF a] writes_Nil [OF assms(1)] by (simp add: MSETNX_def)
  }
  assume a: "list_all (\<lambda>(s, v). hash_good key_ok k s \<and> isValValid v) kvs"
  then have k: "k \<noteq> []" using assms(2) hash_goodD(2) [of key_ok k "fst (hd kvs)"] by (cases kvs) auto
  have "writes (map (\<lambda>(s, v). put now (hash_key k s) v 0) kvs) l
      (fold (\<lambda>(subN, val). db_insert L now (compositeKey k subN) val 0) kvs l)"
    using a assms(1)
    by (intro writes_fold) (auto simp: list_all_iff hash_goodD(4) split: prod.split intro!: put_insert dest!: bspec intro: hash_goodD(3))
  then show "implements ub now (HMSet k kvs) l"
    using n k check_sub_groups_ok [OF a] by (simp add: HMSET_def)
qed

lemma erase_commands:
  assumes "inv l"
  shows "list_all (key_good key_ok) ks \<Longrightarrow> ks \<noteq> [] \<Longrightarrow> implements ub now (Del ks) l"
    "list_all (hash_good key_ok k) ss \<Longrightarrow> ss \<noteq> [] \<Longrightarrow> implements ub now (HDel k ss) l"
proof -
  assume a: "list_all (key_good key_ok) ks" "ks \<noteq> []"
  have "writes (map (\<lambda>k. (k, None)) ks) l (fold (db_erase L now) ks l)"
    using a(1) assms by (intro writes_fold) (auto simp: list_all_iff intro: erase_write)
  moreover have "list_all isKeyValid ks" using a(1) by (auto simp: list_all_iff key_good_def)
  ultimately show "implements ub now (Del ks) l" using a(2) by (cases ks) (simp_all add: DEL_def)
next
  assume a: "list_all (hash_good key_ok k) ss" "ss \<noteq> []"
  have "writes (map (\<lambda>s. (hash_key k s, None)) ss) l (fold (\<lambda>subN. db_erase L now (compositeKey k subN)) ss l)"
    using a(1) assms by (intro writes_fold) (auto simp: list_all_iff hash_goodD(4) intro!: erase_write hash_goodD(3))
  moreover have "list_all (\<lambda>s. isCompositeKeyValid 1 [k, s]) ss" "k \<noteq> []" using hash_goods [OF a] by blast+
  ultimately show "implements ub now (HDel k ss) l" using a(2) by (cases ss) (simp_all add: HDEL_def)
qed

text \<open>The commands that look at the pair and write through it.\<close>

lemma hint_commands:
  assumes "inv l" "key_good key_ok k"
  shows "isValValid v \<Longrightarrow> implements ub now (SetXX k v e) l"
    "implements ub now (Expire k x) l" "implements ub now (ExpireAt k x) l" "implements ub now (Persist k) l"
proof -
  have v: "isKeyValid k" using key_goodD [OF assms(2)] by simp
  note defs = SETXX_def EXPIRE_def EXPIREAT_def PERSIST_def opt_def exp_of_def writes_Nil [OF assms(1)] v put_at_def
  have "(isValValid v \<longrightarrow> implements ub now (SetXX k v e) l) \<and> implements ub now (Expire k x) l \<and>
      implements ub now (ExpireAt k x) l \<and> implements ub now (Persist k) l"
    using assms
  proof (cases rule: ptr_live [where now = now])
    case none
    then show ?thesis by (auto simp: defs split: option.split)
  next
    case (some p r)
    note h = put_hint [OF assms some(3)] expire_hint [OF assms some(3)] tomb_hint [OF assms some(3)]
    show ?thesis using some h isExpiresSet_iff [of "snd p"] by (auto simp: defs split: option.split)
  qed
  then show "isValValid v \<Longrightarrow> implements ub now (SetXX k v e) l"
    "implements ub now (Expire k x) l" "implements ub now (ExpireAt k x) l" "implements ub now (Persist k) l" by blast+
qed

lemma get_commands:
  assumes "inv l" "key_good key_ok k"
  shows "isValValid v \<Longrightarrow> implements ub now (GetSet k v) l" "implements ub now (GetDel k) l"
    "implements ub now (GetEX k x) l" "implements ub now (GetEXAt k x) l" "implements ub now (GetPersist k) l"
proof -
  have v: "isKeyValid k" using key_goodD [OF assms(2)] by simp
  note defs = GETSET_def GETDEL_def GETEX_def GETEXAT_def GETPERSIST_def processGet_def SetPredicate_def DeletePredicate_def
    ExpirePredicate_def ExpireAtPredicate_def PersistPredicate_def writes_Nil [OF assms(1)] v put_at_def
  have "(isValValid v \<longrightarrow> implements ub now (GetSet k v) l) \<and> implements ub now (GetDel k) l \<and>
      implements ub now (GetEX k x) l \<and> implements ub now (GetEXAt k x) l \<and> implements ub now (GetPersist k) l"
    using assms
  proof (cases rule: ptr_live [where now = now])
    case none
    then show ?thesis using put_insert [OF assms] by (auto simp: defs)
  next
    case (some p r)
    note h = put_hint [OF assms some(3)] expire_hint [OF assms some(3)] tomb_hint [OF assms some(3)]
    show ?thesis using some h by (auto simp: defs)
  qed
  then show "isValValid v \<Longrightarrow> implements ub now (GetSet k v) l" "implements ub now (GetDel k) l"
    "implements ub now (GetEX k x) l" "implements ub now (GetEXAt k x) l" "implements ub now (GetPersist k) l" by blast+
qed

lemma cas_commands:
  assumes "inv l" "key_good key_ok k" "isValValidNZ v"
  shows "isValValidNZ w \<Longrightarrow> implements ub now (Cas k v w e) l" "implements ub now (Cad k v) l"
proof -
  have v: "isKeyValid k" "v \<noteq> []" using key_goodD [OF assms(2)] assms(3) by (auto simp: isValValidNZ_def)
  have w: "isValValid w" if "isValValidNZ w" using that by (simp add: isValValidNZ_def isValValid_def isValValid_size_def)
  note defs = CAS_def CAD_def opt_def exp_of_def writes_Nil [OF assms(1)] v(1) assms(3)
  have "(isValValidNZ w \<longrightarrow> implements ub now (Cas k v w e) l) \<and> implements ub now (Cad k v) l"
    using assms(1,2)
  proof (cases rule: ptr_live [where now = now])
    case none
    then show ?thesis using v(2) by (auto simp: defs split: option.split)
  next
    case (some p r)
    note h = put_hint [OF assms(1,2) some(3) w] tomb_hint [OF assms(1,2) some(3)]
    show ?thesis using some h by (auto simp: defs split: option.split)
  qed
  then show "isValValidNZ w \<Longrightarrow> implements ub now (Cas k v w e) l" "implements ub now (Cad k v) l" by blast+
qed

lemma copy_commands:
  assumes "inv l" "key_good key_ok k" "key_good key_ok k'"
  shows "implements ub now (CopyMove oper k k') l"
proof -
  have v: "isKeyValid k" "isKeyValid k'" using key_goodD assms(2,3) by blast+
  note defs = cpmv_def writes_Nil [OF assms(1)] v ok_live [OF assms(1,3)]
  from assms(1,2) show ?thesis
  proof (cases rule: ptr_live [where now = now])
    case none
    then show ?thesis by (auto simp: defs)
  next
    case (some p r)
    let ?l = "db_insert L now k' (getVal (snd p)) (getTTL now (snd p)) l"
    have t: "getTTL now (snd p) = ttl_of now r" by (rule ttl_live [OF some(11,9,8)])
    have w: "writes [put now k' (reg_val r) (ttl_of now r)] l ?l"
      using put_insert [OF assms(1,3) val_valid [OF some(4)], of now "getTTL now (snd p)"] some(7) t by simp
    then have "inv ?l" by (simp add: kv_wrote_def)
    from erase_write [OF this assms(2), of now] kv_wrote_append [OF w]
    have w2: "writes [put now k' (reg_val r) (ttl_of now r), (k, None)] l (db_erase L now k ?l)" by fastforce
    show ?thesis using some w w2 t by (cases oper) (auto simp: defs Let_def)
  qed
qed

lemma append_command:
  assumes "inv l" "key_good key_ok k" "isValValid_size (length (val_of now (kv l) k) + length v)"
  shows "implements ub now (Append k v) l"
proof -
  let ?o = "val_of now (kv l) k"
  let ?f = "\<lambda>q. APPEND_Factory k q ?o v"
  have k: "isKeyValid k" "key_ok k" using key_goodD [OF assms(2)] by simp_all
  have vv: "isValValid v" "isValValid_size (length v + length ?o)"
    using assms(3) by (simp_all add: isValValid_def isValValid_size_def)
  have wf: "factory_wf (?f q)" for q using k assms(3) by (simp add: APPEND_Factory_def length_write_at)
  have wr: "fwrite now (?f (map_option snd p)) = mk_reg now (?o @ v) 0"
    if "\<And>q. p = Some q \<Longrightarrow> getVal (snd q) = ?o" "p = None \<Longrightarrow> ?o = []" for p :: "pptr option"
  proof (cases p)
    case None
    then show ?thesis using that(2) by (simp add: fwrite_def APPEND_Factory_def write_at_def)
  next
    case (Some q)
    then show ?thesis using that(1) by (simp add: fwrite_def APPEND_Factory_def smart_memcpy_def write_at_def)
  qed
  from assms(1,2) show ?thesis
  proof (cases rule: ptr_live [where now = now])
    case none
    have "hintable cur (?f None)" for cur by (simp add: APPEND_Factory_def)
    from kv_insert [OF assms(1) wf _ this, of now] k wr [of None] none
    have "writes [put now k (?o @ v) 0] l (snd (l_insertF L now (?f None) l))"
      by (simp add: put_def APPEND_Factory_def)
    then show ?thesis using none k vv by (simp add: APPEND_def size_t_def Let_def)
  next
    case (some p r)
    have "hintable (Some (snd p)) (?f (Some (snd p)))" by (simp add: APPEND_Factory_def)
    from kv_hint [OF assms(1) wf _ _ this, of now] k wr [of "Some p"] some
    have "writes [put now k (?o @ v) 0] l (insertHint L now p (?f (Some (snd p))) l)"
      by (simp add: put_def APPEND_Factory_def)
    then show ?thesis using some k vv by (simp add: APPEND_def size_t_def Let_def)
  qed
qed

text \<open>Counters: the sum is taken in 64 bits and stops at their ends.\<close>

lemma counter_write:
  assumes "inv l" "key_good key_ok k" "int64 n"
  shows "writes [put_int now k n] l (db_insert L now k (to_string_signed n) 0 l)"
    "l_getPair L l k = Some p \<Longrightarrow> writes [put_int now k n] l (insertHint L now p (Normal k (to_string_signed n) 0 0) l)"
  using put_insert [OF assms(1,2) int64_text_valid [OF assms(3)]] put_hint [OF assms(1,2) _ int64_text_valid [OF assms(3)]]
  by (simp_all add: put_int_def)

lemma counter_command:
  assumes "inv l" "key_good key_ok k" "int64 x" "int64 (s * x)"
  shows "refined writes (do_incr_decr ub s L now (c # k # opt to_string_signed (Some x)) l)
      (let m = clamp64 (int_of now (kv l) k + s * x) in (RespNumberSV (to_string_signed m), [put_int now k m])) l"
    "x = 1 \<Longrightarrow> refined writes (do_incr_decr ub s L now [c, k] l)
      (let m = clamp64 (int_of now (kv l) k + s * x) in (RespNumberSV (to_string_signed m), [put_int now k m])) l"
proof -
  have v: "isKeyValid k" using key_goodD [OF assms(2)] by simp
  have n: "sign_mult ub s x = s * x" using assms(4) by (simp add: sign_mult_def int64_def)
  have n1: "x = 1 \<Longrightarrow> sign_mult ub s 1 = s" using n by simp
  note defs = do_incr_decr_def opt_def v n n1 Let_def
  let ?R = "\<lambda>p. refined writes (do_incr_decr ub s L now p l)
      (let m = clamp64 (int_of now (kv l) k + s * x) in (RespNumberSV (to_string_signed m), [put_int now k m])) l"
  have "?R (c # k # opt to_string_signed (Some x)) \<and> (x = 1 \<longrightarrow> ?R [c, k])"
    using assms(1,2)
  proof (cases rule: ptr_live [where now = now])
    case none
    then have "int_of now (kv l) k = 0" by (simp add: int_of_def from_string_signed_Nil)
    then show ?thesis using none assms(3,4) counter_write(1) [OF assms(1,2,4)] int64_clamp(2) [OF assms(4)] n
      by (auto simp: defs)
  next
    case (some p r)
    have i: "from_string_signed (reg_val r) 0 = int_of now (kv l) k" using some by (simp add: int_of_def)
    have m: "safe_incr I64_MIN I64_MAX (s * x) (int_of now (kv l) k) = clamp64 (int_of now (kv l) k + s * x)"
      using safe_incr_clamp [OF assms(4) int64_of] .
    then have m1: "safe_incr I64_MIN I64_MAX s (int_of now (kv l) k) = clamp64 (int_of now (kv l) k + s)" if "x = 1"
      using that by simp
    show ?thesis using some assms(3) counter_write(2) [OF assms(1,2) int64_clamp(1) some(3)] n
      by (auto simp: defs i m m1 simp del: some(5))
  qed
  then show "?R (c # k # opt to_string_signed (Some x))" "x = 1 \<Longrightarrow> ?R [c, k]" by blast+
qed

lemma counter_commands:
  assumes "inv l" "key_good key_ok k"
  shows "(\<And>x. n = Some x \<Longrightarrow> int64 x) \<Longrightarrow> implements ub now (Incr k n) l"
    "(\<And>x. n = Some x \<Longrightarrow> int64 x \<and> x \<noteq> I64_MIN) \<Longrightarrow> implements ub now (Decr k n) l"
proof -
  have one: "int64 1" "int64 (- 1)" by (simp_all add: int64_def I64_MIN_def I64_MAX_def)
  note c = counter_command [OF assms, of 1 1, simplified, OF one(1)] counter_command [OF assms, of 1 "- 1", simplified, OF one]
    counter_command(1) [OF assms, of _ 1, simplified] counter_command(1) [OF assms, of _ "- 1", simplified]
  {
    assume "\<And>x. n = Some x \<Longrightarrow> int64 x"
    then show "implements ub now (Incr k n) l" using c
      by (cases n) (simp_all add: opt_def)
  }
  assume a: "\<And>x. n = Some x \<Longrightarrow> int64 x \<and> x \<noteq> I64_MIN"
  have "int64 (- x)" if "int64 x" "x \<noteq> I64_MIN" for x
    using that by (simp add: int64_def I64_MIN_def I64_MAX_def)
  then show "implements ub now (Decr k n) l" using c a
    by (cases n) (simp_all add: opt_def)
qed

lemma limit_command:
  assumes "inv l" "key_good key_ok k" "int64 x" "0 < x" "int64 lim" "s = 1 \<or> s = - 1"
  shows "refined writes (do_incr_decr_limit ub s L now [c, k, to_string_signed x, to_string_signed lim] l)
      (let m = clamp64 (int_of now (kv l) k + s * x)
       in if check_limit s m lim then (RespBool True, [put_int now k m]) else (RespBool False, [])) l"
proof -
  have v: "isKeyValid k" using key_goodD [OF assms(2)] by simp
  have sx: "int64 (s * x)" using assms(3,4,6) by (auto simp: int64_def I64_MIN_def I64_MAX_def)
  have n: "sign_mult ub s x = s * x" "s * x \<noteq> 0" using sx assms(4,6) by (auto simp: sign_mult_def int64_def)
  note defs = do_incr_decr_limit_def v n Let_def assms(3,5) writes_Nil [OF assms(1)]
  from assms(1,2) show ?thesis
  proof (cases rule: ptr_live [where now = now])
    case none
    then have "int_of now (kv l) k = 0" by (simp add: int_of_def from_string_signed_Nil)
    then show ?thesis using none assms(4) counter_write(1) [OF assms(1,2) sx] int64_clamp(2) [OF sx] n(2)
      by (auto simp: defs)
  next
    case (some p r)
    have i: "from_string_signed (reg_val r) 0 = int_of now (kv l) k" using some by (simp add: int_of_def)
    have m: "safe_incr I64_MIN I64_MAX (s * x) (int_of now (kv l) k) = clamp64 (int_of now (kv l) k + s * x)"
      using safe_incr_clamp [OF sx int64_of] .
    show ?thesis using some assms(4) counter_write(2) [OF assms(1,2) int64_clamp(1) some(3)] n(2)
      by (auto simp: defs i m)
  qed
qed

lemma limit_commands:
  assumes "inv l" "key_good key_ok k" "int64 x" "0 < x" "int64 lim"
  shows "implements ub now (IncrLimit k x lim) l" "implements ub now (DecrLimit k x lim) l"
  using limit_command [OF assms, of 1] limit_command [OF assms, of "- 1"]
  by (simp_all add: check_limit_def)

lemma to_commands:
  assumes "inv l" "key_good key_ok k" "int64 n"
  shows "implements ub now (IncrTo k n) l" "implements ub now (DecrTo k n) l"
proof -
  have v: "isKeyValid k" using key_goodD [OF assms(2)] by simp
  note defs = do_incr_to_def v Let_def assms(3) writes_Nil [OF assms(1)]
  have "implements ub now (IncrTo k n) l \<and> implements ub now (DecrTo k n) l"
    using assms(1,2)
  proof (cases rule: ptr_live [where now = now])
    case none
    then show ?thesis using counter_write(1) [OF assms] by (simp add: defs)
  next
    case (some p r)
    have i: "from_string_signed (reg_val r) 0 = int_of now (kv l) k" using some by (simp add: int_of_def)
    show ?thesis using some counter_write(2) [OF assms some(3)] by (simp add: defs i)
  qed
  then show "implements ub now (IncrTo k n) l" "implements ub now (DecrTo k n) l" by blast+
qed

theorem command_implements:
  assumes "inv l" "request_ok key_ok now (kv l) rq"
  shows "implements ub now rq l"
proof (cases rq)
  case (CopyMove oper k k')
  then show ?thesis using assms copy_commands by simp
next
  case (Append k v)
  then show ?thesis using assms append_command by simp
next
  case (GetRange k a b)
  then show ?thesis using assms range_command by simp
qed (use assms in \<open>auto simp del: params.simps command_of.simps spec.simps
   intro!: read_commands read_hash_commands read_many_commands pointer_reads
     put_commands put_hash_command put_many_commands erase_commands hint_commands get_commands cas_commands
     counter_commands limit_commands to_commands\<close>)

end

end
