(* ===== verification/IOBuffer.thy ===== *)
theory IOBuffer
  imports Allocator
begin

text \<open>
  The buffers of the connections: \<^verbatim>\<open>net/ambuffer.h\<close> and \<^verbatim>\<open>net/iobuffer.h\<close> over a memory manager,
  \<^verbatim>\<open>mymemorymanager/simplememorymanager.h\<close> and \<^verbatim>\<open>tieredmemorymanager.h\<close>.  A context owns a block of
  memory; the first \<open>size\<close> bytes of it are in use.
\<close>

section \<open>Memory managers\<close>

record Context =
  cx_data :: "u64 option"
  cx_mem :: str
  cx_size :: nat
  cx_capacity :: nat

definition cx_clear :: Context where
  "cx_clear = \<lparr>cx_data = None, cx_mem = [], cx_size = 0, cx_capacity = 0\<rparr>"

record 'm mm_ops =
  mm_allocate :: "Context \<Rightarrow> nat \<Rightarrow> 'm \<Rightarrow> bool \<times> Context \<times> 'm"
  mm_deallocate :: "Context \<Rightarrow> 'm \<Rightarrow> Context \<times> 'm"

definition cx_wf :: "Context \<Rightarrow> bool" where
  "cx_wf c \<longleftrightarrow> length (cx_mem c) = cx_capacity c \<and> cx_size c \<le> cx_capacity c \<and> (cx_data c = None \<longrightarrow> cx_capacity c = 0)"

text \<open>The bytes of a context that are in use.\<close>

definition cx_bytes :: "Context \<Rightarrow> str" where
  "cx_bytes c = take (cx_size c) (cx_mem c)"

locale memory_manager =
  fixes M :: "'m mm_ops" and cx_ok :: "Context \<Rightarrow> bool"
  assumes cx_ok_wf: "cx_ok c \<Longrightarrow> cx_wf c"
    and cx_ok_64: "cx_ok c \<Longrightarrow> cx_capacity c < 2 ^ 63"
    and cx_ok_clear: "cx_ok cx_clear"
    and cx_ok_use: "cx_ok c \<Longrightarrow> length mem = cx_capacity c \<Longrightarrow> n \<le> cx_capacity c \<Longrightarrow> cx_ok (c\<lparr>cx_mem := mem, cx_size := n\<rparr>)"
    and allocate_true: "cx_ok c \<Longrightarrow> cx_capacity c < n \<Longrightarrow> mm_allocate M c n m = (True, c', m') \<Longrightarrow>
      cx_ok c' \<and> n \<le> cx_capacity c' \<and> cx_size c' = cx_size c \<and> cx_bytes c' = cx_bytes c"
    and allocate_false: "cx_ok c \<Longrightarrow> mm_allocate M c n m = (False, c', m') \<Longrightarrow> c' = c"
    and deallocate_clear: "fst (mm_deallocate M c m) = cx_clear"

section \<open>SimpleMemoryManager\<close>

text \<open>
  \<open>realloc\<close> is the library's.  It keeps the bytes up to the smaller of the two sizes; what is behind them
  is not specified.  The arguments are the heap, the old pointer with its bytes and the size.
\<close>

record 'h realloc_ops =
  realloc :: "u64 option \<Rightarrow> str \<Rightarrow> nat \<Rightarrow> 'h \<Rightarrow> (u64 \<times> str) option \<times> 'h"
  rfree :: "u64 option \<Rightarrow> 'h \<Rightarrow> 'h"

definition simple_allocate :: "'h realloc_ops \<Rightarrow> Context \<Rightarrow> nat \<Rightarrow> 'h \<Rightarrow> bool \<times> Context \<times> 'h" where
  "simple_allocate H c needed h =
     (case realloc H (cx_data c) (cx_mem c) needed h of
        (None, h) \<Rightarrow> (False, c, h)
      | (Some (p, mem), h) \<Rightarrow> (True, c\<lparr>cx_data := Some p, cx_mem := mem, cx_capacity := needed\<rparr>, h))"

definition simple_deallocate :: "'h realloc_ops \<Rightarrow> Context \<Rightarrow> 'h \<Rightarrow> Context \<times> 'h" where
  "simple_deallocate H c h = (cx_clear, rfree H (cx_data c) h)"

section \<open>TieredMemoryManager\<close>

definition SIZES :: "nat list" where
  "SIZES = [16384, 65536, 262144, 1048576, 4194304, 16777216, 67108864, 268500992]"

definition capacity2tier :: "nat \<Rightarrow> nat" where
  "capacity2tier capacity = length (takeWhile (\<lambda>s. s \<noteq> capacity) SIZES)"

definition findTier :: "nat \<Rightarrow> nat" where
  "findTier needed = length (takeWhile (\<lambda>s. \<not> needed \<le> s) SIZES)"

record TieredMemoryManager =
  tm_slabs :: "SlabAllocator list"

definition tm_allocate1 :: "nat \<Rightarrow> TieredMemoryManager \<Rightarrow> u64 option \<times> TieredMemoryManager" where
  "tm_allocate1 tier m =
     (let (p, s) = slab_xallocate1 (tm_slabs m ! tier) in (p, m\<lparr>tm_slabs := (tm_slabs m)[tier := s]\<rparr>))"

definition tm_deallocate1 :: "nat \<Rightarrow> u64 \<Rightarrow> TieredMemoryManager \<Rightarrow> TieredMemoryManager" where
  "tm_deallocate1 tier p m = m\<lparr>tm_slabs := (tm_slabs m)[tier := slab_xdeallocate (tm_slabs m ! tier) p]\<rparr>"

text \<open>The loop over the tiers: the first one that has a block.\<close>

function tm_scan :: "nat \<Rightarrow> TieredMemoryManager \<Rightarrow> (nat \<times> u64) option \<times> TieredMemoryManager" where
  "tm_scan tier m =
     (if tier < length SIZES then
        (case tm_allocate1 tier m of
           (Some p, m) \<Rightarrow> (Some (tier, p), m)
         | (None, m) \<Rightarrow> tm_scan (Suc tier) m)
      else (None, m))"
  by auto

termination by (relation "measure (\<lambda>(tier, m). length SIZES - tier)") auto

declare tm_scan.simps [simp del]

text \<open>The bytes of a new block are what the memory holds there: \<open>raw\<close> says what.\<close>

definition tm_allocate ::
  "(u64 \<Rightarrow> byte) \<Rightarrow> Context \<Rightarrow> nat \<Rightarrow> TieredMemoryManager \<Rightarrow> bool \<times> Context \<times> TieredMemoryManager" where
  "tm_allocate raw c needed m =
     (let tier = findTier needed; context_tier = capacity2tier (cx_capacity c) in
      if cx_data c \<noteq> None \<and> context_tier \<ge> tier then (True, c, m)
      else if tier \<ge> length SIZES then (False, c, m)
      else case tm_scan tier m of
             (None, m) \<Rightarrow> (False, c, m)
           | (Some (tier, p), m) \<Rightarrow>
               (let mem = map (\<lambda>i. raw (p + of_nat i)) [0..<SIZES ! tier];
                    mem = (if cx_data c \<noteq> None \<and> cx_size c \<noteq> 0 then write_at 0 (cx_bytes c) mem else mem);
                    m = (case cx_data c of Some q \<Rightarrow> tm_deallocate1 context_tier q m | None \<Rightarrow> m)
                in (True, c\<lparr>cx_data := Some p, cx_mem := mem, cx_capacity := SIZES ! tier\<rparr>, m)))"

definition tm_deallocate :: "Context \<Rightarrow> TieredMemoryManager \<Rightarrow> Context \<times> TieredMemoryManager" where
  "tm_deallocate c m =
     (cx_clear, case cx_data c of Some p \<Rightarrow> tm_deallocate1 (capacity2tier (cx_capacity c)) p m | None \<Rightarrow> m)"

definition tm_ops :: "(u64 \<Rightarrow> byte) \<Rightarrow> TieredMemoryManager mm_ops" where
  "tm_ops raw = \<lparr>mm_allocate = tm_allocate raw, mm_deallocate = tm_deallocate\<rparr>"

section \<open>AMBuffer\<close>

definition am_reserve :: "'m mm_ops \<Rightarrow> nat \<Rightarrow> Context \<times> 'm \<Rightarrow> bool \<times> Context \<times> 'm" where
  "am_reserve M sz s = (case s of (c, m) \<Rightarrow> mm_allocate M c sz m)"

definition am_clear :: "'m mm_ops \<Rightarrow> Context \<times> 'm \<Rightarrow> Context \<times> 'm" where
  "am_clear M s = (case s of (c, m) \<Rightarrow> mm_deallocate M c m)"

definition am_resize :: "'m mm_ops \<Rightarrow> nat \<Rightarrow> Context \<times> 'm \<Rightarrow> bool \<times> Context \<times> 'm" where
  "am_resize M sizeNew s =
     (let (b, c, m) = (if sizeNew > cx_capacity (fst s) then am_reserve M sizeNew s else (True, s))
      in if b then (True, c\<lparr>cx_size := sizeNew\<rparr>, m) else (False, c, m))"

definition am_push :: "'m mm_ops \<Rightarrow> str \<Rightarrow> Context \<times> 'm \<Rightarrow> bool \<times> Context \<times> 'm" where
  "am_push M src s =
     (let n = length src; sz = cx_size (fst s);
          (b, c, m) = (if sz + n > cx_capacity (fst s) then am_reserve M (sz + n) s else (True, s))
      in if b then (True, c\<lparr>cx_mem := write_at sz src (cx_mem c), cx_size := sz + n\<rparr>, m) else (False, c, m))"

section \<open>IOBuffer\<close>

record IOBuffer =
  io_head :: nat
  io_buffer :: Context

definition STANDARD_READ_SIZE :: nat where "STANDARD_READ_SIZE = 4096"

definition io_new :: IOBuffer where
  "io_new = \<lparr>io_head = 0, io_buffer = cx_clear\<rparr>"

definition io_size :: "IOBuffer \<Rightarrow> nat" where
  "io_size b = cx_size (io_buffer b) - io_head b"

text \<open>\<open>string_view{ data(), size() }\<close>.\<close>

definition io_view :: "IOBuffer \<Rightarrow> str" where
  "io_view b = take (io_size b) (drop (io_head b) (cx_mem (io_buffer b)))"

definition io_clear :: "'m mm_ops \<Rightarrow> IOBuffer \<times> 'm \<Rightarrow> IOBuffer \<times> 'm" where
  "io_clear M s = (case s of (b, m) \<Rightarrow>
     let (c, m) = am_clear M (io_buffer b, m) in (\<lparr>io_head = 0, io_buffer = c\<rparr>, m))"

definition io_push :: "'m mm_ops \<Rightarrow> str \<Rightarrow> IOBuffer \<times> 'm \<Rightarrow> bool \<times> IOBuffer \<times> 'm" where
  "io_push M src s = (case s of (b, m) \<Rightarrow>
     if length src = 0 then (False, b, m)
     else let (ok, c, m) = am_push M src (io_buffer b, m) in (ok, b\<lparr>io_buffer := c\<rparr>, m))"

text \<open>The pointer is an index into the block.\<close>

definition io_provideBuffer :: "'m mm_ops \<Rightarrow> nat \<Rightarrow> IOBuffer \<times> 'm \<Rightarrow> nat option \<times> IOBuffer \<times> 'm" where
  "io_provideBuffer M sz s = (case s of (b, m) \<Rightarrow>
     let oldSize = cx_size (io_buffer b);
         (ok, c, m) = am_resize M (oldSize + sz) (io_buffer b, m)
     in (if ok then Some oldSize else None, b\<lparr>io_buffer := c\<rparr>, m))"

definition io_provideBufferAtLeast ::
  "'m mm_ops \<Rightarrow> nat \<Rightarrow> IOBuffer \<times> 'm \<Rightarrow> (nat \<times> nat) option \<times> IOBuffer \<times> 'm" where
  "io_provideBufferAtLeast M sz s = (case s of (b, m) \<Rightarrow>
     let oldSize = cx_size (io_buffer b);
         (ok, c, m) = am_resize M (oldSize + sz) (io_buffer b, m)
     in if \<not> ok then (None, b\<lparr>io_buffer := c\<rparr>, m)
        else let (ok, c, m) = am_resize M (cx_capacity c) (c, m)
             in (if ok then Some (oldSize, cx_size c - oldSize) else None, b\<lparr>io_buffer := c\<rparr>, m))"

definition io_provideBufferAtLeastStandardSize ::
  "'m mm_ops \<Rightarrow> IOBuffer \<times> 'm \<Rightarrow> (nat \<times> nat) option \<times> IOBuffer \<times> 'm" where
  "io_provideBufferAtLeastStandardSize M s = io_provideBufferAtLeast M STANDARD_READ_SIZE s"

text \<open>\<open>None\<close> is a failed \<open>assert\<close>.  The sum is taken in \<open>size_t\<close>.\<close>

definition io_finalizeBuffer :: "'m mm_ops \<Rightarrow> nat \<Rightarrow> u64 \<Rightarrow> IOBuffer \<times> 'm \<Rightarrow> (IOBuffer \<times> 'm) option" where
  "io_finalizeBuffer M offset actualSize s = (case s of (b, m) \<Rightarrow>
     let sz = unat (of_nat offset + actualSize)
     in if sz > cx_capacity (io_buffer b) then None
        else let (ok, c, m) = am_resize M sz (io_buffer b, m)
             in if ok then Some (b\<lparr>io_buffer := c\<rparr>, m) else None)"

definition io_pop :: "'m mm_ops \<Rightarrow> nat \<Rightarrow> IOBuffer \<times> 'm \<Rightarrow> bool \<times> IOBuffer \<times> 'm" where
  "io_pop M n s = (case s of (b, m) \<Rightarrow>
     if n = 0 then (False, b, m)
     else if io_size b < n then (False, b, m)
     else if io_size b = n then (True, io_clear M (b, m))
     else (True, b\<lparr>io_head := io_head b + n\<rparr>, m))"

text \<open>Writing through the pointer that \<open>provideBuffer\<close> gave.\<close>

definition io_write :: "(str \<Rightarrow> str) \<Rightarrow> IOBuffer \<Rightarrow> IOBuffer" where
  "io_write f b = b\<lparr>io_buffer := (io_buffer b)\<lparr>cx_mem := f (cx_mem (io_buffer b))\<rparr>\<rparr>"

section \<open>The contract of the buffers\<close>

lemma io_view_bytes: "io_view b = drop (io_head b) (cx_bytes (io_buffer b))"
  by (simp add: io_view_def io_size_def cx_bytes_def drop_take)

lemma length_io_view: "cx_wf (io_buffer b) \<Longrightarrow> length (io_view b) = io_size b"
  by (auto simp: io_view_def io_size_def cx_wf_def min_def)

definition io_wf :: "(Context \<Rightarrow> bool) \<Rightarrow> IOBuffer \<Rightarrow> bool" where
  "io_wf cx_ok b \<longleftrightarrow> cx_ok (io_buffer b) \<and> (io_head b = 0 \<or> io_head b < cx_size (io_buffer b))"

context memory_manager
begin

abbreviation io_ok :: "IOBuffer \<Rightarrow> bool" where
  "io_ok \<equiv> io_wf cx_ok"

lemma io_ok_new [simp]: "io_ok io_new" "io_view io_new = []"
  using cx_ok_clear by (simp_all add: io_wf_def io_new_def io_view_def cx_clear_def)

lemma cx_ok_size: "cx_ok c \<Longrightarrow> n \<le> cx_capacity c \<Longrightarrow> cx_ok (c\<lparr>cx_size := n\<rparr>)"
  using cx_ok_use [of c "cx_mem c" n] cx_ok_wf [of c] by (simp add: cx_wf_def)

lemma am_resize_true:
  assumes "cx_ok c" "am_resize M n (c, m) = (True, c', m')"
  shows "cx_ok c' \<and> cx_size c' = n \<and> n \<le> cx_capacity c' \<and> take (min n (cx_size c)) (cx_bytes c') = take (min n (cx_size c)) (cx_bytes c)"
proof (cases "n > cx_capacity c")
  case True
  then obtain d where d: "mm_allocate M c n m = (True, d, m')" "c' = d\<lparr>cx_size := n\<rparr>"
    using assms(2) by (auto simp: am_resize_def am_reserve_def split: prod.splits if_splits)
  note a = allocate_true [OF assms(1) True d(1)]
  have "cx_size c \<le> n" using True cx_ok_wf [OF assms(1)] by (simp add: cx_wf_def)
  then show ?thesis using a cx_ok_size [of d n] d(2) by (auto simp: cx_bytes_def min_def)
next
  case False
  then have "c' = c\<lparr>cx_size := n\<rparr>" using assms(2) by (simp add: am_resize_def)
  then show ?thesis using False assms(1) cx_ok_size [of c n] by (simp add: cx_bytes_def min_def)
qed

lemma am_resize_false:
  assumes "cx_ok c" "am_resize M n (c, m) = (False, c', m')"
  shows "c' = c"
  using assms allocate_false [OF assms(1), of n m] by (auto simp: am_resize_def am_reserve_def split: prod.splits if_splits)

lemma io_clear_ok: "io_ok (fst (io_clear M (b, m))) \<and> io_view (fst (io_clear M (b, m))) = []"
  using deallocate_clear [of "io_buffer b" m] cx_ok_clear
  by (cases "mm_deallocate M (io_buffer b) m")
    (simp add: io_clear_def am_clear_def io_wf_def io_view_def io_size_def cx_clear_def)

text \<open>A reply: the buffer is cleared, a block is taken, something is written at its beginning and the size set.\<close>

lemma io_clear_fields: "io_clear M (b, m) = (io_new, snd (mm_deallocate M (io_buffer b) m))"
  using deallocate_clear [of "io_buffer b" m]
  by (cases "mm_deallocate M (io_buffer b) m") (simp add: io_clear_def am_clear_def io_new_def)

lemma provide_new:
  assumes "0 < n"
  shows "io_provideBuffer M n (io_new, m) =
    (case mm_allocate M cx_clear n m of (ok, c, m') \<Rightarrow>
       if ok then (Some 0, \<lparr>io_head = 0, io_buffer = c\<lparr>cx_size := n\<rparr>\<rparr>, m') else (None, io_new, m'))"
  using assms allocate_false [OF cx_ok_clear, of n m]
  by (auto simp: io_provideBuffer_def io_new_def am_resize_def am_reserve_def cx_clear_def split: prod.splits)

lemma write_new:
  assumes "mm_allocate M cx_clear n m = (True, c, m')" "length w \<le> n" "0 < n" "n < 2 ^ 64"
    and "f (cx_mem c) = w @ drop (length w) (cx_mem c)"
  shows "\<exists>b. io_finalizeBuffer M 0 (of_nat (length w)) (io_write f \<lparr>io_head = 0, io_buffer = c\<lparr>cx_size := n\<rparr>\<rparr>, m') = Some (b, m') \<and>
    io_ok b \<and> io_view b = w"
proof -
  have a: "cx_ok c" "n \<le> cx_capacity c" using allocate_true [OF cx_ok_clear _ assms(1)] assms(3) by (simp_all add: cx_clear_def)
  then have l: "length (cx_mem c) = cx_capacity c" using cx_ok_wf [of c] by (simp add: cx_wf_def)
  have u: "unat (of_nat (length w) :: u64) = length w" using assms(2,4) by (simp add: unat_of_nat)
  let ?c = "c\<lparr>cx_mem := f (cx_mem c), cx_size := length w\<rparr>"
  have "cx_ok ?c" using cx_ok_use [OF a(1), of "f (cx_mem c)" "length w"] a(2) assms(2,5) l by simp
  moreover have "take (length w) (f (cx_mem c)) = w" using assms(5) by simp
  ultimately show ?thesis using a(2) assms(2) u
    by (simp add: io_finalizeBuffer_def io_write_def am_resize_def io_wf_def io_view_def io_size_def)
qed

text \<open>Reading into the buffer: the bytes are appended to what is there.\<close>

lemma provide_at_least:
  assumes "io_ok b" "io_provideBufferAtLeast M n (b, m) = (Some (off, sz), b', m')"
  shows "off = cx_size (io_buffer b) \<and> io_head b' = io_head b \<and> cx_ok (io_buffer b') \<and> n \<le> sz \<and>
    off + sz = cx_capacity (io_buffer b') \<and> cx_size (io_buffer b') = off + sz \<and>
    take off (cx_mem (io_buffer b')) = cx_bytes (io_buffer b)"
proof -
  let ?c = "io_buffer b"
  have ok: "cx_ok ?c" using assms(1) by (simp add: io_wf_def)
  obtain c1 m1 where 1: "am_resize M (cx_size ?c + n) (?c, m) = (True, c1, m1)"
    using assms(2)
    by (cases "am_resize M (cx_size ?c + n) (?c, m)") (auto simp: io_provideBufferAtLeast_def Let_def split: if_splits)
  note r1 = am_resize_true [OF ok 1]
  have 2: "am_resize M (cx_capacity c1) (c1, m1) = (True, c1\<lparr>cx_size := cx_capacity c1\<rparr>, m1)" by (simp add: am_resize_def)
  have b': "b' = b\<lparr>io_buffer := c1\<lparr>cx_size := cx_capacity c1\<rparr>\<rparr>" "off = cx_size ?c" "sz = cx_capacity c1 - off"
    using assms(2) by (auto simp: io_provideBufferAtLeast_def Let_def 1 2)
  have "min (cx_size ?c + n) (cx_size ?c) = cx_size ?c" by simp
  then have "take (cx_size ?c) (cx_bytes c1) = take (cx_size ?c) (cx_bytes ?c)" using r1 by metis
  then have "take off (cx_mem c1) = cx_bytes ?c" using r1 b'(2) by (simp add: cx_bytes_def)
  then show ?thesis using r1 b' cx_ok_size [of c1 "cx_capacity c1"] by auto
qed

lemma provide_at_least_none:
  assumes "io_ok b" "io_provideBufferAtLeast M n (b, m) = (None, b', m')"
  shows "b' = b"
proof -
  let ?c = "io_buffer b"
  have ok: "cx_ok ?c" using assms(1) by (simp add: io_wf_def)
  obtain r c1 m1 where 1: "am_resize M (cx_size ?c + n) (?c, m) = (r, c1, m1)" by (metis prod_cases3)
  have 2: "am_resize M (cx_capacity c1) (c1, m1) = (True, c1\<lparr>cx_size := cx_capacity c1\<rparr>, m1)" by (simp add: am_resize_def)
  show ?thesis using assms(2) am_resize_false [OF ok, of "cx_size ?c + n" m c1 m1] 1 2
    by (cases r) (auto simp: io_provideBufferAtLeast_def Let_def)
qed

lemma read_append:
  assumes "io_ok b" "io_provideBufferAtLeast M n (b, m) = (Some (off, sz), b', m')" "length d \<le> sz"
  shows "\<exists>b''. io_finalizeBuffer M off (of_nat (length d)) (io_write (write_at off d) b', m') = Some (b'', m') \<and>
    io_ok b'' \<and> io_view b'' = io_view b @ d \<and> io_head b'' = io_head b"
proof -
  note p = provide_at_least [OF assms(1,2)]
  let ?c = "io_buffer b'"
  have l: "length (cx_mem ?c) = cx_capacity ?c" using p cx_ok_wf [of ?c] by (simp add: cx_wf_def)
  have u: "unat (of_nat off + of_nat (length d) :: u64) = off + length d"
    using assms(3) p cx_ok_64 [of ?c] by (simp add: unat_of_nat flip: of_nat_add)
  have w: "write_at off d (cx_mem ?c) = take off (cx_mem ?c) @ d @ drop (off + length d) (cx_mem ?c)"
    using p l assms(3) by (simp add: write_at_inside)
  have lo: "length (cx_bytes (io_buffer b)) = off"
    using p cx_ok_wf [of "io_buffer b"] assms(1) by (simp add: cx_bytes_def cx_wf_def io_wf_def)
  let ?d = "?c\<lparr>cx_mem := write_at off d (cx_mem ?c), cx_size := off + length d\<rparr>"
  have "cx_ok ?d" using cx_ok_use [of ?c "write_at off d (cx_mem ?c)" "off + length d"] p l assms(3)
    by (simp add: length_write_at)
  moreover have "cx_bytes ?d = cx_bytes (io_buffer b) @ d"
  proof -
    have "cx_bytes ?d = take (off + length d) ((take off (cx_mem ?c) @ d) @ drop (off + length d) (cx_mem ?c))"
      using w by (simp add: cx_bytes_def)
    also have "\<dots> = take off (cx_mem ?c) @ d" 
    proof -
      have "length (take off (cx_mem ?c) @ d) = off + length d" using p l by (auto simp: min_def)
      then show ?thesis by (metis append_eq_conv_conj)
    qed
    finally show ?thesis using p by auto
  qed
  moreover have "io_head b \<le> off" "io_head b = 0 \<or> io_head b < off + length d" using p assms(1) by (auto simp: io_wf_def)
  ultimately show ?thesis using p u assms(3) lo
    by (auto simp: io_finalizeBuffer_def io_write_def am_resize_def io_wf_def io_view_bytes)
qed

text \<open>
  A failed \<open>read\<close> gives \<open>- 1\<close>, which becomes the largest \<open>size_t\<close>: the sum wraps around and the buffer loses its
  last byte; when it is empty the \<open>assert\<close> fails.
\<close>

lemma read_failed:
  assumes "io_ok b" "io_provideBufferAtLeast M n (b, m) = (Some (off, sz), b', m')"
  shows "io_size b = 0 \<Longrightarrow> io_finalizeBuffer M off (- 1) (b', m') = None"
    "io_size b \<noteq> 0 \<Longrightarrow> \<exists>b''. io_finalizeBuffer M off (- 1) (b', m') = Some (b'', m') \<and>
       io_view b'' = butlast (io_view b) \<and> io_size b'' = io_size b - 1"
proof -
  note p = provide_at_least [OF assms]
  let ?c = "io_buffer b'"
  have cap: "cx_capacity ?c < 2 ^ 63" using p cx_ok_64 by blast
  {
    assume "io_size b = 0"
    then have "off = 0" using p assms(1) by (auto simp: io_size_def io_wf_def)
    moreover have "unat (- 1 :: u64) = 2 ^ 64 - 1" by (simp add: unsigned_minus_1_eq_mask mask_eq_exp_minus_1)
    ultimately show "io_finalizeBuffer M off (- 1) (b', m') = None" using cap by (simp add: io_finalizeBuffer_def)
  }
  assume ne: "io_size b \<noteq> 0"
  then have off: "0 < off" "io_head b < off" using p by (auto simp: io_size_def)
  have "off < 2 ^ 64" using p cap by simp
  then have w: "unat (of_nat off + - 1 :: u64) = off - 1"
    using off(1) by (cases off) (simp_all add: unat_of_nat)
  have l: "off \<le> length (cx_mem ?c)" using p cx_ok_wf [of ?c] by (simp add: cx_wf_def)
  have "off - 1 \<le> cx_capacity ?c" using p by linarith
  moreover have "drop (io_head b) (take (off - 1) (cx_mem ?c)) = butlast (io_view b)"
  proof -
    have "io_view b = drop (io_head b) (take off (cx_mem ?c))" using p by (auto simp: io_view_bytes)
    then show ?thesis using l by (simp add: butlast_take drop_butlast [symmetric])
  qed
  ultimately show "\<exists>b''. io_finalizeBuffer M off (- 1) (b', m') = Some (b'', m') \<and>
       io_view b'' = butlast (io_view b) \<and> io_size b'' = io_size b - 1"
    using w off p by (auto simp: io_finalizeBuffer_def am_resize_def io_wf_def io_view_bytes cx_bytes_def io_size_def)
qed

text \<open>Writing out of the buffer: the bytes that went out are dropped at its beginning.\<close>

lemma pop_view:
  assumes "io_ok b" "0 < n" "n \<le> length (io_view b)" "io_pop M n (b, m) = (r, b', m')"
  shows "r \<and> io_ok b' \<and> io_view b' = drop n (io_view b)"
proof -
  have l: "length (io_view b) = io_size b" using assms(1) cx_ok_wf by (intro length_io_view) (simp add: io_wf_def)
  show ?thesis
  proof (cases "io_size b = n")
    case True
    then show ?thesis using assms(2-4) l io_clear_ok [of b m] by (auto simp: io_pop_def)
  next
    case False
    then have "b' = b\<lparr>io_head := io_head b + n\<rparr>" "r" using assms l by (auto simp: io_pop_def)
    then show ?thesis using assms(1,3) l False by (auto simp: io_wf_def io_view_bytes io_size_def add.commute)
  qed
qed

end

section \<open>The two managers keep the contract\<close>

text \<open>What is documented of \<open>realloc\<close>.\<close>

definition realloc_spec :: "'h realloc_ops \<Rightarrow> bool" where
  "realloc_spec H \<longleftrightarrow> (\<forall>p mem n h q mem' h'. realloc H p mem n h = (Some (q, mem'), h') \<longrightarrow>
     length mem' = n \<and> n < 2 ^ 63 \<and> take (length mem) mem' = take n mem)"

definition simple_ops :: "'h realloc_ops \<Rightarrow> 'h mm_ops" where
  "simple_ops H = \<lparr>mm_allocate = simple_allocate H, mm_deallocate = simple_deallocate H\<rparr>"

definition simple_cx_ok :: "Context \<Rightarrow> bool" where
  "simple_cx_ok c \<longleftrightarrow> cx_wf c \<and> cx_capacity c < 2 ^ 63"

lemma simple_memory_manager:
  assumes "realloc_spec H"
  shows "memory_manager (simple_ops H) simple_cx_ok"
proof
  fix c n m c' m' assume c': "simple_cx_ok c" "cx_capacity c < n" and a: "mm_allocate (simple_ops H) c n m = (True, c', m')"
  from c' have c: "cx_wf c" "cx_capacity c < n" by (simp_all add: simple_cx_ok_def)
  from a obtain p mem where r: "realloc H (cx_data c) (cx_mem c) n m = (Some (p, mem), m')"
      "c' = c\<lparr>cx_data := Some p, cx_mem := mem, cx_capacity := n\<rparr>"
    by (auto simp: simple_ops_def simple_allocate_def split: prod.splits option.splits)
  have m: "length mem = n" "n < 2 ^ 63" "take (length (cx_mem c)) mem = take n (cx_mem c)" 
    using assms r(1) unfolding realloc_spec_def by blast+
  from m(3) have "take (cx_size c) (take (length (cx_mem c)) mem) = take (cx_size c) (cx_mem c)" using c by (simp add: cx_wf_def)
  then have "take (cx_size c) mem = take (cx_size c) (cx_mem c)" using c by (simp add: cx_wf_def)
  then show "simple_cx_ok c' \<and> n \<le> cx_capacity c' \<and> cx_size c' = cx_size c \<and> cx_bytes c' = cx_bytes c"
    using r(2) m(1,2) c by (simp add: simple_cx_ok_def cx_wf_def cx_bytes_def)
qed (auto simp: simple_cx_ok_def simple_ops_def simple_allocate_def simple_deallocate_def cx_wf_def cx_clear_def split: prod.splits option.splits)

lemma capacity2tier_SIZES: "i < length SIZES \<Longrightarrow> capacity2tier (SIZES ! i) = i"
  by (simp add: SIZES_def capacity2tier_def nth_Cons' split: if_splits)

lemma findTier_le: "findTier n \<le> i \<Longrightarrow> i < length SIZES \<Longrightarrow> n \<le> SIZES ! i"
  by (auto simp: SIZES_def findTier_def nth_Cons' split: if_splits)

definition tm_cx_ok :: "Context \<Rightarrow> bool" where
  "tm_cx_ok c \<longleftrightarrow> cx_wf c \<and> (case cx_data c of None \<Rightarrow> True | Some p \<Rightarrow> cx_capacity c \<in> set SIZES)"

lemma tm_scan_tier: "tm_scan t m = (Some (tier, p), m') \<Longrightarrow> t \<le> tier \<and> tier < length SIZES"
proof (induction t m rule: tm_scan.induct)
  case (1 t m)
  then show ?case
    by (subst (asm) (2) tm_scan.simps) (auto split: if_splits prod.splits option.splits)
qed

interpretation tm: memory_manager "tm_ops raw" tm_cx_ok for raw
proof
  fix c assume "tm_cx_ok c" then show "cx_wf c" by (simp add: tm_cx_ok_def)
next
  fix c assume "tm_cx_ok c" then show "cx_capacity c < 2 ^ 63"
    by (cases "cx_data c") (auto simp: tm_cx_ok_def cx_wf_def SIZES_def)
next
  show "tm_cx_ok cx_clear" by (simp add: tm_cx_ok_def cx_wf_def cx_clear_def)
next
  fix c n and mem :: str assume "tm_cx_ok c" "length mem = cx_capacity c" "n \<le> cx_capacity c"
  then show "tm_cx_ok (c\<lparr>cx_mem := mem, cx_size := n\<rparr>)"
    by (cases "cx_data c") (auto simp: tm_cx_ok_def cx_wf_def)
next
  fix c n m c' m' assume c: "tm_cx_ok c" and "cx_capacity c < n" and a: "mm_allocate (tm_ops raw) c n m = (True, c', m')"
  show "tm_cx_ok c' \<and> n \<le> cx_capacity c' \<and> cx_size c' = cx_size c \<and> cx_bytes c' = cx_bytes c"
  proof (cases "cx_data c \<noteq> None \<and> capacity2tier (cx_capacity c) \<ge> findTier n")
    case True
    then obtain i where "i < length SIZES" "cx_capacity c = SIZES ! i"
      using c by (auto simp: tm_cx_ok_def in_set_conv_nth)
    then have "n \<le> cx_capacity c" using True findTier_le [of n i] by (simp add: capacity2tier_SIZES)
    then show ?thesis using True a c by (simp add: tm_ops_def tm_allocate_def)
  next
    case False
    then obtain t p m1 where s: "tm_scan (findTier n) m = (Some (t, p), m1)"
      using a by (auto simp: tm_ops_def tm_allocate_def Let_def split: if_splits prod.splits option.splits)
    let ?mem = "map (\<lambda>i. raw (p + of_nat i)) [0..<SIZES ! t]"
    have t: "t < length SIZES" "n \<le> SIZES ! t" using tm_scan_tier [OF s] findTier_le by auto
    have small: "cx_size c \<le> SIZES ! t" if q: "cx_data c \<noteq> None"
    proof -
      obtain i where i: "i < length SIZES" "cx_capacity c = SIZES ! i"
        using c q by (auto simp: tm_cx_ok_def in_set_conv_nth)
      then have "i \<le> t" using False q tm_scan_tier [OF s] by (simp add: capacity2tier_SIZES)
      moreover have "sorted SIZES" by (simp add: SIZES_def)
      ultimately show ?thesis using c i t(1) sorted_nth_mono [of SIZES i t] by (simp add: tm_cx_ok_def cx_wf_def)
    qed
    have l: "length (cx_bytes c) = cx_size c" using c by (simp add: tm_cx_ok_def cx_wf_def cx_bytes_def)
    let ?mem' = "if cx_data c \<noteq> None \<and> cx_size c \<noteq> 0 then write_at 0 (cx_bytes c) ?mem else ?mem"
    have c': "c' = c\<lparr>cx_data := Some p, cx_mem := ?mem', cx_capacity := SIZES ! t\<rparr>"
      using a s False by (auto simp: tm_ops_def tm_allocate_def Let_def split: if_splits)
    have "length ?mem' = SIZES ! t" using small l by (simp add: length_write_at)
    moreover have "cx_size c \<le> SIZES ! t" using small c by (cases "cx_data c") (auto simp: tm_cx_ok_def cx_wf_def)
    moreover have "take (cx_size c) ?mem' = cx_bytes c"
    proof (cases "cx_data c \<noteq> None \<and> cx_size c \<noteq> 0")
      case True
      then show ?thesis using small l by (simp add: write_at_inside)
    next
      case False
      then have "cx_size c = 0" using c by (auto simp: tm_cx_ok_def cx_wf_def)
      then show ?thesis by (simp add: cx_bytes_def)
    qed
    ultimately show ?thesis using t unfolding c' by (simp add: tm_cx_ok_def cx_wf_def cx_bytes_def)
  qed
next
  fix c n m c' m' assume "mm_allocate (tm_ops raw) c n m = (False, c', m')"
  then show "c' = c"
    by (auto simp: tm_ops_def tm_allocate_def Let_def split: if_splits prod.splits option.splits)
next
  fix c m show "fst (mm_deallocate (tm_ops raw) c m) = cx_clear" by (simp add: tm_ops_def tm_deallocate_def)
qed

end
