(* ===== verification/Worker.thy ===== *)
theory Worker
  imports CommandSpec IOBuffer
begin

text \<open>
  The worker, \<^verbatim>\<open>net/worker/keyvalueworker.h\<close>, with the result object and the storage of the commands of
  \<^verbatim>\<open>net/worker/keyvaluecommands/base.h\<close> and the errors of \<^verbatim>\<open>net/worker/workerdefs.h\<close>.  It takes the
  request out of the buffer of a connection, runs the command on the list and leaves the reply in the
  same buffer.
\<close>

section \<open>The storage of the commands\<close>

datatype Status = OK | DISCONNECT | SHUTDOWN

text \<open>A command, or one of the commands that only set the status.\<close>

datatype 'l Entry = Command "'l command" | System Status

text \<open>The registered names, as the arrays \<open>cmd__\<close> have them.\<close>

definition commandTable :: "(int \<Rightarrow> int) \<Rightarrow> (string list \<times> 'l Entry) list" where
  "commandTable ub = [
     ([''get'', ''GET''], Command GET),
     ([''mget'', ''MGET''], Command MGET),
     ([''exists'', ''EXISTS''], Command EXISTS),
     ([''ttl'', ''TTL''], Command TTL),
     ([''expiretime'', ''EXPIRETIME''], Command EXPIRETIME),
     ([''dump'', ''DUMP''], Command DUMP),
     ([''sizeof'', ''SIZEOF'', ''size_of'', ''SIZE_OF''], Command SIZEOF),
     ([''getrange'', ''GETRANGE''], Command GETRANGE),
     ([''strlen'', ''STRLEN'', ''size'', ''SIZE''], Command STRLEN),
     ([''hget'', ''HGET''], Command HGET),
     ([''hmget'', ''HMGET''], Command HMGET),
     ([''hexists'', ''HEXISTS''], Command HEXISTS),
     ([''set'', ''SET''], Command SET),
     ([''mset'', ''MSET''], Command MSET),
     ([''msetnx'', ''MSETNX''], Command MSETNX),
     ([''msetxx'', ''MSETXX''], Command MSETXX),
     ([''setex'', ''SETEX''], Command SETEX),
     ([''hset'', ''HSET''], Command HSET),
     ([''hmset'', ''HMSET''], Command HMSET),
     ([''setnx'', ''SETNX''], Command SETNX),
     ([''setxx'', ''SETXX''], Command SETXX),
     ([''del'', ''DEL'', ''unlink'', ''UNLINK''], Command DEL),
     ([''hdel'', ''HDEL''], Command HDEL),
     ([''append'', ''APPEND''], Command APPEND),
     ([''expire'', ''EXPIRE''], Command EXPIRE),
     ([''expireat'', ''EXPIREAT''], Command EXPIREAT),
     ([''persist'', ''PERSIST''], Command PERSIST),
     ([''persistdeleted'', ''PERSISTDELETED'', ''persistexpired'', ''PERSISTEXPIRED''], Command PERSISTDELETED),
     ([''getset'', ''GETSET''], Command GETSET),
     ([''getdel'', ''GETDEL''], Command GETDEL),
     ([''getex'', ''GETEX''], Command GETEX),
     ([''getexat'', ''GETEXAT''], Command GETEXAT),
     ([''getpersist'', ''GETPERSIST''], Command GETPERSIST),
     ([''cas'', ''CAS''], Command CAS),
     ([''cad'', ''CAD''], Command CAD),
     ([''rename'', ''RENAME'', ''move'', ''MOVE''], Command (cpmv MV)),
     ([''renamenx'', ''RENAMENX'', ''movenx'', ''MOVENX''], Command (cpmv MV_NX)),
     ([''copy'', ''COPY''], Command (cpmv CP)),
     ([''copynx'', ''COPYNX''], Command (cpmv CP_NX)),
     ([''incr'', ''INCR'', ''incrby'', ''INCRBY''], Command (do_incr_decr ub 1)),
     ([''decr'', ''DECR'', ''decrby'', ''DECRBY''], Command (do_incr_decr ub (-1))),
     ([''incrlimit'', ''INCRLIMIT''], Command (do_incr_decr_limit ub 1)),
     ([''decrlimit'', ''DECRLIMIT''], Command (do_incr_decr_limit ub (-1))),
     ([''incrto'', ''INCRTO''], Command (do_incr_to (>))),
     ([''decrto'', ''DECRTO''], Command (do_incr_to (<))),
     ([''murmur'', ''MURMUR'', ''murmurhash64a'', ''MURMURHASH64A''], Command MURMUR),
     ([''dbsize'', ''DBSIZE''], Command DBSIZE),
     ([''maxkeysize'', ''MAXKEYSIZE''], Command MAXKEYSIZE),
     ([''maxvalsize'', ''MAXVALSIZE''], Command MAXVALSIZE),
     ([''ping'', ''PING''], Command PING),
     ([''echo'', ''ECHO''], Command ECHO),
     ([''rem'', ''REM'', ''//'', ''#'', '';''], Command REM),
     ([''select'', ''SELECT''], Command compat_OK),
     ([''reset'', ''RESET''], Command compat_OK),
     ([''type'', ''TYPE''], Command compat_TYPE),
     ([''touch'', ''TOUCH''], Command compat_TOUCH),
     ([''command'', ''COMMAND''], Command compat_COMMAND),
     ([''exit'', ''EXIT'', ''quit'', ''QUIT''], System DISCONNECT),
     ([''shutdown'', ''SHUTDOWN''], System SHUTDOWN)]"

text \<open>
  \<open>StorageCommands::operator()\<close>: the perfect hash finds the row with the name.  The commands of the modules
  that are not modelled are the argument \<open>others\<close>.
\<close>

definition storageCommands ::
  "(int \<Rightarrow> int) \<Rightarrow> (str \<Rightarrow> 'l Entry option) \<Rightarrow> str \<Rightarrow> 'l Entry option" where
  "storageCommands ub others key =
     (case find (\<lambda>(names, e). list_ex (\<lambda>n. ascii n = key) names) (commandTable ub) of
        Some (names, e) \<Rightarrow> Some e
      | None \<Rightarrow> others key)"

fun entry_run :: "'l Entry \<Rightarrow> 'l list_ops \<Rightarrow> u64 \<Rightarrow> str list \<Rightarrow> 'l \<Rightarrow> Status \<times> Response \<times> 'l" where
  "entry_run (Command c) L now p l = (OK, c L now p l)"
| "entry_run (System st) L now p l = (st, RespOK, l)"

section \<open>The reply\<close>

text \<open>
  The steps that \<open>Result::processSet\<close> and \<open>emitError\<close> share: \<open>clear\<close>, \<open>provideBuffer\<close>, the response and
  \<open>finalizeBuffer\<close>; \<open>False\<close> when there is no memory, \<open>None\<close> is a failed \<open>assert\<close>.
\<close>

definition io_respond :: "'m mm_ops \<Rightarrow> Response \<Rightarrow> IOBuffer \<times> 'm \<Rightarrow> (bool \<times> IOBuffer \<times> 'm) option" where
  "io_respond M r s =
     (let s = io_clear M s;
          (ptr, b, m) = io_provideBuffer M (resp_size r) s
      in case ptr of
           None \<Rightarrow> Some (False, b, m)
         | Some off \<Rightarrow>
             (let (mem, ptr, size2) = resp_write r (cx_mem (io_buffer b), off, 0)
              in map_option (Pair True) (io_finalizeBuffer M off (of_nat size2) (io_write (\<lambda>_. mem) b, m))))"

definition processSet :: "'m mm_ops \<Rightarrow> Response \<Rightarrow> IOBuffer \<times> 'm \<Rightarrow> (IOBuffer \<times> 'm) option" where
  "processSet M r s = map_option snd (io_respond M r s)"

section \<open>The worker\<close>

datatype WorkerStatus = PASS | READ | WRITE | DISCONNECT | DISCONNECT_ERROR | SHUTDOWN

record 'l Worker =
  wk_protocol :: "(nat \<times> nat) list"
  wk_db :: 'l
  wk_system_buffer :: IOBuffer

definition emitError :: "'m mm_ops \<Rightarrow> str \<Rightarrow> IOBuffer \<times> 'm \<Rightarrow> (WorkerStatus \<times> IOBuffer \<times> 'm) option" where
  "emitError M errorMessage s =
     map_option (\<lambda>(ok, s). (if ok then WRITE else DISCONNECT_ERROR, s)) (io_respond M (RespError errorMessage) s)"

definition emitInternalError :: WorkerStatus where
  "emitInternalError = DISCONNECT_ERROR"

text \<open>The system buffer and the buffer of the connection are swapped.\<close>

definition translate :: "Status \<Rightarrow> 'l Worker \<Rightarrow> IOBuffer \<Rightarrow> WorkerStatus \<times> 'l Worker \<times> IOBuffer" where
  "translate status w buffer =
     (if io_size (wk_system_buffer w) = 0 then (DISCONNECT_ERROR, w, buffer)
      else case status of
             Status.DISCONNECT \<Rightarrow> (WorkerStatus.DISCONNECT, w, buffer)
           | Status.SHUTDOWN \<Rightarrow> (WorkerStatus.SHUTDOWN, w, buffer)
           | Status.OK \<Rightarrow> (WRITE, w\<lparr>wk_system_buffer := buffer\<rparr>, wk_system_buffer w))"

definition worker_error ::
  "'m mm_ops \<Rightarrow> str \<Rightarrow> 'l Worker \<Rightarrow> IOBuffer \<times> 'm \<Rightarrow> (WorkerStatus \<times> 'l Worker \<times> IOBuffer \<times> 'm) option" where
  "worker_error M msg w s = map_option (\<lambda>(st, b, m). (st, w, b, m)) (emitError M msg s)"

definition KeyValueWorker ::
  "(int \<Rightarrow> u32) \<Rightarrow> (str \<Rightarrow> 'l Entry option) \<Rightarrow> 'l list_ops \<Rightarrow> 'm mm_ops \<Rightarrow> u64 \<Rightarrow> 'l Worker \<Rightarrow> IOBuffer \<times> 'm \<Rightarrow>
     (WorkerStatus \<times> 'l Worker \<times> IOBuffer \<times> 'm) option" where
  "KeyValueWorker ua storage L M now w s = (case s of (buffer, m) \<Rightarrow>
     if io_size buffer = 0 then Some (PASS, w, buffer, m)
     else
       let src = io_view buffer;
           (status, params) = RedisProtocol ua (wk_protocol w) src;
           w = w\<lparr>wk_protocol := params\<rparr>
       in if status = BUFFER_NOT_READ then Some (PASS, w, buffer, m)
       else if status = ERROR then Some (emitInternalError, w, buffer, m)
       else
         let p = map (view src) params
         in if p = [] then worker_error M SYS_PROTOCOL_BREAK w (buffer, m)
         else case storage (hd p) of
                None \<Rightarrow> worker_error M SYS_NOT_IMPLEMENTED w (buffer, m)
              | Some e \<Rightarrow>
                  (let (status, r, db) = entry_run e L now p (wk_db w);
                       w = w\<lparr>wk_db := db\<rparr>
                   in case processSet M r (wk_system_buffer w, m) of
                        None \<Rightarrow> None
                      | Some (sys, m) \<Rightarrow>
                          (case translate status (w\<lparr>wk_system_buffer := sys\<rparr>) buffer of
                             (st, w, buffer) \<Rightarrow> Some (st, w, buffer, m))))"

section \<open>Finding a command\<close>

lemma of_char_byte: "unat (of_char c :: byte) = of_char c"
proof -
  have "(of_char c :: byte) = of_nat (of_char c)" by (cases c) (simp add: of_char_def)
  moreover have "(of_char c :: nat) < 256" by (cases c) (simp add: of_char_def)
  ultimately show ?thesis by (simp add: unat_of_nat)
qed

lemma ascii_inject [simp]: "ascii a = ascii b \<longleftrightarrow> a = b"
proof -
  have "inj (of_char :: char \<Rightarrow> byte)"
    by (rule injI) (use of_char_byte in \<open>metis of_char_eq_iff\<close>)
  then show ?thesis by (simp add: ascii_def inj_map_eq_map)
qed

definition commandNames :: "string list list" where
  "commandNames = [
     [''get'', ''GET''],
     [''mget'', ''MGET''],
     [''exists'', ''EXISTS''],
     [''ttl'', ''TTL''],
     [''expiretime'', ''EXPIRETIME''],
     [''dump'', ''DUMP''],
     [''sizeof'', ''SIZEOF'', ''size_of'', ''SIZE_OF''],
     [''getrange'', ''GETRANGE''],
     [''strlen'', ''STRLEN'', ''size'', ''SIZE''],
     [''hget'', ''HGET''],
     [''hmget'', ''HMGET''],
     [''hexists'', ''HEXISTS''],
     [''set'', ''SET''],
     [''mset'', ''MSET''],
     [''msetnx'', ''MSETNX''],
     [''msetxx'', ''MSETXX''],
     [''setex'', ''SETEX''],
     [''hset'', ''HSET''],
     [''hmset'', ''HMSET''],
     [''setnx'', ''SETNX''],
     [''setxx'', ''SETXX''],
     [''del'', ''DEL'', ''unlink'', ''UNLINK''],
     [''hdel'', ''HDEL''],
     [''append'', ''APPEND''],
     [''expire'', ''EXPIRE''],
     [''expireat'', ''EXPIREAT''],
     [''persist'', ''PERSIST''],
     [''persistdeleted'', ''PERSISTDELETED'', ''persistexpired'', ''PERSISTEXPIRED''],
     [''getset'', ''GETSET''],
     [''getdel'', ''GETDEL''],
     [''getex'', ''GETEX''],
     [''getexat'', ''GETEXAT''],
     [''getpersist'', ''GETPERSIST''],
     [''cas'', ''CAS''],
     [''cad'', ''CAD''],
     [''rename'', ''RENAME'', ''move'', ''MOVE''],
     [''renamenx'', ''RENAMENX'', ''movenx'', ''MOVENX''],
     [''copy'', ''COPY''],
     [''copynx'', ''COPYNX''],
     [''incr'', ''INCR'', ''incrby'', ''INCRBY''],
     [''decr'', ''DECR'', ''decrby'', ''DECRBY''],
     [''incrlimit'', ''INCRLIMIT''],
     [''decrlimit'', ''DECRLIMIT''],
     [''incrto'', ''INCRTO''],
     [''decrto'', ''DECRTO''],
     [''murmur'', ''MURMUR'', ''murmurhash64a'', ''MURMURHASH64A''],
     [''dbsize'', ''DBSIZE''],
     [''maxkeysize'', ''MAXKEYSIZE''],
     [''maxvalsize'', ''MAXVALSIZE''],
     [''ping'', ''PING''],
     [''echo'', ''ECHO''],
     [''rem'', ''REM'', ''//'', ''#'', '';''],
     [''select'', ''SELECT''],
     [''reset'', ''RESET''],
     [''type'', ''TYPE''],
     [''touch'', ''TOUCH''],
     [''command'', ''COMMAND''],
     [''exit'', ''EXIT'', ''quit'', ''QUIT''],
     [''shutdown'', ''SHUTDOWN'']]"

lemma commandTable_names: "map fst (commandTable ub) = commandNames"
  by (simp add: commandTable_def commandNames_def)

lemma commandNames_distinct: "distinct (concat commandNames)"
  by code_simp

text \<open>The first row that has a name is the only one.\<close>

lemma distinct_concat_nth:
  "distinct (concat xss) \<Longrightarrow> i < length xss \<Longrightarrow> j < length xss \<Longrightarrow> x \<in> set (xss ! i) \<Longrightarrow> x \<in> set (xss ! j) \<Longrightarrow> i = j"
proof (induction xss arbitrary: i j)
  case (Cons xs xss)
  have d: "x \<notin> set xs" if "k < length xss" "x \<in> set (xss ! k)" for k
    using Cons.prems(1) UN_I [of "xss ! k" "set xss" x set] nth_mem [OF that(1)] that(2) by auto
  show ?case
  proof (cases i)
    case 0
    then show ?thesis using Cons.prems(3-5) d [of "j - 1"] by (cases j) simp_all
  next
    case (Suc i')
    then show ?thesis using Cons.prems Cons.IH [of i' "j - 1"] d [of i'] by (cases j) simp_all
  qed
qed simp

lemma storage_row:
  assumes "i < length commandNames" "n \<in> set (commandNames ! i)"
  shows "storageCommands ub others (ascii n) = Some (snd (commandTable ub ! i))"
proof -
  let ?P = "\<lambda>r. list_ex (\<lambda>n'. n' = n) (fst r)"
  define T where "T = (commandTable ub :: (string list \<times> 'a Entry) list)"
  have names: "map fst T = commandNames" unfolding T_def by (rule commandTable_names)
  then have len: "length T = length commandNames" by (metis length_map)
  have P: "?P (T ! j) \<longleftrightarrow> n \<in> set (commandNames ! j)" if "j < length T" for j
    using nth_map [OF that, of fst] by (auto simp: list_ex_iff names)
  have "\<not> ?P (T ! j)" if "j < i" for j
    using distinct_concat_nth [OF commandNames_distinct, of j i n] assms that P [of j] len by auto
  then have "find ?P T = Some (T ! i)"
    using assms P [of i] len by (auto simp: find_Some_iff intro!: exI [of _ i])
  then show ?thesis unfolding storageCommands_def T_def by (simp add: split_def)
qed

lemma storage_names:
  "storageCommands ub others (ascii ''APPEND'') = Some (snd (commandTable ub ! 23))"
  "storageCommands ub others (ascii ''CAD'') = Some (snd (commandTable ub ! 34))"
  "storageCommands ub others (ascii ''CAS'') = Some (snd (commandTable ub ! 33))"
  "storageCommands ub others (ascii ''COPY'') = Some (snd (commandTable ub ! 37))"
  "storageCommands ub others (ascii ''COPYNX'') = Some (snd (commandTable ub ! 38))"
  "storageCommands ub others (ascii ''DECR'') = Some (snd (commandTable ub ! 40))"
  "storageCommands ub others (ascii ''DECRLIMIT'') = Some (snd (commandTable ub ! 42))"
  "storageCommands ub others (ascii ''DECRTO'') = Some (snd (commandTable ub ! 44))"
  "storageCommands ub others (ascii ''DEL'') = Some (snd (commandTable ub ! 21))"
  "storageCommands ub others (ascii ''EXISTS'') = Some (snd (commandTable ub ! 2))"
  "storageCommands ub others (ascii ''EXPIRE'') = Some (snd (commandTable ub ! 24))"
  "storageCommands ub others (ascii ''EXPIREAT'') = Some (snd (commandTable ub ! 25))"
  "storageCommands ub others (ascii ''EXPIRETIME'') = Some (snd (commandTable ub ! 4))"
  "storageCommands ub others (ascii ''GET'') = Some (snd (commandTable ub ! 0))"
  "storageCommands ub others (ascii ''GETDEL'') = Some (snd (commandTable ub ! 29))"
  "storageCommands ub others (ascii ''GETEX'') = Some (snd (commandTable ub ! 30))"
  "storageCommands ub others (ascii ''GETEXAT'') = Some (snd (commandTable ub ! 31))"
  "storageCommands ub others (ascii ''GETPERSIST'') = Some (snd (commandTable ub ! 32))"
  "storageCommands ub others (ascii ''GETRANGE'') = Some (snd (commandTable ub ! 7))"
  "storageCommands ub others (ascii ''GETSET'') = Some (snd (commandTable ub ! 28))"
  "storageCommands ub others (ascii ''HDEL'') = Some (snd (commandTable ub ! 22))"
  "storageCommands ub others (ascii ''HEXISTS'') = Some (snd (commandTable ub ! 11))"
  "storageCommands ub others (ascii ''HGET'') = Some (snd (commandTable ub ! 9))"
  "storageCommands ub others (ascii ''HMGET'') = Some (snd (commandTable ub ! 10))"
  "storageCommands ub others (ascii ''HMSET'') = Some (snd (commandTable ub ! 18))"
  "storageCommands ub others (ascii ''HSET'') = Some (snd (commandTable ub ! 17))"
  "storageCommands ub others (ascii ''INCR'') = Some (snd (commandTable ub ! 39))"
  "storageCommands ub others (ascii ''INCRLIMIT'') = Some (snd (commandTable ub ! 41))"
  "storageCommands ub others (ascii ''INCRTO'') = Some (snd (commandTable ub ! 43))"
  "storageCommands ub others (ascii ''MGET'') = Some (snd (commandTable ub ! 1))"
  "storageCommands ub others (ascii ''MSET'') = Some (snd (commandTable ub ! 13))"
  "storageCommands ub others (ascii ''MSETNX'') = Some (snd (commandTable ub ! 14))"
  "storageCommands ub others (ascii ''PERSIST'') = Some (snd (commandTable ub ! 26))"
  "storageCommands ub others (ascii ''RENAME'') = Some (snd (commandTable ub ! 35))"
  "storageCommands ub others (ascii ''RENAMENX'') = Some (snd (commandTable ub ! 36))"
  "storageCommands ub others (ascii ''SET'') = Some (snd (commandTable ub ! 12))"
  "storageCommands ub others (ascii ''SETEX'') = Some (snd (commandTable ub ! 16))"
  "storageCommands ub others (ascii ''SETNX'') = Some (snd (commandTable ub ! 19))"
  "storageCommands ub others (ascii ''SETXX'') = Some (snd (commandTable ub ! 20))"
  "storageCommands ub others (ascii ''SIZEOF'') = Some (snd (commandTable ub ! 6))"
  "storageCommands ub others (ascii ''STRLEN'') = Some (snd (commandTable ub ! 8))"
  "storageCommands ub others (ascii ''TTL'') = Some (snd (commandTable ub ! 3))"
  by (rule storage_row; simp add: commandNames_def)+

lemma storage_command:
  "storageCommands ub others (hd (params rq)) = Some (Command (command_of ub rq))"
proof (cases rq)
  case (CopyMove oper k k')
  then show ?thesis by (cases oper) (simp_all add: storage_names, simp_all add: commandTable_def)
qed (simp_all add: storage_names, simp_all add: commandTable_def)

end
