(* ===== verification/WorkerSpec.thy ===== *)
theory WorkerSpec
  imports Worker
begin

text \<open>
  The worker over the wire: the bytes of a request in the buffer of a connection become the bytes of the
  reply that the meaning of the request gives, and the list changes as that meaning says.
\<close>

section \<open>Sizes\<close>

definition resp_ok :: "Response \<Rightarrow> bool" where
  "resp_ok r \<longleftrightarrow> resp_fits r \<and> resp_size r < 2 ^ 64"

lemma resp_size_pos: "0 < resp_size r"
  by (cases r) (simp_all add: OK_text_def TRUE_def ERR_text_def calc_size_str_def)

lemma calc_size_sum:
  "list_all (\<lambda>s. length s \<le> n) ss \<Longrightarrow>
     foldl (\<lambda>sum s. sum + calc_size_str s) k ss \<le> k + length ss * (n + 64)"
proof (induction ss arbitrary: k)
  case (Cons s ss)
  then have "calc_size_str s \<le> n + 64" by (simp add: calc_size_str_def to_string_buffer_t_size_def ENDLN_def)
  then show ?case using Cons.IH [of "k + calc_size_str s"] Cons.prems by simp
qed simp

lemma resp_ok_simps [simp]: "resp_ok RespOK" "resp_ok (RespBool b)" "resp_ok (RespNumberU64 n)" "resp_ok set_0" "resp_ok set_1"
  by (simp_all add: resp_ok_def set_0_def set_1_def OK_text_def TRUE_def ENDLN_def calc_size_str_def to_string_buffer_t_size_def MAX64_def)

lemma resp_ok_string [simp]: "isValValid v \<Longrightarrow> resp_ok (RespString v)" "isValValid v \<Longrightarrow> resp_ok (RespNumberSV v)"
  by (simp_all add: resp_ok_def isValValid_def isValValid_size_def MAX_VAL_SIZE_def calc_size_str_def to_string_buffer_t_size_def ENDLN_def)

lemma resp_ok_invalid [simp]: "resp_ok (RespError INVALID_PARAMETERS)"
proof -
  have "length INVALID_PARAMETERS \<le> 100" by code_simp
  then show ?thesis by (simp add: resp_ok_def ERR_text_def ENDLN_def)
qed

lemma resp_ok_strings [simp]:
  assumes "list_all isValValid vs" "length vs < MAX_PARAMS"
  shows "resp_ok (RespStrings vs)"
proof -
  have a: "list_all (\<lambda>s. length s \<le> MAX_VAL_SIZE) vs" using assms(1) by (simp add: list_all_iff isValValid_def isValValid_size_def)
  have "length vs * (MAX_VAL_SIZE + 64) \<le> 255 * (MAX_VAL_SIZE + 64)"
    using assms(2) by (intro mult_le_mono1) (simp add: MAX_PARAMS_def)
  then have "resp_size (RespStrings vs) < 2 ^ 64"
    using calc_size_sum [OF a, of 0] by (simp add: to_string_buffer_t_size_def ENDLN_def MAX_VAL_SIZE_def)
  moreover have "list_all (\<lambda>s. length s < 2 ^ 64) vs" using a by (auto simp: list_all_iff MAX_VAL_SIZE_def)
  ultimately show ?thesis using assms(2) by (simp add: resp_ok_def MAX_PARAMS_def)
qed

text \<open>The meaning of a request gives a response that fits when the values of the map are valid.\<close>

lemma spec_resp_ok:
  assumes "\<And>k. isValValid (val_of now M k)" "length (params rq) \<le> MAX_PARAMS" "request_ok key_ok now M rq"
  shows "resp_ok (fst (spec now rq M))"
proof (cases rq)
  case (MGet ks)
  then have "resp_ok (RespStrings (map (val_of now M) ks))"
    using assms by (intro resp_ok_strings) (simp_all add: list_all_iff MAX_PARAMS_def)
  then show ?thesis using MGet by simp
next
  case (HMGet k ss)
  then have "resp_ok (RespStrings (map (\<lambda>s. val_of now M (hash_key k s)) ss))"
    using assms by (intro resp_ok_strings) (simp_all add: list_all_iff MAX_PARAMS_def)
  then show ?thesis using HMGet by simp
next
  case (GetRange k a b)
  have "length (take i (drop j v)) \<le> length v" for i j and v :: str by simp
  then have "isValValid (take i (drop j v))" if "isValValid v" for i j v
    using that order_trans unfolding isValValid_def isValValid_size_def by blast
  then show ?thesis using GetRange assms(1) by simp
qed (use assms(1,3) in \<open>auto simp: Let_def int64_clamp(1) int64_text_valid split: option.split\<close>)

lemma num_fits [simp]: "LENGTH('w) \<le> 64 \<Longrightarrow> str_fits (num (n :: 'w::len word))"
proof -
  assume l: "LENGTH('w) \<le> 64"
  have "unat n < 2 ^ 64" 
    using unsigned_less [of n, where 'a = nat] power_increasing [OF l, of "2 :: nat"] by linarith
  then have "to_string (unat n) = dec (unat n)" "length (dec (unat n)) \<le> 20"
    by (simp_all add: to_string_dec) (intro length_dec, simp_all)
  then show ?thesis by (simp add: num_def str_fits_def MAX_PARAM_SIZE_def)
qed

lemma fits_simps:
  "isValValid v \<Longrightarrow> str_fits v" "isValValidNZ v \<Longrightarrow> str_fits v" "key_good key_ok k \<Longrightarrow> str_fits k"
  "hash_good key_ok k s \<Longrightarrow> str_fits k \<and> str_fits s" "int64 n \<Longrightarrow> str_fits (to_string_signed n)"
proof -
  show v: "isValValid v \<Longrightarrow> str_fits v" for v
    by (simp add: isValValid_def isValValid_size_def str_fits_def MAX_VAL_SIZE_def MAX_PARAM_SIZE_def)
  show "int64 n \<Longrightarrow> str_fits (to_string_signed n)" using v [OF int64_text_valid] .
  show "isValValidNZ v \<Longrightarrow> str_fits v" by (simp add: isValValidNZ_def str_fits_def MAX_VAL_SIZE_def MAX_PARAM_SIZE_def)
  show "key_good key_ok k \<Longrightarrow> str_fits k"
    by (simp add: key_good_def isKeyValid_def isKeyValid_size_def str_fits_def MAX_KEY_SIZE_def MAX_PARAM_SIZE_def)
  show "hash_good key_ok k s \<Longrightarrow> str_fits k \<and> str_fits s"
    by (simp add: hash_good_def isCompositeKeyValid_def concatenateBufferSize_def isKeyValid_size_def str_fits_def
        MAX_KEY_SIZE_def MAX_PARAM_SIZE_def)
qed

lemma opt_fits: "(\<And>x. e = Some x \<Longrightarrow> str_fits (f x)) \<Longrightarrow> list_all str_fits (opt f e)"
  by (cases e) (simp_all add: opt_def)

lemma flat_fits: "list_all (\<lambda>(a, b). str_fits a \<and> str_fits b) kvs \<Longrightarrow> list_all str_fits (flat kvs)"
  by (induction kvs) auto

lemma name_fits: "length n \<le> 100 \<Longrightarrow> str_fits (ascii n)"
  by (simp add: str_fits_def ascii_def MAX_PARAM_SIZE_def)

lemma keys_fit:
  "list_all (key_good key_ok) ks \<Longrightarrow> list_all str_fits ks"
  "list_all (hash_good key_ok k) ss \<Longrightarrow> ss \<noteq> [] \<Longrightarrow> str_fits k \<and> list_all str_fits ss"
  "list_all (\<lambda>(k, v). key_good key_ok k \<and> isValValid v) kvs \<Longrightarrow> list_all str_fits (flat kvs)"
  "list_all (\<lambda>(s, v). hash_good key_ok k s \<and> isValValid v) kvs \<Longrightarrow> kvs \<noteq> [] \<Longrightarrow> str_fits k \<and> list_all str_fits (flat kvs)"
proof -
  show "list_all (key_good key_ok) ks \<Longrightarrow> list_all str_fits ks" using fits_simps(3) by (auto simp: list_all_iff)
  show "list_all (hash_good key_ok k) ss \<Longrightarrow> ss \<noteq> [] \<Longrightarrow> str_fits k \<and> list_all str_fits ss"
    using fits_simps(4) [of key_ok k] by (cases ss) (auto simp: list_all_iff)
  show "list_all (\<lambda>(k, v). key_good key_ok k \<and> isValValid v) kvs \<Longrightarrow> list_all str_fits (flat kvs)"
    by (rule flat_fits) (auto simp: list_all_iff dest!: bspec intro: fits_simps)
  assume a: "list_all (\<lambda>(s, v). hash_good key_ok k s \<and> isValValid v) kvs" "kvs \<noteq> []"
  then have "list_all str_fits (flat kvs)" using fits_simps(1,4) by (intro flat_fits) (fastforce simp: list_all_iff)
  moreover have "str_fits k" using a fits_simps(4) [of key_ok k] by (cases kvs) auto
  ultimately show "str_fits k \<and> list_all str_fits (flat kvs)" by blast
qed

lemma request_fits:
  assumes "request_ok key_ok now M rq"
  shows "list_all str_fits (params rq)"
proof (cases rq)
  case (Append k v)
  then show ?thesis using assms fits_simps(1) [of v] fits_simps(3) [of key_ok k]
    by (simp add: name_fits isValValid_def isValValid_size_def)
next
  case (CopyMove oper k k')
  then show ?thesis using assms fits_simps(3) by (cases oper) (auto simp: name_fits)
qed (use assms in \<open>auto simp: name_fits intro!: opt_fits dest: fits_simps keys_fit\<close>)

section \<open>The reply\<close>

context memory_manager
begin

lemma respond_true:
  assumes "resp_ok r" "mm_allocate M cx_clear (resp_size r) (snd (mm_deallocate M (io_buffer b) m)) = (True, c, m')"
  shows "\<exists>b'. io_respond M r (b, m) = Some (True, b', m') \<and> io_ok b' \<and> io_view b' = wire r"
proof -
  have f: "resp_fits r" "resp_size r < 2 ^ 64" using assms(1) by (simp_all add: resp_ok_def)
  have a: "cx_ok c" "resp_size r \<le> cx_capacity c"
    using allocate_true [OF cx_ok_clear _ assms(2)] resp_size_pos [of r] by (simp_all add: cx_clear_def)
  have l: "length (wire r) \<le> length (cx_mem c)"
    using resp_size_enough [OF f(1)] a(2) cx_ok_wf [OF a(1)] by (simp add: cx_wf_def)
  have w: "resp_write r (cx_mem c, 0, 0) = (wire r @ drop (length (wire r)) (cx_mem c), length (wire r), length (wire r))"
    using resp_write_wrote [OF f(1), of "(cx_mem c, 0, 0)"] l by (simp add: wrote_def)
  show ?thesis
    using write_new [OF assms(2) resp_size_enough [OF f(1)] resp_size_pos f(2), of "\<lambda>_. wire r @ drop (length (wire r)) (cx_mem c)"]
    by (auto simp: io_respond_def io_clear_fields provide_new [OF resp_size_pos] assms(2) w)
qed

lemma respond_false:
  assumes "mm_allocate M cx_clear (resp_size r) (snd (mm_deallocate M (io_buffer b) m)) = (False, c, m')"
  shows "io_respond M r (b, m) = Some (False, io_new, m')"
  by (simp add: io_respond_def io_clear_fields provide_new [OF resp_size_pos] assms)

end

section \<open>The worker\<close>

definition worker_wf :: "('l \<Rightarrow> bool) \<Rightarrow> (Context \<Rightarrow> bool) \<Rightarrow> 'l Worker \<Rightarrow> bool" where
  "worker_wf good cx_ok w \<longleftrightarrow> good (wk_db w) \<and> io_wf cx_ok (wk_system_buffer w)"

text \<open>There is memory for the reply.\<close>

definition reply_room :: "'m mm_ops \<Rightarrow> Response \<Rightarrow> 'l Worker \<Rightarrow> 'm \<Rightarrow> bool" where
  "reply_room M r w m \<longleftrightarrow>
     fst (mm_allocate M cx_clear (resp_size r) (snd (mm_deallocate M (io_buffer (wk_system_buffer w)) m)))"

locale kv_server = kv_list L inv key_ok room + memory_manager M cx_ok
  for L :: "'l list_ops" and inv :: "'l \<Rightarrow> bool" and key_ok :: "str \<Rightarrow> bool" and room :: "nat \<Rightarrow> 'l \<Rightarrow> bool"
    and M :: "'m mm_ops" and cx_ok :: "Context \<Rightarrow> bool"
begin

abbreviation worker_ok :: "'l Worker \<Rightarrow> bool" where
  "worker_ok \<equiv> worker_wf inv cx_ok"

abbreviation has_room :: "Response \<Rightarrow> 'l Worker \<Rightarrow> 'm \<Rightarrow> bool" where
  "has_room \<equiv> reply_room M"

lemma val_valid_kv: "inv l \<Longrightarrow> isValValid (val_of now (kv l) k)"
  using kv_wf [of l k] val_valid
  by (auto simp: val_of_def live_def kv_map_def dest!: pair_reg_Some split: option.splits)

theorem worker_answers:
  assumes "worker_ok w" "io_ok buffer" "request_ok key_ok now (kv (wk_db w)) rq" "length (params rq) \<le> MAX_PARAMS"
    and "io_view buffer = wire_strings (params rq) @ rest" "spec now rq (kv (wk_db w)) = (r, ws)"
  obtains st w' b' m' where "KeyValueWorker ua (storageCommands ub others) L M now w (buffer, m) = Some (st, w', b', m')"
    "worker_ok w'" "io_ok b'" "writes ws (wk_db w) (wk_db w')"
    "st = (if has_room r w m then WRITE else DISCONNECT_ERROR)" "has_room r w m \<Longrightarrow> io_view b' = wire r"
proof -
  let ?src = "wire_strings (params rq) @ rest"
  have w: "inv (wk_db w)" "io_ok (wk_system_buffer w)" using assms(1) by (simp_all add: worker_wf_def)
  have ne: "params rq \<noteq> []" by (cases rq) simp_all
  obtain ps where p: "RedisProtocol ua (wk_protocol w) ?src = (ProtocolStatus.OK, ps)" "map (view ?src) ps = params rq"
    using parse_wire [OF request_fits [OF assms(3)] ne assms(4)] by blast
  obtain l' where c: "command_of ub rq L now (params rq) (wk_db w) = (r, l')" "writes ws (wk_db w) l'"
    using command_implements [OF w(1) assms(3), of ub] assms(6)
    by (cases "command_of ub rq L now (params rq) (wk_db w)") auto
  have l': "inv l'" using c(2) by (simp add: kv_wrote_def)
  have rok: "resp_ok r" using spec_resp_ok [OF val_valid_kv [OF w(1)] assms(4,3)] assms(6) by simp
  have nz: "io_size buffer \<noteq> 0"
    using length_io_view [of buffer] assms(2,5) cx_ok_wf by (auto simp: io_wf_def wire_strings_def)
  obtain ok cx m' where a: "mm_allocate M cx_clear (resp_size r) (snd (mm_deallocate M (io_buffer (wk_system_buffer w)) m)) = (ok, cx, m')"
    by (metis prod_cases3)
  define w1 where "w1 = w\<lparr>wk_protocol := ps, wk_db := l'\<rparr>"
  have step: "KeyValueWorker ua (storageCommands ub others) L M now w (buffer, m) =
      (case processSet M r (wk_system_buffer w, m) of
         None \<Rightarrow> None
       | Some (sys, m) \<Rightarrow>
           (case translate Status.OK (w1\<lparr>wk_system_buffer := sys\<rparr>) buffer of (st, w, buffer) \<Rightarrow> Some (st, w, buffer, m)))"
  proof -
    have "ps \<noteq> []" using p(2) ne by auto
    then show ?thesis using nz p c(1) storage_command [of ub others rq]
      unfolding w1_def by (simp add: KeyValueWorker_def assms(5) Let_def)
  qed
  show thesis
  proof (cases ok)
    case True
    then obtain b where b: "io_respond M r (wk_system_buffer w, m) = Some (True, b, m')" "io_ok b" "io_view b = wire r"
      using respond_true [OF rok, of "wk_system_buffer w" m cx m'] a by auto
    have "wire r \<noteq> []" by (cases r) (simp_all add: OK_text_def ERR_text_def TRUE_def FALSE_def ENDLN_def wire_string_def wire_strings_def)
    then have "io_size b \<noteq> 0" using length_io_view [of b] b(2,3) cx_ok_wf by (metis io_wf_def length_0_conv)
    then have "KeyValueWorker ua (storageCommands ub others) L M now w (buffer, m) =
        Some (WRITE, w1\<lparr>wk_system_buffer := buffer\<rparr>, b, m')"
      by (simp add: step processSet_def b(1) translate_def)
    then show thesis using that b True l' assms(2) c(2) a by (simp add: w1_def worker_wf_def reply_room_def)
  next
    case False
    then have "KeyValueWorker ua (storageCommands ub others) L M now w (buffer, m) =
        Some (DISCONNECT_ERROR, w1\<lparr>wk_system_buffer := io_new\<rparr>, buffer, m')"
      using respond_false [of r "wk_system_buffer w" m cx m'] a
      by (simp add: step processSet_def translate_def io_size_def io_new_def cx_clear_def)
    then show thesis using that False l' assms(2) c(2) a by (simp add: w1_def worker_wf_def reply_room_def)
  qed
qed

text \<open>While a request is incomplete nothing happens.\<close>

theorem worker_waits:
  assumes "io_ok buffer" "request_ok key_ok now0 M0 rq" "length (params rq) \<le> MAX_PARAMS"
    and "io_view buffer @ x = wire_strings (params rq)" "x \<noteq> []"
  shows "\<exists>ps. KeyValueWorker ua storage L' M now w (buffer, m) = Some (PASS, w\<lparr>wk_protocol := ps\<rparr>, buffer, m)"
proof -
  have ne: "params rq \<noteq> []" by (cases rq) simp_all
  have "fst (RedisProtocol ua (wk_protocol w) (io_view buffer)) = BUFFER_NOT_READ"
    by (rule parse_cut [OF request_fits [OF assms(2)] ne assms(3-5)])
  then show ?thesis
    by (cases "RedisProtocol ua (wk_protocol w) (io_view buffer)")
      (auto simp: KeyValueWorker_def intro: exI [of _ "wk_protocol w"])
qed

end

end
