(* ===== verification/SparseArray.thy ===== *)
theory SparseArray
  imports Prelude
begin

text \<open>
  \<^verbatim>\<open>include/sparsearray/sparsearray.h\<close> with the pairs of \<^verbatim>\<open>easymap.h\<close>: the sparse vector has for every key of
  the domain the index of its item in the dense vector, or the largest number.  The clients of the
  network loop and the descriptors of the poll selector are kept in it.
\<close>

section \<open>The array\<close>

record ('k, 'v) SparseArray =
  sa_sparse :: "'k list"
  sa_dense :: "('k \<times> 'v) list"
  sa_capacity :: 'k

type_synonym ('w, 'v) sarray = "('w word, 'v) SparseArray"

definition sa_MAX_SIZE :: "'w::len word" where "sa_MAX_SIZE = - 1"

definition sa_new :: "'w::len word \<Rightarrow> 'w word \<Rightarrow> ('w, 'v) sarray" where
  "sa_new sz capacity =
     \<lparr>sa_sparse = replicate (unat sz) sa_MAX_SIZE, sa_dense = [], sa_capacity = (if capacity \<noteq> 0 then capacity else sz)\<rparr>"

definition sa_domain :: "('w::len, 'v) sarray \<Rightarrow> 'w word" where
  "sa_domain a = of_nat (length (sa_sparse a))"

definition sa_size :: "('w::len, 'v) sarray \<Rightarrow> 'w word" where
  "sa_size a = of_nat (length (sa_dense a))"

definition sa_exists :: "('w::len, 'v) sarray \<Rightarrow> 'w word \<Rightarrow> bool" where
  "sa_exists a key =
     (if key \<ge> sa_domain a then False
      else let index = sa_sparse a ! unat key in index < sa_size a)"

definition sa_find :: "('w::len, 'v) sarray \<Rightarrow> 'w word \<Rightarrow> 'v option" where
  "sa_find a key =
     (if \<not> sa_exists a key then None
      else let index = sa_sparse a ! unat key in Some (snd (sa_dense a ! unat index)))"

text \<open>Assignment through the pointer that \<open>find\<close> gives.\<close>

definition sa_assign :: "'w::len word \<Rightarrow> 'v \<Rightarrow> ('w, 'v) sarray \<Rightarrow> ('w, 'v) sarray" where
  "sa_assign key v a =
     (if \<not> sa_exists a key then a
      else let index = unat (sa_sparse a ! unat key)
           in a\<lparr>sa_dense := (sa_dense a)[index := (fst (sa_dense a ! index), v)]\<rparr>)"

text \<open>\<open>insertT_\<close> and \<open>insertF_\<close> do the same.\<close>

definition sa_insert :: "'w::len word \<Rightarrow> 'v \<Rightarrow> ('w, 'v) sarray \<Rightarrow> bool \<times> ('w, 'v) sarray" where
  "sa_insert key v a =
     (if sa_size a \<ge> sa_capacity a then (False, a)
      else if key \<ge> sa_domain a then (False, a)
      else let index = sa_sparse a ! unat key in
      if index < sa_size a
      then (True, a\<lparr>sa_dense := (sa_dense a)[unat index := (key, v)]\<rparr>)
      else (True, a\<lparr>sa_sparse := (sa_sparse a)[unat key := sa_size a], sa_dense := sa_dense a @ [(key, v)]\<rparr>))"

definition sa_remove :: "'w::len word \<Rightarrow> ('w, 'v) sarray \<Rightarrow> bool \<times> ('w, 'v) sarray" where
  "sa_remove key a =
     (if \<not> sa_exists a key then (False, a)
      else
        let index = sa_sparse a ! unat key;
            a = (if index \<noteq> sa_size a - 1
                 then let keyLast = fst (last (sa_dense a))
                      in a\<lparr>sa_dense := (sa_dense a)[unat index := last (sa_dense a)],
                           sa_sparse := (sa_sparse a)[unat keyLast := index]\<rparr>
                 else a)
        in (True, a\<lparr>sa_sparse := (sa_sparse a)[unat key := sa_MAX_SIZE], sa_dense := butlast (sa_dense a)\<rparr>))"

section \<open>The invariant\<close>

definition sa_inv :: "('w::len, 'v) sarray \<Rightarrow> bool" where
  "sa_inv a \<longleftrightarrow>
     length (sa_sparse a) < 2 ^ LENGTH('w) \<and> length (sa_dense a) \<le> unat (sa_capacity a) \<and>
     (\<forall>i < length (sa_dense a). unat (fst (sa_dense a ! i)) < length (sa_sparse a) \<and>
        unat (sa_sparse a ! unat (fst (sa_dense a ! i))) = i) \<and>
     (\<forall>k < length (sa_sparse a). sa_sparse a ! k = sa_MAX_SIZE \<or>
        unat (sa_sparse a ! k) < length (sa_dense a) \<and> unat (fst (sa_dense a ! unat (sa_sparse a ! k))) = k)"

definition sa_map :: "('w::len, 'v) sarray \<Rightarrow> 'w word \<Rightarrow> 'v option" where
  "sa_map a = map_of (sa_dense a)"

lemma sa_inv_new: "sa_inv (sa_new sz capacity)"
  by (simp add: sa_inv_def sa_new_def)

lemma sa_bounds:
  fixes a :: "('w::len, 'v) sarray"
  assumes "sa_inv a"
  shows "length (sa_sparse a) < 2 ^ LENGTH('w)" "length (sa_dense a) < 2 ^ LENGTH('w)"
proof -
  show "length (sa_sparse a) < 2 ^ LENGTH('w)" using assms by (simp add: sa_inv_def)
  have "length (sa_dense a) \<le> unat (sa_capacity a)" using assms by (simp add: sa_inv_def)
  then show "length (sa_dense a) < 2 ^ LENGTH('w)" using unsigned_less [of "sa_capacity a", where 'a = nat] by linarith
qed

lemma sa_unat:
  assumes "sa_inv a"
  shows "unat (sa_domain a) = length (sa_sparse a)" "unat (sa_size a) = length (sa_dense a)"
  using sa_bounds [OF assms] by (simp_all add: sa_domain_def sa_size_def unat_of_nat)

lemma sa_entry:
  assumes "sa_inv a" "i < length (sa_dense a)"
  shows "unat (fst (sa_dense a ! i)) < length (sa_sparse a)" "unat (sa_sparse a ! unat (fst (sa_dense a ! i))) = i"
  using assms by (simp_all add: sa_inv_def)

lemma sa_exists_iff:
  assumes "sa_inv a"
  shows "sa_exists a k \<longleftrightarrow> unat k < length (sa_sparse a) \<and> unat (sa_sparse a ! unat k) < length (sa_dense a)"
  using sa_unat [OF assms] by (auto simp: sa_exists_def word_le_nat_alt word_less_nat_alt)

lemma sa_MAX_not:
  fixes a :: "('w::len, 'v) sarray"
  shows "sa_inv a \<Longrightarrow> \<not> unat (sa_MAX_SIZE :: 'w word) < length (sa_dense a)"
  using sa_bounds(2) [of a] by (simp add: sa_MAX_SIZE_def unsigned_minus_1_eq_mask mask_eq_exp_minus_1)

lemma sa_index:
  assumes "sa_inv a" "sa_exists a k"
  shows "unat (sa_sparse a ! unat k) < length (sa_dense a)" "fst (sa_dense a ! unat (sa_sparse a ! unat k)) = k"
proof -
  have e: "unat k < length (sa_sparse a)" "unat (sa_sparse a ! unat k) < length (sa_dense a)"
    using assms by (simp_all add: sa_exists_iff)
  then have "unat (fst (sa_dense a ! unat (sa_sparse a ! unat k))) = unat k"
    using assms(1) sa_MAX_not [OF assms(1)] by (auto simp: sa_inv_def)
  then show "unat (sa_sparse a ! unat k) < length (sa_dense a)" "fst (sa_dense a ! unat (sa_sparse a ! unat k)) = k"
    using e by (simp_all add: word_unat_eq_iff)
qed

lemma sa_distinct:
  assumes "sa_inv a"
  shows "distinct (map fst (sa_dense a))"
  unfolding distinct_conv_nth using sa_entry(2) [OF assms] by (metis length_map nth_map)

lemma sa_key_exists: "sa_inv a \<Longrightarrow> i < length (sa_dense a) \<Longrightarrow> sa_exists a (fst (sa_dense a ! i))"
  using sa_entry [of a i] by (simp add: sa_exists_iff)

lemma sa_find_map:
  assumes "sa_inv a"
  shows "sa_find a k = sa_map a k"
proof (cases "sa_exists a k")
  case True
  note i = sa_index [OF assms True]
  then have "(k, snd (sa_dense a ! unat (sa_sparse a ! unat k))) \<in> set (sa_dense a)" by (metis nth_mem prod.collapse)
  then show ?thesis using True sa_distinct [OF assms] by (simp add: sa_find_def sa_map_def)
next
  case False
  then have "k \<notin> fst ` set (sa_dense a)" using sa_key_exists [OF assms] by (auto simp: in_set_conv_nth) (metis fst_conv)
  then have "map_of (sa_dense a) k = None" by (simp add: map_of_eq_None_iff)
  then show ?thesis using False by (simp add: sa_find_def sa_map_def)
qed

lemma sa_exists_dom: "sa_inv a \<Longrightarrow> sa_exists a k \<longleftrightarrow> sa_map a k \<noteq> None"
  using sa_find_map [of a k] by (cases "sa_exists a k") (auto simp: sa_find_def Let_def dest: sym)

text \<open>The size is the number of keys.\<close>

lemma sa_size_card: "sa_inv a \<Longrightarrow> unat (sa_size a) = card (dom (sa_map a))"
  using sa_unat(2) [of a] distinct_card [OF sa_distinct, of a] by (simp add: sa_map_def dom_map_of_conv_image_fst)

section \<open>The operations\<close>

lemma map_of_update_nth:
  "i < length xs \<Longrightarrow> distinct (map fst xs) \<Longrightarrow> fst (xs ! i) = k \<Longrightarrow> map_of (xs[i := (k, v)]) = (map_of xs)(k \<mapsto> v)"
proof (induction xs arbitrary: i)
  case (Cons x xs)
  show ?case
  proof (cases i)
    case (Suc j)
    then have "k \<in> fst ` set xs" using Cons.prems by (metis image_eqI length_Cons nth_Cons_Suc nth_mem Suc_less_eq)
    then have "fst x \<noteq> k" using Cons.prems(2) by auto
    then show ?thesis using Suc Cons by (cases x) (auto simp: fun_eq_iff)
  qed (use Cons.prems in \<open>auto simp: fun_eq_iff\<close>)
qed simp

lemma sa_inv_values:
  "sa_inv a \<Longrightarrow> i < length (sa_dense a) \<Longrightarrow> sa_inv (a\<lparr>sa_dense := (sa_dense a)[i := (fst (sa_dense a ! i), v)]\<rparr>)"
  by (auto simp: sa_inv_def nth_list_update)

lemma sa_assign_spec:
  assumes "sa_inv a"
  shows "sa_inv (sa_assign k v a)" "sa_map (sa_assign k v a) = (if sa_map a k = None then sa_map a else (sa_map a)(k \<mapsto> v))"
proof -
  have "sa_inv (sa_assign k v a) \<and> sa_map (sa_assign k v a) = (if sa_map a k = None then sa_map a else (sa_map a)(k \<mapsto> v))"
  proof (cases "sa_exists a k")
    case True
    note i = sa_index [OF assms True]
    have "map_of ((sa_dense a)[unat (sa_sparse a ! unat k) := (k, v)]) = (map_of (sa_dense a))(k \<mapsto> v)"
      using map_of_update_nth [OF i(1) sa_distinct [OF assms] i(2)] .
    then show ?thesis using True sa_inv_values [OF assms i(1)] i sa_exists_dom [OF assms, of k]
      by (auto simp: sa_assign_def sa_map_def Let_def)
  next
    case False
    then show ?thesis using assms sa_exists_dom [OF assms, of k] by (simp add: sa_assign_def)
  qed
  then show "sa_inv (sa_assign k v a)" "sa_map (sa_assign k v a) = (if sa_map a k = None then sa_map a else (sa_map a)(k \<mapsto> v))"
    by blast+
qed

text \<open>A full array refuses every insertion, also of a key that it has.\<close>

definition sa_accepts :: "'w::len word \<Rightarrow> ('w, 'v) sarray \<Rightarrow> bool" where
  "sa_accepts k a \<longleftrightarrow> length (sa_dense a) < unat (sa_capacity a) \<and> unat k < length (sa_sparse a)"

lemma sa_insert_spec:
  assumes "sa_inv a" "sa_insert k v a = (r, a')"
  shows "sa_inv a' \<and> r = sa_accepts k a \<and> sa_map a' = (if r then (sa_map a)(k \<mapsto> v) else sa_map a)"
proof (cases "sa_accepts k a")
  case False
  then show ?thesis using assms sa_unat [OF assms(1)]
    by (auto simp: sa_insert_def sa_accepts_def word_le_nat_alt not_less Let_def split: if_splits)
next
  case True
  then have t: "length (sa_dense a) < unat (sa_capacity a)" "unat k < length (sa_sparse a)" by (simp_all add: sa_accepts_def)
  have g: "\<not> sa_size a \<ge> sa_capacity a" "\<not> k \<ge> sa_domain a" using t sa_unat [OF assms(1)] by (simp_all add: word_le_nat_alt)
  show ?thesis
  proof (cases "sa_exists a k")
    case e: True
    note i = sa_index [OF assms(1) e]
    have "a' = a\<lparr>sa_dense := (sa_dense a)[unat (sa_sparse a ! unat k) := (k, v)]\<rparr>" "r"
      using assms(2) g e by (auto simp: sa_insert_def sa_exists_def Let_def)
    moreover have "map_of ((sa_dense a)[unat (sa_sparse a ! unat k) := (k, v)]) = (map_of (sa_dense a))(k \<mapsto> v)"
      using map_of_update_nth [OF i(1) sa_distinct [OF assms(1)] i(2)] .
    ultimately show ?thesis using sa_inv_values [OF assms(1) i(1), of v] i(2) True by (simp add: sa_map_def)
  next
    case e: False
    let ?n = "length (sa_dense a)"
    have a': "a' = a\<lparr>sa_sparse := (sa_sparse a)[unat k := sa_size a], sa_dense := sa_dense a @ [(k, v)]\<rparr>" "r"
      using assms(2) g e by (auto simp: sa_insert_def sa_exists_def Let_def)
    have other: "unat (fst (sa_dense a ! i)) \<noteq> unat k" if "i < ?n" for i
      using sa_key_exists [OF assms(1) that] e by (metis word_unat_eq_iff)
    have "sa_inv a'"
      using assms(1) t other sa_unat(2) [OF assms(1)] unfolding a'
      by (auto simp: sa_inv_def nth_append nth_list_update less_Suc_eq) (use other in metis)
    moreover have "sa_map a' = (sa_map a)(k \<mapsto> v)"
    proof -
      have "map_of (sa_dense a) k = None" using e sa_exists_dom [OF assms(1), of k] by (simp add: sa_map_def)
      then show ?thesis by (auto simp: a' sa_map_def fun_eq_iff map_add_def split: option.split)
    qed
    ultimately show ?thesis using True a'(2) by simp
  qed
qed

lemma map_of_butlast:
  assumes "xs \<noteq> []" "distinct (map fst xs)"
  shows "map_of (butlast xs) = (map_of xs)(fst (last xs) := None)"
proof -
  obtain ys y where xs: "xs = ys @ [y]" using assms(1) by (metis rev_exhaust)
  then have "map_of ys (fst y) = None" using assms(2) by (simp add: map_of_eq_None_iff)
  then show ?thesis unfolding xs by (cases y) (auto simp: fun_eq_iff map_add_def split: option.split)
qed

text \<open>Removal moves the last item into the place of the removed one.\<close>

definition sa_drop_last :: "'w::len word \<Rightarrow> ('w, 'v) sarray \<Rightarrow> ('w, 'v) sarray" where
  "sa_drop_last k a = a\<lparr>sa_sparse := (sa_sparse a)[unat k := sa_MAX_SIZE], sa_dense := butlast (sa_dense a)\<rparr>"

lemma sa_drop_last_fields [simp]:
  "sa_sparse (sa_drop_last k a) = (sa_sparse a)[unat k := sa_MAX_SIZE]" "sa_dense (sa_drop_last k a) = butlast (sa_dense a)"
  "sa_capacity (sa_drop_last k a) = sa_capacity a"
  by (simp_all add: sa_drop_last_def)

lemma sa_remove_last:
  fixes a :: "('w::len, 'v) sarray"
  assumes "sa_inv a" "sa_dense a \<noteq> []" "fst (last (sa_dense a)) = k"
  shows "sa_inv (sa_drop_last k a)" "sa_map (sa_drop_last k a) = (sa_map a)(k := None)"
proof -
  let ?a = "sa_drop_last k a"
  let ?n = "length (sa_dense a)"
  have n: "?n - 1 < ?n" "sa_dense a ! (?n - 1) = last (sa_dense a)" using assms(2) by (simp_all add: last_conv_nth)
  have k: "unat k < length (sa_sparse a)" "unat (sa_sparse a ! unat k) = ?n - 1"
    using sa_entry [OF assms(1) n(1)] n(2) assms(3) by simp_all
  have other: "unat (fst (sa_dense a ! i)) \<noteq> unat k" if "i < ?n - 1" for i
    using sa_entry(2) [OF assms(1) less_trans [OF that n(1)]] that k(2) by auto
  have idx: "unat (sa_sparse a ! j) \<noteq> ?n - 1" if "j < length (sa_sparse a)" "j \<noteq> unat k" "sa_sparse a ! j \<noteq> sa_MAX_SIZE" for j
    using assms(1,3) that n(2) by (auto simp: sa_inv_def)
  show "sa_map ?a = (sa_map a)(k := None)"
    using map_of_butlast [OF assms(2) sa_distinct [OF assms(1)]] assms(3) by (simp add: sa_map_def)
  show "sa_inv ?a"
    unfolding sa_inv_def
  proof (intro conjI allI impI)
    show "length (sa_sparse ?a) < 2 ^ LENGTH('w)" "length (sa_dense ?a) \<le> unat (sa_capacity ?a)"
      using assms(1) by (auto simp: sa_inv_def)
    fix i assume i: "i < length (sa_dense ?a)"
    then have i': "i < ?n" "i < ?n - 1" by simp_all
    show "unat (fst (sa_dense ?a ! i)) < length (sa_sparse ?a)"
      "unat (sa_sparse ?a ! unat (fst (sa_dense ?a ! i))) = i"
      using i sa_entry [OF assms(1) i'(1)] other [OF i'(2)] by (simp_all add: nth_butlast)
  next
    fix j assume j: "j < length (sa_sparse ?a)"
    show "sa_sparse ?a ! j = sa_MAX_SIZE \<or> unat (sa_sparse ?a ! j) < length (sa_dense ?a) \<and>
      unat (fst (sa_dense ?a ! unat (sa_sparse ?a ! j))) = j"
    proof (cases "j = unat k \<or> sa_sparse a ! j = sa_MAX_SIZE")
      case True
      then show ?thesis using j k(1) by (auto simp: nth_list_update)
    next
      case False
      then have "unat (sa_sparse a ! j) < ?n" "unat (fst (sa_dense a ! unat (sa_sparse a ! j))) = j"
        using assms(1) j by (auto simp: sa_inv_def)
      then show ?thesis using False idx [of j] j by (auto simp: nth_butlast)
    qed
  qed
qed

text \<open>The exchange of two items, with the sparse vector brought up to date, keeps the invariant and the map.\<close>

lemma sa_swap:
  assumes "sa_inv a" "i < length (sa_dense a)" "j < length (sa_dense a)" "i \<noteq> j"
    and "fst (sa_dense a ! i) = k" "fst (sa_dense a ! j) = k'" "unat wi = i" "unat wj = j"
    and a': "a' = a\<lparr>sa_dense := (sa_dense a)[i := sa_dense a ! j, j := sa_dense a ! i],
               sa_sparse := (sa_sparse a)[unat k' := wi, unat k := wj]\<rparr>"
  shows "sa_inv a'" "sa_map a' = sa_map a"
proof -
  have k: "unat k < length (sa_sparse a)" "unat (sa_sparse a ! unat k) = i"
    "unat k' < length (sa_sparse a)" "unat (sa_sparse a ! unat k') = j"
    using sa_entry [OF assms(1,2)] sa_entry [OF assms(1,3)] assms(5,6) by auto
  have ne: "unat k \<noteq> unat k'" using k assms(4) by auto
  have other: "unat (fst (sa_dense a ! x)) \<noteq> unat k \<and> unat (fst (sa_dense a ! x)) \<noteq> unat k'"
    if "x < length (sa_dense a)" "x \<noteq> i" "x \<noteq> j" for x
    using sa_entry(2) [OF assms(1) that(1)] that k by auto
  have idx: "unat (sa_sparse a ! x) \<noteq> i \<and> unat (sa_sparse a ! x) \<noteq> j \<and> unat (sa_sparse a ! x) < length (sa_dense a) \<and>
      unat (fst (sa_dense a ! unat (sa_sparse a ! x))) = x"
    if "x < length (sa_sparse a)" "x \<noteq> unat k" "x \<noteq> unat k'" "sa_sparse a ! x \<noteq> sa_MAX_SIZE" for x
    using assms(1,5,6) that by (auto simp: sa_inv_def)
  show inv: "sa_inv a'"
    unfolding sa_inv_def
  proof (intro conjI allI impI)
    show "length (sa_sparse a') < 2 ^ LENGTH('a)" "length (sa_dense a') \<le> unat (sa_capacity a')"
      using assms(1) by (auto simp: sa_inv_def a')
    fix x assume "x < length (sa_dense a')"
    then have x: "x < length (sa_dense a)" by (simp add: a')
    show "unat (fst (sa_dense a' ! x)) < length (sa_sparse a')"
      using sa_entry(1) [OF assms(1) x] k assms(2-6) x by (simp add: a' nth_list_update)
    show "unat (sa_sparse a' ! unat (fst (sa_dense a' ! x))) = x"
    proof (cases "x = i \<or> x = j")
      case True
      then show ?thesis using k ne assms(2-8) by (auto simp: a' nth_list_update)
    next
      case False
      then show ?thesis using sa_entry(2) [OF assms(1) x] other [OF x] by (simp add: a')
    qed
  next
    fix x assume "x < length (sa_sparse a')"
    then have x: "x < length (sa_sparse a)" by (simp add: a')
    show "sa_sparse a' ! x = sa_MAX_SIZE \<or> unat (sa_sparse a' ! x) < length (sa_dense a') \<and>
        unat (fst (sa_dense a' ! unat (sa_sparse a' ! x))) = x"
    proof (cases "x = unat k \<or> x = unat k'")
      case True
      then show ?thesis using k ne assms(2-8) by (auto simp: a' nth_list_update)
    next
      case False
      then have "sa_sparse a' ! x = sa_sparse a ! x" by (auto simp: a' nth_list_update)
      then show ?thesis using False idx [OF x] by (auto simp: a')
    qed
  qed
  have "set (sa_dense a') = set (sa_dense a)" using set_swap [OF assms(2,3)] by (simp add: a')
  then show "sa_map a' = sa_map a"
    using map_of_inject_set [OF sa_distinct [OF inv] sa_distinct [OF assms(1)]] by (simp add: sa_map_def)
qed

lemma sa_remove_spec:
  assumes "sa_inv a" "sa_remove k a = (r, a')"
  shows "sa_inv a' \<and> r = (sa_map a k \<noteq> None) \<and> sa_map a' = (sa_map a)(k := None)"
proof (cases "sa_exists a k")
  case False
  then have "sa_map a k = None" using sa_exists_dom [OF assms(1)] by blast
  then show ?thesis using False assms by (auto simp: sa_remove_def)
next
  case True
  let ?n = "length (sa_dense a)" and ?i = "sa_sparse a ! unat k"
  note i = sa_index [OF assms(1) True]
  then have ne: "sa_dense a \<noteq> []" and n: "?n - 1 < ?n" by auto
  have last: "sa_dense a ! (?n - 1) = last (sa_dense a)" using ne by (simp add: last_conv_nth)
  have "1 \<le> sa_size a" using ne sa_unat(2) [OF assms(1)] by (cases "sa_dense a") (simp_all add: word_le_nat_alt)
  then have sz: "unat (sa_size a - 1) = ?n - 1" using sa_unat(2) [OF assms(1)] by (simp add: unat_sub)
  have some: "sa_map a k \<noteq> None" using True sa_exists_dom [OF assms(1)] by blast
  show ?thesis
  proof (cases "?i = sa_size a - 1")
    case eq: True
    then have "fst (last (sa_dense a)) = k" using i(2) sz last by simp
    moreover have "a' = sa_drop_last k a" "r" using assms(2) True eq by (auto simp: sa_remove_def sa_drop_last_def Let_def)
    ultimately show ?thesis using sa_remove_last [OF assms(1) ne] some by simp
  next
    case neq: False
    then have j: "unat ?i \<noteq> ?n - 1" using sz by (metis word_unat_eq_iff)
    define a1 where "a1 = a\<lparr>sa_dense := (sa_dense a)[unat ?i := sa_dense a ! (?n - 1), ?n - 1 := sa_dense a ! unat ?i],
        sa_sparse := (sa_sparse a)[unat (fst (last (sa_dense a))) := ?i, unat k := sa_size a - 1]\<rparr>"
    have a1: "sa_inv a1" "sa_map a1 = sa_map a"
      using sa_swap [OF assms(1) i(1) n j i(2) arg_cong [OF last] refl sz a1_def] by simp_all
    have "a' = sa_drop_last k a1" "r"
      using assms(2) True neq ne i(1) j by (auto simp: sa_remove_def sa_drop_last_def a1_def Let_def last [simplified] butlast_list_update)
    moreover have "sa_dense a1 \<noteq> []" "fst (last (sa_dense a1)) = k"
      using ne i(2) by (simp_all add: a1_def last_conv_nth)
    ultimately show ?thesis using sa_remove_last [OF a1(1)] a1(2) some by simp
  qed
qed

section \<open>Properties\<close>

datatype ('k, 'v) sa_op = SaInsert 'k 'v | SaRemove 'k

fun sa_step :: "('w::len word, 'v) sa_op \<Rightarrow> ('w, 'v) sarray \<Rightarrow> bool \<times> ('w, 'v) sarray" where
  "sa_step (SaInsert k v) a = sa_insert k v a"
| "sa_step (SaRemove k) a = sa_remove k a"

fun sa_run :: "('w::len word, 'v) sa_op list \<Rightarrow> ('w, 'v) sarray \<Rightarrow> bool list \<times> ('w, 'v) sarray" where
  "sa_run [] a = ([], a)"
| "sa_run (x # xs) a = (let (r, a) = sa_step x a; (rs, a) = sa_run xs a in (r # rs, a))"

text \<open>A finite map of limited size over the keys below a limit.\<close>

fun lmap_step :: "nat \<Rightarrow> nat \<Rightarrow> ('w::len word, 'v) sa_op \<Rightarrow> ('w word \<Rightarrow> 'v option) \<Rightarrow> bool \<times> ('w word \<Rightarrow> 'v option)" where
  "lmap_step dmn cap (SaInsert k v) m =
     (if card (dom m) < cap \<and> unat k < dmn then (True, m(k \<mapsto> v)) else (False, m))"
| "lmap_step dmn cap (SaRemove k) m = (m k \<noteq> None, m(k := None))"

fun lmap_run ::
  "nat \<Rightarrow> nat \<Rightarrow> ('w::len word, 'v) sa_op list \<Rightarrow> ('w word \<Rightarrow> 'v option) \<Rightarrow> bool list \<times> ('w word \<Rightarrow> 'v option)" where
  "lmap_run dmn cap [] m = ([], m)"
| "lmap_run dmn cap (x # xs) m = (let (r, m) = lmap_step dmn cap x m; (rs, m) = lmap_run dmn cap xs m in (r # rs, m))"

lemma sa_step_refines:
  assumes "sa_inv a" "sa_step x a = (r, a')"
  shows "sa_inv a' \<and> lmap_step (length (sa_sparse a)) (unat (sa_capacity a)) x (sa_map a) = (r, sa_map a') \<and>
    length (sa_sparse a') = length (sa_sparse a) \<and> sa_capacity a' = sa_capacity a"
proof (cases x)
  case (SaInsert k v)
  then have i: "sa_insert k v a = (r, a')" using assms(2) by simp
  have "length (sa_dense a) = card (dom (sa_map a))" using sa_size_card [OF assms(1)] sa_unat(2) [OF assms(1)] by simp
  moreover have "length (sa_sparse a') = length (sa_sparse a)" "sa_capacity a' = sa_capacity a"
    using i by (auto simp: sa_insert_def Let_def split: if_splits)
  ultimately show ?thesis using SaInsert sa_insert_spec [OF assms(1) i] by (simp add: sa_accepts_def)
next
  case (SaRemove k)
  then have i: "sa_remove k a = (r, a')" using assms(2) by simp
  moreover have "length (sa_sparse a') = length (sa_sparse a)" "sa_capacity a' = sa_capacity a"
    using i by (auto simp: sa_remove_def Let_def split: if_splits)
  ultimately show ?thesis using SaRemove sa_remove_spec [OF assms(1) i] by simp
qed

lemma sa_run_refines:
  assumes "sa_inv a" "sa_run xs a = (rs, a')"
  shows "sa_inv a' \<and> lmap_run (length (sa_sparse a)) (unat (sa_capacity a)) xs (sa_map a) = (rs, sa_map a')"
  using assms
proof (induction xs arbitrary: a rs)
  case (Cons x xs)
  obtain r a1 where 1: "sa_step x a = (r, a1)" by fastforce
  note s = sa_step_refines [OF Cons.prems(1) 1]
  obtain rs' where rs: "sa_run xs a1 = (rs', a')" "rs = r # rs'" using Cons.prems(2) 1 by (auto split: prod.splits)
  from Cons.IH [OF _ rs(1)] s show ?case using rs(2) by simp
qed auto

text \<open>
  C38: the sparse array is a finite map with two limits.  Whatever insertions and removals are made on a
  new array, each one succeeds exactly when it does on a map that refuses keys outside the domain and
  everything once it is full; afterwards \<open>find\<close> gives for every key what the map has, and the size is the
  number of keys.
\<close>

theorem sparse_array_refines_map:
  fixes sz capacity :: "'w::len word"
  shows "fst (sa_run ops (sa_new sz capacity)) = fst (lmap_run (unat sz) (unat (if capacity \<noteq> 0 then capacity else sz)) ops Map.empty) \<and>
    sa_find (snd (sa_run ops (sa_new sz capacity))) k = snd (lmap_run (unat sz) (unat (if capacity \<noteq> 0 then capacity else sz)) ops Map.empty) k \<and>
    unat (sa_size (snd (sa_run ops (sa_new sz capacity)))) =
      card (dom (snd (lmap_run (unat sz) (unat (if capacity \<noteq> 0 then capacity else sz)) ops Map.empty)))"
proof -
  obtain rs a where r: "sa_run ops (sa_new sz capacity) = (rs, a)" by fastforce
  have n: "length (sa_sparse (sa_new sz capacity)) = unat sz" "sa_map (sa_new sz capacity) = Map.empty"
    "sa_capacity (sa_new sz capacity) = (if capacity \<noteq> 0 then capacity else sz)"
    by (simp_all add: sa_new_def sa_map_def)
  have s: "sa_inv a \<and> lmap_run (unat sz) (unat (if capacity \<noteq> 0 then capacity else sz)) ops Map.empty = (rs, sa_map a)"
    using sa_run_refines [OF sa_inv_new r] unfolding n .
  have i: "sa_inv a" using s by simp
  show ?thesis unfolding r using s sa_find_map [OF i] sa_size_card [OF i] by simp
qed

end
