(* ===== verification/AsyncLoop.thy ===== *)
theory AsyncLoop
  imports WorkerSpec SparseArray
begin

text \<open>
  The network loop, \<^verbatim>\<open>net/asyncloop.h.cc\<close>, over the poll selector, \<^verbatim>\<open>net/selector/pollselector.cc\<close>.  What the
  system calls return is an input of the handlers: the bytes of \<open>read\<close>, the count of \<open>write\<close>, the
  descriptors of \<open>accept\<close> and the clock.  \<open>None\<close> is a failed \<open>assert\<close>: the server stops.
\<close>

section \<open>The selector\<close>

datatype FDEvent = EVREAD | EVWRITE

datatype FDStatus = NONE | FDREAD | FDWRITE | FDERROR

definition POLLIN :: u16 where "POLLIN = 1"

definition POLLOUT :: u16 where "POLLOUT = 4"

definition POLLERR :: u16 where "POLLERR = 8"

record pollfd =
  pf_fd :: u32
  pf_events :: u16
  pf_revents :: u16

type_synonym PollSelector = "(32, pollfd) sarray"

fun event2native :: "FDEvent \<Rightarrow> u16" where
  "event2native EVREAD = POLLIN"
| "event2native EVWRITE = POLLOUT"

text \<open>The result of \<open>insert\<close> is not used.\<close>

definition insertFD :: "u32 \<Rightarrow> FDEvent \<Rightarrow> PollSelector \<Rightarrow> bool \<times> PollSelector" where
  "insertFD fd event fds =
     (if sa_size fds < sa_capacity fds
      then (True, snd (sa_insert fd \<lparr>pf_fd = fd, pf_events = event2native event, pf_revents = 0\<rparr> fds))
      else (False, fds))"

definition updateFD :: "u32 \<Rightarrow> FDEvent \<Rightarrow> PollSelector \<Rightarrow> bool \<times> PollSelector" where
  "updateFD fd event fds =
     (case sa_find fds fd of
        Some it \<Rightarrow> (True, sa_assign fd (it\<lparr>pf_events := event2native event, pf_revents := 0\<rparr>) fds)
      | None \<Rightarrow> (False, fds))"

definition removeFD :: "u32 \<Rightarrow> PollSelector \<Rightarrow> bool \<times> PollSelector" where
  "removeFD fd fds = sa_remove fd fds"

definition getFDStatus :: "pollfd \<Rightarrow> FDStatus" where
  "getFDStatus p =
     (if and (pf_revents p) POLLERR \<noteq> 0 then FDERROR
      else if and (pf_revents p) POLLIN \<noteq> 0 then FDREAD
      else if and (pf_revents p) POLLOUT \<noteq> 0 then FDWRITE
      else NONE)"

section \<open>The loop\<close>

record Client =
  cl_buffer :: IOBuffer
  cl_timer :: u32

record Conf =
  conf_maxClients :: u32
  conf_connectionTimeout :: u32
  conf_maxRequestSize :: nat

record ('l, 'm) AsyncLoop =
  al_selector :: PollSelector
  al_worker :: "'l Worker"
  al_mm :: 'm
  al_serverFD :: "u32 list"
  al_keepProcessing :: bool
  al_clients :: "(32, Client) sarray"

text \<open>What a handler needs from outside: the commands, the operations of the list, the memory manager and the clock.\<close>

record ('l, 'm) Env =
  env_atoi :: "int \<Rightarrow> u32"
  env_storage :: "str \<Rightarrow> 'l Entry option"
  env_list :: "'l list_ops"
  env_mm :: "'m mm_ops"
  env_now :: u64

datatype ReadResult = Got str | ReadError bool

datatype WriteResult = Wrote nat | WriteError bool

text \<open>\<open>mytime::now32()\<close>.\<close>

definition now32 :: "('l, 'm) Env \<Rightarrow> u32" where
  "now32 e = to32 (env_now e)"

text \<open>Removing the client frees its buffer.\<close>

definition al_removeFD :: "('l, 'm) Env \<Rightarrow> u32 \<Rightarrow> ('l, 'm) AsyncLoop \<Rightarrow> ('l, 'm) AsyncLoop" where
  "al_removeFD e fd s =
     (let s = s\<lparr>al_selector := snd (removeFD fd (al_selector s))\<rparr>
      in case sa_find (al_clients s) fd of
           None \<Rightarrow> s
         | Some c \<Rightarrow> s\<lparr>al_clients := snd (sa_remove fd (al_clients s)),
                       al_mm := snd (io_clear (env_mm e) (cl_buffer c, al_mm s))\<rparr>)"

definition client_Disconnect :: "('l, 'm) Env \<Rightarrow> u32 \<Rightarrow> ('l, 'm) AsyncLoop \<Rightarrow> ('l, 'm) AsyncLoop" where
  "client_Disconnect e fd s = al_removeFD e fd s"

text \<open>The size is the \<open>ssize_t\<close> of the system call; \<open>eagain\<close> is \<open>socket_check_eagain()\<close>.\<close>

definition client_SocketOps :: "('l, 'm) Env \<Rightarrow> u32 \<Rightarrow> int \<Rightarrow> bool \<Rightarrow> ('l, 'm) AsyncLoop \<Rightarrow> ('l, 'm) AsyncLoop" where
  "client_SocketOps e fd sz eagain s =
     (if sz < 0 then (if eagain then s else client_Disconnect e fd s)
      else if sz = 0 then client_Disconnect e fd s
      else s)"

definition al_insertFD :: "('l, 'm) Env \<Rightarrow> u32 \<Rightarrow> ('l, 'm) AsyncLoop \<Rightarrow> bool \<times> ('l, 'm) AsyncLoop" where
  "al_insertFD e fd s =
     (let (ok, sel) = insertFD fd EVREAD (al_selector s); s = s\<lparr>al_selector := sel\<rparr>
      in if \<not> ok then (False, s)
         else let (ok, cs) = sa_insert fd \<lparr>cl_buffer = io_new, cl_timer = now32 e\<rparr> (al_clients s)
              in (ok, s\<lparr>al_clients := cs\<rparr>))"

text \<open>One connection that \<open>accept\<close> gave; when it is dropped the descriptor is closed.\<close>

definition client_Connect :: "Conf \<Rightarrow> ('l, 'm) Env \<Rightarrow> u32 \<Rightarrow> ('l, 'm) AsyncLoop \<Rightarrow> ('l, 'm) AsyncLoop" where
  "client_Connect cf e newFD s =
     (if sa_size (al_clients s) < conf_maxClients cf then snd (al_insertFD e newFD s) else s)"

definition client_Worker ::
  "('l, 'm) Env \<Rightarrow> u32 \<Rightarrow> Client \<Rightarrow> ('l, 'm) AsyncLoop \<Rightarrow> ('l, 'm) AsyncLoop option" where
  "client_Worker e fd client s =
     (case KeyValueWorker (env_atoi e) (env_storage e) (env_list e) (env_mm e) (env_now e) (al_worker s) (cl_buffer client, al_mm s) of
        None \<Rightarrow> None
      | Some (status, w, b, m) \<Rightarrow>
          (let s = s\<lparr>al_worker := w, al_mm := m, al_clients := sa_assign fd (client\<lparr>cl_buffer := b\<rparr>) (al_clients s)\<rparr>
           in Some (case status of
                      PASS \<Rightarrow> s
                    | READ \<Rightarrow> s\<lparr>al_selector := snd (updateFD fd EVREAD (al_selector s))\<rparr>
                    | WRITE \<Rightarrow> s\<lparr>al_selector := snd (updateFD fd EVWRITE (al_selector s))\<rparr>
                    | WorkerStatus.DISCONNECT \<Rightarrow> client_Disconnect e fd s
                    | WorkerStatus.SHUTDOWN \<Rightarrow> s\<lparr>al_keepProcessing := False\<rparr>
                    | DISCONNECT_ERROR \<Rightarrow> client_Disconnect e fd s)))"

text \<open>
  \<open>size\<close> is the result of \<open>read\<close> cast to \<open>size_t\<close>, so \<open>size <= 0\<close> holds for zero only.
\<close>

definition client_Read ::
  "Conf \<Rightarrow> ('l, 'm) Env \<Rightarrow> u32 \<Rightarrow> ReadResult \<Rightarrow> ('l, 'm) AsyncLoop \<Rightarrow> ('l, 'm) AsyncLoop option" where
  "client_Read cf e fd inp s =
     (case sa_find (al_clients s) fd of
        None \<Rightarrow> Some (client_Disconnect e fd s)
      | Some client \<Rightarrow>
          let (p, b, m) = io_provideBufferAtLeastStandardSize (env_mm e) (cl_buffer client, al_mm s);
              client = client\<lparr>cl_buffer := b\<rparr>;
              s = s\<lparr>al_mm := m, al_clients := sa_assign fd client (al_clients s)\<rparr>
          in case p of
               None \<Rightarrow> Some (client_Disconnect e fd s)
             | Some (off, sizeNew) \<Rightarrow>
                 let (ssize, b) = (case inp of
                        Got d \<Rightarrow> (int (length (take sizeNew d)), io_write (write_at off (take sizeNew d)) b)
                      | ReadError eagain \<Rightarrow> (- 1, b));
                     sz = (of_int ssize :: u64)
                 in case io_finalizeBuffer (env_mm e) off sz (b, m) of
                      None \<Rightarrow> None
                    | Some (b, m) \<Rightarrow>
                        let client = client\<lparr>cl_buffer := b\<rparr>;
                            s = s\<lparr>al_mm := m, al_clients := sa_assign fd client (al_clients s)\<rparr>
                        in if sz \<le> 0 then Some (client_SocketOps e fd ssize (inp = ReadError True) s)
                           else if io_size b > conf_maxRequestSize cf then Some (client_Disconnect e fd s)
                           else let client = client\<lparr>cl_timer := now32 e\<rparr>
                                in client_Worker e fd client (s\<lparr>al_clients := sa_assign fd client (al_clients s)\<rparr>))"

text \<open>Also gives the bytes that went to the client.\<close>

definition client_Write ::
  "('l, 'm) Env \<Rightarrow> u32 \<Rightarrow> WriteResult \<Rightarrow> ('l, 'm) AsyncLoop \<Rightarrow> str \<times> ('l, 'm) AsyncLoop" where
  "client_Write e fd out s =
     (case sa_find (al_clients s) fd of
        None \<Rightarrow> ([], client_Disconnect e fd s)
      | Some client \<Rightarrow>
          let b = cl_buffer client;
              sent = (case out of Wrote n \<Rightarrow> take n (io_view b) | WriteError eagain \<Rightarrow> []);
              ssize = (case out of Wrote n \<Rightarrow> int (length sent) | WriteError eagain \<Rightarrow> - 1)
          in if io_size b > 0 \<and> ssize \<le> 0 then ([], client_SocketOps e fd ssize (out = WriteError True) s)
             else
               let (b, s) = (if io_size b > 0 then
                       (let (ok, b, m) = io_pop (env_mm e) (length sent) (b, al_mm s);
                            client = client\<lparr>cl_buffer := b, cl_timer := now32 e\<rparr>
                        in (b, s\<lparr>al_mm := m, al_clients := sa_assign fd client (al_clients s)\<rparr>))
                     else (b, s))
               in (sent,
                   if io_size b = 0 then s\<lparr>al_selector := snd (updateFD fd EVREAD (al_selector s))\<rparr> else s))"

definition isServerFD :: "u32 \<Rightarrow> ('l, 'm) AsyncLoop \<Rightarrow> bool" where
  "isServerFD fd s \<longleftrightarrow> fd \<in> set (al_serverFD s)"

text \<open>\<open>MyTimer::expired\<close>: the sum is taken in 32 bits.\<close>

definition timer_expired :: "('l, 'm) Env \<Rightarrow> u32 \<Rightarrow> u32 \<Rightarrow> bool" where
  "timer_expired e time timeout \<longleftrightarrow> time + timeout < now32 e"

text \<open>\<open>for_each\<close> stops at the first client that the function has removed.\<close>

definition expireFD :: "Conf \<Rightarrow> ('l, 'm) Env \<Rightarrow> ('l, 'm) AsyncLoop \<Rightarrow> ('l, 'm) AsyncLoop" where
  "expireFD cf e s =
     (case find (\<lambda>(fd, client). timer_expired e (cl_timer client) (conf_connectionTimeout cf)) (sa_dense (al_clients s)) of
        None \<Rightarrow> s
      | Some (fd, client) \<Rightarrow> client_Disconnect e fd s)"

text \<open>The events of a round as the selector reports them, each with what the system calls give.\<close>

datatype Event =
    Readable u32 ReadResult
  | Accepted u32 "u32 list"
  | Writable u32 WriteResult
  | Failed u32
  | Idle

fun al_event :: "Conf \<Rightarrow> ('l, 'm) Env \<Rightarrow> Event \<Rightarrow> ('l, 'm) AsyncLoop \<Rightarrow> (str \<times> ('l, 'm) AsyncLoop) option" where
  "al_event cf e (Readable fd inp) s =
     (if isServerFD fd s then Some ([], s) else map_option (Pair []) (client_Read cf e fd inp s))"
| "al_event cf e (Accepted fd newFDs) s =
     (if isServerFD fd s then Some ([], fold (client_Connect cf e) newFDs s) else Some ([], s))"
| "al_event cf e (Writable fd out) s =
     (if isServerFD fd s then Some ([], s) else Some (client_Write e fd out s))"
| "al_event cf e (Failed fd) s = Some ([], client_Disconnect e fd s)"
| "al_event cf e Idle s = Some ([], expireFD cf e s)"

text \<open>
  The constructor.  \<open>conf_bufferCapacity_\<close> is read before anything has set it: its value is an argument.
\<close>

definition MIN_CLIENTS :: u32 where "MIN_CLIENTS = 4"

definition al_conf :: "u32 \<Rightarrow> u32 \<Rightarrow> nat \<Rightarrow> nat \<Rightarrow> Conf" where
  "al_conf maxClients connectionTimeout maxRequestSize bufferCapacity =
     \<lparr>conf_maxClients = max maxClients MIN_CLIENTS, conf_connectionTimeout = connectionTimeout,
      conf_maxRequestSize = max maxRequestSize bufferCapacity\<rparr>"

definition al_new :: "Conf \<Rightarrow> u32 \<Rightarrow> PollSelector \<Rightarrow> u32 list \<Rightarrow> 'l Worker \<Rightarrow> 'm \<Rightarrow> ('l, 'm) AsyncLoop" where
  "al_new cf rlimitNoFile selector serverFD worker mm =
     \<lparr>al_selector = fold (\<lambda>fd sel. snd (insertFD fd EVREAD sel)) serverFD selector, al_worker = worker, al_mm = mm,
      al_serverFD = serverFD, al_keepProcessing = True, al_clients = sa_new rlimitNoFile (conf_maxClients cf)\<rparr>"

text \<open>Rounds of the loop, one event after the other; also what went to the clients.\<close>

fun al_run :: "Conf \<Rightarrow> (('l, 'm) Env \<times> Event) list \<Rightarrow> ('l, 'm) AsyncLoop \<Rightarrow> (str list \<times> ('l, 'm) AsyncLoop) option" where
  "al_run cf [] s = Some ([], s)"
| "al_run cf ((e, ev) # evs) s =
     (case al_event cf e ev s of
        None \<Rightarrow> None
      | Some (out, s) \<Rightarrow> map_option (\<lambda>(outs, s). (out # outs, s)) (al_run cf evs s))"

end
