(* ===== verification/AsyncSpec.thy ===== *)
theory AsyncSpec
  imports AsyncLoop
begin

text \<open>
  What the loop keeps and what a client sees: the buffers of all clients stay well formed and every
  connected client is watched, whatever happens on the network; a request that arrives in pieces is
  answered with the reply that its meaning gives, and the reply goes out in any pieces.
\<close>

section \<open>The selector\<close>

lemma sa_finite [simp]: "finite (dom (sa_map a))"
  by (simp add: sa_map_def finite_dom_map_of)

lemma sa_sparse_length [simp]:
  "length (sa_sparse (sa_assign k v a)) = length (sa_sparse a)"
  "length (sa_sparse (snd (sa_insert k v a))) = length (sa_sparse a)"
  "length (sa_sparse (snd (sa_remove k a))) = length (sa_sparse a)"
  by (simp_all add: sa_assign_def sa_insert_def sa_remove_def Let_def)

lemma updateFD_spec:
  assumes "sa_inv fds"
  shows "sa_inv (snd (updateFD fd ev fds))" "dom (sa_map (snd (updateFD fd ev fds))) = dom (sa_map fds)"
    "sa_map fds fd \<noteq> None \<Longrightarrow> \<exists>it. sa_map (snd (updateFD fd ev fds)) fd = Some it \<and> pf_events it = event2native ev"
    "length (sa_sparse (snd (updateFD fd ev fds))) = length (sa_sparse fds)"
  using sa_assign_spec [OF assms] sa_find_map [OF assms, of fd] assms
  by (auto simp: updateFD_def split: option.split)

section \<open>The invariant of the loop\<close>

definition al_inv :: "(Context \<Rightarrow> bool) \<Rightarrow> Conf \<Rightarrow> ('l, 'm) AsyncLoop \<Rightarrow> bool" where
  "al_inv cx_ok cf s \<longleftrightarrow>
     sa_inv (al_clients s) \<and> sa_inv (al_selector s) \<and>
     length (sa_sparse (al_clients s)) = length (sa_sparse (al_selector s)) \<and>
     dom (sa_map (al_clients s)) \<subseteq> dom (sa_map (al_selector s)) \<and>
     card (dom (sa_map (al_clients s))) \<le> unat (conf_maxClients cf) \<and>
     (\<forall>c \<in> ran (sa_map (al_clients s)). io_wf cx_ok (cl_buffer c)) \<and>
     io_wf cx_ok (wk_system_buffer (al_worker s))"

lemma al_invI:
  assumes "al_inv cx_ok cf s" "sa_inv (al_clients s')" "sa_inv (al_selector s')"
    and "length (sa_sparse (al_clients s')) = length (sa_sparse (al_clients s))"
      "length (sa_sparse (al_selector s')) = length (sa_sparse (al_selector s))"
    and "dom (sa_map (al_clients s')) \<subseteq> dom (sa_map (al_selector s'))"
      "card (dom (sa_map (al_clients s'))) \<le> unat (conf_maxClients cf)"
    and "\<And>fd c. sa_map (al_clients s') fd = Some c \<Longrightarrow> io_wf cx_ok (cl_buffer c)"
    and "io_wf cx_ok (wk_system_buffer (al_worker s'))"
  shows "al_inv cx_ok cf s'"
  using assms by (auto simp: al_inv_def ran_def)

text \<open>A client whose buffer has changed.\<close>

lemma al_inv_client:
  assumes "al_inv cx_ok cf s" "io_wf cx_ok (cl_buffer c)" "io_wf cx_ok (wk_system_buffer w)"
  shows "al_inv cx_ok cf (s\<lparr>al_worker := w, al_mm := m, al_clients := sa_assign fd c (al_clients s)\<rparr>)"
proof -
  have "sa_inv (al_clients s)" using assms(1) by (simp add: al_inv_def)
  note a = sa_assign_spec [OF this, of fd c]
  have d: "dom (sa_map (sa_assign fd c (al_clients s))) = dom (sa_map (al_clients s))" using a(2) by auto
  show ?thesis
    by (rule al_invI [OF assms(1)]) (use assms a d in \<open>auto simp: al_inv_def ran_def split: if_splits\<close>)
qed

lemma al_inv_buffer:
  assumes "al_inv cx_ok cf s" "io_wf cx_ok (cl_buffer c)"
  shows "al_inv cx_ok cf (s\<lparr>al_mm := m, al_clients := sa_assign fd c (al_clients s)\<rparr>)"
  using al_inv_client [OF assms, of "al_worker s"] assms(1) by (simp add: al_inv_def)

lemma al_inv_selector:
  assumes "al_inv cx_ok cf s"
  shows "al_inv cx_ok cf (s\<lparr>al_selector := snd (updateFD fd ev (al_selector s))\<rparr>)"
  using assms updateFD_spec(1,2,4) [of "al_selector s" fd ev] by (simp add: al_inv_def)

lemma al_inv_keep [simp]: "al_inv cx_ok cf (s\<lparr>al_keepProcessing := b\<rparr>) = al_inv cx_ok cf s"
  by (simp add: al_inv_def)

lemma disconnect_spec:
  assumes "al_inv cx_ok cf s"
  shows "al_inv cx_ok cf (client_Disconnect e fd s)"
    "sa_map (al_clients (client_Disconnect e fd s)) = (sa_map (al_clients s))(fd := None)"
    "al_worker (client_Disconnect e fd s) = al_worker s"
    "sa_map (al_selector (client_Disconnect e fd s)) = (sa_map (al_selector s))(fd := None)"
proof -
  have i: "sa_inv (al_clients s)" "sa_inv (al_selector s)" using assms by (simp_all add: al_inv_def)
  note c = sa_remove_spec [OF i(1), of fd "fst (sa_remove fd (al_clients s))" "snd (sa_remove fd (al_clients s))", simplified]
  note p = sa_remove_spec [OF i(2), of fd "fst (sa_remove fd (al_selector s))" "snd (sa_remove fd (al_selector s))", simplified]
  show m: "sa_map (al_clients (client_Disconnect e fd s)) = (sa_map (al_clients s))(fd := None)"
    using c sa_find_map [OF i(1), of fd]
    by (auto simp: client_Disconnect_def al_removeFD_def Let_def split: option.split)
  show w: "al_worker (client_Disconnect e fd s) = al_worker s"
    by (simp add: client_Disconnect_def al_removeFD_def Let_def split: option.split)
  show q: "sa_map (al_selector (client_Disconnect e fd s)) = (sa_map (al_selector s))(fd := None)"
    using p by (simp add: client_Disconnect_def al_removeFD_def removeFD_def Let_def split: option.split)
  have "sa_inv (al_clients (client_Disconnect e fd s))" "sa_inv (al_selector (client_Disconnect e fd s))"
    "length (sa_sparse (al_clients (client_Disconnect e fd s))) = length (sa_sparse (al_clients s))"
    "length (sa_sparse (al_selector (client_Disconnect e fd s))) = length (sa_sparse (al_selector s))"
    using i c p by (simp_all add: client_Disconnect_def al_removeFD_def removeFD_def Let_def split: option.split)
  moreover have "card (dom (sa_map (al_clients s)) - {fd}) \<le> card (dom (sa_map (al_clients s)))"
    by (intro card_mono) auto
  ultimately show "al_inv cx_ok cf (client_Disconnect e fd s)"
    by (intro al_invI [OF assms]) (use assms m w q in \<open>auto simp: al_inv_def ran_def split: if_splits\<close>)
qed

lemma socketOps_inv: "al_inv cx_ok cf s \<Longrightarrow> al_inv cx_ok cf (client_SocketOps e fd sz eagain s)"
  by (auto simp: client_SocketOps_def intro: disconnect_spec(1))

text \<open>Connections are accepted up to the limit.\<close>

lemma connect_inv:
  assumes "al_inv cx_ok cf s" "cx_ok cx_clear"
  shows "al_inv cx_ok cf (client_Connect cf e fd s)"
proof (cases "sa_size (al_clients s) < conf_maxClients cf \<and> sa_size (al_selector s) < sa_capacity (al_selector s)")
  case False
  then show ?thesis using assms(1) by (auto simp: client_Connect_def al_insertFD_def insertFD_def)
next
  case True
  let ?p = "\<lparr>pf_fd = fd, pf_events = event2native EVREAD, pf_revents = 0\<rparr>"
  let ?c = "\<lparr>cl_buffer = io_new, cl_timer = now32 e\<rparr>"
  have i: "sa_inv (al_clients s)" "sa_inv (al_selector s)" using assms(1) by (simp_all add: al_inv_def)
  obtain ro sel where p: "sa_insert fd ?p (al_selector s) = (ro, sel)" by fastforce
  obtain ok cs where c: "sa_insert fd ?c (al_clients s) = (ok, cs)" by fastforce
  note sp = sa_insert_spec [OF i(2) p] and sc = sa_insert_spec [OF i(1) c]
  have s': "client_Connect cf e fd s = s\<lparr>al_selector := sel, al_clients := cs\<rparr>"
    using True p c by (simp add: client_Connect_def al_insertFD_def insertFD_def)
  have len: "length (sa_sparse cs) = length (sa_sparse (al_clients s))" "length (sa_sparse sel) = length (sa_sparse (al_selector s))"
    using sa_sparse_length(2) c p by (metis snd_conv)+
  have "length (sa_dense (al_selector s)) < unat (sa_capacity (al_selector s))"
    using True sa_unat(2) [OF i(2)] by (simp add: word_less_nat_alt)
  then have ro: "ro" if ok using that sc sp assms(1) by (auto simp: sa_accepts_def al_inv_def)
  have cnt: "card (dom (sa_map (al_clients s))) < unat (conf_maxClients cf)"
    using True sa_size_card [OF i(1)] by (simp add: word_less_nat_alt)
  have "card (insert fd (dom (sa_map (al_clients s)))) \<le> Suc (card (dom (sa_map (al_clients s))))"
    by (rule card_insert_le_m1) auto
  then have "card (dom (sa_map cs)) \<le> unat (conf_maxClients cf)" using sc cnt by (auto simp: dom_fun_upd)
  moreover have "io_wf cx_ok io_new" using assms(2) by (simp add: io_wf_def io_new_def)
  moreover have "dom (sa_map cs) \<subseteq> dom (sa_map sel)" using sc sp ro assms(1) by (auto simp: al_inv_def split: if_splits)
  ultimately show ?thesis unfolding s'
    by (intro al_invI [OF assms(1)]) (use assms(1) sc sp len in \<open>auto simp: al_inv_def ran_def split: if_splits\<close>)
qed

section \<open>The worker keeps the buffers\<close>

text \<open>A memory manager that always has memory for blocks up to a size.\<close>

definition mm_serves :: "'m mm_ops \<Rightarrow> nat \<Rightarrow> bool" where
  "mm_serves M B \<longleftrightarrow> (\<forall>c n m. n \<le> B \<longrightarrow> fst (mm_allocate M c n m))"

lemma length_copy: "length (fst (copy s st)) = length (fst st)"
  by (auto simp: copy_def write_at_def split: prod.split)

lemma length_responce: "length (fst (responceStringNR msg st)) = length (fst st)"
  by (simp add: responceStringNR_def Let_def length_copy)

lemma length_resp_write: "length (fst (resp_write r st)) = length (fst st)"
proof (cases r)
  case (RespStrings list)
  have "length (fst (foldl (\<lambda>st msg. responceStringNR msg st) st list)) = length (fst st)" for st
    by (induction list arbitrary: st) (simp_all add: length_responce)
  then show ?thesis by (simp add: RespStrings length_copy)
qed (simp_all add: length_copy length_responce responceNumberSV_def)

lemma provide_served:
  assumes "mm_serves M B" "cx_size (io_buffer b) + n \<le> B"
  shows "fst (io_provideBufferAtLeast M n (b, m)) \<noteq> None"
proof -
  obtain ok c m1 where 1: "am_resize M (cx_size (io_buffer b) + n) (io_buffer b, m) = (ok, c, m1)" by (metis prod_cases3)
  have "fst (am_resize M (cx_size (io_buffer b) + n) (io_buffer b, m))"
    using assms by (auto simp: mm_serves_def am_resize_def am_reserve_def split: prod.splits) (metis fst_conv)
  then have ok using 1 by simp
  moreover have "am_resize M (cx_capacity c) (c, m1) = (True, c\<lparr>cx_size := cx_capacity c\<rparr>, m1)" by (simp add: am_resize_def)
  ultimately show ?thesis using 1 by (simp add: io_provideBufferAtLeast_def Let_def)
qed

context memory_manager
begin

lemma respond_ok:
  assumes "io_respond M r (b, m) = Some (ok, b', m')"
  shows "io_ok b'"
proof -
  let ?m = "snd (mm_deallocate M (io_buffer b) m)"
  obtain ok1 c m1 where a: "mm_allocate M cx_clear (resp_size r) ?m = (ok1, c, m1)" by (metis prod_cases3)
  show ?thesis
  proof (cases ok1)
    case False
    then show ?thesis using respond_false [of r b m c m1] a assms by simp
  next
    case True
    have c: "cx_ok c" "resp_size r \<le> cx_capacity c"
      using allocate_true [OF cx_ok_clear, of "resp_size r" ?m c m1] a True resp_size_pos [of r] by (simp_all add: cx_clear_def)
    obtain mem p n where w: "resp_write r (cx_mem c, 0, 0) = (mem, p, n)" by (metis prod_cases3)
    have l: "length mem = cx_capacity c"
      using length_resp_write [of r "(cx_mem c, 0, 0)"] w cx_ok_wf [OF c(1)] by (simp add: cx_wf_def)
    let ?n = "unat (of_nat n :: u64)"
    have b': "?n \<le> cx_capacity c" "b' = \<lparr>io_head = 0, io_buffer = c\<lparr>cx_mem := mem, cx_size := ?n\<rparr>\<rparr>"
      using assms True w
      by (auto simp: io_respond_def io_clear_fields provide_new [OF resp_size_pos] a io_finalizeBuffer_def am_resize_def io_write_def Let_def
          split: if_splits)
    then show ?thesis using cx_ok_use [OF c(1) l] by (simp add: io_wf_def)
  qed
qed

lemma worker_buffers:
  assumes "KeyValueWorker ua storage L M now w (b, m) = Some (st, w', b', m')" "io_ok b" "io_ok (wk_system_buffer w)"
  shows "io_ok b' \<and> io_ok (wk_system_buffer w')"
proof -
  have err: "io_ok b' \<and> io_ok (wk_system_buffer w')"
    if "worker_error M msg (w\<lparr>wk_protocol := ps\<rparr>) (b, m) = Some (st, w', b', m')" for msg ps
    using that respond_ok [of "RespError msg" b m] assms(3)
    by (auto simp: worker_error_def emitError_def)
  have set: "io_ok b' \<and> io_ok (wk_system_buffer w')"
    if "processSet M r (wk_system_buffer w, m) = Some (sys, m1)" "translate stat (w1\<lparr>wk_system_buffer := sys\<rparr>) b = (st, w', b')"
    for r sys m1 stat w1
    using that respond_ok [of r "wk_system_buffer w" m _ sys m1] assms(2)
    by (auto simp: processSet_def translate_def split: if_splits Status.splits)
  show ?thesis using assms err set
    by (auto simp: KeyValueWorker_def Let_def split: if_splits prod.splits option.splits)
qed

text \<open>Reading: no memory, a request that is too long, or the worker gets the longer buffer.\<close>

lemma sa_assign_assign [simp]: "sa_assign k v (sa_assign k u a) = sa_assign k v a"
  by (cases "unat (sa_sparse a ! unat k) < length (sa_dense a)")
    (simp_all add: sa_assign_def sa_exists_def sa_size_def sa_domain_def Let_def list_update_beyond)

lemma read_got:
  assumes "al_inv cx_ok cf s" "env_mm e = M" "sa_map (al_clients s) fd = Some c"
  obtains (nomem) m where "\<And>B. cx_size (io_buffer (cl_buffer c)) + STANDARD_READ_SIZE \<le> B \<Longrightarrow> \<not> mm_serves M B"
      "client_Read cf e fd (Got d) s = Some (client_Disconnect e fd (s\<lparr>al_mm := m, al_clients := sa_assign fd c (al_clients s)\<rparr>))"
  | (ended) b m where "io_ok b"
      "client_Read cf e fd (Got d) s =
         Some (client_Disconnect e fd (s\<lparr>al_mm := m, al_clients := sa_assign fd (c\<lparr>cl_buffer := b\<rparr>) (al_clients s)\<rparr>))"
      "d = [] \<or> length (io_view (cl_buffer c) @ d) > conf_maxRequestSize cf \<or> length d > STANDARD_READ_SIZE"
  | (work) b m d' where "io_ok b" "io_view b = io_view (cl_buffer c) @ d'" "io_head b = io_head (cl_buffer c)"
      "length d \<le> STANDARD_READ_SIZE \<longrightarrow> d' = d"
      "client_Read cf e fd (Got d) s =
         client_Worker e fd (c\<lparr>cl_buffer := b, cl_timer := now32 e\<rparr>)
           (s\<lparr>al_mm := m, al_clients := sa_assign fd (c\<lparr>cl_buffer := b, cl_timer := now32 e\<rparr>) (al_clients s)\<rparr>)"
proof -
  have b: "io_ok (cl_buffer c)" and f: "sa_find (al_clients s) fd = Some c"
    using assms(1,3) sa_find_map [of "al_clients s" fd] by (auto simp: al_inv_def ran_def)
  obtain p b1 m1 where pr: "io_provideBufferAtLeast M STANDARD_READ_SIZE (cl_buffer c, al_mm s) = (p, b1, m1)" by (metis prod_cases3)
  show thesis
  proof (cases p)
    case None
    then have "b1 = cl_buffer c" using provide_at_least_none [OF b] pr by simp
    moreover have "\<not> mm_serves M B" if "cx_size (io_buffer (cl_buffer c)) + STANDARD_READ_SIZE \<le> B" for B
      using provide_served [OF _ that, of M "al_mm s"] pr None by auto
    ultimately show thesis using nomem [of m1] None pr f assms(2)
      by (simp add: client_Read_def io_provideBufferAtLeastStandardSize_def)
  next
    case (Some q)
    obtain off sz where q: "q = (off, sz)" by fastforce
    note pr' = pr [unfolded Some q]
    let ?d = "take sz d"
    have sz: "STANDARD_READ_SIZE \<le> sz" "off + sz < 2 ^ 63"
      using provide_at_least [OF b pr'] cx_ok_64 [of "io_buffer b1"] by auto
    obtain b2 where b2: "io_finalizeBuffer M off (of_nat (length ?d)) (io_write (write_at off ?d) b1, m1) = Some (b2, m1)"
        "io_ok b2" "io_view b2 = io_view (cl_buffer c) @ ?d" "io_head b2 = io_head (cl_buffer c)"
      using read_append [OF b pr', of ?d] by auto
    have sz0: "(of_nat (length ?d) :: u64) \<le> 0 \<longleftrightarrow> d = []"
    proof -
      have "length ?d < 2 ^ 64" using sz by (simp add: min_def)
      then have "unat (of_nat (length ?d) :: u64) = length ?d" by (simp add: unat_of_nat)
      moreover have "sz \<noteq> 0" using sz(1) by (simp add: STANDARD_READ_SIZE_def)
      ultimately show ?thesis by (metis length_0_conv take_eq_Nil unat_0 word_le_0_iff word_unat_eq_iff)
    qed
    have len: "io_size b2 = length (io_view b2)" using length_io_view [of b2] b2(2) cx_ok_wf by (simp add: io_wf_def)
    let ?c = "c\<lparr>cl_buffer := b2\<rparr>"
    have step: "client_Read cf e fd (Got d) s =
      (if d = [] then Some (client_SocketOps e fd (int (length ?d)) False (s\<lparr>al_mm := m1, al_clients := sa_assign fd ?c (al_clients s)\<rparr>))
       else if length (io_view b2) > conf_maxRequestSize cf
         then Some (client_Disconnect e fd (s\<lparr>al_mm := m1, al_clients := sa_assign fd ?c (al_clients s)\<rparr>))
       else client_Worker e fd (?c\<lparr>cl_timer := now32 e\<rparr>)
              (s\<lparr>al_mm := m1, al_clients := sa_assign fd (?c\<lparr>cl_timer := now32 e\<rparr>) (al_clients s)\<rparr>))"
      using f pr' assms(2) b2(1) sz0 len
      by (simp add: client_Read_def io_provideBufferAtLeastStandardSize_def Let_def)
    show thesis
    proof (cases "d = [] \<or> length (io_view b2) > conf_maxRequestSize cf")
      case True
      moreover have "length (io_view b2) \<le> length (io_view (cl_buffer c) @ d)" by (simp add: b2(3))
      ultimately show thesis using ended [OF b2(2), of m1] step by (auto simp: client_SocketOps_def)
    next
      case False
      then show thesis using work [OF b2(2,3,4), of m1] step sz(1) by simp
    qed
  qed
qed

lemma client_worker_inv:
  assumes "al_inv cx_ok cf s" "env_mm e = M" "io_ok (cl_buffer c)" "client_Worker e fd c s = Some s'"
  shows "al_inv cx_ok cf s'"
proof -
  obtain st w b m where k: "KeyValueWorker (env_atoi e) (env_storage e) (env_list e) M (env_now e) (al_worker s) (cl_buffer c, al_mm s) =
      Some (st, w, b, m)"
    using assms(2,4) by (auto simp: client_Worker_def split: option.splits)
  have "io_ok b" "io_ok (wk_system_buffer w)"
    using worker_buffers [OF k assms(3)] assms(1) by (simp_all add: al_inv_def)
  then have i: "al_inv cx_ok cf (s\<lparr>al_worker := w, al_mm := m, al_clients := sa_assign fd (c\<lparr>cl_buffer := b\<rparr>) (al_clients s)\<rparr>)"
    using al_inv_client [OF assms(1)] by simp
  show ?thesis using assms(2,4) k i al_inv_selector [OF i] disconnect_spec(1) [OF i]
    by (cases st) (auto simp: client_Worker_def Let_def)
qed

lemma read_inv:
  assumes "al_inv cx_ok cf s" "env_mm e = M" "client_Read cf e fd (Got d) s = Some s'"
  shows "al_inv cx_ok cf s'"
proof (cases "sa_map (al_clients s) fd")
  case None
  then have "sa_find (al_clients s) fd = None" using assms(1) sa_find_map [of "al_clients s" fd] by (simp add: al_inv_def)
  then show ?thesis using assms(3) disconnect_spec(1) [OF assms(1)] by (auto simp: client_Read_def)
next
  case (Some c)
  then have c: "io_ok (cl_buffer c)" using assms(1) by (auto simp: al_inv_def ran_def)
  from assms(1,2) Some show ?thesis
  proof (cases rule: read_got [where d = d])
    case (nomem m)
    then show ?thesis using assms(3) al_inv_buffer [OF assms(1) c] disconnect_spec(1) by fastforce
  next
    case (ended b m)
    have "al_inv cx_ok cf (s\<lparr>al_mm := m, al_clients := sa_assign fd (c\<lparr>cl_buffer := b\<rparr>) (al_clients s)\<rparr>)"
      using al_inv_buffer [OF assms(1)] ended(1) by simp
    from disconnect_spec(1) [OF this] show ?thesis using ended(2) assms(3) by simp
  next
    case (work b m d')
    have "al_inv cx_ok cf (s\<lparr>al_mm := m, al_clients := sa_assign fd (c\<lparr>cl_buffer := b, cl_timer := now32 e\<rparr>) (al_clients s)\<rparr>)"
      using al_inv_buffer [OF assms(1)] work(1) by simp
    from client_worker_inv [OF this assms(2), of "c\<lparr>cl_buffer := b, cl_timer := now32 e\<rparr>" fd s'] show ?thesis
      using work(1,5) assms(3) by simp
  qed
qed

text \<open>Writing: what goes out is a beginning of the buffer, the rest stays.\<close>

lemma write_some:
  assumes "al_inv cx_ok cf s" "env_mm e = M" "sa_map (al_clients s) fd = Some c" "0 < n" "io_view (cl_buffer c) \<noteq> []"
  obtains b m where "io_ok b" "io_view b = drop n (io_view (cl_buffer c))"
    "client_Write e fd (Wrote n) s = (take n (io_view (cl_buffer c)),
       let s = s\<lparr>al_mm := m, al_clients := sa_assign fd (c\<lparr>cl_buffer := b, cl_timer := now32 e\<rparr>) (al_clients s)\<rparr>
       in if io_view b = [] then s\<lparr>al_selector := snd (updateFD fd EVREAD (al_selector s))\<rparr> else s)"
proof -
  let ?v = "io_view (cl_buffer c)" and ?n = "length (take n (io_view (cl_buffer c)))"
  have c: "io_ok (cl_buffer c)" and f: "sa_find (al_clients s) fd = Some c"
    using assms(1,3) sa_find_map [of "al_clients s" fd] by (auto simp: al_inv_def ran_def)
  have l: "length ?v = io_size (cl_buffer c)" using length_io_view c cx_ok_wf by (simp add: io_wf_def)
  obtain r b m where p: "io_pop M ?n (cl_buffer c, al_mm s) = (r, b, m)" by (metis prod_cases3)
  have "0 < ?n" "?n \<le> length ?v" using assms(4,5) by auto
  from pop_view [OF c this p] have b: "io_ok b" "io_view b = drop n ?v" by (simp_all add: min_def)
  have "length (io_view b) = io_size b" using length_io_view b(1) cx_ok_wf by (simp add: io_wf_def)
  then have e: "io_size b = 0 \<longleftrightarrow> io_view b = []" by auto
  have z: "io_size (cl_buffer c) > 0" "\<not> int ?n \<le> 0" using assms(4,5) by (auto simp flip: l)
  show thesis
  proof (rule that [OF b])
    show "client_Write e fd (Wrote n) s = (take n ?v,
       let s = s\<lparr>al_mm := m, al_clients := sa_assign fd (c\<lparr>cl_buffer := b, cl_timer := now32 e\<rparr>) (al_clients s)\<rparr>
       in if io_view b = [] then s\<lparr>al_selector := snd (updateFD fd EVREAD (al_selector s))\<rparr> else s)"
      using f z p e assms(2) by (simp add: client_Write_def Let_def)
  qed
qed

lemma write_inv:
  assumes "al_inv cx_ok cf s" "env_mm e = M"
  shows "al_inv cx_ok cf (snd (client_Write e fd out s))"
proof (cases "sa_map (al_clients s) fd")
  case None
  then have "sa_find (al_clients s) fd = None" using assms(1) sa_find_map [of "al_clients s" fd] by (simp add: al_inv_def)
  then show ?thesis using disconnect_spec(1) [OF assms(1)] by (simp add: client_Write_def)
next
  case (Some c)
  have c: "io_ok (cl_buffer c)" and f: "sa_find (al_clients s) fd = Some c"
    using assms(1) Some sa_find_map [of "al_clients s" fd] by (auto simp: al_inv_def ran_def)
  show ?thesis
  proof (cases "\<exists>n. out = Wrote n \<and> 0 < n \<and> io_view (cl_buffer c) \<noteq> []")
    case True
    then obtain n where n: "out = Wrote n" "0 < n" "io_view (cl_buffer c) \<noteq> []" by blast
    from assms Some n(2,3) show ?thesis
    proof (cases rule: write_some)
      case (1 b m)
      have i: "al_inv cx_ok cf (s\<lparr>al_mm := m, al_clients := sa_assign fd (c\<lparr>cl_buffer := b, cl_timer := now32 e\<rparr>) (al_clients s)\<rparr>)"
        using al_inv_buffer [OF assms(1)] 1(1) by simp
      show ?thesis using i al_inv_selector [OF i, of fd EVREAD] n(1) 1(3) by (simp add: Let_def)
    qed
  next
    case False
    have l: "length (io_view (cl_buffer c)) = io_size (cl_buffer c)" using length_io_view c cx_ok_wf by (simp add: io_wf_def)
    show ?thesis
      using False f l socketOps_inv [OF assms(1)] al_inv_selector [OF assms(1), of fd EVREAD] assms(1)
      by (cases out) (auto simp: client_Write_def Let_def)
  qed
qed

lemma event_inv:
  assumes "al_inv cx_ok cf s" "env_mm e = M" "al_event cf e ev s = Some (out, s')" "\<And>fd b. ev \<noteq> Readable fd (ReadError b)"
  shows "al_inv cx_ok cf s'"
proof (cases ev)
  case (Readable fd inp)
  then obtain d where "inp = Got d" using assms(4) by (cases inp) auto
  then show ?thesis using Readable assms(1,3) read_inv [OF assms(1,2)] by (auto split: if_splits)
next
  case (Accepted fd newFDs)
  have "al_inv cx_ok cf (fold (client_Connect cf e) xs s)" for xs
    using assms(1) by (induction xs arbitrary: s) (auto intro!: connect_inv cx_ok_clear)
  then show ?thesis using Accepted assms(1,3) by (auto split: if_splits)
next
  case (Writable fd out)
  then show ?thesis using assms(1,3) write_inv [OF assms(1,2), of fd out] by (auto split: if_splits)
next
  case (Failed fd)
  then show ?thesis using assms(3) disconnect_spec(1) [OF assms(1)] by auto
next
  case Idle
  then show ?thesis using assms(1,3) disconnect_spec(1) [OF assms(1)] by (auto simp: expireFD_def split: option.splits)
qed

end

section \<open>Runs\<close>

lemma insertFD_spec:
  assumes "sa_inv sel"
  shows "sa_inv (snd (insertFD fd ev sel)) \<and> length (sa_sparse (snd (insertFD fd ev sel))) = length (sa_sparse sel)"
proof -
  have "sa_inv (snd (sa_insert fd v sel))" for v
    using sa_insert_spec [OF assms, of fd v] by (cases "sa_insert fd v sel") simp
  then show ?thesis using assms by (simp add: insertFD_def)
qed

lemma sa_new_fields [simp]: "length (sa_sparse (sa_new sz capacity)) = unat sz" "sa_map (sa_new sz capacity) = Map.empty"
  by (simp_all add: sa_new_def sa_map_def)

lemma al_inv_new:
  assumes "io_wf cx_ok (wk_system_buffer w)"
  shows "al_inv cx_ok cf (al_new cf rlimit (sa_new rlimit maxClients) servers w m)"
proof -
  have "sa_inv (fold (\<lambda>fd sel. snd (insertFD fd EVREAD sel)) fds sel) \<and>
      length (sa_sparse (fold (\<lambda>fd sel. snd (insertFD fd EVREAD sel)) fds sel)) = length (sa_sparse sel)"
    if "sa_inv sel" for fds and sel :: PollSelector
    using that
  proof (induction fds arbitrary: sel)
    case (Cons fd fds)
    then show ?case using Cons.IH [of "snd (insertFD fd EVREAD sel)"] insertFD_spec [OF Cons.prems, of fd EVREAD] by simp
  qed simp
  from this [OF sa_inv_new] show ?thesis using assms sa_inv_new
    by (simp add: al_inv_def al_new_def)
qed

context memory_manager
begin

lemma run_inv:
  "al_inv cx_ok cf s \<Longrightarrow> list_all (\<lambda>(e, ev). env_mm e = M \<and> (\<forall>fd b. ev \<noteq> Readable fd (ReadError b))) evs \<Longrightarrow>
     al_run cf evs s = Some (outs, s') \<Longrightarrow> al_inv cx_ok cf s'"
proof (induction evs arbitrary: s outs)
  case (Cons x evs)
  obtain e ev where x: "x = (e, ev)" by fastforce
  obtain out s1 where 1: "al_event cf e ev s = Some (out, s1)" using Cons.prems(3) x by (cases "al_event cf e ev s") auto
  have "al_inv cx_ok cf s1" using event_inv [OF Cons.prems(1) _ 1] Cons.prems(2) x by auto
  then show ?case using Cons.IH [of s1] Cons.prems x 1 by auto
qed simp

text \<open>A failed \<open>read\<close> is not noticed.\<close>

lemma read_error:
  assumes "al_inv cx_ok cf s" "env_mm e = M" "sa_map (al_clients s) fd = Some c"
    and "fst (io_provideBufferAtLeastStandardSize M (cl_buffer c, al_mm s)) \<noteq> None"
  shows "io_view (cl_buffer c) = [] \<Longrightarrow> client_Read cf e fd (ReadError eagain) s = None"
    "io_view (cl_buffer c) \<noteq> [] \<Longrightarrow> length (io_view (cl_buffer c)) \<le> conf_maxRequestSize cf \<Longrightarrow>
       \<exists>b m. io_view b = butlast (io_view (cl_buffer c)) \<and>
         client_Read cf e fd (ReadError eagain) s =
           client_Worker e fd (c\<lparr>cl_buffer := b, cl_timer := now32 e\<rparr>)
             (s\<lparr>al_mm := m, al_clients := sa_assign fd (c\<lparr>cl_buffer := b, cl_timer := now32 e\<rparr>) (al_clients s)\<rparr>)"
proof -
  have b: "io_ok (cl_buffer c)" and f: "sa_find (al_clients s) fd = Some c"
    using assms(1,3) sa_find_map [of "al_clients s" fd] by (auto simp: al_inv_def ran_def)
  have len: "length (io_view (cl_buffer c)) = io_size (cl_buffer c)" using length_io_view b cx_ok_wf by (simp add: io_wf_def)
  obtain off sz b1 m1 where p: "io_provideBufferAtLeast M STANDARD_READ_SIZE (cl_buffer c, al_mm s) = (Some (off, sz), b1, m1)"
    using assms(4) unfolding io_provideBufferAtLeastStandardSize_def
    by (cases "io_provideBufferAtLeast M STANDARD_READ_SIZE (cl_buffer c, al_mm s)") auto
  note fail = read_failed [OF b p]
  show "client_Read cf e fd (ReadError eagain) s = None" if "io_view (cl_buffer c) = []"
    using that fail(1) len f p assms(2)
    by (simp add: client_Read_def io_provideBufferAtLeastStandardSize_def)
  assume ne: "io_view (cl_buffer c) \<noteq> []" and mx: "length (io_view (cl_buffer c)) \<le> conf_maxRequestSize cf"
  then have "io_size (cl_buffer c) \<noteq> 0" by (simp flip: len)
  from fail(2) [OF this] obtain b2 where b2: "io_finalizeBuffer M off (- 1) (b1, m1) = Some (b2, m1)"
      "io_view b2 = butlast (io_view (cl_buffer c))" "io_size b2 = io_size (cl_buffer c) - 1" by blast
  have "io_size b2 \<le> conf_maxRequestSize cf" using b2(3) mx len by simp
  then have "client_Read cf e fd (ReadError eagain) s =
           client_Worker e fd (c\<lparr>cl_buffer := b2, cl_timer := now32 e\<rparr>)
             (s\<lparr>al_mm := m1, al_clients := sa_assign fd (c\<lparr>cl_buffer := b2, cl_timer := now32 e\<rparr>) (al_clients s)\<rparr>)"
    using f p assms(2) b2(1) by (simp add: client_Read_def io_provideBufferAtLeastStandardSize_def Let_def)
  then show "\<exists>b m. io_view b = butlast (io_view (cl_buffer c)) \<and>
         client_Read cf e fd (ReadError eagain) s =
           client_Worker e fd (c\<lparr>cl_buffer := b, cl_timer := now32 e\<rparr>)
             (s\<lparr>al_mm := m, al_clients := sa_assign fd (c\<lparr>cl_buffer := b, cl_timer := now32 e\<rparr>) (al_clients s)\<rparr>)"
    using b2(2) by blast
qed

end

section \<open>A conversation\<close>

text \<open>A request arrives in pieces, a reply leaves in pieces.\<close>

fun client_reads :: "Conf \<Rightarrow> u32 \<Rightarrow> (('l, 'm) Env \<times> str) list \<Rightarrow> ('l, 'm) AsyncLoop \<Rightarrow> ('l, 'm) AsyncLoop option" where
  "client_reads cf fd [] s = Some s"
| "client_reads cf fd ((e, d) # ds) s =
     (case client_Read cf e fd (Got d) s of None \<Rightarrow> None | Some s \<Rightarrow> client_reads cf fd ds s)"

fun client_writes :: "u32 \<Rightarrow> (('l, 'm) Env \<times> nat) list \<Rightarrow> ('l, 'm) AsyncLoop \<Rightarrow> str \<times> ('l, 'm) AsyncLoop" where
  "client_writes fd [] s = ([], s)"
| "client_writes fd ((e, n) # ns) s =
     (let (out, s) = client_Write e fd (Wrote n) s; (outs, s) = client_writes fd ns s in (out @ outs, s))"

definition watched :: "FDEvent \<Rightarrow> u32 \<Rightarrow> ('l, 'm) AsyncLoop \<Rightarrow> bool" where
  "watched ev fd s \<longleftrightarrow> (case sa_map (al_selector s) fd of None \<Rightarrow> False | Some it \<Rightarrow> pf_events it = event2native ev)"

definition env_uses ::
  "(int \<Rightarrow> int) \<Rightarrow> (str \<Rightarrow> 'l Entry option) \<Rightarrow> 'l list_ops \<Rightarrow> 'm mm_ops \<Rightarrow> ('l, 'm) Env \<Rightarrow> bool" where
  "env_uses ub others L M e \<longleftrightarrow>
     env_storage e = storageCommands ub others \<and> env_list e = L \<and> env_mm e = M"

context memory_manager
begin

text \<open>The reply goes out in any pieces, and then the loop reads again.\<close>

lemma writes_drain:
  assumes "al_inv cx_ok cf s" "sa_map (al_clients s) fd = Some c"
    and "list_all (\<lambda>(e, n). env_mm e = M \<and> 0 < n) ns" "sum_list (map snd ns) = length (io_view (cl_buffer c))" "ns \<noteq> []"
    and "client_writes fd ns s = (out, s')"
  shows "out = io_view (cl_buffer c) \<and> al_inv cx_ok cf s' \<and> al_worker s' = al_worker s \<and> watched EVREAD fd s' \<and>
    (\<exists>c'. sa_map (al_clients s') fd = Some c' \<and> io_view (cl_buffer c') = [])"
  using assms
proof (induction ns arbitrary: s c out)
  case (Cons x ns)
  obtain e n where x: "x = (e, n)" by fastforce
  let ?v = "io_view (cl_buffer c)"
  have n: "env_mm e = M" "0 < n" "n + sum_list (map snd ns) = length ?v" using Cons.prems(3,4) x by simp_all
  then have "?v \<noteq> []" by auto
  with Cons.prems(1) n(1) Cons.prems(2) n(2) show ?case
  proof (cases rule: write_some)
    case (1 b m)
    let ?c = "c\<lparr>cl_buffer := b, cl_timer := now32 e\<rparr>"
    let ?s = "s\<lparr>al_mm := m, al_clients := sa_assign fd ?c (al_clients s)\<rparr>"
    have i: "al_inv cx_ok cf ?s" using al_inv_buffer [OF Cons.prems(1)] 1(1) by simp
    have cs: "sa_map (al_clients ?s) fd = Some ?c"
      using sa_assign_spec(2) [of "al_clients s" fd ?c] Cons.prems(1,2) by (simp add: al_inv_def)
    show ?thesis
    proof (cases ns)
      case Nil
      then have b: "io_view b = []" using 1(2) n(3) by simp
      have "sa_map (al_selector s) fd \<noteq> None" using Cons.prems(1,2) by (auto simp: al_inv_def)
      then have "watched EVREAD fd (?s\<lparr>al_selector := snd (updateFD fd EVREAD (al_selector s))\<rparr>)"
        using updateFD_spec(3) [of "al_selector s" fd EVREAD] Cons.prems(1) by (auto simp: watched_def al_inv_def)
      moreover have "out = ?v" using Cons.prems(6) Nil x 1(3) n(3) by (auto simp: Let_def)
      ultimately show ?thesis
        using Cons.prems(6) Nil x 1(3) b cs al_inv_selector [OF i, of fd EVREAD] by (auto simp: Let_def)
    next
      case nonempty: (Cons y ys)
      have "0 < sum_list (map snd ns)" using Cons.prems(3) nonempty x by (cases y) auto
      then have b: "io_view b \<noteq> []" using 1(2) n(3) by auto
      obtain out' where o: "client_writes fd ns ?s = (out', s')" "out = take n ?v @ out'"
        using Cons.prems(6) x 1(3) b by (auto simp: Let_def split: prod.splits)
      have "list_all (\<lambda>(e, n). env_mm e = M \<and> 0 < n) ns" "sum_list (map snd ns) = length (io_view (cl_buffer ?c))"
        using Cons.prems(3) x 1(2) n(3) by auto
      from Cons.IH [OF i cs this _ o(1)] show ?thesis using o(2) 1(2) nonempty by simp
    qed
  qed
qed simp

end

context kv_server
begin

lemma size_served: "io_ok b \<Longrightarrow> cx_size (io_buffer b) = io_head b + length (io_view b)"
  using length_io_view [of b] cx_ok_wf by (auto simp: io_wf_def io_size_def)

text \<open>The last piece of a request.\<close>

lemma read_last:
  assumes "al_inv cx_ok cf s" "worker_ok (al_worker s)" "env_uses ub others L M e" "sa_map (al_clients s) fd = Some c"
    and "d \<noteq> []" "length d \<le> STANDARD_READ_SIZE" "io_view (cl_buffer c) @ d = wire_strings (params rq)"
      "length (wire_strings (params rq)) \<le> conf_maxRequestSize cf" "length (params rq) \<le> MAX_PARAMS"
    and "io_head (cl_buffer c) + length (wire_strings (params rq)) + STANDARD_READ_SIZE \<le> B" "resp_size r \<le> B"
    and "request_ok key_ok (env_now e) (kv (wk_db (al_worker s))) rq" "spec (env_now e) rq (kv (wk_db (al_worker s))) = (r, ws)"
  shows "\<exists>s'. client_Read cf e fd (Got d) s = Some s' \<and> al_inv cx_ok cf s' \<and> worker_ok (al_worker s') \<and>
    (\<not> mm_serves M B \<and> sa_map (al_clients s') fd = None \<or>
     writes ws (wk_db (al_worker s)) (wk_db (al_worker s')) \<and> watched EVWRITE fd s' \<and>
     (\<exists>c'. sa_map (al_clients s') fd = Some c' \<and> io_view (cl_buffer c') = wire r))"
proof -
  have e: "env_storage e = storageCommands ub others" "env_list e = L" "env_mm e = M" using assms(3) by (simp_all add: env_uses_def)
  have c: "io_ok (cl_buffer c)" using assms(1,4) by (auto simp: al_inv_def ran_def)
  from assms(1) e(3) assms(4) show ?thesis
  proof (cases rule: read_got [where d = d])
    case (nomem m)
    have i: "al_inv cx_ok cf (s\<lparr>al_mm := m, al_clients := sa_assign fd c (al_clients s)\<rparr>)" using al_inv_buffer [OF assms(1) c] .
    have "\<not> mm_serves M B" using nomem(1) [of B] size_served [OF c] assms(10) by (simp flip: assms(7))
    then show ?thesis using nomem(2) disconnect_spec(1-3) [OF i, of e fd] assms(2) by simp
  next
    case (ended b m)
    then show ?thesis using assms(5-8) by simp
  next
    case (work b m d')
    then have v: "io_view b = wire_strings (params rq) @ []" using assms(6,7) by simp
    let ?c = "c\<lparr>cl_buffer := b, cl_timer := now32 e\<rparr>"
    let ?s = "s\<lparr>al_mm := m, al_clients := sa_assign fd ?c (al_clients s)\<rparr>"
    have i: "al_inv cx_ok cf ?s" using al_inv_buffer [OF assms(1)] work(1) by simp
    obtain st w b' m' where k: "KeyValueWorker (env_atoi e) (storageCommands ub others) L M (env_now e) (al_worker s) (b, m) = Some (st, w, b', m')"
      "worker_ok w" "io_ok b'" "writes ws (wk_db (al_worker s)) (wk_db w)"
      "st = (if has_room r (al_worker s) m then WRITE else DISCONNECT_ERROR)" "has_room r (al_worker s) m \<Longrightarrow> io_view b' = wire r"
      using worker_answers [OF assms(2) work(1) assms(12,9) v assms(13)] by blast
    let ?s1 = "?s\<lparr>al_worker := w, al_mm := m', al_clients := sa_assign fd (?c\<lparr>cl_buffer := b'\<rparr>) (al_clients ?s)\<rparr>"
    have i1: "al_inv cx_ok cf ?s1" by (rule al_inv_client [OF i]) (use k(2,3) in \<open>simp_all add: worker_wf_def\<close>)
    have cs: "sa_map (al_clients ?s1) fd = Some (?c\<lparr>cl_buffer := b'\<rparr>)"
      using sa_assign_spec(2) [of "al_clients s" fd] assms(1,4) by (simp add: al_inv_def)
    have sel: "sa_map (al_selector s) fd \<noteq> None" "sa_inv (al_selector s)" using assms(1,4) by (auto simp: al_inv_def)
    show ?thesis
    proof (cases "has_room r (al_worker s) m")
      case True
      then have "client_Read cf e fd (Got d) s = Some (?s1\<lparr>al_selector := snd (updateFD fd EVWRITE (al_selector s))\<rparr>)"
        using work(5) k(1,5) e by (simp add: client_Worker_def)
      moreover have "watched EVWRITE fd (?s1\<lparr>al_selector := snd (updateFD fd EVWRITE (al_selector s))\<rparr>)"
        using updateFD_spec(3) [OF sel(2,1), of EVWRITE] by (auto simp: watched_def)
      ultimately show ?thesis using True k cs al_inv_selector [OF i1, of fd EVWRITE] by simp
    next
      case False
      then have "\<not> mm_serves M B" using assms(11) by (auto simp: mm_serves_def reply_room_def)
      moreover have "client_Read cf e fd (Got d) s = Some (client_Disconnect e fd ?s1)"
        using False work(5) k(1,5) e by (simp add: client_Worker_def)
      ultimately show ?thesis using disconnect_spec(1-3) [OF i1, of e fd] k(2) by simp
    qed
  qed
qed

text \<open>A piece before the last one.\<close>

lemma read_part:
  assumes "al_inv cx_ok cf s" "worker_ok (al_worker s)" "env_mm e = M" "sa_map (al_clients s) fd = Some c"
    and "d \<noteq> []" "length d \<le> STANDARD_READ_SIZE" "(io_view (cl_buffer c) @ d) @ x = wire_strings (params rq)" "x \<noteq> []"
      "length (wire_strings (params rq)) \<le> conf_maxRequestSize cf" "length (params rq) \<le> MAX_PARAMS"
    and "io_head (cl_buffer c) + length (wire_strings (params rq)) + STANDARD_READ_SIZE \<le> B" "request_ok key_ok now M0 rq"
  shows "\<exists>s'. client_Read cf e fd (Got d) s = Some s' \<and> al_inv cx_ok cf s' \<and> worker_ok (al_worker s') \<and>
    wk_db (al_worker s') = wk_db (al_worker s) \<and>
    (\<not> mm_serves M B \<and> sa_map (al_clients s') fd = None \<or>
     (\<exists>c'. sa_map (al_clients s') fd = Some c' \<and> io_view (cl_buffer c') = io_view (cl_buffer c) @ d \<and>
        io_head (cl_buffer c') = io_head (cl_buffer c)))"
proof -
  have c: "io_ok (cl_buffer c)" using assms(1,4) by (auto simp: al_inv_def ran_def)
  have len: "length (io_view (cl_buffer c) @ d) \<le> conf_maxRequestSize cf"
    using assms(9) by (simp flip: assms(7))
  from assms(1,3,4) show ?thesis
  proof (cases rule: read_got [where d = d])
    case (nomem m)
    have i: "al_inv cx_ok cf (s\<lparr>al_mm := m, al_clients := sa_assign fd c (al_clients s)\<rparr>)" using al_inv_buffer [OF assms(1) c] .
    have "\<not> mm_serves M B" using nomem(1) [of B] size_served [OF c] assms(11) by (simp flip: assms(7))
    then show ?thesis using nomem(2) disconnect_spec(1-3) [OF i, of e fd] assms(2) by simp
  next
    case (ended b m)
    then show ?thesis using assms(5,6) len by simp
  next
    case (work b m d')
    then have v: "io_view b @ x = wire_strings (params rq)" "d' = d" using assms(6,7) by simp_all
    let ?c = "c\<lparr>cl_buffer := b, cl_timer := now32 e\<rparr>"
    let ?s = "s\<lparr>al_mm := m, al_clients := sa_assign fd ?c (al_clients s)\<rparr>"
    have i: "al_inv cx_ok cf ?s" using al_inv_buffer [OF assms(1)] work(1) by simp
    obtain ps where k: "KeyValueWorker (env_atoi e) (env_storage e) (env_list e) M (env_now e) (al_worker s) (b, m) =
        Some (PASS, (al_worker s)\<lparr>wk_protocol := ps\<rparr>, b, m)"
      using worker_waits [OF work(1) assms(12,10) v(1) assms(8)] by blast
    let ?s1 = "?s\<lparr>al_worker := (al_worker s)\<lparr>wk_protocol := ps\<rparr>, al_mm := m, al_clients := sa_assign fd (?c\<lparr>cl_buffer := b\<rparr>) (al_clients ?s)\<rparr>"
    have "client_Read cf e fd (Got d) s = Some ?s1" using work(5) k assms(3) by (simp add: client_Worker_def)
    moreover have "al_inv cx_ok cf ?s1"
      by (rule al_inv_client [OF i]) (use work(1) assms(1) in \<open>simp_all add: al_inv_def\<close>)
    moreover have "sa_map (al_clients ?s1) fd = Some (?c\<lparr>cl_buffer := b\<rparr>)"
      using sa_assign_spec(2) [of "al_clients s" fd] assms(1,4) by (simp add: al_inv_def)
    ultimately show ?thesis using work(2,3) v(2) assms(2) by (simp add: worker_wf_def)
  qed
qed

lemma reads_none:
  "al_inv cx_ok cf s \<Longrightarrow> sa_map (al_clients s) fd = None \<Longrightarrow>
     \<exists>s'. client_reads cf fd ds s = Some s' \<and> al_inv cx_ok cf s' \<and> al_worker s' = al_worker s \<and> sa_map (al_clients s') fd = None"
proof (induction ds arbitrary: s)
  case (Cons x ds)
  obtain e d where x: "x = (e, d)" by fastforce
  have "sa_find (al_clients s) fd = None" using Cons.prems sa_find_map [of "al_clients s" fd] by (simp add: al_inv_def)
  then have "client_Read cf e fd (Got d) s = Some (client_Disconnect e fd s)" by (simp add: client_Read_def)
  then show ?case using Cons.IH [OF disconnect_spec(1) [OF Cons.prems(1)], of e fd] disconnect_spec(2,3) [OF Cons.prems(1), of e fd] x
    by simp
qed simp

theorem reads_answer:
  assumes "al_inv cx_ok cf s" "worker_ok (al_worker s)" "sa_map (al_clients s) fd = Some c"
    and "list_all (\<lambda>(e, d). env_uses ub others L M e \<and> d \<noteq> [] \<and> length d \<le> STANDARD_READ_SIZE) ds" "ds \<noteq> []"
    and "io_view (cl_buffer c) @ concat (map snd ds) = wire_strings (params rq)"
      "length (wire_strings (params rq)) \<le> conf_maxRequestSize cf" "length (params rq) \<le> MAX_PARAMS"
    and "io_head (cl_buffer c) + length (wire_strings (params rq)) + STANDARD_READ_SIZE \<le> B" "resp_size r \<le> B"
    and "now = env_now (fst (last ds))" "request_ok key_ok now (kv (wk_db (al_worker s))) rq"
      "spec now rq (kv (wk_db (al_worker s))) = (r, ws)"
  shows "\<exists>s'. client_reads cf fd ds s = Some s' \<and> al_inv cx_ok cf s' \<and> worker_ok (al_worker s') \<and>
    (\<not> mm_serves M B \<and> sa_map (al_clients s') fd = None \<or>
     writes ws (wk_db (al_worker s)) (wk_db (al_worker s')) \<and> watched EVWRITE fd s' \<and>
     (\<exists>c'. sa_map (al_clients s') fd = Some c' \<and> io_view (cl_buffer c') = wire r))"
  using assms
proof (induction ds arbitrary: s c)
  case (Cons x ds)
  obtain e d where x: "x = (e, d)" by fastforce
  have e: "env_uses ub others L M e" "env_mm e = M" "d \<noteq> []" "length d \<le> STANDARD_READ_SIZE"
    using Cons.prems(4) x by (simp_all add: env_uses_def)
  show ?case
  proof (cases "ds = []")
    case True
    have "io_view (cl_buffer c) @ d = wire_strings (params rq)" "now = env_now e" using Cons.prems(6,11) x True by simp_all
    then show ?thesis
      using read_last [OF Cons.prems(1,2) e(1) Cons.prems(3) e(3,4) _ Cons.prems(7-10)] Cons.prems(12,13) x True by fastforce
  next
    case False
    let ?x = "concat (map snd ds)"
    have v: "(io_view (cl_buffer c) @ d) @ ?x = wire_strings (params rq)" using Cons.prems(6) x by simp
    have ds: "list_all (\<lambda>(e, d). env_uses ub others L M e \<and> d \<noteq> [] \<and> length d \<le> STANDARD_READ_SIZE) ds" using Cons.prems(4) by simp
    then have "?x \<noteq> []" using False by (cases ds) auto
    from read_part [OF Cons.prems(1,2) e(2) Cons.prems(3) e(3,4) v this Cons.prems(7,8,9,12)]
    obtain s1 where s1: "client_Read cf e fd (Got d) s = Some s1" "al_inv cx_ok cf s1" "worker_ok (al_worker s1)"
        "wk_db (al_worker s1) = wk_db (al_worker s)"
      and cases: "\<not> mm_serves M B \<and> sa_map (al_clients s1) fd = None \<or>
        (\<exists>c'. sa_map (al_clients s1) fd = Some c' \<and> io_view (cl_buffer c') = io_view (cl_buffer c) @ d \<and>
          io_head (cl_buffer c') = io_head (cl_buffer c))" by blast
    from cases show ?thesis
    proof
      assume n: "\<not> mm_serves M B \<and> sa_map (al_clients s1) fd = None"
      then show ?thesis using reads_none [OF s1(2), of fd ds] s1(1,3) x by auto
    next
      assume "\<exists>c'. sa_map (al_clients s1) fd = Some c' \<and> io_view (cl_buffer c') = io_view (cl_buffer c) @ d \<and>
          io_head (cl_buffer c') = io_head (cl_buffer c)"
      then obtain c' where c': "sa_map (al_clients s1) fd = Some c'" "io_view (cl_buffer c') = io_view (cl_buffer c) @ d"
          "io_head (cl_buffer c') = io_head (cl_buffer c)" by blast
      have "io_view (cl_buffer c') @ concat (map snd ds) = wire_strings (params rq)" using c'(2) v by simp
      from Cons.IH [OF s1(2,3) c'(1) ds False this Cons.prems(7,8) _ Cons.prems(10)] show ?thesis
        using Cons.prems(9,11-13) c'(3) s1(1,4) x False by simp
    qed
  qed
qed simp

end

end
