(* ===== verification/Server.thy ===== *)
theory Server
  imports AsyncSpec KvMemory
begin

text \<open>
  The server as \<^verbatim>\<open>db_net\<close> builds it: the commands on a skip list in an arena, the worker, the buffers and
  the loop.  The contracts of the list and of the memory manager meet in the locale \<open>kv_server\<close>, which is
  interpreted here on the skip list and the tiered manager; the conversation is stated for any
  memory manager that keeps its contract.
\<close>

section \<open>A sequence of requests\<close>

fun cmd_run :: "(int \<Rightarrow> int) \<Rightarrow> 'l list_ops \<Rightarrow> (u64 \<times> Request) list \<Rightarrow> 'l \<Rightarrow> Response list \<times> 'l" where
  "cmd_run ub L [] l = ([], l)"
| "cmd_run ub L ((now, rq) # rqs) l =
     (let (r, l) = command_of ub rq L now (params rq) l; (rs, l) = cmd_run ub L rqs l in (r # rs, l))"

text \<open>The same on the map, with the number of the writes.\<close>

fun spec_run :: "(u64 \<times> Request) list \<Rightarrow> kv \<Rightarrow> Response list \<times> nat \<times> kv" where
  "spec_run [] M = ([], 0, M)"
| "spec_run ((now, rq) # rqs) M =
     (let (r, ws) = spec now rq M; (rs, n, M) = spec_run rqs (apply_writes ws M) in (r # rs, n + length ws, M))"

fun requests_ok :: "(str \<Rightarrow> bool) \<Rightarrow> (u64 \<times> Request) list \<Rightarrow> kv \<Rightarrow> bool" where
  "requests_ok key_ok [] M = True"
| "requests_ok key_ok ((now, rq) # rqs) M \<longleftrightarrow>
     request_ok key_ok now M rq \<and> requests_ok key_ok rqs (apply_writes (snd (spec now rq M)) M)"

context kv_list
begin

lemma command_writes:
  assumes "inv l" "request_ok key_ok now (kv l) rq" "spec now rq (kv l) = (r, ws)"
  obtains l' where "command_of ub rq L now (params rq) l = (r, l')" "writes ws l l'"
  using command_implements [OF assms(1,2), of ub] assms(3)
  by (cases "command_of ub rq L now (params rq) l") auto

lemma run_implements:
  "inv l \<Longrightarrow> requests_ok key_ok rqs (kv l) \<Longrightarrow> spec_run rqs (kv l) = (rs, n, M') \<Longrightarrow> room n l \<Longrightarrow>
     \<exists>l'. cmd_run ub L rqs l = (rs, l') \<and> inv l' \<and> kv l' = M'"
proof (induction rqs arbitrary: l rs n)
  case (Cons x rqs)
  obtain now rq where x: "x = (now, rq)" by fastforce
  obtain r ws where s: "spec now rq (kv l) = (r, ws)" by fastforce
  obtain rs' n' where t: "spec_run rqs (apply_writes ws (kv l)) = (rs', n', M')" "rs = r # rs'" "n = n' + length ws"
    using Cons.prems(3) x s by (auto split: prod.splits)
  have rq: "request_ok key_ok now (kv l) rq" "requests_ok key_ok rqs (apply_writes ws (kv l))" using Cons.prems(2) x s by simp_all
  from command_writes [OF Cons.prems(1) rq(1) s, of ub]
  obtain l1 where c: "command_of ub rq L now (params rq) l = (r, l1)" "writes ws l l1" .
  have l1: "inv l1" "kv l1 = apply_writes ws (kv l)" "room n' l1"
    using c(2) Cons.prems(4) t(3) unfolding kv_wrote_def by blast+
  from Cons.IH [OF l1(1) _ _ l1(3)] rq(2) t(1) l1(2) obtain l' where "cmd_run ub L rqs l1 = (rs', l')" "inv l'" "kv l' = M'" by auto
  then show ?case using x c(1) t(2) by simp
qed auto

end

section \<open>The server\<close>

interpretation srv: kv_server "sk_ops arena_ops R" sk_arena_inv nul_free sk_arena_room "tm_ops raw" tm_cx_ok for R raw
  by unfold_locales

lemma skip_list_server:
  "memory_manager M cx_ok \<Longrightarrow> kv_server (sk_ops arena_ops R) sk_arena_inv nul_free sk_arena_room M cx_ok"
  by (intro kv_server.intro ska.kv_list_axioms)

lemma sk_arena_empty_map: "arena_inv8 a \<Longrightarrow> kv_map (sk_ops arena_ops R) nul_free (sk_empty a) = Map.empty"
  using ska.kv_lookup [OF sk_arena_inv_empty, of a R] sk_inv_empty(2) [of a] by (simp add: fun_eq_iff)

section \<open>Properties\<close>

text \<open>A concrete server: a large arena, a heap that always has memory, one descriptor that listens.\<close>

definition arena_big :: ArenaAllocator where
  "arena_big = \<lparr>arena_data = 4096, arena_size = 0x100000000000, arena_pos = 0\<rparr>"

definition free_heap :: "unit realloc_ops" where
  "free_heap =
     \<lparr>realloc = (\<lambda>p mem n h. (if n < 2 ^ 63 then Some (8, take n mem @ replicate (n - length mem) 0) else None, h)),
      rfree = (\<lambda>p h. h)\<rparr>"

definition one_env :: "'m mm_ops \<Rightarrow> u64 \<Rightarrow> (ArenaAllocator SkipList, 'm) Env" where
  "one_env M now = \<lparr>env_atoi = (\<lambda>n. 0), env_storage = storageCommands id (\<lambda>name. None),
     env_list = sk_ops arena_ops \<lparr>rand64 = (\<lambda>i. 0), clz0 = 0\<rparr>, env_mm = M, env_now = now\<rparr>"

definition free_env :: "u64 \<Rightarrow> (ArenaAllocator SkipList, unit) Env" where
  "free_env now = one_env (simple_ops free_heap) now"

definition one_conf :: Conf where
  "one_conf = al_conf 10 30 4096 4096"

definition one_loop :: "(ArenaAllocator SkipList, unit) AsyncLoop" where
  "one_loop = client_Connect one_conf (free_env 1) 5
     (al_new one_conf 8 (sa_new 8 8) [3] \<lparr>wk_protocol = [], wk_db = sk_empty arena_big, wk_system_buffer = io_new\<rparr> ())"

lemma arena_big_ok: "arena_inv8 arena_big"
  by (simp add: arena_big_def arena_inv8_def arena_inv_def)

lemma free_heap_manager: "memory_manager (simple_ops free_heap) simple_cx_ok"
  by (rule simple_memory_manager) (auto simp: realloc_spec_def free_heap_def min_def split: if_splits)

lemma free_heap_serves: "mm_serves (simple_ops free_heap) (2 ^ 62)"
  by (auto simp: mm_serves_def simple_ops_def simple_allocate_def free_heap_def)

lemma one_loop_inv: "al_inv simple_cx_ok one_conf one_loop"
proof -
  have "simple_cx_ok cx_clear" by (simp add: simple_cx_ok_def cx_wf_def cx_clear_def)
  then show ?thesis unfolding one_loop_def
    by (intro connect_inv al_inv_new) (simp_all add: io_wf_def io_new_def)
qed

lemma one_loop_client: "sa_map (al_clients one_loop) 5 = Some \<lparr>cl_buffer = io_new, cl_timer = now32 (free_env 1)\<rparr>"
  by (simp add: one_loop_def client_Connect_def al_insertFD_def insertFD_def al_new_def one_conf_def al_conf_def MIN_CLIENTS_def
      sa_new_def sa_insert_def sa_size_def sa_domain_def sa_map_def sa_MAX_SIZE_def)

lemma one_loop_fields: "wk_db (al_worker one_loop) = sk_empty arena_big" "al_mm one_loop = ()"
  by (simp_all add: one_loop_def client_Connect_def al_insertFD_def al_new_def Let_def split: prod.split)

lemma big_room: "n \<le> 1000 \<Longrightarrow> sk_arena_room n (sk_empty arena_big)"
  by (simp add: sk_arena_room_def sk_empty_def arena_big_def sk_write_max_def maxBytes_value)

text \<open>
  C5: the commands mean operations on a map.  On a skip list in an arena a command, given the parameters of a
  request of the datatype \<open>Request\<close>, answers what the request means on the map of the list, and
  leaves a list whose map has the writes of the request: all of them, in their order, when the arena has room
  for them, else some of them, although the answer is the same.  The requests are those of GET, MGET, EXISTS,
  TTL, EXPIRETIME, SIZEOF, STRLEN, GETRANGE, HGET, HMGET, HEXISTS, SET, MSET, MSETNX, SETEX, HSET, HMSET,
  SETNX, SETXX, DEL, HDEL, APPEND, EXPIRE, EXPIREAT, PERSIST, GETSET, GETDEL, GETEX, GETEXAT, GETPERSIST, CAS,
  CAD, COPY, COPYNX, RENAME, RENAMENX, INCR, DECR, INCRLIMIT, DECRLIMIT, INCRTO and DECRTO; MSETXX, DUMP and
  PERSISTDELETED are not among them.  They are well formed (\<open>request_ok\<close>): keys and values have
  valid sizes (CAS and CAD with values that are not empty, APPEND with a sum that is valid), keys have no zero
  byte among their first eight characters, groups are not empty, numbers fit 64 bits; the amount of INCRLIMIT
  and DECRLIMIT is positive, that of DECR is not the least 64 bit number, and GETRANGE does not ask for 0 to
  18446744073709551615, where the length wraps around.  The clock does not move during a command.  The meaning
  is that of the code, which differs from \<^verbatim>\<open>commands_docs/commands_mutable.php\<close> in
  that APPEND answers the new length and SETXX answers 1 when it has set the key.
\<close>

theorem commands_refine_map:
  assumes "sk_arena_inv l" "request_ok nul_free now (kv_map (sk_ops arena_ops R) nul_free l) rq"
    and "spec now rq (kv_map (sk_ops arena_ops R) nul_free l) = (r, ws)"
  shows "\<exists>l'. command_of ub rq (sk_ops arena_ops R) now (params rq) l = (r, l') \<and> sk_arena_inv l' \<and>
    (\<exists>done. subseq done ws \<and>
       kv_map (sk_ops arena_ops R) nul_free l' = apply_writes done (kv_map (sk_ops arena_ops R) nul_free l) \<and>
       (sk_arena_room (length ws) l \<longrightarrow> done = ws))"
  using ska.command_writes [OF assms, of ub] unfolding kv_wrote_def by (metis add_0)

theorem commands_refine_map_witness:
  "\<exists>l'. command_of id (Set [98] [1, 2] None) (sk_ops arena_ops \<lparr>rand64 = (\<lambda>i. 0), clz0 = 0\<rparr>) 7 (params (Set [98] [1, 2] None)) (sk_empty arena_big) =
      (RespOK, l') \<and>
    kv_map (sk_ops arena_ops \<lparr>rand64 = (\<lambda>i. 0), clz0 = 0\<rparr>) nul_free l' = [[98] \<mapsto> \<lparr>reg_created = 7, reg_val = [1, 2], reg_expires = 0\<rparr>]"
proof -
  let ?R = "\<lparr>rand64 = (\<lambda>i. 0), clz0 = 0\<rparr>"
  have "request_ok nul_free 7 (kv_map (sk_ops arena_ops ?R) nul_free (sk_empty arena_big)) (Set [98] [1, 2] None)"
    by (simp add: key_good_def nul_free_def eval_simps)
  then show ?thesis
    using commands_refine_map [OF sk_arena_inv_empty [OF arena_big_ok], of 7 ?R "Set [98] [1, 2] None" RespOK _ id] sk_arena_empty_map [OF arena_big_ok, of ?R] big_room [of 1]
    by (auto simp: put_def mk_reg_def exp_of_def EXPIRES_TOMBSTONE_def)
qed

text \<open>
  C4: any sequence of well formed requests is answered as the map answers it.  On a skip list in an arena with
  room for all the writes, the responses are those of the requests on the map, one after the other at their
  times, and the map of the list at the end is the map that they leave.  Each request is one of the datatype
  \<open>Request\<close> (not MSETXX, DUMP or PERSISTDELETED) and satisfies \<open>request_ok\<close> on the
  map that it meets: valid sizes of keys and values, no zero byte among the first eight characters of a key,
  no empty group, numbers of 64 bits, a positive amount for INCRLIMIT and DECRLIMIT, not the least 64 bit
  number for DECR, not the range 0 to 18446744073709551615 for GETRANGE.  The clock does not move during a
  command.  APPEND answers the new length and SETXX answers 1 when it has set the key, as in the code and
  unlike \<^verbatim>\<open>commands_docs/commands_mutable.php\<close>.
\<close>

theorem command_sequence_refines_map:
  assumes "sk_arena_inv l" "requests_ok nul_free rqs (kv_map (sk_ops arena_ops R) nul_free l)"
    and "spec_run rqs (kv_map (sk_ops arena_ops R) nul_free l) = (rs, n, M')" "sk_arena_room n l"
  shows "\<exists>l'. cmd_run ub (sk_ops arena_ops R) rqs l = (rs, l') \<and> sk_arena_inv l' \<and>
    kv_map (sk_ops arena_ops R) nul_free l' = M'"
  using ska.run_implements [OF assms] .

theorem command_sequence_refines_map_witness:
  "fst (cmd_run id (sk_ops arena_ops \<lparr>rand64 = (\<lambda>i. 0), clz0 = 0\<rparr>)
     [(7, Set [98] [49] None), (8, SetNX [98] [50] None), (8, Append [98] [51]), (9, Get [98]), (10, Del [[98]]), (11, Exists [98])] (sk_empty arena_big)) =
   [RespOK, RespBool False, RespNumberU64 2, RespString [49, 51], set_1, RespBool False]"
proof -
  let ?R = "\<lparr>rand64 = (\<lambda>i. 0), clz0 = 0\<rparr>"
  let ?rqs = "[(7, Set [98] [49] None), (8, SetNX [98] [50] None), (8, Append [98] [51]), (9, Get [98]), (10, Del [[98]]), (11, Exists [98])] :: (u64 \<times> Request) list"
  let ?M = "kv_map (sk_ops arena_ops ?R) nul_free (sk_empty arena_big)"
  have M: "?M = Map.empty" by (rule sk_arena_empty_map [OF arena_big_ok])
  have "requests_ok nul_free ?rqs ?M" unfolding M
    by (simp add: key_good_def nul_free_def eval_simps put_def val_of_def live_def mk_reg_def reg_ok_def exp_of_def EXPIRES_TOMBSTONE_def)
  moreover have "spec_run ?rqs ?M = ([RespOK, RespBool False, RespNumberU64 2, RespString [49, 51], set_1, RespBool False], 3, Map.empty)" unfolding M
    by (simp add: put_def live_def mk_reg_def val_of_def reg_ok_def exp_of_def EXPIRES_TOMBSTONE_def)
  ultimately show ?thesis using big_room [of 3] command_sequence_refines_map [OF sk_arena_inv_empty [OF arena_big_ok], of ?rqs ?R _ _ _ id] by fastforce
qed

text \<open>
  C3: a client of the server gets the answer to its request.  The loop is in order (\<open>al_inv\<close>),
  and its memory manager keeps its contract.  The request, one of the datatype \<open>Request\<close> that
  satisfies \<open>request_ok\<close> (valid sizes, keys without a zero byte among their first eight
  characters, and the limits on DECR, INCRLIMIT, DECRLIMIT and GETRANGE), may arrive in any pieces of 1 to
  4096 bytes and the reply may leave in any pieces: the bytes that the client reads are the encoding of the
  response that the request has on the map of the list, and the loop waits for the next request.  The writes
  of the request are in the list when the arena has room for all of them; the answer is the same when it has
  not.  The request on the wire is not larger than the configured maximum, beyond which the loop disconnects,
  has no more parameters than the protocol reads, and is alone: nothing follows it before the reply has left.
  Under these conditions the only other outcome is a disconnect, when the memory manager refuses a block that
  is not larger than the request with one read or the reply.  APPEND answers the new length and SETXX answers
  1 when it has set the key, as in the code and unlike
  \<^verbatim>\<open>commands_docs/commands_mutable.php\<close>.
\<close>

theorem server_answers_requests:
  assumes "memory_manager M cx_ok" "al_inv cx_ok cf s" "sk_arena_inv (wk_db (al_worker s))" "sa_map (al_clients s) fd = Some c"
    and "list_all (\<lambda>(e, d). env_uses ub others (sk_ops arena_ops R) M e \<and> d \<noteq> [] \<and> length d \<le> STANDARD_READ_SIZE) ds" "ds \<noteq> []"
    and "io_view (cl_buffer c) @ concat (map snd ds) = wire_strings (params rq)"
      "length (wire_strings (params rq)) \<le> conf_maxRequestSize cf" "length (params rq) \<le> MAX_PARAMS"
    and "io_head (cl_buffer c) + length (wire_strings (params rq)) + STANDARD_READ_SIZE \<le> B" "resp_size r \<le> B"
    and "now = env_now (fst (last ds))" "request_ok nul_free now (kv_map (sk_ops arena_ops R) nul_free (wk_db (al_worker s))) rq"
      "spec now rq (kv_map (sk_ops arena_ops R) nul_free (wk_db (al_worker s))) = (r, ws)"
    and "list_all (\<lambda>(e, n). env_mm e = M \<and> 0 < n) ns" "sum_list (map snd ns) = length (wire r)" "ns \<noteq> []"
  shows "\<exists>s1. client_reads cf fd ds s = Some s1 \<and>
    (\<not> mm_serves M B \<and> sa_map (al_clients s1) fd = None \<or>
     (\<exists>s2. client_writes fd ns s1 = (wire r, s2) \<and> al_inv cx_ok cf s2 \<and> watched EVREAD fd s2 \<and>
       sk_arena_inv (wk_db (al_worker s2)) \<and>
       (sk_arena_room (length ws) (wk_db (al_worker s)) \<longrightarrow>
          kv_map (sk_ops arena_ops R) nul_free (wk_db (al_worker s2)) =
            apply_writes ws (kv_map (sk_ops arena_ops R) nul_free (wk_db (al_worker s))))))"
proof -
  let ?kv = "kv_map (sk_ops arena_ops R) nul_free" and ?W = "kv_wrote sk_arena_inv (kv_map (sk_ops arena_ops R) nul_free) sk_arena_room"
  have w: "worker_wf sk_arena_inv cx_ok (al_worker s)" using assms(2,3) by (simp add: worker_wf_def al_inv_def)
  from kv_server.reads_answer [OF skip_list_server [OF assms(1)] assms(2) w assms(4-14)]
  obtain s1 where r: "client_reads cf fd ds s = Some s1" "al_inv cx_ok cf s1"
    and o: "\<not> mm_serves M B \<and> sa_map (al_clients s1) fd = None \<or> ?W ws (wk_db (al_worker s)) (wk_db (al_worker s1)) \<and>
      (\<exists>c'. sa_map (al_clients s1) fd = Some c' \<and> io_view (cl_buffer c') = wire r)" by blast
  show ?thesis
  proof (cases "\<not> mm_serves M B \<and> sa_map (al_clients s1) fd = None")
    case False
    with o obtain c' where c': "?W ws (wk_db (al_worker s)) (wk_db (al_worker s1))"
      "sa_map (al_clients s1) fd = Some c'" "io_view (cl_buffer c') = wire r" by blast
    obtain out s2 where w2: "client_writes fd ns s1 = (out, s2)" by fastforce
    have "sum_list (map snd ns) = length (io_view (cl_buffer c'))" using assms(16) c'(3) by simp
    from memory_manager.writes_drain [OF assms(1) r(2) c'(2) assms(15) this assms(17) w2]
    have d: "out = wire r" "al_inv cx_ok cf s2" "al_worker s2 = al_worker s1" "watched EVREAD fd s2" using c'(3) by simp_all
    have "sk_arena_inv (wk_db (al_worker s1))" "sk_arena_room (length ws) (wk_db (al_worker s)) \<longrightarrow>
        ?kv (wk_db (al_worker s1)) = apply_writes ws (?kv (wk_db (al_worker s)))"
      using c'(1) unfolding kv_wrote_def by (metis add_0)+
    then show ?thesis using r(1) w2 d by auto
  qed (use r in blast)
qed

theorem server_answers_requests_witness:
  "\<exists>s1 s2. client_reads one_conf 5
      [(free_env 1, take 9 (wire_strings (params (Set [98] [1, 2] None)))), (free_env 2, drop 9 (wire_strings (params (Set [98] [1, 2] None))))]
      one_loop = Some s1 \<and>
    client_writes 5 [(free_env 2, 3), (free_env 3, 2)] s1 = (wire RespOK, s2) \<and> watched EVREAD 5 s2 \<and>
    kv_map (sk_ops arena_ops \<lparr>rand64 = (\<lambda>i. 0), clz0 = 0\<rparr>) nul_free (wk_db (al_worker s2)) =
      [[98] \<mapsto> \<lparr>reg_created = 2, reg_val = [1, 2], reg_expires = 0\<rparr>]"
proof -
  let ?R = "\<lparr>rand64 = (\<lambda>i. 0), clz0 = 0\<rparr>" and ?rq = "Set [98] [1, 2] None"
  let ?W = "wire_strings (params ?rq)"
  let ?ds = "[(free_env 1, take 9 ?W), (free_env 2, drop 9 ?W)]" and ?ns = "[(free_env 2, 3), (free_env 3, 2)] :: ((ArenaAllocator SkipList, unit) Env \<times> nat) list"
  let ?c = "\<lparr>cl_buffer = io_new, cl_timer = now32 (free_env 1)\<rparr>"
  have W: "length ?W = 28" "length (wire RespOK) = 5" "resp_size RespOK \<le> 64" by code_simp+
  have M: "kv_map (sk_ops arena_ops ?R) nul_free (wk_db (al_worker one_loop)) = Map.empty"
    using sk_arena_empty_map [OF arena_big_ok] by (simp add: one_loop_fields)
  have e: "env_uses id (\<lambda>name. None) (sk_ops arena_ops ?R) (simple_ops free_heap) (free_env t)" "env_now (free_env t) = t" for t
    by (simp_all add: env_uses_def free_env_def one_env_def)
  have ds: "list_all (\<lambda>(e, d). env_uses id (\<lambda>name. None) (sk_ops arena_ops ?R) (simple_ops free_heap) e \<and> d \<noteq> [] \<and> length d \<le> STANDARD_READ_SIZE) ?ds"
    using W(1) e(1) by (auto simp: STANDARD_READ_SIZE_def)
  have ns: "list_all (\<lambda>(e, n). env_mm e = simple_ops free_heap \<and> 0 < n) ?ns" "sum_list (map snd ?ns) = length (wire RespOK)"
    using e(1) W(2) by (simp_all add: env_uses_def)
  have sz: "length ?W \<le> conf_maxRequestSize one_conf" "length (params ?rq) \<le> MAX_PARAMS"
      "io_head (cl_buffer ?c) + length ?W + STANDARD_READ_SIZE \<le> 2 ^ 62" "resp_size RespOK \<le> 2 ^ 62"
    using W(1,3) by (simp_all add: one_conf_def al_conf_def MAX_PARAMS_def io_new_def STANDARD_READ_SIZE_def opt_def)
  have rq: "request_ok nul_free 2 (kv_map (sk_ops arena_ops ?R) nul_free (wk_db (al_worker one_loop))) ?rq"
    by (simp add: key_good_def nul_free_def eval_simps)
  have "spec 2 ?rq (kv_map (sk_ops arena_ops ?R) nul_free (wk_db (al_worker one_loop))) = (RespOK, [put 2 [98] [1, 2] 0])" by (simp add: exp_of_def)
  from server_answers_requests [OF free_heap_manager one_loop_inv _ one_loop_client ds _ _ sz _ rq this ns]
  show ?thesis using free_heap_serves sk_arena_inv_empty [OF arena_big_ok] M big_room e(2)
    by (simp add: one_loop_fields put_def mk_reg_def io_view_def io_new_def cx_clear_def exp_of_def EXPIRES_TOMBSTONE_def) blast
qed

text \<open>
  C6: the loop keeps its state in order.  Whatever the network does, except for a \<open>read\<close> that
  fails, and whatever the clients send: after every run of the loop that is not aborted the buffers of all
  clients and of the worker are well formed, there are no more clients than configured, and every client is
  watched.
\<close>

theorem server_loop_invariant:
  assumes "io_wf tm_cx_ok (wk_system_buffer w)"
    and "list_all (\<lambda>(e, ev). env_mm e = tm_ops raw \<and> (\<forall>fd b. ev \<noteq> Readable fd (ReadError b))) evs"
    and "al_run cf evs (al_new cf rlimit (sa_new rlimit maxClients) servers w m) = Some (outs, s)"
  shows "al_inv tm_cx_ok cf s"
  using tm.run_inv [OF al_inv_new [OF assms(1)] assms(2,3)] .

theorem server_loop_invariant_witness:
  "\<exists>outs s. al_run one_conf
      [(one_env (tm_ops (\<lambda>p. 0)) 1, Accepted 3 [5, 6]), (one_env (tm_ops (\<lambda>p. 0)) 2, Failed 5)]
      (al_new one_conf 8 (sa_new 8 8) [3] \<lparr>wk_protocol = [], wk_db = sk_empty arena_big, wk_system_buffer = io_new\<rparr> \<lparr>tm_slabs = []\<rparr>) =
    Some (outs, s) \<and> al_inv tm_cx_ok one_conf s"
proof -
  let ?e = "\<lambda>t. one_env (tm_ops (\<lambda>p. 0)) t"
  let ?w = "\<lparr>wk_protocol = [], wk_db = sk_empty arena_big, wk_system_buffer = io_new\<rparr>"
  have w: "io_wf tm_cx_ok (wk_system_buffer ?w)" by (simp add: io_wf_def io_new_def tm.cx_ok_clear)
  show ?thesis
    using server_loop_invariant [OF w, of "\<lambda>p. 0" "[(?e 1, Accepted 3 [5, 6]), (?e 2, Failed 5)]" one_conf 8 8 "[3]" "\<lparr>tm_slabs = []\<rparr>"]
    by (simp add: isServerFD_def al_new_def one_env_def)
qed

text \<open>
  C37: a \<open>read\<close> that fails is not seen.  The loop takes its result for a size: with an empty
  buffer the assertion in the buffer fails and the server stops; otherwise the request loses its last byte,
  the client stays connected, and the worker runs on what is left.
\<close>

theorem read_error_stops_server:
  assumes "memory_manager M cx_ok" "al_inv cx_ok cf s" "env_mm e = M" "sa_map (al_clients s) fd = Some c"
    and "fst (io_provideBufferAtLeastStandardSize M (cl_buffer c, al_mm s)) \<noteq> None"
  shows "(io_view (cl_buffer c) = [] \<longrightarrow> client_Read cf e fd (ReadError eagain) s = None) \<and>
    (io_view (cl_buffer c) \<noteq> [] \<and> length (io_view (cl_buffer c)) \<le> conf_maxRequestSize cf \<longrightarrow>
       (\<exists>b m. io_view b = butlast (io_view (cl_buffer c)) \<and>
         client_Read cf e fd (ReadError eagain) s =
           client_Worker e fd (c\<lparr>cl_buffer := b, cl_timer := now32 e\<rparr>)
             (s\<lparr>al_mm := m, al_clients := sa_assign fd (c\<lparr>cl_buffer := b, cl_timer := now32 e\<rparr>) (al_clients s)\<rparr>)))"
  using memory_manager.read_error [OF assms] by blast

theorem read_error_stops_server_witness: "client_Read one_conf (free_env 2) 5 (ReadError True) one_loop = None"
proof -
  have "fst (io_provideBufferAtLeastStandardSize (simple_ops free_heap) (io_new, ())) \<noteq> None"
    using provide_served [OF free_heap_serves, of io_new STANDARD_READ_SIZE "()"]
    by (simp add: io_provideBufferAtLeastStandardSize_def io_new_def cx_clear_def STANDARD_READ_SIZE_def)
  then show ?thesis
    using read_error_stops_server [OF free_heap_manager one_loop_inv, of "free_env 2" 5] one_loop_client one_loop_fields(2)
    by (simp add: free_env_def one_env_def io_view_def io_new_def cx_clear_def)
qed

end
