(* ===== verification/Spec2Isabelle.thy ===== *)
theory Spec2Isabelle
  imports BinLogList FlushMemory FileWriter RingBuffer MisraGries HeavyHitter CuckooFilter Server
begin

text \<open>
  \<^bold>\<open>HM4, a log structured merge tree store.\<close>  A database is a list in memory in front of tables on
  disk.  A write goes through a factory into the memory list and into a binary log; when the memory is
  used up the list is written out as a new sorted table and cleared; a read asks the memory list and
  the tables and takes the newest pair of a key, by creation time; a deletion writes a tombstone; after
  a crash the log is replayed.

  \<^bold>\<open>Basic data.\<close>
  \<^item> \<open>Prelude\<close>: the types \<open>u8\<close> to \<open>u64\<close>, \<open>str\<close> (bytes), the signs of comparisons, words and lists.
  \<^item> \<open>Endian\<close>: \<^verbatim>\<open>include/mybyteswap.h\<close>, \<^verbatim>\<open>include/myendian.h\<close>.  Conversions undo each other and keep
    the order of byte strings.
  \<^item> \<open>MyString\<close>: \<^verbatim>\<open>include/mystring.h\<close>, \<^verbatim>\<open>include/comparator.h\<close>; \<open>CmpLCP\<close>: \<^verbatim>\<open>include/cmplcp.h\<close>, the
    comparison that also gives the common prefix; \<open>StringHash\<close>: \<^verbatim>\<open>include/stringhash.h\<close>, the packed
    first eight characters of a key.
  \<^item> \<open>MyTime\<close>: the clock arithmetic of \<^verbatim>\<open>common/mytime.h\<close>; the clock itself is an argument.
  \<^item> \<open>Pair\<close>, \<open>PairFactory\<close>, \<open>HPair\<close>: the packed record of \<^verbatim>\<open>hm4/pair.h\<close> as a record of big endian
    fields and a buffer, its factories (\<open>Normal\<close>, \<open>Expires\<close>, \<open>Tombstone\<close>, \<open>Clone\<close>, \<open>Reserve\<close>),
    creation in raw memory and in place, and the comparison by packed key of \<^verbatim>\<open>hm4/hpair.h\<close>.
  \<^item> \<open>Allocator\<close>: \<^verbatim>\<open>myallocator/\<close>.  Blocks of an arena are inside its buffer and disjoint.

  \<^bold>\<open>Lists in memory.\<close>
  \<^item> \<open>IList\<close>: results, counters and the rules of replacement of \<^verbatim>\<open>hm4/ilist.h\<close>.
  \<^item> \<open>Memlist\<close>: the interface of a list in memory as a locale, with what insertion, deletion and
    lookup promise, and what follows for any sequence of operations (contents, counters, a last
    writer wins register per key).
  \<^item> \<open>BinarySearch\<close>, \<open>VectorList\<close>, \<open>LinkList\<close>, \<open>SkipList\<close>: \<^verbatim>\<open>include/binarysearch.h\<close>, \<^verbatim>\<open>hm4/vectorlist.cc\<close>,
    \<^verbatim>\<open>hm4/linklist.cc\<close>, \<^verbatim>\<open>hm4/skiplist.cc\<close>; the lists are interpretations of the interface.  The skip list is
    modelled with its pointers in a store, and a dangling pointer, a missing lane or a walk in a circle
    has no result.

  \<^bold>\<open>Composition.\<close>
  \<^item> \<open>MultiIterator\<close>, \<open>MultiList\<close>: the merging iterators and the dual and collection lists of
    \<^verbatim>\<open>hm4/multi/\<close>.  \<open>std::make_heap\<close> is any choice of a least element.  The properties of the dual list are for
    a collection of lists in memory, read with the generic best pair helper; \<open>DiskList\<close> has the lookup of tables on
    disk, which skips tables by a wrong creation time.
  \<^item> \<open>FlushList\<close>: \<^verbatim>\<open>hm4/flushlist.h\<close>, \<^verbatim>\<open>hm4/flushlistbase.h\<close>, \<^verbatim>\<open>hm4/flusher/\<close>, over any list of the interface
    (locale \<open>flush_list\<close>) and over one that has room once it is empty (locale \<open>flush_room\<close>).  The vector list is an
    interpretation of the first; its vector grows outside of the arena.
  \<^item> \<open>FlushMemory\<close>: the skip list in an arena, nodes and pairs, is an interpretation of both: every valid write
    is stored, and what a flush writes is read back from the files of the table.
  \<^item> \<open>BinLogList\<close>: \<^verbatim>\<open>hm4/binloglist.h\<close>, \<^verbatim>\<open>hm4/binlogreplay.h\<close>.

  \<^bold>\<open>Tables on disk.\<close>
  \<^item> \<open>FileWriter\<close>: the buffered writer of \<^verbatim>\<open>include/filewriter.h\<close>.
  \<^item> \<open>FileMeta\<close>: the header of a table, \<^verbatim>\<open>hm4/disk/filemeta.h\<close> and its builder.
  \<^item> \<open>DiskFile\<close>: \<^verbatim>\<open>include/blobguard.h\<close> over addresses of 64 bits, the builders of the data, index and
    line files of \<^verbatim>\<open>hm4/disk/filebuilder.cc\<close>, element access and the forward iterator.
  \<^item> \<open>LCPSearch\<close>: the binary search with a comparison that has a state (\<open>PairLCPCompare\<close>), as a locale
    with its interpretation.
  \<^item> \<open>DiskOpen\<close>, \<open>HotLine\<close>, \<open>HashIndex\<close>, \<open>BTreeIndex\<close>, \<open>DiskList\<close>: \<^verbatim>\<open>hm4/disk/disklist.cc\<close>, the open
    modes, the four searches with the builders of their indexes, and the lookups.  A file is what the
    system maps for it, an argument of \<open>dk_open\<close>; the outcome of a wild read is a value.

  \<^bold>\<open>Commands.\<close>
  \<^item> \<open>Commands\<close>: \<^verbatim>\<open>net/worker/keyvaluecommands/\<close>, one definition per command on single keys and hashes, with
    every check of the parameters in its order: a list interface, a time and the parameters give a response
    and a list.  One time stands for the clock during the whole command, which the code reads anew for each pair.
  \<^item> \<open>KvStore\<close>: what the commands need of a list, as the locale \<open>kv_list\<close> over a map from keys to registers,
    and the proof that a list of the interface \<open>Memlist\<close> that can be written through a pointer has it
    (locale \<open>hint_list\<close>); \<open>KvMemory\<close>: the skip list in an arena has it, as no two pairs share an address.
  \<^item> \<open>CommandSpec\<close>: the requests as a data type, their meaning on the map (\<open>spec\<close>: a response and a list of
    writes), and that each command refines it.

  \<^bold>\<open>Network.\<close>
  \<^item> \<open>IOBuffer\<close>: \<^verbatim>\<open>net/iobuffer.h\<close>, \<^verbatim>\<open>net/ambuffer.h\<close> and the two memory managers of \<^verbatim>\<open>mymemorymanager/\<close>, which
    keep the contract \<open>memory_manager\<close>; \<open>realloc\<close> is a parameter.
  \<^item> \<open>Worker\<close>, \<open>WorkerSpec\<close>: \<^verbatim>\<open>net/worker/keyvalueworker.h\<close>, from the bytes of a request to the bytes of its
    reply; the commands of other modules are an argument of the table of commands.
  \<^item> \<open>SparseArray\<close>: \<^verbatim>\<open>include/sparsearray/sparsearray.h\<close>, a map over a dense vector.
  \<^item> \<open>AsyncLoop\<close>, \<open>AsyncSpec\<close>: \<^verbatim>\<open>net/asyncloop.h.cc\<close> over \<^verbatim>\<open>net/selector/pollselector.cc\<close>.  One event of a
    descriptor is one step, which carries what the system call returns; a failed \<open>assert\<close> has no result.
  \<^item> \<open>Server\<close>: all of it together, on the skip list in an arena.
  \<^item> \<open>Decimal\<close>, \<open>RedisProtocol\<close>: numbers as text (\<^verbatim>\<open>include/mystring.h\<close>), the parser of the requests and
    the writers of the responses of \<^verbatim>\<open>net/protocol/\<close>.

  \<^bold>\<open>Data structures inside a value.\<close>  Commands keep small structures in the value of a pair.
  \<^item> \<open>Murmur\<close>: the hash of \<^verbatim>\<open>include/murmur_hash_64a.h\<close> and the mixer of \<^verbatim>\<open>include/murmur_hash_mixer.h\<close>.
  \<^item> \<open>ItemSlot\<close>, \<open>RingBuffer\<close>: \<^verbatim>\<open>include/ringbuffer.h\<close>, a bounded queue that drops its oldest string.
  \<^item> \<open>MisraGries\<close>, \<open>HeavyHitter\<close>: \<^verbatim>\<open>include/misragries.h\<close>, \<^verbatim>\<open>include/heavyhitter.h\<close>, the frequent items of a
    stream with the bounds of their counters, and the items with the best scores.
  \<^item> \<open>CuckooFilter\<close>: \<^verbatim>\<open>include/cuckoofilter.h\<close>, an approximate set.

  \<^bold>\<open>What is shown.\<close>  The memory lists refine a last writer wins register per key and keep exact
  counters; the iterators merge; an insertion through the flush list always succeeds, and what a flush wrote is read back from disk; the log is in
  step with the list and its replay restores it; what a table was built from is what its lookups, its
  \<open>find\<close> and its iteration return, through each of the four searches, and iteration never leaves the
  mapped file, whatever it holds.  Every
  command of the datatype \<open>Request\<close> (single keys and hashes, without MSETXX, DUMP and PERSISTDELETED) refines an operation on a map, alone and in any sequence,
  for the requests that \<open>request_ok\<close> admits; a client of the server gets the reply
  to its request, in whatever pieces both travel, and the loop keeps its buffers and its clients in order.  The ring buffer is a queue, the sketches keep their bounds, and the
  filter has no false negatives.  Where the code does not keep its promise the exact condition is a
  hypothesis, and a separate theorem shows that the exception is real.

  \<^bold>\<open>Fuel and bounds.\<close>  The collection iterator has fuel, and as many steps as there are pairs are
  proved to be enough.  The loops over disk files, the buffered writer and the lanes of the skip list are partial functions into
  option, and that they return is proved.  All other functions are total.

  \<^bold>\<open>Not modelled.\<close>  Further list implementations (AVL list, unrolled lists), the
  background thread of the concurrent flush list, directory listing and memory mapping, the system calls
  of the network loop, its variant over completion queues and the selectors of other systems, the
  commands over ranges and those of the modules (bit sets, queues, sketches, curves, vectors, indexes),
  which use iterators and floating point, logging and printing, third party code.
\<close>

section \<open>Properties that span components\<close>

lemma op_ok_mono: "op_ok P op \<Longrightarrow> op_ok (\<lambda>k. True) op"
  by (cases op) simp_all

text \<open>
  The memory lists are interchangeable: the same sequence of writes with explicit creation times
  gives the same contents in a vector list and in a linked list, with any allocators, as long as
  neither runs out of memory.
\<close>

lemma memory_lists_agree:
  assumes "list_all (\<lambda>(now, op). op_ok nul_free op \<and> explicit_write op) ops" "k \<noteq> []" "nul_free k"
    and "l_run (vl_ops A grow) ops (vl_empty st) = (rs, v)" "list_all ir_ok rs"
    and "l_run (ll_ops A') ops (ll_empty st') = (rs', l)" "list_all ir_ok rs'"
  shows "map_option reg_of (vl_getPair v k) = map_option reg_of (ll_getPair l k)"
proof -
  have o: "list_all (\<lambda>(now, op). op_ok (\<lambda>k. True) op \<and> explicit_write op) ops"
    using assms(1) op_ok_mono by (auto simp: list_all_iff)
  then have "vl_inv v" "ll_inv l"
    using vl.run_inv [OF vl_inv_empty, of ops A grow st] ll.run_inv [OF ll_inv_empty, of ops A' st'] assms(1,4,6)
    by (simp_all add: list_all_iff case_prod_beta)
  then show ?thesis
    using vl.run_registers [OF vl_inv_empty o assms(4,5)] ll.run_registers [OF ll_inv_empty assms(1,6,7)]
      vl.getPair_lookup [of v k A grow] ll.getPair_lookup [of l k A'] assms(2,3)
    by (simp add: vl_empty_def ll_empty_def)
qed


end
